(* ===== verification/Prelude.thy ===== *)
theory Prelude
  imports Main "HOL-Library.Word" "HOL-Library.Code_Target_Nat"
begin

text \<open>
  Shared vocabulary of the development: the machine types of the code
  (\<open>std::uint8_t\<close> to \<open>std::uint64_t\<close> as words of that width), the exceptions the code
  throws as values of a sum type, sequencing of code that may throw, decimal
  rendering of numbers (\<open>std::to_string\<close>), and byte-list segments with the little- and
  big-endian reading of a byte list.

  Collections: \<open>rejects_intros\<close> holds the rules that propagate "every rejection is a
  \<open>std::runtime_error\<close> that starts with the format's name" through the structure of a
  definition; \<open>word_nat_simps\<close> moves word arithmetic that does not wrap to \<open>nat\<close>.
\<close>

unbundle bit_operations_syntax

named_theorems rejects_intros
named_theorems word_nat_simps

type_synonym u8 = "8 word"
type_synonym u16 = "16 word"
type_synonym u32 = "32 word"
type_synonym u64 = "64 word"
type_synonym bytes = "u8 list"

section \<open>Exceptions as values\<close>

text \<open>
  What a call can raise: a \<open>std::runtime_error\<close> with its message; any other
  \<open>std::exception\<close>, with its type's name and its \<open>what()\<close>; or an access outside the
  memory of a buffer, which C++ leaves undefined and which no code may reach.
\<close>

datatype cpp_error =
    runtime_error string
  | other_exception string string
  | memory_fault

type_synonym 'a res = "cpp_error + 'a"

definition bindE :: "'e + 'a \<Rightarrow> ('a \<Rightarrow> 'e + 'b) \<Rightarrow> 'e + 'b" where
  "bindE m f = (case m of Inl e \<Rightarrow> Inl e | Inr x \<Rightarrow> f x)"

fun mapE :: "('a \<Rightarrow> 'e + 'b) \<Rightarrow> 'a list \<Rightarrow> 'e + 'b list" where
  "mapE f [] = Inr []"
| "mapE f (x # xs) = bindE (f x) (\<lambda>y. bindE (mapE f xs) (\<lambda>ys. Inr (y # ys)))"

text \<open>A \<open>for\<close> loop over a sequence, with its variables as the state.\<close>

fun foldE :: "('s \<Rightarrow> 'a \<Rightarrow> 'e + 's) \<Rightarrow> 's \<Rightarrow> 'a list \<Rightarrow> 'e + 's" where
  "foldE f s [] = Inr s"
| "foldE f s (x # xs) = bindE (f s x) (\<lambda>s'. foldE f s' xs)"

section \<open>Rendering and bytes\<close>

definition digit_char :: "nat \<Rightarrow> char" where
  "digit_char d = char_of (48 + d)"

fun dec :: "nat \<Rightarrow> string" where
  "dec n = (if n < 10 then [digit_char n] else dec (n div 10) @ [digit_char (n mod 10)])"

declare dec.simps [simp del]

definition to_string :: "'a::len word \<Rightarrow> string" where
  "to_string w = dec (unat w)"

definition to_string_signed :: "'a::len word \<Rightarrow> string" where
  "to_string_signed w = (if sint w < 0 then CHR ''-'' # dec (nat (- sint w)) else dec (nat (sint w)))"

definition segment :: "nat \<Rightarrow> nat \<Rightarrow> 'a list \<Rightarrow> 'a list" where
  "segment off n xs = take n (drop off xs)"

definition overwrite :: "nat \<Rightarrow> 'a list \<Rightarrow> 'a list \<Rightarrow> 'a list" where
  "overwrite off ys xs = take off xs @ ys @ drop (off + length ys) xs"

text \<open>
  Reading \<open>n\<close> bytes at a pointer \<open>off\<close> bytes into a block of memory, and writing them.
\<close>

definition mem_read :: "bytes \<Rightarrow> nat \<Rightarrow> nat \<Rightarrow> bytes res" where
  "mem_read block off n = (if off + n \<le> length block then Inr (segment off n block) else Inl memory_fault)"

definition mem_write :: "bytes \<Rightarrow> nat \<Rightarrow> bytes \<Rightarrow> bytes res" where
  "mem_write block off bs =
     (if off + length bs \<le> length block then Inr (overwrite off bs block) else Inl memory_fault)"

fun le_value :: "bytes \<Rightarrow> nat" where
  "le_value [] = 0"
| "le_value (b # bs) = unat b + 256 * le_value bs"

fun le_bytes :: "nat \<Rightarrow> nat \<Rightarrow> bytes" where
  "le_bytes 0 n = []"
| "le_bytes (Suc k) n = word_of_nat n # le_bytes k (n div 256)"

definition byte_char :: "u8 \<Rightarrow> char" where
  "byte_char b = char_of (unat b)"

section \<open>Lemmas on sequencing\<close>

lemma bindE_simps [simp]:
  "bindE (Inl e) f = Inl e"
  "bindE (Inr x) f = f x"
  by (simp_all add: bindE_def)

lemma bindE_cong [fundef_cong]:
  "m = m' \<Longrightarrow> (\<And>x. m' = Inr x \<Longrightarrow> f x = g x) \<Longrightarrow> bindE m f = bindE m' g"
  by (cases m') simp_all

lemma bindE_InrE [elim!]:
  assumes "bindE m f = Inr y"
  obtains x where "m = Inr x" and "f x = Inr y"
  using assms by (cases m) simp_all

lemma bindE_Inr_iff: "bindE m f = Inr y \<longleftrightarrow> (\<exists>x. m = Inr x \<and> f x = Inr y)"
  by (cases m) simp_all

lemma bindE_Inl_iff: "bindE m f = Inl e \<longleftrightarrow> m = Inl e \<or> (\<exists>x. m = Inr x \<and> f x = Inl e)"
  by (cases m) auto

lemma bindE_assoc: "bindE (bindE m f) g = bindE m (\<lambda>x. bindE (f x) g)"
  by (cases m) simp_all

lemma mapE_Inr_length: "mapE f xs = Inr ys \<Longrightarrow> length ys = length xs"
  by (induction xs arbitrary: ys) auto

lemma mapE_Inr_nth:
  "mapE f xs = Inr ys \<Longrightarrow> i < length xs \<Longrightarrow> f (xs ! i) = Inr (ys ! i)"
proof (induction xs arbitrary: ys i)
  case (Cons x xs)
  then show ?case by (cases i) auto
qed simp

lemma foldE_append: "foldE f s (xs @ ys) = bindE (foldE f s xs) (\<lambda>s'. foldE f s' ys)"
  by (induction xs arbitrary: s) (simp_all add: bindE_assoc)

lemma foldE_invariant:
  assumes "foldE f s xs = Inr s'" and "P s"
    and "\<And>s x s'. x \<in> set xs \<Longrightarrow> P s \<Longrightarrow> f s x = Inr s' \<Longrightarrow> P s'"
  shows "P s'"
  using assms by (induction xs arbitrary: s) auto

lemma foldE_cong [fundef_cong]:
  "s = s' \<Longrightarrow> xs = ys \<Longrightarrow> (\<And>t x. x \<in> set ys \<Longrightarrow> f t x = g t x) \<Longrightarrow> foldE f s xs = foldE g s' ys"
  by (induction xs arbitrary: s s' ys) (auto intro!: bindE_cong)

text \<open>
  \<open>rejects fmt r\<close>: a failure in \<open>r\<close> is the documented rejection of the format, never a
  fault and never another exception.
\<close>

definition rejects :: "string \<Rightarrow> 'a res \<Rightarrow> bool" where
  "rejects fmt r \<longleftrightarrow> (\<forall>e. r = Inl e \<longrightarrow> (\<exists>d. e = runtime_error (fmt @ '': '' @ d)))"

lemma rejects_Inr [rejects_intros]: "rejects fmt (Inr x)"
  by (simp add: rejects_def)

lemma rejects_bind [rejects_intros]:
  "rejects fmt m \<Longrightarrow> (\<And>x. m = Inr x \<Longrightarrow> rejects fmt (f x)) \<Longrightarrow> rejects fmt (bindE m f)"
  by (cases m) (simp_all add: rejects_def)

lemma rejects_if [rejects_intros]:
  "(b \<Longrightarrow> rejects fmt m) \<Longrightarrow> (\<not> b \<Longrightarrow> rejects fmt n) \<Longrightarrow> rejects fmt (if b then m else n)"
  by simp

lemma rejects_option [rejects_intros]:
  "(x = None \<Longrightarrow> rejects fmt m) \<Longrightarrow> (\<And>y. x = Some y \<Longrightarrow> rejects fmt (f y)) \<Longrightarrow>
   rejects fmt (case x of None \<Rightarrow> m | Some y \<Rightarrow> f y)"
  by (cases x) simp_all

lemma rejects_let [rejects_intros]:
  "(\<And>x. x = a \<Longrightarrow> rejects fmt (f x)) \<Longrightarrow> rejects fmt (let x = a in f x)"
  by simp

lemma rejects_prod [rejects_intros]: "(\<And>x y. p = (x, y) \<Longrightarrow> rejects fmt (f x y)) \<Longrightarrow> rejects fmt (case p of (x, y) \<Rightarrow> f x y)"
  by (cases p) simp

lemma rejects_mapE [rejects_intros]:
  "(\<And>x. x \<in> set xs \<Longrightarrow> rejects fmt (f x)) \<Longrightarrow> rejects fmt (mapE f xs)"
  by (induction xs) (auto intro!: rejects_intros)

lemma rejects_foldE [rejects_intros]:
  "(\<And>s x. x \<in> set xs \<Longrightarrow> rejects fmt (f s x)) \<Longrightarrow> rejects fmt (foldE f s xs)"
  by (induction xs arbitrary: s) (auto intro!: rejects_intros)

lemma rejects_foldE_invariant:
  assumes "P s" and "\<And>s x. x \<in> set xs \<Longrightarrow> P s \<Longrightarrow> rejects fmt (f s x)"
    and "\<And>s x s'. x \<in> set xs \<Longrightarrow> P s \<Longrightarrow> f s x = Inr s' \<Longrightarrow> P s'"
  shows "rejects fmt (foldE f s xs)"
  using assms
proof (induction xs arbitrary: s)
  case (Cons x xs)
  have "rejects fmt (foldE f s' xs)" if "f s x = Inr s'" for s'
  proof (rule Cons.IH)
    show "P s'" using Cons.prems(3) [of x s s'] Cons.prems(1) that by simp
  qed (blast intro: Cons.prems(2,3) list.set_intros(2))+
  with Cons.prems show ?case by (simp add: rejects_bind)
qed (simp add: rejects_Inr)

section \<open>Lemmas on segments\<close>

lemma length_segment [simp]: "length (segment off n xs) = min n (length xs - off)"
  by (simp add: segment_def)

lemma segment_full [simp]: "segment 0 (length xs) xs = xs"
  by (simp add: segment_def)

lemma segment_segment: "off' + n' \<le> n \<Longrightarrow> segment off' n' (segment off n xs) = segment (off + off') n' xs"
  by (simp add: segment_def drop_take min_def add.commute)

lemma nth_segment: "i < n \<Longrightarrow> off + i < length xs \<Longrightarrow> segment off n xs ! i = xs ! (off + i)"
  by (simp add: segment_def)

lemma segment_append: "segment off n xs @ segment (off + n) m xs = segment off (n + m) xs"
  by (simp add: segment_def take_add) (simp add: add.commute)

lemma segment_eqI:
  assumes "off + n \<le> length xs" and "off + n \<le> length ys"
    and "\<And>i. off \<le> i \<Longrightarrow> i < off + n \<Longrightarrow> xs ! i = ys ! i"
  shows "segment off n xs = segment off n ys"
  using assms by (auto intro: nth_equalityI simp: nth_segment)

lemma length_overwrite [simp]:
  "off + length ys \<le> length xs \<Longrightarrow> length (overwrite off ys xs) = length xs"
  by (simp add: overwrite_def)

lemma nth_overwrite:
  assumes "off + length ys \<le> length xs" and "i < length xs"
  shows "overwrite off ys xs ! i =
    (if off \<le> i \<and> i < off + length ys then ys ! (i - off) else xs ! i)"
  using assms by (auto simp: overwrite_def nth_append)

lemma segment_overwrite_same:
  "off + length ys \<le> length xs \<Longrightarrow> n = length ys \<Longrightarrow> segment off n (overwrite off ys xs) = ys"
  by (simp add: segment_def overwrite_def)

lemma segment_overwrite_other:
  assumes "off + length ys \<le> length xs" and "off' + n \<le> off \<or> off + length ys \<le> off'"
    and "off' + n \<le> length xs"
  shows "segment off' n (overwrite off ys xs) = segment off' n xs"
  using assms by (intro segment_eqI) (auto simp: nth_overwrite)

lemma take_overwrite: "n \<le> off \<Longrightarrow> off \<le> length xs \<Longrightarrow> take n (overwrite off ys xs) = take n xs"
  by (simp add: overwrite_def)

section \<open>Lemmas on byte values\<close>

lemma length_le_bytes [simp]: "length (le_bytes k n) = k"
  by (induction k arbitrary: n) simp_all

lemma le_value_less: "le_value bs < 256 ^ length bs"
proof (induction bs)
  case (Cons b bs)
  have "unat b < 256" using unsigned_less [of b, where 'a = nat] by simp
  with Cons show ?case by simp
qed simp

lemma le_value_le_bytes: "le_value (le_bytes k n) = n mod 256 ^ k"
proof (induction k arbitrary: n)
  case (Suc k)
  have "n mod (256 * 256 ^ k) = n mod 256 + 256 * (n div 256 mod 256 ^ k)"
    by (rule mod_mult2_eq [THEN trans]) simp
  with Suc show ?case by (simp add: unat_of_nat)
qed simp

lemma le_bytes_le_value: "length bs = k \<Longrightarrow> le_bytes k (le_value bs) = bs"
proof (induction bs arbitrary: k)
  case (Cons b bs)
  have "unat b < 256" using unsigned_less [of b, where 'a = nat] by simp
  moreover have "word_of_nat (unat b + 256 * le_value bs) = b"
    using \<open>unat b < 256\<close> by (simp del: of_nat_add of_nat_mult add: word_unat_eq_iff unat_of_nat)
  ultimately show ?case using Cons by (cases k) (auto simp: div_mult_self1)
qed simp

section \<open>Lemmas on words that do not wrap\<close>

lemma unat_add_nowrap [word_nat_simps]:
  fixes a b :: "'a::len word"
  shows "unat a + unat b < 2 ^ LENGTH('a) \<Longrightarrow> unat (a + b) = unat a + unat b"
  by (simp add: unat_word_ariths)

lemma unat_mult_nowrap [word_nat_simps]:
  fixes a b :: "'a::len word"
  shows "unat a * unat b < 2 ^ LENGTH('a) \<Longrightarrow> unat (a * b) = unat a * unat b"
  by (simp add: unat_word_ariths)

lemma unat_diff_nowrap [word_nat_simps]:
  fixes a b :: "'a::len word"
  shows "b \<le> a \<Longrightarrow> unat (a - b) = unat a - unat b"
  by (simp add: unat_sub)

lemma unat_of_nat_small [word_nat_simps]:
  "n < 2 ^ LENGTH('a) \<Longrightarrow> unat (word_of_nat n :: 'a::len word) = n"
  by (simp add: unat_of_nat)

lemma ucast_of_nat_small [word_nat_simps]:
  assumes "n < 2 ^ LENGTH('a::len)"
  shows "(ucast (word_of_nat n :: 'a word) :: 'b::len word) = word_of_nat n"
proof -
  have "(ucast (word_of_nat n :: 'a word) :: 'b word) = word_of_nat (unat (word_of_nat n :: 'a word))"
    by simp
  then show ?thesis using assms by (simp add: unat_of_nat)
qed

lemma unat_inc_nowrap:
  fixes a b :: "'a::len word"
  assumes "a < b"
  shows "unat (a + 1) = unat a + 1"
proof -
  have "unat a + 1 \<le> unat b" using assms by (simp add: word_less_nat_alt)
  also have "unat b < 2 ^ LENGTH('a)" by (rule unsigned_less)
  finally show ?thesis by (simp add: unat_add_nowrap)
qed

lemma unat_u32_less: "unat (w :: u32) < 4294967296"
  using unsigned_less [of w, where 'a = nat] by simp

lemma unat_u16_less: "unat (w :: u16) < 65536"
  using unsigned_less [of w, where 'a = nat] by simp

lemma unat_u8_less: "unat (w :: u8) < 256"
  using unsigned_less [of w, where 'a = nat] by simp

lemma unat_u64_less: "unat (w :: u64) < 18446744073709551616"
  using unsigned_less [of w, where 'a = nat] by simp

lemma unat_ucast_u16: "unat (ucast (w :: u16) :: u64) = unat w"
  using unat_u16_less [of w] by (simp add: unsigned_ucast_eq take_bit_nat_eq_self)

lemma unat_ucast_u32: "unat (ucast (w :: u32) :: u64) = unat w"
  using unat_u32_less [of w] by (simp add: unsigned_ucast_eq take_bit_nat_eq_self)

end
