(* ===== verification/Byte_Swap.thy ===== *)
theory Byte_Swap
  imports Prelude
begin

text \<open>
  \<open>src/internal/ByteSwap.hpp\<close>: reversing the bytes of an integer with masks and shifts,
  and converting between the byte order of a file and that of the machine
  (\<open>std::endian::native\<close>, an argument \<open>host\<close> here).

  The lemmas show that the mask-and-shift code reverses the byte sequence of the value,
  for each of the three widths, that it is its own inverse, and that reading an integer
  with \<open>memcpy\<close> and converting it gives the value the file's byte order means on a
  machine of either byte order.
\<close>

section \<open>Definitions\<close>

datatype ByteOrder = Little | Big

definition ByteSwap16 :: "u16 \<Rightarrow> u16" where
  "ByteSwap16 input =
     push_bit 8 (input AND 0x00FF) OR drop_bit 8 (input AND 0xFF00)"

definition ByteSwap32 :: "u32 \<Rightarrow> u32" where
  "ByteSwap32 input =
     push_bit 24 (input AND 0x000000FF) OR
     push_bit 8 (input AND 0x0000FF00) OR
     drop_bit 8 (input AND 0x00FF0000) OR
     drop_bit 24 (input AND 0xFF000000)"

definition ByteSwap64 :: "u64 \<Rightarrow> u64" where
  "ByteSwap64 input =
     push_bit 56 (input AND 0x00000000000000FF) OR
     push_bit 40 (input AND 0x000000000000FF00) OR
     push_bit 24 (input AND 0x0000000000FF0000) OR
     push_bit 8 (input AND 0x00000000FF000000) OR
     drop_bit 8 (input AND 0x000000FF00000000) OR
     drop_bit 24 (input AND 0x0000FF0000000000) OR
     drop_bit 40 (input AND 0x00FF000000000000) OR
     drop_bit 56 (input AND 0xFF00000000000000)"

text \<open>The template: the branch is chosen by \<open>sizeof(T)\<close>.\<close>

definition ByteSwap :: "'a::len word \<Rightarrow> 'a word" where
  "ByteSwap value =
     (if LENGTH('a) = 16 then ucast (ByteSwap16 (ucast value))
      else if LENGTH('a) = 32 then ucast (ByteSwap32 (ucast value))
      else if LENGTH('a) = 64 then ucast (ByteSwap64 (ucast value))
      else value)"

definition ByteSwapIfNeeded :: "ByteOrder \<Rightarrow> 'a::len word \<Rightarrow> bool \<Rightarrow> 'a word" where
  "ByteSwapIfNeeded host value file_is_little_endian =
     (if (host = Little) = file_is_little_endian then value else ByteSwap value)"

text \<open>The object representation of an integer: what \<open>memcpy\<close> reads and writes.\<close>

definition load_word :: "ByteOrder \<Rightarrow> bytes \<Rightarrow> 'a::len word" where
  "load_word host bs = word_of_nat (le_value (if host = Little then bs else rev bs))"

definition store_word :: "ByteOrder \<Rightarrow> 'a::len word \<Rightarrow> bytes" where
  "store_word host w =
     (let bs = le_bytes (LENGTH('a) div 8) (unat w) in if host = Little then bs else rev bs)"

section \<open>The mask-and-shift code reverses the bytes\<close>

lemma le_value_append: "le_value (xs @ ys) = le_value xs + 256 ^ length xs * le_value ys"
  by (induction xs) (simp_all add: algebra_simps)

lemma bit_le_value:
  "bit (le_value bs) n \<longleftrightarrow> n div 8 < length bs \<and> bit (bs ! (n div 8)) (n mod 8)"
proof (induction bs arbitrary: n)
  case Nil
  then show ?case by simp
next
  case (Cons b bs)
  have "unat b AND push_bit 8 (le_value bs) = 0"
    by (rule bit_eqI) (auto simp: bit_simps dest: bit_imp_le_length)
  then have split: "le_value (b # bs) = unat b OR push_bit 8 (le_value bs)"
    by (simp add: disjunctive_add_eq_or [symmetric] push_bit_eq_mult)
  show ?case
  proof (cases "n < 8")
    case True
    then show ?thesis by (simp del: le_value.simps add: split bit_simps)
  next
    case False
    then obtain m where m: "n = m + 8" by (metis add.commute le_Suc_ex not_less)
    have "(m + 8) div 8 = Suc (m div 8)" and "(m + 8) mod 8 = m mod 8" by simp_all
    then show ?thesis
      using Cons [of m] by (auto simp del: le_value.simps simp: split m bit_simps dest: bit_imp_le_length)
  qed
qed

lemma bit_load_little:
  "bit (word_of_nat (le_value bs) :: 'a::len word) n \<longleftrightarrow>
     n < LENGTH('a) \<and> n div 8 < length bs \<and> bit (bs ! (n div 8)) (n mod 8)"
  by (simp add: bit_simps bit_le_value)

lemma bit_ByteSwap16: "n < 16 \<Longrightarrow> bit (ByteSwap16 x) n = bit x (8 * (1 - n div 8) + n mod 8)"
proof -
  have "\<forall>n \<in> set [0..<16]. bit (ByteSwap16 x) n = bit x (8 * (1 - n div 8) + n mod 8)"
    by (simp add: ByteSwap16_def bit_simps upt_conv_Cons) (simp add: numeral_eq_Suc)
  then show "n < 16 \<Longrightarrow> ?thesis" by simp
qed

lemma bit_ByteSwap32: "n < 32 \<Longrightarrow> bit (ByteSwap32 x) n = bit x (8 * (3 - n div 8) + n mod 8)"
proof -
  have "\<forall>n \<in> set [0..<32]. bit (ByteSwap32 x) n = bit x (8 * (3 - n div 8) + n mod 8)"
    by (simp add: ByteSwap32_def bit_simps upt_conv_Cons) (simp add: numeral_eq_Suc)
  then show "n < 32 \<Longrightarrow> ?thesis" by simp
qed

lemma bit_ByteSwap64: "n < 64 \<Longrightarrow> bit (ByteSwap64 x) n = bit x (8 * (7 - n div 8) + n mod 8)"
proof -
  have "\<forall>n \<in> set [0..<64]. bit (ByteSwap64 x) n = bit x (8 * (7 - n div 8) + n mod 8)"
    by (simp add: ByteSwap64_def bit_simps upt_conv_Cons) (simp add: numeral_eq_Suc)
  then show "n < 64 \<Longrightarrow> ?thesis" by simp
qed

text \<open>The loaded value of a reversed byte sequence is the swapped value.\<close>

lemma swapped_index: "(n :: nat) < 8 * k \<Longrightarrow> 8 * (k - 1 - n div 8) + n mod 8 < 8 * k \<and> n div 8 < k"
proof -
  assume "n < 8 * k"
  then have "n div 8 < k" by (simp add: less_mult_imp_div_less mult.commute)
  moreover have "n mod 8 < 8" by simp
  ultimately show ?thesis by linarith
qed

lemma ByteSwap16_load:
  assumes "length bs = 2"
  shows "ByteSwap16 (word_of_nat (le_value bs)) = word_of_nat (le_value (rev bs))"
proof (rule bit_word_eqI)
  fix n assume "n < LENGTH(16)"
  then show "bit (ByteSwap16 (word_of_nat (le_value bs))) n = bit (word_of_nat (le_value (rev bs)) :: u16) n"
    using assms swapped_index [of n 2] by (simp add: bit_ByteSwap16 bit_load_little rev_nth)
qed

lemma ByteSwap32_load:
  assumes "length bs = 4"
  shows "ByteSwap32 (word_of_nat (le_value bs)) = word_of_nat (le_value (rev bs))"
proof (rule bit_word_eqI)
  fix n assume "n < LENGTH(32)"
  then show "bit (ByteSwap32 (word_of_nat (le_value bs))) n = bit (word_of_nat (le_value (rev bs)) :: u32) n"
    using assms swapped_index [of n 4] by (simp add: bit_ByteSwap32 bit_load_little rev_nth)
qed

lemma ByteSwap64_load:
  assumes "length bs = 8"
  shows "ByteSwap64 (word_of_nat (le_value bs)) = word_of_nat (le_value (rev bs))"
proof (rule bit_word_eqI)
  fix n assume "n < LENGTH(64)"
  then show "bit (ByteSwap64 (word_of_nat (le_value bs))) n = bit (word_of_nat (le_value (rev bs)) :: u64) n"
    using assms swapped_index [of n 8] by (simp add: bit_ByteSwap64 bit_load_little rev_nth)
qed

text \<open>The integer types the template is used with.\<close>

definition int_type :: "'a::len word itself \<Rightarrow> bool" where
  "int_type _ \<longleftrightarrow> LENGTH('a) \<in> {8, 16, 32, 64}"

lemma int_type_simps [simp]:
  "int_type TYPE(u8)" "int_type TYPE(u16)" "int_type TYPE(u32)" "int_type TYPE(u64)"
  by (simp_all add: int_type_def)

lemma ByteSwap_load:
  assumes "int_type TYPE('a::len word)" and len: "length bs = LENGTH('a) div 8"
  shows "ByteSwap (word_of_nat (le_value bs) :: 'a word) = word_of_nat (le_value (rev bs))"
proof -
  have small: "le_value bs < 2 ^ LENGTH('a)" "le_value (rev bs) < 2 ^ LENGTH('a)"
    using le_value_less [of bs] le_value_less [of "rev bs"] assms(1) len
    by (auto simp: int_type_def)
  consider "LENGTH('a) = 8" | "LENGTH('a) = 16" | "LENGTH('a) = 32" | "LENGTH('a) = 64"
    using assms(1) by (auto simp: int_type_def)
  then show ?thesis
  proof cases
    case 1
    with len obtain b where "bs = [b]" by (auto simp: length_Suc_conv)
    then show ?thesis using 1 by (simp add: ByteSwap_def)
  next
    case 2
    with len small show ?thesis
      by (simp add: ByteSwap_def ucast_of_nat_small ByteSwap16_load)
  next
    case 3
    with len small show ?thesis
      by (simp add: ByteSwap_def ucast_of_nat_small ByteSwap32_load)
  next
    case 4
    with len small show ?thesis
      by (simp add: ByteSwap_def ucast_of_nat_small ByteSwap64_load)
  qed
qed

lemma load_word_converted:
  assumes "int_type TYPE('a::len word)" and "length bs = LENGTH('a) div 8"
  shows "ByteSwapIfNeeded host (load_word host bs :: 'a word) (order = Little) = load_word order bs"
  using assms ByteSwap_load [of bs, where 'a = 'a] ByteSwap_load [of "rev bs", where 'a = 'a]
  by (cases host; cases order) (simp_all add: ByteSwapIfNeeded_def load_word_def)

lemma load_store_word:
  assumes "8 dvd LENGTH('a::len)"
  shows "load_word order (store_word order w) = (w :: 'a word)"
proof -
  have "(256 :: nat) ^ (LENGTH('a) div 8) = (2 ^ 8) ^ (LENGTH('a) div 8)" by simp
  also have "\<dots> = 2 ^ LENGTH('a)" using assms by (simp only: power_mult [symmetric]) simp
  finally show ?thesis
    by (simp add: load_word_def store_word_def Let_def le_value_le_bytes)
qed

lemma store_load_word:
  assumes "length bs = LENGTH('a::len) div 8"
  shows "store_word order (load_word order bs :: 'a word) = bs"
proof -
  have "(256 :: nat) ^ (LENGTH('a) div 8) = 2 ^ (8 * (LENGTH('a) div 8))"
    by (simp add: power_mult)
  also have "\<dots> \<le> 2 ^ LENGTH('a)" by (rule power_increasing) simp_all
  finally have "le_value xs < 2 ^ LENGTH('a)" if "length xs = length bs" for xs
    using le_value_less [of xs] that assms by simp
  then show ?thesis
    using assms le_bytes_le_value [of bs] le_bytes_le_value [of "rev bs"]
    by (simp add: load_word_def store_word_def Let_def unat_of_nat)
qed

lemma length_store_word [simp]: "length (store_word order (w :: 'a::len word)) = LENGTH('a) div 8"
  by (simp add: store_word_def Let_def)

lemma ByteSwap_involution:
  assumes "int_type TYPE('a::len word)"
  shows "ByteSwap (ByteSwap w) = (w :: 'a word)"
proof -
  define bs where "bs = store_word Little w"
  have w: "w = word_of_nat (le_value bs)"
    using load_store_word [of Little w] assms by (auto simp: load_word_def bs_def int_type_def)
  have "length bs = LENGTH('a) div 8" by (simp add: bs_def)
  then show ?thesis
    using ByteSwap_load [OF assms, of bs] ByteSwap_load [OF assms, of "rev bs"] by (simp add: w)
qed

section \<open>Reading a value in the order of the file\<close>

text \<open>
  Converting with \<open>ByteSwapIfNeeded\<close> a value that was copied from memory gives, on a
  machine of either byte order, the value that the bytes denote in the order of the file;
  and swapping twice changes nothing.
\<close>

theorem swap_reads_file_order:
  assumes "int_type TYPE('a::len word)" and "length bs = LENGTH('a) div 8"
  shows "ByteSwapIfNeeded host (load_word host bs :: 'a word) (order = Little) = load_word order bs \<and>
    ByteSwap (ByteSwap (load_word host bs :: 'a word)) = load_word host bs"
  using load_word_converted [OF assms] ByteSwap_involution [OF assms(1)] by simp

theorem swap_reads_file_order_witness:
  "ByteSwapIfNeeded Big (load_word Big [0x78, 0x56, 0x34, 0x12] :: u32) True = 0x12345678"
  using swap_reads_file_order [where 'a = 32, of "[0x78, 0x56, 0x34, 0x12]" Big Little]
  by (simp add: load_word_def)

end
