(* ===== verification/Paged_File.thy ===== *)
theory Paged_File
  imports Prelude
begin

text \<open>
  \<open>src/internal/PagedFile.hpp\<close> and \<open>PagedFile.cpp\<close>: a file read in 64 KiB pages that are
  kept once read. The state is the record \<open>PagedFile\<close>: the path, the size taken when the
  file was opened, the pages held so far, and the ranges copied together from several
  pages. \<open>RandomAccessFile::ReadAt\<close> on the open descriptor is the field \<open>read_at\<close>.

  The invariant \<open>paged_ok f content\<close> says that the size fits an \<open>off_t\<close>, that the system supplies the bytes of \<open>content\<close>
  and that every held page holds its part of it. \<open>Ensure\<close> then returns exactly the
  requested range and keeps the invariant, whatever pages were held before: a file read
  in pages answers as a buffer that holds the whole file.
\<close>

section \<open>Definitions\<close>

record PagedFile =
  path :: string
  read_at :: "u64 \<Rightarrow> u64 \<Rightarrow> bytes res"
  fsize :: u64
  pages :: "u64 \<Rightarrow> bytes option"
  joined :: "bytes list"

definition kPageSize :: u64 where
  "kPageSize = 64 * 1024"

text \<open>The constructor: opening the file and asking for its size may fail.\<close>

definition PagedFile_open ::
  "string \<Rightarrow> (string \<Rightarrow> (u64 \<Rightarrow> u64 \<Rightarrow> bytes res) option) \<Rightarrow> (string \<Rightarrow> u64 option) \<Rightarrow> PagedFile res" where
  "PagedFile_open file_path open_file size_of =
     (case open_file file_path of
        None \<Rightarrow> Inl (runtime_error (''Unable to open file: '' @ file_path))
      | Some reader \<Rightarrow>
          (case size_of file_path of
             None \<Rightarrow> Inl (runtime_error (''Unable to read file size: '' @ file_path))
           | Some n \<Rightarrow> Inr \<lparr>path = file_path, read_at = reader, fsize = n, pages = Map.empty, joined = []\<rparr>))"

definition Page :: "PagedFile \<Rightarrow> u64 \<Rightarrow> (bytes \<times> PagedFile) res" where
  "Page f index =
     (case pages f index of
        Some found \<Rightarrow> Inr (found, f)
      | None \<Rightarrow>
          (let start = index * kPageSize;
               len = min kPageSize (fsize f - start)
           in case read_at f start len of
                Inr bs \<Rightarrow> Inr (bs, f\<lparr>pages := (pages f)(index \<mapsto> bs)\<rparr>)
              | Inl (runtime_error _) \<Rightarrow> Inl (runtime_error (''Unable to read file: '' @ path f))
              | Inl e \<Rightarrow> Inl e))"

text \<open>
  The loop of \<open>Ensure\<close> over the pages \<open>index\<close>, \<open>index + 1\<close>, \ldots{}, \<open>last_page\<close>; \<open>together\<close> is what has been
  copied so far. The loop ends after the page \<open>last_page\<close>, which is below
  \<open>2 ^ 48\<close>, so the test before the increment is the test of the loop after it.
\<close>

function JoinPages ::
  "PagedFile \<Rightarrow> u64 \<Rightarrow> u64 \<Rightarrow> u64 \<Rightarrow> u64 \<Rightarrow> bytes \<Rightarrow> (bytes \<times> PagedFile) res" where
  "JoinPages f offset len index last_page together =
     (if index \<le> last_page then
        bindE (Page f index) (\<lambda>(page, f').
          let page_start = index * kPageSize;
              from_pos = max offset page_start - page_start;
              to_pos = min (offset + len) (page_start + kPageSize) - page_start
          in bindE (mem_read page (unat from_pos) (unat (to_pos - from_pos))) (\<lambda>part.
               if index = last_page then Inr (together @ part, f')
               else JoinPages f' offset len (index + 1) last_page (together @ part)))
      else Inr (together, f))"
  by pat_completeness auto
termination
proof (relation "measure (\<lambda>(f, offset, len, index, last_page, together). unat last_page - unat index)", goal_cases)
  case (2 f offset len index last_page together x y z page_start from_pos to_pos part)
  then have "index < last_page" by simp
  then have "unat (index + 1) = unat index + 1" and "unat index < unat last_page"
    by (simp_all add: word_less_nat_alt unat_inc_nowrap)
  then show ?case by simp
qed simp

declare JoinPages.simps [simp del]

definition Ensure :: "PagedFile \<Rightarrow> u64 \<Rightarrow> u64 \<Rightarrow> (bytes \<times> PagedFile) res" where
  "Ensure f offset len =
     (if len = 0 then Inr ([], f)
      else
        let first_page = offset div kPageSize;
            last_page = (offset + len - 1) div kPageSize
        in if first_page = last_page then
             bindE (Page f first_page) (\<lambda>(page, f').
             bindE (mem_read page (unat (offset - first_page * kPageSize)) (unat len)) (\<lambda>bs.
             Inr (bs, f')))
           else
             bindE (JoinPages f offset len first_page last_page []) (\<lambda>(together, f').
             Inr (together, f'\<lparr>joined := joined f' @ [together]\<rparr>)))"

section \<open>The invariant and what it gives\<close>

definition paged_ok :: "PagedFile \<Rightarrow> bytes \<Rightarrow> bool" where
  "paged_ok f content \<longleftrightarrow>
     unat (fsize f) = length content \<and> length content < 2 ^ 63 \<and>
     (\<forall>s n. unat s + unat n \<le> length content \<longrightarrow> read_at f s n = Inr (segment (unat s) (unat n) content)) \<and>
     (\<forall>i bs. pages f i = Some bs \<longrightarrow> bs = segment (unat i * 65536) 65536 content)"

lemma unat_kPageSize [simp]: "unat kPageSize = 65536"
  by (simp add: kPageSize_def)

lemma page_start_nat:
  assumes "unat i * 65536 < length content" and "unat (fsize f) = length content"
  shows "unat (i * kPageSize) = unat i * 65536"
proof -
  have "unat i * 65536 < 2 ^ 64" using assms unat_u64_less [of "fsize f"] by simp
  then show ?thesis by (simp add: unat_mult_nowrap)
qed

lemma Page_ok:
  assumes ok: "paged_ok f content" and i: "unat i * 65536 < length content"
  obtains f' where "Page f i = Inr (segment (unat i * 65536) 65536 content, f')" and "paged_ok f' content"
proof (cases "pages f i")
  case None
  define n where "n = min kPageSize (fsize f - i * kPageSize)"
  have size: "unat (fsize f) = length content" using ok by (simp add: paged_ok_def)
  note start = page_start_nat [OF i size]
  have n: "unat n = min 65536 (length content - unat i * 65536)"
    using i size start by (simp add: n_def min_def word_le_nat_alt unat_sub_if')
  then have "read_at f (i * kPageSize) n = Inr (segment (unat i * 65536) (unat n) content)"
    using ok start i by (simp add: paged_ok_def)
  also have "segment (unat i * 65536) (unat n) content = segment (unat i * 65536) 65536 content"
    by (simp add: segment_def n min_def)
  finally have page: "Page f i = Inr (segment (unat i * 65536) 65536 content,
      f\<lparr>pages := (pages f)(i \<mapsto> segment (unat i * 65536) 65536 content)\<rparr>)"
    using None by (simp add: Page_def Let_def n_def)
  show ?thesis by (rule that [OF page]) (use ok in \<open>auto simp: paged_ok_def\<close>)
next
  case (Some bs)
  then have "bs = segment (unat i * 65536) 65536 content" using ok by (simp add: paged_ok_def)
  with Some show ?thesis by (intro that [of f]) (simp_all add: Page_def ok)
qed

lemma mem_read_segment:
  assumes "a + n \<le> m" and "off + a + n \<le> length xs"
  shows "mem_read (segment off m xs) a n = Inr (segment (off + a) n xs)"
  using assms by (simp add: mem_read_def segment_segment)

lemma JoinPages_ok:
  assumes "paged_ok f content" and "unat offset + unat len \<le> length content" and "0 < unat len"
    and "unat last_page = (unat offset + unat len - 1) div 65536"
    and "unat offset div 65536 \<le> unat index" and "index \<le> last_page"
    and "together = segment (unat offset) (max (unat offset) (unat index * 65536) - unat offset) content"
  shows "\<exists>f'. JoinPages f offset len index last_page together = Inr (segment (unat offset) (unat len) content, f')
      \<and> paged_ok f' content"
  using assms
proof (induction f offset len index last_page together rule: JoinPages.induct)
  case (1 f offset len index last_page together)
  define o' i' e' where "o' = unat offset" and "i' = unat index" and "e' = unat offset + unat len"
  have size: "unat (fsize f) = length content" using 1(2) by (simp add: paged_ok_def)
  have idx: "i' \<le> unat last_page" using "1.prems"(6) by (simp add: i'_def word_le_nat_alt)
  then have below: "i' * 65536 < e'" using "1.prems"(3,4) by (simp add: e'_def i'_def o'_def)
  then have i: "unat index * 65536 < length content" using "1.prems"(2) by (simp add: e'_def i'_def)
  obtain f' where page: "Page f index = Inr (segment (i' * 65536) 65536 content, f')" and ok': "paged_ok f' content"
    using Page_ok [OF "1.prems"(1) i] by (auto simp: i'_def)
  note start = page_start_nat [OF i size]
  have above: "o' < (i' + 1) * 65536" using "1.prems"(5) by (simp add: o'_def i'_def)
  have sum: "unat (offset + len) = e'"
    using "1.prems"(2) size unat_u64_less [of "fsize f"] by (simp add: e'_def unat_add_nowrap)
  define from_pos to_pos where "from_pos = max offset (index * kPageSize) - index * kPageSize"
    and "to_pos = min (offset + len) (index * kPageSize + kPageSize) - index * kPageSize"
  have from_nat: "unat from_pos = max o' (i' * 65536) - i' * 65536"
    using start by (simp add: from_pos_def o'_def i'_def max_def word_le_nat_alt unat_sub_if')
  have next_start: "unat (index * kPageSize + kPageSize) = (i' + 1) * 65536"
    using start i "1.prems"(1) by (simp add: unat_add_nowrap i'_def paged_ok_def)
  have to_nat: "unat to_pos = min e' ((i' + 1) * 65536) - i' * 65536"
    using start sum next_start below
    by (simp add: to_pos_def i'_def min_def word_le_nat_alt unat_sub_if')
  have le: "unat from_pos \<le> unat to_pos" "unat to_pos \<le> 65536" "i' * 65536 + unat to_pos \<le> e'"
    using above below "1.prems"(3) by (auto simp: from_nat to_nat e'_def o'_def)
  then have diff: "unat (to_pos - from_pos) = unat to_pos - unat from_pos"
    by (simp add: unat_sub_if')
  have part: "mem_read (segment (i' * 65536) 65536 content) (unat from_pos) (unat (to_pos - from_pos)) =
      Inr (segment (i' * 65536 + unat from_pos) (unat to_pos - unat from_pos) content)"
    using le "1.prems"(2) by (simp add: mem_read_segment diff e'_def)
  have joined: "together @ segment (i' * 65536 + unat from_pos) (unat to_pos - unat from_pos) content =
      segment o' (min e' ((i' + 1) * 65536) - o') content"
  proof -
    have "i' * 65536 + unat from_pos = o' + (max o' (i' * 65536) - o')"
      by (simp add: from_nat max_def)
    moreover have "max o' (i' * 65536) - o' + (unat to_pos - unat from_pos) = min e' ((i' + 1) * 65536) - o'"
      using le above below by (simp add: from_nat to_nat max_def min_def)
    ultimately show ?thesis
      using "1.prems"(7) segment_append [of o' "max o' (i' * 65536) - o'" content] by (simp add: o'_def i'_def)
  qed
  have step: "JoinPages f offset len index last_page together =
      (if index = last_page then Inr (segment o' (min e' ((i' + 1) * 65536) - o') content, f')
       else JoinPages f' offset len (index + 1) last_page
              (segment o' (min e' ((i' + 1) * 65536) - o') content))"
    using "1.prems"(6) page part unfolding joined [symmetric] from_pos_def to_pos_def
    by (subst JoinPages.simps) (simp add: Let_def)
  show ?case
  proof (cases "index = last_page")
    case True
    then have "min e' ((i' + 1) * 65536) - o' = unat len"
      using "1.prems"(3,4) by (simp add: e'_def i'_def o'_def)
    with True step ok' show ?thesis by (simp add: o'_def)
  next
    case False
    then have less: "index < last_page" using "1.prems"(6) by simp
    then have inc: "unat (index + 1) = i' + 1" by (simp add: unat_inc_nowrap i'_def)
    have "index + 1 \<le> last_page" using less inc by (simp add: word_le_nat_alt word_less_nat_alt i'_def)
    moreover have "(i' + 1) * 65536 \<le> e' - 1"
      using less "1.prems"(3,4) by (simp add: word_less_nat_alt i'_def e'_def) 
    then have "min e' ((i' + 1) * 65536) - o' = max o' (unat (index + 1) * 65536) - o'"
      using above below by (simp add: inc max_def min_def)
    ultimately have "\<exists>f''. JoinPages f' offset len (index + 1) last_page
        (segment o' (min e' ((i' + 1) * 65536) - o') content) = Inr (segment o' (unat len) content, f'')
        \<and> paged_ok f'' content"
      using "1.IH" [OF "1.prems"(6) page refl refl refl refl
        part [unfolded from_pos_def to_pos_def] False ok' "1.prems"(2-4),
        folded from_pos_def to_pos_def, unfolded joined] "1.prems"(5) inc
      by (simp add: o'_def i'_def)
    with False step show ?thesis by (simp add: o'_def)
  qed
qed

lemma Ensure_ok:
  assumes ok: "paged_ok f content" and fits: "unat offset + unat len \<le> length content"
  obtains f' where "Ensure f offset len = Inr (segment (unat offset) (unat len) content, f')" and "paged_ok f' content"
proof (cases "len = 0")
  case True
  then show ?thesis using ok by (intro that [of f]) (simp_all add: Ensure_def segment_def)
next
  case False
  define a b where "a = unat offset" and "b = unat offset + unat len - 1"
  have pos: "0 < unat len" using False by (simp add: unat_gt_0)
  have small: "unat offset + unat len < 2 ^ 63" using ok fits by (simp add: paged_ok_def)
  have size: "unat (fsize f) = length content" using ok by (simp add: paged_ok_def)
  have first: "unat (offset div kPageSize) = a div 65536" by (simp add: unat_div a_def)
  have last: "unat ((offset + len - 1) div kPageSize) = b div 65536"
  proof -
    have "unat (offset + len) = unat offset + unat len" using small by (simp add: unat_add_nowrap)
    then have "unat (offset + len - 1) = b"
      using pos by (simp add: b_def word_le_nat_alt unat_diff_nowrap)
    then show ?thesis by (simp add: unat_div)
  qed
  have i: "unat (offset div kPageSize) * 65536 < length content"
    using fits pos by (simp add: first a_def) 
  show ?thesis
  proof (cases "offset div kPageSize = (offset + len - 1) div kPageSize")
    case True
    then have same: "a div 65536 = b div 65536" using first last by simp
    obtain f' where page: "Page f (offset div kPageSize) = Inr (segment (a div 65536 * 65536) 65536 content, f')"
      and ok': "paged_ok f' content" using Page_ok [OF ok i] by (auto simp: first)
    have start: "unat (offset - offset div kPageSize * kPageSize) = a - a div 65536 * 65536"
      using page_start_nat [OF i size] by (subst unat_diff_nowrap) (simp_all add: word_le_nat_alt first a_def)
    have "a - a div 65536 * 65536 + unat len \<le> 65536"
      using same pos by (simp add: a_def b_def)
    then have "mem_read (segment (a div 65536 * 65536) 65536 content) (a - a div 65536 * 65536) (unat len) =
        Inr (segment (unat offset) (unat len) content)"
      using fits by (subst mem_read_segment) (simp_all add: a_def)
    then show ?thesis
      using False True page start ok' by (intro that [of f']) (simp_all add: Ensure_def Let_def)
  next
    case False
    have "\<exists>f'. JoinPages f offset len (offset div kPageSize) ((offset + len - 1) div kPageSize) [] =
        Inr (segment (unat offset) (unat len) content, f') \<and> paged_ok f' content"
    proof (rule JoinPages_ok [OF ok fits pos])
      show "unat ((offset + len - 1) div kPageSize) = (unat offset + unat len - 1) div 65536"
        using last by (simp add: b_def)
      show "offset div kPageSize \<le> (offset + len - 1) div kPageSize"
        using pos by (simp add: word_le_nat_alt first last a_def b_def div_le_mono)
      show "[] = segment (unat offset) (max (unat offset) (unat (offset div kPageSize) * 65536) - unat offset) content"
        by (simp add: first a_def segment_def max_def)
    qed (simp add: first a_def)
    then obtain f' where "JoinPages f offset len (offset div kPageSize) ((offset + len - 1) div kPageSize) [] =
        Inr (segment (unat offset) (unat len) content, f')" and "paged_ok f' content" by blast
    then show ?thesis
      using False \<open>len \<noteq> 0\<close> by (intro that) (auto simp: Ensure_def Let_def paged_ok_def)
  qed
qed

section \<open>The pages give the bytes of the file\<close>

text \<open>
  C4: for a range inside the file, \<open>Ensure\<close> succeeds and gives exactly the bytes of the range,
  whether it lies in one page or has to be joined from several, and the pages kept
  afterwards are again pages of the file.
\<close>

theorem ensure_gives_range:
  assumes "paged_ok f content" and "unat offset + unat len \<le> length content"
  shows "\<exists>f'. Ensure f offset len = Inr (segment (unat offset) (unat len) content, f') \<and> paged_ok f' content"
  using Ensure_ok [OF assms] by blast

definition sample_paged :: "bytes \<Rightarrow> PagedFile" where
  "sample_paged content =
     \<lparr>path = ''sample'', read_at = (\<lambda>s n. Inr (segment (unat s) (unat n) content)),
      fsize = word_of_nat (length content), pages = Map.empty, joined = []\<rparr>"

lemma sample_paged_ok: "length content < 2 ^ 63 \<Longrightarrow> paged_ok (sample_paged content) content"
  by (simp add: paged_ok_def sample_paged_def unat_of_nat)

theorem ensure_gives_range_witness:
  "\<exists>f'. Ensure (sample_paged (replicate 65536 0 @ [1, 2, 3])) 65535 3 = Inr ([0, 1, 2], f') \<and>
     paged_ok f' (replicate 65536 0 @ [1, 2, 3])"
proof -
  have "segment 65535 3 (replicate 65536 0 @ [1, 2, 3]) = ([0, 1, 2] :: bytes)"
    by (simp add: segment_def numeral_eq_Suc [of num.One])
  then show ?thesis
    using ensure_gives_range [OF sample_paged_ok, of "replicate 65536 0 @ [1, 2, 3]" 65535 3] by simp
qed

end
