(* ===== verification/Bounded_Bytes.thy ===== *)
theory Bounded_Bytes
  imports Byte_Swap Paged_File
begin

text \<open>
  \<open>src/internal/BoundedBytes.hpp\<close>: bounds-checked access to untrusted bytes. A
  \<open>ByteSpan\<close> is a view of a buffer in memory or of a part of a \<open>PagedFile\<close>; a
  \<open>MutableByteSpan\<close> is a writable view of a buffer. All positions and lengths are 64-bit
  words, as in the code, so the arithmetic wraps wherever the code's would.

  \<open>span_ok sp c\<close> says that the view \<open>sp\<close> shows the bytes \<open>c\<close>. Under it every operation
  has a closed form on \<open>c\<close>: it succeeds exactly when the range lies in \<open>c\<close> and then gives
  the bytes of that range, otherwise it is the documented rejection. No operation reads
  or writes outside the view, on a machine of either byte order, for either backing.
\<close>

section \<open>Range arithmetic and rejections\<close>

definition RangeFits :: "u64 \<Rightarrow> u64 \<Rightarrow> u64 \<Rightarrow> bool" where
  "RangeFits offset len sz \<longleftrightarrow> offset \<le> sz \<and> len \<le> sz - offset"

definition ThrowMalformed :: "string \<Rightarrow> string \<Rightarrow> 'a res" where
  "ThrowMalformed format detail = Inl (runtime_error (format @ '': '' @ detail))"

definition UINT64_MAX :: u64 where
  "UINT64_MAX = 0xFFFFFFFFFFFFFFFF"

definition CheckedAdd :: "u64 \<Rightarrow> u64 \<Rightarrow> string \<Rightarrow> string \<Rightarrow> u64 res" where
  "CheckedAdd a b format what =
     (if a > UINT64_MAX - b then ThrowMalformed format (what @ '' overflows'') else Inr (a + b))"

definition CheckedMultiply :: "u64 \<Rightarrow> u64 \<Rightarrow> string \<Rightarrow> string \<Rightarrow> u64 res" where
  "CheckedMultiply a b format what =
     (if a \<noteq> 0 \<and> b > UINT64_MAX div a then ThrowMalformed format (what @ '' overflows'') else Inr (a * b))"

text \<open>\<open>SIZE_MAX\<close> depends on the platform and is an argument.\<close>

definition ToSize :: "u64 \<Rightarrow> u64 \<Rightarrow> string \<Rightarrow> string \<Rightarrow> u64 res" where
  "ToSize size_max value format what =
     (if value > size_max then ThrowMalformed format (what @ '' overflows'') else Inr value)"

definition ToHostOrder :: "ByteOrder \<Rightarrow> 'a::len word \<Rightarrow> ByteOrder \<Rightarrow> 'a word" where
  "ToHostOrder host value order =
     (if 1 < LENGTH('a) div 8 then ByteSwapIfNeeded host value (order = Little) else value)"

definition PastTheEnd :: "string \<Rightarrow> u64 \<Rightarrow> string \<Rightarrow> u64 \<Rightarrow> string" where
  "PastTheEnd what offset scope sz =
     what @ '' at offset '' @ to_string offset @ '' extends past the end of '' @ scope @
     '' ('' @ to_string sz @ '' bytes)''"

definition StructurePastTheEnd :: "string \<Rightarrow> u64 \<Rightarrow> u64 \<Rightarrow> string \<Rightarrow> u64 \<Rightarrow> string" where
  "StructurePastTheEnd structure offset len scope sz =
     structure @ '' (offset '' @ to_string offset @ '', size '' @ to_string len @ '')'' @
     '' extends past the end of '' @ scope @ '' ('' @ to_string sz @ '' bytes)''"

section \<open>Views\<close>

datatype backing = Memory bytes | Paged PagedFile u64

record ByteSpan =
  backing :: backing
  span_size :: u64
  span_format :: string
  span_scope :: string

definition ByteSpan_of_bytes :: "bytes \<Rightarrow> string \<Rightarrow> string \<Rightarrow> ByteSpan" where
  "ByteSpan_of_bytes bs fmt sc =
     \<lparr>backing = Memory bs, span_size = word_of_nat (length bs), span_format = fmt, span_scope = sc\<rparr>"

definition ByteSpan_of_file :: "PagedFile \<Rightarrow> string \<Rightarrow> string \<Rightarrow> ByteSpan" where
  "ByteSpan_of_file file fmt sc =
     \<lparr>backing = Paged file 0, span_size = fsize file, span_format = fmt, span_scope = sc\<rparr>"

definition At :: "ByteSpan \<Rightarrow> u64 \<Rightarrow> u64 \<Rightarrow> bytes res" where
  "At sp offset len =
     (case backing sp of
        Paged file base \<Rightarrow> bindE (Ensure file (base + offset) len) (\<lambda>(bs, _). Inr bs)
      | Memory data \<Rightarrow> mem_read data (unat offset) (unat len))"

text \<open>\<open>Read<T>\<close> for an integer type and for a structure of \<open>n\<close> bytes.\<close>

definition Read :: "ByteOrder \<Rightarrow> ByteSpan \<Rightarrow> u64 \<Rightarrow> ByteOrder \<Rightarrow> string \<Rightarrow> 'a::len word res" where
  "Read host sp offset order field =
     (if \<not> RangeFits offset (word_of_nat (LENGTH('a) div 8)) (span_size sp)
      then ThrowMalformed (span_format sp) (PastTheEnd field offset (span_scope sp) (span_size sp))
      else bindE (At sp offset (word_of_nat (LENGTH('a) div 8))) (\<lambda>bs.
           Inr (ToHostOrder host (load_word host bs) order)))"

definition ReadStruct :: "ByteSpan \<Rightarrow> u64 \<Rightarrow> u64 \<Rightarrow> string \<Rightarrow> bytes res" where
  "ReadStruct sp offset n field =
     (if \<not> RangeFits offset n (span_size sp)
      then ThrowMalformed (span_format sp) (PastTheEnd field offset (span_scope sp) (span_size sp))
      else At sp offset n)"

definition Sub :: "ByteSpan \<Rightarrow> u64 \<Rightarrow> u64 \<Rightarrow> string \<Rightarrow> ByteSpan res" where
  "Sub sp offset len structure =
     (if \<not> RangeFits offset len (span_size sp)
      then ThrowMalformed (span_format sp) (StructurePastTheEnd structure offset len (span_scope sp) (span_size sp))
      else Inr (case backing sp of
             Paged file base \<Rightarrow>
               \<lparr>backing = Paged file (base + offset), span_size = len, span_format = span_format sp, span_scope = structure\<rparr>
           | Memory data \<Rightarrow>
               \<lparr>backing = Memory (segment (unat offset) (unat len) data), span_size = len,
                span_format = span_format sp, span_scope = structure\<rparr>))"

definition Data :: "ByteSpan \<Rightarrow> bytes res" where
  "Data sp = At sp 0 (span_size sp)"

section \<open>Strings\<close>

fun find_nul :: "bytes \<Rightarrow> nat option" where
  "find_nul [] = None"
| "find_nul (b # bs) = (if b = 0 then Some 0 else map_option Suc (find_nul bs))"

text \<open>
  The loop of \<open>CString\<close> over a paged view: steps of at most 4096 bytes. \<open>None\<close> is the loop
  ending without a NUL.
\<close>

function CStringPaged :: "ByteSpan \<Rightarrow> u64 \<Rightarrow> u64 \<Rightarrow> u64 \<Rightarrow> string \<Rightarrow> string option res" where
  "CStringPaged sp offset limit pos text =
     (if pos < limit then
        let step = min (limit - pos) 4096 in
        bindE (At sp (offset + pos) step) (\<lambda>start.
          case find_nul start of
            Some i \<Rightarrow> Inr (Some (text @ map byte_char (take i start)))
          | None \<Rightarrow> CStringPaged sp offset limit (pos + step) (text @ map byte_char start))
      else Inr None)"
  by pat_completeness auto
termination
proof (relation "measure (\<lambda>(sp, offset, limit, pos, text). unat limit - unat pos)", goal_cases)
  case (2 sp offset limit pos acc step start)
  then have less: "unat pos < unat limit" by (simp add: word_less_nat_alt)
  have "unat step = min (unat limit - unat pos) 4096"
    using 2 less by (simp add: min_def word_le_nat_alt unat_sub_if')
  moreover from this less have "unat (pos + step) = unat pos + unat step"
    using unat_u64_less [of limit] by (intro unat_add_nowrap) simp
  ultimately show ?case using less by simp
qed simp

declare CStringPaged.simps [simp del]

text \<open>A buffer in memory is scanned whole, in one step.\<close>

definition CStringLoop :: "ByteSpan \<Rightarrow> u64 \<Rightarrow> u64 \<Rightarrow> string option res" where
  "CStringLoop sp offset limit =
     (case backing sp of
        Paged _ _ \<Rightarrow> CStringPaged sp offset limit 0 []
      | Memory _ \<Rightarrow>
          if 0 < limit then
            bindE (At sp (offset + 0) limit) (\<lambda>start.
              case find_nul start of
                Some i \<Rightarrow> Inr (Some (map byte_char (take i start)))
              | None \<Rightarrow> Inr None)
          else Inr None)"

definition CString :: "ByteSpan \<Rightarrow> u64 \<Rightarrow> u64 \<Rightarrow> string \<Rightarrow> string res" where
  "CString sp offset max_length structure =
     (if offset \<ge> span_size sp
      then ThrowMalformed (span_format sp) (structure @ '' at offset '' @ to_string offset @ '' is outside '' @
             span_scope sp @ '' ('' @ to_string (span_size sp) @ '' bytes)'')
      else
        let available = span_size sp - offset;
            limit = (if max_length < available then max_length else available) in
        bindE (CStringLoop sp offset limit) (\<lambda>found.
          case found of
            Some text \<Rightarrow> Inr text
          | None \<Rightarrow>
              if limit = max_length \<and> max_length < available
              then ThrowMalformed (span_format sp) (structure @ '' at offset '' @ to_string offset @
                     '' is longer than '' @ to_string max_length @ '' bytes'')
              else ThrowMalformed (span_format sp) (structure @ '' at offset '' @ to_string offset @
                     '' is unterminated before the end of '' @ span_scope sp @
                     '' ('' @ to_string (span_size sp) @ '' bytes)'')))"

section \<open>Writable views\<close>

record MutableByteSpan =
  mdata :: bytes
  msize :: u64
  mformat :: string
  mscope :: string

definition MutableByteSpan_of_bytes :: "bytes \<Rightarrow> string \<Rightarrow> string \<Rightarrow> MutableByteSpan" where
  "MutableByteSpan_of_bytes bs fmt sc =
     \<lparr>mdata = bs, msize = word_of_nat (length bs), mformat = fmt, mscope = sc\<rparr>"

definition Write :: "ByteOrder \<Rightarrow> MutableByteSpan \<Rightarrow> u64 \<Rightarrow> 'a::len word \<Rightarrow> ByteOrder \<Rightarrow> string \<Rightarrow> MutableByteSpan res" where
  "Write host sp offset value order field =
     (if \<not> RangeFits offset (word_of_nat (LENGTH('a) div 8)) (msize sp)
      then ThrowMalformed (mformat sp) (PastTheEnd field offset (mscope sp) (msize sp))
      else bindE (mem_write (mdata sp) (unat offset) (store_word host (ToHostOrder host value order))) (\<lambda>d.
           Inr (sp\<lparr>mdata := d\<rparr>)))"

definition Check :: "MutableByteSpan \<Rightarrow> u64 \<Rightarrow> u64 \<Rightarrow> string \<Rightarrow> unit res" where
  "Check sp offset len structure =
     (if \<not> RangeFits offset len (msize sp)
      then ThrowMalformed (mformat sp) (StructurePastTheEnd structure offset len (mscope sp) (msize sp))
      else Inr ())"

definition Fill :: "MutableByteSpan \<Rightarrow> u64 \<Rightarrow> u64 \<Rightarrow> u8 \<Rightarrow> string \<Rightarrow> MutableByteSpan res" where
  "Fill sp offset len byte structure =
     bindE (Check sp offset len structure) (\<lambda>_.
       if len \<noteq> 0
       then bindE (mem_write (mdata sp) (unat offset) (replicate (unat len) byte)) (\<lambda>d. Inr (sp\<lparr>mdata := d\<rparr>))
       else Inr sp)"

definition Copy :: "MutableByteSpan \<Rightarrow> u64 \<Rightarrow> bytes \<Rightarrow> string \<Rightarrow> MutableByteSpan res" where
  "Copy sp offset source structure =
     bindE (Check sp offset (word_of_nat (length source)) structure) (\<lambda>_.
       if source \<noteq> []
       then bindE (mem_write (mdata sp) (unat offset) source) (\<lambda>d. Inr (sp\<lparr>mdata := d\<rparr>))
       else Inr sp)"

section \<open>Entry points\<close>

fun GuardEntryPoint :: "string \<Rightarrow> 'a res \<Rightarrow> 'a res" where
  "GuardEntryPoint format (Inr x) = Inr x"
| "GuardEntryPoint format (Inl (runtime_error m)) = Inl (runtime_error m)"
| "GuardEntryPoint format (Inl (other_exception type_name what)) =
     Inl (runtime_error (format @ '': internal error ('' @ type_name @ ''): '' @ what))"
| "GuardEntryPoint format (Inl memory_fault) = Inl memory_fault"

section \<open>Range arithmetic is exact\<close>

lemma RangeFits_iff: "RangeFits offset len sz \<longleftrightarrow> unat offset + unat len \<le> unat sz"
  by (auto simp: RangeFits_def word_le_nat_alt unat_sub_if')

lemma unat_UINT64_MAX [simp]: "unat UINT64_MAX = 2 ^ 64 - 1"
  by (simp add: UINT64_MAX_def)

lemma CheckedAdd_eq:
  "CheckedAdd a b format what =
     (if unat a + unat b < 2 ^ 64 then Inr (word_of_nat (unat a + unat b))
      else ThrowMalformed format (what @ '' overflows''))"
proof -
  have "b \<le> UINT64_MAX" using unat_u64_less [of b] by (simp add: word_le_nat_alt)
  then have "unat (UINT64_MAX - b) = 2 ^ 64 - 1 - unat b" by (simp add: unat_diff_nowrap)
  then have "UINT64_MAX - b < a \<longleftrightarrow> \<not> unat a + unat b < 2 ^ 64"
    using unat_u64_less [of b] by (auto simp: word_less_nat_alt)
  then show ?thesis by (simp add: CheckedAdd_def)
qed

lemma CheckedMultiply_eq:
  "CheckedMultiply a b format what =
     (if unat a * unat b < 2 ^ 64 then Inr (word_of_nat (unat a * unat b))
      else ThrowMalformed format (what @ '' overflows''))"
proof (cases "a = 0")
  case True
  then show ?thesis by (simp add: CheckedMultiply_def)
next
  case False
  then have pos: "0 < unat a" by (simp add: unat_gt_0)
  have "UINT64_MAX div a < b \<longleftrightarrow> (2 ^ 64 - 1) div unat a < unat b"
    by (simp add: word_less_nat_alt unat_div)
  also have "\<dots> \<longleftrightarrow> 2 ^ 64 - 1 < unat a * unat b"
    using pos by (simp add: div_less_iff_less_mult mult.commute)
  finally show ?thesis using False by (auto simp: CheckedMultiply_def)
qed

section \<open>What a view shows\<close>

text \<open>
  The contract of a source of bytes: \<open>shows s c\<close> says that \<open>s\<close> holds the bytes \<open>c\<close>, and a
  fetch of a range of \<open>c\<close> gives that range.
\<close>

locale byte_source =
  fixes fetch :: "'s \<Rightarrow> u64 \<Rightarrow> u64 \<Rightarrow> bytes res"
    and shows_bytes :: "'s \<Rightarrow> bytes \<Rightarrow> bool"
  assumes fetch_segment: "shows_bytes s c \<Longrightarrow> unat off + unat n \<le> length c \<Longrightarrow>
      fetch s off n = Inr (segment (unat off) (unat n) c)"
begin

text \<open>A range fetched in two parts is the range fetched whole.\<close>

lemma fetch_join:
  assumes "shows_bytes s c" and "unat off + (unat n + unat m) \<le> length c" and "length c < 2 ^ 64"
    and "fetch s off n = Inr xs" and "fetch s (off + n) m = Inr ys"
  shows "fetch s off (n + m) = Inr (xs @ ys)"
proof -
  have "unat (off + n) = unat off + unat n" and "unat (n + m) = unat n + unat m"
    using assms(2,3) by (simp_all add: unat_add_nowrap)
  then show ?thesis
    using assms segment_append [of "unat off" "unat n" c "unat m"] by (simp add: fetch_segment)
qed

text \<open>Two sources of the same bytes cannot be told apart by fetches inside them.\<close>

lemma fetch_length:
  "shows_bytes s c \<Longrightarrow> unat off + unat n \<le> length c \<Longrightarrow> fetch s off n = Inr xs \<Longrightarrow> length xs = unat n"
  by (auto simp: fetch_segment)

end

definition shows_range :: "PagedFile \<times> u64 \<Rightarrow> bytes \<Rightarrow> bool" where
  "shows_range fb c \<longleftrightarrow> (\<exists>whole. paged_ok (fst fb) whole \<and> unat (snd fb) + length c \<le> length whole \<and>
      c = segment (unat (snd fb)) (length c) whole)"

definition span_ok :: "ByteSpan \<Rightarrow> bytes \<Rightarrow> bool" where
  "span_ok sp c \<longleftrightarrow> unat (span_size sp) = length c \<and>
     (case backing sp of Memory d \<Rightarrow> d = c | Paged f base \<Rightarrow> shows_range (f, base) c)"

interpretation memory: byte_source "\<lambda>d off n. mem_read d (unat off) (unat n)" "(=)"
  by unfold_locales (simp add: mem_read_def)

interpretation paged: byte_source
  "\<lambda>fb off n. bindE (Ensure (fst fb) (snd fb + off) n) (\<lambda>(bs, _). Inr bs)" shows_range
proof
  fix fb c and off n :: u64
  assume "shows_range fb c" and fits: "unat off + unat n \<le> length c"
  then obtain whole where ok: "paged_ok (fst fb) whole" and le: "unat (snd fb) + length c \<le> length whole"
    and c: "c = segment (unat (snd fb)) (length c) whole"
    by (auto simp: shows_range_def)
  have "unat (snd fb + off) = unat (snd fb) + unat off"
    using ok le fits by (simp add: unat_add_nowrap paged_ok_def)
  moreover have "segment (unat off) (unat n) c = segment (unat (snd fb) + unat off) (unat n) whole"
    using fits by (subst c) (simp add: segment_segment)
  ultimately show "bindE (Ensure (fst fb) (snd fb + off) n) (\<lambda>(bs, _). Inr bs) = Inr (segment (unat off) (unat n) c)"
    using Ensure_ok [OF ok, of "snd fb + off" n] le fits by fastforce
qed

interpretation span: byte_source At span_ok
proof
  fix sp c and off n :: u64
  assume "span_ok sp c" and "unat off + unat n \<le> length c"
  then show "At sp off n = Inr (segment (unat off) (unat n) c)"
    using memory.fetch_segment [of _ c off n] paged.fetch_segment [of _ c off n]
    by (cases "backing sp") (fastforce simp: span_ok_def At_def)+
qed

lemma span_ok_bytes:
  "length bs < 2 ^ 64 \<Longrightarrow> span_ok (ByteSpan_of_bytes bs fmt sc) bs"
  by (simp add: span_ok_def ByteSpan_of_bytes_def unat_of_nat)

lemma span_ok_file: "paged_ok f content \<Longrightarrow> span_ok (ByteSpan_of_file f fmt sc) content"
  by (auto simp: span_ok_def ByteSpan_of_file_def shows_range_def paged_ok_def)

lemma span_ok_length: "span_ok sp c \<Longrightarrow> unat (span_size sp) = length c"
  by (simp add: span_ok_def)

lemma span_ok_size: "span_ok sp c \<Longrightarrow> span_size sp = word_of_nat (length c)"
  using unat_u64_less [of "span_size sp"] by (simp add: span_ok_def word_unat_eq_iff unat_of_nat)

lemma span_ok_less: "span_ok sp c \<Longrightarrow> length c < 2 ^ 64"
  using unat_u64_less [of "span_size sp"] by (simp add: span_ok_def)

section \<open>Closed forms of the read operations\<close>

lemma ToHostOrder_load:
  assumes "int_type TYPE('a::len word)" and "length bs = LENGTH('a) div 8"
  shows "ToHostOrder host (load_word host bs :: 'a word) order = load_word order bs"
proof (cases "LENGTH('a) = 8")
  case True
  with assms obtain b where "bs = [b]" by (auto simp: length_Suc_conv)
  with True show ?thesis by (simp add: ToHostOrder_def load_word_def)
next
  case False
  with assms have "1 < LENGTH('a) div 8" by (auto simp: int_type_def)
  then show ?thesis using load_word_converted [OF assms] by (simp add: ToHostOrder_def)
qed

lemma int_type_size:
  "int_type TYPE('a::len word) \<Longrightarrow> unat (word_of_nat (LENGTH('a) div 8) :: u64) = LENGTH('a) div 8"
  by (auto simp: int_type_def)

lemma Read_eq:
  assumes "span_ok sp c" and "int_type TYPE('a::len word)"
  shows "(Read host sp offset order field :: 'a word res) =
    (if unat offset + LENGTH('a) div 8 \<le> length c
     then Inr (load_word order (segment (unat offset) (LENGTH('a) div 8) c))
     else ThrowMalformed (span_format sp) (PastTheEnd field offset (span_scope sp) (span_size sp)))"
  using assms span.fetch_segment [OF assms(1), of offset "word_of_nat (LENGTH('a) div 8)"]
  by (auto simp: Read_def RangeFits_iff int_type_size span_ok_length ToHostOrder_load)

lemma ReadStruct_eq:
  assumes "span_ok sp c"
  shows "ReadStruct sp offset n field =
    (if unat offset + unat n \<le> length c then Inr (segment (unat offset) (unat n) c)
     else ThrowMalformed (span_format sp) (PastTheEnd field offset (span_scope sp) (span_size sp)))"
  using assms by (simp add: ReadStruct_def RangeFits_iff span_ok_length span.fetch_segment)

lemma Data_eq: "span_ok sp c \<Longrightarrow> Data sp = Inr c"
  using span.fetch_segment [of sp c 0 "span_size sp"] by (simp add: Data_def span_ok_length)

lemma Sub_span_ok:
  assumes ok: "span_ok sp c" and sub: "Sub sp offset len structure = Inr sp'"
  shows "span_ok sp' (segment (unat offset) (unat len) c)"
    and "span_format sp' = span_format sp" and "span_scope sp' = structure" and "span_size sp' = len"
    and "unat offset + unat len \<le> length c"
proof -
  have fits: "unat offset + unat len \<le> length c"
    using sub ok by (auto simp: Sub_def RangeFits_iff span_ok_length ThrowMalformed_def split: if_splits)
  then show "unat offset + unat len \<le> length c" .
  have sp': "sp' = \<lparr>backing = (case backing sp of Paged f b \<Rightarrow> Paged f (b + offset)
      | Memory d \<Rightarrow> Memory (segment (unat offset) (unat len) d)),
      span_size = len, span_format = span_format sp, span_scope = structure\<rparr>"
    using sub by (auto simp: Sub_def ThrowMalformed_def split: if_splits backing.splits)
  then show "span_format sp' = span_format sp" "span_scope sp' = structure" "span_size sp' = len" by simp_all
  have "shows_range (f, b + offset) (segment (unat offset) (unat len) c)" if range: "shows_range (f, b) c" for f b
  proof -
    obtain whole where ok: "paged_ok f whole" and le: "unat b + length c \<le> length whole"
      and c: "c = segment (unat b) (length c) whole" using range by (auto simp: shows_range_def)
    have b: "unat (b + offset) = unat b + unat offset"
      using ok le fits by (simp add: unat_add_nowrap paged_ok_def)
    have "segment (unat offset) (unat len) c = segment (unat b + unat offset) (unat len) whole"
      using fits by (subst c) (simp add: segment_segment)
    then show ?thesis
      using ok le fits b unfolding shows_range_def by (intro exI [of _ whole]) simp
  qed
  then show "span_ok sp' (segment (unat offset) (unat len) c)"
    using ok fits by (auto simp: sp' span_ok_def split: backing.splits)
qed

text \<open>The same as equations, for chains of views.\<close>

definition sub_of :: "ByteSpan \<Rightarrow> u64 \<Rightarrow> u64 \<Rightarrow> string \<Rightarrow> ByteSpan" where
  "sub_of sp offset len structure =
     \<lparr>backing = (case backing sp of Paged f b \<Rightarrow> Paged f (b + offset)
        | Memory d \<Rightarrow> Memory (segment (unat offset) (unat len) d)),
      span_size = len, span_format = span_format sp, span_scope = structure\<rparr>"

lemma Sub_eq:
  assumes "span_ok sp c"
  shows "Sub sp offset len structure =
    (if unat offset + unat len \<le> length c then Inr (sub_of sp offset len structure)
     else ThrowMalformed (span_format sp) (StructurePastTheEnd structure offset len (span_scope sp) (span_size sp)))"
  using assms
  by (auto simp: Sub_def sub_of_def RangeFits_iff span_ok_length split: backing.split)

lemma sub_of_ok:
  assumes "span_ok sp c" and "unat offset + unat len \<le> length c"
  shows "span_ok (sub_of sp offset len structure) (segment (unat offset) (unat len) c)"
  using Sub_span_ok(1) [OF assms(1), of offset len "structure"] assms by (simp add: Sub_eq [OF assms(1)])

lemma span_size_sub_of [simp]: "span_size (sub_of sp offset len structure) = len"
  by (simp add: sub_of_def)

lemma Read_sub_of:
  assumes ok: "span_ok sp c" and fits: "unat offset + unat len \<le> length c" and int: "int_type TYPE('a::len word)"
    and inside: "unat offset' + LENGTH('a) div 8 \<le> unat len"
  shows "(Read host (sub_of sp offset len structure) offset' order what :: 'a word res) =
    Inr (load_word order (segment (unat offset + unat offset') (LENGTH('a) div 8) c))"
  using Read_eq [OF sub_of_ok [OF ok fits] int] fits inside by (simp add: segment_segment)

lemma Sub_fails_iff:
  assumes "span_ok sp c"
  shows "Sub sp offset len structure = Inl e \<longleftrightarrow>
    \<not> unat offset + unat len \<le> length c \<and>
    e = runtime_error (span_format sp @ '': '' @ StructurePastTheEnd structure offset len (span_scope sp) (span_size sp))"
  using assms by (auto simp: Sub_def RangeFits_iff span_ok_length ThrowMalformed_def)

section \<open>Closed form of the string reader\<close>

lemma find_nul_append:
  "find_nul (xs @ ys) = (case find_nul xs of Some i \<Rightarrow> Some i | None \<Rightarrow> map_option ((+) (length xs)) (find_nul ys))"
proof (induction xs)
  case Nil
  then show ?case by (cases "find_nul ys") simp_all
next
  case (Cons x xs)
  then show ?case by (cases "find_nul xs"; cases "find_nul ys") simp_all
qed

lemma find_nul_Some:
  "find_nul xs = Some i \<longleftrightarrow> i < length xs \<and> xs ! i = 0 \<and> (\<forall>j < i. xs ! j \<noteq> 0)"
proof (induction xs arbitrary: i)
  case (Cons x xs)
  show ?case
  proof (cases i)
    case (Suc k)
    then show ?thesis using Cons [of k] by (auto simp: less_Suc_eq_0_disj)
  qed auto
qed simp

lemma find_nul_None: "find_nul xs = None \<longleftrightarrow> 0 \<notin> set xs"
  by (induction xs) auto

definition scan :: "bytes \<Rightarrow> string option" where
  "scan window = map_option (\<lambda>i. map byte_char (take i window)) (find_nul window)"

lemma scan_append:
  "scan (xs @ ys) = (case find_nul xs of
     Some i \<Rightarrow> Some (map byte_char (take i xs))
   | None \<Rightarrow> map_option ((@) (map byte_char xs)) (scan ys))"
proof (cases "find_nul xs")
  case None
  then show ?thesis by (cases "find_nul ys") (simp_all add: scan_def find_nul_append)
next
  case (Some i)
  then have "i < length xs" by (simp add: find_nul_Some)
  with Some show ?thesis by (simp add: scan_def find_nul_append)
qed

lemma CStringPaged_eq:
  assumes "span_ok sp c" and "unat offset + unat limit \<le> length c" and "pos \<le> limit"
  shows "CStringPaged sp offset limit pos acc =
    Inr (map_option ((@) acc) (scan (segment (unat offset + unat pos) (unat limit - unat pos) c)))"
  using assms
proof (induction sp offset limit pos acc rule: CStringPaged.induct)
  case (1 sp offset limit pos acc)
  show ?case
  proof (cases "pos < limit")
    case False
    with "1.prems"(3) have "pos = limit" by simp
    then show ?thesis
      by (subst CStringPaged.simps) (simp add: scan_def segment_def)
  next
    case True
    define step where "step = min (limit - pos) 4096"
    have less: "unat pos < unat limit" using True by (simp add: word_less_nat_alt)
    have step: "unat step = min (unat limit - unat pos) 4096"
      using less by (simp add: step_def min_def word_le_nat_alt unat_sub_if')
    have "unat (pos + step) = unat pos + unat step"
      using step unat_u64_less [of limit] less by (intro unat_add_nowrap) simp
    moreover have "unat (offset + pos) = unat offset + unat pos"
      using "1.prems"(2) less span_ok_less [OF "1.prems"(1)] by (intro unat_add_nowrap) simp
    ultimately have nats: "unat (pos + step) = unat pos + unat step" "unat (offset + pos) = unat offset + unat pos"
      "pos + step \<le> limit" using step less by (simp_all add: word_le_nat_alt)
    define start where "start = segment (unat offset + unat pos) (unat step) c"
    have at: "At sp (offset + pos) step = Inr start"
      using "1.prems"(1,2) nats step less by (simp add: span.fetch_segment start_def)
    have split: "segment (unat offset + unat pos) (unat limit - unat pos) c =
        start @ segment (unat offset + unat (pos + step)) (unat limit - unat (pos + step)) c"
    proof -
      have "unat limit - unat pos = unat step + (unat limit - unat (pos + step))"
        using step less by (simp add: nats min_def)
      then show ?thesis
        using segment_append [of "unat offset + unat pos" "unat step" c "unat limit - unat (pos + step)"]
        by (simp add: start_def nats add.assoc)
    qed
    have IH: "find_nul start = None \<Longrightarrow> CStringPaged sp offset limit (pos + step) (acc @ map byte_char start) =
        Inr (map_option ((@) (acc @ map byte_char start))
              (scan (segment (unat offset + unat (pos + step)) (unat limit - unat (pos + step)) c)))"
      using "1.IH" [OF True refl at [unfolded step_def]] "1.prems" nats(3) by (simp add: step_def comp_def fun_eq_iff cong: option.map_cong)
    show ?thesis
      using True at IH
      by (subst CStringPaged.simps)
        (simp add: Let_def step_def [symmetric] split scan_append option.map_comp comp_def fun_eq_iff split: option.splits
          cong: option.map_cong)
  qed
qed

lemma CStringLoop_eq:
  assumes "span_ok sp c" and "unat offset + unat limit \<le> length c"
  shows "CStringLoop sp offset limit = Inr (scan (segment (unat offset) (unat limit) c))"
proof (cases "backing sp")
  case (Memory d)
  show ?thesis
  proof (cases "limit = 0")
    case True
    then show ?thesis using Memory by (simp add: CStringLoop_def scan_def segment_def)
  next
    case False
    then have "0 < limit" by (simp add: word_neq_0_conv)
    then show ?thesis
      using Memory span.fetch_segment [OF assms]
      by (simp add: CStringLoop_def scan_def split: option.splits)
  qed
next
  case (Paged f base)
  then show ?thesis
    using CStringPaged_eq [OF assms, of 0 "[]"]
    by (cases "scan (segment (unat offset) (unat limit) c)") (simp_all add: CStringLoop_def)
qed

text \<open>
  The string reader: the bytes before the first NUL of the window, or the rejection. The
  window is the rest of the view, cut at \<open>max_length\<close> bytes.
\<close>

lemma CString_eq:
  fixes max_length :: u64
  assumes ok: "span_ok sp c" and off: "unat offset < length c"
  defines "window \<equiv> segment (unat offset) (min (unat max_length) (length c - unat offset)) c"
  shows "CString sp offset max_length structure =
    (case scan window of
       Some s \<Rightarrow> Inr s
     | None \<Rightarrow>
         if unat max_length < length c - unat offset
         then ThrowMalformed (span_format sp) (structure @ '' at offset '' @ to_string offset @
                '' is longer than '' @ to_string max_length @ '' bytes'')
         else ThrowMalformed (span_format sp) (structure @ '' at offset '' @ to_string offset @
                '' is unterminated before the end of '' @ span_scope sp @
                '' ('' @ to_string (span_size sp) @ '' bytes)''))"
proof -
  have size: "unat (span_size sp) = length c" using ok by (rule span_ok_length)
  have less: "\<not> span_size sp \<le> offset" using off size by (simp add: word_le_nat_alt)
  then have avail: "unat (span_size sp - offset) = length c - unat offset"
    using size by (simp add: word_le_nat_alt unat_sub_if')
  define limit where "limit = (if max_length < span_size sp - offset then max_length else span_size sp - offset)"
  have limit: "unat limit = min (unat max_length) (length c - unat offset)"
    by (auto simp: limit_def word_less_nat_alt avail)
  then have loop: "CStringLoop sp offset limit = Inr (scan window)"
    using CStringLoop_eq [OF ok, of offset limit] off by (simp add: window_def)
  have "limit = max_length \<and> max_length < span_size sp - offset \<longleftrightarrow> unat max_length < length c - unat offset"
    by (simp add: limit_def word_less_nat_alt avail)
  then show ?thesis
    using loop less by (simp add: CString_def Let_def limit_def [symmetric] split: option.splits)
qed

lemma CString_outside:
  assumes "span_ok sp c" and "length c \<le> unat offset"
  shows "CString sp offset max_length structure =
    ThrowMalformed (span_format sp) (structure @ '' at offset '' @ to_string offset @ '' is outside '' @
      span_scope sp @ '' ('' @ to_string (span_size sp) @ '' bytes)'')"
  using assms by (simp add: CString_def word_le_nat_alt span_ok_length)

text \<open>What a string the reader returns is.\<close>

lemma CString_Inr:
  assumes ok: "span_ok sp c" and res: "CString sp offset max_length structure = Inr s"
  shows "unat offset + length s < length c" and "length s < unat max_length"
    and "c ! (unat offset + length s) = 0" and "s = map byte_char (segment (unat offset) (length s) c)"
    and "0 \<notin> set (segment (unat offset) (length s) c)"
proof -
  have off: "unat offset < length c"
    using res CString_outside [OF ok, of offset] by (auto simp: ThrowMalformed_def not_le [symmetric])
  define w where "w = segment (unat offset) (min (unat max_length) (length c - unat offset)) c"
  have "scan w = Some s"
    using res CString_eq [OF ok off]
    by (auto simp: w_def ThrowMalformed_def split: option.splits if_splits)
  then obtain i where i: "find_nul w = Some i" and s: "s = map byte_char (take i w)"
    by (auto simp: scan_def)
  then have il: "i < length w" and z: "w ! i = 0" and nz: "\<forall>j < i. w ! j \<noteq> 0" by (simp_all add: find_nul_Some)
  have len: "length s = i" using s il by simp
  have bounds: "i < unat max_length" "unat offset + i < length c" using il by (simp_all add: w_def) linarith
  then show "length s < unat max_length" "unat offset + length s < length c" by (simp_all add: len)
  show "c ! (unat offset + length s) = 0" using z bounds by (simp add: len w_def nth_segment)
  have tk: "take i w = segment (unat offset) i c" using bounds by (simp add: w_def segment_def)
  show "s = map byte_char (segment (unat offset) (length s) c)" using s len tk by simp
  have "0 \<notin> set (take i w)" using nz il by (auto simp: in_set_conv_nth)
  then show "0 \<notin> set (segment (unat offset) (length s) c)" by (simp add: len tk)
qed

section \<open>Views of one format\<close>

text \<open>\<open>good fmt sp\<close>: the view shows some bytes and rejects in the name of \<open>fmt\<close>.\<close>

definition good :: "string \<Rightarrow> ByteSpan \<Rightarrow> bool" where
  "good fmt sp \<longleftrightarrow> (\<exists>c. span_ok sp c) \<and> span_format sp = fmt"

lemma good_bytes [intro]: "length bs < 2 ^ 64 \<Longrightarrow> good fmt (ByteSpan_of_bytes bs fmt sc)"
  using span_ok_bytes [of bs fmt sc] by (auto simp: good_def ByteSpan_of_bytes_def)

lemma good_file [intro]: "paged_ok f content \<Longrightarrow> good fmt (ByteSpan_of_file f fmt sc)"
  using span_ok_file [of f content fmt sc] by (auto simp: good_def ByteSpan_of_file_def)

lemma good_Sub: "Sub sp offset len structure = Inr sp' \<Longrightarrow> good fmt sp \<Longrightarrow> good fmt sp'"
  using Sub_span_ok [of sp] by (fastforce simp: good_def)

lemma rejects_Throw [rejects_intros]: "rejects fmt (ThrowMalformed fmt detail)"
  by (auto simp: rejects_def ThrowMalformed_def)

lemma rejects_Read [rejects_intros]:
  "good fmt sp \<Longrightarrow> int_type TYPE('a::len word) \<Longrightarrow> rejects fmt (Read host sp offset order field :: 'a word res)"
  by (auto simp: good_def Read_eq intro!: rejects_intros)

lemma rejects_ReadStruct [rejects_intros]: "good fmt sp \<Longrightarrow> rejects fmt (ReadStruct sp offset n field)"
  by (auto simp: good_def ReadStruct_eq intro!: rejects_intros)

lemma rejects_Sub [rejects_intros]: "good fmt sp \<Longrightarrow> rejects fmt (Sub sp offset len structure)"
  by (auto simp: good_def rejects_def Sub_fails_iff)

lemma rejects_Data [rejects_intros]: "good fmt sp \<Longrightarrow> rejects fmt (Data sp)"
  by (auto simp: good_def Data_eq intro!: rejects_intros)

lemma rejects_CString [rejects_intros]: "good fmt sp \<Longrightarrow> rejects fmt (CString sp offset max_length structure)"
proof -
  assume "good fmt sp"
  then obtain c where ok: "span_ok sp c" and fmt: "span_format sp = fmt" by (auto simp: good_def)
  show ?thesis
  proof (cases "unat offset < length c")
    case True
    then show ?thesis
      unfolding CString_eq [OF ok True] fmt by (intro rejects_intros)
  next
    case False
    then show ?thesis
      unfolding CString_outside [OF ok leI [OF False]] fmt by (intro rejects_intros)
  qed
qed

lemma rejects_CheckedAdd [rejects_intros]: "rejects fmt (CheckedAdd a b fmt what)"
  by (auto simp: CheckedAdd_def intro!: rejects_intros)

lemma rejects_CheckedMultiply [rejects_intros]: "rejects fmt (CheckedMultiply a b fmt what)"
  by (auto simp: CheckedMultiply_def intro!: rejects_intros)

lemma rejects_Guard [rejects_intros]: "rejects fmt r \<Longrightarrow> rejects fmt (GuardEntryPoint fmt r)"
  by (cases "(fmt, r)" rule: GuardEntryPoint.cases) (auto simp: rejects_def)

lemma Guard_of_rejects: "rejects fmt r \<Longrightarrow> GuardEntryPoint fmt r = r"
  by (cases "(fmt, r)" rule: GuardEntryPoint.cases) (auto simp: rejects_def)

section \<open>Writable views\<close>

definition mspan_ok :: "MutableByteSpan \<Rightarrow> bool" where
  "mspan_ok sp \<longleftrightarrow> unat (msize sp) = length (mdata sp)"

lemma mspan_ok_bytes: "length bs < 2 ^ 64 \<Longrightarrow> mspan_ok (MutableByteSpan_of_bytes bs fmt sc)"
  by (simp add: mspan_ok_def MutableByteSpan_of_bytes_def unat_of_nat)

lemma ToHostOrder_store:
  assumes "int_type TYPE('a::len word)"
  shows "store_word host (ToHostOrder host (v :: 'a word) order) = store_word order v"
proof -
  define bs where "bs = store_word order v"
  have len: "length bs = LENGTH('a) div 8" by (simp add: bs_def)
  have v: "v = load_word order bs"
    using assms load_store_word [of order v] by (auto simp: bs_def int_type_def)
  have twice: "ToHostOrder host (ToHostOrder host w order) order = (w :: 'a word)" for w
    using ByteSwap_involution [OF assms, of w] by (simp add: ToHostOrder_def ByteSwapIfNeeded_def)
  have "ToHostOrder host v order = load_word host bs"
    using twice [of "load_word host bs"] ToHostOrder_load [OF assms len, of host order] by (simp add: v)
  then show ?thesis using store_load_word [OF len, of host] by (simp add: bs_def)
qed

lemma Write_eq:
  assumes "mspan_ok sp" and "int_type TYPE('a::len word)"
  shows "Write host sp offset (v :: 'a word) order field =
    (if unat offset + LENGTH('a) div 8 \<le> length (mdata sp)
     then Inr (sp\<lparr>mdata := overwrite (unat offset) (store_word order v) (mdata sp)\<rparr>)
     else ThrowMalformed (mformat sp) (PastTheEnd field offset (mscope sp) (msize sp)))"
  using assms
  by (simp add: Write_def RangeFits_iff int_type_size mspan_ok_def mem_write_def ToHostOrder_store)

lemma Fill_eq:
  assumes "mspan_ok sp"
  shows "Fill sp offset len byte structure =
    (if unat offset + unat len \<le> length (mdata sp)
     then Inr (sp\<lparr>mdata := overwrite (unat offset) (replicate (unat len) byte) (mdata sp)\<rparr>)
     else ThrowMalformed (mformat sp) (StructurePastTheEnd structure offset len (mscope sp) (msize sp)))"
  using assms
  by (auto simp: Fill_def Check_def RangeFits_iff mspan_ok_def mem_write_def ThrowMalformed_def overwrite_def
      unat_eq_0)

lemma Copy_eq:
  assumes "mspan_ok sp" and "length source < 2 ^ 64"
  shows "Copy sp offset source structure =
    (if unat offset + length source \<le> length (mdata sp)
     then Inr (sp\<lparr>mdata := overwrite (unat offset) source (mdata sp)\<rparr>)
     else ThrowMalformed (mformat sp)
       (StructurePastTheEnd structure offset (word_of_nat (length source)) (mscope sp) (msize sp)))"
  using assms
  by (auto simp: Copy_def Check_def RangeFits_iff mspan_ok_def mem_write_def ThrowMalformed_def overwrite_def
      unat_of_nat)

lemma Write_mspan_ok:
  assumes "mspan_ok sp" and "int_type TYPE('a::len word)" and "Write host sp offset (v :: 'a word) order field = Inr sp'"
  shows "mspan_ok sp' \<and> mformat sp' = mformat sp \<and> length (mdata sp') = length (mdata sp)"
  using assms by (auto simp: Write_eq mspan_ok_def ThrowMalformed_def split: if_splits)

section \<open>Structures and names in a file\<close>

text \<open>A field of a structure that was copied into memory, \<open>n\<close> bytes in.\<close>

definition field :: "ByteOrder \<Rightarrow> bytes \<Rightarrow> nat \<Rightarrow> 'a::len word" where
  "field host raw n = load_word host (segment n (LENGTH('a) div 8) raw)"

lemma field_converted:
  assumes "int_type TYPE('a::len word)" and "n + LENGTH('a) div 8 \<le> length raw"
  shows "ByteSwapIfNeeded host (field host raw n :: 'a word) le =
    load_word (if le then Little else Big) (segment n (LENGTH('a) div 8) raw)"
  using load_word_converted [OF assms(1), of "segment n (LENGTH('a) div 8) raw" host "if le then Little else Big"] assms(2)
  by (simp add: field_def split: if_splits)

text \<open>The NUL-terminated string at a position.\<close>

definition string_at :: "bytes \<Rightarrow> nat \<Rightarrow> string \<Rightarrow> bool" where
  "string_at table off s \<longleftrightarrow> off + length s < length table \<and> table ! (off + length s) = 0 \<and>
     s = map byte_char (segment off (length s) table) \<and> 0 \<notin> set (segment off (length s) table)"

lemma CString_string_at: "span_ok sp c \<Longrightarrow> CString sp off max_length what = Inr s \<Longrightarrow> string_at c (unat off) s"
  using CString_Inr [of sp c off max_length what s] by (simp add: string_at_def)

text \<open>A NUL-terminated string held by the file.\<close>

definition c_string_of :: "bytes \<Rightarrow> string \<Rightarrow> bool" where
  "c_string_of bs s \<longleftrightarrow> (\<exists>off. off + length s < length bs \<and> bs ! (off + length s) = 0 \<and>
     s = map byte_char (segment off (length s) bs) \<and> 0 \<notin> set (segment off (length s) bs))"

lemma c_string_of_segment:
  assumes "c_string_of (segment a n bs) s"
  shows "c_string_of bs s"
proof -
  obtain off where off: "off + length s < length (segment a n bs)" and nul: "segment a n bs ! (off + length s) = 0"
    and s: "s = map byte_char (segment off (length s) (segment a n bs))"
      "0 \<notin> set (segment off (length s) (segment a n bs))"
    using assms by (auto simp: c_string_of_def)
  have in_n: "off + length s < n" "a + off + length s < length bs" using off by auto
  then have "segment off (length s) (segment a n bs) = segment (a + off) (length s) bs"
    by (simp add: segment_segment)
  then show ?thesis
    using s nul in_n by (auto simp: c_string_of_def nth_segment add.assoc intro!: exI [of _ "a + off"])
qed

lemma CString_c_string_of:
  assumes "span_ok sp c" and "CString sp offset max_length structure = Inr s"
  shows "c_string_of c s \<and> length s < unat max_length"
  using CString_Inr [OF assms] by (auto simp: c_string_of_def)

text \<open>Names that were read from the file \<open>bs\<close>.\<close>

definition names_ok :: "bytes \<Rightarrow> string list \<Rightarrow> bool" where
  "names_ok bs names \<longleftrightarrow>
     (\<forall>s \<in> set names. c_string_of bs s \<and> length s < 4096) \<and> sum_list (map length names) \<le> length bs"

section \<open>Properties\<close>

text \<open>
  the range test and the checked sum and product compute on 64-bit words exactly what
  the same test, sum and product of unbounded numbers give; a sum or product that does not
  fit is refused and never wraps.
\<close>

theorem range_arithmetic_exact:
  "(RangeFits offset len sz \<longleftrightarrow> unat offset + unat len \<le> unat sz) \<and>
   CheckedAdd a b format what =
     (if unat a + unat b < 2 ^ 64 then Inr (word_of_nat (unat a + unat b))
      else Inl (runtime_error (format @ '': '' @ what @ '' overflows''))) \<and>
   CheckedMultiply a b format what =
     (if unat a * unat b < 2 ^ 64 then Inr (word_of_nat (unat a * unat b))
      else Inl (runtime_error (format @ '': '' @ what @ '' overflows'')))"
  by (simp only: RangeFits_iff CheckedAdd_eq CheckedMultiply_eq ThrowMalformed_def append_assoc)



text \<open>
  A string is returned exactly when a NUL byte ends it inside the view and within
  \<open>max_length\<close> bytes, and it is then the bytes before the first NUL.
\<close>

theorem cstring_is_first_nul_run:
  assumes "length bs < 2 ^ 64"
  shows "CString (ByteSpan_of_bytes bs fmt sc) offset max_length what = Inr s \<longleftrightarrow>
    (unat offset + length s < length bs \<and> length s < unat max_length \<and> bs ! (unat offset + length s) = 0 \<and>
     s = map byte_char (segment (unat offset) (length s) bs) \<and> 0 \<notin> set (segment (unat offset) (length s) bs))"
    (is "?lhs \<longleftrightarrow> ?rhs")
proof
  note ok = span_ok_bytes [OF assms, of fmt sc]
  show "?lhs \<Longrightarrow> ?rhs" using CString_Inr [OF ok] by blast
  assume r: ?rhs
  then have off: "unat offset < length bs" by simp
  define w where "w = segment (unat offset) (min (unat max_length) (length bs - unat offset)) bs"
  have tk: "take (length s) w = segment (unat offset) (length s) bs"
    using r by (auto simp: w_def segment_def min_def)
  have "find_nul w = Some (length s)"
    unfolding find_nul_Some
  proof (intro conjI allI impI)
    show "length s < length w" using r by (auto simp: w_def)
    show "w ! length s = 0" using r by (auto simp: w_def nth_segment)
    fix j assume "j < length s"
    then have "w ! j \<in> set (take (length s) w)"
      using \<open>length s < length w\<close> by (auto simp: in_set_conv_nth intro!: exI [of _ j])
    then show "w ! j \<noteq> 0" using r tk by auto
  qed
  then have "scan w = Some s" using r tk by (simp add: scan_def)
  then show ?lhs using CString_eq [OF ok off, of max_length what] by (simp add: w_def)
qed

theorem cstring_is_first_nul_run_witness:
  "CString (ByteSpan_of_bytes [7, 0x68, 0x69, 0, 9] ''PE'' ''the file'') 1 4096 ''name'' = Inr ''hi''"
  by (subst cstring_is_first_nul_run) (simp, code_simp)

text \<open>
  A value written through a writable view reads back as itself at the same position
  in the same byte order, whatever the byte order of the machine, and every byte outside the
  written range is unchanged.
\<close>

theorem write_read_back:
  fixes v :: u32
  assumes "length bs < 2 ^ 64"
    and "Write host (MutableByteSpan_of_bytes bs fmt sc) offset v order what = Inr sp"
  shows "Read host (ByteSpan_of_bytes (mdata sp) fmt sc) offset order what = Inr v \<and>
    length (mdata sp) = length bs \<and>
    (\<forall>i < length bs. i < unat offset \<or> unat offset + 4 \<le> i \<longrightarrow> mdata sp ! i = bs ! i)"
proof -
  have d: "mdata sp = overwrite (unat offset) (store_word order v) bs" and fits: "unat offset + 4 \<le> length bs"
    using assms(2) unfolding Write_eq [OF mspan_ok_bytes [OF assms(1)] int_type_simps(3)]
    by (auto simp: ThrowMalformed_def MutableByteSpan_of_bytes_def split: if_splits)
  have len: "length (mdata sp) = length bs" using fits by (simp add: d)
  moreover have "Read host (ByteSpan_of_bytes (mdata sp) fmt sc) offset order what = Inr v"
    using fits assms(1) len load_store_word [of order v]
    by (simp add: Read_eq [OF span_ok_bytes] segment_overwrite_same d)
  moreover have "\<forall>i < length bs. i < unat offset \<or> unat offset + 4 \<le> i \<longrightarrow> mdata sp ! i = bs ! i"
    using fits by (auto simp: d nth_overwrite)
  ultimately show ?thesis by blast
qed

theorem write_read_back_witness:
  "\<exists>sp. Write Little (MutableByteSpan_of_bytes (replicate 8 0) ''PE'' ''the file'') 2 (0xAABBCCDD :: u32) Big ''x'' = Inr sp \<and>
     Read Little (ByteSpan_of_bytes (mdata sp) ''PE'' ''the file'') 2 Big ''x'' = Inr (0xAABBCCDD :: u32) \<and> mdata sp ! 7 = 0"
proof -
  define m where "m = MutableByteSpan_of_bytes (replicate 8 0) ''PE'' ''the file''"
  have "mspan_ok m" by (simp add: m_def mspan_ok_bytes)
  then obtain sp where sp: "Write Little m 2 (0xAABBCCDD :: u32) Big ''x'' = Inr sp"
    by (simp add: Write_eq m_def MutableByteSpan_of_bytes_def)
  note w = write_read_back [OF _ sp [unfolded m_def]]
  show ?thesis using sp w by (auto simp: m_def)
qed

end
