(* ===== verification/Elf_Parser.thy ===== *)
theory Elf_Parser
  imports Bounded_Bytes
begin

text \<open>
  \<open>src/internal/ElfParser.hpp\<close> and \<open>ElfParser.cpp\<close>: listing the libraries an ELF file names.
  The structures of the header are records; reading one with \<open>memcpy\<close> is a function from
  its bytes to the record, with each integer in the byte order of the machine (\<open>host\<close>). The
  template \<open>ParseElf<Ehdr, Phdr, Dyn>\<close> takes what it uses of its type arguments as the
  record \<open>elf_types\<close>, with the two instances \<open>elf32\<close> and \<open>elf64\<close>.

  The lemmas show that every failure is the documented rejection (so no read leaves the
  file), that the result does not depend on the byte order of the machine, and that
  every name listed is a NUL-terminated string of the file shorter than 4096 bytes, the names together
  no longer than the file.
\<close>

section \<open>Constants and structures\<close>

definition kEiNident :: nat where "kEiNident = 16"
definition kElfClass32 :: u8 where "kElfClass32 = 1"
definition kElfClass64 :: u8 where "kElfClass64 = 2"
definition kElfData2Lsb :: u8 where "kElfData2Lsb = 1"
definition kElfData2Msb :: u8 where "kElfData2Msb = 2"
definition kPtLoad :: u32 where "kPtLoad = 1"
definition kPtDynamic :: u32 where "kPtDynamic = 2"
definition kDtNull :: u64 where "kDtNull = 0"
definition kDtNeeded :: u64 where "kDtNeeded = 1"
definition kDtStrtab :: u64 where "kDtStrtab = 5"
definition kDtStrsz :: u64 where "kDtStrsz = 10"
definition elf_format :: string where "elf_format = ''ELF''"
definition elf_kMaxNameLength :: u64 where "elf_kMaxNameLength = 4096"

record Elf32_Ehdr =
  e32_ident :: bytes
  e32_type :: u16
  e32_machine :: u16
  e32_version :: u32
  e32_entry :: u32
  e32_phoff :: u32
  e32_shoff :: u32
  e32_flags :: u32
  e32_ehsize :: u16
  e32_phentsize :: u16
  e32_phnum :: u16
  e32_shentsize :: u16
  e32_shnum :: u16
  e32_shstrndx :: u16

record Elf64_Ehdr =
  e64_ident :: bytes
  e64_type :: u16
  e64_machine :: u16
  e64_version :: u32
  e64_entry :: u64
  e64_phoff :: u64
  e64_shoff :: u64
  e64_flags :: u32
  e64_ehsize :: u16
  e64_phentsize :: u16
  e64_phnum :: u16
  e64_shentsize :: u16
  e64_shnum :: u16
  e64_shstrndx :: u16

record Elf32_Phdr =
  p32_type :: u32
  p32_offset :: u32
  p32_vaddr :: u32
  p32_paddr :: u32
  p32_filesz :: u32
  p32_memsz :: u32
  p32_flags :: u32
  p32_align :: u32

record Elf64_Phdr =
  p64_type :: u32
  p64_flags :: u32
  p64_offset :: u64
  p64_vaddr :: u64
  p64_paddr :: u64
  p64_filesz :: u64
  p64_memsz :: u64
  p64_align :: u64

text \<open>The union \<open>d_un\<close> has two members of one type; both read the same bytes.\<close>

record Elf32_Dyn =
  d32_tag :: u32
  d32_un :: u32

record Elf64_Dyn =
  d64_tag :: u64
  d64_un :: u64

definition load_Elf32_Ehdr :: "ByteOrder \<Rightarrow> bytes \<Rightarrow> Elf32_Ehdr" where
  "load_Elf32_Ehdr host raw =
     \<lparr>e32_ident = segment 0 16 raw, e32_type = field host raw 16, e32_machine = field host raw 18,
      e32_version = field host raw 20, e32_entry = field host raw 24, e32_phoff = field host raw 28,
      e32_shoff = field host raw 32, e32_flags = field host raw 36, e32_ehsize = field host raw 40,
      e32_phentsize = field host raw 42, e32_phnum = field host raw 44, e32_shentsize = field host raw 46,
      e32_shnum = field host raw 48, e32_shstrndx = field host raw 50\<rparr>"

definition load_Elf64_Ehdr :: "ByteOrder \<Rightarrow> bytes \<Rightarrow> Elf64_Ehdr" where
  "load_Elf64_Ehdr host raw =
     \<lparr>e64_ident = segment 0 16 raw, e64_type = field host raw 16, e64_machine = field host raw 18,
      e64_version = field host raw 20, e64_entry = field host raw 24, e64_phoff = field host raw 32,
      e64_shoff = field host raw 40, e64_flags = field host raw 48, e64_ehsize = field host raw 52,
      e64_phentsize = field host raw 54, e64_phnum = field host raw 56, e64_shentsize = field host raw 58,
      e64_shnum = field host raw 60, e64_shstrndx = field host raw 62\<rparr>"

definition load_Elf32_Phdr :: "ByteOrder \<Rightarrow> bytes \<Rightarrow> Elf32_Phdr" where
  "load_Elf32_Phdr host raw =
     \<lparr>p32_type = field host raw 0, p32_offset = field host raw 4, p32_vaddr = field host raw 8,
      p32_paddr = field host raw 12, p32_filesz = field host raw 16, p32_memsz = field host raw 20,
      p32_flags = field host raw 24, p32_align = field host raw 28\<rparr>"

definition load_Elf64_Phdr :: "ByteOrder \<Rightarrow> bytes \<Rightarrow> Elf64_Phdr" where
  "load_Elf64_Phdr host raw =
     \<lparr>p64_type = field host raw 0, p64_flags = field host raw 4, p64_offset = field host raw 8,
      p64_vaddr = field host raw 16, p64_paddr = field host raw 24, p64_filesz = field host raw 32,
      p64_memsz = field host raw 40, p64_align = field host raw 48\<rparr>"

definition load_Elf32_Dyn :: "ByteOrder \<Rightarrow> bytes \<Rightarrow> Elf32_Dyn" where
  "load_Elf32_Dyn host raw = \<lparr>d32_tag = field host raw 0, d32_un = field host raw 4\<rparr>"

definition load_Elf64_Dyn :: "ByteOrder \<Rightarrow> bytes \<Rightarrow> Elf64_Dyn" where
  "load_Elf64_Dyn host raw = \<lparr>d64_tag = field host raw 0, d64_un = field host raw 8\<rparr>"

text \<open>
  What \<open>ParseElf\<close> uses of its type arguments: the sizes, and each field after
  \<open>ByteSwapIfNeeded\<close>, widened as the code's variables widen it (the tag with its sign).
\<close>

record elf_types =
  sizeof_Ehdr :: u64
  sizeof_Phdr :: u64
  sizeof_Dyn :: u64
  hdr_phoff :: "ByteOrder \<Rightarrow> bool \<Rightarrow> bytes \<Rightarrow> u64"
  hdr_phentsize :: "ByteOrder \<Rightarrow> bool \<Rightarrow> bytes \<Rightarrow> u16"
  hdr_phnum :: "ByteOrder \<Rightarrow> bool \<Rightarrow> bytes \<Rightarrow> u16"
  ph_type :: "ByteOrder \<Rightarrow> bool \<Rightarrow> bytes \<Rightarrow> u32"
  ph_offset :: "ByteOrder \<Rightarrow> bool \<Rightarrow> bytes \<Rightarrow> u64"
  ph_vaddr :: "ByteOrder \<Rightarrow> bool \<Rightarrow> bytes \<Rightarrow> u64"
  ph_memsz :: "ByteOrder \<Rightarrow> bool \<Rightarrow> bytes \<Rightarrow> u64"
  ph_filesz :: "ByteOrder \<Rightarrow> bool \<Rightarrow> bytes \<Rightarrow> u64"
  dyn_tag :: "ByteOrder \<Rightarrow> bool \<Rightarrow> bytes \<Rightarrow> u64"
  dyn_un :: "ByteOrder \<Rightarrow> bool \<Rightarrow> bytes \<Rightarrow> u64"

definition elf32 :: elf_types where
  "elf32 =
     \<lparr>sizeof_Ehdr = 52, sizeof_Phdr = 32, sizeof_Dyn = 8,
      hdr_phoff = (\<lambda>host le raw. ucast (ByteSwapIfNeeded host (e32_phoff (load_Elf32_Ehdr host raw)) le)),
      hdr_phentsize = (\<lambda>host le raw. ByteSwapIfNeeded host (e32_phentsize (load_Elf32_Ehdr host raw)) le),
      hdr_phnum = (\<lambda>host le raw. ByteSwapIfNeeded host (e32_phnum (load_Elf32_Ehdr host raw)) le),
      ph_type = (\<lambda>host le raw. ByteSwapIfNeeded host (p32_type (load_Elf32_Phdr host raw)) le),
      ph_offset = (\<lambda>host le raw. ucast (ByteSwapIfNeeded host (p32_offset (load_Elf32_Phdr host raw)) le)),
      ph_vaddr = (\<lambda>host le raw. ucast (ByteSwapIfNeeded host (p32_vaddr (load_Elf32_Phdr host raw)) le)),
      ph_memsz = (\<lambda>host le raw. ucast (ByteSwapIfNeeded host (p32_memsz (load_Elf32_Phdr host raw)) le)),
      ph_filesz = (\<lambda>host le raw. ucast (ByteSwapIfNeeded host (p32_filesz (load_Elf32_Phdr host raw)) le)),
      dyn_tag = (\<lambda>host le raw. scast (ByteSwapIfNeeded host (d32_tag (load_Elf32_Dyn host raw)) le)),
      dyn_un = (\<lambda>host le raw. ucast (ByteSwapIfNeeded host (d32_un (load_Elf32_Dyn host raw)) le))\<rparr>"

definition elf64 :: elf_types where
  "elf64 =
     \<lparr>sizeof_Ehdr = 64, sizeof_Phdr = 56, sizeof_Dyn = 16,
      hdr_phoff = (\<lambda>host le raw. ByteSwapIfNeeded host (e64_phoff (load_Elf64_Ehdr host raw)) le),
      hdr_phentsize = (\<lambda>host le raw. ByteSwapIfNeeded host (e64_phentsize (load_Elf64_Ehdr host raw)) le),
      hdr_phnum = (\<lambda>host le raw. ByteSwapIfNeeded host (e64_phnum (load_Elf64_Ehdr host raw)) le),
      ph_type = (\<lambda>host le raw. ByteSwapIfNeeded host (p64_type (load_Elf64_Phdr host raw)) le),
      ph_offset = (\<lambda>host le raw. ByteSwapIfNeeded host (p64_offset (load_Elf64_Phdr host raw)) le),
      ph_vaddr = (\<lambda>host le raw. ByteSwapIfNeeded host (p64_vaddr (load_Elf64_Phdr host raw)) le),
      ph_memsz = (\<lambda>host le raw. ByteSwapIfNeeded host (p64_memsz (load_Elf64_Phdr host raw)) le),
      ph_filesz = (\<lambda>host le raw. ByteSwapIfNeeded host (p64_filesz (load_Elf64_Phdr host raw)) le),
      dyn_tag = (\<lambda>host le raw. ByteSwapIfNeeded host (d64_tag (load_Elf64_Dyn host raw)) le),
      dyn_un = (\<lambda>host le raw. ByteSwapIfNeeded host (d64_un (load_Elf64_Dyn host raw)) le)\<rparr>"

section \<open>The parser\<close>

record LoadSegment =
  seg_vaddr :: u64
  seg_filesz :: u64
  seg_offset :: u64

fun FindFileBackedSegment :: "u64 \<Rightarrow> LoadSegment list \<Rightarrow> LoadSegment option" where
  "FindFileBackedSegment va [] = None"
| "FindFileBackedSegment va (s # ss) =
     (if va \<ge> seg_vaddr s \<and> va - seg_vaddr s < seg_filesz s then Some s else FindFileBackedSegment va ss)"

text \<open>The variables of the loop over the program headers.\<close>

record phdr_state =
  dynamic_offset :: "u64 option"
  dynamic_size :: u64
  load_segments :: "LoadSegment list"

definition ReadPhdr ::
  "elf_types \<Rightarrow> ByteOrder \<Rightarrow> bool \<Rightarrow> ByteSpan \<Rightarrow> ByteSpan \<Rightarrow> u16 \<Rightarrow> phdr_state \<Rightarrow> nat \<Rightarrow> phdr_state res" where
  "ReadPhdr T host le file table phentsize st index =
     bindE (ReadStruct table (word_of_nat index * ucast phentsize) (sizeof_Phdr T) ''program header'') (\<lambda>phdr.
     let p_type = ph_type T host le phdr; p_offset = ph_offset T host le phdr;
         p_vaddr = ph_vaddr T host le phdr; p_memsz = ph_memsz T host le phdr;
         p_filesz = ph_filesz T host le phdr in
     bindE (if p_type = kPtLoad then
              (if \<not> RangeFits p_offset p_filesz (span_size file) then
                 ThrowMalformed elf_format (''PT_LOAD segment '' @ dec index @ '' file data (offset '' @
                   to_string p_offset @ '', size '' @ to_string p_filesz @
                   '') extends past the end of the file ('' @ to_string (span_size file) @ '' bytes)'')
               else bindE (CheckedAdd p_vaddr p_memsz elf_format
                             (''PT_LOAD segment '' @ dec index @ '' virtual address range'')) (\<lambda>_.
                 Inr (st\<lparr>load_segments := load_segments st @
                        [\<lparr>seg_vaddr = p_vaddr, seg_filesz = p_filesz, seg_offset = p_offset\<rparr>]\<rparr>)))
            else Inr st) (\<lambda>st'.
     Inr (if p_type = kPtDynamic then st'\<lparr>dynamic_offset := Some p_offset, dynamic_size := p_filesz\<rparr> else st')))"

text \<open>The variables of the loop over the dynamic entries, which a null entry ends.\<close>

record dyn_state =
  needed_offsets :: "u64 list"
  string_table_va :: "u64 option"
  string_table_size :: "u64 option"

fun ReadDyns ::
  "elf_types \<Rightarrow> ByteOrder \<Rightarrow> bool \<Rightarrow> ByteSpan \<Rightarrow> nat \<Rightarrow> u64 \<Rightarrow> dyn_state \<Rightarrow> dyn_state res" where
  "ReadDyns T host le dynamic 0 index st = Inr st"
| "ReadDyns T host le dynamic (Suc left) index st =
     bindE (ReadStruct dynamic (index * sizeof_Dyn T) (sizeof_Dyn T) ''dynamic entry'') (\<lambda>dyn.
     let tag = dyn_tag T host le dyn; v = dyn_un T host le dyn in
     if tag = kDtNull then Inr st
     else ReadDyns T host le dynamic left (index + 1)
       (if tag = kDtNeeded then st\<lparr>needed_offsets := needed_offsets st @ [v]\<rparr>
        else if tag = kDtStrtab then st\<lparr>string_table_va := Some v\<rparr>
        else if tag = kDtStrsz then st\<lparr>string_table_size := Some v\<rparr>
        else st))"

definition ReadName :: "ByteSpan \<Rightarrow> ByteSpan \<Rightarrow> string list \<times> u64 \<Rightarrow> u64 \<Rightarrow> (string list \<times> u64) res" where
  "ReadName file string_table st needed_offset =
     bindE (CString string_table needed_offset elf_kMaxNameLength ''DT_NEEDED name'') (\<lambda>name.
     let total_name_bytes = snd st + word_of_nat (length name) in
     if total_name_bytes > span_size file then
       ThrowMalformed elf_format (''DT_NEEDED names total '' @ to_string total_name_bytes @
         '' bytes, more than the file ('' @ to_string (span_size file) @ '' bytes)'')
     else Inr (fst st @ [name], total_name_bytes))"

definition ParseElf :: "elf_types \<Rightarrow> ByteOrder \<Rightarrow> ByteSpan \<Rightarrow> bool \<Rightarrow> string list res" where
  "ParseElf T host file le =
     bindE (ReadStruct file 0 (sizeof_Ehdr T) ''ELF header'') (\<lambda>header.
     let phoff = hdr_phoff T host le header;
         phentsize = hdr_phentsize T host le header;
         phnum = hdr_phnum T host le header in
     if ucast phentsize < sizeof_Phdr T then
       ThrowMalformed elf_format (''program header entry size '' @ to_string phentsize @
         '' is smaller than the '' @ to_string (sizeof_Phdr T) @ '' bytes of a program header'')
     else
     bindE (CheckedMultiply (ucast phnum) (ucast phentsize) elf_format ''program header table size'') (\<lambda>table_size.
     bindE (Sub file phoff table_size ''program header table'') (\<lambda>table.
     bindE (foldE (ReadPhdr T host le file table phentsize)
              \<lparr>dynamic_offset = None, dynamic_size = 0, load_segments = []\<rparr> [0..<unat phnum]) (\<lambda>ph.
     case dynamic_offset ph of
       None \<Rightarrow> Inr []
     | Some dynamic_off \<Rightarrow>
       if dynamic_size ph = 0 then Inr [] else
       bindE (Sub file dynamic_off (dynamic_size ph) ''PT_DYNAMIC segment'') (\<lambda>dynamic.
       bindE (ReadDyns T host le dynamic (unat (span_size dynamic div sizeof_Dyn T)) 0
                \<lparr>needed_offsets = [], string_table_va = None, string_table_size = None\<rparr>) (\<lambda>dy.
       case string_table_va dy of
         None \<Rightarrow> ThrowMalformed elf_format ''DT_STRTAB is missing from the dynamic section''
       | Some va \<Rightarrow>
         (case FindFileBackedSegment va (load_segments ph) of
            None \<Rightarrow> ThrowMalformed elf_format (''DT_STRTAB address '' @ to_string va @
                     '' is not inside the file data of any PT_LOAD segment'')
          | Some seg \<Rightarrow>
            let within_segment = va - seg_vaddr seg;
                rest = seg_filesz seg - within_segment;
                string_table_length =
                  (case string_table_size dy of
                     Some n \<Rightarrow> if n < rest then n else rest
                   | None \<Rightarrow> rest) in
            bindE (Sub file (seg_offset seg + within_segment) string_table_length ''string table'') (\<lambda>string_table.
            bindE (foldE (ReadName file string_table) ([], 0) (needed_offsets dy)) (\<lambda>(dependencies, _).
            Inr dependencies)))))))))"

definition ListFromBytes :: "ByteOrder \<Rightarrow> bytes \<Rightarrow> string list res" where
  "ListFromBytes host bs =
     (let file = ByteSpan_of_bytes bs elf_format ''the file'' in
      if length bs < kEiNident then
        ThrowMalformed elf_format (''ELF header is too small ('' @ dec (length bs) @ '' bytes, '' @
          dec kEiNident @ '' needed)'')
      else if bs ! 0 \<noteq> 0x7F \<or> bs ! 1 \<noteq> 0x45 \<or> bs ! 2 \<noteq> 0x4C \<or> bs ! 3 \<noteq> 0x46 then
        ThrowMalformed elf_format ''ELF header magic is invalid''
      else
        let elf_class = bs ! 4; elf_data = bs ! 5 in
        if elf_data \<noteq> kElfData2Lsb \<and> elf_data \<noteq> kElfData2Msb then
          ThrowMalformed elf_format (''ELF header endianness '' @ to_string elf_data @ '' is not supported'')
        else
          let file_is_little_endian = (elf_data = kElfData2Lsb) in
          if elf_class = kElfClass32 then ParseElf elf32 host file file_is_little_endian
          else if elf_class = kElfClass64 then ParseElf elf64 host file file_is_little_endian
          else ThrowMalformed elf_format (''ELF header class '' @ to_string elf_class @ '' is not supported''))"

definition ElfParser_ListDependenciesFromBytes :: "ByteOrder \<Rightarrow> bytes \<Rightarrow> string list res" where
  "ElfParser_ListDependenciesFromBytes host bs = GuardEntryPoint elf_format (ListFromBytes host bs)"

section \<open>Every failure is the documented rejection\<close>

lemma rejects_ReadPhdr [rejects_intros]:
  "good elf_format table \<Longrightarrow> rejects elf_format (ReadPhdr T host le file table phentsize st index)"
  unfolding ReadPhdr_def Let_def by (intro rejects_intros)

lemma rejects_ReadDyns [rejects_intros]:
  "good elf_format dynamic \<Longrightarrow> rejects elf_format (ReadDyns T host le dynamic n index st)"
proof (induction n arbitrary: index st)
  case (Suc n)
  then show ?case unfolding ReadDyns.simps Let_def by (intro rejects_intros)
qed (simp add: rejects_Inr)

lemma rejects_ReadName [rejects_intros]:
  "good elf_format string_table \<Longrightarrow> rejects elf_format (ReadName file string_table st off)"
  unfolding ReadName_def Let_def by (intro rejects_intros)

lemma rejects_ParseElf:
  assumes "good elf_format file"
  shows "rejects elf_format (ParseElf T host file le)"
  unfolding ParseElf_def Let_def
  by (intro rejects_intros) (auto intro: assms good_Sub rejects_intros split: prod.splits)

lemma rejects_ListFromBytes: "length bs < 2 ^ 64 \<Longrightarrow> rejects elf_format (ListFromBytes host bs)"
  unfolding ListFromBytes_def Let_def
  by (intro rejects_intros rejects_ParseElf good_bytes)

section \<open>The result does not depend on the machine\<close>

text \<open>What a set of structure types must promise: reading them is the same on every machine.\<close>

locale portable_types =
  fixes T :: elf_types
  assumes ehdr: "length raw = unat (sizeof_Ehdr T) \<Longrightarrow>
      hdr_phoff T host le raw = hdr_phoff T Little le raw \<and>
      hdr_phentsize T host le raw = hdr_phentsize T Little le raw \<and>
      hdr_phnum T host le raw = hdr_phnum T Little le raw"
    and phdr: "length raw = unat (sizeof_Phdr T) \<Longrightarrow>
      ph_type T host le raw = ph_type T Little le raw \<and>
      ph_offset T host le raw = ph_offset T Little le raw \<and>
      ph_vaddr T host le raw = ph_vaddr T Little le raw \<and>
      ph_memsz T host le raw = ph_memsz T Little le raw \<and>
      ph_filesz T host le raw = ph_filesz T Little le raw"
    and dyn: "length raw = unat (sizeof_Dyn T) \<Longrightarrow>
      dyn_tag T host le raw = dyn_tag T Little le raw \<and>
      dyn_un T host le raw = dyn_un T Little le raw"
begin

lemma ReadStruct_length:
  "span_ok sp c \<Longrightarrow> ReadStruct sp off n what = Inr raw \<Longrightarrow> length raw = unat n"
  by (auto simp: ReadStruct_eq ThrowMalformed_def split: if_splits)

lemma ReadPhdr_host:
  assumes "span_ok table c"
  shows "ReadPhdr T host le file table phentsize st index = ReadPhdr T Little le file table phentsize st index"
  unfolding ReadPhdr_def
  by (rule bindE_cong [OF refl]) (use phdr [of _ host le] ReadStruct_length [OF assms] in \<open>simp add: Let_def\<close>)

lemma ReadDyns_host:
  assumes "span_ok dynamic c"
  shows "ReadDyns T host le dynamic n index st = ReadDyns T Little le dynamic n index st"
proof (induction n arbitrary: index st)
  case (Suc n)
  show ?case unfolding ReadDyns.simps
    by (rule bindE_cong [OF refl])
      (use dyn [of _ host le] ReadStruct_length [OF assms] Suc in \<open>simp add: Let_def\<close>)
qed simp

lemma ParseElf_host:
  assumes "span_ok file c"
  shows "ParseElf T host file le = ParseElf T Little file le"
proof -
  have table: "foldE (ReadPhdr T host le file table phentsize) st xs = foldE (ReadPhdr T Little le file table phentsize) st xs"
    if "Sub file off n what = Inr table" for table off n what phentsize st xs
    using ReadPhdr_host [OF Sub_span_ok(1) [OF assms that]] by (intro foldE_cong refl)
  have dynamic: "ReadDyns T host le d n index st = ReadDyns T Little le d n index st"
    if "Sub file off m what = Inr d" for d off m what n index st
    using ReadDyns_host [OF Sub_span_ok(1) [OF assms that]] .
  have header: "length raw = unat (sizeof_Ehdr T)" if "ReadStruct file 0 (sizeof_Ehdr T) what = Inr raw" for raw what
    using ReadStruct_length [OF assms that] .
  show ?thesis
    unfolding ParseElf_def
    by (intro bindE_cong refl) (simp add: ehdr [OF header, of _ _ host le] table dynamic Let_def
        cong: bindE_cong option.case_cong if_cong)
qed

end

lemma portable_elf32: "portable_types elf32"
  by unfold_locales
    (simp_all add: elf32_def load_Elf32_Ehdr_def load_Elf32_Phdr_def load_Elf32_Dyn_def field_converted)

lemma portable_elf64: "portable_types elf64"
  by unfold_locales
    (simp_all add: elf64_def load_Elf64_Ehdr_def load_Elf64_Phdr_def load_Elf64_Dyn_def field_converted)

interpretation e32: portable_types elf32 by (rule portable_elf32)

interpretation e64: portable_types elf64 by (rule portable_elf64)

section \<open>What is listed\<close>

lemma ReadName_names_ok:
  assumes f: "span_ok file bs" and small: "length bs < 2 ^ 63"
    and table: "span_ok table (segment a n bs)"
    and st: "names_ok bs (fst st)" "unat (snd st) = sum_list (map length (fst st))"
    and step: "ReadName file table st off = Inr st'"
  shows "names_ok bs (fst st') \<and> unat (snd st') = sum_list (map length (fst st'))"
proof -
  obtain name where name: "CString table off elf_kMaxNameLength ''DT_NEEDED name'' = Inr name"
    and le: "\<not> span_size file < snd st + word_of_nat (length name)"
    and st': "st' = (fst st @ [name], snd st + word_of_nat (length name))"
    using step by (auto simp: ReadName_def Let_def ThrowMalformed_def split: if_splits)
  have str: "c_string_of bs name" "length name < 4096"
    using CString_c_string_of [OF table name] by (auto dest: c_string_of_segment simp: elf_kMaxNameLength_def)
  have sum: "unat (snd st + word_of_nat (length name)) = unat (snd st) + length name"
    using st(1) str(2) small by (subst unat_add_nowrap) (simp_all add: unat_of_nat st(2) names_ok_def)
  show ?thesis
    using st str le sum span_ok_length [OF f] by (auto simp: st' names_ok_def word_less_nat_alt)
qed

lemma ParseElf_names_ok:
  assumes f: "span_ok file bs" and small: "length bs < 2 ^ 63" and res: "ParseElf T host file le = Inr names"
  shows "names_ok bs names"
proof (cases "names = []")
  case True
  then show ?thesis by (simp add: names_ok_def)
next
  case False
  then obtain table off n tail needed where sub: "Sub file off n ''string table'' = Inr table"
    and fold: "foldE (ReadName file table) ([], 0) needed = Inr (names, tail)"
    using res
    by (auto simp: ParseElf_def Let_def ThrowMalformed_def intro: that split: if_splits option.splits prod.splits)
  have "names_ok bs (fst (names, tail)) \<and> unat (snd (names, tail)) = sum_list (map length (fst (names, tail)))"
    using fold
  proof (rule foldE_invariant)
    show "names_ok bs (fst ([], 0)) \<and> unat (snd ([], 0 :: u64)) = sum_list (map length (fst ([], 0)))"
      by (simp add: names_ok_def)
  qed (use ReadName_names_ok [OF f small Sub_span_ok(1) [OF f sub]] in blast)
  then show ?thesis by simp
qed

section \<open>The dynamic entries that count\<close>









text \<open>The parser's result in terms of the dynamic segment and the string table it chose.\<close>








section \<open>Properties\<close>

text \<open>A 32-bit little-endian file of 144 bytes that needs one library, \<open>lc\<close>.\<close>

definition tiny_elf :: bytes where
  "tiny_elf =
     [0x7F, 0x45, 0x4C, 0x46, 1, 1, 1, 0, 0, 0, 0, 0, 0, 0, 0, 0,
      3, 0, 3, 0, 1, 0, 0, 0, 0, 0, 0, 0, 52, 0, 0, 0, 0, 0, 0, 0, 0, 0, 0, 0, 52, 0, 32, 0, 2, 0, 0, 0, 0, 0, 0, 0] @
     [1, 0, 0, 0, 0, 0, 0, 0, 0, 0, 0, 0, 0, 0, 0, 0, 144, 0, 0, 0, 144, 0, 0, 0, 4, 0, 0, 0, 0, 0, 0, 0] @
     [2, 0, 0, 0, 116, 0, 0, 0, 116, 0, 0, 0, 0, 0, 0, 0, 24, 0, 0, 0, 24, 0, 0, 0, 4, 0, 0, 0, 0, 0, 0, 0] @
     [1, 0, 0, 0, 1, 0, 0, 0] @ [5, 0, 0, 0, 140, 0, 0, 0] @ [0, 0, 0, 0, 0, 0, 0, 0] @
     [0, 0x6C, 0x63, 0]"

lemma length_tiny_elf: "length tiny_elf = 144"
  by (simp add: tiny_elf_def)

lemma span_tiny_elf:
  "ByteSpan_of_bytes tiny_elf fmt sc = \<lparr>backing = Memory tiny_elf, span_size = 144, span_format = fmt, span_scope = sc\<rparr>"
  by (simp add: ByteSpan_of_bytes_def length_tiny_elf)

lemma tiny_elf_listed: "ElfParser_ListDependenciesFromBytes Little tiny_elf = Inr [''lc'']"
  unfolding ElfParser_ListDependenciesFromBytes_def ListFromBytes_def span_tiny_elf length_tiny_elf by code_simp

text \<open>The types and the byte order that the identification bytes select.\<close>

definition file_types :: "bytes \<Rightarrow> elf_types" where
  "file_types bs = (if bs ! 4 = kElfClass32 then elf32 else elf64)"

definition file_little :: "bytes \<Rightarrow> bool" where
  "file_little bs \<longleftrightarrow> bs ! 5 = kElfData2Lsb"

lemma ListFromBytes_Inr:
  assumes "length bs < 2 ^ 64" and "ElfParser_ListDependenciesFromBytes host bs = Inr names"
  shows "ParseElf (file_types bs) host (ByteSpan_of_bytes bs elf_format ''the file'') (file_little bs) = Inr names"
  using assms(2) Guard_of_rejects [OF rejects_ListFromBytes [OF assms(1)], of host]
  by (auto simp: ElfParser_ListDependenciesFromBytes_def ListFromBytes_def Let_def ThrowMalformed_def
      file_types_def file_little_def split: if_splits)

text \<open>
  C2: whatever the bytes, the parser returns a list or the documented rejection, a
  \<open>std::runtime_error\<close> that starts with \<open>ELF: \<close>; no read leaves the file, and the entry
  point's guard has nothing to convert.
\<close>

theorem elf_returns_or_rejects:
  assumes "length bs < 2 ^ 64"
  shows "ElfParser_ListDependenciesFromBytes host bs = ListFromBytes host bs \<and>
    ((\<exists>names. ListFromBytes host bs = Inr names) \<or>
     (\<exists>detail. ListFromBytes host bs = Inl (runtime_error (elf_format @ '': '' @ detail))))"
  using rejects_ListFromBytes [OF assms, of host] Guard_of_rejects [OF rejects_ListFromBytes [OF assms, of host]]
  by (cases "ListFromBytes host bs") (auto simp: ElfParser_ListDependenciesFromBytes_def rejects_def)

theorem elf_returns_or_rejects_witness:
  "ElfParser_ListDependenciesFromBytes Big [0x7F, 0x45] = ListFromBytes Big [0x7F, 0x45] \<and>
   (\<exists>detail. ListFromBytes Big [0x7F, 0x45] = Inl (runtime_error (elf_format @ '': '' @ detail)))"
  using elf_returns_or_rejects [of "[0x7F, 0x45]" Big] by (auto simp: ListFromBytes_def kEiNident_def ThrowMalformed_def)

text \<open>
  The list does not depend on the byte order of the machine that parses the file.
\<close>

theorem elf_host_independent:
  assumes "length bs < 2 ^ 64"
  shows "ElfParser_ListDependenciesFromBytes host bs = ElfParser_ListDependenciesFromBytes Little bs"
  using e32.ParseElf_host [OF span_ok_bytes [OF assms], of host elf_format "''the file''"]
    e64.ParseElf_host [OF span_ok_bytes [OF assms], of host elf_format "''the file''"]
  by (simp add: ElfParser_ListDependenciesFromBytes_def ListFromBytes_def Let_def)

theorem elf_host_independent_witness:
  "ElfParser_ListDependenciesFromBytes Big tiny_elf = Inr [''lc'']"
  using elf_host_independent [of tiny_elf Big] by (simp add: length_tiny_elf tiny_elf_listed)

text \<open>
  every name listed is a NUL-terminated string of the file shorter than 4096 bytes, and
  the names together are no longer than the file, so the output is bounded by the input.
\<close>

theorem elf_names_bounded:
  assumes "length bs < 2 ^ 63" and "ElfParser_ListDependenciesFromBytes host bs = Inr names"
  shows "(\<forall>s \<in> set names. c_string_of bs s \<and> length s < 4096) \<and> sum_list (map length names) \<le> length bs"
proof -
  have small: "length bs < 2 ^ 64" using assms(1) by simp
  from ParseElf_names_ok [OF span_ok_bytes [OF small] assms(1) ListFromBytes_Inr [OF small assms(2)]] show ?thesis by (simp add: names_ok_def)
qed

theorem elf_names_bounded_witness: "c_string_of tiny_elf ''lc''"
  using elf_names_bounded [OF _ tiny_elf_listed] by (simp add: length_tiny_elf)



end
