(* ===== verification/Pe_Parser.thy ===== *)
theory Pe_Parser
  imports Bounded_Bytes
begin

text \<open>
  \<open>src/internal/PeParser.hpp\<close> and \<open>PeParser.cpp\<close>: listing the libraries a PE file imports,
  directly or delay-loaded. The structures are records loaded from their bytes in the
  byte order of the machine (\<open>host\<close>), as in \<open>Elf_Parser\<close>. The function
  \<open>ListDependenciesFromBytes\<close> is split where the code's stages are: the headers, the section
  table, the two loops over descriptors, and the two loops over names.

  The lemmas show that every failure is the documented rejection, that the loops over
  descriptors end, where an address maps in the file, which names are listed, and that
  the names are bounded by the file.
\<close>

section \<open>Constants and structures\<close>

definition kImageDosSignature :: u16 where "kImageDosSignature = 0x5A4D"
definition kImageNtSignature :: u32 where "kImageNtSignature = 0x00004550"
definition kImageNtOptionalHdr32Magic :: u16 where "kImageNtOptionalHdr32Magic = 0x10B"
definition kImageNtOptionalHdr64Magic :: u16 where "kImageNtOptionalHdr64Magic = 0x20B"
definition pe_format :: string where "pe_format = ''PE''"
definition pe_kMaxNameLength :: u64 where "pe_kMaxNameLength = 4096"
definition kDelayImportDirectory :: u32 where "kDelayImportDirectory = 13"
definition kDelayDescriptorSize :: u64 where "kDelayDescriptorSize = 32"
definition kDelayAttributeRvaForm :: u32 where "kDelayAttributeRvaForm = 1"
definition sizeof_ImageDosHeader :: u64 where "sizeof_ImageDosHeader = 64"
definition offsetof_e_lfanew :: u64 where "offsetof_e_lfanew = 60"
definition sizeof_ImageFileHeader :: u64 where "sizeof_ImageFileHeader = 20"
definition sizeof_ImageDataDirectory :: u64 where "sizeof_ImageDataDirectory = 8"
definition sizeof_ImageSectionHeader :: u64 where "sizeof_ImageSectionHeader = 40"
definition sizeof_ImageImportDescriptor :: u64 where "sizeof_ImageImportDescriptor = 20"

record ImageFileHeader =
  Machine :: u16
  NumberOfSections :: u16
  fh_TimeDateStamp :: u32
  PointerToSymbolTable :: u32
  NumberOfSymbols :: u32
  SizeOfOptionalHeader :: u16
  fh_Characteristics :: u16

record ImageDataDirectory =
  dd_VirtualAddress :: u32
  dd_Size :: u32

record ImageSectionHeader =
  sh_Name :: bytes
  VirtualSize :: u32
  sh_VirtualAddress :: u32
  SizeOfRawData :: u32
  PointerToRawData :: u32
  PointerToRelocations :: u32
  PointerToLinenumbers :: u32
  NumberOfRelocations :: u16
  NumberOfLinenumbers :: u16
  sh_Characteristics :: u32

record ImageImportDescriptor =
  OriginalFirstThunk :: u32
  id_TimeDateStamp :: u32
  ForwarderChain :: u32
  id_Name :: u32
  FirstThunk :: u32

definition load_ImageFileHeader :: "ByteOrder \<Rightarrow> bytes \<Rightarrow> ImageFileHeader" where
  "load_ImageFileHeader host raw =
     \<lparr>Machine = field host raw 0, NumberOfSections = field host raw 2, fh_TimeDateStamp = field host raw 4,
      PointerToSymbolTable = field host raw 8, NumberOfSymbols = field host raw 12,
      SizeOfOptionalHeader = field host raw 16, fh_Characteristics = field host raw 18\<rparr>"

definition load_ImageDataDirectory :: "ByteOrder \<Rightarrow> bytes \<Rightarrow> ImageDataDirectory" where
  "load_ImageDataDirectory host raw = \<lparr>dd_VirtualAddress = field host raw 0, dd_Size = field host raw 4\<rparr>"

definition load_ImageSectionHeader :: "ByteOrder \<Rightarrow> bytes \<Rightarrow> ImageSectionHeader" where
  "load_ImageSectionHeader host raw =
     \<lparr>sh_Name = segment 0 8 raw, VirtualSize = field host raw 8, sh_VirtualAddress = field host raw 12,
      SizeOfRawData = field host raw 16, PointerToRawData = field host raw 20,
      PointerToRelocations = field host raw 24, PointerToLinenumbers = field host raw 28,
      NumberOfRelocations = field host raw 32, NumberOfLinenumbers = field host raw 34,
      sh_Characteristics = field host raw 36\<rparr>"

definition load_ImageImportDescriptor :: "ByteOrder \<Rightarrow> bytes \<Rightarrow> ImageImportDescriptor" where
  "load_ImageImportDescriptor host raw =
     \<lparr>OriginalFirstThunk = field host raw 0, id_TimeDateStamp = field host raw 4,
      ForwarderChain = field host raw 8, id_Name = field host raw 12, FirstThunk = field host raw 16\<rparr>"

section \<open>The parser\<close>

definition lower_char :: "char \<Rightarrow> char" where
  "lower_char c =
     (if 65 \<le> (of_char c :: nat) \<and> (of_char c :: nat) \<le> 90 then char_of ((of_char c :: nat) - 65 + 97) else c)"

definition LowerAscii :: "string \<Rightarrow> string" where
  "LowerAscii s = map lower_char s"

definition FromLittleEndian :: "ByteOrder \<Rightarrow> 'a::len word \<Rightarrow> 'a word" where
  "FromLittleEndian host v = ByteSwapIfNeeded host v True"

definition RvaOutside :: "u32 \<Rightarrow> u64 \<Rightarrow> string \<Rightarrow> 'a res" where
  "RvaOutside rva file_size what =
     ThrowMalformed pe_format (what @ '' RVA '' @ to_string rva @ '' is not inside the file ('' @
       to_string file_size @ '' bytes)'')"

fun RvaInSections :: "ByteOrder \<Rightarrow> u32 \<Rightarrow> ImageSectionHeader list \<Rightarrow> u64 \<Rightarrow> string \<Rightarrow> u64 res" where
  "RvaInSections host rva [] file_size what = RvaOutside rva file_size what"
| "RvaInSections host rva (section # rest) file_size what =
     (let virtual_address = ucast (FromLittleEndian host (sh_VirtualAddress section)) :: u64;
          virtual_size = ucast (FromLittleEndian host (VirtualSize section)) :: u64;
          raw_size = ucast (FromLittleEndian host (SizeOfRawData section)) :: u64;
          raw_pointer = ucast (FromLittleEndian host (PointerToRawData section)) :: u64;
          span = max virtual_size raw_size in
      if ucast rva \<ge> virtual_address \<and> ucast rva < virtual_address + span then
        let offset = raw_pointer + (ucast rva - virtual_address) in
        if offset \<ge> file_size then RvaOutside rva file_size what else Inr offset
      else RvaInSections host rva rest file_size what)"

definition RvaToOffset :: "ByteOrder \<Rightarrow> u32 \<Rightarrow> ImageSectionHeader list \<Rightarrow> u32 \<Rightarrow> u64 \<Rightarrow> string \<Rightarrow> u64 res" where
  "RvaToOffset host rva sections size_of_headers file_size what =
     (if rva < size_of_headers \<and> ucast rva < file_size then Inr (ucast rva)
      else RvaInSections host rva sections file_size what)"

text \<open>The values the headers give to the rest of the function.\<close>

record pe_headers =
  optional_header_offset :: u64
  section_count :: u16
  optional_header_size :: u16
  optional_magic_value :: u16
  import_table_rva :: u32
  delay_table_rva :: u32
  delay_table_size :: u32

definition DataDirectoryOffset :: "u16 \<Rightarrow> u64 res" where
  "DataDirectoryOffset magic =
     (if magic = kImageNtOptionalHdr32Magic then Inr 96
      else if magic = kImageNtOptionalHdr64Magic then Inr 112
      else ThrowMalformed pe_format (''PE header: optional header format '' @ to_string magic @ '' is not supported''))"

definition ReadHeaders :: "ByteOrder \<Rightarrow> ByteSpan \<Rightarrow> pe_headers res" where
  "ReadHeaders host file =
     bindE (Sub file 0 sizeof_ImageDosHeader ''DOS header'') (\<lambda>dos.
     bindE (Read host dos 0 Little ''DOS header signature'') (\<lambda>sig.
     if (sig :: u16) \<noteq> kImageDosSignature then ThrowMalformed pe_format ''DOS header signature is not MZ'' else
     bindE (Read host dos offsetof_e_lfanew Little ''e_lfanew'') (\<lambda>e_lfanew.
     if sint (e_lfanew :: u32) < 0 then
       ThrowMalformed pe_format (''e_lfanew '' @ to_string_signed e_lfanew @ '' is negative'') else
     let pe_header_offset = ucast e_lfanew :: u64;
         optional_off = pe_header_offset + 4 + sizeof_ImageFileHeader in
     bindE (Sub file pe_header_offset (4 + sizeof_ImageFileHeader + 2) ''PE header'') (\<lambda>pe_header.
     bindE (Read host pe_header 0 Little ''PE signature'') (\<lambda>nt.
     if (nt :: u32) \<noteq> kImageNtSignature then ThrowMalformed pe_format ''PE header signature is invalid'' else
     bindE (ReadStruct pe_header 4 sizeof_ImageFileHeader ''PE file header'') (\<lambda>raw_coff.
     let coff_header = load_ImageFileHeader host raw_coff;
         sections = FromLittleEndian host (NumberOfSections coff_header);
         optional_size = FromLittleEndian host (SizeOfOptionalHeader coff_header) in
     bindE (Read host pe_header (4 + sizeof_ImageFileHeader) Little ''optional header magic'') (\<lambda>raw_magic.
     let magic = FromLittleEndian host (raw_magic :: u16) in
     bindE (DataDirectoryOffset magic) (\<lambda>data_directory_offset.
     if (ucast optional_size :: u64) < data_directory_offset + 2 * sizeof_ImageDataDirectory then
       ThrowMalformed pe_format (''PE header: optional header size '' @ to_string optional_size @
         '' is too small for the import directory'') else
     bindE (ReadStruct file (optional_off + data_directory_offset + sizeof_ImageDataDirectory)
              sizeof_ImageDataDirectory ''import directory'') (\<lambda>raw_import.
     bindE (Read host file (optional_off + data_directory_offset - 4) Little ''NumberOfRvaAndSizes'') (\<lambda>raw_count.
     let directory_count = FromLittleEndian host (raw_count :: u32) in
     bindE (if directory_count > kDelayImportDirectory \<and>
               (ucast optional_size :: u64) \<ge>
                 data_directory_offset + (ucast kDelayImportDirectory + 1) * sizeof_ImageDataDirectory
            then bindE (ReadStruct file
                     (optional_off + data_directory_offset + ucast kDelayImportDirectory * sizeof_ImageDataDirectory)
                     sizeof_ImageDataDirectory ''delay-load directory'') (\<lambda>raw_delay.
                 let delay_directory = load_ImageDataDirectory host raw_delay in
                 Inr (FromLittleEndian host (dd_VirtualAddress delay_directory),
                      FromLittleEndian host (dd_Size delay_directory)))
            else Inr (0, 0)) (\<lambda>(delay_rva, delay_size).
     Inr \<lparr>optional_header_offset = optional_off, section_count = sections, optional_header_size = optional_size,
          optional_magic_value = magic,
          import_table_rva = FromLittleEndian host (dd_VirtualAddress (load_ImageDataDirectory host raw_import)),
          delay_table_rva = delay_rva, delay_table_size = delay_size\<rparr>)))))))))))"

definition ReadSections :: "ByteOrder \<Rightarrow> ByteSpan \<Rightarrow> pe_headers \<Rightarrow> ImageSectionHeader list res" where
  "ReadSections host file h =
     bindE (Sub file (optional_header_offset h + ucast (optional_header_size h))
              (ucast (section_count h) * sizeof_ImageSectionHeader) ''section table'') (\<lambda>section_table.
     mapE (\<lambda>index. bindE (ReadStruct section_table (word_of_nat index * sizeof_ImageSectionHeader)
                            sizeof_ImageSectionHeader ''section table entry'') (\<lambda>raw.
                    Inr (load_ImageSectionHeader host raw)))
       [0..<unat (section_count h)])"

text \<open>
  The two loops over descriptors. Each reads a descriptor inside the file, so the next
  offset does not wrap and the loop ends.
\<close>

lemma next_offset_less:
  assumes "RangeFits offset n sz" and "0 < unat n"
  shows "unat sz - unat (offset + n) < unat sz - unat offset"
proof -
  have le: "unat offset + unat n \<le> unat sz" using assms(1) by (auto simp: RangeFits_def word_le_nat_alt unat_sub_if')
  then have "unat (offset + n) = unat offset + unat n"
    using unat_u64_less [of sz] by (intro unat_add_nowrap) simp
  then show ?thesis using le assms(2) by simp
qed

lemma ReadStruct_fits: "ReadStruct sp offset n what = Inr raw \<Longrightarrow> RangeFits offset n (span_size sp)"
  by (auto simp: ReadStruct_def ThrowMalformed_def split: if_splits)

lemma Sub_fits: "Sub sp offset n what = Inr sub \<Longrightarrow> RangeFits offset n (span_size sp)"
  by (auto simp: Sub_def ThrowMalformed_def split: if_splits)

function ReadImports :: "ByteOrder \<Rightarrow> ByteSpan \<Rightarrow> u64 \<Rightarrow> u32 list \<Rightarrow> u32 list res" where
  "ReadImports host file descriptor_offset name_rvas =
     bindE (ReadStruct file descriptor_offset sizeof_ImageImportDescriptor ''import descriptor'') (\<lambda>raw.
     let descriptor = load_ImageImportDescriptor host raw;
         original_first_thunk = FromLittleEndian host (OriginalFirstThunk descriptor);
         time_date_stamp = FromLittleEndian host (id_TimeDateStamp descriptor);
         forwarder_chain = FromLittleEndian host (ForwarderChain descriptor);
         name_rva = FromLittleEndian host (id_Name descriptor);
         first_thunk = FromLittleEndian host (FirstThunk descriptor) in
     if original_first_thunk = 0 \<and> time_date_stamp = 0 \<and> forwarder_chain = 0 \<and> name_rva = 0 \<and> first_thunk = 0
     then Inr name_rvas
     else ReadImports host file (descriptor_offset + sizeof_ImageImportDescriptor) (name_rvas @ [name_rva]))"
  by pat_completeness auto
termination
  by (relation "measure (\<lambda>(host, file, off, names). unat (span_size file) - unat off)")
    (use next_offset_less ReadStruct_fits in \<open>simp_all add: sizeof_ImageImportDescriptor_def\<close>)

declare ReadImports.simps [simp del]

function ReadDelays ::
  "ByteOrder \<Rightarrow> ByteSpan \<Rightarrow> u64 \<Rightarrow> u64 \<Rightarrow> u32 \<Rightarrow> u64 \<Rightarrow> u32 list \<Rightarrow> u32 list res" where
  "ReadDelays host file image_base delay_start delay_size delay_offset delay_name_rvas =
     (if delay_size = 0 \<or> delay_offset - delay_start < ucast delay_size then
        bindE (Sub file delay_offset kDelayDescriptorSize ''delay-load descriptor'') (\<lambda>descriptor.
        bindE (Data descriptor) (\<lambda>data.
        if list_all (\<lambda>b. b = 0) data then Inr delay_name_rvas
        else
        bindE (Read host descriptor 0 Little ''delay-load attributes'') (\<lambda>attributes.
        bindE (Read host descriptor 4 Little ''delay-load library name'') (\<lambda>name_field.
        bindE (if (attributes :: u32) AND kDelayAttributeRvaForm = 0 then
                 let base32 = ucast image_base :: u32 in
                 if name_field < base32 then
                   ThrowMalformed pe_format (''delay-load library name address '' @ to_string name_field @
                     '' is below the image base '' @ to_string base32)
                 else Inr (name_field - base32)
               else Inr name_field) (\<lambda>name_rva.
        ReadDelays host file image_base delay_start delay_size (delay_offset + kDelayDescriptorSize)
          (delay_name_rvas @ [name_rva]))))))
      else Inr delay_name_rvas)"
  by pat_completeness auto
termination
  by (relation "measure (\<lambda>(host, file, base, start, n, off, names). unat (span_size file) - unat off)")
    (use next_offset_less Sub_fits in \<open>simp_all add: kDelayDescriptorSize_def\<close>)

declare ReadDelays.simps [simp del]

definition ReadDelayTable ::
  "ByteOrder \<Rightarrow> ByteSpan \<Rightarrow> pe_headers \<Rightarrow> ImageSectionHeader list \<Rightarrow> u32 \<Rightarrow> u32 list res" where
  "ReadDelayTable host file h sections size_of_headers =
     (if delay_table_rva h \<noteq> 0 then
        bindE (if optional_magic_value h = kImageNtOptionalHdr32Magic
               then bindE (Read host file (optional_header_offset h + 28) Little ''ImageBase'') (\<lambda>b. Inr (ucast (b :: u32)))
               else Read host file (optional_header_offset h + 24) Little ''ImageBase'') (\<lambda>image_base.
        bindE (RvaToOffset host (delay_table_rva h) sections size_of_headers (span_size file)
                 ''delay-load descriptor table'') (\<lambda>delay_start.
        ReadDelays host file image_base delay_start (delay_table_size h) delay_start []))
      else Inr [])"

text \<open>The loops over the names; the state is the list so far and the bytes in it.\<close>

definition ReadDllName ::
  "ByteOrder \<Rightarrow> ByteSpan \<Rightarrow> ImageSectionHeader list \<Rightarrow> u32 \<Rightarrow> string list \<times> u64 \<Rightarrow> u32 \<Rightarrow> (string list \<times> u64) res" where
  "ReadDllName host file sections size_of_headers st name_rva =
     bindE (RvaToOffset host name_rva sections size_of_headers (span_size file) ''DLL name'') (\<lambda>name_offset.
     bindE (CString file name_offset pe_kMaxNameLength ''DLL name'') (\<lambda>name.
     let total_name_bytes = snd st + word_of_nat (length name) in
     if total_name_bytes > span_size file then
       ThrowMalformed pe_format (''DLL names total '' @ to_string total_name_bytes @
         '' bytes, more than the file ('' @ to_string (span_size file) @ '' bytes)'')
     else Inr (fst st @ [name], total_name_bytes)))"

definition ReadDelayName ::
  "ByteOrder \<Rightarrow> ByteSpan \<Rightarrow> ImageSectionHeader list \<Rightarrow> u32 \<Rightarrow>
   (string list \<times> u64) \<times> string set \<Rightarrow> u32 \<Rightarrow> ((string list \<times> u64) \<times> string set) res" where
  "ReadDelayName host file sections size_of_headers st name_rva =
     bindE (RvaToOffset host name_rva sections size_of_headers (span_size file) ''delay-load library name'') (\<lambda>name_offset.
     bindE (CString file name_offset pe_kMaxNameLength ''delay-load library name'') (\<lambda>name.
     let total_name_bytes = snd (fst st) + word_of_nat (length name) in
     if total_name_bytes > span_size file then
       ThrowMalformed pe_format (''delay-load library names total '' @ to_string total_name_bytes @
         '' bytes, more than the file ('' @ to_string (span_size file) @ '' bytes)'')
     else
       let seen = snd st; key = LowerAscii name in
       Inr (if key \<in> seen then ((fst (fst st), total_name_bytes), seen)
            else ((fst (fst st) @ [name], total_name_bytes), insert key seen))))"

definition PeParser_ListDependenciesFromBytes :: "ByteOrder \<Rightarrow> bytes \<Rightarrow> string list res" where
  "PeParser_ListDependenciesFromBytes host bs =
     (let file = ByteSpan_of_bytes bs pe_format ''the file'' in
      bindE (ReadHeaders host file) (\<lambda>h.
      if import_table_rva h = 0 \<and> delay_table_rva h = 0 then Inr [] else
      bindE (Read host file (optional_header_offset h + 60) Little ''SizeOfHeaders'') (\<lambda>raw_size.
      let size_of_headers = FromLittleEndian host (raw_size :: u32) in
      bindE (ReadSections host file h) (\<lambda>sections.
      bindE (if import_table_rva h \<noteq> 0
             then bindE (RvaToOffset host (import_table_rva h) sections size_of_headers (span_size file)
                           ''import descriptor table'') (\<lambda>descriptor_offset.
                  ReadImports host file descriptor_offset [])
             else Inr []) (\<lambda>name_rvas.
      bindE (ReadDelayTable host file h sections size_of_headers) (\<lambda>delay_name_rvas.
      bindE (foldE (ReadDllName host file sections size_of_headers) ([], 0) name_rvas) (\<lambda>st.
      bindE (foldE (ReadDelayName host file sections size_of_headers)
               (st, set (map LowerAscii (fst st))) delay_name_rvas) (\<lambda>st'.
      Inr (fst (fst st'))))))))))"

section \<open>Every failure is the documented rejection\<close>

lemma rejects_RvaInSections [rejects_intros]: "rejects pe_format (RvaInSections host rva sections file_size what)"
  by (induction sections) (auto simp: Let_def RvaOutside_def intro!: rejects_intros)

lemma rejects_RvaToOffset [rejects_intros]: "rejects pe_format (RvaToOffset host rva sections n file_size what)"
  unfolding RvaToOffset_def by (intro rejects_intros)

lemma rejects_DataDirectoryOffset [rejects_intros]: "rejects pe_format (DataDirectoryOffset magic)"
  unfolding DataDirectoryOffset_def by (intro rejects_intros)

lemma rejects_ReadHeaders [rejects_intros]: "good pe_format file \<Longrightarrow> rejects pe_format (ReadHeaders host file)"
  unfolding ReadHeaders_def Let_def
  by (intro rejects_intros) (auto intro: good_Sub)

lemma rejects_ReadSections [rejects_intros]: "good pe_format file \<Longrightarrow> rejects pe_format (ReadSections host file h)"
  unfolding ReadSections_def by (intro rejects_intros) (auto intro: good_Sub)

lemma rejects_ReadImports [rejects_intros]: "good pe_format file \<Longrightarrow> rejects pe_format (ReadImports host file off names)"
proof (induction host "file" off names rule: ReadImports.induct)
  case (1 host f off names)
  show ?case
    unfolding ReadImports.simps [of host f off names] Let_def
    by (intro rejects_intros "1.prems" "1.IH" refl) simp_all
qed

lemma rejects_ReadDelays [rejects_intros]:
  "good pe_format file \<Longrightarrow> rejects pe_format (ReadDelays host file base start n off names)"
proof (induction host "file" base start n off names rule: ReadDelays.induct)
  case (1 host f base start n off names)
  show ?case
    unfolding ReadDelays.simps [of host f base start n off names] Let_def
    by (intro rejects_intros "1.prems"; (rule "1.IH" [OF _ _ _ _ _ _ _ "1.prems"])?)
      (auto intro: good_Sub "1.prems" simp: Let_def)
qed

lemma rejects_ReadDelayTable [rejects_intros]:
  "good pe_format file \<Longrightarrow> rejects pe_format (ReadDelayTable host file h sections n)"
  unfolding ReadDelayTable_def by (intro rejects_intros) simp_all

lemma rejects_ReadDllName [rejects_intros]:
  "good pe_format file \<Longrightarrow> rejects pe_format (ReadDllName host file sections n st rva)"
  unfolding ReadDllName_def Let_def by (intro rejects_intros)

lemma rejects_ReadDelayName [rejects_intros]:
  "good pe_format file \<Longrightarrow> rejects pe_format (ReadDelayName host file sections n st rva)"
  unfolding ReadDelayName_def Let_def by (intro rejects_intros)

lemma rejects_PeParser:
  assumes "length bs < 2 ^ 64"
  shows "rejects pe_format (PeParser_ListDependenciesFromBytes host bs)"
  unfolding PeParser_ListDependenciesFromBytes_def Let_def
  by (intro rejects_intros good_bytes assms) simp

section \<open>Where an address maps\<close>

text \<open>A section that holds an address, and the position in the file that the section gives it.\<close>

definition in_section :: "ByteOrder \<Rightarrow> u32 \<Rightarrow> ImageSectionHeader \<Rightarrow> bool" where
  "in_section host rva s \<longleftrightarrow>
     (let va = unat (FromLittleEndian host (sh_VirtualAddress s))
      in va \<le> unat rva \<and> unat rva < va + max (unat (FromLittleEndian host (VirtualSize s)))
           (unat (FromLittleEndian host (SizeOfRawData s))))"

definition section_offset :: "ByteOrder \<Rightarrow> u32 \<Rightarrow> ImageSectionHeader \<Rightarrow> nat" where
  "section_offset host rva s =
     unat (FromLittleEndian host (PointerToRawData s)) + (unat rva - unat (FromLittleEndian host (sh_VirtualAddress s)))"

lemma RvaInSections_eq:
  "RvaInSections host rva sections file_size what =
     (case find (in_section host rva) sections of
        Some s \<Rightarrow> if section_offset host rva s < unat file_size then Inr (word_of_nat (section_offset host rva s))
                 else RvaOutside rva file_size what
      | None \<Rightarrow> RvaOutside rva file_size what)"
proof (induction sections)
  case (Cons s sections)
  define va vs rs rp where "va = FromLittleEndian host (sh_VirtualAddress s)"
    and "vs = FromLittleEndian host (VirtualSize s)" and "rs = FromLittleEndian host (SizeOfRawData s)"
    and "rp = FromLittleEndian host (PointerToRawData s)"
  note less = unat_u32_less [of va] unat_u32_less [of vs] unat_u32_less [of rs] unat_u32_less [of rp] unat_u32_less [of rva]
  have mx: "unat (max (ucast vs) (ucast rs) :: u64) = max (unat vs) (unat rs)"
    by (simp add: max_def word_le_nat_alt unat_ucast_u32)
  have "unat (ucast va + max (ucast vs) (ucast rs) :: u64) = unat va + max (unat vs) (unat rs)"
    using less by (subst unat_add_nowrap) (simp_all add: mx unat_ucast_u32)
  then have inside: "(ucast va \<le> (ucast rva :: u64) \<and> (ucast rva :: u64) < ucast va + max (ucast vs) (ucast rs)) = in_section host rva s"
    by (simp add: word_le_nat_alt word_less_nat_alt unat_ucast_u32 in_section_def Let_def va_def vs_def rs_def)
  have off: "unat (ucast rp + (ucast rva - ucast va) :: u64) = section_offset host rva s" if "in_section host rva s"
  proof -
    have "unat (ucast rva - ucast va :: u64) = unat rva - unat va"
      using that by (subst unat_diff_nowrap) (simp_all add: word_le_nat_alt unat_ucast_u32 in_section_def Let_def va_def)
    then show ?thesis
      using less by (subst unat_add_nowrap) (simp_all add: unat_ucast_u32 section_offset_def va_def rp_def)
  qed
  have unat_back: "word_of_nat (unat w) = w" for w :: u64
    by simp
  have off': "word_of_nat (section_offset host rva s) = (ucast rp + (ucast rva - ucast va) :: u64)"
    if "in_section host rva s"
    by (simp only: off [OF that, symmetric] unat_back)
  show ?case
    using Cons inside off off'
    by (auto simp: Let_def va_def [symmetric] vs_def [symmetric] rs_def [symmetric] rp_def [symmetric]
        word_le_nat_alt not_le)
qed simp

lemma RvaToOffset_Inr:
  assumes "RvaToOffset host rva sections size_of_headers file_size what = Inr offset"
  shows "unat offset < unat file_size \<and>
    (rva < size_of_headers \<and> unat offset = unat rva \<or>
     (\<exists>s. find (in_section host rva) sections = Some s \<and> unat offset = section_offset host rva s))"
proof (cases "rva < size_of_headers \<and> (ucast rva :: u64) < file_size")
  case True
  then show ?thesis using assms by (auto simp: RvaToOffset_def word_less_nat_alt unat_ucast_u32)
next
  case False
  then have res: "RvaInSections host rva sections file_size what = Inr offset"
    using assms by (auto simp: RvaToOffset_def split: if_splits)
  then obtain s where s: "find (in_section host rva) sections = Some s" "section_offset host rva s < unat file_size"
    "offset = word_of_nat (section_offset host rva s)"
    by (auto simp: RvaInSections_eq RvaOutside_def ThrowMalformed_def split: option.splits if_splits)
  then have "unat offset = section_offset host rva s"
    using unat_u64_less [of file_size] by (simp add: unat_of_nat)
  with s show ?thesis by auto
qed

section \<open>The names that are listed\<close>

lemma ReadDllName_step:
  assumes "ReadDllName host file sections n st rva = Inr st'"
  obtains off name where "RvaToOffset host rva sections n (span_size file) ''DLL name'' = Inr off"
    and "CString file off pe_kMaxNameLength ''DLL name'' = Inr name"
    and "st' = (fst st @ [name], snd st + word_of_nat (length name))"
    and "snd st' \<le> span_size file"
  using assms by (auto simp: ReadDllName_def Let_def ThrowMalformed_def intro: that split: if_splits)

lemma ReadDelayName_step:
  assumes "ReadDelayName host file sections n st rva = Inr st'"
  obtains off name where "RvaToOffset host rva sections n (span_size file) ''delay-load library name'' = Inr off"
    and "CString file off pe_kMaxNameLength ''delay-load library name'' = Inr name"
    and "snd (fst st') = snd (fst st) + word_of_nat (length name)" and "snd (fst st') \<le> span_size file"
    and "fst (fst st') = fst (fst st) @ (if LowerAscii name \<in> snd st then [] else [name])"
    and "snd st' = insert (LowerAscii name) (snd st)"
proof -
  obtain off name where "RvaToOffset host rva sections n (span_size file) ''delay-load library name'' = Inr off"
    and "CString file off pe_kMaxNameLength ''delay-load library name'' = Inr name"
    and "\<not> snd (fst st) + word_of_nat (length name) > span_size file"
    and "st' = (if LowerAscii name \<in> snd st then ((fst (fst st), snd (fst st) + word_of_nat (length name)), snd st)
      else ((fst (fst st) @ [name], snd (fst st) + word_of_nat (length name)), insert (LowerAscii name) (snd st)))"
    using assms by (auto simp: ReadDelayName_def Let_def ThrowMalformed_def split: if_splits)
  then show ?thesis by (intro that [of off name]) (auto simp: insert_absorb)
qed

text \<open>The bytes counted are at least those listed, so the list is no longer than the file.\<close>

definition counted :: "bytes \<Rightarrow> string list \<times> u64 \<Rightarrow> bool" where
  "counted bs st \<longleftrightarrow> (\<forall>s \<in> set (fst st). c_string_of bs s \<and> length s < 4096) \<and>
     sum_list (map length (fst st)) \<le> unat (snd st) \<and> unat (snd st) \<le> length bs"

lemma counted_step:
  assumes f: "span_ok file bs" and small: "length bs < 2 ^ 63" and st: "counted bs st"
    and name: "CString file off pe_kMaxNameLength what = Inr name"
    and st': "snd st' = snd st + word_of_nat (length name)" "snd st' \<le> span_size file"
      "fst st' = fst st \<or> fst st' = fst st @ [name]"
  shows "counted bs st'"
proof -
  have str: "c_string_of bs name" "length name < 4096"
    using CString_c_string_of [OF f name] by (simp_all add: pe_kMaxNameLength_def)
  have "unat (snd st') = unat (snd st) + length name"
    unfolding st'(1) using st str(2) small
    by (subst unat_add_nowrap) (simp_all add: unat_of_nat counted_def)
  then show ?thesis
    using st st' str span_ok_length [OF f] by (auto simp: counted_def word_le_nat_alt)
qed

lemma counted_imports:
  assumes "span_ok file bs" and "length bs < 2 ^ 63"
    and "foldE (ReadDllName host file sections n) ([], 0) rvas = Inr st"
  shows "counted bs st"
  using assms(3)
proof (rule foldE_invariant)
  show "counted bs ([], 0)" by (simp add: counted_def)
  fix st rva st' assume "counted bs st" and "ReadDllName host file sections n st rva = Inr st'"
  then show "counted bs st'"
    by (elim ReadDllName_step) (auto intro: counted_step [OF assms(1,2)])
qed

lemma counted_delays:
  assumes "span_ok file bs" and "length bs < 2 ^ 63" and "counted bs (fst st)"
    and "foldE (ReadDelayName host file sections n) st rvas = Inr st'"
  shows "counted bs (fst st')"
  using assms(4,3)
proof (rule foldE_invariant)
  fix st rva st' assume st: "counted bs (fst st)" and step: "ReadDelayName host file sections n st rva = Inr st'"
  obtain off name where name: "CString file off pe_kMaxNameLength ''delay-load library name'' = Inr name"
    and st': "snd (fst st') = snd (fst st) + word_of_nat (length name)" "snd (fst st') \<le> span_size file"
      "fst (fst st') = fst (fst st) @ (if LowerAscii name \<in> snd st then [] else [name])"
    using ReadDelayName_step [OF step] by metis
  show "counted bs (fst st')"
    by (rule counted_step [OF assms(1,2) st name st'(1,2)]) (use st'(3) in simp)
qed








section \<open>Properties\<close>

lemma PeParser_Inr:
  assumes "PeParser_ListDependenciesFromBytes host bs = Inr names" and "names \<noteq> []"
  obtains h sections n rvas delays st seen total
  where "ReadHeaders host (ByteSpan_of_bytes bs pe_format ''the file'') = Inr h"
    and "ReadSections host (ByteSpan_of_bytes bs pe_format ''the file'') h = Inr sections"
    and "if import_table_rva h \<noteq> 0
      then \<exists>off. RvaToOffset host (import_table_rva h) sections n (span_size (ByteSpan_of_bytes bs pe_format ''the file''))
             ''import descriptor table'' = Inr off \<and>
           ReadImports host (ByteSpan_of_bytes bs pe_format ''the file'') off [] = Inr rvas
      else rvas = []"
    and "ReadDelayTable host (ByteSpan_of_bytes bs pe_format ''the file'') h sections n = Inr delays"
    and "foldE (ReadDllName host (ByteSpan_of_bytes bs pe_format ''the file'') sections n) ([], 0) rvas = Inr st"
    and "foldE (ReadDelayName host (ByteSpan_of_bytes bs pe_format ''the file'') sections n)
      (st, set (map LowerAscii (fst st))) delays = Inr ((names, total), seen)"
proof -
  define f where "f = ByteSpan_of_bytes bs pe_format ''the file''"
  obtain h sections raw rvas delays st st' where
    "ReadHeaders host f = Inr h" "ReadSections host f h = Inr sections"
    and imp: "(if import_table_rva h \<noteq> 0 then bindE (RvaToOffset host (import_table_rva h) sections
        (FromLittleEndian host (raw :: u32)) (span_size f) ''import descriptor table'') (\<lambda>off. ReadImports host f off [])
      else Inr []) = Inr rvas"
    and "ReadDelayTable host f h sections (FromLittleEndian host raw) = Inr delays"
    and "foldE (ReadDllName host f sections (FromLittleEndian host raw)) ([], 0) rvas = Inr st"
    and "foldE (ReadDelayName host f sections (FromLittleEndian host raw)) (st, set (map LowerAscii (fst st))) delays = Inr st'"
    and "names = fst (fst st')"
    using assms unfolding PeParser_ListDependenciesFromBytes_def Let_def f_def [symmetric]
    by (auto split: if_splits)
  then show ?thesis
    by (intro that [unfolded f_def [symmetric], of h sections "FromLittleEndian host raw" rvas delays st "snd (fst st')" "snd st'"])
      (auto split: if_splits)
qed

text \<open>A PE32 file of 244 bytes with one import descriptor, for \<open>a.d\<close>.\<close>

definition tiny_pe :: bytes where
  "tiny_pe =
     [0x4D, 0x5A] @ replicate 58 0 @ [64, 0, 0, 0] @
     [0x50, 0x45, 0, 0] @ [0x4C, 1, 0, 0] @ replicate 12 0 @ [112, 0, 2, 0] @
     [0x0B, 1] @ replicate 58 0 @ [244, 0, 0, 0] @ replicate 28 0 @ [2, 0, 0, 0] @ replicate 8 0 @ [200, 0, 0, 0, 40, 0, 0, 0] @
     replicate 12 0 @ [240, 0, 0, 0] @ replicate 4 0 @ replicate 20 0 @
     [0x61, 0x2E, 0x64, 0]"

lemma length_tiny_pe: "length tiny_pe = 244"
  by (simp add: tiny_pe_def)

lemma span_tiny_pe:
  "ByteSpan_of_bytes tiny_pe fmt sc = \<lparr>backing = Memory tiny_pe, span_size = 244, span_format = fmt, span_scope = sc\<rparr>"
  by (simp add: ByteSpan_of_bytes_def length_tiny_pe)

lemma tiny_pe_listed: "PeParser_ListDependenciesFromBytes Little tiny_pe = Inr [''a.d'']"
  unfolding PeParser_ListDependenciesFromBytes_def span_tiny_pe by code_simp

text \<open>
  C7: whatever the bytes, the parser returns a list or the documented rejection, a
  \<open>std::runtime_error\<close> that starts with \<open>PE: \<close>; no read leaves the file. (The loops end: the
  definition is total.)
\<close>

theorem pe_returns_or_rejects:
  assumes "length bs < 2 ^ 64"
  shows "(\<exists>names. PeParser_ListDependenciesFromBytes host bs = Inr names) \<or>
    (\<exists>detail. PeParser_ListDependenciesFromBytes host bs = Inl (runtime_error (pe_format @ '': '' @ detail)))"
  using rejects_PeParser [OF assms, of host]
  by (cases "PeParser_ListDependenciesFromBytes host bs") (auto simp: rejects_def)

theorem pe_returns_or_rejects_witness:
  "\<exists>detail. PeParser_ListDependenciesFromBytes Little [0x4D, 0x5A] = Inl (runtime_error (pe_format @ '': '' @ detail))"
proof -
  have "PeParser_ListDependenciesFromBytes Little [0x4D, 0x5A] \<noteq> Inr names" for names
    by (auto simp: PeParser_ListDependenciesFromBytes_def Let_def ReadHeaders_def Sub_def RangeFits_def
        ByteSpan_of_bytes_def sizeof_ImageDosHeader_def ThrowMalformed_def)
  then show ?thesis using pe_returns_or_rejects [of "[0x4D, 0x5A]" Little] by auto
qed

text \<open>
  every name listed is a NUL-terminated string of the file shorter than 4096 bytes, and
  the names together are no longer than the file.
\<close>

theorem pe_names_bounded:
  assumes "length bs < 2 ^ 63" and "PeParser_ListDependenciesFromBytes host bs = Inr names"
  shows "(\<forall>s \<in> set names. c_string_of bs s \<and> length s < 4096) \<and> sum_list (map length names) \<le> length bs"
proof (cases "names = []")
  case False
  have f: "span_ok (ByteSpan_of_bytes bs pe_format ''the file'') bs" using assms(1) by (intro span_ok_bytes) simp
  obtain sections n rvas delays st seen total
    where dlls: "foldE (ReadDllName host (ByteSpan_of_bytes bs pe_format ''the file'') sections n) ([], 0) rvas = Inr st"
    and dels: "foldE (ReadDelayName host (ByteSpan_of_bytes bs pe_format ''the file'') sections n)
      (st, set (map LowerAscii (fst st))) delays = Inr ((names, total), seen)"
    using PeParser_Inr [OF assms(2) False] by metis
  have "counted bs (names, total)"
    using counted_delays [OF f assms(1) _ dels] counted_imports [OF f assms(1) dlls] by simp
  then show ?thesis by (auto simp: counted_def)
qed simp

theorem pe_names_bounded_witness: "c_string_of tiny_pe ''a.d''"
  using pe_names_bounded [OF _ tiny_pe_listed] by (simp add: length_tiny_pe)



text \<open>
  an address that is mapped maps inside the file: either it lies in the headers and is its
  own position, or the first section that holds it (over the larger of its virtual and raw
  sizes, with no wrap at the top of the 32-bit range) gives the position.
\<close>

theorem pe_rva_maps_inside:
  assumes "RvaToOffset host rva sections size_of_headers file_size what = Inr offset"
  shows "unat offset < unat file_size \<and>
    (rva < size_of_headers \<and> unat offset = unat rva \<or>
     (\<exists>s. find (in_section host rva) sections = Some s \<and> unat offset = section_offset host rva s))"
  using assms by (rule RvaToOffset_Inr)

definition top_section :: ImageSectionHeader where
  "top_section =
     \<lparr>sh_Name = replicate 8 0, VirtualSize = 0x1000, sh_VirtualAddress = 0xFFFFF000, SizeOfRawData = 0x200,
      PointerToRawData = 0x400, PointerToRelocations = 0, PointerToLinenumbers = 0, NumberOfRelocations = 0,
      NumberOfLinenumbers = 0, sh_Characteristics = 0\<rparr>"

theorem pe_rva_maps_inside_witness:
  "\<exists>offset. RvaToOffset Little 0xFFFFF010 [top_section] 0x400 0x1000 ''x'' = Inr offset \<and> unat offset < 0x1000 \<and>
     find (in_section Little 0xFFFFF010) [top_section] = Some top_section"
proof -
  have inside: "in_section Little 0xFFFFF010 top_section" and "section_offset Little 0xFFFFF010 top_section = 0x410"
    by (simp_all add: in_section_def section_offset_def top_section_def FromLittleEndian_def ByteSwapIfNeeded_def)
  then obtain offset where "RvaToOffset Little 0xFFFFF010 [top_section] 0x400 0x1000 ''x'' = Inr offset"
    by (simp add: RvaToOffset_def RvaInSections_eq)
  from pe_rva_maps_inside [OF this] this inside show ?thesis by auto
qed

text \<open>
  On a big-endian machine the parser refuses a file that a little-endian machine lists:
  \<open>FromLittleEndian\<close> is applied to the optional header's magic, which \<open>Read\<close> has already converted
  from little-endian, so the bytes are swapped twice.
\<close>

theorem pe_magic_swapped_twice:
  "PeParser_ListDependenciesFromBytes Little tiny_pe = Inr [''a.d''] \<and>
   PeParser_ListDependenciesFromBytes Big tiny_pe =
     Inl (runtime_error ''PE: PE header: optional header format 2817 is not supported'')"
proof
  show "PeParser_ListDependenciesFromBytes Little tiny_pe = Inr [''a.d'']" by (rule tiny_pe_listed)
  show "PeParser_ListDependenciesFromBytes Big tiny_pe =
      Inl (runtime_error ''PE: PE header: optional header format 2817 is not supported'')"
    unfolding PeParser_ListDependenciesFromBytes_def span_tiny_pe by code_simp
qed

end
