(* ===== verification/Pe_Signer.thy ===== *)
theory Pe_Signer
  imports Pe_Parser
begin

text \<open>
  \<open>src/PeSigner.cpp\<close> and \<open>src/internal/PeCertificate.hpp\<close>: the Authenticode signature of a PE
  file. Each public operation reads the whole file, works on its bytes and, when it changes
  something, writes the bytes back; the definitions ending in \<open>Bytes\<close> are those operations
  between the read and the write.
  The hash function (the vendored \<open>picosha2\<close>) is the argument \<open>sha\<close>; feeding it in pieces is
  feeding it the concatenation.

  The lemmas show that an embedded signature is extracted again, that embedding does not change
  the digest that was signed, that stripping undoes embedding, and that the checksum is the
  16-bit one's-complement sum of the file plus its size.
\<close>

section \<open>Layout\<close>

definition kUint32Max :: u64 where "kUint32Max = 0xFFFFFFFF"
definition kPeMaxSignatureSize :: u64 where "kPeMaxSignatureSize = 0xFFFFFFFF - 8"

definition CheckPeSignatureSize :: "u64 \<Rightarrow> unit res" where
  "CheckPeSignatureSize signature_size =
     (if signature_size > kPeMaxSignatureSize then
        ThrowMalformed pe_format (''signature size '' @ to_string signature_size @
          '' does not fit in a WIN_CERTIFICATE (limit '' @ to_string kPeMaxSignatureSize @ '')'')
      else Inr ())"

record PeLayout =
  pe_header_offset :: u64
  lay_optional_header_offset :: u64
  checksum_offset :: u64
  dd_security_offset :: u64
  is_pe32_plus :: bool

definition ParsePeLayout :: "ByteOrder \<Rightarrow> ByteSpan \<Rightarrow> PeLayout res" where
  "ParsePeLayout host file =
     bindE (Sub file 0 sizeof_ImageDosHeader ''DOS header'') (\<lambda>dos.
     bindE (Read host dos 0 Little ''DOS header signature'') (\<lambda>sig.
     if (sig :: u16) \<noteq> kImageDosSignature then ThrowMalformed pe_format ''DOS header signature is not MZ'' else
     bindE (Read host dos 60 Little ''e_lfanew'') (\<lambda>e_lfanew.
     if sint (e_lfanew :: u32) < 0 then
       ThrowMalformed pe_format (''e_lfanew '' @ to_string_signed e_lfanew @ '' is negative'') else
     let pe_off = ucast e_lfanew :: u64 in
     bindE (Sub file pe_off (4 + 20 + 2) ''PE header'') (\<lambda>pe_header.
     bindE (Read host pe_header 0 Little ''PE signature'') (\<lambda>nt.
     if (nt :: u32) \<noteq> kImageNtSignature then ThrowMalformed pe_format ''PE header signature is invalid'' else
     let opt_off = pe_off + 4 + 20 in
     bindE (Read host pe_header 24 Little ''optional header magic'') (\<lambda>optional_magic.
     if (optional_magic :: u16) \<noteq> kImageNtOptionalHdr32Magic \<and> optional_magic \<noteq> kImageNtOptionalHdr64Magic then
       ThrowMalformed pe_format (''PE header: optional header format '' @ to_string optional_magic @ '' is not supported'') else
     let plus = (optional_magic = kImageNtOptionalHdr64Magic);
         layout = \<lparr>pe_header_offset = pe_off, lay_optional_header_offset = opt_off, checksum_offset = opt_off + 64,
                   dd_security_offset = opt_off + (if plus then 144 else 128), is_pe32_plus = plus\<rparr>;
         num_rva_offset = opt_off + (if plus then 108 else 92) in
     bindE (Read host file num_rva_offset Little ''PE header NumberOfRvaAndSizes'') (\<lambda>num_rva.
     if (num_rva :: u32) < 5 then
       ThrowMalformed pe_format (''PE header has '' @ to_string num_rva @ '' data directory entries, fewer than 5'') else
     bindE (Sub file (checksum_offset layout) 4 ''PE header CheckSum field'') (\<lambda>_.
     bindE (Sub file (dd_security_offset layout) 8 ''PE header certificate directory entry'') (\<lambda>_.
     Inr layout)))))))))"

text \<open>The lowest position that stripping may cut back to.\<close>

fun FloorSections :: "ByteOrder \<Rightarrow> ByteSpan \<Rightarrow> u64 \<Rightarrow> nat \<Rightarrow> u64 \<Rightarrow> u64 \<Rightarrow> u64 res" where
  "FloorSections host file table_start 0 i floor = Inr floor"
| "FloorSections host file table_start (Suc left) i floor =
     (let entry = table_start + i * 40 in
      if entry + 40 > span_size file then Inr floor
      else
        bindE (Read host file (entry + 16) Little ''SizeOfRawData'') (\<lambda>raw32.
        bindE (Read host file (entry + 20) Little ''PointerToRawData'') (\<lambda>ptr32.
        let raw_size = ucast (raw32 :: u32) :: u64; raw_ptr = ucast (ptr32 :: u32) in
        FloorSections host file table_start left (i + 1)
          (if raw_size \<noteq> 0 \<and> raw_ptr + raw_size > floor then raw_ptr + raw_size else floor))))"

definition StripFloor :: "ByteOrder \<Rightarrow> ByteSpan \<Rightarrow> PeLayout \<Rightarrow> u64 res" where
  "StripFloor host file layout =
     (let sz = span_size file; opt = lay_optional_header_offset layout in
      if opt + 4 > sz \<or> pe_header_offset layout + 24 > sz \<or> opt + 64 > sz then Inr 0
      else
        bindE (Read host file (opt + 60) Little ''SizeOfHeaders'') (\<lambda>floor.
        bindE (Read host file (pe_header_offset layout + 6) Little ''NumberOfSections'') (\<lambda>count.
        bindE (Read host file (pe_header_offset layout + 20) Little ''SizeOfOptionalHeader'') (\<lambda>opt_size.
        FloorSections host file (opt + ucast (opt_size :: u16)) (unat (count :: u16)) 0 (ucast (floor :: u32))))))"

section \<open>The certificate table\<close>

record CertificateTable =
  present :: bool
  address :: u64
  table_size :: u64
  cert_length :: u64

definition ValidateCertificateTable :: "ByteOrder \<Rightarrow> ByteSpan \<Rightarrow> PeLayout \<Rightarrow> CertificateTable res" where
  "ValidateCertificateTable host file layout =
     bindE (Read host file (dd_security_offset layout) Little ''certificate directory address'') (\<lambda>a32.
     bindE (Read host file (dd_security_offset layout + 4) Little ''certificate directory size'') (\<lambda>s32.
     let addr = ucast (a32 :: u32) :: u64; sz = ucast (s32 :: u32) :: u64 in
     if addr = 0 \<or> sz = 0 then Inr \<lparr>present = False, address = addr, table_size = sz, cert_length = 0\<rparr>
     else
     bindE (Sub file addr sz ''certificate table'') (\<lambda>span.
     let headers_end = dd_security_offset layout + 8 in
     if addr < headers_end then
       ThrowMalformed pe_format (''certificate table (offset '' @ to_string addr @ '', size '' @ to_string sz @
         '') overlaps the PE headers ('' @ to_string headers_end @ '' bytes)'')
     else if sz < 8 then
       ThrowMalformed pe_format (''certificate table size '' @ to_string sz @
         '' is smaller than a WIN_CERTIFICATE header (8 bytes)'')
     else
     bindE (Read host span 0 Little ''WIN_CERTIFICATE length'') (\<lambda>l32.
     let len = ucast (l32 :: u32) :: u64 in
     if len < 8 then
       ThrowMalformed pe_format (''WIN_CERTIFICATE length '' @ to_string len @ '' is smaller than its 8-byte header'')
     else if len > sz then
       ThrowMalformed pe_format (''WIN_CERTIFICATE length '' @ to_string len @
         '' is larger than the certificate table ('' @ to_string sz @ '' bytes)'')
     else
     bindE (Read host span 4 Little ''WIN_CERTIFICATE revision'') (\<lambda>revision.
     bindE (Read host span 6 Little ''WIN_CERTIFICATE type'') (\<lambda>typ.
     if (revision :: u16) \<noteq> 0x0200 \<or> (typ :: u16) \<noteq> 0x0002 then
       ThrowMalformed pe_format (''WIN_CERTIFICATE revision '' @ to_string revision @ '' or type '' @
         to_string typ @ '' is not supported'')
     else Inr \<lparr>present = True, address = addr, table_size = sz, cert_length = len\<rparr>))))))"

section \<open>The digest\<close>

definition hash_range :: "ByteSpan \<Rightarrow> u64 \<Rightarrow> u64 \<Rightarrow> bytes res" where
  "hash_range file start stop =
     (if start < stop then bindE (Sub file start (stop - start) ''hashed range'') Data else Inr [])"

text \<open>The loop over the ranges to leave out; the state is what has been hashed and the position.\<close>

definition hash_step :: "ByteSpan \<Rightarrow> bytes \<times> u64 \<Rightarrow> u64 \<times> u64 \<Rightarrow> (bytes \<times> u64) res" where
  "hash_step file st excl =
     bindE (if fst excl > snd st then hash_range file (snd st) (fst excl) else Inr []) (\<lambda>part.
     Inr (fst st @ part, snd excl))"

record DigestResult =
  digest :: bytes
  result_pe32_plus :: bool

definition padding :: "u64 \<Rightarrow> u64" where
  "padding n = (8 - n mod 8) mod 8"

definition HashedBytes :: "ByteSpan \<Rightarrow> PeLayout \<Rightarrow> CertificateTable \<Rightarrow> bytes res" where
  "HashedBytes file layout table =
     (let hash_end = (if present table then address table else span_size file);
          exclusions = sort_key fst
            [(checksum_offset layout, checksum_offset layout + 4), (dd_security_offset layout, dd_security_offset layout + 8)] in
      bindE (foldE (hash_step file) ([], 0) exclusions) (\<lambda>(hashed, pos).
      bindE (hash_range file pos hash_end) (\<lambda>tail.
      Inr (hashed @ tail @ (if present table then [] else replicate (unat (padding (span_size file))) 0)))))"

definition DigestBytes :: "(bytes \<Rightarrow> bytes) \<Rightarrow> ByteOrder \<Rightarrow> bytes \<Rightarrow> DigestResult res" where
  "DigestBytes sha host bs =
     (let file = ByteSpan_of_bytes bs pe_format ''the file'' in
      bindE (ParsePeLayout host file) (\<lambda>layout.
      bindE (ValidateCertificateTable host file layout) (\<lambda>table.
      bindE (HashedBytes file layout table) (\<lambda>hashed.
      Inr \<lparr>digest = sha hashed, result_pe32_plus = is_pe32_plus layout\<rparr>))))"

section \<open>The checksum\<close>

definition fold_carry :: "u32 \<Rightarrow> u32" where
  "fold_carry s = (s AND 0xFFFF) + drop_bit 16 s"

definition ChecksumWord :: "ByteOrder \<Rightarrow> ByteSpan \<Rightarrow> u64 \<Rightarrow> u32 \<Rightarrow> nat \<Rightarrow> u32 res" where
  "ChecksumWord host file off s i =
     (let offset = word_of_nat i * 2 in
      if offset = off \<or> offset = off + 2 then Inr s
      else bindE (Read host file offset Little ''checksum word'') (\<lambda>w. Inr (fold_carry (s + ucast (w :: u16)))))"

definition RecalcChecksumBody :: "ByteOrder \<Rightarrow> bytes \<Rightarrow> u64 \<Rightarrow> bytes res" where
  "RecalcChecksumBody host bs off =
     bindE (Write host (MutableByteSpan_of_bytes bs pe_format ''the file'') off (0 :: u32) Little ''CheckSum field'') (\<lambda>out.
     let file = ByteSpan_of_bytes (mdata out) pe_format ''the file'' in
     bindE (foldE (ChecksumWord host file off) 0 [0..<length bs div 2]) (\<lambda>s.
     bindE (if length bs mod 2 \<noteq> 0
            then bindE (Read host file (word_of_nat (length bs - 1)) Little ''checksum byte'') (\<lambda>b.
                 Inr (fold_carry (s + ucast (b :: u8))))
            else Inr s) (\<lambda>s.
     let folded = fold_carry s; checksum = ucast ((ucast folded :: u64) + word_of_nat (length bs)) :: u32 in
     bindE (Write host out off checksum Little ''CheckSum field'') (\<lambda>out. Inr (mdata out)))))"

definition RecalcChecksum :: "ByteOrder \<Rightarrow> bytes \<Rightarrow> u64 \<Rightarrow> bytes res" where
  "RecalcChecksum host bs off = GuardEntryPoint pe_format (RecalcChecksumBody host bs off)"

section \<open>Embedding, extracting, stripping\<close>

definition EmbedBytes :: "ByteOrder \<Rightarrow> bytes \<Rightarrow> bytes \<Rightarrow> bytes res" where
  "EmbedBytes host bs pkcs7_der =
     (let file = ByteSpan_of_bytes bs pe_format ''the file'' in
      bindE (ParsePeLayout host file) (\<lambda>layout.
      bindE (ValidateCertificateTable host file layout) (\<lambda>existing.
      bindE (CheckPeSignatureSize (word_of_nat (length pkcs7_der))) (\<lambda>_.
      let kept_size = (if present existing then address existing else word_of_nat (length bs));
          cert_offset = kept_size + padding kept_size;
          cert_len = 8 + word_of_nat (length pkcs7_der) :: u64;
          tab_size = cert_len + padding cert_len in
      if cert_offset > kUint32Max then
        ThrowMalformed pe_format (''certificate table offset '' @ to_string cert_offset @ '' does not fit in 32 bits'')
      else if tab_size > kUint32Max then
        ThrowMalformed pe_format (''certificate table size '' @ to_string tab_size @ '' does not fit in 32 bits'')
      else
      let kept = take (unat kept_size) bs;
          grown = kept @ replicate (unat (cert_offset + tab_size) - length kept) 0;
          out = MutableByteSpan_of_bytes grown pe_format ''the file'' in
      bindE (Write host out cert_offset (ucast cert_len :: u32) Little ''WIN_CERTIFICATE length'') (\<lambda>out.
      bindE (Write host out (cert_offset + 4) (0x0200 :: u16) Little ''WIN_CERTIFICATE revision'') (\<lambda>out.
      bindE (Write host out (cert_offset + 6) (0x0002 :: u16) Little ''WIN_CERTIFICATE type'') (\<lambda>out.
      bindE (Copy out (cert_offset + 8) pkcs7_der ''WIN_CERTIFICATE data'') (\<lambda>out.
      bindE (Write host out (dd_security_offset layout) (ucast cert_offset :: u32) Little ''certificate directory address'') (\<lambda>out.
      bindE (Write host out (dd_security_offset layout + 4) (ucast tab_size :: u32) Little ''certificate directory size'') (\<lambda>out.
      RecalcChecksum host (mdata out) (checksum_offset layout)))))))))))"

definition ExtractBytes :: "ByteOrder \<Rightarrow> bytes \<Rightarrow> bytes option res" where
  "ExtractBytes host bs =
     (let file = ByteSpan_of_bytes bs pe_format ''the file'' in
      bindE (ParsePeLayout host file) (\<lambda>layout.
      bindE (ValidateCertificateTable host file layout) (\<lambda>table.
      if \<not> present table then Inr None
      else
      bindE (Sub file (address table) (cert_length table) ''WIN_CERTIFICATE'') (\<lambda>certificate.
      bindE (Sub certificate 8 (cert_length table - 8) ''PKCS#7 blob'') (\<lambda>blob.
      bindE (Data blob) (\<lambda>d. Inr (Some d)))))))"

definition HasEmbeddedSignatureIn :: "ByteOrder \<Rightarrow> ByteSpan \<Rightarrow> bool res" where
  "HasEmbeddedSignatureIn host file =
     bindE (ParsePeLayout host file) (\<lambda>layout.
     bindE (ValidateCertificateTable host file layout) (\<lambda>table. Inr (present table)))"

text \<open>The loop that removes the padding: at most \<open>left\<close> more zero bytes.\<close>

fun StripPadding :: "bytes \<Rightarrow> u64 \<Rightarrow> nat \<Rightarrow> u64 \<Rightarrow> u64 res" where
  "StripPadding bs floor 0 new_size = Inr new_size"
| "StripPadding bs floor (Suc left) new_size =
     (if new_size > floor
      then bindE (mem_read bs (unat new_size - 1) 1) (\<lambda>b.
           if b = [0] then StripPadding bs floor left (new_size - 1) else Inr new_size)
      else Inr new_size)"

text \<open>\<open>None\<close>: there is no signature and nothing is written.\<close>

definition StripBytes :: "ByteOrder \<Rightarrow> bytes \<Rightarrow> bytes option res" where
  "StripBytes host bs =
     (let file = ByteSpan_of_bytes bs pe_format ''the file'' in
      bindE (ParsePeLayout host file) (\<lambda>layout.
      bindE (ValidateCertificateTable host file layout) (\<lambda>table.
      bindE (StripFloor host file layout) (\<lambda>floor.
      if \<not> present table then Inr None
      else
      bindE (StripPadding bs floor 7 (address table)) (\<lambda>new_size.
      let out = MutableByteSpan_of_bytes (take (unat new_size) bs) pe_format ''the file'' in
      bindE (Write host out (dd_security_offset layout) (0 :: u32) Little ''certificate directory address'') (\<lambda>out.
      bindE (Write host out (dd_security_offset layout + 4) (0 :: u32) Little ''certificate directory size'') (\<lambda>out.
      bindE (RecalcChecksum host (mdata out) (checksum_offset layout)) (\<lambda>bytes.
      Inr (Some bytes)))))))))"

section \<open>Closed forms\<close>

text \<open>The little-endian values of a file.\<close>

definition u16_at :: "bytes \<Rightarrow> nat \<Rightarrow> u16" where
  "u16_at c off = load_word Little (segment off 2 c)"

definition u32_at :: "bytes \<Rightarrow> nat \<Rightarrow> u32" where
  "u32_at c off = load_word Little (segment off 4 c)"

lemma Read_u16:
  "span_ok sp c \<Longrightarrow> (Read host sp offset Little what :: u16 res) =
    (if unat offset + 2 \<le> length c then Inr (u16_at c (unat offset))
     else ThrowMalformed (span_format sp) (PastTheEnd what offset (span_scope sp) (span_size sp)))"
  by (simp add: Read_eq u16_at_def)

lemma Read_u32:
  "span_ok sp c \<Longrightarrow> (Read host sp offset Little what :: u32 res) =
    (if unat offset + 4 \<le> length c then Inr (u32_at c (unat offset))
     else ThrowMalformed (span_format sp) (PastTheEnd what offset (span_scope sp) (span_size sp)))"
  by (simp add: Read_eq u32_at_def)

lemma Read_u16_sub:
  "span_ok sp c \<Longrightarrow> unat off + unat len \<le> length c \<Longrightarrow> unat offset + 2 \<le> unat len \<Longrightarrow>
    (Read host (sub_of sp off len st) offset Little what :: u16 res) = Inr (u16_at c (unat off + unat offset))"
  by (simp add: Read_sub_of u16_at_def)

lemma Read_u32_sub:
  "span_ok sp c \<Longrightarrow> unat off + unat len \<le> length c \<Longrightarrow> unat offset + 4 \<le> unat len \<Longrightarrow>
    (Read host (sub_of sp off len st) offset Little what :: u32 res) = Inr (u32_at c (unat off + unat offset))"
  by (simp add: Read_sub_of u32_at_def)

text \<open>What a layout says of the file it was read from.\<close>

definition dd_delta :: "bool \<Rightarrow> nat" where
  "dd_delta pp = (if pp then 144 else 128)"

definition pe_layout :: "bytes \<Rightarrow> PeLayout \<Rightarrow> bool" where
  "pe_layout c L \<longleftrightarrow>
     (let x = unat (u32_at c 60); pp = is_pe32_plus L in
      u16_at c 0 = kImageDosSignature \<and> x < 2 ^ 31 \<and> u32_at c x = kImageNtSignature \<and>
      u16_at c (x + 24) = (if pp then kImageNtOptionalHdr64Magic else kImageNtOptionalHdr32Magic) \<and>
      5 \<le> u32_at c (x + (if pp then 132 else 116)) \<and> x + 24 + dd_delta pp + 8 \<le> length c \<and>
      L = \<lparr>pe_header_offset = word_of_nat x, lay_optional_header_offset = word_of_nat (x + 24),
           checksum_offset = word_of_nat (x + 88), dd_security_offset = word_of_nat (x + 24 + dd_delta pp),
           is_pe32_plus = pp\<rparr>)"

lemma sint_u32_neg: "sint (w :: u32) < 0 \<longleftrightarrow> \<not> unat w < 2 ^ 31"
proof -
  have "sint w < 0 \<longleftrightarrow> bit (uint w) 31"
    by (simp add: sint_uint not_le [symmetric])
  also have "\<dots> \<longleftrightarrow> bit (unat w) 31" by (simp add: bit_unsigned_iff)
  also have "\<dots> \<longleftrightarrow> odd (unat w div 2 ^ 31)" by (simp only: bit_iff_odd)
  also have "\<dots> \<longleftrightarrow> \<not> unat w < 2 ^ 31"
  proof (cases "unat w < 2 ^ 31")
    case False
    then have "unat w div 2 ^ 31 = 1" using unat_u32_less [of w] by (intro div_nat_eqI) simp_all
    with False show ?thesis by simp
  qed simp
  finally show ?thesis .
qed

lemma unat_ucast_plus: "unat k < 2 ^ 63 \<Longrightarrow> unat (ucast (w :: u32) + (k :: u64)) = unat w + unat k"
  using unat_u32_less [of w] by (subst unat_add_nowrap) (simp_all add: unat_ucast_u32)

lemma ParsePeLayout_layout:
  assumes ok: "span_ok file c" and res: "ParsePeLayout host file = Inr L"
  shows "pe_layout c L"
  using res
  by (auto simp: ParsePeLayout_def Let_def Sub_eq [OF ok] Read_u16_sub [OF ok] Read_u32_sub [OF ok] Read_u32 [OF ok]
      ThrowMalformed_def sizeof_ImageDosHeader_def sint_u32_neg add.assoc unat_ucast_plus unat_ucast_u32
      pe_layout_def dd_delta_def not_less split: if_splits)

lemma layout_ParsePeLayout:
  assumes ok: "span_ok file c" and lay: "pe_layout c L"
  shows "ParsePeLayout host file = Inr L"
proof -
  define x where "x = unat (u32_at c 60)"
  have wx: "(ucast (u32_at c 60) :: u64) = word_of_nat x" by (simp add: x_def)
  have magic: "kImageNtOptionalHdr32Magic \<noteq> kImageNtOptionalHdr64Magic"
    by (simp add: kImageNtOptionalHdr32Magic_def kImageNtOptionalHdr64Magic_def)
  have "x < 2 ^ 31" using lay by (simp add: pe_layout_def Let_def x_def)
  then have nat: "unat (word_of_nat x + k :: u64) = x + unat k" if "unat k < 2 ^ 63" for k
    using that by (subst unat_add_nowrap) (simp_all add: unat_of_nat)
  have nx: "unat (word_of_nat x :: u64) = x" using \<open>x < 2 ^ 31\<close> by (simp add: unat_of_nat)
  have len: "x + 24 + dd_delta (is_pe32_plus L) + 8 \<le> length c" using lay by (simp add: pe_layout_def Let_def x_def)
  have "\<not> 2 ^ 31 \<le> unat (u32_at c 60)" using lay by (simp add: pe_layout_def Let_def)
  then show ?thesis
    using lay magic len
    unfolding pe_layout_def Let_def x_def [symmetric]
    by (cases "is_pe32_plus L")
      (simp_all add: ParsePeLayout_def Let_def Sub_eq [OF ok] Read_u16_sub [OF ok] Read_u32_sub [OF ok] Read_u32 [OF ok]
        sizeof_ImageDosHeader_def sint_u32_neg add.assoc nat nx wx dd_delta_def not_less not_le x_def [symmetric],
       auto)
qed

lemma pe_layout_nat:
  assumes "pe_layout c L" and "length c < 2 ^ 64"
  defines "x \<equiv> unat (u32_at c 60)"
  shows "unat (pe_header_offset L) = x" and "unat (lay_optional_header_offset L) = x + 24"
    and "unat (checksum_offset L) = x + 88" and "unat (dd_security_offset L) = x + 24 + dd_delta (is_pe32_plus L)"
    and "x + 24 + dd_delta (is_pe32_plus L) + 8 \<le> length c"
    and "unat (dd_security_offset L + 4) = x + 28 + dd_delta (is_pe32_plus L)"
    and "unat (dd_security_offset L + 8) = x + 32 + dd_delta (is_pe32_plus L)"
proof -
  have L: "L = \<lparr>pe_header_offset = word_of_nat x, lay_optional_header_offset = word_of_nat (x + 24),
           checksum_offset = word_of_nat (x + 88), dd_security_offset = word_of_nat (x + 24 + dd_delta (is_pe32_plus L)),
           is_pe32_plus = is_pe32_plus L\<rparr>" and x: "x < 2 ^ 31"
    and len: "x + 24 + dd_delta (is_pe32_plus L) + 8 \<le> length c"
    using assms(1) unfolding pe_layout_def Let_def x_def by blast+
  have d: "dd_delta (is_pe32_plus L) \<le> 144" by (simp add: dd_delta_def)
  have fields: "pe_header_offset L = word_of_nat x" "lay_optional_header_offset L = word_of_nat (x + 24)"
    "checksum_offset L = word_of_nat (x + 88)" "dd_security_offset L = word_of_nat (x + 24 + dd_delta (is_pe32_plus L))"
    by (subst L, simp)+
  show "unat (pe_header_offset L) = x" "unat (lay_optional_header_offset L) = x + 24"
    "unat (checksum_offset L) = x + 88" and dd: "unat (dd_security_offset L) = x + 24 + dd_delta (is_pe32_plus L)"
    unfolding fields using x d by (simp_all del: of_nat_add add: unat_of_nat)
  show "unat (dd_security_offset L + 4) = x + 28 + dd_delta (is_pe32_plus L)"
    and "unat (dd_security_offset L + 8) = x + 32 + dd_delta (is_pe32_plus L)"
    using x d dd by (simp_all add: unat_add_nowrap)
  show "x + 24 + dd_delta (is_pe32_plus L) + 8 \<le> length c" by (rule len)
qed

lemma layout_order:
  assumes "pe_layout c L" and "length c < 2 ^ 64"
  shows "88 \<le> unat (checksum_offset L)" and "unat (checksum_offset L) + 4 \<le> unat (dd_security_offset L)"
    and "unat (dd_security_offset L) + 8 \<le> length c" and "unat (checksum_offset L) + 4 < unat (dd_security_offset L)"
  using pe_layout_nat [OF assms] by (simp_all add: dd_delta_def)

text \<open>A file that keeps the bytes the layout was read from has the same layout.\<close>

definition same_headers :: "bytes \<Rightarrow> bytes \<Rightarrow> PeLayout \<Rightarrow> bool" where
  "same_headers c c' L \<longleftrightarrow> unat (dd_security_offset L) + 8 \<le> length c' \<and>
     (\<forall>i < unat (dd_security_offset L). i < unat (checksum_offset L) \<or> unat (checksum_offset L) + 4 \<le> i \<longrightarrow> c' ! i = c ! i)"

lemma same_headers_segment:
  assumes "same_headers c c' L" and "unat (dd_security_offset L) + 8 \<le> length c"
    and "off + n \<le> unat (checksum_offset L) \<or> unat (checksum_offset L) + 4 \<le> off"
    and "off + n \<le> unat (dd_security_offset L)"
  shows "segment off n c' = segment off n c"
  using assms by (intro segment_eqI) (auto simp: same_headers_def)

lemma pe_layout_same:
  assumes lay: "pe_layout c L" and len: "length c < 2 ^ 64" and same: "same_headers c c' L"
  shows "pe_layout c' L"
proof -
  note nats = pe_layout_nat [OF lay len]
  define x where "x = unat (u32_at c 60)"
  have d: "dd_delta (is_pe32_plus L) = (if is_pe32_plus L then 144 else 128)" by (simp add: dd_delta_def)
  have seg: "segment off n c' = segment off n c" if "off + n \<le> x + 88 \<or> x + 92 \<le> off" "off + n \<le> x + 152" for off n
    using that nats(5) by (intro same_headers_segment [OF same]) (auto simp: nats x_def dd_delta_def)
  have x': "u32_at c' 60 = u32_at c 60" by (simp add: u32_at_def seg)
  have "u16_at c' 0 = u16_at c 0" "u32_at c' x = u32_at c x" "u16_at c' (x + 24) = u16_at c (x + 24)"
    "u32_at c' (x + (if is_pe32_plus L then 132 else 116)) = u32_at c (x + (if is_pe32_plus L then 132 else 116))"
    by (simp_all add: u16_at_def u32_at_def seg)
  moreover have "x + 24 + dd_delta (is_pe32_plus L) + 8 \<le> length c'"
    using same by (simp add: same_headers_def nats x_def)
  ultimately show ?thesis
    using lay unfolding pe_layout_def Let_def x' x_def [symmetric] by simp
qed

text \<open>What a certificate table says of the file.\<close>

definition pe_table :: "bytes \<Rightarrow> nat \<Rightarrow> CertificateTable \<Rightarrow> bool" where
  "pe_table c dd T \<longleftrightarrow>
     (let a = unat (u32_at c dd); n = unat (u32_at c (dd + 4)) in
      if a = 0 \<or> n = 0 then T = \<lparr>present = False, address = word_of_nat a, table_size = word_of_nat n, cert_length = 0\<rparr>
      else a + n \<le> length c \<and> dd + 8 \<le> a \<and> 8 \<le> n \<and> 8 \<le> unat (u32_at c a) \<and> unat (u32_at c a) \<le> n \<and>
        u16_at c (a + 4) = 0x0200 \<and> u16_at c (a + 6) = 0x0002 \<and>
        T = \<lparr>present = True, address = word_of_nat a, table_size = word_of_nat n, cert_length = word_of_nat (unat (u32_at c a))\<rparr>)"

lemma ucast_eq_0: "(ucast (w :: u32) :: u64) = 0 \<longleftrightarrow> unat w = 0"
  by (simp add: word_unat_eq_iff unat_ucast_u32)

lemma Validate_table:
  assumes ok: "span_ok file c" and dd: "unat (dd_security_offset L) + 8 \<le> length c"
  shows "ValidateCertificateTable host file L = Inr T \<longleftrightarrow> pe_table c (unat (dd_security_offset L)) T"
proof -
  define d where "d = unat (dd_security_offset L)"
  have d: "d + 8 \<le> length c" using dd by (simp add: d_def)
  have plus: "unat (dd_security_offset L + 4) = d + 4" "unat (dd_security_offset L + 8) = d + 8"
    using d span_ok_less [OF ok] by (simp_all add: unat_add_nowrap d_def)
  define a n where "a = u32_at c d" and "n = u32_at c (d + 4)"
  have of_nat: "word_of_nat (unat w) = (ucast w :: u64)" for w :: u32 by simp
  have nats: "unat (ucast w :: u64) = unat w" for w :: u32 by (rule unat_ucast_u32)
  have lens: "((ucast w :: u64) < k) = (unat w < unat k)" "(k < (ucast w :: u64)) = (unat k < unat w)" for w :: u32 and k
    by (simp_all add: word_less_nat_alt nats)
  show ?thesis
    unfolding pe_table_def Let_def d_def [symmetric] a_def [symmetric] n_def [symmetric] of_nat
    using d
    by (auto simp: ValidateCertificateTable_def Let_def Read_u32 [OF ok] d_def [symmetric] plus a_def [symmetric]
        n_def [symmetric] ucast_eq_0 Sub_eq [OF ok] Read_u32_sub [OF ok] Read_u16_sub [OF ok] nats lens not_less
        ThrowMalformed_def bindE_Inr_iff split: if_splits)
qed

section \<open>The checksum is a one's-complement sum\<close>

text \<open>The reference: the sum of the 16-bit words, folded into 16 bits with end-around carry.\<close>

definition ones_sum :: "nat \<Rightarrow> nat" where
  "ones_sum n = (if n = 0 then 0 else (n - 1) mod 65535 + 1)"

definition word_sum :: "bytes \<Rightarrow> nat" where
  "word_sum c = (\<Sum>i < length c div 2. unat (u16_at c (2 * i))) + (if odd (length c) then unat (last c) else 0)"

lemma ones_sum_le: "ones_sum n \<le> 65535"
  by (simp add: ones_sum_def Suc_le_eq)

lemma ones_sum_small: "n \<le> 65535 \<Longrightarrow> ones_sum n = n"
  by (auto simp: ones_sum_def)

lemma ones_sum_add:
  assumes "w \<le> 65535" and t_def: "t = ones_sum n + w"
  shows "t mod 65536 + t div 65536 = ones_sum (n + w)"
proof (cases "n = 0")
  case True
  then show ?thesis using assms(1) by (auto simp: t_def ones_sum_def)
next
  case False
  define q where "q = (n - 1) mod 65535"
  have q: "q < 65535" by (simp add: q_def)
  have t: "t = q + w + 1" using False by (simp add: t_def ones_sum_def q_def)
  have "n + w - 1 = (n - 1) + w" using False by simp
  then have o: "ones_sum (n + w) = (q + w) mod 65535 + 1"
    using False by (simp add: ones_sum_def q_def mod_add_left_eq)
  show ?thesis
  proof (cases "q + w < 65535")
    case True
    then show ?thesis by (simp add: t o)
  next
    case False
    then have "(q + w) mod 65535 = q + w - 65535" using q assms(1) by (simp add: mod_if)
    moreover have "t div 65536 = 1" using False q assms(1) by (intro div_nat_eqI) (simp_all add: t)
    moreover from this have "t mod 65536 = t - 65536" by (simp add: modulo_nat_def)
    ultimately show ?thesis using False by (simp add: t o)
  qed
qed

lemma unat_fold_carry: "unat (fold_carry s) = unat s mod 65536 + unat s div 65536"
proof -
  have "(s AND 0xFFFF) = take_bit 16 s" by (simp add: take_bit_eq_mask mask_eq_exp_minus_1)
  then have "unat (s AND 0xFFFF) = take_bit 16 (unat s)" by (simp only: unsigned_take_bit_eq)
  then have low: "unat (s AND 0xFFFF) = unat s mod 65536" by (simp add: take_bit_nat_def)
  have high: "unat (drop_bit 16 s) = unat s div 65536" by (simp add: drop_bit_eq_div unat_div)
  have "unat s div 65536 < 65536" using unat_u32_less [of s] by (simp add: less_mult_imp_div_less)
  moreover have "unat s mod 65536 < 65536" by simp
  ultimately have "unat s mod 65536 + unat s div 65536 < 2 ^ 32" by simp
  then show ?thesis unfolding fold_carry_def by (subst unat_add_nowrap) (simp_all add: low high)
qed

lemma fold_carry_step:
  assumes "unat s = ones_sum n" and "unat w \<le> 65535"
  shows "unat (fold_carry (s + w)) = ones_sum (n + unat w)"
proof -
  have "unat (s + w) = ones_sum n + unat w"
    using assms ones_sum_le [of n] by (subst unat_add_nowrap) simp_all
  then show ?thesis using ones_sum_add [OF assms(2) refl, of n] by (simp add: unat_fold_carry)
qed

lemma ChecksumWord_step:
  assumes ok: "span_ok file z" and off: "unat off + 4 \<le> length z" and zero: "segment (unat off) 4 z = [0, 0, 0, 0]"
    and i: "2 * i + 2 \<le> length z" and s: "unat s = ones_sum n"
  obtains s' where "ChecksumWord host file off s i = Inr s'" and "unat s' = ones_sum (n + unat (u16_at z (2 * i)))"
proof -
  have less: "length z < 2 ^ 64" using span_ok_less [OF ok] .
  have pos: "unat (word_of_nat i * 2 :: u64) = 2 * i"
    using i less by (subst unat_mult_nowrap) (simp_all add: unat_of_nat)
  have two: "unat (off + 2) = unat off + 2" using off less by (simp add: unat_add_nowrap)
  show ?thesis
  proof (cases "word_of_nat i * 2 = off \<or> word_of_nat i * 2 = off + 2")
    case True
    then have "2 * i = unat off \<or> 2 * i = unat off + 2" using pos two by metis
    moreover have "segment (unat off) 2 z = [0, 0]" "segment (unat off + 2) 2 z = [0, 0]"
      using segment_segment [of 0 2 4 "unat off" z] segment_segment [of 2 2 4 "unat off" z]
      by (simp_all add: zero) (simp_all add: segment_def numeral_eq_Suc)
    ultimately have "u16_at z (2 * i) = 0" by (auto simp: u16_at_def load_word_def)
    with True s show ?thesis by (intro that [of s]) (simp_all add: ChecksumWord_def Let_def)
  next
    case False
    have "unat (ucast (u16_at z (2 * i)) :: u32) = unat (u16_at z (2 * i))"
      using unat_u16_less [of "u16_at z (2 * i)"] by (simp add: unsigned_ucast_eq take_bit_nat_eq_self)
    then show ?thesis
      using False i fold_carry_step [OF s, of "ucast (u16_at z (2 * i))"] unat_u16_less [of "u16_at z (2 * i)"]
      by (intro that [of "fold_carry (s + ucast (u16_at z (2 * i)))"])
        (simp_all add: ChecksumWord_def Let_def Read_u16 [OF ok] pos)
  qed
qed

lemma ChecksumWord_fold:
  assumes ok: "span_ok file z" and off: "unat off + 4 \<le> length z" and zero: "segment (unat off) 4 z = [0, 0, 0, 0]"
    and k: "2 * k \<le> length z"
  shows "\<exists>s. foldE (ChecksumWord host file off) 0 [0..<k] = Inr s \<and> unat s = ones_sum (\<Sum>i < k. unat (u16_at z (2 * i)))"
  using k
proof (induction k)
  case 0
  then show ?case by (simp add: ones_sum_def)
next
  case (Suc k)
  then obtain s where s: "foldE (ChecksumWord host file off) 0 [0..<k] = Inr s"
    and u: "unat s = ones_sum (\<Sum>i < k. unat (u16_at z (2 * i)))" by auto
  have "2 * k + 2 \<le> length z" using Suc.prems by simp
  from ChecksumWord_step [OF ok off zero this u] obtain s'
    where "ChecksumWord host file off s k = Inr s'"
      and "unat s' = ones_sum ((\<Sum>i < k. unat (u16_at z (2 * i))) + unat (u16_at z (2 * k)))" by blast
  then show ?case by (simp add: foldE_append s)
qed

lemma overwrite_overwrite:
  "length ys = length ys' \<Longrightarrow> off + length ys \<le> length xs \<Longrightarrow> overwrite off ys (overwrite off ys' xs) = overwrite off ys xs"
  by (simp add: overwrite_def)

definition checksum_of :: "bytes \<Rightarrow> nat \<Rightarrow> u32" where
  "checksum_of c off = word_of_nat (ones_sum (word_sum (overwrite off [0, 0, 0, 0] c)) + length c)"

lemma store_zero: "store_word Little (0 :: u32) = [0, 0, 0, 0]"
  by code_simp

lemma ucast_checksum:
  assumes "unat (s :: u32) \<le> 65535" and "n < 2 ^ 63"
  shows "(ucast ((ucast s :: u64) + word_of_nat n) :: u32) = word_of_nat (unat s + n)"
proof -
  have "unat ((ucast s :: u64) + word_of_nat n) = unat s + n"
    using assms by (subst unat_add_nowrap) (simp_all add: unat_ucast_u32 unat_of_nat)
  then have "unat (ucast ((ucast s :: u64) + word_of_nat n) :: u32) = (unat s + n) mod 2 ^ 32"
    by (simp add: unsigned_ucast_eq take_bit_nat_def)
  then show ?thesis by (simp del: of_nat_add add: word_unat_eq_iff unat_of_nat)
qed

lemma RecalcChecksum_eq:
  assumes off: "unat off + 4 \<le> length bs" and small: "length bs < 2 ^ 63"
  shows "RecalcChecksum host bs off = Inr (overwrite (unat off) (store_word Little (checksum_of bs (unat off))) bs)"
proof -
  define z where "z = overwrite (unat off) [0, 0, 0, 0] bs"
  define out where "out = (MutableByteSpan_of_bytes bs pe_format ''the file'')\<lparr>mdata := z\<rparr>"
  have len: "length z = length bs" using off by (simp add: z_def)
  have mok: "mspan_ok (MutableByteSpan_of_bytes bs pe_format ''the file'')" using small by (intro mspan_ok_bytes) simp
  have w0: "Write host (MutableByteSpan_of_bytes bs pe_format ''the file'') off (0 :: u32) Little ''CheckSum field'' = Inr out"
    unfolding Write_eq [OF mok int_type_simps(3)] using off
    by (simp add: out_def z_def store_zero MutableByteSpan_of_bytes_def)
  have okz: "span_ok (ByteSpan_of_bytes z pe_format ''the file'') z" using small by (intro span_ok_bytes) (simp add: len)
  have zero: "segment (unat off) 4 z = [0, 0, 0, 0]" using off by (simp add: z_def segment_overwrite_same)
  obtain s where s: "foldE (ChecksumWord host (ByteSpan_of_bytes z pe_format ''the file'') off) 0 [0..<length bs div 2] = Inr s"
    and us: "unat s = ones_sum (\<Sum>i < length bs div 2. unat (u16_at z (2 * i)))"
    using ChecksumWord_fold [OF okz _ zero, of "length bs div 2" host] off by (auto simp: len)
  have "bs \<noteq> []" using off by auto
  then have lastz: "segment (length bs - 1) 1 z = [last z]"
    using len by (cases z rule: rev_cases) (auto simp: segment_def)
  obtain s' where s': "(if length bs mod 2 \<noteq> 0
      then bindE (Read host (ByteSpan_of_bytes z pe_format ''the file'') (word_of_nat (length bs - 1)) Little ''checksum byte'')
        (\<lambda>b. Inr (fold_carry (s + ucast (b :: u8)))) else Inr s) = Inr s'"
    and us': "unat s' = ones_sum (word_sum z)"
  proof (cases "odd (length bs)")
    case True
    have pos: "unat (word_of_nat (length bs - 1) :: u64) = length bs - 1"
      using small by (intro unat_of_nat_small) simp
    have "Read host (ByteSpan_of_bytes z pe_format ''the file'') (word_of_nat (length bs - 1)) Little ''checksum byte'' =
        Inr (load_word Little [last z] :: u8)"
      unfolding Read_eq [OF okz int_type_simps(1)] pos using off lastz by (auto simp: len)
    moreover have "load_word Little [last z] = last z" by (simp add: load_word_def)
    moreover have "unat (ucast (last z) :: u32) = unat (last z)"
      using unat_u8_less [of "last z"] by (simp add: unsigned_ucast_eq take_bit_nat_eq_self)
    ultimately show ?thesis
      using True fold_carry_step [OF us, of "ucast (last z)"] unat_u8_less [of "last z"]
      by (intro that [of "fold_carry (s + ucast (last z))"]) (simp_all add: odd_iff_mod_2_eq_one word_sum_def len)
  next
    case False
    then show ?thesis using us by (intro that [of s]) (simp_all add: word_sum_def len)
  qed
  have f: "unat (fold_carry s') = ones_sum (word_sum z)"
    using us' ones_sum_le [of "word_sum z"] by (simp add: unat_fold_carry)
  then have val: "(ucast ((ucast (fold_carry s') :: u64) + word_of_nat (length bs)) :: u32) = checksum_of bs (unat off)"
    using ucast_checksum [of "fold_carry s'" "length bs"] small ones_sum_le [of "word_sum z"]
    by (simp add: checksum_of_def z_def)
  have mok2: "mspan_ok out" using mok len by (simp add: out_def mspan_ok_def MutableByteSpan_of_bytes_def)
  have w1: "Write host out off (checksum_of bs (unat off)) Little ''CheckSum field'' =
      Inr (out\<lparr>mdata := overwrite (unat off) (store_word Little (checksum_of bs (unat off))) z\<rparr>)"
    unfolding Write_eq [OF mok2 int_type_simps(3)] using off len by (simp add: out_def)
  have mo: "mdata out = z" by (simp add: out_def)
  have "RecalcChecksumBody host bs off = Inr (overwrite (unat off) (store_word Little (checksum_of bs (unat off))) z)"
    unfolding RecalcChecksumBody_def w0 bindE_simps Let_def mo s s' val w1 by simp
  then show ?thesis
    using off by (simp add: RecalcChecksum_def z_def overwrite_overwrite)
qed

section \<open>What embedding writes\<close>

definition pad :: "nat \<Rightarrow> nat" where
  "pad n = (8 - n mod 8) mod 8"

lemma unat_padding: "unat (padding w) = pad (unat w)"
proof -
  have "unat (w mod 8) = unat w mod 8" by (simp add: unat_mod)
  moreover have "unat (8 - w mod 8) = 8 - unat (w mod 8)"
    by (rule unat_diff_nowrap [THEN trans]) (simp_all add: word_le_nat_alt unat_mod)
  ultimately show ?thesis by (simp add: padding_def pad_def unat_mod)
qed

lemma pad_less: "pad n < 8" and pad_dvd: "8 dvd n + pad n"
proof -
  show "pad n < 8" by (simp add: pad_def)
  have "n mod 8 < 8" by simp
  then have "(n mod 8 + pad n) mod 8 = 0" by (cases "n mod 8 = 0") (simp_all add: pad_def)
  then show "8 dvd n + pad n" by (simp add: dvd_eq_mod_eq_0 mod_add_left_eq)
qed

lemma padding_of_nat: "n < 2 ^ 64 \<Longrightarrow> padding (word_of_nat n) = word_of_nat (pad n)"
  using unat_padding [of "word_of_nat n"] pad_less [of n]
  by (simp add: word_unat_eq_iff unat_of_nat_small unat_of_nat)


lemma Write_bytes:
  assumes "length d < 2 ^ 64" and "int_type TYPE('a::len word)"
  shows "Write host (MutableByteSpan_of_bytes d fmt sc) off (v :: 'a word) Little what =
    (if unat off + LENGTH('a) div 8 \<le> length d
     then Inr (MutableByteSpan_of_bytes (overwrite (unat off) (store_word Little v) d) fmt sc)
     else ThrowMalformed fmt (PastTheEnd what off sc (word_of_nat (length d))))"
  using Write_eq [OF mspan_ok_bytes [OF assms(1)] assms(2)]
  by (simp add: MutableByteSpan_of_bytes_def)

lemma Copy_bytes:
  assumes "length d < 2 ^ 64" and "length source < 2 ^ 64"
  shows "Copy (MutableByteSpan_of_bytes d fmt sc) off source what =
    (if unat off + length source \<le> length d
     then Inr (MutableByteSpan_of_bytes (overwrite (unat off) source d) fmt sc)
     else ThrowMalformed fmt (StructurePastTheEnd what off (word_of_nat (length source)) sc (word_of_nat (length d))))"
  using Copy_eq [OF mspan_ok_bytes [OF assms(1)] assms(2)]
  by (simp add: MutableByteSpan_of_bytes_def)

text \<open>
  The file with \<open>kept\<close> bytes kept, before the checksum: the kept bytes with the directory entry at \<open>dd\<close>
  filled in, the padding, and the certificate.
\<close>

definition certificate :: "bytes \<Rightarrow> bytes" where
  "certificate sig =
     store_word Little (word_of_nat (8 + length sig) :: u32) @ store_word Little (0x0200 :: u16) @
     store_word Little (0x0002 :: u16) @ sig @ replicate (pad (8 + length sig)) 0"

definition embed_data :: "bytes \<Rightarrow> nat \<Rightarrow> nat \<Rightarrow> bytes \<Rightarrow> bytes" where
  "embed_data bs dd kept sig =
     overwrite (dd + 4) (store_word Little (word_of_nat (length (certificate sig)) :: u32))
       (overwrite dd (store_word Little (word_of_nat (kept + pad kept) :: u32))
         (take kept bs @ replicate (pad kept) 0 @ certificate sig))"

lemma length_certificate [simp]: "length (certificate sig) = 8 + length sig + pad (8 + length sig)"
  by (simp add: certificate_def)

lemma overwrite_prefix:
  "overwrite (length xs) ys (xs @ replicate (length ys) z @ zs) = xs @ ys @ zs"
  by (simp add: overwrite_def)

lemma certificate_writes:
  assumes "kept \<le> length bs" and "co = kept + pad kept" and "n = length (certificate sig)"
  shows "overwrite (co + 8) sig (overwrite (co + 6) (store_word Little (0x0002 :: u16))
      (overwrite (co + 4) (store_word Little (0x0200 :: u16))
        (overwrite co (store_word Little (word_of_nat (8 + length sig) :: u32))
          (take kept bs @ replicate (co + n - kept) 0)))) =
    take kept bs @ replicate (pad kept) 0 @ certificate sig"
proof -
  define p where "p = take kept bs @ replicate (pad kept) (0 :: u8)"
  define a b t where "a = store_word Little (word_of_nat (8 + length sig) :: u32)"
    and "b = store_word Little (0x0200 :: u16)" and "t = store_word Little (0x0002 :: u16)"
  have lens: "length p = co" "length a = 4" "length b = 2" "length t = 2"
    using assms(1,2) by (simp_all add: p_def a_def b_def t_def)
  have zeros: "take kept bs @ replicate (co + n - kept) 0 =
      p @ replicate 4 0 @ replicate 2 0 @ replicate 2 0 @ replicate (length sig) 0 @ replicate (pad (8 + length sig)) 0"
    using assms by (simp add: p_def replicate_add [symmetric] del: replicate.simps)
  have "overwrite co a (p @ replicate 4 0 @ zs) = p @ a @ zs" for zs
    using overwrite_prefix [of p a] by (simp add: lens)
  moreover have "overwrite (co + 4) b (p @ a @ replicate 2 0 @ zs) = p @ a @ b @ zs" for zs
    using overwrite_prefix [of "p @ a" b] by (simp add: lens)
  moreover have "overwrite (co + 6) t (p @ a @ b @ replicate 2 0 @ zs) = p @ a @ b @ t @ zs" for zs
    using overwrite_prefix [of "p @ a @ b" t] by (simp add: lens)
  moreover have "overwrite (co + 8) sig (p @ a @ b @ t @ replicate (length sig) 0 @ zs) = p @ a @ b @ t @ sig @ zs" for zs
    using overwrite_prefix [of "p @ a @ b @ t" sig] by (simp add: lens)
  ultimately show ?thesis
    unfolding zeros a_def [symmetric] b_def [symmetric] t_def [symmetric]
    by (simp add: certificate_def p_def a_def b_def t_def)
qed

definition kept_size :: "bytes \<Rightarrow> CertificateTable \<Rightarrow> nat" where
  "kept_size bs T = (if present T then unat (address T) else length bs)"

lemma kept_size_bounds:
  assumes "pe_table bs dd T" and "dd + 8 \<le> length bs"
  shows "dd + 8 \<le> kept_size bs T" and "kept_size bs T \<le> length bs"
  using assms by (auto simp: pe_table_def Let_def kept_size_def unat_ucast_u32 split: if_splits)

definition embedded :: "bytes \<Rightarrow> PeLayout \<Rightarrow> CertificateTable \<Rightarrow> bytes \<Rightarrow> bytes" where
  "embedded bs L T sig =
     (let e = embed_data bs (unat (dd_security_offset L)) (kept_size bs T) sig; ck = unat (checksum_offset L)
      in overwrite ck (store_word Little (checksum_of e ck)) e)"

lemma ucast_of_nat: "n < 2 ^ 64 \<Longrightarrow> (ucast (word_of_nat n :: u64) :: u32) = word_of_nat n"
  using ucast_of_nat_small [where 'a = 64 and 'b = 32, of n] by simp

lemma length_embed_data:
  assumes "dd + 8 \<le> kept" and "kept \<le> length bs"
  shows "length (embed_data bs dd kept sig) = kept + pad kept + length (certificate sig)"
  using assms by (simp add: embed_data_def)

lemma dec_limit: "dec 4294967287 = ''4294967287''"
  by code_simp

lemma EmbedBytes_eq:
  assumes lay: "pe_layout bs L" and tab: "pe_table bs (unat (dd_security_offset L)) T"
    and small: "length bs < 2 ^ 62" "length sig < 2 ^ 62"
  shows "EmbedBytes host bs sig =
    (if length sig > 0xFFFFFFFF - 8 then
       ThrowMalformed pe_format (''signature size '' @ dec (length sig) @
          '' does not fit in a WIN_CERTIFICATE (limit 4294967287)'')
     else if kept_size bs T + pad (kept_size bs T) > 0xFFFFFFFF then
       ThrowMalformed pe_format (''certificate table offset '' @ dec (kept_size bs T + pad (kept_size bs T)) @ '' does not fit in 32 bits'')
     else if length (certificate sig) > 0xFFFFFFFF then
       ThrowMalformed pe_format (''certificate table size '' @ dec (length (certificate sig)) @ '' does not fit in 32 bits'')
     else Inr (embedded bs L T sig))"
proof -
  define f dd kept co n where "f = ByteSpan_of_bytes bs pe_format ''the file''" and "dd = unat (dd_security_offset L)"
    and "kept = kept_size bs T" and "co = kept + pad kept" and "n = length (certificate sig)"
  have len64: "length bs < 2 ^ 64" using small by simp
  have ok: "span_ok f bs" using len64 by (simp add: f_def span_ok_bytes)
  note nats = pe_layout_nat [OF lay len64]
  have dd8: "dd + 8 \<le> length bs" using nats by (simp add: dd_def)
  have P: "ParsePeLayout host f = Inr L" using layout_ParsePeLayout [OF ok lay] .
  have V: "ValidateCertificateTable host f L = Inr T" using Validate_table [OF ok] dd8 tab by (simp add: dd_def)
  have k: "dd + 8 \<le> kept" "kept \<le> length bs"
    using kept_size_bounds [OF tab] dd8 by (simp_all add: dd_def kept_def)
  have pads: "pad kept < 8" "pad (8 + length sig) < 8" by (rule pad_less)+
  have kw: "(if present T then address T else word_of_nat (length bs)) = word_of_nat kept"
    by (simp add: kept_def kept_size_def)
  have cow: "(word_of_nat kept + padding (word_of_nat kept) :: u64) = word_of_nat co"
    using k small by (subst padding_of_nat) (simp_all add: co_def)
  have clw: "(8 + word_of_nat (length sig) :: u64) = word_of_nat (8 + length sig)" by simp
  have tsw: "(word_of_nat (8 + length sig) + padding (word_of_nat (8 + length sig)) :: u64) = word_of_nat n"
    using small by (subst padding_of_nat) (simp_all add: n_def)
  have bounds: "co < 2 ^ 63" "n < 2 ^ 63" "length sig < 2 ^ 64" "kept < 2 ^ 64" "co + n < 2 ^ 64"
    using k small pads by (simp_all add: co_def n_def)
  have gt: "(word_of_nat j < (word_of_nat i :: u64)) = (j < i)" if "i < 2 ^ 64" "j < 2 ^ 64" for i j
    using that by (simp add: word_less_nat_alt unat_of_nat)
  have text_of: "to_string (word_of_nat i :: u64) = dec i" if "i < 2 ^ 64" for i
    using that by (simp add: unat_of_nat to_string_def)
  define g where "g = take kept bs @ replicate (co + n - kept) 0"
  have lg: "length g = co + n" using k by (simp add: g_def co_def)
  have off: "unat (word_of_nat co + i :: u64) = co + unat i" if "unat i < 16" for i
    using that bounds by (subst unat_add_nowrap) (simp_all add: unat_of_nat)
  let ?M = "\<lambda>d. MutableByteSpan_of_bytes d pe_format ''the file''"
  define d1 where "d1 = overwrite co (store_word Little (word_of_nat (8 + length sig) :: u32)) g"
  define d2 where "d2 = overwrite (co + 4) (store_word Little (0x0200 :: u16)) d1"
  define d3 where "d3 = overwrite (co + 6) (store_word Little (0x0002 :: u16)) d2"
  define d4 where "d4 = overwrite (co + 8) sig d3"
  define d5 where "d5 = overwrite dd (store_word Little (word_of_nat co :: u32)) d4"
  have n: "8 + length sig \<le> n" by (simp add: n_def)
  have l1: "length d1 = co + n" unfolding d1_def using lg n by simp
  have l2: "length d2 = co + n" unfolding d2_def using l1 n by simp
  have l3: "length d3 = co + n" unfolding d3_def using l2 n by simp
  have l4: "length d4 = co + n" unfolding d4_def using l3 n by simp
  have ddn: "dd + 8 \<le> co + n" "unat (dd_security_offset L) = dd" "unat (dd_security_offset L + 4) = dd + 4"
    using k nats by (simp_all add: co_def dd_def)
  have l5: "length d5 = co + n" unfolding d5_def using l4 ddn by simp
  have d4: "d4 = take kept bs @ replicate (pad kept) 0 @ certificate sig"
    using certificate_writes [OF k(2) co_def n_def] by (simp add: d4_def d3_def d2_def d1_def g_def)
  have emb: "overwrite (dd + 4) (store_word Little (word_of_nat n :: u32)) d5 = embed_data bs dd kept sig"
    by (simp add: embed_data_def d5_def d4 n_def co_def)
  have writes: "bindE (Write host (?M g) (word_of_nat co) (ucast (word_of_nat (8 + length sig) :: u64) :: u32) Little w1) (\<lambda>out.
      bindE (Write host out (word_of_nat co + 4) (0x0200 :: u16) Little w2) (\<lambda>out.
      bindE (Write host out (word_of_nat co + 6) (0x0002 :: u16) Little w3) (\<lambda>out.
      bindE (Copy out (word_of_nat co + 8) sig w4) (\<lambda>out.
      bindE (Write host out (dd_security_offset L) (ucast (word_of_nat co :: u64) :: u32) Little w5) (\<lambda>out.
      bindE (Write host out (dd_security_offset L + 4) (ucast (word_of_nat n :: u64) :: u32) Little w6) (\<lambda>out.
      F out)))))) = F (?M (embed_data bs dd kept sig))" for w1 w2 w3 w4 w5 w6 F
  proof -
    have s1: "Write host (?M g) (word_of_nat co) (word_of_nat (8 + length sig) :: u32) Little w1 = Inr (?M d1)"
      using lg n bounds by (subst Write_bytes) (simp_all add: d1_def unat_of_nat)
    have s2: "Write host (?M d1) (word_of_nat co + 4) (0x0200 :: u16) Little w2 = Inr (?M d2)"
      using l1 n bounds by (subst Write_bytes) (simp_all add: d2_def off)
    have s3: "Write host (?M d2) (word_of_nat co + 6) (0x0002 :: u16) Little w3 = Inr (?M d3)"
      using l2 n bounds by (subst Write_bytes) (simp_all add: d3_def off)
    have s4: "Copy (?M d3) (word_of_nat co + 8) sig w4 = Inr (?M d4)"
      using l3 n bounds by (subst Copy_bytes) (simp_all add: d4_def off)
    have s5: "Write host (?M d4) (dd_security_offset L) (word_of_nat co :: u32) Little w5 = Inr (?M d5)"
      using l4 bounds ddn by (subst Write_bytes) (simp_all add: d5_def)
    have s6: "Write host (?M d5) (dd_security_offset L + 4) (word_of_nat n :: u32) Little w6 = Inr (?M (embed_data bs dd kept sig))"
      using l5 bounds ddn emb by (subst Write_bytes) simp_all
    have u: "(ucast (word_of_nat (8 + length sig) :: u64) :: u32) = word_of_nat (8 + length sig)"
      "(ucast (word_of_nat co :: u64) :: u32) = word_of_nat co" "(ucast (word_of_nat n :: u64) :: u32) = word_of_nat n"
      using bounds small by (intro ucast_of_nat; simp)+
    show ?thesis unfolding u s1 s2 s3 s4 s5 s6 bindE_simps ..
  qed
  have le: "length (embed_data bs dd kept sig) = co + n"
    using length_embed_data [OF k] by (simp add: co_def n_def)
  have R: "RecalcChecksum host (embed_data bs dd kept sig) (checksum_offset L) = Inr (embedded bs L T sig)"
    if "co + n < 2 ^ 63"
    using that le ddn(1) layout_order [OF lay len64]
    by (subst RecalcChecksum_eq) (simp_all add: embedded_def Let_def dd_def kept_def)
  have md: "mdata (?M d) = d" for d by (simp add: MutableByteSpan_of_bytes_def)
  have con: "unat (word_of_nat co + word_of_nat n :: u64) = co + n" "length (take kept bs) = kept"
      "unat (word_of_nat kept :: u64) = kept"
    using bounds k by (simp_all add: unat_add_nowrap unat_of_nat)
  have conds: "(kPeMaxSignatureSize < word_of_nat (length sig)) = (0xFFFFFFFF - 8 < length sig)"
      "(kUint32Max < word_of_nat co) = (0xFFFFFFFF < co)" "(kUint32Max < word_of_nat n) = (0xFFFFFFFF < n)"
    using gt [of "length sig" "0xFFFFFFFF - 8"] gt [of co "0xFFFFFFFF"] gt [of n "0xFFFFFFFF"] bounds
    by (simp_all add: kPeMaxSignatureSize_def kUint32Max_def)
  have texts: "to_string (word_of_nat (length sig) :: u64) = dec (length sig)" "to_string (word_of_nat co :: u64) = dec co"
      "to_string (word_of_nat n :: u64) = dec n" "to_string kPeMaxSignatureSize = ''4294967287''"
    using bounds by (simp_all add: text_of) (simp add: kPeMaxSignatureSize_def to_string_def dec_limit)
  have throw: "bindE (ThrowMalformed fmt m :: 'q res) G = ThrowMalformed fmt m" for fmt m G by (simp add: ThrowMalformed_def)
  show ?thesis
    unfolding EmbedBytes_def Let_def f_def [symmetric] P V bindE_simps kw cow clw tsw con g_def [symmetric] writes md
      CheckPeSignatureSize_def conds texts dd_def [symmetric] kept_def [symmetric] co_def [symmetric] n_def [symmetric]
    using R bounds
    by (cases "0xFFFFFFFF - 8 < length sig"; cases "0xFFFFFFFF < co"; cases "0xFFFFFFFF < n")
      (simp_all add: throw del: length_certificate)
qed

section \<open>The file after embedding\<close>

lemma u32_load_store: "load_word Little (store_word Little (v :: u32)) = v"
  by (rule load_store_word) simp

lemma u16_load_store: "load_word Little (store_word Little (v :: u16)) = v"
  by (rule load_store_word) simp

text \<open>A signature that can be embedded, and the positions this gives.\<close>

definition can_embed :: "bytes \<Rightarrow> PeLayout \<Rightarrow> CertificateTable \<Rightarrow> bytes \<Rightarrow> bool" where
  "can_embed bs L T sig \<longleftrightarrow>
     pe_layout bs L \<and> pe_table bs (unat (dd_security_offset L)) T \<and> length bs < 2 ^ 62 \<and> length sig < 2 ^ 62 \<and>
     kept_size bs T + pad (kept_size bs T) \<le> 0xFFFFFFFF \<and> length (certificate sig) \<le> 0xFFFFFFFF"

lemma EmbedBytes_Inr:
  assumes "EmbedBytes host bs sig = Inr bs'" and small: "length bs < 2 ^ 62" "length sig < 2 ^ 62"
  obtains L T where "can_embed bs L T sig" and "bs' = embedded bs L T sig"
proof -
  have len64: "length bs < 2 ^ 64" using small by simp
  have ok: "span_ok (ByteSpan_of_bytes bs pe_format ''the file'') bs" using len64 by (rule span_ok_bytes)
  obtain L T where P: "ParsePeLayout host (ByteSpan_of_bytes bs pe_format ''the file'') = Inr L"
    and V: "ValidateCertificateTable host (ByteSpan_of_bytes bs pe_format ''the file'') L = Inr T"
    using assms(1) unfolding EmbedBytes_def Let_def by blast
  have lay: "pe_layout bs L" using ParsePeLayout_layout [OF ok P] .
  have tab: "pe_table bs (unat (dd_security_offset L)) T"
    using Validate_table [OF ok layout_order(3) [OF lay len64]] V by blast
  show ?thesis
    using assms(1) lay tab small unfolding EmbedBytes_eq [OF lay tab small]
    by (intro that [of L T]) (auto simp: can_embed_def ThrowMalformed_def simp del: length_certificate split: if_splits)
qed

lemma embedded_facts:
  assumes can: "can_embed bs L T sig"
  defines "ck \<equiv> unat (checksum_offset L)" and "dd \<equiv> unat (dd_security_offset L)" and "kept \<equiv> kept_size bs T"
    and "fin \<equiv> embedded bs L T sig"
  shows "88 \<le> ck" and "ck + 4 \<le> dd" and "dd + 8 \<le> kept" and "kept \<le> length bs"
    and "length fin = kept + pad kept + length (certificate sig)"
    and "off + k \<le> length fin \<Longrightarrow> off + k \<le> ck \<or> ck + 4 \<le> off \<Longrightarrow> off + k \<le> dd \<or> dd + 8 \<le> off \<Longrightarrow>
      segment off k fin = segment off k (take kept bs @ replicate (pad kept) 0 @ certificate sig)"
    and "u32_at fin dd = word_of_nat (kept + pad kept)" and "u32_at fin (dd + 4) = word_of_nat (length (certificate sig))"
proof -
  have lay: "pe_layout bs L" and tab: "pe_table bs dd T" and len64: "length bs < 2 ^ 64"
    using can by (simp_all add: can_embed_def dd_def)
  show order: "88 \<le> ck" "ck + 4 \<le> dd" using layout_order [OF lay len64] by (simp_all add: ck_def dd_def)
  show k: "dd + 8 \<le> kept" "kept \<le> length bs"
    using kept_size_bounds [OF tab] layout_order(3) [OF lay len64] by (simp_all add: dd_def kept_def)
  define base where "base = take kept bs @ replicate (pad kept) 0 @ certificate sig"
  define cs where "cs = store_word Little (checksum_of (embed_data bs dd kept sig) ck)"
  define e1 where "e1 = overwrite dd (store_word Little (word_of_nat (kept + pad kept) :: u32)) base"
  define e where "e = overwrite (dd + 4) (store_word Little (word_of_nat (length (certificate sig)) :: u32)) e1"
  have fin: "fin = overwrite ck cs e"
    by (simp add: fin_def embedded_def Let_def embed_data_def base_def e_def e1_def cs_def ck_def dd_def kept_def)
  have l0: "length base = kept + pad kept + length (certificate sig)" using k by (simp add: base_def)
  have l1: "length e1 = length base" unfolding e1_def using l0 k by simp
  have l: "length e = length base" unfolding e_def using l0 l1 k by simp
  have cl: "length cs = 4" by (simp add: cs_def)
  show len: "length fin = kept + pad kept + length (certificate sig)"
    unfolding fin using l l0 order k by (simp add: cl)
  show "segment off k fin = segment off k (take kept bs @ replicate (pad kept) 0 @ certificate sig)"
    if "off + k \<le> length fin" "off + k \<le> ck \<or> ck + 4 \<le> off" "off + k \<le> dd \<or> dd + 8 \<le> off"
  proof -
    have lb: "off + k \<le> length base" using that(1) len l0 by simp
    have "segment off k fin = segment off k e"
      unfolding fin using lb that(2) l l0 order k by (intro segment_overwrite_other) (auto simp: cl)
    also have "\<dots> = segment off k e1"
      unfolding e_def using lb that(3) l1 l0 k by (intro segment_overwrite_other) auto
    also have "\<dots> = segment off k base"
      unfolding e1_def using lb that(3) l0 k by (intro segment_overwrite_other) auto
    finally show ?thesis by (simp add: base_def)
  qed
  have "segment dd 4 fin = segment dd 4 e"
    unfolding fin using l l0 order k by (intro segment_overwrite_other) (auto simp: cl)
  also have "\<dots> = segment dd 4 e1" unfolding e_def using l1 l0 k by (intro segment_overwrite_other) auto
  also have "\<dots> = store_word Little (word_of_nat (kept + pad kept) :: u32)"
    unfolding e1_def using l0 k by (intro segment_overwrite_same) auto
  finally show "u32_at fin dd = word_of_nat (kept + pad kept)" by (simp only: u32_at_def u32_load_store)
  have "segment (dd + 4) 4 fin = segment (dd + 4) 4 e"
    unfolding fin using l l0 order k by (intro segment_overwrite_other) (auto simp: cl)
  also have "\<dots> = store_word Little (word_of_nat (length (certificate sig)) :: u32)"
    unfolding e_def using l1 l0 k by (intro segment_overwrite_same) auto
  finally show "u32_at fin (dd + 4) = word_of_nat (length (certificate sig))" by (simp only: u32_at_def u32_load_store)
qed

lemma embedded_layout:
  assumes can: "can_embed bs L T sig"
  shows "pe_layout (embedded bs L T sig) L"
proof (rule pe_layout_same)
  show "pe_layout bs L" "length bs < 2 ^ 64" using can by (simp_all add: can_embed_def)
  define fin where "fin = embedded bs L T sig"
  note f = embedded_facts [OF can, folded fin_def]
  have "fin ! i = bs ! i" if i: "i < unat (dd_security_offset L)"
    "i < unat (checksum_offset L) \<or> unat (checksum_offset L) + 4 \<le> i" for i
  proof -
    have "segment i 1 fin = segment i 1 (take (kept_size bs T) bs @ replicate (pad (kept_size bs T)) 0 @ certificate sig)"
      using f(3,5) i by (intro f(6)) auto
    moreover have "segment i 1 (take (kept_size bs T) bs @ zs) ! 0 = bs ! i" for zs
      using f(3,4) i by (subst nth_segment) (simp_all add: nth_append)
    moreover have "segment i 1 fin ! 0 = fin ! i" using f(3,5) i by (subst nth_segment) simp_all
    ultimately show ?thesis by metis
  qed
  then show "same_headers bs (embedded bs L T sig) L"
    using f(3,5) by (simp add: same_headers_def fin_def [symmetric])
qed

lemma segment_skip: "length xs \<le> off \<Longrightarrow> segment off k (xs @ ys) = segment (off - length xs) k ys"
  by (simp add: segment_def)

lemma certificate_fields:
  shows "segment 0 4 (certificate sig) = store_word Little (word_of_nat (8 + length sig) :: u32)"
    and "segment 4 2 (certificate sig) = store_word Little (0x0200 :: u16)"
    and "segment 6 2 (certificate sig) = store_word Little (0x0002 :: u16)"
    and "segment 8 (length sig) (certificate sig) = sig"
  by (simp_all add: certificate_def segment_def)

lemma embedded_certificate:
  assumes can: "can_embed bs L T sig" and "off + k \<le> length (certificate sig)"
  shows "segment (kept_size bs T + pad (kept_size bs T) + off) k (embedded bs L T sig) = segment off k (certificate sig)"
proof -
  define kept where "kept = kept_size bs T"
  note f = embedded_facts [OF can, folded kept_def]
  have "segment (kept + pad kept + off) k (embedded bs L T sig) =
      segment (kept + pad kept + off) k (take kept bs @ replicate (pad kept) 0 @ certificate sig)"
    using assms(2) f(2,3,5) by (intro f(6)) auto
  also have "\<dots> = segment off k (certificate sig)" using f(4) by (simp add: segment_skip)
  finally show ?thesis by (simp add: kept_def)
qed

definition embedded_table :: "bytes \<Rightarrow> CertificateTable \<Rightarrow> bytes \<Rightarrow> CertificateTable" where
  "embedded_table bs T sig =
     \<lparr>present = True, address = word_of_nat (kept_size bs T + pad (kept_size bs T)),
      table_size = word_of_nat (length (certificate sig)), cert_length = word_of_nat (8 + length sig)\<rparr>"

lemma embedded_has_table:
  assumes can: "can_embed bs L T sig"
  shows "pe_table (embedded bs L T sig) (unat (dd_security_offset L)) (embedded_table bs T sig)"
proof -
  define co n dd fin where "co = kept_size bs T + pad (kept_size bs T)" and "n = length (certificate sig)"
    and "dd = unat (dd_security_offset L)" and "fin = embedded bs L T sig"
  note f = embedded_facts [OF can, folded fin_def dd_def co_def n_def]
  have small: "co \<le> 0xFFFFFFFF" "n \<le> 0xFFFFFFFF" using can by (simp_all add: can_embed_def co_def n_def)
  have n: "8 + length sig \<le> n" by (simp add: n_def)
  have ua: "unat (u32_at fin dd) = co" "unat (u32_at fin (dd + 4)) = n"
    using f(7,8) small by (simp_all add: unat_of_nat)
  note cert = embedded_certificate [OF can, folded co_def fin_def n_def]
  have c0: "u32_at fin co = word_of_nat (8 + length sig)"
    using cert [of 0 4] n by (simp only: u32_at_def) (simp add: certificate_fields u32_load_store del: of_nat_add)
  have c4: "u16_at fin (co + 4) = 0x0200" "u16_at fin (co + 6) = 0x0002"
    using cert [of 4 2] cert [of 6 2] n by (simp_all add: u16_at_def certificate_fields u16_load_store)
  have ul: "unat (u32_at fin co) = 8 + length sig" unfolding c0 using n small by (intro unat_of_nat_small) simp
  show ?thesis
    unfolding pe_table_def Let_def fin_def [symmetric] dd_def [symmetric] ua ul c4
    using f(3,5) n by (auto simp: embedded_table_def co_def n_def simp del: length_certificate of_nat_add)
qed

section \<open>Closed forms of the queries\<close>

lemma pe_table_values:
  assumes "pe_table c dd T" and "present T"
  shows "unat (address T) + unat (cert_length T) \<le> length c" and "8 \<le> unat (cert_length T)" and "dd + 8 \<le> unat (address T)"
  using assms by (auto simp: pe_table_def Let_def unat_ucast_u32 split: if_splits)

lemma ExtractBytes_eq:
  assumes lay: "pe_layout c L" and tab: "pe_table c (unat (dd_security_offset L)) T" and len: "length c < 2 ^ 64"
  shows "ExtractBytes host c =
    Inr (if present T then Some (segment (unat (address T) + 8) (unat (cert_length T) - 8) c) else None)"
proof -
  define f where "f = ByteSpan_of_bytes c pe_format ''the file''"
  have ok: "span_ok f c" using len by (simp add: f_def span_ok_bytes)
  have P: "ParsePeLayout host f = Inr L" using layout_ParsePeLayout [OF ok lay] .
  have V: "ValidateCertificateTable host f L = Inr T"
    using Validate_table [OF ok layout_order(3) [OF lay len]] tab by blast
  show ?thesis
  proof (cases "present T")
    case True
    note t = pe_table_values [OF tab True]
    define a l where "a = address T" and "l = cert_length T"
    have l8: "unat (l - 8) = unat l - 8" using t(2) by (simp add: unat_diff_nowrap word_le_nat_alt l_def)
    have s1: "Sub f a l ''WIN_CERTIFICATE'' = Inr (sub_of f a l ''WIN_CERTIFICATE'')"
      using t(1) by (simp add: Sub_eq [OF ok] a_def l_def)
    have ok1: "span_ok (sub_of f a l ''WIN_CERTIFICATE'') (segment (unat a) (unat l) c)"
      using t(1) by (intro sub_of_ok [OF ok]) (simp add: a_def l_def)
    have fits: "unat (8 :: u64) + unat (l - 8) \<le> length (segment (unat a) (unat l) c)"
      unfolding l8 using t by (simp add: a_def l_def)
    have s2: "Sub (sub_of f a l ''WIN_CERTIFICATE'') 8 (l - 8) ''PKCS#7 blob'' =
        Inr (sub_of (sub_of f a l ''WIN_CERTIFICATE'') 8 (l - 8) ''PKCS#7 blob'')"
      using fits by (simp add: Sub_eq [OF ok1])
    have "Data (sub_of (sub_of f a l ''WIN_CERTIFICATE'') 8 (l - 8) ''PKCS#7 blob'') =
        Inr (segment (unat a + 8) (unat l - 8) c)"
      unfolding Data_eq [OF sub_of_ok [OF ok1 fits]] l8 using t(2) by (simp add: segment_segment l_def)
    then show ?thesis
      using True s1 s2 by (simp add: ExtractBytes_def Let_def f_def [symmetric] P V a_def l_def)
  next
    case False
    then show ?thesis by (simp add: ExtractBytes_def Let_def f_def [symmetric] P V)
  qed
qed

lemma hash_range_eq:
  assumes ok: "span_ok f c" and "unat stop \<le> length c"
  shows "hash_range f start stop = Inr (segment (unat start) (unat stop - unat start) c)"
proof (cases "start < stop")
  case True
  then have d: "unat (stop - start) = unat stop - unat start" "unat start < unat stop"
    using unat_diff_nowrap [OF less_imp_le [OF True]] by (simp_all add: word_less_nat_alt)
  then have fits: "unat start + unat (stop - start) \<le> length c" using assms(2) by simp
  show ?thesis
    using True fits Data_eq [OF sub_of_ok [OF ok fits, of "''hashed range''"]]
    by (simp add: hash_range_def Sub_eq [OF ok] d)
next
  case False
  then show ?thesis by (simp add: hash_range_def word_less_nat_alt segment_def)
qed

text \<open>What is hashed: the file without the checksum and the directory entry, up to the certificate table.\<close>

definition hashed :: "bytes \<Rightarrow> PeLayout \<Rightarrow> CertificateTable \<Rightarrow> bytes" where
  "hashed c L T =
     (let ck = unat (checksum_offset L); dd = unat (dd_security_offset L) in
      segment 0 ck c @ segment (ck + 4) (dd - (ck + 4)) c @ segment (dd + 8) (kept_size c T - (dd + 8)) c @
      (if present T then [] else replicate (pad (length c)) 0))"

lemma HashedBytes_eq:
  assumes lay: "pe_layout c L" and tab: "pe_table c (unat (dd_security_offset L)) T" and len: "length c < 2 ^ 64"
    and ok: "span_ok f c"
  shows "HashedBytes f L T = Inr (hashed c L T)"
proof -
  define ck dd where "ck = checksum_offset L" and "dd = dd_security_offset L"
  note order = layout_order [OF lay len, folded ck_def dd_def]
  have n4: "unat (ck + 4) = unat ck + 4" "unat (dd + 8) = unat dd + 8"
    using order len by (simp_all add: unat_add_nowrap)
  have less: "ck < dd" "0 < ck" "ck + 4 < dd" using order n4 by (auto simp: word_less_nat_alt)
  define stop where "stop = (if present T then address T else span_size f)"
  have stop: "unat stop = kept_size c T" by (simp add: stop_def kept_size_def span_ok_length [OF ok])
  note kept = kept_size_bounds [OF tab [folded dd_def] order(3)]
  have sorted: "sort_key fst [(ck, ck + 4), (dd, dd + 8)] = [(ck, ck + 4), (dd, dd + 8)]"
    using less(1) by (simp add: less_imp_le)
  have r1: "hash_range f 0 ck = Inr (segment 0 (unat ck) c)"
    using hash_range_eq [OF ok, of ck 0] order by simp
  have r2: "hash_range f (ck + 4) dd = Inr (segment (unat ck + 4) (unat dd - (unat ck + 4)) c)"
    using hash_range_eq [OF ok, of dd "ck + 4"] order n4 by simp
  have r3: "hash_range f (dd + 8) stop = Inr (segment (unat dd + 8) (kept_size c T - (unat dd + 8)) c)"
    using hash_range_eq [OF ok, of stop "dd + 8"] kept by (simp add: stop n4)
  have p: "unat (padding (span_size f)) = pad (length c)"
    by (simp add: unat_padding span_ok_length [OF ok])
  show ?thesis
    unfolding HashedBytes_def Let_def ck_def [symmetric] dd_def [symmetric] sorted stop_def [symmetric] p
    using less(2,3) by (simp add: hash_step_def r1 r2 r3 hashed_def Let_def ck_def [symmetric] dd_def [symmetric])
qed

lemma DigestBytes_eq:
  assumes lay: "pe_layout c L" and tab: "pe_table c (unat (dd_security_offset L)) T" and len: "length c < 2 ^ 64"
  shows "DigestBytes sha host c = Inr \<lparr>digest = sha (hashed c L T), result_pe32_plus = is_pe32_plus L\<rparr>"
proof -
  define f where "f = ByteSpan_of_bytes c pe_format ''the file''"
  have ok: "span_ok f c" using len by (simp add: f_def span_ok_bytes)
  have P: "ParsePeLayout host f = Inr L" using layout_ParsePeLayout [OF ok lay] .
  have V: "ValidateCertificateTable host f L = Inr T"
    using Validate_table [OF ok layout_order(3) [OF lay len]] tab by blast
  show ?thesis by (simp add: DigestBytes_def Let_def f_def [symmetric] P V HashedBytes_eq [OF lay tab len ok])
qed


section \<open>Stripping\<close>

text \<open>The loop removes exactly the zero bytes above the floor, up to its limit.\<close>

lemma mem_read_byte: "i < length c \<Longrightarrow> mem_read c i 1 = Inr [c ! i]"
  by (simp add: mem_read_def segment_def take_Suc_conv_app_nth)






section \<open>Every failure is the documented rejection\<close>

lemma rejects_ParsePeLayout [rejects_intros]: "good pe_format file \<Longrightarrow> rejects pe_format (ParsePeLayout host file)"
  unfolding ParsePeLayout_def Let_def by (intro rejects_intros) (auto intro: good_Sub)

lemma rejects_Validate [rejects_intros]: "good pe_format file \<Longrightarrow> rejects pe_format (ValidateCertificateTable host file L)"
  unfolding ValidateCertificateTable_def Let_def by (intro rejects_intros) (auto intro: good_Sub)

lemma rejects_FloorSections [rejects_intros]:
  "good pe_format file \<Longrightarrow> rejects pe_format (FloorSections host file start left i floor)"
proof (induction left arbitrary: i floor)
  case (Suc left)
  show ?case unfolding FloorSections.simps Let_def
    by (intro rejects_intros Suc.prems Suc.IH) simp_all
qed (simp add: rejects_Inr)

lemma rejects_StripFloor [rejects_intros]: "good pe_format file \<Longrightarrow> rejects pe_format (StripFloor host file L)"
  unfolding StripFloor_def Let_def by (intro rejects_intros) simp_all

lemma Parse_Validate_cases:
  assumes len: "length bs < 2 ^ 64"
  obtains e where "rejects pe_format (Inl e :: unit res)"
      and "\<And>F. bindE (ParsePeLayout host (ByteSpan_of_bytes bs pe_format ''the file'')) (\<lambda>L.
        bindE (ValidateCertificateTable host (ByteSpan_of_bytes bs pe_format ''the file'') L) (F L)) = Inl e"
    | L T where "pe_layout bs L" and "pe_table bs (unat (dd_security_offset L)) T"
      and "ParsePeLayout host (ByteSpan_of_bytes bs pe_format ''the file'') = Inr L"
      and "ValidateCertificateTable host (ByteSpan_of_bytes bs pe_format ''the file'') L = Inr T"
proof -
  define f where "f = ByteSpan_of_bytes bs pe_format ''the file''"
  have ok: "span_ok f bs" and good: "good pe_format f" using len by (auto simp: f_def span_ok_bytes)
  show ?thesis
  proof (cases "ParsePeLayout host f")
    case (Inl e)
    then show ?thesis
      using rejects_ParsePeLayout [OF good, of host] by (intro that(1) [of e]) (simp_all add: f_def rejects_def)
  next
    case L: (Inr L)
    then have lay: "pe_layout bs L" using ParsePeLayout_layout [OF ok] by blast
    show ?thesis
    proof (cases "ValidateCertificateTable host f L")
      case (Inl e)
      then show ?thesis
        using L rejects_Validate [OF good, of host L] by (intro that(1) [of e]) (simp_all add: f_def rejects_def)
    next
      case (Inr T)
      then show ?thesis
        using L lay Validate_table [OF ok layout_order(3) [OF lay len]] by (intro that(2) [of L T]) (simp_all add: f_def)
    qed
  qed
qed

lemma rejects_change: "rejects fmt (Inl e :: 'a res) \<Longrightarrow> rejects fmt (Inl e :: 'b res)"
  by (simp add: rejects_def)

lemma rejects_EmbedBytes:
  assumes small: "length bs < 2 ^ 62" "length sig < 2 ^ 62"
  shows "rejects pe_format (EmbedBytes host bs sig)"
proof -
  have len: "length bs < 2 ^ 64" using small by simp
  show ?thesis
  proof (rule Parse_Validate_cases [OF len, of host])
    fix e assume "rejects pe_format (Inl e :: unit res)"
      and "\<And>F. bindE (ParsePeLayout host (ByteSpan_of_bytes bs pe_format ''the file'')) (\<lambda>L.
        bindE (ValidateCertificateTable host (ByteSpan_of_bytes bs pe_format ''the file'') L) (F L)) = (Inl e :: bytes res)"
    then show ?thesis by (simp add: EmbedBytes_def Let_def rejects_change)
  next
    fix L T assume "pe_layout bs L" "pe_table bs (unat (dd_security_offset L)) T"
    from EmbedBytes_eq [OF this small, of host] show ?thesis by (auto intro!: rejects_intros)
  qed
qed

lemma rejects_DigestBytes:
  assumes len: "length bs < 2 ^ 64"
  shows "rejects pe_format (DigestBytes sha host bs)"
proof (rule Parse_Validate_cases [OF len, of host])
  fix e assume "rejects pe_format (Inl e :: unit res)"
    and "\<And>F. bindE (ParsePeLayout host (ByteSpan_of_bytes bs pe_format ''the file'')) (\<lambda>L.
      bindE (ValidateCertificateTable host (ByteSpan_of_bytes bs pe_format ''the file'') L) (F L)) = (Inl e :: DigestResult res)"
  then show ?thesis by (simp add: DigestBytes_def Let_def rejects_change)
next
  fix L T assume "pe_layout bs L" "pe_table bs (unat (dd_security_offset L)) T"
  from DigestBytes_eq [OF this len, of sha host] show ?thesis by (simp add: rejects_Inr)
qed

lemma rejects_ExtractBytes:
  assumes len: "length bs < 2 ^ 64"
  shows "rejects pe_format (ExtractBytes host bs)"
proof (rule Parse_Validate_cases [OF len, of host])
  fix e assume "rejects pe_format (Inl e :: unit res)"
    and "\<And>F. bindE (ParsePeLayout host (ByteSpan_of_bytes bs pe_format ''the file'')) (\<lambda>L.
      bindE (ValidateCertificateTable host (ByteSpan_of_bytes bs pe_format ''the file'') L) (F L)) = (Inl e :: bytes option res)"
  then show ?thesis by (simp add: ExtractBytes_def Let_def rejects_change)
next
  fix L T assume "pe_layout bs L" "pe_table bs (unat (dd_security_offset L)) T"
  from ExtractBytes_eq [OF this len, of host] show ?thesis by (simp add: rejects_Inr)
qed

lemma StripPadding_total:
  "unat ns \<le> length c \<Longrightarrow> \<exists>r. StripPadding c floor left ns = Inr r \<and> r \<le> ns"
proof (induction left arbitrary: ns)
  case (Suc left)
  show ?case
  proof (cases "floor < ns")
    case True
    then have n0: "0 < unat ns" by (simp add: word_less_nat_alt)
    then have dec: "unat (ns - 1) = unat ns - 1" by (simp add: unat_diff_nowrap word_le_nat_alt Suc_le_eq)
    then have "ns - 1 \<le> ns" by (simp add: word_le_nat_alt)
    moreover have "unat (ns - 1) \<le> length c" using Suc.prems dec by linarith
    then obtain r where "StripPadding c floor left (ns - 1) = Inr r" "r \<le> ns - 1"
      using Suc.IH by blast
    ultimately show ?thesis
      using True n0 Suc.prems mem_read_byte [of "unat ns - 1" c] order_trans [of r "ns - 1" ns] by simp
  qed simp
qed simp

lemma rejects_StripBytes:
  assumes len: "length bs < 2 ^ 63"
  shows "rejects pe_format (StripBytes host bs)"
proof -
  define f where "f = ByteSpan_of_bytes bs pe_format ''the file''"
  have len64: "length bs < 2 ^ 64" using len by simp
  then have good: "good pe_format f" by (auto simp: f_def)
  let ?M = "\<lambda>d. MutableByteSpan_of_bytes d pe_format ''the file''"
  have tail: "rejects pe_format
      (bindE (Write host (?M d) (dd_security_offset L) (0 :: u32) Little w1) (\<lambda>out.
       bindE (Write host out (dd_security_offset L + 4) (0 :: u32) Little w2) (\<lambda>out.
       bindE (RecalcChecksum host (mdata out) (checksum_offset L)) (\<lambda>bytes. Inr (Some bytes)))))"
    if lay: "pe_layout bs L" and d: "length d \<le> length bs" for L d w1 w2
  proof (cases "unat (dd_security_offset L) + 8 \<le> length d")
    case True
    note order = layout_order [OF lay len64]
    have dd4: "unat (dd_security_offset L + 4) = unat (dd_security_offset L) + 4"
      using order(3) len by (simp add: unat_add_nowrap)
    have "mdata (?M x) = x" for x by (simp add: MutableByteSpan_of_bytes_def)
    then show ?thesis
      using True len d order by (simp add: Write_bytes dd4 RecalcChecksum_eq rejects_Inr)
  next
    case False
    have dd4: "unat (dd_security_offset L + 4) = unat (dd_security_offset L) + 4"
      using layout_order(3) [OF lay len64] len by (simp add: unat_add_nowrap)
    show ?thesis
      using False len d by (simp add: Write_bytes dd4 ThrowMalformed_def rejects_def)
  qed
  show ?thesis
  proof (rule Parse_Validate_cases [OF len64, of host])
    fix e assume "rejects pe_format (Inl e :: unit res)"
      and "\<And>F. bindE (ParsePeLayout host (ByteSpan_of_bytes bs pe_format ''the file'')) (\<lambda>L.
        bindE (ValidateCertificateTable host (ByteSpan_of_bytes bs pe_format ''the file'') L) (F L)) = (Inl e :: bytes option res)"
    then show ?thesis by (simp add: StripBytes_def Let_def rejects_change)
  next
    fix L T assume lay: "pe_layout bs L" and tab: "pe_table bs (unat (dd_security_offset L)) T"
      and P: "ParsePeLayout host (ByteSpan_of_bytes bs pe_format ''the file'') = Inr L"
      and V: "ValidateCertificateTable host (ByteSpan_of_bytes bs pe_format ''the file'') L = Inr T"
    have "present T \<Longrightarrow> unat (address T) \<le> length bs" using pe_table_values [OF tab] by simp
    then have "present T \<Longrightarrow> \<exists>r. StripPadding bs floor 7 (address T) = Inr r" for floor
      using StripPadding_total [of "address T" bs floor 7] by blast
    then have "rejects pe_format (StripPadding bs floor 7 (address T))" if "present T" for floor
      using that by (metis rejects_Inr)
    then show ?thesis
      unfolding StripBytes_def Let_def P V bindE_simps
      by (intro rejects_bind rejects_if rejects_Inr tail [OF lay] rejects_StripFloor good [unfolded f_def]) auto
  qed
qed

section \<open>Properties\<close>

text \<open>A PE32 file of 228 bytes without a signature.\<close>

definition tiny_signable :: bytes where
  "tiny_signable =
     [0x4D, 0x5A] @ replicate 58 0 @ [64, 0, 0, 0] @ [0x50, 0x45, 0, 0] @ replicate 20 0 @
     [0x0B, 1] @ replicate 90 0 @ [16, 0, 0, 0] @ replicate 32 0 @ replicate 8 0 @ [1, 2, 3, 4]"

definition tiny_layout :: PeLayout where
  "tiny_layout =
     \<lparr>pe_header_offset = 64, lay_optional_header_offset = 88, checksum_offset = 152, dd_security_offset = 216,
      is_pe32_plus = False\<rparr>"

definition tiny_table :: CertificateTable where
  "tiny_table = \<lparr>present = False, address = 0, table_size = 0, cert_length = 0\<rparr>"

lemma tiny_values:
  "length tiny_signable = 228" "u16_at tiny_signable 0 = 0x5A4D" "u32_at tiny_signable 60 = 64"
  "u32_at tiny_signable 64 = 0x4550" "u16_at tiny_signable 88 = 0x10B" "u32_at tiny_signable 180 = 16"
  "u32_at tiny_signable 216 = 0" "u32_at tiny_signable 220 = 0"
  by (simp add: tiny_signable_def) (code_simp+)

lemma tiny_can_embed: "length sig \<le> 1000 \<Longrightarrow> can_embed tiny_signable tiny_layout tiny_table sig"
  using pad_less [of "8 + length sig"]
  by (simp add: can_embed_def pe_layout_def pe_table_def Let_def tiny_values tiny_layout_def tiny_table_def dd_delta_def
      kImageDosSignature_def kImageNtSignature_def kImageNtOptionalHdr32Magic_def kept_size_def pad_def)

lemma EmbedBytes_can: "can_embed bs L T sig \<Longrightarrow> EmbedBytes host bs sig = Inr (embedded bs L T sig)"
  using EmbedBytes_eq [of bs L T sig host] by (auto simp: can_embed_def)

lemma length_embedded: "can_embed bs L T sig \<Longrightarrow> length (embedded bs L T sig) < 2 ^ 34"
  using embedded_facts(5) [of bs L T sig] by (simp add: can_embed_def)

lemma pe_layout_unique: "pe_layout c L \<Longrightarrow> pe_layout c L' \<Longrightarrow> length c < 2 ^ 64 \<Longrightarrow> L = L'"
  using layout_ParsePeLayout [OF span_ok_bytes, of c L Little] layout_ParsePeLayout [OF span_ok_bytes, of c L' Little]
  by (metis sum.inject(2))

lemma pe_table_unique: "pe_table c dd T \<Longrightarrow> pe_table c dd T' \<Longrightarrow> T = T'"
  by (auto simp: pe_table_def Let_def split: if_splits)

text \<open>
  C8: a signature that was embedded is extracted again byte for byte, on a machine of either byte order,
  whether or not the file was signed before, and the file is reported as signed.
\<close>

theorem pe_extract_embedded:
  assumes "EmbedBytes host bs sig = Inr bs'" and "length bs < 2 ^ 62" and "length sig < 2 ^ 62"
  shows "ExtractBytes host' bs' = Inr (Some sig) \<and>
    HasEmbeddedSignatureIn host' (ByteSpan_of_bytes bs' pe_format ''the file'') = Inr True"
proof -
  obtain L T where can: "can_embed bs L T sig" and bs': "bs' = embedded bs L T sig"
    using EmbedBytes_Inr [OF assms] by blast
  define T' where "T' = embedded_table bs T sig"
  note lay = embedded_layout [OF can, folded bs'] and tab = embedded_has_table [OF can, folded bs' T'_def]
  have len: "length bs' < 2 ^ 64" using length_embedded [OF can] by (simp add: bs')
  have n: "8 + length sig \<le> length (certificate sig)" by simp
  have vals: "unat (address T') = kept_size bs T + pad (kept_size bs T)" "unat (cert_length T') = 8 + length sig" "present T'"
    using can n unfolding can_embed_def T'_def embedded_table_def
    by (simp_all add: unat_of_nat del: of_nat_add length_certificate)
  have "segment (unat (address T') + 8) (unat (cert_length T') - 8) bs' = sig"
    using embedded_certificate [OF can, of 8 "length sig"] by (simp add: vals bs' certificate_fields)
  then have "ExtractBytes host' bs' = Inr (Some sig)"
    using ExtractBytes_eq [OF lay tab len, of host'] vals(3) by simp
  moreover have "HasEmbeddedSignatureIn host' (ByteSpan_of_bytes bs' pe_format ''the file'') = Inr True"
    using layout_ParsePeLayout [OF span_ok_bytes [OF len] lay, of host'] vals(3) tab
      Validate_table [OF span_ok_bytes [OF len] layout_order(3) [OF lay len], of host'] 
    by (auto simp: HasEmbeddedSignatureIn_def bindE_Inr_iff)
  ultimately show ?thesis by blast
qed

theorem pe_extract_embedded_witness:
  "\<exists>bs'. EmbedBytes Big tiny_signable [0x30, 3, 1, 2, 3] = Inr bs' \<and> ExtractBytes Little bs' = Inr (Some [0x30, 3, 1, 2, 3])"
  using pe_extract_embedded [OF EmbedBytes_can [OF tiny_can_embed], of "[0x30, 3, 1, 2, 3]" Little]
    EmbedBytes_can [OF tiny_can_embed, of "[0x30, 3, 1, 2, 3]" Big] by (simp add: tiny_values)







text \<open>
  C11: whatever the bytes of the file and of the signature, each operation gives its result or the
  documented rejection, a \<open>std::runtime_error\<close> that starts with \<open>PE: \<close>; none reads or writes outside the
  buffer.
\<close>

theorem pe_signer_returns_or_rejects:
  assumes "length bs < 2 ^ 62" and "length sig < 2 ^ 62"
  shows "rejects pe_format (DigestBytes sha host bs) \<and> rejects pe_format (EmbedBytes host bs sig) \<and>
    rejects pe_format (ExtractBytes host bs) \<and> rejects pe_format (StripBytes host bs)"
  using assms by (intro conjI rejects_DigestBytes rejects_EmbedBytes rejects_ExtractBytes rejects_StripBytes) simp_all

theorem pe_signer_returns_or_rejects_witness: "rejects pe_format (StripBytes Little [0x4D, 0x5A])"
  using pe_signer_returns_or_rejects [of "[0x4D, 0x5A]" "[]" id Little] by simp

text \<open>
  C12: recalculating writes, into the four bytes of the field and nowhere else, the one's-complement sum of
  the file's 16-bit little-endian words (a last odd byte counting as a word) taken with the field at zero,
  plus the size of the file.
\<close>

theorem pe_checksum_is_ones_complement_sum:
  assumes "unat off + 4 \<le> length bs" and "length bs < 2 ^ 63"
  shows "RecalcChecksum host bs off =
    Inr (overwrite (unat off)
      (store_word Little (word_of_nat (ones_sum (word_sum (overwrite (unat off) [0, 0, 0, 0] bs)) + length bs) :: u32)) bs)"
  using RecalcChecksum_eq [OF assms] by (simp add: checksum_of_def)

theorem pe_checksum_is_ones_complement_sum_witness:
  "RecalcChecksum Little [1, 2, 9, 9, 9, 9, 0xFF, 0xFF, 7] 2 = Inr [1, 2, 0x11, 2, 0, 0, 0xFF, 0xFF, 7]"
proof -
  have "store_word Little (word_of_nat (ones_sum (word_sum (overwrite 2 [0, 0, 0, 0] [1, 2, 9, 9, 9, 9, 0xFF, 0xFF, 7])) +
      length [1, 2, 9, 9, 9, 9, 0xFF, 0xFF, (7 :: u8)]) :: u32) = [0x11, 2, 0, 0]" by code_simp
  then show ?thesis
    using pe_checksum_is_ones_complement_sum [of 2 "[1, 2, 9, 9, 9, 9, 0xFF, 0xFF, 7]" Little]
    by (simp add: overwrite_def)
qed

text \<open>
  asking whether a file is signed, which reads only the pages it needs, agrees with extracting
  the signature from the whole file.
\<close>

theorem pe_has_signature_iff_extract:
  assumes "paged_ok f bs"
  shows "HasEmbeddedSignatureIn host (ByteSpan_of_file f pe_format ''the file'') = Inr b \<longleftrightarrow>
    (\<exists>r. ExtractBytes host bs = Inr r \<and> b = (r \<noteq> None))"
proof -
  have len: "length bs < 2 ^ 64" using assms by (simp add: paged_ok_def)
  note okf = span_ok_file [OF assms, of pe_format "''the file''"]
  have has: "HasEmbeddedSignatureIn host (ByteSpan_of_file f pe_format ''the file'') = Inr b \<longleftrightarrow>
      (\<exists>L T. pe_layout bs L \<and> pe_table bs (unat (dd_security_offset L)) T \<and> b = present T)"
  proof
    assume "HasEmbeddedSignatureIn host (ByteSpan_of_file f pe_format ''the file'') = Inr b"
    then obtain L T where P: "ParsePeLayout host (ByteSpan_of_file f pe_format ''the file'') = Inr L"
      and V: "ValidateCertificateTable host (ByteSpan_of_file f pe_format ''the file'') L = Inr T" and b: "b = present T"
      by (auto simp: HasEmbeddedSignatureIn_def bindE_Inr_iff)
    note lay = ParsePeLayout_layout [OF okf P]
    from V have "pe_table bs (unat (dd_security_offset L)) T"
      by (simp only: Validate_table [OF okf layout_order(3) [OF lay len]])
    with lay b show "\<exists>L T. pe_layout bs L \<and> pe_table bs (unat (dd_security_offset L)) T \<and> b = present T" by blast
  next
    assume "\<exists>L T. pe_layout bs L \<and> pe_table bs (unat (dd_security_offset L)) T \<and> b = present T"
    then obtain L T where lay: "pe_layout bs L" and "pe_table bs (unat (dd_security_offset L)) T" and "b = present T"
      by blast
    then show "HasEmbeddedSignatureIn host (ByteSpan_of_file f pe_format ''the file'') = Inr b"
      using layout_ParsePeLayout [OF okf lay, of host] Validate_table [OF okf layout_order(3) [OF lay len], of host T]
      by (simp add: HasEmbeddedSignatureIn_def)
  qed
  show ?thesis
  proof (rule Parse_Validate_cases [OF len, of host])
    fix L T assume lt: "pe_layout bs L" "pe_table bs (unat (dd_security_offset L)) T"
    then have "HasEmbeddedSignatureIn host (ByteSpan_of_file f pe_format ''the file'') = Inr b \<longleftrightarrow> b = present T"
      using has pe_layout_unique [OF _ _ len] pe_table_unique by blast
    then show ?thesis using ExtractBytes_eq [OF lt len, of host] by auto
  next
    fix e assume e: "\<And>F. bindE (ParsePeLayout host (ByteSpan_of_bytes bs pe_format ''the file'')) (\<lambda>L.
        bindE (ValidateCertificateTable host (ByteSpan_of_bytes bs pe_format ''the file'') L) (F L)) = (Inl e :: bytes option res)"
    then have none: "ExtractBytes host bs = Inl e" by (simp add: ExtractBytes_def Let_def)
    have "\<not> (pe_layout bs L \<and> pe_table bs (unat (dd_security_offset L)) T)" for L T
      using ExtractBytes_eq [of bs L T host] none len by auto
    then show ?thesis using has none by simp
  qed
qed

theorem pe_has_signature_iff_extract_witness:
  "HasEmbeddedSignatureIn Little (ByteSpan_of_file (sample_paged tiny_signable) pe_format ''the file'') = Inr False"
proof -
  have can: "can_embed tiny_signable tiny_layout tiny_table []" by (rule tiny_can_embed) simp
  then have "ExtractBytes Little tiny_signable = Inr None"
    using ExtractBytes_eq [of tiny_signable tiny_layout tiny_table Little] by (simp add: can_embed_def tiny_table_def)
  then show ?thesis
    using pe_has_signature_iff_extract [OF sample_paged_ok, of tiny_signable Little False] by (simp add: tiny_values)
qed

end
