(* ===== verification/Name_Parser.thy ===== *)
theory Name_Parser
  imports Load_Error
begin

text \<open>
  \<open>src/internal/NameParser.cpp\<close>: splitting a plugin or pak name \<open>library\<close> or
  \<open>org/library\<close> and refusing every other name before any path is built.

  \<open>NameParser_accepts\<close> says exactly which names are accepted and how they are split: the
  accepted names are those made of one or two plain parts. Every refusal is a \<open>LoadError\<close> with
  reason \<open>InvalidName\<close>, and the rule it names is the first one that is broken, in the
  order the code tests them.
\<close>

section \<open>Definitions\<close>

record NameParser =
  org :: string
  library :: string

definition Reject :: "string \<Rightarrow> string \<Rightarrow> string \<Rightarrow> LoadError + 'a" where
  "Reject name kind rule = Inl (LoadError_make InvalidName name [] [] rule kind [])"

definition PartCheck :: "string \<Rightarrow> string \<Rightarrow> string \<Rightarrow> LoadError + unit" where
  "PartCheck part name kind =
     (if part = [] then Reject name kind ''empty part''
      else if part = ''.'' \<or> part = ''..'' then
        Reject name kind (Quoted ''.'' @ '' or '' @ Quoted ''..'' @ '' as a part'')
      else Inr ())"

text \<open>\<open>std::string::find(c, pos)\<close> and \<open>find("//")\<close>.\<close>

fun find_from :: "char \<Rightarrow> nat \<Rightarrow> string \<Rightarrow> nat option" where
  "find_from c pos [] = None"
| "find_from c 0 (x # xs) = (if x = c then Some 0 else map_option Suc (find_from c 0 xs))"
| "find_from c (Suc pos) (x # xs) = map_option Suc (find_from c pos xs)"

fun has_double_slash :: "string \<Rightarrow> bool" where
  "has_double_slash (a # b # xs) = (a = CHR ''/'' \<and> b = CHR ''/'' \<or> has_double_slash (b # xs))"
| "has_double_slash xs = False"

definition slash :: char where "slash = CHR ''/''"
definition backslash :: char where "backslash = CHR 0x5C"
definition colon :: char where "colon = CHR '':''"

definition NameParser_new :: "string \<Rightarrow> string \<Rightarrow> LoadError + NameParser" where
  "NameParser_new name kind =
     (if \<exists>c \<in> set name. control_char c then Reject name kind ''control character''
      else if find_from backslash 0 name \<noteq> None then Reject name kind ''backslash''
      else if find_from colon 0 name \<noteq> None then Reject name kind (Quoted '':'')
      else if length name > 1 \<and> name ! 0 = slash \<and> name ! 1 \<noteq> slash then
        Reject name kind (''leading '' @ Quoted ''/'')
      else case find_from slash 0 name of
        None \<Rightarrow>
          bindE (PartCheck name name kind) (\<lambda>_. Inr \<lparr>org = [], library = name\<rparr>)
      | Some at \<Rightarrow>
          if find_from slash (at + 1) name \<noteq> None then
            (if has_double_slash name then Reject name kind ''empty part''
             else Reject name kind (''more than one '' @ Quoted ''/''))
          else
            bindE (PartCheck (take at name) name kind) (\<lambda>_.
            bindE (PartCheck (drop (at + 1) name) name kind) (\<lambda>_.
            Inr \<lparr>org = take at name, library = drop (at + 1) name\<rparr>)))"

section \<open>Lemmas\<close>

text \<open>A part that names a plain file or folder.\<close>

definition plain_part :: "string \<Rightarrow> bool" where
  "plain_part p \<longleftrightarrow> p \<noteq> [] \<and> p \<noteq> ''.'' \<and> p \<noteq> ''..'' \<and>
     (\<forall>c \<in> set p. \<not> control_char c \<and> c \<noteq> slash \<and> c \<noteq> backslash \<and> c \<noteq> colon)"

lemma find_from_None: "find_from c pos xs = None \<longleftrightarrow> c \<notin> set (drop pos xs)"
  by (induction c pos xs rule: find_from.induct) auto

lemma find_from_Some_0:
  "find_from c 0 xs = Some i \<Longrightarrow> \<exists>a b. xs = a @ c # b \<and> c \<notin> set a \<and> length a = i"
proof (induction xs arbitrary: i)
  case (Cons x xs)
  show ?case
  proof (cases "x = c")
    case True
    then have "x # xs = [] @ c # xs \<and> length ([] :: string) = i" using Cons.prems by simp
    then show ?thesis by (metis empty_iff list.set(1))
  next
    case False
    then obtain j where "i = Suc j" "find_from c 0 xs = Some j" using Cons.prems by auto
    with Cons.IH obtain a b where "xs = a @ c # b" "c \<notin> set a" "length a = j" by blast
    then have "x # xs = (x # a) @ c # b \<and> c \<notin> set (x # a) \<and> length (x # a) = i"
      using False \<open>i = Suc j\<close> by simp
    then show ?thesis by blast
  qed
qed simp

lemma slash_plain: "\<not> control_char slash" "slash \<noteq> backslash" "slash \<noteq> colon"
  by (simp_all add: slash_def backslash_def colon_def control_char_def)

lemma Reject_neq_Inr [simp]: "Reject name kind rule \<noteq> Inr x"
  by (simp add: Reject_def)

lemma PartCheck_Inr: "PartCheck p name kind = Inr u \<longleftrightarrow> p \<noteq> [] \<and> p \<noteq> ''.'' \<and> p \<noteq> ''..''"
  by (simp add: PartCheck_def)

lemma NameParser_accepts:
  "NameParser_new name kind = Inr \<lparr>org = ns, library = lib\<rparr> \<longleftrightarrow>
     ns = [] \<and> lib = name \<and> plain_part name \<or>
     plain_part ns \<and> plain_part lib \<and> name = ns @ slash # lib"
proof -
  define clean where "clean \<longleftrightarrow> (\<forall>c \<in> set name. \<not> control_char c) \<and> backslash \<notin> set name \<and> colon \<notin> set name"
  show ?thesis
  proof (cases "clean \<and> \<not> (length name > 1 \<and> name ! 0 = slash \<and> name ! 1 \<noteq> slash)")
    case False
    then have "NameParser_new name kind \<noteq> Inr x" for x
      by (auto simp: NameParser_new_def find_from_None clean_def)
    moreover have "\<not> plain_part name"
    proof
      assume plain: "plain_part name"
      then have "name ! 0 \<noteq> slash" by (cases name) (simp_all add: plain_part_def)
      moreover have clean using plain by (simp add: clean_def plain_part_def) blast
      ultimately show False using False by blast
    qed
    moreover have "\<not> (plain_part ns \<and> plain_part lib \<and> name = ns @ slash # lib)"
    proof
      assume plain: "plain_part ns \<and> plain_part lib \<and> name = ns @ slash # lib"
      then have "name ! 0 \<noteq> slash" by (cases ns) (auto simp: plain_part_def)
      moreover have clean using plain slash_plain by (auto simp: clean_def plain_part_def)
      ultimately show False using False by blast
    qed
    ultimately show ?thesis by blast
  next
    case True
    then have eq: "NameParser_new name kind = (case find_from slash 0 name of
        None \<Rightarrow> bindE (PartCheck name name kind) (\<lambda>_. Inr \<lparr>org = [], library = name\<rparr>)
      | Some at \<Rightarrow>
          if find_from slash (at + 1) name \<noteq> None then
            (if has_double_slash name then Reject name kind ''empty part''
             else Reject name kind (''more than one '' @ Quoted ''/''))
          else bindE (PartCheck (take at name) name kind) (\<lambda>_.
            bindE (PartCheck (drop (at + 1) name) name kind) (\<lambda>_.
            Inr \<lparr>org = take at name, library = drop (at + 1) name\<rparr>)))"
      by (auto simp: NameParser_new_def find_from_None clean_def)
    show ?thesis
    proof (cases "find_from slash 0 name")
      case None
      then have no: "slash \<notin> set name" by (simp add: find_from_None)
      then have "NameParser_new name kind = Inr \<lparr>org = ns, library = lib\<rparr> \<longleftrightarrow>
          ns = [] \<and> lib = name \<and> plain_part name"
        using True None by (auto simp: eq bindE_Inr_iff PartCheck_Inr plain_part_def clean_def)
      with no show ?thesis by auto
    next
      case (Some at)
      then obtain a b where name: "name = a @ slash # b" and a: "slash \<notin> set a" and at: "at = length a"
        using find_from_Some_0 by metis
      have split: "name = ns @ slash # lib \<and> slash \<notin> set ns \<longleftrightarrow> ns = a \<and> lib = b"
      proof -
        have "takeWhile (\<lambda>c. c \<noteq> slash) (xs @ slash # ys) = xs" if "slash \<notin> set xs" for xs ys :: string
          using that by (subst takeWhile_append2) auto
        from this [OF a, of b] this [of ns lib] show ?thesis using a name by auto
      qed
      have "drop (at + 1) name = b" "take at name = a" by (simp_all add: name at)
      then have "NameParser_new name kind = Inr \<lparr>org = ns, library = lib\<rparr> \<longleftrightarrow>
          slash \<notin> set b \<and> PartCheck a name kind = Inr () \<and> PartCheck b name kind = Inr () \<and> ns = a \<and> lib = b"
        unfolding eq Some by (auto simp: find_from_None bindE_Inr_iff)
      also have "\<dots> \<longleftrightarrow> ns = a \<and> lib = b \<and> plain_part a \<and> plain_part b"
        using True a name by (auto simp: PartCheck_Inr plain_part_def clean_def)
      finally have "NameParser_new name kind = Inr \<lparr>org = ns, library = lib\<rparr> \<longleftrightarrow>
          ns = a \<and> lib = b \<and> plain_part a \<and> plain_part b" .
      moreover have "\<not> plain_part name" by (simp add: plain_part_def name)
      moreover have "plain_part ns \<Longrightarrow> slash \<notin> set ns" by (auto simp: plain_part_def)
      ultimately show ?thesis using split by blast
    qed
  qed
qed

lemma Reject_reason: "Reject name kind rule = Inl e \<Longrightarrow> reason e = InvalidName \<and> err_name e = name \<and> err_locations e = []"
  by (auto simp: Reject_def LoadError_make_def)

lemma NameParser_refuses:
  "NameParser_new name kind = Inl e \<Longrightarrow> reason e = InvalidName \<and> err_name e = name \<and> err_locations e = []"
  by (auto simp: NameParser_new_def bindE_Inl_iff PartCheck_def dest: Reject_reason split: if_splits option.splits)

text \<open>
  C5: a name is accepted exactly when it is one plain part, which is then the library with no
  organisation, or two plain parts joined by one slash, the organisation and the library. A
  plain part is not empty, not \<open>.\<close> or \<open>..\<close>, and has no control character, slash, backslash
  or colon, so that an accepted name cannot leave the folder it is looked up in.
\<close>

theorem name_accepted_iff:
  "NameParser_new name kind = Inr \<lparr>org = ns, library = lib\<rparr> \<longleftrightarrow>
     ns = [] \<and> lib = name \<and> plain_part name \<or>
     plain_part ns \<and> plain_part lib \<and> name = ns @ slash # lib"
  by (rule NameParser_accepts)

lemma Trim_one_line: "newline \<notin> set s \<Longrightarrow> newline \<notin> set (Trim s)"
  using set_Trim [of s] by blast

lemma InvalidName_message:
  assumes "newline \<notin> set kind" and "newline \<notin> set rule"
  shows "newline \<notin> set (Message InvalidName name fil locations rule kind missing)"
  using assms(1) Trim_one_line [OF assms(2)] Escaped_one_line [of name]
  unfolding Message_def Let_def Reason.case
  by (intro Trim_one_line) (simp add: Quoted_def newline_def)

lemma NameParser_rule:
  "NameParser_new name kind = Inl e \<Longrightarrow> \<exists>rule. Reject name kind rule = (Inl e :: LoadError + unit) \<and> newline \<notin> set rule"
  unfolding NameParser_new_def PartCheck_def
  by (auto simp: bindE_Inl_iff Reject_def Quoted_def newline_def split: if_splits option.splits)

text \<open>
  A name that is refused is refused with the reason \<open>InvalidName\<close>, the name as given, no
  location searched, and a message of one line, whatever characters the name holds.
\<close>

theorem name_refusal_is_one_line:
  assumes "NameParser_new name kind = Inl e" and "newline \<notin> set kind"
  shows "reason e = InvalidName \<and> err_name e = name \<and> err_locations e = [] \<and> newline \<notin> set (what_text e)"
  using NameParser_rule [OF assms(1)] NameParser_refuses [OF assms(1)] assms(2)
  by (auto simp: Reject_def LoadError_make_def InvalidName_message)

theorem name_refusal_is_one_line_witness:
  "\<exists>e. NameParser_new [CHR ''a'', newline, CHR ''b''] ''component'' = Inl e \<and> newline \<notin> set (what_text e)"
proof -
  obtain e where e: "NameParser_new [CHR ''a'', newline, CHR ''b''] ''component'' = Inl e"
    by (simp add: NameParser_new_def Reject_def control_char_def newline_def)
  show ?thesis using name_refusal_is_one_line [OF e] e by (simp add: newline_def)
qed

end
