(* ===== verification/File_IO.thy ===== *)
theory File_IO
  imports Load_Error
begin

text \<open>
  \<open>src/internal/FileIO.cpp\<close> and \<open>FileReplaceHooks.hpp\<close> (the POSIX branch): replacing the
  content of a file through a working file. Every system call goes through the table of
  hooks, as in the code; the table and the state of the system (\<open>'w\<close>) are parameters, and
  \<open>posix\<close> states what is relied on of the calls. The state \<open>io\<close> keeps every state the system
  has been in since the function was entered (\<open>history\<close>) and the calls that were made
  (\<open>calls\<close>, which \<open>RecordFileReplaceCall\<close> keeps when recording is on), so that "at any moment" and "in which order"
  are statements about it. A loop that goes on is \<open>Running\<close>: the retry after \<open>EINTR\<close> has no
  bound, so the write loop counts its calls against \<open>fuel\<close>.

  The lemmas show that the target holds its complete old or its complete new content at every
  moment, that no other file is touched, that a failure leaves the target as it was, in which order
  the calls are made, and that the loop ends when the system makes progress.
\<close>

section \<open>Outcomes and actions\<close>

datatype 'a outcome = Done 'a | Raised cpp_error | Running

datatype errno = EINTR | EEXIST | ENOSPC | Errno nat

type_synonym path = "string \<times> string"

record FileReplaceCall =
  call_name :: string
  call_path :: "path option"
  call_value :: nat

text \<open>The object that owns the working file once it exists.\<close>

record WorkingFile =
  wpath :: path
  wfd :: "nat option"
  created :: bool
  committed :: bool

record 'w io =
  world :: 'w
  history :: "'w list"
  calls :: "FileReplaceCall list"
  working :: WorkingFile

type_synonym ('a, 'w) act = "'w io \<Rightarrow> 'a outcome \<times> 'w io"

definition returnA :: "'a \<Rightarrow> ('a, 'w) act" where
  "returnA x s = (Done x, s)"

definition throwA :: "string \<Rightarrow> ('a, 'w) act" where
  "throwA m s = (Raised (runtime_error m), s)"

definition bindA :: "('a, 'w) act \<Rightarrow> ('a \<Rightarrow> ('b, 'w) act) \<Rightarrow> ('b, 'w) act" where
  "bindA m f s = (case m s of
     (Done x, s') \<Rightarrow> f x s' | (Raised e, s') \<Rightarrow> (Raised e, s') | (Running, s') \<Rightarrow> (Running, s'))"

text \<open>A call through the table, noted just before it is made.\<close>

definition note_call :: "string \<Rightarrow> path option \<Rightarrow> nat \<Rightarrow> 'w io \<Rightarrow> 'w io" where
  "note_call name p v s = s\<lparr>calls := calls s @ [\<lparr>call_name = name, call_path = p, call_value = v\<rparr>]\<rparr>"

definition hook_call :: "('w \<Rightarrow> 'r \<times> 'w) \<Rightarrow> ('r, 'w) act" where
  "hook_call h s = (let (r, w) = h (world s) in (Done r, s\<lparr>world := w, history := history s @ [w]\<rparr>))"

definition recorded :: "string \<Rightarrow> path option \<Rightarrow> nat \<Rightarrow> ('w \<Rightarrow> 'r \<times> 'w) \<Rightarrow> ('r, 'w) act" where
  "recorded name p v h s = hook_call h (note_call name p v s)"

section \<open>The table of system calls and the queries\<close>

record 'w FileReplaceHooks =
  open_hook :: "path \<Rightarrow> 'w \<Rightarrow> (errno + nat) \<times> 'w"
  write_hook :: "nat \<Rightarrow> bytes \<Rightarrow> 'w \<Rightarrow> (errno + nat) \<times> 'w"
  fchmod_hook :: "nat \<Rightarrow> nat \<Rightarrow> 'w \<Rightarrow> (errno + unit) \<times> 'w"
  fchown_hook :: "nat \<Rightarrow> nat \<times> nat \<Rightarrow> 'w \<Rightarrow> (errno + unit) \<times> 'w"
  fsync_hook :: "nat \<Rightarrow> 'w \<Rightarrow> (errno + unit) \<times> 'w"
  close_hook :: "nat \<Rightarrow> 'w \<Rightarrow> (errno + unit) \<times> 'w"
  rename_hook :: "path \<Rightarrow> path \<Rightarrow> 'w \<Rightarrow> (errno + unit) \<times> 'w"
  unlink_hook :: "path \<Rightarrow> 'w \<Rightarrow> (errno + unit) \<times> 'w"
  fsync_folder_hook :: "string \<Rightarrow> 'w \<Rightarrow> (errno + unit) \<times> 'w"

datatype file_type = not_found | regular | directory | symlink | other_type

record 'w queries =
  symlink_status :: "string \<Rightarrow> 'w \<Rightarrow> file_type"
  canonical :: "string \<Rightarrow> 'w \<Rightarrow> string + path"
  status :: "path \<Rightarrow> 'w \<Rightarrow> string + file_type"
  stat_of :: "path \<Rightarrow> 'w \<Rightarrow> errno + nat \<times> nat \<times> nat"
  access_file :: "path \<Rightarrow> 'w \<Rightarrow> bool"
  access_folder :: "string \<Rightarrow> 'w \<Rightarrow> bool"
  strerror :: "errno \<Rightarrow> string"
  process_id :: nat

text \<open>
  The process-wide table and record of calls. \<open>FileReplaceHooksScope\<close> installs a table and turns recording on
  when it is constructed, and turns it off and puts the previous table back when it is destroyed.
\<close>

record 'w HookState =
  state_hooks :: "'w FileReplaceHooks"
  recording :: bool
  state_calls :: "FileReplaceCall list"

definition ActiveFileReplaceHooks :: "'w HookState \<Rightarrow> 'w FileReplaceHooks" where
  "ActiveFileReplaceHooks st = state_hooks st"

definition ExchangeFileReplaceHooks :: "'w FileReplaceHooks \<Rightarrow> 'w HookState \<Rightarrow> 'w FileReplaceHooks \<times> 'w HookState" where
  "ExchangeFileReplaceHooks hooks st = (state_hooks st, st\<lparr>state_hooks := hooks\<rparr>)"

definition SetFileReplaceRecording :: "bool \<Rightarrow> 'w HookState \<Rightarrow> 'w HookState" where
  "SetFileReplaceRecording enabled st =
     (let st = st\<lparr>recording := enabled\<rparr> in if enabled then st\<lparr>state_calls := []\<rparr> else st)"

definition RecordFileReplaceCall :: "FileReplaceCall \<Rightarrow> 'w HookState \<Rightarrow> 'w HookState" where
  "RecordFileReplaceCall c st = (if recording st then st\<lparr>state_calls := state_calls st @ [c]\<rparr> else st)"

definition RecordedFileReplaceCalls :: "'w HookState \<Rightarrow> FileReplaceCall list" where
  "RecordedFileReplaceCalls st = state_calls st"

definition ScopeEnter :: "'w FileReplaceHooks \<Rightarrow> 'w HookState \<Rightarrow> 'w FileReplaceHooks \<times> 'w HookState" where
  "ScopeEnter hooks st = (let (previous, st) = ExchangeFileReplaceHooks hooks st in (previous, SetFileReplaceRecording True st))"

definition ScopeInstall :: "'w FileReplaceHooks \<Rightarrow> 'w HookState \<Rightarrow> 'w HookState" where
  "ScopeInstall hooks st = snd (ExchangeFileReplaceHooks hooks st)"

definition ScopeLeave :: "'w FileReplaceHooks \<Rightarrow> 'w HookState \<Rightarrow> 'w HookState" where
  "ScopeLeave previous st = snd (ExchangeFileReplaceHooks previous (SetFileReplaceRecording False st))"

lemma RecordFileReplaceCall_fold:
  "fold RecordFileReplaceCall cs st = (if recording st then st\<lparr>state_calls := state_calls st @ cs\<rparr> else st)"
  by (induction cs arbitrary: st) (simp_all add: RecordFileReplaceCall_def)

definition kMaxNameAttempts :: nat where "kMaxNameAttempts = 100"

definition WorkingName :: "nat \<Rightarrow> path \<Rightarrow> string \<Rightarrow> path" where
  "WorkingName pid target random_suffix =
     (fst target, ''.'' @ snd target @ ''.seedtmp.'' @ dec pid @ ''.'' @ random_suffix)"

definition ResolveTarget :: "'w queries \<Rightarrow> string \<Rightarrow> (path, 'w) act" where
  "ResolveTarget Q file_path s =
     (case canonical Q file_path (world s) of
        Inl message \<Rightarrow>
          if symlink_status Q file_path (world s) = symlink then
            throwA (''Unable to replace '' @ file_path @ '': dangling link, the file it points to does not exist'') s
          else throwA (''Unable to replace '' @ file_path @ '': the file does not exist ('' @ message @ '')'') s
      | Inr resolved \<Rightarrow>
          (case status Q resolved (world s) of
             Inl _ \<Rightarrow> throwA (''Unable to replace '' @ file_path @ '': the file does not exist'') s
           | Inr t \<Rightarrow>
               if t = not_found then throwA (''Unable to replace '' @ file_path @ '': the file does not exist'') s
               else if t = directory then
                 throwA (''Unable to replace '' @ file_path @ '': it is a folder (directory), not a regular file'') s
               else if t \<noteq> regular then
                 throwA (''Unable to replace '' @ file_path @
                   '': not a regular file (special file such as a fifo, pipe or device)'') s
               else returnA resolved s))"

definition Fail :: "'w queries \<Rightarrow> string \<Rightarrow> string \<Rightarrow> errno \<Rightarrow> ('a, 'w) act" where
  "Fail Q what target code = throwA (what @ '' '' @ target @ '': '' @ strerror Q code)"

section \<open>The working file\<close>

definition Opened :: "path \<Rightarrow> nat \<Rightarrow> (unit, 'w) act" where
  "Opened name fd s = (Done (), s\<lparr>working := (working s)\<lparr>wpath := name, wfd := Some fd, created := True\<rparr>\<rparr>)"

definition Commit :: "(unit, 'w) act" where
  "Commit s = (Done (), s\<lparr>working := (working s)\<lparr>committed := True\<rparr>\<rparr>)"

text \<open>\<open>Close\<close> closes the descriptor once; the value is an error when the close itself failed.\<close>

definition Close :: "'w FileReplaceHooks \<Rightarrow> (errno + unit, 'w) act" where
  "Close hooks s =
     (case wfd (working s) of
        None \<Rightarrow> (Done (Inr ()), s)
      | Some fd \<Rightarrow>
          recorded ''close'' None 0 (close_hook hooks fd) (s\<lparr>working := (working s)\<lparr>wfd := None\<rparr>\<rparr>))"

definition Destroy :: "'w FileReplaceHooks \<Rightarrow> (unit, 'w) act" where
  "Destroy hooks =
     bindA (Close hooks) (\<lambda>_ s.
     if created (working s) \<and> \<not> committed (working s)
     then bindA (recorded ''unlink'' (Some (wpath (working s))) 0 (unlink_hook hooks (wpath (working s)))) (\<lambda>_. returnA ()) s
     else returnA () s)"

text \<open>
  The loop that creates the working file; \<open>suffixes i\<close> is the \<open>i\<close>-th value of \<open>RandomSuffix\<close>.
\<close>

fun CreateWorking ::
  "'w queries \<Rightarrow> 'w FileReplaceHooks \<Rightarrow> (nat \<Rightarrow> string) \<Rightarrow> path \<Rightarrow> string \<Rightarrow> nat \<Rightarrow> nat \<Rightarrow> (unit, 'w) act" where
  "CreateWorking Q hooks suffixes target file_path 0 attempt =
     Fail Q ''Unable to create a working file for'' file_path EEXIST"
| "CreateWorking Q hooks suffixes target file_path (Suc left) attempt =
     (let name = WorkingName (process_id Q) target (suffixes attempt) in
      bindA (recorded ''open'' (Some name) 0 (open_hook hooks name)) (\<lambda>r.
      case r of
        Inr fd \<Rightarrow> Opened name fd
      | Inl e \<Rightarrow>
          if e \<noteq> EEXIST then Fail Q ''Unable to create a working file for'' file_path e
          else CreateWorking Q hooks suffixes target file_path left (Suc attempt)))"

section \<open>Writing and replacing\<close>

definition with_fd :: "(nat \<Rightarrow> ('a, 'w) act) \<Rightarrow> ('a, 'w) act" where
  "with_fd f s = (case wfd (working s) of Some fd \<Rightarrow> f fd s | None \<Rightarrow> (Raised memory_fault, s))"

fun WriteAll :: "'w queries \<Rightarrow> 'w FileReplaceHooks \<Rightarrow> string \<Rightarrow> bytes \<Rightarrow> nat \<Rightarrow> nat \<Rightarrow> (unit, 'w) act" where
  "WriteAll Q hooks file_path bs offset 0 =
     (if offset < length bs then (\<lambda>s. (Running, s)) else returnA ())"
| "WriteAll Q hooks file_path bs offset (Suc fuel) =
     (if offset < length bs then
        bindA (with_fd (\<lambda>fd. recorded ''write'' None (length bs - offset) (write_hook hooks fd (drop offset bs)))) (\<lambda>r.
        case r of
          Inl e \<Rightarrow>
            if e = EINTR then WriteAll Q hooks file_path bs offset fuel
            else Fail Q ''Unable to write'' file_path e
        | Inr n \<Rightarrow>
            if n = 0 then Fail Q ''Unable to write'' file_path ENOSPC
            else WriteAll Q hooks file_path bs (offset + n) fuel)
      else returnA ())"

definition mode_bits :: "nat \<Rightarrow> nat" where
  "mode_bits m = m mod 4096"

definition orFail :: "'w queries \<Rightarrow> string \<Rightarrow> string \<Rightarrow> errno + unit \<Rightarrow> (unit, 'w) act" where
  "orFail Q what file_path r = (case r of Inl e \<Rightarrow> Fail Q what file_path e | Inr _ \<Rightarrow> returnA ())"

text \<open>
  The working file gets owner and permission bits and is flushed and closed (a failing \<open>fchown\<close> is
  ignored); then it is moved over the target and the folder is flushed, whose failure is ignored.
\<close>

definition SettleWorking :: "'w queries \<Rightarrow> 'w FileReplaceHooks \<Rightarrow> string \<Rightarrow> nat \<times> nat \<times> nat \<Rightarrow> (unit, 'w) act" where
  "SettleWorking Q hooks file_path info =
     bindA (with_fd (\<lambda>fd. recorded ''fchown'' None 0 (fchown_hook hooks fd (snd info)))) (\<lambda>_.
     bindA (with_fd (\<lambda>fd. recorded ''fchmod'' None (mode_bits (fst info)) (fchmod_hook hooks fd (mode_bits (fst info))))) (\<lambda>r.
     bindA (orFail Q ''Unable to set the permissions (chmod) of the working file for'' file_path r) (\<lambda>_.
     bindA (with_fd (\<lambda>fd. recorded ''fsync'' None 0 (fsync_hook hooks fd))) (\<lambda>r.
     bindA (orFail Q ''Unable to flush (sync)'' file_path r) (\<lambda>_.
     bindA (Close hooks) (\<lambda>r.
     orFail Q ''Unable to flush (close the working file for)'' file_path r))))))"

definition MoveOver :: "'w queries \<Rightarrow> 'w FileReplaceHooks \<Rightarrow> string \<Rightarrow> path \<Rightarrow> (unit, 'w) act" where
  "MoveOver Q hooks file_path target =
     bindA (\<lambda>s. recorded ''rename'' (Some (wpath (working s))) 0 (rename_hook hooks (wpath (working s)) target) s) (\<lambda>r.
     bindA (orFail Q ''Unable to rename the working file over (replace)'' file_path r) (\<lambda>_.
     bindA Commit (\<lambda>_.
     bindA (recorded ''fsync_folder'' (Some (fst target, [])) 0 (fsync_folder_hook hooks (fst target))) (\<lambda>_.
     returnA ()))))"

definition Replace ::
  "'w queries \<Rightarrow> 'w FileReplaceHooks \<Rightarrow> (nat \<Rightarrow> string) \<Rightarrow> nat \<Rightarrow> string \<Rightarrow> path \<Rightarrow> bytes \<Rightarrow> nat \<times> nat \<times> nat \<Rightarrow> (unit, 'w) act" where
  "Replace Q hooks suffixes fuel file_path target bs info =
     bindA (CreateWorking Q hooks suffixes target file_path kMaxNameAttempts 0) (\<lambda>_.
     bindA (WriteAll Q hooks file_path bs 0 fuel) (\<lambda>_.
     bindA (SettleWorking Q hooks file_path info) (\<lambda>_.
     MoveOver Q hooks file_path target)))"

text \<open>The destructor of the working file runs on every exit, but not while the loop is still running.\<close>

definition finally_destroy :: "'w FileReplaceHooks \<Rightarrow> ('a, 'w) act \<Rightarrow> ('a, 'w) act" where
  "finally_destroy hooks body s =
     (case body s of
        (Running, s') \<Rightarrow> (Running, s')
      | (r, s') \<Rightarrow> (r, snd (Destroy hooks s')))"

definition no_working :: WorkingFile where
  "no_working = \<lparr>wpath = ([], []), wfd = None, created = False, committed = False\<rparr>"

definition WriteFileBytes ::
  "'w queries \<Rightarrow> 'w FileReplaceHooks \<Rightarrow> (nat \<Rightarrow> string) \<Rightarrow> nat \<Rightarrow> string \<Rightarrow> bytes \<Rightarrow> (unit, 'w) act" where
  "WriteFileBytes Q hooks suffixes fuel file_path bs =
     bindA (ResolveTarget Q file_path) (\<lambda>target s.
     case stat_of Q target (world s) of
       Inl e \<Rightarrow> Fail Q ''Unable to read the status of'' file_path e s
     | Inr info \<Rightarrow>
         if \<not> access_file Q target (world s) then
           throwA (''Unable to replace '' @ file_path @
             '': the file is read-only (no write permission); make it writable with chmod and try again'') s
         else if \<not> access_folder Q (fst target) (world s) then
           throwA (''Unable to replace '' @ file_path @ '': the folder '' @ fst target @
             '' is read-only (no write permission to the directory)'') s
         else finally_destroy hooks (Replace Q hooks suffixes fuel file_path target bs info) (s\<lparr>working := no_working\<rparr>))"

definition start :: "'w \<Rightarrow> 'w io" where
  "start w = \<lparr>world = w, history = [w], calls = [], working = no_working\<rparr>"

text \<open>Reading a whole file; the open file gives its size and its bytes or fails.\<close>

definition ReadFileBytes ::
  "('w \<Rightarrow> string \<Rightarrow> 'f option) \<Rightarrow> ('f \<Rightarrow> u64 option) \<Rightarrow> ('f \<Rightarrow> u64 \<Rightarrow> u64 \<Rightarrow> bytes res) \<Rightarrow> 'w \<Rightarrow> string \<Rightarrow> bytes res" where
  "ReadFileBytes open_file size_of read_at w file_path =
     (case open_file w file_path of
        None \<Rightarrow> Inl (runtime_error (''Unable to open file: '' @ file_path))
      | Some f \<Rightarrow>
          (case size_of f of
             None \<Rightarrow> Inl (runtime_error (''Unable to read file size: '' @ file_path))
           | Some sz \<Rightarrow>
               if sz > 0 then
                 (case read_at f 0 sz of
                    Inr bs \<Rightarrow> Inr bs
                  | Inl (runtime_error _) \<Rightarrow> Inl (runtime_error (''Unable to read file: '' @ file_path))
                  | Inl e \<Rightarrow> Inl e)
               else Inr []))"

definition call_names :: "'w io \<Rightarrow> string list" where
  "call_names s = map call_name (calls s)"

definition order_ok :: "string list \<Rightarrow> bool" where
  "order_ok names \<longleftrightarrow> (\<exists>n k. names = replicate (Suc n) ''open'' @ replicate k ''write'' @
     [''fchown'', ''fchmod'', ''fsync'', ''close'', ''rename'', ''fsync_folder''])"

lemma bindA_cases:
  assumes "bindA m f s = (r, s')"
  obtains (Done) x s1 where "m s = (Done x, s1)" and "f x s1 = (r, s')"
    | (Raised) e where "m s = (Raised e, s')" and "r = Raised e"
    | (Running) "m s = (Running, s')" and "r = Running"
  using assms by (auto simp: bindA_def split: prod.splits outcome.splits)

text \<open>
  The write loop ends when interruptions do: \<open>rank\<close> bounds the interruptions still to come.
\<close>

definition progressing :: "'w FileReplaceHooks \<Rightarrow> ('w \<Rightarrow> nat) \<Rightarrow> bool" where
  "progressing hooks rank \<longleftrightarrow> (\<forall>fd bs w r w'. write_hook hooks fd bs w = (r, w') \<longrightarrow>
     rank w' \<le> rank w \<and> (r = Inl EINTR \<longrightarrow> rank w' < rank w))"

lemma progressing_le: "progressing hooks rank \<Longrightarrow> write_hook hooks fd bs w = (r, w') \<Longrightarrow> rank w' \<le> rank w"
  and progressing_less: "progressing hooks rank \<Longrightarrow> write_hook hooks fd bs w = (Inl EINTR, w') \<Longrightarrow> rank w' < rank w"
  by (auto simp: progressing_def)

lemma WriteAll_ends:
  assumes "progressing hooks rank" and "length bs - offset + rank (world s) \<le> fuel"
  shows "fst (WriteAll Q hooks file_path bs offset fuel s) \<noteq> Running"
  using assms(2)
proof (induction fuel arbitrary: offset s)
  case 0
  then show ?case by (simp add: returnA_def)
next
  case (Suc fuel)
  show ?case
  proof (cases "wfd (working s)")
    case None
    then show ?thesis by (simp add: bindA_def with_fd_def returnA_def)
  next
    case (Some fd)
    obtain r w where h: "write_hook hooks fd (drop offset bs) (world s) = (r, w)"
      by (cases "write_hook hooks fd (drop offset bs) (world s)")
    have le: "rank w \<le> rank (world s)" and less: "r = Inl EINTR \<Longrightarrow> rank w < rank (world s)"
      using progressing_le [OF assms(1) h] progressing_less [OF assms(1)] h by auto
    show ?thesis
    proof (cases "offset < length bs")
      case True
      have again: "fst (WriteAll Q hooks file_path bs (offset + n) fuel (s\<lparr>calls := cs, world := w, history := hs\<rparr>)) \<noteq> Running"
        if "0 < n \<or> r = Inl EINTR" for n cs hs
      proof (rule Suc.IH)
        have "length bs - (offset + n) + rank w < length bs - offset + rank (world s)"
          using that le less True by auto
        then show "length bs - (offset + n) + rank (world (s\<lparr>calls := cs, world := w, history := hs\<rparr>)) \<le> fuel"
          using Suc.prems by simp
      qed
      show ?thesis
        using True h Some again [of 0] again
        by (auto simp: bindA_def with_fd_def recorded_def hook_call_def note_call_def Fail_def throwA_def
            split: sum.splits)
    qed (simp add: returnA_def)
  qed
qed

section \<open>What is relied on of the system calls\<close>

text \<open>
  \<open>tree w\<close> maps a path to the content and permission bits of the file there, \<open>fds w\<close> a descriptor to the
  path it was opened at. The assumptions are those of the manual pages: an exclusive \<open>open\<close> creates a
  new empty file or changes nothing; \<open>write\<close> appends a prefix of the data, and after an error the
  content of that one file is unspecified; \<open>rename\<close> replaces the target in one step or changes nothing;
  the other calls change at most the one file they name.
\<close>

locale posix =
  fixes hooks :: "'w FileReplaceHooks" and tree :: "'w \<Rightarrow> path \<Rightarrow> (bytes \<times> nat) option"
    and fds :: "'w \<Rightarrow> nat \<Rightarrow> path option"
  assumes open_ok: "open_hook hooks p w = (Inr fd, w') \<Longrightarrow>
      tree w p = None \<and> tree w' = (tree w)(p \<mapsto> ([], 0)) \<and> fds w' = (fds w)(fd \<mapsto> p)"
    and open_fails: "open_hook hooks p w = (Inl e, w') \<Longrightarrow> tree w' = tree w \<and> fds w' = fds w"
    and write_ok: "write_hook hooks fd bs w = (Inr n, w') \<Longrightarrow> fds w fd = Some p \<Longrightarrow> tree w p = Some (c, m) \<Longrightarrow>
      n \<le> length bs \<and> tree w' = (tree w)(p \<mapsto> (c @ take n bs, m)) \<and> fds w' = fds w"
    and write_interrupted: "write_hook hooks fd bs w = (Inl EINTR, w') \<Longrightarrow> fds w fd = Some p \<Longrightarrow> tree w p = Some (c, m) \<Longrightarrow>
      tree w' = tree w \<and> fds w' = fds w"
    and write_fails: "write_hook hooks fd bs w = (Inl e, w') \<Longrightarrow> fds w fd = Some p \<Longrightarrow> tree w p = Some (c, m) \<Longrightarrow>
      (\<exists>c'. tree w' = (tree w)(p \<mapsto> (c', m))) \<and> fds w' = fds w"
    and fchown: "fchown_hook hooks fd ids w = (r, w') \<Longrightarrow> fds w fd = Some p \<Longrightarrow> tree w p = Some (c, m) \<Longrightarrow>
      (\<exists>m'. tree w' = (tree w)(p \<mapsto> (c, m'))) \<and> fds w' = fds w"
    and fchmod_ok: "fchmod_hook hooks fd md w = (Inr (), w') \<Longrightarrow> fds w fd = Some p \<Longrightarrow> tree w p = Some (c, m) \<Longrightarrow>
      tree w' = (tree w)(p \<mapsto> (c, md)) \<and> fds w' = fds w"
    and fchmod_fails: "fchmod_hook hooks fd md w = (Inl e, w') \<Longrightarrow> tree w' = tree w \<and> fds w' = fds w"
    and fsync: "fsync_hook hooks fd w = (r, w') \<Longrightarrow> tree w' = tree w \<and> fds w' = fds w"
    and close: "close_hook hooks fd w = (r, w') \<Longrightarrow> tree w' = tree w"
    and rename_ok: "rename_hook hooks p q w = (Inr (), w') \<Longrightarrow> tree w p = Some i \<Longrightarrow> p \<noteq> q \<Longrightarrow>
      tree w' = (tree w)(p := None, q \<mapsto> i)"
    and rename_fails: "rename_hook hooks p q w = (Inl e, w') \<Longrightarrow> tree w' = tree w"
    and unlink_ok: "unlink_hook hooks p w = (Inr (), w') \<Longrightarrow> tree w' = (tree w)(p := None)"
    and unlink_fails: "unlink_hook hooks p w = (Inl e, w') \<Longrightarrow> tree w' = tree w"
    and fsync_folder: "fsync_folder_hook hooks d w = (r, w') \<Longrightarrow> tree w' = tree w"
begin

text \<open>The states of the function, relative to the tree \<open>t0\<close> it found.\<close>

definition quiet :: "(path \<Rightarrow> (bytes \<times> nat) option) \<Rightarrow> 'w io \<Rightarrow> bool" where
  "quiet t0 s \<longleftrightarrow> (\<forall>w \<in> set (history s). \<forall>q \<in> dom t0. tree w q = t0 q)"

definition untouched :: "(path \<Rightarrow> (bytes \<times> nat) option) \<Rightarrow> 'w io \<Rightarrow> bool" where
  "untouched t0 s \<longleftrightarrow> quiet t0 s \<and> tree (world s) = t0 \<and> working s = no_working"

definition filling :: "(path \<Rightarrow> (bytes \<times> nat) option) \<Rightarrow> bytes \<Rightarrow> nat \<Rightarrow> 'w io \<Rightarrow> bool" where
  "filling t0 c m s \<longleftrightarrow> quiet t0 s \<and> (\<exists>p fd. p \<notin> dom t0 \<and> tree (world s) = t0(p \<mapsto> (c, m)) \<and> fds (world s) fd = Some p \<and>
     working s = \<lparr>wpath = p, wfd = Some fd, created = True, committed = False\<rparr>)"

definition filled :: "(path \<Rightarrow> (bytes \<times> nat) option) \<Rightarrow> bytes \<Rightarrow> nat \<Rightarrow> 'w io \<Rightarrow> bool" where
  "filled t0 c m s \<longleftrightarrow> quiet t0 s \<and> (\<exists>p. p \<notin> dom t0 \<and> tree (world s) = t0(p \<mapsto> (c, m)) \<and>
     working s = \<lparr>wpath = p, wfd = None, created = True, committed = False\<rparr>)"

lemma recorded_eq:
  "recorded n p v h s = (Done (fst (h (world s))), s\<lparr>world := snd (h (world s)), history := history s @ [snd (h (world s))],
     calls := calls s @ [\<lparr>call_name = n, call_path = p, call_value = v\<rparr>]\<rparr>)"
  by (simp add: recorded_def hook_call_def note_call_def split_beta)

lemma quiet_step:
  "quiet t0 s \<Longrightarrow> \<forall>q \<in> dom t0. tree w q = t0 q \<Longrightarrow> quiet t0 (s\<lparr>world := w, history := history s @ [w], calls := cs\<rparr>)"
  by (auto simp: quiet_def)

lemma fillingI:
  "quiet t0 s \<Longrightarrow> p \<notin> dom t0 \<Longrightarrow> tree (world s) = t0(p \<mapsto> (c, m)) \<Longrightarrow> fds (world s) fd = Some p \<Longrightarrow>
   working s = \<lparr>wpath = p, wfd = Some fd, created = True, committed = False\<rparr> \<Longrightarrow> filling t0 c m s"
  unfolding filling_def by blast

lemma filling_step:
  assumes "filling t0 c m s" and "\<And>p fd. fds (world s) fd = Some p \<Longrightarrow> tree (world s) p = Some (c, m) \<Longrightarrow>
      wfd (working s) = Some fd \<Longrightarrow> tree w = (tree (world s))(p \<mapsto> (c', m')) \<and> fds w = fds (world s)"
  shows "filling t0 c' m' (s\<lparr>world := w, history := history s @ [w], calls := cs\<rparr>)"
proof -
  from assms(1) obtain p fd where s: "quiet t0 s" "p \<notin> dom t0" "tree (world s) = t0(p \<mapsto> (c, m))" "fds (world s) fd = Some p"
    "working s = \<lparr>wpath = p, wfd = Some fd, created = True, committed = False\<rparr>" by (auto simp: filling_def)
  have w: "tree w = t0(p \<mapsto> (c', m'))" "fds w fd = Some p" using assms(2) [of fd p] s by simp_all
  then have "\<forall>q \<in> dom t0. tree w q = t0 q" using s(2) by auto
  with quiet_step [OF s(1) this] s w show ?thesis by (intro fillingI [of _ _ p _ _ fd]) simp_all
qed

lemma CreateWorking_cases:
  assumes "untouched t0 s" and "CreateWorking Q hooks suffixes target file_path left k s = (r, s')"
  shows "(r = Done () \<and> filling t0 [] 0 s' \<and> (\<exists>n. call_names s' = call_names s @ replicate (Suc n) ''open'')) \<or>
    (\<exists>e. r = Raised e) \<and> untouched t0 s'"
  using assms
proof (induction left arbitrary: s k)
  case 0
  then show ?case by (auto simp: Fail_def throwA_def)
next
  case (Suc left)
  define name where "name = WorkingName (process_id Q) target (suffixes k)"
  obtain x w where ow: "open_hook hooks name (world s) = (x, w)" by (cases "open_hook hooks name (world s)")
  define s1 where "s1 = s\<lparr>world := w, history := history s @ [w], calls := calls s @ [\<lparr>call_name = ''open'', call_path = Some name, call_value = 0\<rparr>]\<rparr>"
  have step: "recorded ''open'' (Some name) 0 (open_hook hooks name) s = (Done x, s1)"
    by (simp add: recorded_eq ow s1_def)
  have u: "quiet t0 s" "tree (world s) = t0" "working s = no_working" using Suc.prems(1) by (auto simp: untouched_def)
  have names: "call_names s1 = call_names s @ [''open'']" by (simp add: call_names_def s1_def)
  show ?case
  proof (cases x)
    case (Inr fd)
    note o = open_ok [OF ow [unfolded Inr]]
    have "quiet t0 s1" unfolding s1_def using u o by (intro quiet_step) (auto simp: dom_def)
    then have "filling t0 [] 0 (s1\<lparr>working := (working s1)\<lparr>wpath := name, wfd := Some fd, created := True\<rparr>\<rparr>)"
      using u o by (intro fillingI [of _ _ name _ _ fd]) (simp_all add: quiet_def s1_def no_working_def dom_def)
    then show ?thesis
      using Suc.prems(2) step names
      by (auto simp: bindA_def Let_def name_def [symmetric] Inr Opened_def call_names_def intro: exI [of _ 0])
  next
    case (Inl e)
    note o = open_fails [OF ow [unfolded Inl]]
    have q: "untouched t0 s1" unfolding untouched_def s1_def using u o quiet_step [OF u(1), of w] by auto
    show ?thesis
    proof (cases "e = EEXIST")
      case True
      then have rest: "CreateWorking Q hooks suffixes target file_path left (Suc k) s1 = (r, s')"
        using Suc.prems(2) step by (simp add: bindA_def Let_def name_def [symmetric] Inl)
      have "\<exists>n. xs @ replicate (Suc n) a = (ys @ [a]) @ replicate (Suc m) a" if "xs = ys" for xs ys :: "string list" and m a
        using that by (intro exI [of _ "Suc m"]) (simp add: replicate_append_same [symmetric])
      with Suc.IH [OF q rest] names show ?thesis by (metis append_assoc)
    next
      case False
      then show ?thesis
        using Suc.prems(2) step q by (auto simp: bindA_def Let_def name_def [symmetric] Inl Fail_def throwA_def)
    qed
  qed
qed

lemma with_fd_filling:
  assumes "filling t0 c m s" and "with_fd (\<lambda>fd. recorded n None v (h fd)) s = (x, s')"
  obtains fd p r w where "x = Done r" and "h fd (world s) = (r, w)" and "wfd (working s) = Some fd"
    and "fds (world s) fd = Some p" and "tree (world s) p = Some (c, m)"
    and "s' = s\<lparr>world := w, history := history s @ [w], calls := calls s @ [\<lparr>call_name = n, call_path = None, call_value = v\<rparr>]\<rparr>"
proof -
  from assms(1) obtain p fd where "tree (world s) = t0(p \<mapsto> (c, m))" "fds (world s) fd = Some p"
    "working s = \<lparr>wpath = p, wfd = Some fd, created = True, committed = False\<rparr>" by (auto simp: filling_def)
  then show ?thesis
    using assms(2) by (intro that [of "fst (h fd (world s))" fd "snd (h fd (world s))" p])
      (simp_all add: with_fd_def recorded_eq)
qed

lemma WriteAll_cases:
  assumes "filling t0 (take offset bs) m s" and "offset \<le> length bs"
    and "WriteAll Q hooks file_path bs offset fuel s = (r, s')"
  shows "(r = Done () \<and> filling t0 bs m s' \<and> (\<exists>n. call_names s' = call_names s @ replicate n ''write'')) \<or>
    ((\<exists>e. r = Raised e) \<or> r = Running) \<and> (\<exists>c. filling t0 c m s')"
  using assms
proof (induction fuel arbitrary: offset s)
  case 0
  then show ?case by (cases "offset < length bs") (auto simp: returnA_def intro: exI [of _ 0])
next
  case (Suc fuel)
  show ?case
  proof (cases "offset < length bs")
    case False
    then show ?thesis using Suc.prems by (auto simp: returnA_def intro: exI [of _ 0])
  next
    case True
    define act where "act = with_fd (\<lambda>fd. recorded ''write'' None (length bs - offset) (write_hook hooks fd (drop offset bs)))"
    obtain x s1 where a: "act s = (x, s1)" by (cases "act s")
    obtain fd p r1 w where x: "x = Done r1" and h: "write_hook hooks fd (drop offset bs) (world s) = (r1, w)"
      and fd: "wfd (working s) = Some fd" and p: "fds (world s) fd = Some p" "tree (world s) p = Some (take offset bs, m)"
      and s1: "s1 = s\<lparr>world := w, history := history s @ [w],
        calls := calls s @ [\<lparr>call_name = ''write'', call_path = None, call_value = length bs - offset\<rparr>]\<rparr>"
      by (rule with_fd_filling [OF Suc.prems(1) a [unfolded act_def]])
    have run: "WriteAll Q hooks file_path bs offset (Suc fuel) s = (case r1 of
        Inl e \<Rightarrow> if e = EINTR then WriteAll Q hooks file_path bs offset fuel s1 else Fail Q ''Unable to write'' file_path e s1
      | Inr n \<Rightarrow> if n = 0 then Fail Q ''Unable to write'' file_path ENOSPC s1
               else WriteAll Q hooks file_path bs (offset + n) fuel s1)"
      using True a x by (simp add: bindA_def act_def split: sum.splits)
    have names: "call_names s1 = call_names s @ [''write'']" by (simp add: call_names_def s1)
    have more: "\<exists>n. ys @ replicate n ''write'' = (xs @ [''write'']) @ replicate k ''write''" if "ys = xs" for xs ys :: "string list" and k
      using that by (intro exI [of _ "Suc k"]) simp
    have step: "filling t0 c' m s1" if "tree w = (tree (world s))(p \<mapsto> (c', m))" "fds w = fds (world s)" for c'
      unfolding s1
    proof (rule filling_step [OF Suc.prems(1)])
      fix p' fd' assume "fds (world s) fd' = Some p'" and "wfd (working s) = Some fd'"
      then have "p' = p" using p fd by simp
      with that show "tree w = (tree (world s))(p' \<mapsto> (c', m)) \<and> fds w = fds (world s)" by simp
    qed
    show ?thesis
    proof (cases r1)
      case (Inl e)
      show ?thesis
      proof (cases "e = EINTR")
        case True
        have "tree w = (tree (world s))(p \<mapsto> (take offset bs, m))" "fds w = fds (world s)"
          using write_interrupted [OF h [unfolded Inl True] p] p(2) by auto
        have "WriteAll Q hooks file_path bs offset fuel s1 = (r, s')" using Suc.prems(3) run Inl True by simp
        from Suc.IH [OF step [OF \<open>tree w = _\<close> \<open>fds w = _\<close>] Suc.prems(2) this] names more [OF refl]
        show ?thesis by metis
      next
        case False
        obtain c' where "tree w = (tree (world s))(p \<mapsto> (c', m))" "fds w = fds (world s)"
          using write_fails [OF h [unfolded Inl] p] by blast
        from step [OF this] Suc.prems(3) run Inl False show ?thesis by (auto simp: Fail_def throwA_def)
      qed
    next
      case (Inr n)
      note o = write_ok [OF h [unfolded Inr] p]
      have c': "take offset bs @ take n (drop offset bs) = take (offset + n) bs" by (simp add: take_add)
      have f1: "filling t0 (take (offset + n) bs) m s1" using o by (intro step) (simp_all add: c')
      show ?thesis
      proof (cases "n = 0")
        case True
        with f1 Suc.prems(3) run Inr show ?thesis by (auto simp: Fail_def throwA_def)
      next
        case False
        have "offset + n \<le> length bs" using o True by auto
        moreover have "WriteAll Q hooks file_path bs (offset + n) fuel s1 = (r, s')" using Suc.prems(3) run Inr False by simp
        ultimately show ?thesis using Suc.IH [OF f1] names more [OF refl] by metis
      qed
    qed
  qed
qed

text \<open>The old or the complete new content at every moment, and no other file touched.\<close>

definition atomic :: "(path \<Rightarrow> (bytes \<times> nat) option) \<Rightarrow> path \<Rightarrow> bytes \<times> nat \<Rightarrow> 'w io \<Rightarrow> bool" where
  "atomic t0 target i s \<longleftrightarrow> (\<forall>w \<in> set (history s).
     (tree w target = t0 target \<or> tree w target = Some i) \<and> (\<forall>q \<in> dom t0 - {target}. tree w q = t0 q))"

definition moved :: "(path \<Rightarrow> (bytes \<times> nat) option) \<Rightarrow> path \<Rightarrow> bytes \<times> nat \<Rightarrow> 'w io \<Rightarrow> bool" where
  "moved t0 target i s \<longleftrightarrow> atomic t0 target i s \<and> tree (world s) = t0(target \<mapsto> i) \<and>
     wfd (working s) = None \<and> committed (working s)"

lemma quiet_atomic: "quiet t0 s \<Longrightarrow> target \<in> dom t0 \<Longrightarrow> atomic t0 target i s"
  by (auto simp: quiet_def atomic_def)

definition unfinished :: "(path \<Rightarrow> (bytes \<times> nat) option) \<Rightarrow> 'w io \<Rightarrow> bool" where
  "unfinished t0 s \<longleftrightarrow> untouched t0 s \<or> (\<exists>c m. filling t0 c m s) \<or> (\<exists>c m. filled t0 c m s)"

text \<open>The steps on an open working file that change it only.\<close>

lemma Close_filling:
  assumes "filling t0 c m s"
  obtains r s1 where "Close hooks s = (Done r, s1)" and "filled t0 c m s1" and "call_names s1 = call_names s @ [''close'']"
proof -
  from assms obtain p fd where s: "quiet t0 s" "p \<notin> dom t0" "tree (world s) = t0(p \<mapsto> (c, m))"
    "working s = \<lparr>wpath = p, wfd = Some fd, created = True, committed = False\<rparr>" by (auto simp: filling_def)
  obtain r w where h: "close_hook hooks fd (world s) = (r, w)" by (cases "close_hook hooks fd (world s)")
  have t: "tree w = t0(p \<mapsto> (c, m))" using close [OF h] s by simp
  then have "\<forall>q \<in> dom t0. tree w q = t0 q" using s(2) by auto
  then have q: "quiet t0 (s\<lparr>working := wk, world := w, history := history s @ [w], calls := cs\<rparr>)" for cs wk
    using s(1) by (auto simp: quiet_def)
  show ?thesis
  proof (rule that [of r])
    show "Close hooks s = (Done r, s\<lparr>working := (working s)\<lparr>wfd := None\<rparr>, world := w, history := history s @ [w],
        calls := calls s @ [\<lparr>call_name = ''close'', call_path = None, call_value = 0\<rparr>]\<rparr>)"
      by (simp add: Close_def s(4) recorded_eq h)
    show "filled t0 c m (s\<lparr>working := (working s)\<lparr>wfd := None\<rparr>, world := w, history := history s @ [w],
        calls := calls s @ [\<lparr>call_name = ''close'', call_path = None, call_value = 0\<rparr>]\<rparr>)"
      unfolding filled_def using q t s by (intro conjI exI [of _ p]) simp_all
  qed (simp add: call_names_def)
qed

lemma fchown_filling:
  assumes "filling t0 c m s"
  obtains r s1 m' where "with_fd (\<lambda>fd. recorded ''fchown'' None 0 (fchown_hook hooks fd ids)) s = (Done r, s1)"
    and "filling t0 c m' s1" and "call_names s1 = call_names s @ [''fchown'']"
proof -
  obtain x s1 where a: "with_fd (\<lambda>fd. recorded ''fchown'' None 0 (fchown_hook hooks fd ids)) s = (x, s1)" by fastforce
  from with_fd_filling [OF assms a] obtain fd p r w where x: "x = Done r" and h: "fchown_hook hooks fd ids (world s) = (r, w)"
    and p: "fds (world s) fd = Some p" "tree (world s) p = Some (c, m)" "wfd (working s) = Some fd"
    and s1: "s1 = s\<lparr>world := w, history := history s @ [w], calls := calls s @ [\<lparr>call_name = ''fchown'', call_path = None, call_value = 0\<rparr>]\<rparr>"
    by metis
  obtain m' where t: "tree w = (tree (world s))(p \<mapsto> (c, m'))" "fds w = fds (world s)" using fchown [OF h p(1,2)] by blast
  have "filling t0 c m' s1" unfolding s1
    by (rule filling_step [OF assms]) (use p t in auto)
  then show ?thesis using that a x s1 by (auto simp: call_names_def)
qed

lemma fchmod_filling:
  assumes "filling t0 c m s"
  obtains r s1 where "with_fd (\<lambda>fd. recorded ''fchmod'' None md (fchmod_hook hooks fd md)) s = (Done r, s1)"
    and "r = Inr () \<Longrightarrow> filling t0 c md s1" and "\<exists>m'. filling t0 c m' s1" and "call_names s1 = call_names s @ [''fchmod'']"
proof -
  obtain x s1 where a: "with_fd (\<lambda>fd. recorded ''fchmod'' None md (fchmod_hook hooks fd md)) s = (x, s1)" by fastforce
  from with_fd_filling [OF assms a] obtain fd p r w where x: "x = Done r" and h: "fchmod_hook hooks fd md (world s) = (r, w)"
    and p: "fds (world s) fd = Some p" "tree (world s) p = Some (c, m)" "wfd (working s) = Some fd"
    and s1: "s1 = s\<lparr>world := w, history := history s @ [w], calls := calls s @ [\<lparr>call_name = ''fchmod'', call_path = None, call_value = md\<rparr>]\<rparr>"
    by metis
  have names: "call_names s1 = call_names s @ [''fchmod'']" by (simp add: s1 call_names_def)
  show ?thesis
  proof (cases r)
    case (Inl e)
    note t = fchmod_fails [OF h [unfolded Inl]]
    have "filling t0 c m s1" unfolding s1
      by (rule filling_step [OF assms]) (use p t in auto)
    then show ?thesis using that [of r s1] a x Inl names by auto
  next
    case (Inr u)
    have "fchmod_hook hooks fd md (world s) = (Inr (), w)" using h Inr by simp
    note t = fchmod_ok [OF this p(1,2)]
    have "filling t0 c md s1" unfolding s1
      by (rule filling_step [OF assms]) (use p t in auto)
    then show ?thesis using that [of r s1] a x Inr names by auto
  qed
qed

lemma fsync_filling:
  assumes "filling t0 c m s"
  obtains r s1 where "with_fd (\<lambda>fd. recorded ''fsync'' None 0 (fsync_hook hooks fd)) s = (Done r, s1)"
    and "filling t0 c m s1" and "call_names s1 = call_names s @ [''fsync'']"
proof -
  obtain x s1 where a: "with_fd (\<lambda>fd. recorded ''fsync'' None 0 (fsync_hook hooks fd)) s = (x, s1)" by fastforce
  from with_fd_filling [OF assms a] obtain fd p r w where x: "x = Done r" and h: "fsync_hook hooks fd (world s) = (r, w)"
    and p: "fds (world s) fd = Some p" "tree (world s) p = Some (c, m)" "wfd (working s) = Some fd"
    and s1: "s1 = s\<lparr>world := w, history := history s @ [w], calls := calls s @ [\<lparr>call_name = ''fsync'', call_path = None, call_value = 0\<rparr>]\<rparr>"
    by metis
  note t = fsync [OF h]
  have "filling t0 c m s1" unfolding s1
    by (rule filling_step [OF assms]) (use p t in auto)
  then show ?thesis using that a x s1 by (auto simp: call_names_def)
qed

lemma rename_filled:
  assumes "filled t0 c m s" and "target \<in> dom t0"
  obtains r s1 where "(\<lambda>s. recorded ''rename'' (Some (wpath (working s))) 0 (rename_hook hooks (wpath (working s)) target) s) s = (Done r, s1)"
    and "r = Inr () \<Longrightarrow> atomic t0 target (c, m) s1 \<and> tree (world s1) = t0(target \<mapsto> (c, m)) \<and> wfd (working s1) = None"
    and "r \<noteq> Inr () \<Longrightarrow> filled t0 c m s1" and "call_names s1 = call_names s @ [''rename'']"
proof -
  from assms(1) obtain p where s: "quiet t0 s" "p \<notin> dom t0" "tree (world s) = t0(p \<mapsto> (c, m))"
    "working s = \<lparr>wpath = p, wfd = None, created = True, committed = False\<rparr>" by (auto simp: filled_def)
  obtain r w where h: "rename_hook hooks p target (world s) = (r, w)" by (cases "rename_hook hooks p target (world s)")
  define s1 where "s1 = s\<lparr>world := w, history := history s @ [w],
    calls := calls s @ [\<lparr>call_name = ''rename'', call_path = Some p, call_value = 0\<rparr>]\<rparr>"
  have run: "(\<lambda>s. recorded ''rename'' (Some (wpath (working s))) 0 (rename_hook hooks (wpath (working s)) target) s) s = (Done r, s1)"
    by (simp add: s(4) recorded_eq h s1_def)
  show ?thesis
  proof (rule that [OF run])
    assume "r = Inr ()"
    moreover have "p \<noteq> target" using s(2) assms(2) by auto
    ultimately have t: "tree w = (t0(p \<mapsto> (c, m)))(p := None, target \<mapsto> (c, m))"
      using rename_ok [of p target "world s" w "(c, m)"] h s(3) by simp
    also have "(t0(p \<mapsto> (c, m)))(p := None) = t0" using s(2) by (auto simp: domIff)
    finally show "atomic t0 target (c, m) s1 \<and> tree (world s1) = t0(target \<mapsto> (c, m)) \<and> wfd (working s1) = None"
      using s(1,4) assms(2) by (auto simp: atomic_def quiet_def s1_def)
  next
    assume "r \<noteq> Inr ()"
    then obtain e where e: "r = Inl e" by (cases r) auto
    have t: "tree w = t0(p \<mapsto> (c, m))" using rename_fails [OF h [unfolded e]] s(3) by simp
    then have "quiet t0 s1" using s(1,2) by (auto simp: quiet_def s1_def)
    with t s show "filled t0 c m s1" unfolding filled_def by (intro conjI exI [of _ p]) (simp_all add: s1_def)
  qed (simp add: call_names_def s1_def)
qed

lemma orFail_cases:
  assumes "orFail Q what file_path r s = (x, s')"
  shows "s' = s" and "x = Done () \<longleftrightarrow> r = Inr ()" and "x \<noteq> Running"
  using assms by (auto simp: orFail_def Fail_def throwA_def returnA_def split: sum.splits)

lemma MoveOver_cases:
  assumes f: "filled t0 bs m s" and target: "target \<in> dom t0"
    and run: "MoveOver Q hooks file_path target s = (r, s')"
  shows "(r = Done () \<and> moved t0 target (bs, m) s' \<and> call_names s' = call_names s @ [''rename'', ''fsync_folder'']) \<or>
    (\<exists>e. r = Raised e) \<and> filled t0 bs m s'"
proof -
  obtain x s1 where ren: "(\<lambda>s. recorded ''rename'' (Some (wpath (working s))) 0 (rename_hook hooks (wpath (working s)) target) s) s = (Done x, s1)"
    and ok: "x = Inr () \<Longrightarrow> atomic t0 target (bs, m) s1 \<and> tree (world s1) = t0(target \<mapsto> (bs, m)) \<and> wfd (working s1) = None"
    and bad: "x \<noteq> Inr () \<Longrightarrow> filled t0 bs m s1" and n1: "call_names s1 = call_names s @ [''rename'']"
    using rename_filled [OF f target] by metis
  show ?thesis
  proof (cases x)
    case (Inl e)
    then show ?thesis using run ren bad by (auto simp: MoveOver_def bindA_def orFail_def Fail_def throwA_def)
  next
    case (Inr u)
    obtain y w where h: "fsync_folder_hook hooks (fst target) (world s1) = (y, w)"
      by (cases "fsync_folder_hook hooks (fst target) (world s1)")
    have t: "tree w = tree (world s1)" using fsync_folder [OF h] .
    define s2 where "s2 = s1\<lparr>working := (working s1)\<lparr>committed := True\<rparr>, world := w, history := history s1 @ [w],
      calls := calls s1 @ [\<lparr>call_name = ''fsync_folder'', call_path = Some (fst target, []), call_value = 0\<rparr>]\<rparr>"
    have s': "r = Done ()" "s' = s2"
      using run ren Inr by (simp_all add: MoveOver_def bindA_def orFail_def returnA_def Commit_def recorded_eq h s2_def)
    have new: "tree w target = Some (bs, m)" "\<forall>q \<in> dom t0 - {target}. tree w q = t0 q" using ok Inr by (simp_all add: t)
    have "atomic t0 target (bs, m) s1" using ok Inr by simp
    then have "atomic t0 target (bs, m) s2" using new unfolding atomic_def s2_def by simp
    then have "moved t0 target (bs, m) s2" using ok Inr by (simp add: moved_def s2_def t)
    then show ?thesis using s' n1 by (simp add: s2_def call_names_def)
  qed
qed

lemma SettleWorking_cases:
  assumes f: "filling t0 bs m0 s" and run: "SettleWorking Q hooks file_path info s = (r, s')"
  shows "(r = Done () \<and> filled t0 bs (mode_bits (fst info)) s' \<and>
      call_names s' = call_names s @ [''fchown'', ''fchmod'', ''fsync'', ''close'']) \<or>
    (\<exists>e. r = Raised e) \<and> unfinished t0 s'"
proof -
  obtain r1 s1 m1 where st1: "with_fd (\<lambda>fd. recorded ''fchown'' None 0 (fchown_hook hooks fd (snd info))) s = (Done r1, s1)"
    and f1: "filling t0 bs m1 s1" and n1: "call_names s1 = call_names s @ [''fchown'']" using fchown_filling [OF f] by metis
  obtain r2 s2 where st2: "with_fd (\<lambda>fd. recorded ''fchmod'' None (mode_bits (fst info)) (fchmod_hook hooks fd (mode_bits (fst info)))) s1 = (Done r2, s2)"
    and f2: "r2 = Inr () \<Longrightarrow> filling t0 bs (mode_bits (fst info)) s2" "\<exists>m'. filling t0 bs m' s2" and n2: "call_names s2 = call_names s1 @ [''fchmod'']"
    using fchmod_filling [OF f1] by metis
  show ?thesis
  proof (cases "r2 = Inr ()")
    case False
    then obtain e where "r2 = Inl e" by (cases r2) auto
    then show ?thesis
      using run st1 st2 f2(2) by (auto simp: SettleWorking_def bindA_def orFail_def Fail_def throwA_def unfinished_def)
  next
    case r2: True
    obtain r3 s3 where st3: "with_fd (\<lambda>fd. recorded ''fsync'' None 0 (fsync_hook hooks fd)) s2 = (Done r3, s3)"
      and f3: "filling t0 bs (mode_bits (fst info)) s3" and n3: "call_names s3 = call_names s2 @ [''fsync'']" using fsync_filling [OF f2(1) [OF r2]] by metis
    show ?thesis
    proof (cases r3)
      case (Inl e)
      then show ?thesis
        using run st1 st2 st3 r2 f3 by (auto simp: SettleWorking_def bindA_def orFail_def Fail_def throwA_def returnA_def unfinished_def)
    next
      case r3: (Inr u)
      obtain r4 s4 where st4: "Close hooks s3 = (Done r4, s4)" and f4: "filled t0 bs (mode_bits (fst info)) s4"
        and n4: "call_names s4 = call_names s3 @ [''close'']" using Close_filling [OF f3] by metis
      show ?thesis
      proof (cases r4)
        case (Inl e)
        then show ?thesis
          using run st1 st2 st3 st4 r2 r3 f4 by (auto simp: SettleWorking_def bindA_def orFail_def Fail_def throwA_def returnA_def unfinished_def)
      next
        case (Inr v)
        then have "r = Done ()" "s' = s4"
          using run st1 st2 st3 st4 r2 r3 by (simp_all add: SettleWorking_def bindA_def orFail_def returnA_def)
        then show ?thesis using f4 n1 n2 n3 n4 by auto
      qed
    qed
  qed
qed

lemma Replace_cases:
  assumes u: "untouched t0 s" and target: "target \<in> dom t0" and none: "calls s = []"
    and run: "Replace Q hooks suffixes fuel file_path target bs info s = (r, s')"
  shows "(r = Done () \<and> moved t0 target (bs, mode_bits (fst info)) s' \<and> order_ok (call_names s')) \<or>
    ((\<exists>e. r = Raised e) \<or> r = Running) \<and> unfinished t0 s'"
  using run unfolding Replace_def
proof (cases rule: bindA_cases)
  case c: (Done x s1)
  from CreateWorking_cases [OF u c(1)] have f1: "filling t0 (take 0 bs) 0 s1"
    and n1: "\<exists>n. call_names s1 = replicate (Suc n) ''open''" using none by (auto simp: call_names_def)
  show ?thesis using c(2)
  proof (cases rule: bindA_cases)
    case w: (Done y s2)
    from WriteAll_cases [OF f1 le0 w(1)] have f2: "filling t0 bs 0 s2"
      and n2: "\<exists>k. call_names s2 = call_names s1 @ replicate k ''write''" by auto
    show ?thesis using w(2)
    proof (cases rule: bindA_cases)
      case st: (Done z s3)
      from SettleWorking_cases [OF f2 st(1)] have f3: "filled t0 bs (mode_bits (fst info)) s3"
        and n3: "call_names s3 = call_names s2 @ [''fchown'', ''fchmod'', ''fsync'', ''close'']" by auto
      obtain n k where "call_names s2 = replicate (Suc n) ''open'' @ replicate k ''write''" using n1 n2 by auto
      then have "order_ok (call_names s3 @ [''rename'', ''fsync_folder''])"
        unfolding order_ok_def by (intro exI [of _ n] exI [of _ k]) (simp add: n3)
      with MoveOver_cases [OF f3 target st(2)] show ?thesis unfolding unfinished_def by auto
    qed (auto dest!: SettleWorking_cases [OF f2])
  qed (auto simp: unfinished_def dest!: WriteAll_cases [OF f1 le0])
qed (auto simp: unfinished_def dest!: CreateWorking_cases [OF u])

text \<open>What the destructor leaves: the tree it found, or the working file when \<open>unlink\<close> fails.\<close>

lemma quiet_snoc:
  assumes "quiet t0 s" and "\<forall>q \<in> dom t0. tree w q = t0 q" and "history s' = history s @ [w]"
  shows "quiet t0 s'"
  unfolding quiet_def assms(3) using assms(1,2) by (simp add: quiet_def)

lemma Close_keeps:
  assumes run: "Close hooks s = (r, s')" and q: "quiet t0 s" "\<forall>q \<in> dom t0. tree (world s) q = t0 q"
  shows "quiet t0 s'" and "tree (world s') = tree (world s)" and "working s' = (working s)\<lparr>wfd := None\<rparr>"
proof -
  have t: "tree (snd (close_hook hooks fd (world s))) = tree (world s)" for fd
    using close [of fd "world s"] by (cases "close_hook hooks fd (world s)") simp
  show t': "tree (world s') = tree (world s)" and "working s' = (working s)\<lparr>wfd := None\<rparr>"
    using run t by (auto simp: Close_def recorded_eq split: option.splits)
  show "quiet t0 s'"
  proof (cases "wfd (working s)")
    case None
    then show ?thesis using run q(1) by (simp add: Close_def)
  next
    case (Some fd)
    then have "history s' = history s @ [world s']" using run by (auto simp: Close_def recorded_eq)
    then show ?thesis using quiet_snoc [OF q(1)] q(2) t' by metis
  qed
qed

lemma Destroy_unfinished:
  assumes u: "unfinished t0 s" and run: "Destroy hooks s = (r, s')"
  shows "quiet t0 s'" and "\<forall>q \<in> dom t0. tree (world s') q = t0 q"
    and "(\<And>p w e. fst (unlink_hook hooks p w) \<noteq> Inl e) \<Longrightarrow> tree (world s') = t0"
proof -
  obtain r1 s1 where c: "Close hooks s = (Done r1, s1)"
    by (cases "wfd (working s)") (auto simp: Close_def recorded_eq)
  from u consider (clean) "untouched t0 s"
    | (left) p c m where "quiet t0 s" "p \<notin> dom t0" "tree (world s) = t0(p \<mapsto> (c, m))"
      "wpath (working s) = p" "created (working s)" "\<not> committed (working s)"
    unfolding unfinished_def filling_def filled_def by fastforce
  then have "quiet t0 s' \<and> (\<forall>q \<in> dom t0. tree (world s') q = t0 q) \<and>
    ((\<forall>p w e. fst (unlink_hook hooks p w) \<noteq> Inl e) \<longrightarrow> tree (world s') = t0)"
  proof cases
    case clean
    then have "s' = s" using run
      by (simp add: Destroy_def untouched_def no_working_def bindA_def Close_def returnA_def)
    then show ?thesis using clean by (auto simp: untouched_def)
  next
    case left
    have "\<forall>q \<in> dom t0. tree (world s) q = t0 q" using left by auto
    note k = Close_keeps [OF c left(1) this]
    obtain x w where h: "unlink_hook hooks p (world s1) = (x, w)" by (cases "unlink_hook hooks p (world s1)")
    have s': "world s' = w" "history s' = history s1 @ [w]"
      using run c k(3) left(4-6) h by (auto simp: Destroy_def bindA_def recorded_eq returnA_def)
    have t: "tree w = (if x = Inr () then t0 else t0(p \<mapsto> (c, m)))"
    proof (cases x)
      case (Inl e)
      then show ?thesis using unlink_fails [of p "world s1" e w] h k(2) left(3) by simp
    next
      case (Inr u)
      have "(t0(p \<mapsto> (c, m)))(p := None) = t0" using left(2) by (auto simp: domIff)
      then show ?thesis using unlink_ok [of p "world s1" w] h k(2) left(3) Inr by simp
    qed
    then have "\<forall>q \<in> dom t0. tree w q = t0 q" using left(2) by auto
    moreover have "\<exists>e. x = Inl e" if "x \<noteq> Inr ()" using that by (cases x) auto
    ultimately show ?thesis using quiet_snoc [OF k(1) _ s'(2)] s'(1) t h by (metis fst_conv)
  qed
  then show "quiet t0 s'" and "\<forall>q \<in> dom t0. tree (world s') q = t0 q"
    and "(\<And>p w e. fst (unlink_hook hooks p w) \<noteq> Inl e) \<Longrightarrow> tree (world s') = t0" by blast+
qed

lemma Destroy_moved:
  assumes "moved t0 target i s" shows "Destroy hooks s = (Done (), s)"
  using assms by (simp add: Destroy_def moved_def bindA_def Close_def returnA_def)

text \<open>The whole function.\<close>

definition unchanged :: "(path \<Rightarrow> (bytes \<times> nat) option) \<Rightarrow> 'w io \<Rightarrow> bool" where
  "unchanged t0 s \<longleftrightarrow> quiet t0 s \<and> (\<forall>q \<in> dom t0. tree (world s) q = t0 q) \<and>
     ((\<forall>p w e. fst (unlink_hook hooks p w) \<noteq> Inl e) \<longrightarrow> tree (world s) = t0)"

lemma untouched_start: "untouched (tree w0) (start w0)"
  by (simp add: untouched_def start_def quiet_def)

lemma unchanged_start: "unchanged (tree w0) (start w0)"
  by (simp add: unchanged_def start_def quiet_def)

lemma unfinished_quiet: "unfinished t0 s \<Longrightarrow> quiet t0 s"
  by (auto simp: unfinished_def untouched_def filling_def filled_def)

lemma Replace_destroyed:
  assumes target: "target \<in> dom (tree w0)"
    and run: "finally_destroy hooks (Replace Q hooks suffixes fuel file_path target bs info) (start w0) = (r, s')"
  shows "(r = Done () \<and> moved (tree w0) target (bs, mode_bits (fst info)) s' \<and> order_ok (call_names s')) \<or>
    ((\<exists>e. r = Raised e) \<and> unchanged (tree w0) s') \<or> (r = Running \<and> quiet (tree w0) s')"
proof -
  obtain x s1 where body: "Replace Q hooks suffixes fuel file_path target bs info (start w0) = (x, s1)" by fastforce
  have none: "calls (start w0) = []" by (simp add: start_def)
  from Replace_cases [OF untouched_start target none body] consider
      (ok) "x = Done ()" "moved (tree w0) target (bs, mode_bits (fst info)) s1" "order_ok (call_names s1)"
    | (failed) e where "x = Raised e" "unfinished (tree w0) s1" | (running) "x = Running" "unfinished (tree w0) s1"
    by blast
  then show ?thesis
  proof cases
    case ok
    then show ?thesis using run body by (simp add: finally_destroy_def Destroy_moved)
  next
    case failed
    obtain y s2 where d: "Destroy hooks s1 = (y, s2)" by fastforce
    have "unchanged (tree w0) s2" using Destroy_unfinished [OF failed(2) d] unfolding unchanged_def by blast
    then show ?thesis using run body failed(1) d by (auto simp: finally_destroy_def)
  next
    case running
    then show ?thesis using run body unfinished_quiet by (simp add: finally_destroy_def)
  qed
qed

lemma WriteFileBytes_cases:
  assumes target: "canonical Q file_path w0 = Inr target" "target \<in> dom (tree w0)"
    and run: "WriteFileBytes Q hooks suffixes fuel file_path bs (start w0) = (r, s')"
  obtains (ok) info where "r = Done ()" and "stat_of Q target w0 = Inr info"
      and "moved (tree w0) target (bs, mode_bits (fst info)) s'" and "order_ok (call_names s')"
    | (failed) e where "r = Raised e" and "unchanged (tree w0) s'"
    | (running) "r = Running" and "quiet (tree w0) s'"
  using run unfolding WriteFileBytes_def
proof (cases rule: bindA_cases)
  case (Done t s1)
  have w: "world (start w0) = w0" by (simp add: start_def)
  have t: "t = target" "s1 = start w0"
    using Done(1) target(1) by (auto simp: ResolveTarget_def throwA_def returnA_def w split: sum.splits if_splits)
  have again: "(start w0)\<lparr>working := no_working\<rparr> = start w0" by (simp add: start_def)
  show ?thesis
  proof (cases "\<exists>info. stat_of Q target w0 = Inr info \<and> access_file Q target w0 \<and> access_folder Q (fst target) w0")
    case True
    then obtain info where i: "stat_of Q target w0 = Inr info" "access_file Q target w0" "access_folder Q (fst target) w0"
      by blast
    have "finally_destroy hooks (Replace Q hooks suffixes fuel file_path target bs info) (start w0) = (r, s')"
      using Done(2) i by (simp add: t w again)
    from Replace_destroyed [OF target(2) this] show ?thesis using ok failed running i(1) by blast
  next
    case False
    then have "(\<exists>e. r = Raised e) \<and> s' = start w0"
      using Done(2) by (auto simp: t w Fail_def throwA_def split: sum.splits if_splits)
    then show ?thesis using failed unchanged_start by blast
  qed
next
  case (Raised e)
  then have "s' = start w0"
    by (auto simp: ResolveTarget_def throwA_def returnA_def split: sum.splits if_splits)
  then show ?thesis using failed Raised unchanged_start by blast
next
  case Running
  then show ?thesis by (auto simp: ResolveTarget_def throwA_def returnA_def split: sum.splits if_splits)
qed

lemma WriteFileBytes_atomic:
  assumes target: "canonical Q file_path w0 = Inr target" "tree w0 target = Some old" "stat_of Q target w0 = Inr info"
    and run: "WriteFileBytes Q hooks suffixes fuel file_path bs (start w0) = (r, s')"
  shows "atomic (tree w0) target (bs, mode_bits (fst info)) s'"
proof -
  have d: "target \<in> dom (tree w0)" using target(2) by blast
  from target(1) d run show ?thesis
  proof (cases rule: WriteFileBytes_cases)
    case ok
    then show ?thesis using target(3) by (simp add: moved_def)
  qed (use d in \<open>auto simp: unchanged_def intro: quiet_atomic\<close>)
qed

end

section \<open>The function returns\<close>

lemma bindA_ends:
  "fst (m s) \<noteq> Running \<Longrightarrow> (\<And>x s'. fst (f x s') \<noteq> Running) \<Longrightarrow> fst (bindA m f s) \<noteq> Running"
  by (auto simp: bindA_def split: prod.splits outcome.splits)

lemma calls_end:
  "fst (recorded n p v h s) \<noteq> Running" "fst (with_fd (\<lambda>fd. recorded n p v (h2 fd)) s) \<noteq> Running"
  "fst (orFail Q what file_path e s) \<noteq> Running" "fst (Commit s) \<noteq> Running" "fst (Close hooks s) \<noteq> Running"
  "fst (returnA x s) \<noteq> Running" "fst (Fail Q what file_path c s) \<noteq> Running"
  by (auto simp: recorded_def hook_call_def split_beta with_fd_def orFail_def Fail_def throwA_def returnA_def Commit_def
      Close_def split: option.splits sum.splits)

lemma CreateWorking_ends: "fst (CreateWorking Q hooks suffixes t file_path k n s) \<noteq> Running"
proof (induction k arbitrary: n s)
  case (Suc k)
  show ?case unfolding CreateWorking.simps Let_def
    by (rule bindA_ends [OF calls_end(1)]) (auto simp: Opened_def calls_end Suc.IH split: sum.splits)
qed (simp add: calls_end)

lemma SettleWorking_ends: "fst (SettleWorking Q hooks file_path info s) \<noteq> Running"
  unfolding SettleWorking_def by (intro bindA_ends calls_end)

lemma MoveOver_ends: "fst (MoveOver Q hooks file_path t s) \<noteq> Running"
  unfolding MoveOver_def by (intro bindA_ends calls_end)

lemma ResolveTarget_ends: "fst (ResolveTarget Q file_path s) \<noteq> Running"
  by (auto simp: ResolveTarget_def throwA_def returnA_def split: sum.splits)

lemma Replace_ends:
  assumes "progressing hooks rank"
  shows "\<exists>fuel. fst (Replace Q hooks suffixes fuel file_path t bs info s) \<noteq> Running"
proof (cases "CreateWorking Q hooks suffixes t file_path kMaxNameAttempts 0 s")
  case (Pair x s1)
  let ?fuel = "length bs + rank (world s1)"
  have "fst (WriteAll Q hooks file_path bs 0 ?fuel s1) \<noteq> Running"
    by (rule WriteAll_ends [OF assms]) simp
  then have "fst (bindA (WriteAll Q hooks file_path bs 0 ?fuel)
    (\<lambda>_. bindA (SettleWorking Q hooks file_path info) (\<lambda>_. MoveOver Q hooks file_path t)) s1) \<noteq> Running"
    by (intro bindA_ends SettleWorking_ends MoveOver_ends)
  then show ?thesis
    using Pair CreateWorking_ends [of Q hooks suffixes t file_path kMaxNameAttempts 0 s]
    unfolding Replace_def bindA_def [of "CreateWorking _ _ _ _ _ _ _"]
    by (intro exI [of _ ?fuel]) (auto split: outcome.splits)
qed

lemma finally_destroy_ends: "fst (body s) \<noteq> Running \<Longrightarrow> fst (finally_destroy hooks body s) \<noteq> Running"
  by (cases "body s"; cases "fst (body s)") (auto simp: finally_destroy_def)

lemma WriteFileBytes_ends:
  assumes "progressing hooks rank"
  shows "\<exists>fuel. fst (WriteFileBytes Q hooks suffixes fuel file_path bs s) \<noteq> Running"
proof (cases "ResolveTarget Q file_path s")
  case (Pair x s1)
  show ?thesis
  proof (cases x)
    case (Done t)
    show ?thesis
    proof (cases "stat_of Q t (world s1)")
      case (Inl e)
      then show ?thesis using Pair Done by (simp add: WriteFileBytes_def bindA_def calls_end)
    next
      case (Inr info)
      obtain fuel where "fst (Replace Q hooks suffixes fuel file_path t bs info (s1\<lparr>working := no_working\<rparr>)) \<noteq> Running"
        using Replace_ends [OF assms] by blast
      note ends = finally_destroy_ends [where body = "Replace Q hooks suffixes fuel file_path t bs info", OF this]
      show ?thesis using Pair Done Inr ends
        by (intro exI [of _ fuel]) (simp add: WriteFileBytes_def bindA_def throwA_def)
    qed
  qed (use Pair ResolveTarget_ends [of Q file_path s] in \<open>simp_all add: WriteFileBytes_def bindA_def\<close>)
qed

section \<open>A disk\<close>

text \<open>
  A system that keeps its files in memory: \<open>open\<close> is exclusive, \<open>write\<close> takes at most two bytes a
  call and is interrupted as often as \<open>interruptions\<close> says, and the calls named in \<open>broken\<close> fail.
\<close>

record disk =
  files :: "path \<Rightarrow> (bytes \<times> nat) option"
  descriptors :: "nat \<Rightarrow> path option"
  next_fd :: nat
  interruptions :: nat

definition EIO :: errno where "EIO = Errno 5"

definition unless_broken :: "string list \<Rightarrow> string \<Rightarrow> (disk \<Rightarrow> (errno + unit) \<times> disk) \<Rightarrow> disk \<Rightarrow> (errno + unit) \<times> disk" where
  "unless_broken broken n f d = (if n \<in> set broken then (Inl EIO, d) else f d)"

definition disk_hooks :: "string list \<Rightarrow> disk FileReplaceHooks" where
  "disk_hooks broken = \<lparr>
     open_hook = \<lambda>p d. case files d p of
         Some _ \<Rightarrow> (Inl EEXIST, d)
       | None \<Rightarrow> (Inr (next_fd d), d\<lparr>files := (files d)(p \<mapsto> ([], 0)), descriptors := (descriptors d)(next_fd d \<mapsto> p),
           next_fd := Suc (next_fd d)\<rparr>),
     write_hook = \<lambda>fd bs d. if 0 < interruptions d then (Inl EINTR, d\<lparr>interruptions := interruptions d - 1\<rparr>)
       else if ''write'' \<in> set broken then (Inl ENOSPC, d)
       else (case descriptors d fd of None \<Rightarrow> (Inl EIO, d) | Some p \<Rightarrow> (case files d p of None \<Rightarrow> (Inl EIO, d)
         | Some (c, m) \<Rightarrow> (Inr (min 2 (length bs)), d\<lparr>files := (files d)(p \<mapsto> (c @ take (min 2 (length bs)) bs, m))\<rparr>))),
     fchmod_hook = \<lambda>fd md. unless_broken broken ''fchmod'' (\<lambda>d. case descriptors d fd of None \<Rightarrow> (Inl EIO, d)
       | Some p \<Rightarrow> (case files d p of None \<Rightarrow> (Inl EIO, d) | Some (c, m) \<Rightarrow> (Inr (), d\<lparr>files := (files d)(p \<mapsto> (c, md))\<rparr>))),
     fchown_hook = \<lambda>fd ids d. (Inr (), d),
     fsync_hook = \<lambda>fd. unless_broken broken ''fsync'' (\<lambda>d. (Inr (), d)),
     close_hook = \<lambda>fd. unless_broken broken ''close'' (\<lambda>d. (Inr (), d\<lparr>descriptors := (descriptors d)(fd := None)\<rparr>)),
     rename_hook = \<lambda>p q. unless_broken broken ''rename'' (\<lambda>d. case files d p of None \<Rightarrow> (Inl EIO, d)
       | Some i \<Rightarrow> (Inr (), if p = q then d else d\<lparr>files := (files d)(p := None, q \<mapsto> i)\<rparr>)),
     unlink_hook = \<lambda>p. unless_broken broken ''unlink'' (\<lambda>d. (Inr (), d\<lparr>files := (files d)(p := None)\<rparr>)),
     fsync_folder_hook = \<lambda>p. unless_broken broken ''fsync_folder'' (\<lambda>d. (Inr (), d))\<rparr>"

interpretation disk: posix "disk_hooks broken" files descriptors for broken
proof
  fix fd bs w n w' p c m
  assume "write_hook (disk_hooks broken) fd bs w = (Inr n, w')" "descriptors w fd = Some p" "files w p = Some (c, m)"
  then show "n \<le> length bs \<and> files w' = (files w)(p \<mapsto> (c @ take n bs, m)) \<and> descriptors w' = descriptors w"
    by (auto simp: disk_hooks_def split: if_splits)
qed (auto simp: disk_hooks_def unless_broken_def fun_eq_iff split: if_splits option.splits)

lemma disk_progressing: "progressing (disk_hooks broken) interruptions"
  by (auto simp: progressing_def disk_hooks_def EIO_def split: if_splits option.splits)

definition disk_queries :: "disk queries" where
  "disk_queries = \<lparr>
     symlink_status = \<lambda>_ _. regular, canonical = \<lambda>p d. if files d (''lib'', p) = None then Inl ''No such file or directory'' else Inr (''lib'', p),
     status = \<lambda>p d. Inr (if files d p = None then not_found else regular),
     stat_of = \<lambda>p d. case files d p of None \<Rightarrow> Inl (Errno 2) | Some (c, m) \<Rightarrow> Inr (32768 + m, 1000, 1000),
     access_file = \<lambda>p d. True, access_folder = \<lambda>p d. True, strerror = \<lambda>e. ''error'', process_id = 7\<rparr>"

definition disk_one :: disk where
  "disk_one = \<lparr>files = [(''lib'', ''a'') \<mapsto> ([1], 420), (''lib'', ''b'') \<mapsto> ([2, 2], 256)],
     descriptors = Map.empty, next_fd = 3, interruptions = 1\<rparr>"

section \<open>Properties\<close>

text \<open>
  C13: While \<open>WriteFileBytes\<close> runs, and however it ends, an observer of the file system never sees a
  partial file: in every state the system has been in, the target is the complete old file or the complete new
  content with the old permission bits, and every other file that existed is as it was.
\<close>

theorem replacement_is_atomic:
  assumes "posix hooks tree fds"
    and "canonical Q file_path w0 = Inr target" and "tree w0 target = Some old" and "stat_of Q target w0 = Inr info"
    and "WriteFileBytes Q hooks suffixes fuel file_path bs (start w0) = (r, s)"
  shows "\<forall>w \<in> set (history s). (tree w target = Some old \<or> tree w target = Some (bs, mode_bits (fst info))) \<and>
    (\<forall>q. q \<noteq> target \<and> tree w0 q \<noteq> None \<longrightarrow> tree w q = tree w0 q)"
  using posix.WriteFileBytes_atomic [OF assms] assms(3)
  by (auto simp: posix.atomic_def [OF assms(1)] domIff)

text \<open>The runs of the witnesses: three bytes in two calls after one interruption, and a failing \<open>fsync\<close>.\<close>

definition disk_run :: "string list \<Rightarrow> unit outcome \<times> disk io" where
  "disk_run broken = WriteFileBytes disk_queries (disk_hooks broken) (\<lambda>_. ''0'') 4 ''a'' [9, 8, 7] (start disk_one)"

lemma disk_run_ok: "disk_run [] = (Done (), snd (disk_run []))"
proof -
  have "case fst (disk_run []) of Done _ \<Rightarrow> True | _ \<Rightarrow> False" by code_simp
  then show ?thesis by (cases "disk_run []") (auto split: outcome.splits)
qed


lemma disk_one_target:
  "canonical disk_queries ''a'' disk_one = Inr (''lib'', ''a'')" "files disk_one (''lib'', ''a'') = Some ([1], 420)"
  "stat_of disk_queries (''lib'', ''a'') disk_one = Inr (33188, 1000, 1000)"
  by (simp_all add: disk_queries_def disk_one_def)

theorem replacement_is_atomic_witness:
  "list_all (\<lambda>w. (files w (''lib'', ''a'') = Some ([1], 420) \<or> files w (''lib'', ''a'') = Some ([9, 8, 7], 420)) \<and>
    files w (''lib'', ''b'') = Some ([2, 2], 256)) (history (snd (disk_run [])))"
  using replacement_is_atomic [OF disk.posix_axioms disk_one_target disk_run_ok [unfolded disk_run_def]]
  by (auto simp: list_all_iff disk_run_def mode_bits_def disk_one_def)

text \<open>
  C14: When \<open>WriteFileBytes\<close> returns, the tree is the one it found with the target
  replaced by the new content under the old permission bits (no working file is left), and the calls were made in
  the order open (retried while the name exists), write, fchown, fchmod, fsync, close, rename, fsync of the folder:
  the content is on the medium before the move.
\<close>

theorem replacement_succeeds:
  assumes "posix hooks tree fds"
    and "canonical Q file_path w0 = Inr target" and "tree w0 target = Some old" and "stat_of Q target w0 = Inr info"
    and "WriteFileBytes Q hooks suffixes fuel file_path bs (start w0) = (Done (), s)"
  shows "tree (world s) = (tree w0)(target \<mapsto> (bs, mode_bits (fst info))) \<and> order_ok (call_names s)"
  using posix.WriteFileBytes_cases [OF assms(1,2) _ assms(5)] assms(3,4)
  by (metis (lifting) posix.moved_def [OF assms(1)] domI outcome.distinct(1,3) sum.inject(2))

theorem replacement_succeeds_witness:
  "files (world (snd (disk_run []))) = (files disk_one)((''lib'', ''a'') \<mapsto> ([9, 8, 7], 420)) \<and> order_ok (call_names (snd (disk_run [])))"
  using replacement_succeeds [OF disk.posix_axioms disk_one_target disk_run_ok [unfolded disk_run_def]]
  by (simp add: disk_run_def mode_bits_def)



text \<open>
  C16: \<open>WriteFileBytes\<close> ends, by returning or throwing, on every system on which a
  \<open>write\<close> is interrupted finitely often: each call of the loop writes something, fails for good or uses up one of the interruptions.
\<close>

theorem replacement_terminates:
  assumes "progressing hooks rank"
  shows "\<exists>fuel. fst (WriteFileBytes Q hooks suffixes fuel file_path bs s) \<noteq> Running"
  by (rule WriteFileBytes_ends [OF assms])

theorem replacement_terminates_witness:
  "\<exists>fuel. fst (WriteFileBytes disk_queries (disk_hooks []) (\<lambda>_. ''0'') fuel ''a'' [9, 8, 7] (start disk_one)) \<noteq> Running"
  by (rule replacement_terminates [OF disk_progressing])

text \<open>
  Inside a \<open>FileReplaceHooksScope\<close> the table in force is the installed one and the
  recorded calls are exactly those made since the scope began, in order; leaving the scope puts the previous table back
  and stops the recording, but (the comment on the class says otherwise) does not restore an outer scope's recording.
\<close>

theorem scope_records_and_restores:
  assumes "ScopeEnter hooks st = (previous, st1)" and "st2 = fold RecordFileReplaceCall made st1"
  shows "ActiveFileReplaceHooks st1 = hooks \<and> RecordedFileReplaceCalls st2 = made \<and>
    ActiveFileReplaceHooks (ScopeLeave previous (ScopeInstall hooks' st2)) = ActiveFileReplaceHooks st \<and>
    \<not> recording (ScopeLeave previous st2)"
  using assms by (auto simp: ScopeEnter_def ScopeInstall_def ScopeLeave_def ActiveFileReplaceHooks_def Let_def
      ExchangeFileReplaceHooks_def SetFileReplaceRecording_def RecordedFileReplaceCalls_def RecordFileReplaceCall_fold)

definition outer_state :: "disk HookState" where
  "outer_state = \<lparr>state_hooks = disk_hooks [''rename''], recording = True, state_calls = []\<rparr>"

lemma outer_entered: "ScopeEnter (disk_hooks []) outer_state = (disk_hooks [''rename''], snd (ScopeEnter (disk_hooks []) outer_state))"
  by (simp add: ScopeEnter_def ExchangeFileReplaceHooks_def outer_state_def)

theorem scope_records_and_restores_witness:
  "recording outer_state \<and> \<not> recording (ScopeLeave (disk_hooks [''rename''])
     (fold RecordFileReplaceCall (calls (snd (disk_run []))) (snd (ScopeEnter (disk_hooks []) outer_state))))"
  using scope_records_and_restores [OF outer_entered refl, of "calls (snd (disk_run []))"] by (simp add: outer_state_def)

end
