(* ===== verification/Macho_Layout.thy ===== *)
theory Macho_Layout
  imports Bounded_Bytes
begin

text \<open>
  \<open>src/internal/MachODefs.hpp\<close>, \<open>MachOLayout.hpp\<close> and \<open>MachOLayout.cpp\<close>: the layout of a Mac program,
  thin or universal, read once from its bytes. The loop over the load commands is a fold whose
  state is the layout so far, the position in the load command area and the deferred problem of a
  segment; each kind of command has its own definition.

  The lemmas show that every failure is the documented rejection, that an accepted
  program satisfies \<open>slice_wf\<close> (the commands tile the load command area, every segment and the
  signature lie in the program, the free header space is inside it), that the slices of an accepted universal
  file are disjoint and lie between the table and the end of the file, and which library names are listed.
\<close>

section \<open>Constants and records\<close>

definition kBytesThin64Little :: u32 where "kBytesThin64Little = 0xCFFAEDFE"
definition kBytesThin32Little :: u32 where "kBytesThin32Little = 0xCEFAEDFE"
definition kBytesThin64Big :: u32 where "kBytesThin64Big = 0xFEEDFACF"
definition kBytesThin32Big :: u32 where "kBytesThin32Big = 0xFEEDFACE"
definition kBytesFat32 :: u32 where "kBytesFat32 = 0xCAFEBABE"
definition kBytesFat64 :: u32 where "kBytesFat64 = 0xCAFEBABF"

definition kLcSegment64 :: u32 where "kLcSegment64 = 0x19"
definition kLcCodeSignature :: u32 where "kLcCodeSignature = 0x1D"
definition kLcLoadDylib :: u32 where "kLcLoadDylib = 0x0C"
definition kLcLoadWeakDylib :: u32 where "kLcLoadWeakDylib = 0x80000018"
definition kLcReexportDylib :: u32 where "kLcReexportDylib = 0x8000001F"
definition kLcLazyLoadDylib :: u32 where "kLcLazyLoadDylib = 0x20"
definition kLcLoadUpwardDylib :: u32 where "kLcLoadUpwardDylib = 0x80000023"

definition kSectionTypeMask :: u32 where "kSectionTypeMask = 0xFF"
definition kSectionTypeZeroFill :: u32 where "kSectionTypeZeroFill = 0x01"
definition kSectionTypeGbZeroFill :: u32 where "kSectionTypeGbZeroFill = 0x0C"
definition kSectionTypeTlsZeroFill :: u32 where "kSectionTypeTlsZeroFill = 0x12"

definition kHeader64Size :: u64 where "kHeader64Size = 32"
definition kLoadCommandHeaderSize :: u64 where "kLoadCommandHeaderSize = 8"
definition kSegment64CommandSize :: u64 where "kSegment64CommandSize = 72"
definition kSection64Size :: u64 where "kSection64Size = 80"
definition kDylibCommandMinSize :: u64 where "kDylibCommandMinSize = 24"
definition kCodeSignatureCommandSize :: u64 where "kCodeSignatureCommandSize = 16"
definition kFatArch32Size :: u64 where "kFatArch32Size = 20"
definition kFatArch64Size :: u64 where "kFatArch64Size = 32"
definition kFatHeaderSize :: u64 where "kFatHeaderSize = 8"
definition kMaxFatArchCount :: u64 where "kMaxFatArchCount = 256"
definition macho_format :: string where "macho_format = ''Mach-O''"

datatype MachOKind = Thin64Little | Thin32Little | Thin64Big | Thin32Big | KindFat32 | KindFat64 | UnknownKind

datatype SliceSupport = Supported | BigEndian | ThirtyTwoBit | ThirtyTwoBitBigEndian

record LoadCommandEntry =
  lc_offset :: u64
  lc_cmd :: u32
  lc_cmdsize :: u32

record SegmentLayout =
  seg_command_offset :: u64
  seg_name :: string
  seg_vmaddr :: u64
  seg_vmsize :: u64
  seg_fileoff :: u64
  seg_filesize :: u64

record CodeSignatureLayout =
  cs_command_offset :: u64
  cs_dataoff :: u32
  cs_datasize :: u32

record SliceLayout =
  sl_base :: u64
  sl_size :: u64
  support :: SliceSupport
  sl_cputype :: u32
  sl_cpusubtype :: u32
  filetype :: u32
  ncmds :: u32
  sizeofcmds :: u32
  header_end :: u64
  commands :: "LoadCommandEntry list"
  segments :: "SegmentLayout list"
  text_segment :: "SegmentLayout option"
  linkedit :: "SegmentLayout option"
  first_content :: u64
  codesig :: "CodeSignatureLayout option"
  dylibs :: "string list"

definition FreeHeaderSpace :: "SliceLayout \<Rightarrow> u64" where
  "FreeHeaderSpace l = (if first_content l > header_end l then first_content l - header_end l else 0)"

datatype ContainerForm = Thin | Fat32 | Fat64

record ContainerEntry =
  ce_cputype :: u32
  ce_cpusubtype :: u32
  ce_offset :: u64
  ce_size :: u64
  ce_align :: u32
  ce_slice :: SliceLayout

record MachOContainer =
  form :: ContainerForm
  entries :: "ContainerEntry list"

section \<open>Classification\<close>

fun IsThin :: "MachOKind \<Rightarrow> bool" where
  "IsThin Thin64Little = True"
| "IsThin Thin32Little = True"
| "IsThin Thin64Big = True"
| "IsThin Thin32Big = True"
| "IsThin _ = False"

fun SupportFor :: "MachOKind \<Rightarrow> SliceSupport" where
  "SupportFor Thin64Little = Supported"
| "SupportFor Thin32Little = ThirtyTwoBit"
| "SupportFor Thin64Big = BigEndian"
| "SupportFor _ = ThirtyTwoBitBigEndian"

definition IsReferenceCommand :: "u32 \<Rightarrow> bool" where
  "IsReferenceCommand cmd \<longleftrightarrow> cmd = kLcLoadDylib \<or> cmd = kLcLoadWeakDylib \<or> cmd = kLcReexportDylib \<or>
     cmd = kLcLazyLoadDylib \<or> cmd = kLcLoadUpwardDylib"

definition ReferenceCommandName :: "u32 \<Rightarrow> string" where
  "ReferenceCommandName cmd =
     (if cmd = kLcLoadDylib then ''LC_LOAD_DYLIB''
      else if cmd = kLcLoadWeakDylib then ''LC_LOAD_WEAK_DYLIB''
      else if cmd = kLcReexportDylib then ''LC_REEXPORT_DYLIB''
      else if cmd = kLcLazyLoadDylib then ''LC_LAZY_LOAD_DYLIB''
      else ''LC_LOAD_UPWARD_DYLIB'')"

definition IsZeroFill :: "u32 \<Rightarrow> bool" where
  "IsZeroFill section_flags \<longleftrightarrow>
     (let type = section_flags AND kSectionTypeMask in
      type = kSectionTypeZeroFill \<or> type = kSectionTypeGbZeroFill \<or> type = kSectionTypeTlsZeroFill)"

text \<open>The magic is put together one byte at a time, so the host plays no part.\<close>

definition MagicBytes :: "ByteOrder \<Rightarrow> ByteSpan \<Rightarrow> u32 res" where
  "MagicBytes host file =
     foldE (\<lambda>bytes i. bindE (Read host file (word_of_nat i) Little ''Mach-O magic'') (\<lambda>b.
              Inr (push_bit 8 bytes OR ucast (b :: u8)))) 0 [0..<4]"

definition KindOfMagic :: "u32 \<Rightarrow> MachOKind" where
  "KindOfMagic bytes =
     (if bytes = kBytesThin64Little then Thin64Little
      else if bytes = kBytesThin32Little then Thin32Little
      else if bytes = kBytesThin64Big then Thin64Big
      else if bytes = kBytesThin32Big then Thin32Big
      else if bytes = kBytesFat32 then KindFat32
      else if bytes = kBytesFat64 then KindFat64
      else UnknownKind)"

definition ClassifyMachOMagic :: "ByteOrder \<Rightarrow> ByteSpan \<Rightarrow> MachOKind res" where
  "ClassifyMachOMagic host file =
     (if span_size file < 4 then Inr UnknownKind
      else bindE (MagicBytes host file) (\<lambda>bytes. Inr (KindOfMagic bytes)))"

fun DeclineKind :: "SliceSupport \<Rightarrow> string" where
  "DeclineKind BigEndian = ''big-endian''"
| "DeclineKind ThirtyTwoBit = ''32-bit''"
| "DeclineKind ThirtyTwoBitBigEndian = ''32-bit big-endian''"
| "DeclineKind Supported = []"

definition DeclineText :: "SliceSupport \<Rightarrow> string" where
  "DeclineText s = DeclineKind s @
     '' Mac programs are not supported (supported: 64-bit little-endian arm64 and x86-64, alone or in a universal file)''"

text \<open>\<open>%X\<close> of an unsigned number.\<close>

definition upper_hex_digit :: "nat \<Rightarrow> char" where
  "upper_hex_digit d = (if d < 10 then char_of (48 + d) else char_of (55 + d))"

fun upper_hex :: "nat \<Rightarrow> string" where
  "upper_hex n = (if n < 16 then [upper_hex_digit n] else upper_hex (n div 16) @ [upper_hex_digit (n mod 16)])"

declare upper_hex.simps [simp del]

definition ArchName :: "u32 \<Rightarrow> string" where
  "ArchName cputype =
     (if cputype = 0x0100000C then ''arm64''
      else if cputype = 0x01000007 then ''x86_64''
      else ''cpu 0x'' @ upper_hex (unat cputype))"

definition StartsWithThinMagic :: "ByteOrder \<Rightarrow> ByteSpan \<Rightarrow> u64 \<Rightarrow> u64 \<Rightarrow> bool res" where
  "StartsWithThinMagic host file offset sz =
     (if \<not> RangeFits offset sz (span_size file) \<or> sz < 4 then Inr False
      else bindE (Sub file offset sz ''slice'') (\<lambda>sub.
           bindE (ClassifyMachOMagic host sub) (\<lambda>kind. Inr (IsThin kind))))"

section \<open>One load command\<close>

text \<open>The name ends at the first NUL of its sixteen bytes; \<open>left\<close> counts the bytes still to look at.\<close>

fun SegmentNameFrom :: "ByteOrder \<Rightarrow> ByteSpan \<Rightarrow> nat \<Rightarrow> nat \<Rightarrow> string \<Rightarrow> string res" where
  "SegmentNameFrom host command i 0 name = Inr name"
| "SegmentNameFrom host command i (Suc left) name =
     bindE (Read host command (8 + word_of_nat i) Little ''segment name'') (\<lambda>b.
     if byte_char (b :: u8) = CHR 0x00 then Inr name
     else SegmentNameFrom host command (Suc i) left (name @ [byte_char b]))"

definition SegmentName :: "ByteOrder \<Rightarrow> ByteSpan \<Rightarrow> string res" where
  "SegmentName host command = SegmentNameFrom host command 0 16 []"

type_synonym command_state = "SliceLayout \<times> u64 \<times> string"

text \<open>The content a section points at lowers \<open>first_content\<close>.\<close>

definition SectionContent :: "ByteOrder \<Rightarrow> ByteSpan \<Rightarrow> u64 \<Rightarrow> nat \<Rightarrow> u64 res" where
  "SectionContent host command first s =
     (let at = kSegment64CommandSize + word_of_nat s * kSection64Size in
      bindE (Read host command (at + 48) Little ''section file offset'') (\<lambda>section_offset.
      bindE (Read host command (at + 64) Little ''section flags'') (\<lambda>section_flags.
      Inr (if (section_offset :: u32) \<noteq> 0 \<and> \<not> IsZeroFill section_flags
           then min first (ucast section_offset) else first))))"

definition AddSegment :: "SegmentLayout \<Rightarrow> u64 \<Rightarrow> SliceLayout \<Rightarrow> SliceLayout" where
  "AddSegment seg first layout =
     (let layout1 = layout\<lparr>first_content := first\<rparr>;
          layout2 = (if seg_name seg = ''__TEXT'' \<and> text_segment layout1 = None
            then layout1\<lparr>text_segment := Some seg\<rparr>
            else if seg_name seg = ''__LINKEDIT'' \<and> linkedit layout1 = None
            then layout1\<lparr>linkedit := Some seg\<rparr> else layout1) in
      layout2\<lparr>segments := segments layout2 @ [seg]\<rparr>)"

definition SegmentProblem :: "string \<Rightarrow> string \<Rightarrow> u64 \<Rightarrow> SegmentLayout \<Rightarrow> string \<Rightarrow> string" where
  "SegmentProblem name scope sz seg problem =
     (if \<not> RangeFits (seg_fileoff seg) (seg_filesize seg) sz \<and> problem = []
      then name @ '' ('' @ seg_name seg @ '') file range extends past the end of '' @ scope else problem)"

definition ParseSegment ::
  "ByteOrder \<Rightarrow> string \<Rightarrow> u64 \<Rightarrow> ByteSpan \<Rightarrow> string \<Rightarrow> u64 \<Rightarrow> u32 \<Rightarrow> SliceLayout \<Rightarrow> string \<Rightarrow> (SliceLayout \<times> string) res" where
  "ParseSegment host scope sz command index command_offset cmdsize layout problem =
     (let name = ''LC_SEGMENT_64 command '' @ index in
      if ucast cmdsize < kSegment64CommandSize then
        ThrowMalformed macho_format (name @ '' size '' @ to_string cmdsize @ '' is smaller than 72'')
      else
      bindE (SegmentName host command) (\<lambda>segment_name.
      bindE (Read host command 24 Little ''segment address'') (\<lambda>vmaddr.
      bindE (Read host command 32 Little ''segment size in memory'') (\<lambda>vmsize.
      bindE (Read host command 40 Little ''segment file offset'') (\<lambda>fileoff.
      bindE (Read host command 48 Little ''segment file size'') (\<lambda>filesize.
      bindE (Read host command 64 Little ''section count'') (\<lambda>nsects.
      let seg = \<lparr>seg_command_offset = command_offset, seg_name = segment_name, seg_vmaddr = vmaddr,
            seg_vmsize = vmsize, seg_fileoff = fileoff, seg_filesize = filesize\<rparr>;
          problem' = SegmentProblem name scope sz seg problem;
          sections_end = kSegment64CommandSize + ucast (nsects :: u32) * kSection64Size in
      if sections_end > ucast cmdsize then
        ThrowMalformed macho_format (name @ '' has '' @ to_string nsects @ '' sections that do not fit in its '' @
          to_string cmdsize @ '' bytes'')
      else
      let first = (if segment_name \<noteq> ''__TEXT'' \<and> filesize > 0 \<and> fileoff > 0
            then min (first_content layout) fileoff else first_content layout) in
      bindE (foldE (SectionContent host command) first [0..<unat nsects]) (\<lambda>first'.
      Inr (AddSegment seg first' layout, problem')))))))))"

definition ParseCodeSignature ::
  "ByteOrder \<Rightarrow> string \<Rightarrow> u64 \<Rightarrow> ByteSpan \<Rightarrow> string \<Rightarrow> u64 \<Rightarrow> u32 \<Rightarrow> SliceLayout \<Rightarrow> SliceLayout res" where
  "ParseCodeSignature host scope sz command index command_offset cmdsize layout =
     (let name = ''LC_CODE_SIGNATURE command '' @ index in
      if ucast cmdsize < kCodeSignatureCommandSize then
        ThrowMalformed macho_format (name @ '' size '' @ to_string cmdsize @ '' is smaller than 16'')
      else if codesig layout \<noteq> None then
        ThrowMalformed macho_format (name @ '' is a second LC_CODE_SIGNATURE command'')
      else
      bindE (Read host command 8 Little ''signature offset'') (\<lambda>dataoff.
      bindE (Read host command 12 Little ''signature size'') (\<lambda>datasize.
      if \<not> RangeFits (ucast (dataoff :: u32)) (ucast (datasize :: u32)) sz then
        ThrowMalformed macho_format (name @ '' data (offset '' @ to_string dataoff @ '', size '' @ to_string datasize @
          '') extends past the end of '' @ scope)
      else if datasize \<noteq> 0 \<and> ucast dataoff < header_end layout then
        ThrowMalformed macho_format (name @ '' data at offset '' @ to_string dataoff @ '' is inside the load commands'')
      else
      Inr (layout\<lparr>codesig := Some \<lparr>cs_command_offset = command_offset, cs_dataoff = dataoff, cs_datasize = datasize\<rparr>\<rparr>))))"

definition ParseReference ::
  "ByteOrder \<Rightarrow> ByteSpan \<Rightarrow> string \<Rightarrow> u32 \<Rightarrow> u32 \<Rightarrow> SliceLayout \<Rightarrow> SliceLayout res" where
  "ParseReference host command index cmd cmdsize layout =
     (let name = ReferenceCommandName cmd @ '' command '' @ index in
      if ucast cmdsize < kDylibCommandMinSize then
        ThrowMalformed macho_format (name @ '' size '' @ to_string cmdsize @ '' is smaller than 24'')
      else
      bindE (Read host command 8 Little ''dylib name offset'') (\<lambda>name_offset.
      if name_offset \<ge> cmdsize then
        ThrowMalformed macho_format (name @ '' has its name at offset '' @ to_string name_offset @
          '', outside the command of '' @ to_string cmdsize @ '' bytes'')
      else
      bindE (CString command (ucast name_offset) (ucast cmdsize) (name @ '' name'')) (\<lambda>library.
      Inr (if library \<in> set (dylibs layout) then layout else layout\<lparr>dylibs := dylibs layout @ [library]\<rparr>))))"

definition ParseKind ::
  "ByteOrder \<Rightarrow> string \<Rightarrow> u64 \<Rightarrow> ByteSpan \<Rightarrow> string \<Rightarrow> LoadCommandEntry \<Rightarrow> SliceLayout \<Rightarrow> string \<Rightarrow> (SliceLayout \<times> string) res" where
  "ParseKind host scope sz command index c layout problem =
     (if lc_cmd c = kLcSegment64 then
        ParseSegment host scope sz command index (lc_offset c) (lc_cmdsize c) layout problem
      else if lc_cmd c = kLcCodeSignature then
        bindE (ParseCodeSignature host scope sz command index (lc_offset c) (lc_cmdsize c) layout) (\<lambda>l. Inr (l, problem))
      else if IsReferenceCommand (lc_cmd c) then
        bindE (ParseReference host command index (lc_cmd c) (lc_cmdsize c) layout) (\<lambda>l. Inr (l, problem))
      else Inr (layout, problem))"

definition ParseCommand ::
  "ByteOrder \<Rightarrow> string \<Rightarrow> u64 \<Rightarrow> ByteSpan \<Rightarrow> command_state \<Rightarrow> nat \<Rightarrow> command_state res" where
  "ParseCommand host scope sz area st i =
     (let (layout, cursor, problem) = st; index = dec i in
      if \<not> RangeFits cursor kLoadCommandHeaderSize (span_size area) then
        ThrowMalformed macho_format (''load command '' @ index @ '' does not fit in the load command area of '' @
          to_string (span_size area) @ '' bytes'')
      else
      bindE (Read host area cursor Little ''load command'') (\<lambda>cmd.
      bindE (Read host area (cursor + 4) Little ''load command size'') (\<lambda>cmdsize.
      if ucast (cmdsize :: u32) < kLoadCommandHeaderSize then
        ThrowMalformed macho_format (''load command '' @ index @ '' size '' @ to_string cmdsize @ '' is smaller than 8'' @
          (if cmdsize = 0 then ''; this can be a program signed by an earlier version of the-seed; rebuild it from the unsigned original''
           else []))
      else if cmdsize mod 4 \<noteq> 0 then
        ThrowMalformed macho_format (''load command '' @ index @ '' size '' @ to_string cmdsize @ '' is not a multiple of 4'')
      else if \<not> RangeFits cursor (ucast cmdsize) (span_size area) then
        ThrowMalformed macho_format (''load command '' @ index @ '' size '' @ to_string cmdsize @
          '' runs past the end of the load commands'')
      else
      let c = \<lparr>lc_offset = kHeader64Size + cursor, lc_cmd = cmd, lc_cmdsize = cmdsize\<rparr> in
      bindE (Sub area cursor (ucast cmdsize) (''load command '' @ index)) (\<lambda>command.
      bindE (ParseKind host scope sz command index c (layout\<lparr>commands := commands layout @ [c]\<rparr>) problem) (\<lambda>(layout2, problem2).
      Inr (layout2, cursor + ucast cmdsize, problem2))))))"

section \<open>A program and a file\<close>

definition declined_layout :: "u64 \<Rightarrow> u64 \<Rightarrow> SliceSupport \<Rightarrow> u32 \<Rightarrow> u32 \<Rightarrow> SliceLayout" where
  "declined_layout base sz supp cputype cpusubtype =
     \<lparr>sl_base = base, sl_size = sz, support = supp, sl_cputype = cputype, sl_cpusubtype = cpusubtype,
      filetype = 0, ncmds = 0, sizeofcmds = 0, header_end = 0, commands = [], segments = [], text_segment = None,
      linkedit = None, first_content = sz, codesig = None, dylibs = []\<rparr>"

text \<open>The header and load commands of a supported program; \<open>layout\<close> has the fields that are already known.\<close>

definition ParseProgram :: "ByteOrder \<Rightarrow> ByteSpan \<Rightarrow> u64 \<Rightarrow> string \<Rightarrow> SliceLayout \<Rightarrow> SliceLayout res" where
  "ParseProgram host view sz scope layout =
     bindE (Sub view 0 kHeader64Size ''Mach-O header'') (\<lambda>_.
     bindE (Read host view 12 Little ''file type'') (\<lambda>ftype.
     bindE (Read host view 16 Little ''load command count'') (\<lambda>count.
     bindE (Read host view 20 Little ''load command area size'') (\<lambda>area_size.
     bindE (Sub view kHeader64Size (ucast area_size) ''load commands'') (\<lambda>area.
     bindE (foldE (ParseCommand host scope sz area)
              (layout\<lparr>filetype := ftype, ncmds := count, sizeofcmds := area_size,
                 header_end := kHeader64Size + ucast area_size\<rparr>, 0, []) [0..<unat count]) (\<lambda>(result, cursor, problem).
     if cursor \<noteq> ucast area_size then
       ThrowMalformed macho_format (''the '' @ to_string count @ '' load commands use '' @ to_string cursor @
         '' bytes but the header says '' @ to_string area_size)
     else if problem \<noteq> [] then ThrowMalformed macho_format problem
     else Inr result))))))"

definition ParseMachOSlice :: "ByteOrder \<Rightarrow> ByteSpan \<Rightarrow> u64 \<Rightarrow> u64 \<Rightarrow> string \<Rightarrow> SliceLayout res" where
  "ParseMachOSlice host file base sz scope =
     bindE (if base = 0 \<and> sz = span_size file then Inr file else Sub file base sz scope) (\<lambda>view.
     bindE (ClassifyMachOMagic host view) (\<lambda>kind.
     if \<not> IsThin kind then ThrowMalformed macho_format ''Not a single-arch Mach-O binary'' else
     bindE (Sub view 0 12 ''Mach-O header'') (\<lambda>_.
     let order = (if kind = Thin64Big \<or> kind = Thin32Big then Big else Little) in
     bindE (Read host view 4 order ''cpu type'') (\<lambda>cputype.
     bindE (Read host view 8 order ''cpu subtype'') (\<lambda>cpusubtype.
     let layout = declined_layout base sz (SupportFor kind) cputype cpusubtype in
     if SupportFor kind \<noteq> Supported then Inr layout else ParseProgram host view sz scope layout)))))"

text \<open>One row of a universal file's table, with the checks that follow it.\<close>

definition empty_slice :: SliceLayout where
  "empty_slice = declined_layout 0 0 Supported 0 0"

definition ReadFatEntry :: "ByteOrder \<Rightarrow> ByteSpan \<Rightarrow> bool \<Rightarrow> u64 \<Rightarrow> nat \<Rightarrow> ContainerEntry res" where
  "ReadFatEntry host file wide table_end i =
     (let entry_size = (if wide then kFatArch64Size else kFatArch32Size);
          at = kFatHeaderSize + word_of_nat i * entry_size in
      bindE (Read host file at Big ''fat_arch cpu type'') (\<lambda>cputype.
      bindE (Read host file (at + 4) Big ''fat_arch cpu subtype'') (\<lambda>cpusubtype.
      bindE (if wide then
               bindE (Read host file (at + 8) Big ''fat_arch offset'') (\<lambda>offset.
               bindE (Read host file (at + 16) Big ''fat_arch size'') (\<lambda>sz.
               bindE (Read host file (at + 24) Big ''fat_arch alignment'') (\<lambda>align.
               Inr (offset, sz, align))))
             else
               bindE (Read host file (at + 8) Big ''fat_arch offset'') (\<lambda>offset.
               bindE (Read host file (at + 12) Big ''fat_arch size'') (\<lambda>sz.
               bindE (Read host file (at + 16) Big ''fat_arch alignment'') (\<lambda>align.
               Inr (ucast (offset :: u32), ucast (sz :: u32), align))))) (\<lambda>(offset, sz, align).
      bindE (if i = 0 then StartsWithThinMagic host file offset sz else Inr True) (\<lambda>plausible.
      if \<not> plausible then ThrowMalformed macho_format ''File is not a Mach-O binary'' else
      let name = ''fat slice '' @ dec i in
      bindE (Sub file offset sz name) (\<lambda>_.
      if offset < table_end then
        ThrowMalformed macho_format (name @ '' starts at offset '' @ to_string offset @
          '', inside the fat header table that ends at '' @ to_string table_end)
      else
      Inr \<lparr>ce_cputype = cputype, ce_cpusubtype = cpusubtype, ce_offset = offset, ce_size = sz, ce_align = align,
           ce_slice = empty_slice\<rparr>))))))"

text \<open>\<open>std::stable_sort\<close> of the indexes by the offset of the slice.\<close>

definition by_offset :: "ContainerEntry list \<Rightarrow> nat list" where
  "by_offset es = sort_key (\<lambda>i. ce_offset (es ! i)) [0..<length es]"

definition CheckOverlap :: "ContainerEntry list \<Rightarrow> nat list \<Rightarrow> unit res" where
  "CheckOverlap es order =
     foldE (\<lambda>_ k.
       let p = order ! (k - 1); c = order ! k in
       if ce_offset (es ! p) + ce_size (es ! p) > ce_offset (es ! c) then
         ThrowMalformed macho_format (''fat slice '' @ dec p @ '' and fat slice '' @ dec c @ '' overlap'')
       else Inr ()) () [1..<length order]"

definition ParseEntry :: "ByteOrder \<Rightarrow> ByteSpan \<Rightarrow> ContainerEntry \<times> nat \<Rightarrow> ContainerEntry res" where
  "ParseEntry host file e =
     bindE (ParseMachOSlice host file (ce_offset (fst e)) (ce_size (fst e)) (''fat slice '' @ dec (snd e))) (\<lambda>sl.
     Inr ((fst e)\<lparr>ce_slice := sl\<rparr>))"

definition ParseFat :: "ByteOrder \<Rightarrow> ByteSpan \<Rightarrow> bool \<Rightarrow> MachOContainer res" where
  "ParseFat host file wide =
     (if span_size file < kFatHeaderSize then ThrowMalformed macho_format ''Truncated fat header'' else
      bindE (Read host file 4 Big ''fat_arch count'') (\<lambda>raw_count.
      let count = ucast (raw_count :: u32) :: u64;
          entry_size = (if wide then kFatArch64Size else kFatArch32Size);
          table_end = kFatHeaderSize + count * entry_size in
      if count = 0 \<or> count > kMaxFatArchCount then ThrowMalformed macho_format ''File is not a Mach-O binary''
      else if table_end > span_size file then
        ThrowMalformed macho_format (''Truncated fat_arch entry table: '' @ to_string count @ '' entries need '' @
          to_string table_end @ '' bytes but the file has '' @ to_string (span_size file))
      else
      bindE (mapE (ReadFatEntry host file wide table_end) [0..<unat count]) (\<lambda>es.
      bindE (CheckOverlap es (by_offset es)) (\<lambda>_.
      bindE (mapE (ParseEntry host file) (zip es [0..<length es])) (\<lambda>es'.
      Inr \<lparr>form = (if wide then Fat64 else Fat32), entries = es'\<rparr>)))))"

definition ParseMachOContainer :: "ByteOrder \<Rightarrow> ByteSpan \<Rightarrow> MachOContainer res" where
  "ParseMachOContainer host file =
     bindE (ClassifyMachOMagic host file) (\<lambda>kind.
     if IsThin kind then
       bindE (ParseMachOSlice host file 0 (span_size file) ''the file'') (\<lambda>sl.
       Inr \<lparr>form = Thin, entries = [\<lparr>ce_cputype = sl_cputype sl, ce_cpusubtype = sl_cpusubtype sl, ce_offset = 0,
              ce_size = span_size file, ce_align = 0, ce_slice = sl\<rparr>]\<rparr>)
     else if kind = KindFat32 then ParseFat host file False
     else if kind = KindFat64 then ParseFat host file True
     else ThrowMalformed macho_format ''File is not a Mach-O binary'')"

section \<open>Every failure is the documented rejection\<close>

lemma rejects_ClassifyMachOMagic [rejects_intros]: "good fmt file \<Longrightarrow> rejects fmt (ClassifyMachOMagic host file)"
  unfolding ClassifyMachOMagic_def MagicBytes_def by (intro rejects_intros) simp_all

lemma rejects_StartsWithThinMagic [rejects_intros]: "good fmt file \<Longrightarrow> rejects fmt (StartsWithThinMagic host file offset sz)"
  unfolding StartsWithThinMagic_def by (intro rejects_intros) (auto intro: good_Sub)

lemma rejects_SegmentName [rejects_intros]: "good fmt command \<Longrightarrow> rejects fmt (SegmentName host command)"
proof -
  have "good fmt command \<Longrightarrow> rejects fmt (SegmentNameFrom host command i left name)" for i left name
    by (induction left arbitrary: i name) (auto intro!: rejects_intros)
  then show "good fmt command \<Longrightarrow> ?thesis" by (simp add: SegmentName_def)
qed

lemma rejects_SectionContent [rejects_intros]: "good fmt command \<Longrightarrow> rejects fmt (SectionContent host command first s)"
  unfolding SectionContent_def by (intro rejects_intros) simp_all

lemma rejects_ParseSegment [rejects_intros]:
  "good macho_format command \<Longrightarrow> rejects macho_format (ParseSegment host scope sz command index off cmdsize layout problem)"
  unfolding ParseSegment_def by (intro rejects_intros) simp_all

lemma rejects_ParseCodeSignature [rejects_intros]:
  "good macho_format command \<Longrightarrow> rejects macho_format (ParseCodeSignature host scope sz command index off cmdsize layout)"
  unfolding ParseCodeSignature_def by (intro rejects_intros) simp_all

lemma rejects_ParseReference [rejects_intros]:
  "good macho_format command \<Longrightarrow> rejects macho_format (ParseReference host command index cmd cmdsize layout)"
  unfolding ParseReference_def by (intro rejects_intros) simp_all

lemma rejects_ParseKind [rejects_intros]:
  "good macho_format command \<Longrightarrow> rejects macho_format (ParseKind host scope sz command index c layout problem)"
  unfolding ParseKind_def by (intro rejects_intros)

lemma rejects_ParseCommand [rejects_intros]:
  "good macho_format area \<Longrightarrow> rejects macho_format (ParseCommand host scope sz area st i)"
  unfolding ParseCommand_def by (intro rejects_intros) (auto intro: good_Sub)

lemma rejects_ParseProgram [rejects_intros]:
  "good macho_format view \<Longrightarrow> rejects macho_format (ParseProgram host view sz scope layout)"
  unfolding ParseProgram_def by (intro rejects_intros) (auto intro: good_Sub)

lemma rejects_ParseMachOSlice [rejects_intros]:
  "good macho_format file \<Longrightarrow> rejects macho_format (ParseMachOSlice host file base sz scope)"
  unfolding ParseMachOSlice_def by (intro rejects_intros) (auto intro: good_Sub split: if_splits)

lemma rejects_ReadFatEntry [rejects_intros]:
  "good macho_format file \<Longrightarrow> rejects macho_format (ReadFatEntry host file wide table_end i)"
  unfolding ReadFatEntry_def by (intro rejects_intros) simp_all

lemma rejects_CheckOverlap [rejects_intros]: "rejects macho_format (CheckOverlap es order)"
  unfolding CheckOverlap_def Let_def by (intro rejects_intros)

lemma rejects_ParseFat [rejects_intros]: "good macho_format file \<Longrightarrow> rejects macho_format (ParseFat host file wide)"
  unfolding ParseFat_def ParseEntry_def by (intro rejects_intros) simp_all

lemma rejects_ParseMachOContainer [rejects_intros]:
  "good macho_format file \<Longrightarrow> rejects macho_format (ParseMachOContainer host file)"
  unfolding ParseMachOContainer_def by (intro rejects_intros)

section \<open>Well-formed programs\<close>

text \<open>
  What an accepted 64-bit little-endian program satisfies. \<open>tiles a cs b\<close>: the commands \<open>cs\<close> lie one after the
  other from \<open>a\<close> to \<open>b\<close>, each at least eight bytes and a multiple of four.
\<close>

fun tiles :: "nat \<Rightarrow> LoadCommandEntry list \<Rightarrow> nat \<Rightarrow> bool" where
  "tiles a [] b \<longleftrightarrow> a = b"
| "tiles a (c # cs) b \<longleftrightarrow> unat (lc_offset c) = a \<and> 8 \<le> unat (lc_cmdsize c) \<and> unat (lc_cmdsize c) mod 4 = 0 \<and>
     tiles (a + unat (lc_cmdsize c)) cs b"

definition segment_wf :: "SliceLayout \<Rightarrow> SegmentLayout \<Rightarrow> bool" where
  "segment_wf l seg \<longleftrightarrow> (\<exists>c \<in> set (commands l). lc_cmd c = kLcSegment64 \<and> lc_offset c = seg_command_offset seg \<and>
     72 \<le> unat (lc_cmdsize c))"

definition codesig_wf :: "SliceLayout \<Rightarrow> CodeSignatureLayout \<Rightarrow> bool" where
  "codesig_wf l cs \<longleftrightarrow> unat (cs_dataoff cs) + unat (cs_datasize cs) \<le> unat (sl_size l) \<and>
     (cs_datasize cs = 0 \<or> unat (header_end l) \<le> unat (cs_dataoff cs)) \<and>
     (\<exists>c \<in> set (commands l). lc_cmd c = kLcCodeSignature \<and> lc_offset c = cs_command_offset cs \<and> 16 \<le> unat (lc_cmdsize c))"

definition segment_in_file :: "SliceLayout \<Rightarrow> SegmentLayout \<Rightarrow> bool" where
  "segment_in_file l seg \<longleftrightarrow> unat (seg_fileoff seg) + unat (seg_filesize seg) \<le> unat (sl_size l)"

definition named_segment :: "string \<Rightarrow> SegmentLayout list \<Rightarrow> SegmentLayout option" where
  "named_segment name segs = find (\<lambda>s. seg_name s = name) segs"

definition parsed_wf :: "SliceLayout \<Rightarrow> bool" where
  "parsed_wf l \<longleftrightarrow> (\<forall>seg \<in> set (segments l). segment_wf l seg) \<and> text_segment l = named_segment ''__TEXT'' (segments l) \<and>
     linkedit l = named_segment ''__LINKEDIT'' (segments l) \<and> unat (first_content l) \<le> unat (sl_size l) \<and>
     (\<forall>cs. codesig l = Some cs \<longrightarrow> codesig_wf l cs) \<and> distinct (dylibs l)"

definition slice_wf :: "SliceLayout \<Rightarrow> bool" where
  "slice_wf l \<longleftrightarrow> parsed_wf l \<and> (\<forall>seg \<in> set (segments l). segment_in_file l seg) \<and>
     length (commands l) = unat (ncmds l) \<and> tiles 32 (commands l) (unat (header_end l)) \<and>
     unat (header_end l) = 32 + unat (sizeofcmds l) \<and> unat (header_end l) \<le> unat (sl_size l)"

lemma tiles_snoc:
  "tiles a (cs @ [c]) b \<longleftrightarrow> (\<exists>m. tiles a cs m \<and> unat (lc_offset c) = m \<and> 8 \<le> unat (lc_cmdsize c) \<and>
     unat (lc_cmdsize c) mod 4 = 0 \<and> b = m + unat (lc_cmdsize c))"
  by (induction cs arbitrary: a) auto

lemma tiles_le: "tiles a cs b \<Longrightarrow> a \<le> b"
  by (induction cs arbitrary: a) fastforce+

lemma tiles_inside: "tiles a cs b \<Longrightarrow> c \<in> set cs \<Longrightarrow> a \<le> unat (lc_offset c) \<and> unat (lc_offset c) + unat (lc_cmdsize c) \<le> b"
proof (induction cs arbitrary: a)
  case (Cons d cs)
  then show ?case using tiles_le [of "a + unat (lc_cmdsize d)" cs b] by fastforce
qed simp

text \<open>The fields that the loop over the commands does not change.\<close>

definition frame :: "SliceLayout \<Rightarrow> u64 \<times> u64 \<times> SliceSupport \<times> u32 \<times> u32 \<times> u32 \<times> u32 \<times> u32 \<times> u64" where
  "frame l = (sl_base l, sl_size l, support l, sl_cputype l, sl_cpusubtype l, filetype l, ncmds l, sizeofcmds l, header_end l)"

lemma guardE:
  assumes "(if b then ThrowMalformed f d else m) = Inr y"
  obtains "\<not> b" and "m = Inr y"
  using assms by (simp add: ThrowMalformed_def split: if_splits)

lemma SectionContent_le:
  "foldE (SectionContent host command) first ss = Inr first' \<Longrightarrow> first' \<le> first"
  by (induction ss arbitrary: first) (fastforce simp: SectionContent_def Let_def min_def split: if_splits)+

lemma named_segment_snoc:
  "named_segment name (segs @ [seg]) =
     (case named_segment name segs of Some s \<Rightarrow> Some s | None \<Rightarrow> if seg_name seg = name then Some seg else None)"
  by (induction segs) (simp_all add: named_segment_def)

lemma ParseSegment_Inr:
  assumes "ParseSegment host scope sz command index off cmdsize l problem = Inr (l', problem')"
    and "text_segment l = named_segment ''__TEXT'' (segments l)" and "linkedit l = named_segment ''__LINKEDIT'' (segments l)"
  obtains seg where "frame l' = frame l" and "commands l' = commands l" and "segments l' = segments l @ [seg]"
    and "seg_command_offset seg = off" and "72 \<le> unat cmdsize"
    and "problem' = [] \<Longrightarrow> problem = [] \<and> unat (seg_fileoff seg) + unat (seg_filesize seg) \<le> unat sz"
    and "text_segment l' = named_segment ''__TEXT'' (segments l')" and "linkedit l' = named_segment ''__LINKEDIT'' (segments l')"
    and "first_content l' \<le> first_content l" and "codesig l' = codesig l" and "dylibs l' = dylibs l"
proof -
  from assms(1) obtain seg first first' ss where
    big: "\<not> (ucast cmdsize :: u64) < kSegment64CommandSize"
    and fold: "foldE (SectionContent host command) first ss = Inr first'" and l': "AddSegment seg first' l = l'"
    and p: "SegmentProblem (''LC_SEGMENT_64 command '' @ index) scope sz seg problem = problem'"
    and off: "seg_command_offset seg = off" and first: "first \<le> first_content l"
    unfolding ParseSegment_def Let_def
    by (elim guardE bindE_InrE) (unfold sum.inject prod.inject, elim conjE, rule that, assumption+, simp, simp)
  show ?thesis
  proof (rule that [of seg])
    show "frame l' = frame l" "commands l' = commands l" "segments l' = segments l @ [seg]" "codesig l' = codesig l" "dylibs l' = dylibs l"
      by (simp_all add: l' [symmetric] AddSegment_def Let_def frame_def)
    show "seg_command_offset seg = off" by (rule off)
    show "72 \<le> unat cmdsize" using big by (simp add: kSegment64CommandSize_def word_less_nat_alt unat_ucast_u32)
    show "problem' = [] \<Longrightarrow> problem = [] \<and> unat (seg_fileoff seg) + unat (seg_filesize seg) \<le> unat sz"
      by (auto simp: p [symmetric] SegmentProblem_def RangeFits_iff split: if_splits)
    show "text_segment l' = named_segment ''__TEXT'' (segments l')" "linkedit l' = named_segment ''__LINKEDIT'' (segments l')"
      using assms(2,3) by (auto simp: l' [symmetric] AddSegment_def Let_def named_segment_snoc split: option.splits)
    have "first_content l' = first'" by (simp add: l' [symmetric] AddSegment_def Let_def)
    then show "first_content l' \<le> first_content l" using SectionContent_le [OF fold] first by simp
  qed
qed

lemma ParseCodeSignature_Inr:
  assumes "ParseCodeSignature host scope sz command index off cmdsize l = Inr l'"
  obtains cs where "l' = l\<lparr>codesig := Some cs\<rparr>" and "codesig l = None" and "cs_command_offset cs = off"
    and "16 \<le> unat cmdsize" and "unat (cs_dataoff cs) + unat (cs_datasize cs) \<le> unat sz"
    and "cs_datasize cs = 0 \<or> unat (header_end l) \<le> unat (cs_dataoff cs)"
proof -
  from assms obtain cs where big: "\<not> (ucast cmdsize :: u64) < kCodeSignatureCommandSize" and none: "\<not> codesig l \<noteq> None"
    and fits: "\<not> \<not> RangeFits (ucast (cs_dataoff cs)) (ucast (cs_datasize cs)) sz"
    and after: "\<not> (cs_datasize cs \<noteq> 0 \<and> ucast (cs_dataoff cs) < header_end l)"
    and l': "l\<lparr>codesig := Some cs\<rparr> = l'" and off: "cs_command_offset cs = off"
    unfolding ParseCodeSignature_def Let_def
    by (elim guardE bindE_InrE) (metis CodeSignatureLayout.select_convs Inr_inject)
  show ?thesis
    by (rule that [of cs])
      (use big none fits after l' off in \<open>auto simp: RangeFits_iff unat_ucast_u32 word_less_nat_alt kCodeSignatureCommandSize_def\<close>)
qed

lemma ParseReference_Inr:
  assumes "ParseReference host command index cmd cmdsize l = Inr l'"
  obtains library where "l' = (if library \<in> set (dylibs l) then l else l\<lparr>dylibs := dylibs l @ [library]\<rparr>)"
  using assms unfolding ParseReference_def Let_def by (elim guardE bindE_InrE) auto

text \<open>The state of the loop over the commands; \<open>l0\<close> is the layout at its start.\<close>

definition command_inv :: "SliceLayout \<Rightarrow> command_state \<Rightarrow> bool" where
  "command_inv l0 st \<longleftrightarrow> (case st of (l, cursor, problem) \<Rightarrow>
     frame l = frame l0 \<and> parsed_wf l \<and> tiles 32 (commands l) (32 + unat cursor) \<and> unat cursor \<le> unat (sizeofcmds l0) \<and>
     (problem = [] \<longrightarrow> (\<forall>seg \<in> set (segments l). segment_in_file l seg)))"

definition one_more :: "SliceLayout \<Rightarrow> LoadCommandEntry \<Rightarrow> SliceLayout" where
  "one_more l c = l\<lparr>commands := commands l @ [c]\<rparr>"

lemma one_more_simps [simp]:
  "frame (one_more l c) = frame l" "commands (one_more l c) = commands l @ [c]" "segments (one_more l c) = segments l"
  "text_segment (one_more l c) = text_segment l" "linkedit (one_more l c) = linkedit l" "codesig (one_more l c) = codesig l"
  "dylibs (one_more l c) = dylibs l" "first_content (one_more l c) = first_content l" "header_end (one_more l c) = header_end l"
  by (simp_all add: one_more_def frame_def)

lemma parsed_wf_one_more: "parsed_wf l \<Longrightarrow> parsed_wf (one_more l c)"
  by (auto simp: parsed_wf_def one_more_def segment_wf_def codesig_wf_def)

lemma ParseCommand_cases:
  assumes run: "ParseCommand host scope sz area (l, cursor, problem) i = Inr (l', cursor', problem')"
    and area: "unat (span_size area) \<le> 4294967296"
  obtains c command index where "unat (lc_offset c) = 32 + unat cursor" and "unat cursor + unat (lc_cmdsize c) \<le> unat (span_size area)"
    and "unat cursor' = unat cursor + unat (lc_cmdsize c)" and "8 \<le> unat (lc_cmdsize c)" and "unat (lc_cmdsize c) mod 4 = 0"
    and "ParseKind host scope sz command index c (one_more l c) problem = Inr (l', problem')"
    and "Read host area cursor Little ''load command'' = Inr (lc_cmd c)"
    and "Read host area (cursor + 4) Little ''load command size'' = Inr (lc_cmdsize c)"
    and "Sub area cursor (ucast (lc_cmdsize c)) (''load command '' @ index) = Inr command"
proof -
  from run obtain cmd cmdsize command x where cmd: "Read host area cursor Little ''load command'' = Inr cmd"
    and cmdsize: "Read host area (cursor + 4) Little ''load command size'' = Inr cmdsize" and head: "\<not> (ucast cmdsize :: u64) < kLoadCommandHeaderSize"
    and four: "\<not> cmdsize mod 4 \<noteq> 0" and fits: "\<not> \<not> RangeFits cursor (ucast cmdsize) (span_size area)"
    and sub: "Sub area cursor (ucast cmdsize) (''load command '' @ dec i) = Inr command"
    and kind: "ParseKind host scope sz command (dec i) \<lparr>lc_offset = kHeader64Size + cursor, lc_cmd = cmd, lc_cmdsize = cmdsize\<rparr>
      (one_more l \<lparr>lc_offset = kHeader64Size + cursor, lc_cmd = cmd, lc_cmdsize = cmdsize\<rparr>) problem = Inr x"
    and x: "(case x of (layout2, problem2) \<Rightarrow> Inr (layout2, cursor + ucast cmdsize, problem2)) = (Inr (l', cursor', problem') :: command_state res)"
    unfolding ParseCommand_def Let_def prod.case one_more_def [symmetric]
    by (elim guardE bindE_InrE) (rule that, assumption+)
  define c where "c = \<lparr>lc_offset = kHeader64Size + cursor, lc_cmd = cmd, lc_cmdsize = cmdsize\<rparr>"
  have le: "unat cursor + unat cmdsize \<le> unat (span_size area)" using fits by (simp add: RangeFits_iff unat_ucast_u32)
  have off: "unat (kHeader64Size + cursor) = 32 + unat cursor"
    using le area by (subst unat_add_nowrap) (simp_all add: kHeader64Size_def)
  have "unat (cursor + ucast cmdsize :: u64) = unat cursor + unat cmdsize"
    using le unat_u64_less [of "span_size area"] by (subst unat_add_nowrap) (simp_all add: unat_ucast_u32)
  then have cur: "unat cursor' = unat cursor + unat cmdsize" and x: "x = (l', problem')" using x by (cases x, auto)+
  have "unat (cmdsize mod 4) = unat cmdsize mod 4" by (simp add: unat_mod)
  then have mod4: "unat cmdsize mod 4 = 0" using four by simp
  have eight: "8 \<le> unat cmdsize" using head by (simp add: kLoadCommandHeaderSize_def word_less_nat_alt unat_ucast_u32)
  show ?thesis
    by (rule that [of c command "dec i"]) (use off le cur mod4 eight kind [folded c_def] x sub cmd cmdsize in \<open>auto simp: c_def\<close>)
qed

lemma frame_sel: "frame l' = frame l \<Longrightarrow> sl_size l' = sl_size l \<and> header_end l' = header_end l \<and> sizeofcmds l' = sizeofcmds l"
  by (simp add: frame_def)

lemma ParseKind_wf:
  assumes kind: "ParseKind host scope (sl_size l) command index c (one_more l c) problem = Inr (l', problem')"
    and wf: "parsed_wf l"
  shows "frame l' = frame l \<and> commands l' = commands l @ [c] \<and> parsed_wf l' \<and>
    (problem' = [] \<longrightarrow> problem = [] \<and> ((\<forall>seg \<in> set (segments l). segment_in_file l seg) \<longrightarrow>
      (\<forall>seg \<in> set (segments l'). segment_in_file l' seg)))"
proof -
  note wf1 = parsed_wf_one_more [OF wf, of c]
  note named = wf1 [unfolded parsed_wf_def, THEN conjunct2, THEN conjunct1] wf1 [unfolded parsed_wf_def, THEN conjunct2, THEN conjunct2, THEN conjunct1]
  consider (seg) "lc_cmd c = kLcSegment64"
      "ParseSegment host scope (sl_size l) command index (lc_offset c) (lc_cmdsize c) (one_more l c) problem = Inr (l', problem')"
    | (sig) "lc_cmd c = kLcCodeSignature" "problem' = problem"
      "ParseCodeSignature host scope (sl_size l) command index (lc_offset c) (lc_cmdsize c) (one_more l c) = Inr l'"
    | (ref) "problem' = problem" "ParseReference host command index (lc_cmd c) (lc_cmdsize c) (one_more l c) = Inr l'"
    | (other) "problem' = problem" "l' = one_more l c"
    using kind by (auto simp: ParseKind_def split: if_splits)
  then show ?thesis
  proof cases
    case seg
    from ParseSegment_Inr [OF seg(2) named] obtain s where s: "frame l' = frame l" "commands l' = commands l @ [c]"
      "segments l' = segments l @ [s]" "seg_command_offset s = lc_offset c" "72 \<le> unat (lc_cmdsize c)"
      "problem' = [] \<Longrightarrow> problem = [] \<and> unat (seg_fileoff s) + unat (seg_filesize s) \<le> unat (sl_size l)"
      "text_segment l' = named_segment ''__TEXT'' (segments l')" "linkedit l' = named_segment ''__LINKEDIT'' (segments l')"
      "first_content l' \<le> first_content l" "codesig l' = codesig l" "dylibs l' = dylibs l" by (metis one_more_simps)
    note fr = frame_sel [OF s(1)]
    have "parsed_wf l'"
      using wf s(3-5,7-11) fr seg(1)
      by (auto simp: parsed_wf_def segment_wf_def codesig_wf_def s(2) word_le_nat_alt)
    then show ?thesis using s(1-3,6) fr by (auto simp: segment_in_file_def)
  next
    case sig
    from ParseCodeSignature_Inr [OF sig(3)] obtain cs where cs: "l' = (one_more l c)\<lparr>codesig := Some cs\<rparr>"
      "cs_command_offset cs = lc_offset c" "16 \<le> unat (lc_cmdsize c)"
      "unat (cs_dataoff cs) + unat (cs_datasize cs) \<le> unat (sl_size l)"
      "cs_datasize cs = 0 \<or> unat (header_end l) \<le> unat (cs_dataoff cs)" by (metis one_more_simps(9))
    then show ?thesis
      using wf1 sig(1,2) by (auto simp: parsed_wf_def segment_wf_def codesig_wf_def frame_def one_more_def segment_in_file_def)
  next
    case ref
    from ParseReference_Inr [OF ref(2)] obtain library where
      "l' = (if library \<in> set (dylibs l) then one_more l c else (one_more l c)\<lparr>dylibs := dylibs l @ [library]\<rparr>)"
      by (metis one_more_simps(7))
    then show ?thesis
      using wf1 ref(1) by (auto simp: parsed_wf_def segment_wf_def codesig_wf_def frame_def one_more_def segment_in_file_def)
  next
    case other
    then show ?thesis using wf1 by (auto simp: one_more_def frame_def segment_in_file_def)
  qed
qed

lemma ParseCommand_inv:
  assumes inv: "command_inv l0 st" and run: "ParseCommand host scope (sl_size l0) area st i = Inr st'"
    and area: "span_size area = ucast (sizeofcmds l0)"
  shows "command_inv l0 st' \<and> length (commands (fst st')) = Suc (length (commands (fst st)))"
proof -
  obtain l cursor problem where st: "st = (l, cursor, problem)" by (cases st) auto
  obtain l' cursor' problem' where st': "st' = (l', cursor', problem')" by (cases st') auto
  have n: "unat (span_size area) = unat (sizeofcmds l0)" by (simp add: area unat_ucast_u32)
  have inv': "frame l = frame l0" "parsed_wf l" "tiles 32 (commands l) (32 + unat cursor)"
    "problem = [] \<longrightarrow> (\<forall>seg \<in> set (segments l). segment_in_file l seg)"
    using inv by (simp_all add: command_inv_def st)
  have small: "unat (span_size area) \<le> 4294967296" using n unat_u32_less [of "sizeofcmds l0"] by simp
  from ParseCommand_cases [OF run [unfolded st st'] small] obtain c command index where
    c: "unat (lc_offset c) = 32 + unat cursor" "unat cursor + unat (lc_cmdsize c) \<le> unat (span_size area)"
      "unat cursor' = unat cursor + unat (lc_cmdsize c)" "8 \<le> unat (lc_cmdsize c)" "unat (lc_cmdsize c) mod 4 = 0"
    and kind: "ParseKind host scope (sl_size l0) command index c (one_more l c) problem = Inr (l', problem')" by metis
  have "sl_size l0 = sl_size l" using frame_sel [OF inv'(1)] by simp
  note k = ParseKind_wf [OF kind [unfolded this] inv'(2)]
  show ?thesis using k inv' c n by (auto simp: command_inv_def st st' tiles_snoc)
qed

lemma ParseCommands_inv:
  assumes "command_inv l0 st" and "foldE (ParseCommand host scope (sl_size l0) area) st is = Inr st'"
    and "span_size area = ucast (sizeofcmds l0)"
  shows "command_inv l0 st' \<and> length (commands (fst st')) = length (commands (fst st)) + length is"
  using assms(1,2)
proof (induction "is" arbitrary: st)
  case (Cons i "is")
  then obtain st1 where "ParseCommand host scope (sl_size l0) area st i = Inr st1"
    and rest: "foldE (ParseCommand host scope (sl_size l0) area) st1 is = Inr st'" by auto
  from ParseCommand_inv [OF Cons.prems(1) this(1) assms(3)] have "command_inv l0 st1"
    "length (commands (fst st1)) = Suc (length (commands (fst st)))" by auto
  with Cons.IH [OF _ rest] show ?case by simp
qed simp

text \<open>What \<open>ParseMachOSlice\<close> returns.\<close>

lemma ParseProgram_Inr:
  assumes ok: "span_ok view c" and sz: "unat (sl_size l1) = length c" and l1: "l1 = declined_layout base sz Supported cputype cpusubtype"
    and run: "ParseProgram host view sz scope l1 = Inr l"
  shows "sl_base l = base \<and> sl_size l = sz \<and> support l = Supported \<and> slice_wf l"
proof -
  define l0 where "l0 ftype count area_size = l1\<lparr>filetype := ftype, ncmds := count,
    sizeofcmds := area_size, header_end := kHeader64Size + ucast area_size\<rparr>" for ftype count area_size
  from run obtain ftype count area_size area where
    area: "Sub view kHeader64Size (ucast (area_size :: u32)) ''load commands'' = Inr area"
    and fold: "foldE (ParseCommand host scope sz area) (l0 ftype count area_size, 0, []) [0..<unat count] = Inr (l, ucast area_size, [])"
    unfolding ParseProgram_def l0_def [symmetric] by (auto elim!: guardE bindE_InrE)
  note sub = Sub_span_ok [OF ok area]
  have he: "unat (header_end (l0 ftype count area_size)) = 32 + unat area_size"
    using unat_u32_less [of area_size] by (simp add: l0_def unat_add_nowrap kHeader64Size_def unat_ucast_u32)
  have start: "command_inv (l0 ftype count area_size) (l0 ftype count area_size, 0, [])"
    by (simp add: command_inv_def parsed_wf_def l0_def l1 declined_layout_def named_segment_def)
  have size: "sz = sl_size (l0 ftype count area_size)" "ucast area_size = (ucast (sizeofcmds (l0 ftype count area_size)) :: u64)"
    by (simp_all add: l0_def l1 declined_layout_def)
  from ParseCommands_inv [OF start fold [unfolded size(1)] sub(4) [unfolded size(2)]]
  have fin: "frame l = frame (l0 ftype count area_size)" "parsed_wf l" "tiles 32 (commands l) (32 + unat area_size)"
    "\<forall>seg \<in> set (segments l). segment_in_file l seg" "length (commands l) = unat count"
    by (simp_all add: command_inv_def unat_ucast_u32 l0_def l1 declined_layout_def)
  have "32 + unat area_size \<le> length c" using sub(5) by (simp add: kHeader64Size_def unat_ucast_u32)
  then show ?thesis
    using fin he sz by (auto simp: slice_wf_def unat_ucast_u32 frame_def l0_def l1 declined_layout_def)
qed

text \<open>The view of a slice, the whole file when the slice is the file.\<close>

lemma slice_view:
  assumes "span_ok file bs" and "(if base = 0 \<and> sz = span_size file then Inr file else Sub file base sz scope) = Inr view"
  shows "span_ok view (segment (unat base) (unat sz) bs)" and "unat base + unat sz \<le> length bs"
proof -
  have "span_ok view (segment (unat base) (unat sz) bs) \<and> unat base + unat sz \<le> length bs"
  proof (cases "base = 0 \<and> sz = span_size file")
    case True
    then show ?thesis using assms span_ok_length [OF assms(1)] by simp
  next
    case False
    then have "Sub file base sz scope = Inr view" using assms(2) by (auto split: if_splits)
    then show ?thesis using Sub_span_ok(1,5) [OF assms(1)] by blast
  qed
  then show "span_ok view (segment (unat base) (unat sz) bs)" and "unat base + unat sz \<le> length bs" by auto
qed

lemma ParseMachOSlice_Inr:
  assumes ok: "span_ok file bs" and run: "ParseMachOSlice host file base sz scope = Inr l"
  shows "sl_base l = base \<and> sl_size l = sz \<and> unat base + unat sz \<le> length bs \<and> (support l = Supported \<longrightarrow> slice_wf l)"
proof -
  from run obtain view kind cputype cpusubtype where
    view: "(if base = 0 \<and> sz = span_size file then Inr file else Sub file base sz scope) = Inr view"
    and rest: "(if SupportFor kind \<noteq> Supported then Inr (declined_layout base sz (SupportFor kind) cputype cpusubtype)
      else ParseProgram host view sz scope (declined_layout base sz (SupportFor kind) cputype cpusubtype)) = Inr l"
    unfolding ParseMachOSlice_def Let_def by (elim guardE bindE_InrE) (rule that, assumption+)
  note v = slice_view [OF ok view]
  show ?thesis
  proof (cases "SupportFor kind = Supported")
    case False
    then have "l = declined_layout base sz (SupportFor kind) cputype cpusubtype" using rest by simp
    then show ?thesis using False v(2) by (simp add: declined_layout_def)
  next
    case True
    then have prog: "ParseProgram host view sz scope (declined_layout base sz Supported cputype cpusubtype) = Inr l"
      using rest by simp
    have "unat (sl_size (declined_layout base sz Supported cputype cpusubtype)) = length (segment (unat base) (unat sz) bs)"
      using v(2) by (simp add: declined_layout_def)
    from ParseProgram_Inr [OF v(1) this refl prog] v(2) show ?thesis by simp
  qed
qed

section \<open>Well-formed files\<close>

definition entry_wf :: "nat \<Rightarrow> ContainerEntry \<Rightarrow> bool" where
  "entry_wf n e \<longleftrightarrow> unat (ce_offset e) + unat (ce_size e) \<le> n \<and> sl_base (ce_slice e) = ce_offset e \<and>
     sl_size (ce_slice e) = ce_size e \<and> (support (ce_slice e) = Supported \<longrightarrow> slice_wf (ce_slice e))"

definition disjoint_slices :: "ContainerEntry list \<Rightarrow> bool" where
  "disjoint_slices es \<longleftrightarrow> (\<forall>i < length es. \<forall>j < length es. i \<noteq> j \<longrightarrow>
     unat (ce_offset (es ! i)) + unat (ce_size (es ! i)) \<le> unat (ce_offset (es ! j)) \<or>
     unat (ce_offset (es ! j)) + unat (ce_size (es ! j)) \<le> unat (ce_offset (es ! i)))"

definition table_bytes :: "MachOContainer \<Rightarrow> nat" where
  "table_bytes c = (case form c of Thin \<Rightarrow> 0 | Fat32 \<Rightarrow> 8 + 20 * length (entries c) | Fat64 \<Rightarrow> 8 + 32 * length (entries c))"

definition container_wf :: "nat \<Rightarrow> MachOContainer \<Rightarrow> bool" where
  "container_wf n c \<longleftrightarrow> entries c \<noteq> [] \<and> (\<forall>e \<in> set (entries c). entry_wf n e \<and> table_bytes c \<le> unat (ce_offset e)) \<and>
     disjoint_slices (entries c) \<and> length (entries c) \<le> 256 \<and>
     (form c = Thin \<longrightarrow> (\<exists>e. entries c = [e] \<and> ce_offset e = 0 \<and> unat (ce_size e) = n))"

lemma by_offset_perm: "set (by_offset es) = {..<length es}" "length (by_offset es) = length es" "distinct (by_offset es)"
  by (auto simp: by_offset_def)

lemma by_offset_sorted:
  assumes "k \<le> j" "j < length es"
  shows "ce_offset (es ! (by_offset es ! k)) \<le> ce_offset (es ! (by_offset es ! j))"
proof -
  have "sorted (map (\<lambda>i. ce_offset (es ! i)) (by_offset es))" by (simp add: by_offset_def)
  from sorted_nth_mono [OF this assms(1)] assms show ?thesis by (simp add: by_offset_perm)
qed

lemma foldE_unit_all: "foldE (\<lambda>_. f) () xs = Inr () \<longleftrightarrow> (\<forall>x \<in> set xs. f x = Inr ())"
  by (induction xs) (auto simp: bindE_Inr_iff)

lemma disjoint_when_adjacent:
  assumes ends: "\<forall>i < length es. unat (ce_offset (es ! i) + ce_size (es ! i)) = unat (ce_offset (es ! i)) + unat (ce_size (es ! i))"
    and ok: "CheckOverlap es (by_offset es) = Inr ()"
  shows "disjoint_slices es"
proof -
  let ?o = "by_offset es"
  have index: "?o ! k < length es" if "k < length es" for k
    using that by_offset_perm nth_mem [of k ?o] by auto
  have adj: "unat (ce_offset (es ! (?o ! k))) + unat (ce_size (es ! (?o ! k))) \<le> unat (ce_offset (es ! (?o ! Suc k)))"
    if "Suc k < length es" for k
  proof -
    have "\<not> ce_offset (es ! (?o ! k)) + ce_size (es ! (?o ! k)) > ce_offset (es ! (?o ! Suc k))"
      using ok that unfolding CheckOverlap_def foldE_unit_all
      by (auto simp: by_offset_perm Let_def ThrowMalformed_def dest!: bspec [of _ _ "Suc k"] split: if_splits)
    then show ?thesis using ends index [of k] that by (simp add: word_le_nat_alt not_less)
  qed
  have later: "unat (ce_offset (es ! (?o ! k))) + unat (ce_size (es ! (?o ! k))) \<le> unat (ce_offset (es ! (?o ! j)))"
    if "k < j" "j < length es" for k j
  proof -
    have "ce_offset (es ! (?o ! Suc k)) \<le> ce_offset (es ! (?o ! j))" using that by (intro by_offset_sorted) auto
    then show ?thesis using adj [of k] that by (simp add: word_le_nat_alt)
  qed
  show ?thesis unfolding disjoint_slices_def
  proof (intro allI impI)
    fix i j assume ij: "i < length es" "j < length es" "i \<noteq> j"
    then obtain a b where "a < length es" "?o ! a = i" "b < length es" "?o ! b = j"
      using by_offset_perm by (metis in_set_conv_nth lessThan_iff)
    with ij(3) later [of a b] later [of b a]
    show "unat (ce_offset (es ! i)) + unat (ce_size (es ! i)) \<le> unat (ce_offset (es ! j)) \<or>
      unat (ce_offset (es ! j)) + unat (ce_size (es ! j)) \<le> unat (ce_offset (es ! i))"
      by (cases a b rule: linorder_cases) auto
  qed
qed

lemma ReadFatEntry_Inr:
  assumes ok: "span_ok file bs" and run: "ReadFatEntry host file wide table_end i = Inr e"
  shows "unat (ce_offset e) + unat (ce_size e) \<le> length bs" and "table_end \<le> ce_offset e"
proof -
  from run obtain offset sz sub name cputype cpusubtype align where sub: "Sub file offset sz name = Inr sub" and te: "\<not> offset < table_end"
    and e: "\<lparr>ce_cputype = cputype, ce_cpusubtype = cpusubtype, ce_offset = offset, ce_size = sz, ce_align = align, ce_slice = empty_slice\<rparr> = e"
    unfolding ReadFatEntry_def Let_def
    by (elim guardE bindE_InrE) (simp only: split_beta, elim guardE bindE_InrE, simp only: sum.inject, rule that, assumption+)
  then show "unat (ce_offset e) + unat (ce_size e) \<le> length bs" and "table_end \<le> ce_offset e"
    using Sub_span_ok(5) [OF ok sub] by auto
qed

lemma ParseFat_Inr:
  assumes ok: "span_ok file bs" and run: "ParseFat host file wide = Inr c"
  shows "container_wf (length bs) c" and "form c = (if wide then Fat64 else Fat32)"
proof -
  define esize :: u64 where "esize = (if wide then kFatArch64Size else kFatArch32Size)"
  from run obtain count :: u32 and es u es' where
    n: "\<not> (ucast count = (0 :: u64) \<or> ucast count > kMaxFatArchCount)"
    and rows: "mapE (ReadFatEntry host file wide (kFatHeaderSize + ucast count * esize)) [0..<unat (ucast count :: u64)] = Inr es"
    and over: "CheckOverlap es (by_offset es) = Inr u"
    and slices: "mapE (ParseEntry host file) (zip es [0..<length es]) = Inr es'"
    and c: "\<lparr>form = (if wide then Fat64 else Fat32), entries = es'\<rparr> = c"
    unfolding ParseFat_def Let_def esize_def [symmetric] by (elim guardE bindE_InrE) (unfold sum.inject, rule that, assumption+)
  have cnt: "unat count \<le> 256" "unat count \<noteq> 0"
    using n by (auto simp: kMaxFatArchCount_def word_less_nat_alt word_unat_eq_iff [where 'a = 64] unat_ucast_u32)
  have es_len: "length es = unat count" using mapE_Inr_length [OF rows] by (simp add: unat_ucast_u32)
  have len: "length es' = length es" using mapE_Inr_length [OF slices] by simp
  have row: "unat (ce_offset (es ! i)) + unat (ce_size (es ! i)) \<le> length bs"
      "kFatHeaderSize + ucast count * esize \<le> ce_offset (es ! i)" if "i < length es" for i
    using ReadFatEntry_Inr [OF ok mapE_Inr_nth [OF rows, of i]] that mapE_Inr_length [OF rows] by simp_all
  have slice: "ce_offset (es' ! i) = ce_offset (es ! i) \<and> ce_size (es' ! i) = ce_size (es ! i) \<and> entry_wf (length bs) (es' ! i)"
    if "i < length es" for i
  proof -
    have "ParseEntry host file (es ! i, i) = Inr (es' ! i)" using mapE_Inr_nth [OF slices, of i] that by simp
    then obtain sl where sl: "ParseMachOSlice host file (ce_offset (es ! i)) (ce_size (es ! i)) (''fat slice '' @ dec i) = Inr sl"
      and e: "es' ! i = (es ! i)\<lparr>ce_slice := sl\<rparr>" by (auto simp: ParseEntry_def)
    then show ?thesis using ParseMachOSlice_Inr [OF ok sl] by (simp add: entry_wf_def)
  qed
  have te: "unat (kFatHeaderSize + ucast count * esize :: u64) = 8 + (if wide then 32 else 20) * unat count"
    using cnt by (simp add: esize_def kFatArch64Size_def kFatArch32Size_def kFatHeaderSize_def word_nat_simps unat_ucast_u32)
  have "unat (ce_offset (es ! i) + ce_size (es ! i)) = unat (ce_offset (es ! i)) + unat (ce_size (es ! i))" if "i < length es" for i
    using row [OF that] span_ok_less [OF ok] by (intro unat_add_nowrap) simp
  then have "disjoint_slices es" using over by (intro disjoint_when_adjacent) simp_all
  then have dis: "disjoint_slices es'" using slice by (simp add: disjoint_slices_def len)
  have "table_bytes c \<le> unat (ce_offset e) \<and> entry_wf (length bs) e" if "e \<in> set es'" for e
  proof -
    from that obtain i where i: "i < length es" "e = es' ! i" by (auto simp: in_set_conv_nth len)
    then show ?thesis using row(2) slice te es_len len by (auto simp: word_le_nat_alt table_bytes_def c [symmetric])
  qed
  then show "container_wf (length bs) c"
    using dis cnt es_len len by (auto simp: container_wf_def c [symmetric])
  show "form c = (if wide then Fat64 else Fat32)" by (simp add: c [symmetric])
qed

lemma ParseMachOContainer_wf:
  assumes ok: "span_ok file bs" and run: "ParseMachOContainer host file = Inr c"
  shows "container_wf (length bs) c"
proof -
  from run consider (thin) sl where "ParseMachOSlice host file 0 (span_size file) ''the file'' = Inr sl"
      "c = \<lparr>form = Thin, entries = [\<lparr>ce_cputype = sl_cputype sl, ce_cpusubtype = sl_cpusubtype sl, ce_offset = 0,
              ce_size = span_size file, ce_align = 0, ce_slice = sl\<rparr>]\<rparr>"
    | (fat) wide where "ParseFat host file wide = Inr c"
    by (auto simp: ParseMachOContainer_def ThrowMalformed_def split: if_splits)
  then show ?thesis
  proof cases
    case thin
    then show ?thesis using ParseMachOSlice_Inr [OF ok thin(1)] span_ok_length [OF ok]
      by (simp add: container_wf_def entry_wf_def table_bytes_def disjoint_slices_def)
  next
    case fat
    then show ?thesis by (rule ParseFat_Inr(1) [OF ok])
  qed
qed

section \<open>The libraries that are listed\<close>

text \<open>
  \<open>first_occurrences\<close> keeps the first of equal names. \<open>command_at\<close> and \<open>names_dylib\<close> say what the bytes \<open>view\<close> of a program
  hold at a load command.
\<close>

definition add_new :: "'a list \<Rightarrow> 'a \<Rightarrow> 'a list" where
  "add_new xs x = (if x \<in> set xs then xs else xs @ [x])"

definition first_occurrences :: "'a list \<Rightarrow> 'a list" where
  "first_occurrences xs = foldl add_new [] xs"

definition command_at :: "bytes \<Rightarrow> LoadCommandEntry \<Rightarrow> bool" where
  "command_at view c \<longleftrightarrow> lc_cmd c = load_word Little (segment (unat (lc_offset c)) 4 view) \<and>
     lc_cmdsize c = load_word Little (segment (unat (lc_offset c) + 4) 4 view)"

definition names_dylib :: "bytes \<Rightarrow> LoadCommandEntry \<Rightarrow> string \<Rightarrow> bool" where
  "names_dylib view c name \<longleftrightarrow> string_at (segment (unat (lc_offset c)) (unat (lc_cmdsize c)) view)
     (unat (load_word Little (segment (unat (lc_offset c) + 8) 4 view) :: u32)) name"

lemma foldl_add_new:
  "set (foldl add_new acc xs) = set acc \<union> set xs" "distinct acc \<Longrightarrow> distinct (foldl add_new acc xs)"
  by (induction xs arbitrary: acc) (auto simp: add_new_def)

lemma first_occurrences: "set (first_occurrences xs) = set xs" "distinct (first_occurrences xs)"
  by (simp_all add: first_occurrences_def foldl_add_new)

lemma ParseReference_names:
  assumes ok: "span_ok command cb" and size: "length cb = unat cmdsize"
    and run: "ParseReference host command index cmd cmdsize l = Inr l'"
  obtains name where "dylibs l' = add_new (dylibs l) name"
    and "string_at cb (unat (load_word Little (segment 8 4 cb) :: u32)) name" and "24 \<le> unat cmdsize"
proof -
  from run obtain off name where big: "\<not> (ucast cmdsize :: u64) < kDylibCommandMinSize" and off: "Read host command 8 Little ''dylib name offset'' = Inr (off :: u32)"
    and name: "CString command (ucast off) (ucast cmdsize) (ReferenceCommandName cmd @ '' command '' @ index @ '' name'') = Inr name"
    and l': "(if name \<in> set (dylibs l) then l else l\<lparr>dylibs := dylibs l @ [name]\<rparr>) = l'"
    unfolding ParseReference_def Let_def append_assoc by (elim guardE bindE_InrE) (unfold sum.inject, rule that, assumption+)
  have "off = load_word Little (segment 8 4 cb)"
    using off by (auto simp: Read_eq [OF ok] ThrowMalformed_def split: if_splits)
  moreover have "string_at cb (unat off) name" using CString_string_at [OF ok name] by (simp add: unat_ucast_u32)
  moreover have "dylibs l' = add_new (dylibs l) name" by (auto simp: l' [symmetric] add_new_def)
  moreover have "24 \<le> unat cmdsize" using big by (simp add: kDylibCommandMinSize_def word_less_nat_alt unat_ucast_u32)
  ultimately show ?thesis using that by blast
qed

lemma ParseKind_names:
  assumes ok: "span_ok command cb" and size: "length cb = unat (lc_cmdsize c)"
    and run: "ParseKind host scope sz command index c (one_more l c) problem = Inr (l', problem')"
    and seg: "text_segment l = named_segment ''__TEXT'' (segments l)" "linkedit l = named_segment ''__LINKEDIT'' (segments l)"
  shows "if IsReferenceCommand (lc_cmd c)
    then \<exists>name. dylibs l' = add_new (dylibs l) name \<and> string_at cb (unat (load_word Little (segment 8 4 cb) :: u32)) name \<and>
      24 \<le> unat (lc_cmdsize c)
    else dylibs l' = dylibs l"
proof -
  have distinct_kinds: "IsReferenceCommand cmd \<Longrightarrow> cmd \<noteq> kLcSegment64 \<and> cmd \<noteq> kLcCodeSignature" for cmd
    by (auto simp: IsReferenceCommand_def kLcSegment64_def kLcCodeSignature_def kLcLoadDylib_def kLcLoadWeakDylib_def
        kLcReexportDylib_def kLcLazyLoadDylib_def kLcLoadUpwardDylib_def)
  show ?thesis
  proof (cases "IsReferenceCommand (lc_cmd c)")
    case True
    then have "ParseReference host command index (lc_cmd c) (lc_cmdsize c) (one_more l c) = Inr l'"
      using run distinct_kinds [OF True] by (auto simp: ParseKind_def)
    from ParseReference_names [OF ok size this] True show ?thesis by auto
  next
    case False
    have seg': "text_segment (one_more l c) = named_segment ''__TEXT'' (segments (one_more l c))"
      "linkedit (one_more l c) = named_segment ''__LINKEDIT'' (segments (one_more l c))" using seg by simp_all
    show ?thesis
      using run False
      by (auto simp: ParseKind_def split: if_splits elim!: ParseSegment_Inr [OF _ seg'] ParseCodeSignature_Inr)
  qed
qed

text \<open>The loop over the commands of a program whose bytes are \<open>view\<close>.\<close>

definition names_inv :: "bytes \<Rightarrow> SliceLayout \<Rightarrow> bool" where
  "names_inv view l \<longleftrightarrow> list_all (command_at view) (commands l) \<and>
     (\<exists>names. list_all2 (names_dylib view) (filter (\<lambda>c. IsReferenceCommand (lc_cmd c)) (commands l)) names \<and>
       dylibs l = first_occurrences names)"

lemma names_inv_step:
  assumes "names_inv view l" and "commands l' = commands l @ [c]" and "command_at view c"
    and "if IsReferenceCommand (lc_cmd c) then \<exists>name. dylibs l' = add_new (dylibs l) name \<and> names_dylib view c name
      else dylibs l' = dylibs l"
  shows "names_inv view l'"
proof -
  from assms(1) obtain names where n: "list_all2 (names_dylib view) (filter (\<lambda>c. IsReferenceCommand (lc_cmd c)) (commands l)) names"
    "dylibs l = first_occurrences names" by (auto simp: names_inv_def)
  have "first_occurrences (names @ [name]) = add_new (first_occurrences names) name" for name
    by (simp add: first_occurrences_def)
  note snoc = this
  have at: "list_all (command_at view) (commands l')" using assms(1-3) by (simp add: names_inv_def)
  show ?thesis
  proof (cases "IsReferenceCommand (lc_cmd c)")
    case True
    then obtain name where "dylibs l' = add_new (dylibs l) name" "names_dylib view c name" using assms(4) by auto
    then show ?thesis unfolding names_inv_def using at n True assms(2)
      by (intro conjI exI [of _ "names @ [name]"]) (simp_all add: snoc list_all2_appendI)
  next
    case False
    then show ?thesis unfolding names_inv_def using at n assms(2,4) by (intro conjI exI [of _ names]) simp_all
  qed
qed

lemma ParseCommand_names:
  assumes inv: "names_inv view l" and wf: "parsed_wf l"
    and run: "ParseCommand host scope (sl_size l) area (l, cursor, problem) i = Inr (l', cursor', problem')"
    and ok: "span_ok area (segment 32 (unat (span_size area)) view)" and fits: "32 + unat (span_size area) \<le> length view"
    and small: "unat (span_size area) \<le> 4294967296"
  shows "names_inv view l'"
proof -
  from ParseCommand_cases [OF run small] obtain c command index where
    c: "unat (lc_offset c) = 32 + unat cursor" "unat cursor + unat (lc_cmdsize c) \<le> unat (span_size area)" "8 \<le> unat (lc_cmdsize c)"
    and kind: "ParseKind host scope (sl_size l) command index c (one_more l c) problem = Inr (l', problem')"
    and r: "Read host area cursor Little ''load command'' = Inr (lc_cmd c)"
      "Read host area (cursor + 4) Little ''load command size'' = Inr (lc_cmdsize c)"
    and sub: "Sub area cursor (ucast (lc_cmdsize c)) (''load command '' @ index) = Inr command" by metis
  have four: "unat (cursor + 4) = unat cursor + 4" using c small by (subst unat_add_nowrap) simp_all
  have at: "command_at view c"
    using r c fits by (auto simp: Read_eq [OF ok] four command_at_def segment_segment ThrowMalformed_def split: if_splits)
  define cb where "cb = segment (unat (lc_offset c)) (unat (lc_cmdsize c)) view"
  have cok: "span_ok command cb"
    using Sub_span_ok(1) [OF ok sub] c by (simp add: cb_def unat_ucast_u32 segment_segment)
  have clen: "length cb = unat (lc_cmdsize c)" using c fits by (simp add: cb_def)
  have same: "segment 8 4 cb = segment (unat (lc_offset c) + 8) 4 view" if "24 \<le> unat (lc_cmdsize c)"
    using that by (simp add: cb_def segment_segment)
  have cmds: "commands l' = commands l @ [c]" using ParseKind_wf [OF kind wf] by blast
  have named: "text_segment l = named_segment ''__TEXT'' (segments l)" "linkedit l = named_segment ''__LINKEDIT'' (segments l)"
    using wf by (simp_all add: parsed_wf_def)
  show ?thesis
    by (rule names_inv_step [OF inv cmds at])
      (use ParseKind_names [OF cok clen kind named] same in \<open>auto simp: names_dylib_def cb_def [symmetric] split: if_splits\<close>)
qed

lemma ParseCommands_names:
  assumes "command_inv l0 st" and "names_inv view (fst st)"
    and "foldE (ParseCommand host scope (sl_size l0) area) st is = Inr st'"
    and size: "span_size area = ucast (sizeofcmds l0)"
    and ok: "span_ok area (segment 32 (unat (span_size area)) view)" and fits: "32 + unat (span_size area) \<le> length view"
  shows "names_inv view (fst st')"
  using assms(1-3)
proof (induction "is" arbitrary: st)
  case (Cons i "is")
  then obtain st1 where step: "ParseCommand host scope (sl_size l0) area st i = Inr st1"
    and rest: "foldE (ParseCommand host scope (sl_size l0) area) st1 is = Inr st'" by auto
  have small: "unat (span_size area) \<le> 4294967296" using unat_u32_less [of "sizeofcmds l0"] by (simp add: size unat_ucast_u32)
  obtain l cursor problem where st: "st = (l, cursor, problem)" by (cases st) auto
  obtain l' cursor' problem' where st1: "st1 = (l', cursor', problem')" by (cases st1) auto
  have l: "parsed_wf l" "sl_size l0 = sl_size l" using Cons.prems(1) by (auto simp: command_inv_def st frame_def)
  have "names_inv view l'"
    using ParseCommand_names [OF _ l(1) step [unfolded st st1 l(2)] ok fits small] Cons.prems(2) by (simp add: st)
  then show ?case using Cons.IH [OF _ _ rest] ParseCommand_inv [OF Cons.prems(1) step size] by (simp add: st1)
qed simp

lemma ParseProgram_names:
  assumes ok: "span_ok view c" and sz: "unat (sl_size l1) = length c" and l1: "l1 = declined_layout base sz Supported cputype cpusubtype"
    and run: "ParseProgram host view sz scope l1 = Inr l"
  shows "names_inv c l"
proof -
  define l0 where "l0 ftype count area_size = l1\<lparr>filetype := ftype, ncmds := count,
    sizeofcmds := area_size, header_end := kHeader64Size + ucast area_size\<rparr>" for ftype count area_size
  from run obtain ftype count area_size area where
    area: "Sub view kHeader64Size (ucast (area_size :: u32)) ''load commands'' = Inr area"
    and fold: "foldE (ParseCommand host scope sz area) (l0 ftype count area_size, 0, []) [0..<unat count] = Inr (l, ucast area_size, [])"
    unfolding ParseProgram_def l0_def [symmetric] by (auto elim!: guardE bindE_InrE)
  note sub = Sub_span_ok [OF ok area]
  have start: "command_inv (l0 ftype count area_size) (l0 ftype count area_size, 0, [])"
    by (simp add: command_inv_def parsed_wf_def l0_def l1 declined_layout_def named_segment_def)
  have size: "sz = sl_size (l0 ftype count area_size)" "ucast area_size = (ucast (sizeofcmds (l0 ftype count area_size)) :: u64)"
    by (simp_all add: l0_def l1 declined_layout_def)
  have "names_inv c (fst (l0 ftype count area_size, 0 :: u64, [] :: string))"
    by (simp add: names_inv_def l0_def l1 declined_layout_def first_occurrences_def)
  from ParseCommands_names [OF start this fold [unfolded size(1)] sub(4) [unfolded size(2)]] sub(1,4,5)
  show ?thesis by (simp add: kHeader64Size_def)
qed

lemma ParseMachOSlice_names:
  assumes ok: "span_ok file bs" and run: "ParseMachOSlice host file base sz scope = Inr l" and "support l = Supported"
  shows "names_inv (segment (unat base) (unat sz) bs) l"
proof -
  from run obtain view kind cputype cpusubtype where
    view: "(if base = 0 \<and> sz = span_size file then Inr file else Sub file base sz scope) = Inr view"
    and rest: "(if SupportFor kind \<noteq> Supported then Inr (declined_layout base sz (SupportFor kind) cputype cpusubtype)
      else ParseProgram host view sz scope (declined_layout base sz (SupportFor kind) cputype cpusubtype)) = Inr l"
    unfolding ParseMachOSlice_def Let_def by (elim guardE bindE_InrE) (rule that, assumption+)
  note v = slice_view [OF ok view]
  have prog: "ParseProgram host view sz scope (declined_layout base sz Supported cputype cpusubtype) = Inr l"
    using rest assms(3) by (auto simp: declined_layout_def split: if_splits)
  have "unat (sl_size (declined_layout base sz Supported cputype cpusubtype)) = length (segment (unat base) (unat sz) bs)"
    using v(2) by (simp add: declined_layout_def)
  from ParseProgram_names [OF v(1) this refl prog] show ?thesis .
qed

end
