(* ===== verification/Macho_Parser.thy ===== *)
theory Macho_Parser
  imports Macho_Layout
begin

text \<open>
  \<open>include/libthe-seed/MachOParser.hpp\<close> and \<open>src/MachOParser.cpp\<close>: the format of a file, its slices and the
  libraries it names. What reading the file gives (\<open>ReadFileBytes\<close>, or opening a
  \<open>PagedFile\<close>) is an argument: the bytes or the exception.
\<close>

section \<open>Operations\<close>

datatype Format = FormatMachO32 | FormatMachO64 | FormatFat | NotMachO

record ArchSlice =
  cpu_type :: u32
  cpu_subtype :: u32
  slice_offset :: u64
  slice_size :: u64
  is_signed :: bool
  signature_offset :: u64
  signature_size :: u64
  supported :: bool
  unsupported_reason :: string

definition RequireFourBytes :: "bytes \<Rightarrow> unit res" where
  "RequireFourBytes bs =
     (if length bs < 4 then ThrowMalformed macho_format ''File too small to be a Mach-O binary'' else Inr ())"

fun FormatOfKind :: "MachOKind \<Rightarrow> Format" where
  "FormatOfKind Thin32Little = FormatMachO32"
| "FormatOfKind Thin32Big = FormatMachO32"
| "FormatOfKind Thin64Little = FormatMachO64"
| "FormatOfKind Thin64Big = FormatMachO64"
| "FormatOfKind KindFat32 = FormatFat"
| "FormatOfKind KindFat64 = FormatFat"
| "FormatOfKind UnknownKind = NotMachO"

definition DetectFormat :: "ByteOrder \<Rightarrow> PagedFile res \<Rightarrow> Format res" where
  "DetectFormat host opened =
     GuardEntryPoint macho_format (bindE opened (\<lambda>file.
     bindE (ClassifyMachOMagic host (ByteSpan_of_file file macho_format ''the file'')) (\<lambda>kind.
     Inr (FormatOfKind kind))))"

definition MachOParser_IsMachO :: "ByteOrder \<Rightarrow> PagedFile res \<Rightarrow> bool res" where
  "MachOParser_IsMachO host opened = bindE (DetectFormat host opened) (\<lambda>f. Inr (f \<noteq> NotMachO))"

definition IsFatBinary :: "ByteOrder \<Rightarrow> PagedFile res \<Rightarrow> bool res" where
  "IsFatBinary host opened = bindE (DetectFormat host opened) (\<lambda>f. Inr (f = FormatFat))"

definition SliceOf :: "ContainerEntry \<Rightarrow> ArchSlice" where
  "SliceOf entry =
     (let sig = codesig (ce_slice entry); sup = support (ce_slice entry) in
      \<lparr>cpu_type = ce_cputype entry, cpu_subtype = ce_cpusubtype entry, slice_offset = ce_offset entry,
       slice_size = ce_size entry, is_signed = (sig \<noteq> None),
       signature_offset = (case sig of None \<Rightarrow> 0 | Some s \<Rightarrow> ucast (cs_dataoff s)),
       signature_size = (case sig of None \<Rightarrow> 0 | Some s \<Rightarrow> ucast (cs_datasize s)),
       supported = (sup = Supported), unsupported_reason = (if sup = Supported then [] else DeclineText sup)\<rparr>)"

definition ParseBytes :: "ByteOrder \<Rightarrow> bytes \<Rightarrow> MachOContainer res" where
  "ParseBytes host bs =
     bindE (RequireFourBytes bs) (\<lambda>_. ParseMachOContainer host (ByteSpan_of_bytes bs macho_format ''the file''))"

definition GetArchSlices :: "ByteOrder \<Rightarrow> bytes res \<Rightarrow> ArchSlice list res" where
  "GetArchSlices host content =
     GuardEntryPoint macho_format (bindE content (\<lambda>bs.
     bindE (ParseBytes host bs) (\<lambda>container.
     Inr (map SliceOf (entries container)))))"

text \<open>The refusal of a slice that is not supported, and the loop over the slices.\<close>

definition DeclineSlice :: "string \<Rightarrow> ContainerForm \<Rightarrow> nat \<Rightarrow> ContainerEntry \<Rightarrow> 'a res" where
  "DeclineSlice file_path frm i entry =
     Inl (runtime_error (file_path @ '': '' @
       (if frm = Thin then [] else ''slice '' @ dec i @ '' ('' @ ArchName (ce_cputype entry) @ ''): '') @
       DeclineText (support (ce_slice entry))))"

definition ListSlice :: "string \<Rightarrow> ContainerForm \<Rightarrow> string list \<Rightarrow> ContainerEntry \<times> nat \<Rightarrow> string list res" where
  "ListSlice file_path frm deps e =
     (if support (ce_slice (fst e)) \<noteq> Supported then DeclineSlice file_path frm (snd e) (fst e)
      else Inr (foldl add_new deps (dylibs (ce_slice (fst e)))))"

definition MachOParser_ListDependencies :: "ByteOrder \<Rightarrow> string \<Rightarrow> bytes res \<Rightarrow> string list res" where
  "MachOParser_ListDependencies host file_path content =
     GuardEntryPoint macho_format (bindE content (\<lambda>bs.
     bindE (ParseBytes host bs) (\<lambda>container.
     foldE (ListSlice file_path (form container)) [] (zip (entries container) [0..<length (entries container)]))))"

section \<open>Lemmas\<close>

lemma rejects_ParseBytes [rejects_intros]: "length bs < 2 ^ 64 \<Longrightarrow> rejects macho_format (ParseBytes host bs)"
  unfolding ParseBytes_def RequireFourBytes_def by (intro rejects_intros good_bytes)

lemma ParseBytes_Inr:
  assumes "length bs < 2 ^ 64" and "ParseBytes host bs = Inr c"
  shows "ParseMachOContainer host (ByteSpan_of_bytes bs macho_format ''the file'') = Inr c" and "container_wf (length bs) c"
proof -
  show p: "ParseMachOContainer host (ByteSpan_of_bytes bs macho_format ''the file'') = Inr c"
    using assms(2) by (auto simp: ParseBytes_def RequireFourBytes_def)
  show "container_wf (length bs) c" by (rule ParseMachOContainer_wf [OF span_ok_bytes [OF assms(1)] p])
qed

lemma add_new_cases: "x \<in> set xs \<Longrightarrow> add_new xs x = xs" "x \<notin> set xs \<Longrightarrow> add_new xs x = xs @ [x]"
  by (simp_all add: add_new_def)

lemma add_new_absorb: "foldl add_new acc (first_occurrences xs) = foldl add_new acc xs"
proof (induction xs rule: rev_induct)
  case (snoc x xs)
  have "first_occurrences (xs @ [x]) = add_new (first_occurrences xs) x" by (simp add: first_occurrences_def)
  then show ?case
    using snoc by (cases "x \<in> set xs") (simp_all add: add_new_cases first_occurrences foldl_add_new)
qed (simp add: first_occurrences_def)

text \<open>The library names that one entry records.\<close>

definition recorded_names :: "bytes \<Rightarrow> ContainerEntry \<Rightarrow> string list \<Rightarrow> bool" where
  "recorded_names bs e names \<longleftrightarrow>
     list_all2 (names_dylib (segment (unat (ce_offset e)) (unat (ce_size e)) bs))
       (filter (\<lambda>c. IsReferenceCommand (lc_cmd c)) (commands (ce_slice e))) names \<and>
     list_all (command_at (segment (unat (ce_offset e)) (unat (ce_size e)) bs)) (commands (ce_slice e))"

lemma entry_recorded_names:
  assumes ok: "span_ok file bs" and run: "ParseMachOContainer host file = Inr c" and e: "e \<in> set (entries c)"
    and sup: "support (ce_slice e) = Supported"
  shows "\<exists>names. recorded_names bs e names \<and> dylibs (ce_slice e) = first_occurrences names"
proof -
  have slice: "\<exists>scope. ParseMachOSlice host file (ce_offset e) (ce_size e) scope = Inr (ce_slice e)"
  proof -
    from run consider (thin) sl where "ParseMachOSlice host file 0 (span_size file) ''the file'' = Inr sl"
        "c = \<lparr>form = Thin, entries = [\<lparr>ce_cputype = sl_cputype sl, ce_cpusubtype = sl_cpusubtype sl, ce_offset = 0,
              ce_size = span_size file, ce_align = 0, ce_slice = sl\<rparr>]\<rparr>"
      | (fat) wide where "ParseFat host file wide = Inr c"
      by (auto simp: ParseMachOContainer_def ThrowMalformed_def split: if_splits)
    then show ?thesis
    proof cases
      case thin
      then show ?thesis using e by auto
    next
      case fat
      then obtain es where m: "mapE (ParseEntry host file) (zip es [0..<length es]) = Inr (entries c)"
        by (auto simp: ParseFat_def Let_def ThrowMalformed_def split: if_splits)
      from e obtain i where i: "i < length (entries c)" "e = entries c ! i" by (auto simp: in_set_conv_nth)
      then have "ParseEntry host file (es ! i, i) = Inr e"
        using mapE_Inr_nth [OF m, of i] mapE_Inr_length [OF m] by simp
      then show ?thesis by (auto simp: ParseEntry_def)
    qed
  qed
  then show ?thesis
    using ParseMachOSlice_names [OF ok _ sup] by (fastforce simp: names_inv_def recorded_names_def)
qed

lemma ListSlices_Inr:
  assumes "foldE (ListSlice file_path frm) deps (zip es is) = Inr deps'" and "length is = length es"
    and "\<And>e. e \<in> set es \<Longrightarrow> support (ce_slice e) = Supported \<Longrightarrow> \<exists>names. P e names \<and> dylibs (ce_slice e) = first_occurrences names"
  shows "(\<forall>e \<in> set es. support (ce_slice e) = Supported) \<and>
    (\<exists>namess. list_all2 P es namess \<and> deps' = foldl add_new deps (concat namess))"
  using assms
proof (induction es arbitrary: deps "is")
  case (Cons e es)
  then obtain i is' where "is": "is = i # is'" "length is' = length es" by (cases "is") auto
  then obtain deps1 where one: "ListSlice file_path frm deps (e, i) = Inr deps1"
    and rest: "foldE (ListSlice file_path frm) deps1 (zip es is') = Inr deps'" using Cons.prems(1) by auto
  have sup: "support (ce_slice e) = Supported" and d1: "deps1 = foldl add_new deps (dylibs (ce_slice e))"
    using one by (auto simp: ListSlice_def DeclineSlice_def split: if_splits)
  from Cons.prems(3) [OF _ sup] obtain names where n: "P e names" "dylibs (ce_slice e) = first_occurrences names" by auto
  from Cons.IH [OF rest "is"(2)] Cons.prems(3) obtain namess where
    ns: "\<forall>e \<in> set es. support (ce_slice e) = Supported" "list_all2 P es namess" "deps' = foldl add_new deps1 (concat namess)" by auto
  have "deps1 = foldl add_new deps names" by (simp add: d1 n(2) add_new_absorb)
  then show ?case using sup n(1) ns by (auto intro!: exI [of _ "names # namess"])
qed simp

section \<open>Properties\<close>

text \<open>A program of 64 bytes: a header and one \<open>LC_LOAD_DYLIB\<close> command that names \<open>a\<close>.\<close>

definition tiny_macho :: bytes where
  "tiny_macho = [0xCF, 0xFA, 0xED, 0xFE, 7, 0, 0, 1, 3, 0, 0, 0, 2, 0, 0, 0, 1, 0, 0, 0, 32, 0, 0, 0] @ replicate 8 0 @
     [0x0C, 0, 0, 0, 32, 0, 0, 0, 24, 0, 0, 0] @ replicate 12 0 @ [0x61] @ replicate 7 0"

lemma length_tiny_macho: "length tiny_macho = 64"
  by (simp add: tiny_macho_def)

lemma span_tiny_macho:
  "ByteSpan_of_bytes tiny_macho fmt sc = \<lparr>backing = Memory tiny_macho, span_size = 64, span_format = fmt, span_scope = sc\<rparr>"
  by (simp add: ByteSpan_of_bytes_def length_tiny_macho)

lemma tiny_macho_listed: "MachOParser_ListDependencies Little ''p'' (Inr tiny_macho) = Inr [''a'']"
  unfolding MachOParser_ListDependencies_def ParseBytes_def bindE_simps span_tiny_macho by code_simp

text \<open>
  C19: whatever the bytes, the layout of a Mac program is a container or the documented rejection, a
  \<open>std::runtime_error\<close> that starts with \<open>Mach-O: \<close>; no read leaves the file and no number wraps on the way.
\<close>

theorem macho_returns_or_rejects:
  assumes "length bs < 2 ^ 64"
  shows "(\<exists>slices. GetArchSlices host (Inr bs) = Inr slices) \<or>
    (\<exists>detail. GetArchSlices host (Inr bs) = Inl (runtime_error (macho_format @ '': '' @ detail)))"
proof -
  have "rejects macho_format (GetArchSlices host (Inr bs))"
    unfolding GetArchSlices_def bindE_simps by (intro rejects_intros assms)
  then show ?thesis by (cases "GetArchSlices host (Inr bs)") (auto simp: rejects_def)
qed

theorem macho_returns_or_rejects_witness:
  "\<exists>detail. GetArchSlices Little (Inr [0xCF, 0xFA]) = Inl (runtime_error (macho_format @ '': '' @ detail))"
  using macho_returns_or_rejects [of "[0xCF, 0xFA]" Little]
  by (auto simp: GetArchSlices_def ParseBytes_def RequireFourBytes_def ThrowMalformed_def)

text \<open>
  C17: an accepted file is well formed: its slices are disjoint and lie between the table and the end of the file, and in
  every supported slice the load commands tile the area that the header describes, the signature and every segment
  lie inside the slice, the signature is not inside the load commands, and the named segments are
  those of the commands.
\<close>

theorem macho_accepts_well_formed:
  assumes "length bs < 2 ^ 64" and "ParseBytes host bs = Inr c"
  shows "container_wf (length bs) c"
  by (rule ParseBytes_Inr(2) [OF assms])

theorem macho_accepts_well_formed_witness: "\<exists>c. ParseBytes Little tiny_macho = Inr c \<and> container_wf 64 c"
proof -
  obtain c where c: "ParseBytes Little tiny_macho = Inr c"
    using tiny_macho_listed by (cases "ParseBytes Little tiny_macho"; cases "projl (ParseBytes Little tiny_macho)")
      (auto simp: MachOParser_ListDependencies_def)
  then show ?thesis using macho_accepts_well_formed [OF _ c] by (simp add: length_tiny_macho)
qed

text \<open>
  C18: \<open>ListDependencies\<close> lists exactly the names that the five kinds of reference command of every slice record, in the
  order of the file, each once; a name is the NUL-terminated string inside its command. It only
  answers for files all of whose slices are supported.
\<close>

theorem macho_lists_references:
  assumes "length bs < 2 ^ 64" and "MachOParser_ListDependencies host file_path (Inr bs) = Inr deps"
  shows "\<exists>c namess. ParseBytes host bs = Inr c \<and> (\<forall>e \<in> set (entries c). support (ce_slice e) = Supported) \<and>
    list_all2 (recorded_names bs) (entries c) namess \<and> deps = first_occurrences (concat namess)"
proof -
  have guard: "GuardEntryPoint f r = Inr x \<longleftrightarrow> r = Inr x" for f and r :: "'b res" and x
    by (cases "(f, r)" rule: GuardEntryPoint.cases) auto
  from assms(2) obtain c where c: "ParseBytes host bs = Inr c"
    and fold: "foldE (ListSlice file_path (form c)) [] (zip (entries c) [0..<length (entries c)]) = Inr deps"
    by (auto simp: MachOParser_ListDependencies_def guard)
  note p = ParseBytes_Inr(1) [OF assms(1) c]
  have len: "length [0..<length (entries c)] = length (entries c)" by simp
  from ListSlices_Inr [OF fold len, of "recorded_names bs"] entry_recorded_names [OF span_ok_bytes [OF assms(1)] p]
  show ?thesis using c by (auto simp: first_occurrences_def)
qed

theorem macho_lists_references_witness:
  "\<exists>c namess. ParseBytes Little tiny_macho = Inr c \<and> list_all2 (recorded_names tiny_macho) (entries c) namess \<and>
    [''a''] = first_occurrences (concat namess)"
proof -
  have small: "length tiny_macho < 2 ^ 64" by (simp add: length_tiny_macho)
  from macho_lists_references [OF small tiny_macho_listed] obtain c namess where
    "ParseBytes Little tiny_macho = Inr c" "list_all2 (recorded_names tiny_macho) (entries c) namess"
    "[''a''] = first_occurrences (concat namess)" by (elim exE conjE)
  then show ?thesis by (intro exI conjI)
qed

end
