(* ===== verification/Dependency_Lister.thy ===== *)
theory Dependency_Lister
  imports Elf_Parser Pe_Parser Macho_Parser "HOL-Library.Char_ord" "HOL-Library.List_Lexorder"
begin

text \<open>
  \<open>src/internal/DependencyGraph.hpp\<close> and \<open>src/DependencyLister.cpp\<close>: which of the named binaries need which
  library, directly or through other libraries. The file system is an argument, the record \<open>fs\<close> of the
  answers the code asks it for; a request sees one state of it. The walk over the nodes appends nodes while it
  runs, so it is a \<open>partial_function\<close>, and its termination is a theorem. \<open>std::string\<close> is compared by bytes, which is
  the lexicographic order of HOL-Library on strings.

  The lemmas show that the caches and the order of the walk play no part: the answer is the one of a reference
  definition that has neither, \<open>needs\<close>, the relation "the file records a name that resolves to".
\<close>

section \<open>The file system and the graph\<close>

record fs =
  fs_canonical :: "string \<Rightarrow> string option"
  fs_is_regular :: "string \<Rightarrow> bool"
  fs_entry_exists :: "string \<Rightarrow> bool"
  fs_is_directory :: "string \<Rightarrow> bool"
  fs_join :: "string \<Rightarrow> string \<Rightarrow> string"
  fs_listing :: "string \<Rightarrow> string list"
  fs_read :: "string \<Rightarrow> bytes res"

type_synonym NodeId = nat

datatype NodeStatus = Unresolved | Parsed | NotReadable

datatype NodeFormat = FormatNone | FormatElf | FormatPe | FormatMachO

record DependencyNode =
  node_status :: NodeStatus
  node_key :: string
  node_reason :: string
  node_format :: NodeFormat
  refs :: "string list"
  successors :: "NodeId list"
  expanded :: bool

record DependencyGraph =
  nodes :: "DependencyNode list"
  by_key :: "string \<rightharpoonup> NodeId"
  by_unresolved_name :: "string \<rightharpoonup> NodeId"
  folder_listings :: "string \<rightharpoonup> (string \<rightharpoonup> string list)"
  resolved_exact :: "string \<rightharpoonup> NodeId"
  resolved_ignoring_case :: "string \<rightharpoonup> NodeId"

definition empty_graph :: DependencyGraph where
  "empty_graph = \<lparr>nodes = [], by_key = Map.empty, by_unresolved_name = Map.empty, folder_listings = Map.empty,
     resolved_exact = Map.empty, resolved_ignoring_case = Map.empty\<rparr>"

definition upd_node :: "NodeId \<Rightarrow> (DependencyNode \<Rightarrow> DependencyNode) \<Rightarrow> DependencyGraph \<Rightarrow> DependencyGraph" where
  "upd_node nid f graph = graph\<lparr>nodes := (nodes graph)[nid := f (nodes graph ! nid)]\<rparr>"

section \<open>Reading one file\<close>

definition EntryKey :: "string \<Rightarrow> string" where
  "EntryKey text = map lower_char text"

definition be32 :: "u8 \<Rightarrow> u8 \<Rightarrow> u8 \<Rightarrow> u8 \<Rightarrow> u32" where
  "be32 a b c d = push_bit 24 (ucast a) OR push_bit 16 (ucast b) OR push_bit 8 (ucast c) OR ucast d"

definition Lister_IsMachO :: "bytes \<Rightarrow> bool" where
  "Lister_IsMachO bs =
     (if length bs < 4 then False
      else let magic = be32 (bs ! 0) (bs ! 1) (bs ! 2) (bs ! 3) in
        if magic = 0xFEEDFACE \<or> magic = 0xCEFAEDFE \<or> magic = 0xFEEDFACF \<or> magic = 0xCFFAEDFE then True
        else if magic = 0xCAFEBABE \<or> magic = 0xBEBAFECA then
          if length bs < 8 then False
          else let count = (if magic = 0xCAFEBABE then be32 (bs ! 4) (bs ! 5) (bs ! 6) (bs ! 7)
                            else be32 (bs ! 7) (bs ! 6) (bs ! 5) (bs ! 4)) in
            count \<le> 30
        else False)"

definition Lister_ParseBytes :: "ByteOrder \<Rightarrow> bytes \<Rightarrow> (NodeFormat \<times> string list) res" where
  "Lister_ParseBytes host bs =
     (if length bs < 2 then Inl (runtime_error ''File is too small to determine binary format'')
      else if length bs \<ge> 4 \<and> bs ! 0 = 0x7F \<and> bs ! 1 = 0x45 \<and> bs ! 2 = 0x4C \<and> bs ! 3 = 0x46 then
        bindE (ElfParser_ListDependenciesFromBytes host bs) (\<lambda>names. Inr (FormatElf, names))
      else if bs ! 0 = 0x4D \<and> bs ! 1 = 0x5A then
        bindE (PeParser_ListDependenciesFromBytes host bs) (\<lambda>names. Inr (FormatPe, names))
      else Inl (runtime_error ''Unsupported binary format''))"

text \<open>
  \<open>what()\<close> of what was caught. An access outside a buffer is no exception; no parser gets there.
\<close>

fun what_of :: "cpp_error \<Rightarrow> string" where
  "what_of (runtime_error m) = m"
| "what_of (other_exception t m) = m"
| "what_of memory_fault = []"

text \<open>The format a node has when parsing fails, and the result of parsing.\<close>

definition ReadNode :: "ByteOrder \<Rightarrow> fs \<Rightarrow> string \<Rightarrow> NodeFormat \<times> (NodeFormat \<times> string list) res" where
  "ReadNode host F key =
     (case fs_read F key of
        Inl e \<Rightarrow> (FormatNone, Inl e)
      | Inr bs \<Rightarrow>
          if Lister_IsMachO bs
          then (FormatMachO, bindE (MachOParser_ListDependencies host key (fs_read F key)) (\<lambda>names. Inr (FormatMachO, names)))
          else (FormatNone, Lister_ParseBytes host bs))"

definition EscapesSearchFolders :: "string \<Rightarrow> bool" where
  "EscapesSearchFolders name \<longleftrightarrow> name = [] \<or> name = ''.'' \<or> name = ''..'' \<or> CHR ''/'' \<in> set name \<or> CHR 0x5C \<in> set name \<or>
     CHR 0x00 \<in> set name \<or> (length name \<ge> 2 \<and> name ! 1 = CHR '':'')"

section \<open>Nodes\<close>

definition NewNode :: "DependencyGraph \<Rightarrow> string \<Rightarrow> NodeStatus \<Rightarrow> NodeId \<times> DependencyGraph" where
  "NewNode graph key st =
     (length (nodes graph), graph\<lparr>nodes := nodes graph @ [\<lparr>node_status = st, node_key = key, node_reason = [],
        node_format = FormatNone, refs = [], successors = [], expanded = False\<rparr>]\<rparr>)"

definition UnresolvedNode :: "DependencyGraph \<Rightarrow> string \<Rightarrow> NodeId \<times> DependencyGraph" where
  "UnresolvedNode graph name =
     (case by_unresolved_name graph name of
        Some nid \<Rightarrow> (nid, graph)
      | None \<Rightarrow>
          let (nid, graph) = NewNode graph name Unresolved in
          (nid, graph\<lparr>by_unresolved_name := (by_unresolved_name graph)(name \<mapsto> nid)\<rparr>))"

definition FileNode :: "ByteOrder \<Rightarrow> fs \<Rightarrow> DependencyGraph \<Rightarrow> string \<Rightarrow> string option \<Rightarrow> NodeId \<times> DependencyGraph" where
  "FileNode host F graph file_path known_canonical =
     (let (key, error) = (case known_canonical of
            Some k \<Rightarrow> (k, False)
          | None \<Rightarrow> (case fs_canonical F file_path of None \<Rightarrow> (file_path, True) | Some c \<Rightarrow> (c, False))) in
      case by_key graph key of
        Some nid \<Rightarrow> (nid, graph)
      | None \<Rightarrow>
          let (nid, graph1) = NewNode graph key NotReadable;
              graph2 = graph1\<lparr>by_key := (by_key graph1)(key \<mapsto> nid)\<rparr> in
          if error \<or> \<not> fs_is_regular F key then
            (nid, upd_node nid (\<lambda>n. n\<lparr>node_reason :=
               (if fs_entry_exists F file_path then key @ '': not a readable regular file''
                else ''Unable to open file: '' @ file_path)\<rparr>) graph2)
          else
            (case ReadNode host F key of
               (fmt, Inr (fmt', names)) \<Rightarrow>
                 (nid, upd_node nid (\<lambda>n. n\<lparr>node_format := fmt', refs := names, node_status := Parsed\<rparr>) graph2)
             | (fmt, Inl e) \<Rightarrow> (nid, upd_node nid (\<lambda>n. n\<lparr>node_format := fmt, node_reason := what_of e\<rparr>) graph2)))"

section \<open>Resolving a recorded name\<close>

definition add_entry :: "(string \<rightharpoonup> string list) \<Rightarrow> string \<Rightarrow> (string \<rightharpoonup> string list)" where
  "add_entry listing real = listing(EntryKey real \<mapsto>
     (case listing (EntryKey real) of None \<Rightarrow> [] | Some names \<Rightarrow> names) @ [real])"

definition FolderEntries :: "fs \<Rightarrow> string \<Rightarrow> (string \<rightharpoonup> string list)" where
  "FolderEntries F folder = (\<lambda>k. map_option sort (foldl add_entry Map.empty (fs_listing F folder) k))"

definition FolderMatches :: "fs \<Rightarrow> DependencyGraph \<Rightarrow> string \<Rightarrow> string \<Rightarrow> string list option \<times> DependencyGraph" where
  "FolderMatches F graph folder name =
     (let graph' = (case folder_listings graph folder of
            Some _ \<Rightarrow> graph
          | None \<Rightarrow> graph\<lparr>folder_listings := (folder_listings graph)(folder \<mapsto> FolderEntries F folder)\<rparr>) in
      (case folder_listings graph' folder of None \<Rightarrow> None | Some listing \<Rightarrow> listing (EntryKey name), graph'))"

text \<open>The loop over the search folders; \<open>None\<close> when no folder has the name.\<close>

fun ResolveIn ::
  "ByteOrder \<Rightarrow> fs \<Rightarrow> string \<Rightarrow> bool \<Rightarrow> string list \<Rightarrow> DependencyGraph \<Rightarrow> NodeId option \<times> DependencyGraph" where
  "ResolveIn host F name ignore_case [] graph = (None, graph)"
| "ResolveIn host F name ignore_case (folder # rest) graph =
     (if folder = [] \<or> \<not> fs_is_directory F folder then ResolveIn host F name ignore_case rest graph
      else
        let candidate = fs_join F folder name;
            found = (\<lambda>file_path graph. let (nid, graph') = FileNode host F graph file_path None in (Some nid, graph')) in
        if ignore_case then
          let (matches, graph1) = FolderMatches F graph folder name in
          (case matches of
             Some ms \<Rightarrow> found (fs_join F folder (if name \<in> set ms then name else hd ms)) graph1
           | None \<Rightarrow>
               if fs_entry_exists F candidate then found candidate graph1
               else ResolveIn host F name ignore_case rest graph1)
        else if fs_entry_exists F candidate then found candidate graph
        else ResolveIn host F name ignore_case rest graph)"

definition ResolveName ::
  "ByteOrder \<Rightarrow> fs \<Rightarrow> string list \<Rightarrow> DependencyGraph \<Rightarrow> string \<Rightarrow> bool \<Rightarrow> NodeId \<times> DependencyGraph" where
  "ResolveName host F search_paths graph name ignore_case =
     (case (if ignore_case then resolved_ignoring_case graph name else resolved_exact graph name) of
        Some nid \<Rightarrow> (nid, graph)
      | None \<Rightarrow>
          let (found, graph1) = (if EscapesSearchFolders name then (None, graph)
                                 else ResolveIn host F name ignore_case search_paths graph);
              (result, graph2) = (case found of Some nid \<Rightarrow> (nid, graph1) | None \<Rightarrow> UnresolvedNode graph1 name) in
          (result,
           if ignore_case then graph2\<lparr>resolved_ignoring_case := (resolved_ignoring_case graph2)(name \<mapsto> result)\<rparr>
           else graph2\<lparr>resolved_exact := (resolved_exact graph2)(name \<mapsto> result)\<rparr>))"

fun ResolveNames ::
  "ByteOrder \<Rightarrow> fs \<Rightarrow> string list \<Rightarrow> bool \<Rightarrow> string list \<Rightarrow> DependencyGraph \<Rightarrow> NodeId list \<times> DependencyGraph" where
  "ResolveNames host F search_paths ignore_case [] graph = ([], graph)"
| "ResolveNames host F search_paths ignore_case (name # names) graph =
     (let (nid, graph1) = ResolveName host F search_paths graph name ignore_case;
          (ids, graph2) = ResolveNames host F search_paths ignore_case names graph1 in
      (nid # ids, graph2))"

definition Expand :: "ByteOrder \<Rightarrow> fs \<Rightarrow> string list \<Rightarrow> DependencyGraph \<Rightarrow> NodeId \<Rightarrow> DependencyGraph" where
  "Expand host F search_paths graph nid =
     (let names = refs (nodes graph ! nid);
          graph1 = upd_node nid (\<lambda>n. n\<lparr>refs := []\<rparr>) graph;
          ignore_case = (node_format (nodes graph1 ! nid) = FormatPe);
          (ids, graph2) = ResolveNames host F search_paths ignore_case names graph1 in
      upd_node nid (\<lambda>n. n\<lparr>successors := ids, expanded := True\<rparr>) graph2)"

section \<open>Inputs\<close>

text \<open>The field \<open>node\<close> of the code is kept beside the inputs, in the list of the identifiers of their nodes.\<close>

record Input =
  spelling :: string
  input_canonical :: string

text \<open>A \<open>std::map\<close> as the list of its entries in the order of the keys.\<close>

definition AddInput :: "fs \<Rightarrow> (string \<times> Input) list \<Rightarrow> string \<Rightarrow> (string \<times> Input) list" where
  "AddInput F by_identity file_path =
     (let canonical = fs_canonical F file_path;
          identity = (case canonical of None \<Rightarrow> ''raw:'' @ file_path | Some c \<Rightarrow> ''file:'' @ c) in
      case map_of by_identity identity of
        None \<Rightarrow> insort_key fst (identity, \<lparr>spelling = file_path, input_canonical = (case canonical of None \<Rightarrow> [] | Some c \<Rightarrow> c)\<rparr>) by_identity
      | Some input \<Rightarrow>
          if file_path < spelling input
          then map (\<lambda>(k, i). (k, if k = identity then i\<lparr>spelling := file_path\<rparr> else i)) by_identity
          else by_identity)"

definition NormaliseInputs :: "fs \<Rightarrow> string list \<Rightarrow> Input list" where
  "NormaliseInputs F binary_paths = sort_key spelling (map snd (foldl (AddInput F) [] binary_paths))"

section \<open>Crediting\<close>

text \<open>
  An index outside \<open>seen\<close> would be undefined in the code; here it is passed over. Every successor is the index of a node
  (lemma \<open>walked_edges\<close> of \<open>Dependency_Spec\<close>), so it does not occur.
\<close>

definition Mark :: "u32 \<Rightarrow> u32 list \<times> NodeId list \<Rightarrow> NodeId \<Rightarrow> u32 list \<times> NodeId list" where
  "Mark stamp sq next_id =
     (case sq of (seen, queue) \<Rightarrow>
        if next_id < length seen \<and> seen ! next_id \<noteq> stamp
        then (seen[next_id := stamp], queue @ [next_id]) else (seen, queue))"

text \<open>What is still to be visited or waits in the queue does not grow, so the loop over the queue ends.\<close>

definition pending :: "u32 \<Rightarrow> u32 list \<times> NodeId list \<Rightarrow> nat" where
  "pending stamp sq = length (filter (\<lambda>s. s \<noteq> stamp) (fst sq)) + length (snd sq)"

lemma Mark_pending: "pending stamp (Mark stamp sq n) = pending stamp sq"
proof (cases sq)
  case (Pair seen queue)
  show ?thesis
  proof (cases "n < length seen \<and> seen ! n \<noteq> stamp")
    case True
    have "length (filter (\<lambda>s. s \<noteq> stamp) seen) = Suc (length (filter (\<lambda>s. s \<noteq> stamp) (seen[n := stamp])))"
      using True
    proof (induction seen arbitrary: n)
      case (Cons s seen)
      then show ?case by (cases n) auto
    qed simp
    then show ?thesis using True by (simp add: Mark_def pending_def Pair)
  qed (auto simp: Mark_def pending_def Pair)
qed

lemma Marks_pending: "pending stamp (foldl (Mark stamp) sq ns) = pending stamp sq"
  by (induction ns arbitrary: sq) (simp_all add: Mark_pending)

function Credit ::
  "DependencyNode list \<Rightarrow> u32 \<Rightarrow> u32 \<Rightarrow> u32 list \<times> NodeId list \<Rightarrow> nat \<Rightarrow> u32 list list \<Rightarrow> u32 list \<times> u32 list list" where
  "Credit ns stamp index sq head credits =
     (if head < length (snd sq) then
        let current = snd sq ! head in
        Credit ns stamp index (foldl (Mark stamp) sq (successors (ns ! current))) (Suc head)
          (credits[current := credits ! current @ [index]])
      else (fst sq, credits))"
  by pat_completeness auto
termination
proof (relation "measure (\<lambda>(ns, stamp, index, sq, head, credits). pending stamp sq - head)", goal_cases)
  case (2 ns stamp index sq head credits current)
  then have "head < pending stamp sq" by (simp add: pending_def)
  then show ?case by (simp add: Marks_pending)
qed simp

declare Credit.simps [simp del]

definition CreditInput ::
  "DependencyNode list \<Rightarrow> u32 list \<times> u32 list list \<Rightarrow> NodeId \<times> nat \<Rightarrow> u32 list \<times> u32 list list" where
  "CreditInput ns st input =
     (let stamp = word_of_nat (snd input + 1) in
      Credit ns stamp (word_of_nat (snd input)) (foldl (Mark stamp) (fst st, []) (successors (ns ! fst input))) 0 (snd st))"

section \<open>The request\<close>

record LibraryError =
  le_reason :: string
  le_inputs :: "string list"

record DependencyResult =
  dependencies :: "string \<rightharpoonup> string list"
  errors :: "string \<rightharpoonup> string"
  libraryErrors :: "string \<rightharpoonup> LibraryError"

definition AddInputNode ::
  "ByteOrder \<Rightarrow> fs \<Rightarrow> DependencyGraph \<times> NodeId list \<times> (string \<rightharpoonup> string) \<Rightarrow> Input \<Rightarrow>
   DependencyGraph \<times> NodeId list \<times> (string \<rightharpoonup> string)" where
  "AddInputNode host F st input =
     (let (graph, ids, errs) = st;
          (nid, graph1) = FileNode host F graph (spelling input) (if input_canonical input = [] then None else Some (input_canonical input)) in
      (graph1, ids @ [nid],
       if node_status (nodes graph1 ! nid) = NotReadable
       then errs(spelling input \<mapsto> node_reason (nodes graph1 ! nid)) else errs))"

text \<open>The walk over the nodes, by index; \<open>None\<close> is a walk that never ends.\<close>

partial_function (option) ExpandAll ::
  "ByteOrder \<Rightarrow> fs \<Rightarrow> string list \<Rightarrow> DependencyGraph \<Rightarrow> NodeId \<Rightarrow> DependencyGraph option" where
  "ExpandAll host F search_paths graph nid =
     (if nid < length (nodes graph) then
        ExpandAll host F search_paths
          (if node_status (nodes graph ! nid) = Parsed \<and> \<not> expanded (nodes graph ! nid)
           then Expand host F search_paths graph nid else graph) (Suc nid)
      else Some graph)"

declare ExpandAll.simps [code]

definition unique_sorted :: "string list \<Rightarrow> string list" where
  "unique_sorted xs = remdups_adj (sort xs)"

definition ReportNode ::
  "DependencyNode list \<Rightarrow> u32 list list \<Rightarrow> Input list \<Rightarrow> DependencyResult \<Rightarrow> NodeId \<Rightarrow> DependencyResult" where
  "ReportNode ns credits inputs result nid =
     (if credits ! nid = [] then result
      else
        let node = ns ! nid; key = node_key node;
            listed = (case dependencies result key of None \<Rightarrow> [] | Some l \<Rightarrow> l);
            shared_key = (listed \<noteq> []);
            credited = map (\<lambda>index. spelling (inputs ! unat index)) (credits ! nid);
            listed1 = listed @ credited;
            result1 = (if node_status node = NotReadable then
              let report = (case libraryErrors result key of None \<Rightarrow> \<lparr>le_reason = [], le_inputs = []\<rparr> | Some r \<Rightarrow> r);
                  prefix = key @ '': '';
                  rsn = (if le_reason report = [] then
                           (if take (length prefix) (node_reason node) = prefix then node_reason node
                            else prefix @ node_reason node)
                         else le_reason report) in
              result\<lparr>libraryErrors := (libraryErrors result)(key \<mapsto> \<lparr>le_reason = rsn, le_inputs = le_inputs report @ credited\<rparr>)\<rparr>
            else result);
            listed2 = (if shared_key then unique_sorted listed1 else listed1) in
        result1\<lparr>dependencies := (dependencies result1)(key \<mapsto> listed2)\<rparr>)"

definition ListDependencies :: "ByteOrder \<Rightarrow> fs \<Rightarrow> string list \<Rightarrow> string list \<Rightarrow> DependencyResult option" where
  "ListDependencies host F binary_paths search_paths =
     (let inputs = NormaliseInputs F binary_paths;
          (graph0, ids, errs) = foldl (AddInputNode host F) (empty_graph, [], Map.empty) inputs in
      case ExpandAll host F search_paths graph0 0 of
        None \<Rightarrow> None
      | Some graph \<Rightarrow>
          let n = length (nodes graph);
              (seen, credits) = foldl (CreditInput (nodes graph)) (replicate n 0, replicate n []) (zip ids [0..<length inputs]);
              result = foldl (ReportNode (nodes graph) credits inputs)
                \<lparr>dependencies = Map.empty, errors = errs, libraryErrors = Map.empty\<rparr> [0..<n] in
          Some (result\<lparr>libraryErrors := (\<lambda>k. map_option (\<lambda>r. r\<lparr>le_inputs := unique_sorted (le_inputs r)\<rparr>) (libraryErrors result k))\<rparr>))"

end
