(* ===== verification/Dependency_Reference.thy ===== *)
theory Dependency_Reference
  imports Dependency_Lister
begin

text \<open>
  What \<open>DependencyLister::ListDependencies\<close> promises, and that the model of the code in \<open>Dependency_Lister\<close> keeps it. The
  reference definition has no graph, no cache and no order: \<open>needs\<close> relates a file to what the names it
  records stand for, and an input needs everything that \<open>needs\<close> reaches from it.
\<close>

section \<open>The reference definition\<close>

datatype ident = FileId string | NameId string

fun label :: "ident \<Rightarrow> string" where
  "label (FileId k) = k"
| "label (NameId n) = n"

definition key_of :: "fs \<Rightarrow> string \<Rightarrow> string" where
  "key_of F p = (case fs_canonical F p of None \<Rightarrow> p | Some c \<Rightarrow> c)"

definition recorded :: "ByteOrder \<Rightarrow> fs \<Rightarrow> string \<Rightarrow> (NodeFormat \<times> string list) option" where
  "recorded host F k =
     (if fs_canonical F k = None \<or> \<not> fs_is_regular F k then None
      else case snd (ReadNode host F k) of Inl _ \<Rightarrow> None | Inr x \<Rightarrow> Some x)"

definition folder_match :: "fs \<Rightarrow> bool \<Rightarrow> string \<Rightarrow> string \<Rightarrow> string option" where
  "folder_match F ignore_case name folder =
     (let candidate = fs_join F folder name; plain = (if fs_entry_exists F candidate then Some candidate else None) in
      if folder = [] \<or> \<not> fs_is_directory F folder then None
      else if ignore_case then
        (case FolderEntries F folder (EntryKey name) of
           None \<Rightarrow> plain | Some ms \<Rightarrow> Some (fs_join F folder (if name \<in> set ms then name else hd ms)))
      else plain)"

fun first_match :: "fs \<Rightarrow> bool \<Rightarrow> string \<Rightarrow> string list \<Rightarrow> string option" where
  "first_match F ignore_case name [] = None"
| "first_match F ignore_case name (folder # rest) =
     (case folder_match F ignore_case name folder of None \<Rightarrow> first_match F ignore_case name rest | Some p \<Rightarrow> Some p)"

definition stands_for :: "fs \<Rightarrow> string list \<Rightarrow> bool \<Rightarrow> string \<Rightarrow> ident" where
  "stands_for F search ignore_case name =
     (if EscapesSearchFolders name then NameId name
      else case first_match F ignore_case name search of None \<Rightarrow> NameId name | Some p \<Rightarrow> FileId (key_of F p))"

definition direct_needs :: "ByteOrder \<Rightarrow> fs \<Rightarrow> string list \<Rightarrow> string \<Rightarrow> ident set" where
  "direct_needs host F search k =
     (case recorded host F k of None \<Rightarrow> {} | Some (fmt, names) \<Rightarrow> stands_for F search (fmt = FormatPe) ` set names)"

definition needs :: "ByteOrder \<Rightarrow> fs \<Rightarrow> string list \<Rightarrow> (ident \<times> ident) set" where
  "needs host F search = {(FileId k, y) | k y. y \<in> direct_needs host F search k}"

text \<open>What \<open>std::filesystem::canonical\<close> is documented to do: the path it gives is itself canonical.\<close>

definition canonical_ok :: "fs \<Rightarrow> bool" where
  "canonical_ok F \<longleftrightarrow> (\<forall>p c. fs_canonical F p = Some c \<longrightarrow> fs_canonical F c = Some c)"

section \<open>The invariant of the graph\<close>

definition ident_of :: "DependencyNode \<Rightarrow> ident" where
  "ident_of n = (if node_status n = Unresolved then NameId (node_key n) else FileId (node_key n))"

abbreviation size_of :: "DependencyGraph \<Rightarrow> nat" where
  "size_of g \<equiv> length (nodes g)"

abbreviation ident_at :: "DependencyGraph \<Rightarrow> NodeId \<Rightarrow> ident" where
  "ident_at g i \<equiv> ident_of (nodes g ! i)"

definition idents :: "DependencyGraph \<Rightarrow> ident set" where
  "idents g = ident_of ` set (nodes g)"

text \<open>The lookups name each node once.\<close>

definition lookup_ident :: "DependencyGraph \<Rightarrow> ident \<Rightarrow> NodeId option" where
  "lookup_ident g x = (case x of FileId k \<Rightarrow> by_key g k | NameId n \<Rightarrow> by_unresolved_name g n)"

definition index_ok :: "DependencyGraph \<Rightarrow> bool" where
  "index_ok g \<longleftrightarrow> (\<forall>x i. lookup_ident g x = Some i \<longleftrightarrow> i < size_of g \<and> ident_at g i = x)"

text \<open>One node: \<open>busy\<close> nodes are being expanded, their names have been taken out.\<close>

definition node_ok :: "ByteOrder \<Rightarrow> fs \<Rightarrow> string list \<Rightarrow> NodeId set \<Rightarrow> DependencyGraph \<Rightarrow> NodeId \<Rightarrow> bool" where
  "node_ok host F search busy g i \<longleftrightarrow>
     (let n = nodes g ! i in
      if node_status n = Unresolved then successors n = []
      else case recorded host F (node_key n) of
        None \<Rightarrow> node_status n = NotReadable \<and> successors n = []
      | Some (fmt, names) \<Rightarrow> node_status n = Parsed \<and> node_format n = fmt \<and>
          (if expanded n
           then (\<forall>j \<in> set (successors n). j < size_of g) \<and>
             map (ident_at g) (successors n) = map (stands_for F search (fmt = FormatPe)) names
           else successors n = [] \<and> (i \<in> busy \<or> refs n = names)))"

definition caches_ok :: "fs \<Rightarrow> string list \<Rightarrow> DependencyGraph \<Rightarrow> bool" where
  "caches_ok F search g \<longleftrightarrow>
     (\<forall>name i. resolved_exact g name = Some i \<longrightarrow> i < size_of g \<and> ident_at g i = stands_for F search False name) \<and>
     (\<forall>name i. resolved_ignoring_case g name = Some i \<longrightarrow> i < size_of g \<and> ident_at g i = stands_for F search True name) \<and>
     (\<forall>folder l. folder_listings g folder = Some l \<longrightarrow> l = FolderEntries F folder)"

definition graph_ok :: "ByteOrder \<Rightarrow> fs \<Rightarrow> string list \<Rightarrow> NodeId set \<Rightarrow> DependencyGraph \<Rightarrow> bool" where
  "graph_ok host F search busy g \<longleftrightarrow> index_ok g \<and> (\<forall>i < size_of g. node_ok host F search busy g i) \<and> caches_ok F search g"

text \<open>A graph that only got more nodes.\<close>

definition grows :: "DependencyGraph \<Rightarrow> DependencyGraph \<Rightarrow> bool" where
  "grows g g' \<longleftrightarrow> (\<exists>new. nodes g' = nodes g @ new)"

lemma grows_refl [simp]: "grows g g" by (simp add: grows_def)

lemma grows_trans: "grows g g' \<Longrightarrow> grows g' g'' \<Longrightarrow> grows g g''" by (auto simp: grows_def)

lemma grows_nth: "grows g g' \<Longrightarrow> i < size_of g \<Longrightarrow> nodes g' ! i = nodes g ! i \<and> i < size_of g'"
  by (auto simp: grows_def nth_append)

lemma grows_size: "grows g g' \<Longrightarrow> size_of g \<le> size_of g'" by (auto simp: grows_def)

lemma graph_okD:
  "graph_ok host F search busy g \<Longrightarrow> i < size_of g \<Longrightarrow> node_ok host F search busy g i"
  "graph_ok host F search busy g \<Longrightarrow> index_ok g"
  "graph_ok host F search busy g \<Longrightarrow> caches_ok F search g"
  by (simp_all add: graph_ok_def)

lemma graph_ok_empty: "graph_ok host F search busy empty_graph"
  by (auto simp: graph_ok_def index_ok_def caches_ok_def empty_graph_def lookup_ident_def split: ident.splits)

lemma node_ok_grows:
  assumes "node_ok host F search busy g i" and "grows g g'" and "i < size_of g"
  shows "node_ok host F search busy g' i"
proof -
  note n = grows_nth [OF assms(2)]
  have same: "(\<forall>j \<in> set js. j < size_of g') \<and> map (ident_at g') js = map (ident_at g) js" if "\<forall>j \<in> set js. j < size_of g" for js
    using that n by simp
  show ?thesis
    using assms(1) n [OF assms(3)] same [of "successors (nodes g ! i)"] unfolding node_ok_def Let_def
    by (auto simp del: map_eq_conv split: option.splits if_splits)
qed

lemma caches_ok_grows:
  assumes "caches_ok F search g" and "grows g g'" and "folder_listings g' = folder_listings g"
    and "resolved_exact g' = resolved_exact g" and "resolved_ignoring_case g' = resolved_ignoring_case g"
  shows "caches_ok F search g'"
  using assms(1) grows_nth [OF assms(2)] unfolding caches_ok_def assms(3-5) by metis

text \<open>One more node, registered under its identity.\<close>

lemma graph_ok_new:
  assumes ok: "graph_ok host F search busy g" and new: "lookup_ident g (ident_of n) = None" and n: "nodes g' = nodes g @ [n]"
    and look: "\<And>x. lookup_ident g' x = (if x = ident_of n then Some (size_of g) else lookup_ident g x)"
    and node: "node_ok host F search busy g' (size_of g)"
    and rest: "folder_listings g' = folder_listings g" "resolved_exact g' = resolved_exact g"
      "resolved_ignoring_case g' = resolved_ignoring_case g"
  shows "graph_ok host F search busy g'" and "grows g g'" and "idents g' = insert (ident_of n) (idents g)"
proof -
  show g: "grows g g'" by (simp add: grows_def n)
  show "idents g' = insert (ident_of n) (idents g)" by (simp add: idents_def n)
  have "ident_at g i \<noteq> ident_of n" if "i < size_of g" for i
    using graph_okD(2) [OF ok] new that by (metis index_ok_def option.distinct(1))
  then have "index_ok g'"
    using graph_okD(2) [OF ok] unfolding index_ok_def look by (auto simp: n nth_append less_Suc_eq)
  moreover have "node_ok host F search busy g' i" if "i < size_of g'" for i
    using that node node_ok_grows [OF graph_okD(1) [OF ok] g] by (auto simp: n less_Suc_eq)
  ultimately show "graph_ok host F search busy g'"
    using caches_ok_grows [OF graph_okD(3) [OF ok] g rest] by (simp add: graph_ok_def)
qed

text \<open>What an operation that finds or makes the node of \<open>x\<close> does to the graph.\<close>

definition finds :: "ByteOrder \<Rightarrow> fs \<Rightarrow> string list \<Rightarrow> NodeId set \<Rightarrow> DependencyGraph \<Rightarrow> ident \<Rightarrow> NodeId \<times> DependencyGraph \<Rightarrow> bool" where
  "finds host F search busy g x r \<longleftrightarrow> (case r of (i, g') \<Rightarrow>
     graph_ok host F search busy g' \<and> grows g g' \<and> i < size_of g' \<and> ident_at g' i = x \<and> idents g' = insert x (idents g))"

lemma finds_known:
  assumes "graph_ok host F search busy g" and "lookup_ident g x = Some i"
  shows "finds host F search busy g x (i, g)"
proof -
  have "i < size_of g" "ident_at g i = x" using graph_okD(2) [OF assms(1)] assms(2) by (auto simp: index_ok_def)
  then show ?thesis using assms(1) by (auto simp: finds_def idents_def insert_absorb)
qed

lemma UnresolvedNode_finds:
  assumes ok: "graph_ok host F search busy g"
  shows "finds host F search busy g (NameId name) (UnresolvedNode g name)"
proof (cases "by_unresolved_name g name")
  case (Some i)
  then show ?thesis using finds_known [OF ok, of "NameId name" i] by (simp add: UnresolvedNode_def lookup_ident_def)
next
  case None
  define g' where "g' = snd (UnresolvedNode g name)"
  define n where "n = \<lparr>node_status = Unresolved, node_key = name, node_reason = [], node_format = FormatNone, refs = [],
    successors = [], expanded = False\<rparr>"
  have r: "UnresolvedNode g name = (size_of g, g')"
    using None by (simp add: g'_def UnresolvedNode_def NewNode_def)
  have g': "nodes g' = nodes g @ [n]" "by_unresolved_name g' = (by_unresolved_name g)(name \<mapsto> size_of g)" "by_key g' = by_key g"
    "folder_listings g' = folder_listings g" "resolved_exact g' = resolved_exact g" "resolved_ignoring_case g' = resolved_ignoring_case g"
    using None by (simp_all add: g'_def UnresolvedNode_def NewNode_def n_def)
  have i: "ident_of n = NameId name" by (simp add: n_def ident_of_def)
  have none: "lookup_ident g (ident_of n) = None" using None by (simp add: i lookup_ident_def)
  have look: "lookup_ident g' x = (if x = ident_of n then Some (size_of g) else lookup_ident g x)" for x
    by (simp add: i lookup_ident_def g' split: ident.splits)
  have node: "node_ok host F search busy g' (size_of g)" by (simp add: node_ok_def g'(1) n_def)
  from graph_ok_new [OF ok none g'(1) look node g'(4-6)] show ?thesis by (simp add: finds_def r g'(1) i)
qed

lemma key_of_canonical:
  assumes "canonical_ok F" shows "fs_canonical F (key_of F p) = (case fs_canonical F p of None \<Rightarrow> None | Some c \<Rightarrow> Some c)"
  using assms by (auto simp: key_of_def canonical_ok_def split: option.splits)

text \<open>The node that \<open>FileNode\<close> makes for a file it has not seen.\<close>

definition file_record :: "ByteOrder \<Rightarrow> fs \<Rightarrow> string \<Rightarrow> bool \<Rightarrow> string \<Rightarrow> DependencyNode" where
  "file_record host F k error p =
     (let n = \<lparr>node_status = NotReadable, node_key = k, node_reason = [], node_format = FormatNone, refs = [],
        successors = [], expanded = False\<rparr> in
      if error \<or> \<not> fs_is_regular F k then n\<lparr>node_reason :=
        (if fs_entry_exists F p then k @ '': not a readable regular file'' else ''Unable to open file: '' @ p)\<rparr>
      else case ReadNode host F k of
        (fmt, Inr (fmt', names)) \<Rightarrow> n\<lparr>node_format := fmt', refs := names, node_status := Parsed\<rparr>
      | (fmt, Inl e) \<Rightarrow> n\<lparr>node_format := fmt, node_reason := what_of e\<rparr>)"

lemma upd_node_last:
  "nodes g = ns @ [n] \<Longrightarrow> upd_node (length ns) f g = g\<lparr>nodes := ns @ [f n]\<rparr>"
  by (simp add: upd_node_def list_update_append)

lemma FileNode_new:
  assumes "by_key g k = None" and "k = (case known of Some c \<Rightarrow> c | None \<Rightarrow> key_of F p)"
    and "error \<longleftrightarrow> known = None \<and> fs_canonical F p = None"
  shows "FileNode host F g p known = (size_of g, g\<lparr>nodes := nodes g @ [file_record host F k error p],
    by_key := (by_key g)(k \<mapsto> size_of g)\<rparr>)"
  using assms
  by (auto simp: FileNode_def NewNode_def key_of_def file_record_def Let_def upd_node_def split: option.splits prod.splits sum.splits)

lemma FileNode_finds:
  assumes ok: "graph_ok host F search busy g" and canon: "canonical_ok F"
    and known: "known = None \<or> known = fs_canonical F p"
  shows "finds host F search busy g (FileId (key_of F p)) (FileNode host F g p known)"
proof -
  define k where "k = key_of F p"
  have kk: "k = (case known of Some c \<Rightarrow> c | None \<Rightarrow> key_of F p)"
    using known by (auto simp: k_def key_of_def split: option.splits)
  show ?thesis
  proof (cases "by_key g k")
    case (Some i)
    then have "FileNode host F g p known = (i, g)"
      using known by (auto simp: FileNode_def k_def key_of_def split: option.splits)
    then show ?thesis using finds_known [OF ok, of "FileId k" i] Some by (simp add: lookup_ident_def k_def)
  next
    case None
    define error where "error \<longleftrightarrow> known = None \<and> fs_canonical F p = None"
    define n where "n = file_record host F k error p"
    define g' where "g' = g\<lparr>nodes := nodes g @ [n], by_key := (by_key g)(k \<mapsto> size_of g)\<rparr>"
    have run: "FileNode host F g p known = (size_of g, g')"
      using FileNode_new [OF None kk error_def] by (simp add: g'_def n_def)
    have g': "nodes g' = nodes g @ [n]" "by_key g' = (by_key g)(k \<mapsto> size_of g)" "by_unresolved_name g' = by_unresolved_name g"
      "folder_listings g' = folder_listings g" "resolved_exact g' = resolved_exact g" "resolved_ignoring_case g' = resolved_ignoring_case g"
      by (simp_all add: g'_def)
    have err: "error \<longleftrightarrow> fs_canonical F k = None"
      using key_of_canonical [OF canon, of p] known by (auto simp: error_def k_def split: option.splits)
    have i: "ident_of n = FileId k"
      by (auto simp: n_def file_record_def ident_of_def Let_def split: prod.splits sum.splits)
    have none: "lookup_ident g (ident_of n) = None" using None by (simp add: i lookup_ident_def)
    have look: "lookup_ident g' x = (if x = ident_of n then Some (size_of g) else lookup_ident g x)" for x
      by (simp add: i lookup_ident_def g' split: ident.splits)
    have node: "node_ok host F search busy g' (size_of g)"
      by (auto simp: node_ok_def g'(1) n_def file_record_def recorded_def err Let_def split: prod.splits sum.splits option.splits)
    from graph_ok_new [OF ok none g'(1) look node g'(4-6)] show ?thesis by (simp add: finds_def run g'(1) i k_def)
  qed
qed

section \<open>Resolving keeps the invariant\<close>

lemma FolderMatches_eq:
  assumes "graph_ok host F search busy g"
  shows "fst (FolderMatches F g folder name) = FolderEntries F folder (EntryKey name)"
    and "graph_ok host F search busy (snd (FolderMatches F g folder name))" and "nodes (snd (FolderMatches F g folder name)) = nodes g"
proof -
  have l: "folder_listings g folder = Some l \<Longrightarrow> l = FolderEntries F folder" for l
    using graph_okD(3) [OF assms] by (simp add: caches_ok_def)
  show "fst (FolderMatches F g folder name) = FolderEntries F folder (EntryKey name)"
    using l by (auto simp: FolderMatches_def Let_def split: option.splits)
  show "nodes (snd (FolderMatches F g folder name)) = nodes g"
    by (auto simp: FolderMatches_def Let_def split: option.splits)
  show "graph_ok host F search busy (snd (FolderMatches F g folder name))"
    using assms by (auto simp: FolderMatches_def Let_def graph_ok_def index_ok_def lookup_ident_def node_ok_def caches_ok_def
        split: option.splits ident.splits)
qed

lemma finds_after:
  assumes "finds host F search busy g1 x r" and "nodes g1 = nodes g"
  shows "finds host F search busy g x r"
  using assms by (auto simp: finds_def grows_def idents_def)

text \<open>The search over the folders finds what the reference definition does.\<close>

lemma ResolveIn_finds:
  assumes "graph_ok host F search busy g" and canon: "canonical_ok F"
  shows "case first_match F ignore_case name folders of
      None \<Rightarrow> \<exists>g'. ResolveIn host F name ignore_case folders g = (None, g') \<and> graph_ok host F search busy g' \<and> nodes g' = nodes g
    | Some p \<Rightarrow> \<exists>i g'. ResolveIn host F name ignore_case folders g = (Some i, g') \<and>
        finds host F search busy g (FileId (key_of F p)) (i, g')"
  using assms(1)
proof (induction folders arbitrary: g)
  case (Cons folder rest)
  have here: "\<exists>i g'. (let (nid, g') = FileNode host F g1 p None in (Some nid, g')) = (Some i, g') \<and>
      finds host F search busy g (FileId (key_of F p)) (i, g')" if "graph_ok host F search busy g1" "nodes g1 = nodes g" for g1 p
  proof -
    obtain i g' where r: "FileNode host F g1 p None = (i, g')" by fastforce
    from FileNode_finds [OF that(1) canon, of None p] have "finds host F search busy g (FileId (key_of F p)) (i, g')"
      using finds_after [OF _ that(2)] by (simp add: r)
    then show ?thesis by (simp add: r)
  qed
  have later: "case first_match F ignore_case name rest of
      None \<Rightarrow> \<exists>g'. ResolveIn host F name ignore_case rest g1 = (None, g') \<and> graph_ok host F search busy g' \<and> nodes g' = nodes g
    | Some p \<Rightarrow> \<exists>i g'. ResolveIn host F name ignore_case rest g1 = (Some i, g') \<and>
        finds host F search busy g (FileId (key_of F p)) (i, g')" if "graph_ok host F search busy g1" "nodes g1 = nodes g" for g1
    using Cons.IH [OF that(1)] that(2) finds_after [OF _ that(2)] by (auto split: option.splits)
  obtain ms g1 where fm: "FolderMatches F g folder name = (ms, g1)" by fastforce
  note m = FolderMatches_eq [OF Cons.prems, of folder name, unfolded fm fst_conv snd_conv]
  show ?case
  proof (cases "folder = [] \<or> \<not> fs_is_directory F folder")
    case True
    then have fm: "folder_match F ignore_case name folder = None" by (auto simp: folder_match_def)
    have eq: "ResolveIn host F name ignore_case (folder # rest) g = ResolveIn host F name ignore_case rest g"
      using True by auto
    show ?thesis using later [OF Cons.prems refl] unfolding eq by (simp add: fm)
  next
    case False
    let ?candidate = "fs_join F folder name"
    show ?thesis
    proof (cases "folder_match F ignore_case name folder")
      case None
      then have eq: "ResolveIn host F name ignore_case (folder # rest) g =
          ResolveIn host F name ignore_case rest (if ignore_case then g1 else g)"
        using False fm m(1) by (auto simp: folder_match_def Let_def split: if_splits option.splits)
      show ?thesis using later [OF m(2,3)] later [OF Cons.prems refl] None unfolding eq by (cases ignore_case) simp_all
    next
      case (Some p)
      then have eq: "ResolveIn host F name ignore_case (folder # rest) g =
          (let (nid, g') = FileNode host F (if ignore_case then g1 else g) p None in (Some nid, g'))"
        using False fm m(1) by (auto simp: folder_match_def Let_def split: if_splits option.splits)
      show ?thesis using here [OF m(2,3), of p] here [OF Cons.prems refl, of p] Some unfolding eq by (cases ignore_case) simp_all
    qed
  qed
qed simp

lemma graph_ok_same:
  assumes "graph_ok host F search busy g" and "nodes g' = nodes g" and "by_key g' = by_key g"
    and "by_unresolved_name g' = by_unresolved_name g" and "caches_ok F search g'"
  shows "graph_ok host F search busy g'"
  using assms(1,5) unfolding graph_ok_def index_ok_def lookup_ident_def node_ok_def assms(2-4) by blast

lemma graph_ok_cached:
  assumes "graph_ok host F search busy g" and "i < size_of g" and "ident_at g i = stands_for F search ignore_case name"
  shows "graph_ok host F search busy (if ignore_case
      then g\<lparr>resolved_ignoring_case := (resolved_ignoring_case g)(name \<mapsto> i)\<rparr>
      else g\<lparr>resolved_exact := (resolved_exact g)(name \<mapsto> i)\<rparr>)"
  using assms graph_okD(3) [OF assms(1)] by (intro graph_ok_same [OF assms(1)]) (auto simp: caches_ok_def)

lemma ResolveName_finds:
  assumes ok: "graph_ok host F search busy g" and canon: "canonical_ok F"
  shows "finds host F search busy g (stands_for F search ignore_case name) (ResolveName host F search g name ignore_case)"
proof (cases "if ignore_case then resolved_ignoring_case g name else resolved_exact g name")
  case (Some i)
  then have "i < size_of g \<and> ident_at g i = stands_for F search ignore_case name"
    using graph_okD(3) [OF ok] by (auto simp: caches_ok_def split: if_splits)
  then have "lookup_ident g (stands_for F search ignore_case name) = Some i"
    using graph_okD(2) [OF ok] by (simp add: index_ok_def)
  from finds_known [OF ok this] Some show ?thesis by (simp add: ResolveName_def)
next
  case None
  define r where "r = (if EscapesSearchFolders name then (None, g) else ResolveIn host F name ignore_case search g)"
  have "\<exists>i g'. (case fst r of Some nid \<Rightarrow> (nid, snd r) | None \<Rightarrow> UnresolvedNode (snd r) name) = (i, g') \<and>
    finds host F search busy g (stands_for F search ignore_case name) (i, g')"
  proof (cases "EscapesSearchFolders name")
    case True
    then show ?thesis using UnresolvedNode_finds [OF ok, of name]
      by (cases "UnresolvedNode g name") (simp add: r_def stands_for_def)
  next
    case False
    show ?thesis
    proof (cases "first_match F ignore_case name search")
      case None
      then obtain g1 where g1: "r = (None, g1)" "graph_ok host F search busy g1" "nodes g1 = nodes g"
        using ResolveIn_finds [OF ok canon, of name ignore_case search] False by (auto simp: r_def)
      from finds_after [OF UnresolvedNode_finds [OF g1(2)] g1(3)] False None show ?thesis
        by (cases "UnresolvedNode g1 name") (simp add: g1(1) stands_for_def, metis)
    next
      case (Some p)
      then show ?thesis using ResolveIn_finds [OF ok canon, of name ignore_case search] False
        by (auto simp: r_def stands_for_def)
    qed
  qed
  then obtain i g' where i: "(case fst r of Some nid \<Rightarrow> (nid, snd r) | None \<Rightarrow> UnresolvedNode (snd r) name) = (i, g')"
    and f: "finds host F search busy g (stands_for F search ignore_case name) (i, g')" by blast
  have "ResolveName host F search g name ignore_case = (i, if ignore_case
      then g'\<lparr>resolved_ignoring_case := (resolved_ignoring_case g')(name \<mapsto> i)\<rparr>
      else g'\<lparr>resolved_exact := (resolved_exact g')(name \<mapsto> i)\<rparr>)"
    using None i unfolding ResolveName_def r_def [symmetric] by (cases r) (simp split: option.splits)
  moreover have "grows g (if ignore_case then g'\<lparr>resolved_ignoring_case := a\<rparr> else g'\<lparr>resolved_exact := b\<rparr>) = grows g g'"
    "idents (if ignore_case then g'\<lparr>resolved_ignoring_case := a\<rparr> else g'\<lparr>resolved_exact := b\<rparr>) = idents g'"
    "nodes (if ignore_case then g'\<lparr>resolved_ignoring_case := a\<rparr> else g'\<lparr>resolved_exact := b\<rparr>) = nodes g'" for a b
    by (simp_all add: grows_def idents_def)
  ultimately show ?thesis using f graph_ok_cached [of host F search busy g' i ignore_case name] by (simp add: finds_def)
qed

lemma ResolveNames_finds:
  assumes "graph_ok host F search busy g" and canon: "canonical_ok F" and "ResolveNames host F search ignore_case names g = (ids, g')"
  shows "graph_ok host F search busy g' \<and> grows g g' \<and> (\<forall>i \<in> set ids. i < size_of g') \<and>
    map (ident_at g') ids = map (stands_for F search ignore_case) names \<and>
    idents g' = idents g \<union> stands_for F search ignore_case ` set names"
  using assms(1,3)
proof (induction names arbitrary: g ids g')
  case (Cons name names)
  obtain i g1 where one: "ResolveName host F search g name ignore_case = (i, g1)" by fastforce
  obtain "is" g2 where rest: "ResolveNames host F search ignore_case names g1 = (is, g2)" by fastforce
  have r: "ids = i # is" "g' = g2" using Cons.prems(2) one rest by simp_all
  have f: "graph_ok host F search busy g1" "grows g g1" "i < size_of g1" "ident_at g1 i = stands_for F search ignore_case name"
    "idents g1 = insert (stands_for F search ignore_case name) (idents g)"
    using ResolveName_finds [OF Cons.prems(1) canon, of ignore_case name] by (simp_all add: finds_def one)
  note IH = Cons.IH [OF f(1) rest]
  have "i < size_of g2 \<and> ident_at g2 i = stands_for F search ignore_case name"
    using grows_nth [of g1 g2 i] IH f(3,4) by simp
  then show ?case using IH f(2,5) grows_trans by (auto simp: r)
qed simp

end
