(* ===== verification/Dependency_Spec.thy ===== *)
theory Dependency_Spec
  imports Dependency_Reference "HOL-Library.Multiset"
begin

text \<open>
  The walk over the graph, the crediting of the inputs and the report, and what
  \<open>DependencyLister::ListDependencies\<close> returns in terms of the reference definition of \<open>Dependency_Reference\<close>.
\<close>

section \<open>The walk\<close>

lemma idents_at: "idents g = ident_at g ` {..<size_of g}"
  by (auto simp: idents_def set_conv_nth)

lemma ident_at_upd:
  assumes "ident_of (f (nodes g ! i)) = ident_at g i" and "j < size_of g"
  shows "ident_at (upd_node i f g) j = ident_at g j"
  using assms by (cases "j = i") (simp_all add: upd_node_def)

lemma graph_ok_upd:
  assumes ok: "graph_ok host F search busy g" and i: "i < size_of g" and same: "ident_of (f (nodes g ! i)) = ident_at g i"
    and node: "node_ok host F search busy' (upd_node i f g) i" and busy: "busy - {i} \<subseteq> busy'"
  shows "graph_ok host F search busy' (upd_node i f g)"
proof -
  let ?g = "upd_node i f g"
  note at = ident_at_upd [of f g i, OF same]
  have fields: "size_of ?g = size_of g" "by_key ?g = by_key g" "by_unresolved_name ?g = by_unresolved_name g"
    "resolved_exact ?g = resolved_exact g" "resolved_ignoring_case ?g = resolved_ignoring_case g" "folder_listings ?g = folder_listings g"
    by (simp_all add: upd_node_def)
  have "index_ok ?g"
    using graph_okD(2) [OF ok] at unfolding index_ok_def lookup_ident_def fields by metis
  moreover have "caches_ok F search ?g"
    using graph_okD(3) [OF ok] at unfolding caches_ok_def fields by metis
  moreover have "node_ok host F search busy' ?g j" if j: "j < size_of g" for j
  proof (cases "j = i")
    case False
    have n: "nodes ?g ! j = nodes g ! j" using False by (simp add: upd_node_def)
    have "\<forall>k \<in> set js. k < size_of g \<Longrightarrow> map (ident_at ?g) js = map (ident_at g) js" for js
      using at by simp
    then show ?thesis
      using graph_okD(1) [OF ok j] False busy unfolding node_ok_def Let_def n fields
      by (auto simp del: map_eq_conv split: option.splits if_splits)
  qed (simp add: node)
  ultimately show ?thesis by (simp add: graph_ok_def fields)
qed

definition keeps :: "DependencyGraph \<Rightarrow> NodeId \<Rightarrow> DependencyGraph \<Rightarrow> bool" where
  "keeps g i g' \<longleftrightarrow> size_of g \<le> size_of g' \<and> (\<forall>j < size_of g. ident_at g' j = ident_at g j \<and> (j \<noteq> i \<longrightarrow> nodes g' ! j = nodes g ! j))"

lemma Expand_ok:
  assumes ok: "graph_ok host F search {} g" and canon: "canonical_ok F" and i: "i < size_of g"
    and parsed: "node_status (nodes g ! i) = Parsed" "\<not> expanded (nodes g ! i)"
  shows "graph_ok host F search {} (Expand host F search g i)" and "keeps g i (Expand host F search g i)"
    and "expanded (nodes (Expand host F search g i) ! i)"
    and "idents (Expand host F search g i) = idents g \<union> direct_needs host F search (node_key (nodes g ! i))"
proof -
  let ?n = "nodes g ! i"
  obtain fmt names where rec: "recorded host F (node_key ?n) = Some (fmt, names)" and n: "node_format ?n = fmt" "refs ?n = names"
    using graph_okD(1) [OF ok i] parsed by (auto simp: node_ok_def Let_def split: option.splits)
  define g1 where "g1 = upd_node i (\<lambda>n. n\<lparr>refs := []\<rparr>) g"
  have g1n: "nodes g1 ! i = ?n\<lparr>refs := []\<rparr>" "size_of g1 = size_of g" using i by (simp_all add: g1_def upd_node_def)
  have ok1: "graph_ok host F search {i} g1"
    unfolding g1_def
  proof (rule graph_ok_upd [OF ok i])
    show "node_ok host F search {i} (upd_node i (\<lambda>n. n\<lparr>refs := []\<rparr>) g) i"
      using graph_okD(1) [OF ok i] parsed rec g1n by (simp add: g1_def [symmetric] node_ok_def Let_def)
  qed (simp_all add: ident_of_def)
  obtain ids g2 where r: "ResolveNames host F search (fmt = FormatPe) names g1 = (ids, g2)" by fastforce
  note res = ResolveNames_finds [OF ok1 canon r]
  have i2: "nodes g2 ! i = ?n\<lparr>refs := []\<rparr>" "i < size_of g2" using grows_nth [of g1 g2 i] res g1n i by auto
  define g' where "g' = upd_node i (\<lambda>n. n\<lparr>successors := ids, expanded := True\<rparr>) g2"
  have run: "Expand host F search g i = g'"
    using r g1n n by (simp add: Expand_def Let_def g1_def [symmetric] g'_def)
  have same: "ident_of ((nodes g2 ! i)\<lparr>successors := ids, expanded := True\<rparr>) = ident_at g2 i" by (simp add: ident_of_def)
  note at = ident_at_upd [of "\<lambda>n. n\<lparr>successors := ids, expanded := True\<rparr>" g2 i, OF same, folded g'_def]
  have n': "nodes g' ! i = ?n\<lparr>refs := [], successors := ids, expanded := True\<rparr>" "size_of g' = size_of g2"
    using i2 by (simp_all add: g'_def upd_node_def)
  have "map (ident_at g') ids = map (ident_at g2) ids" by (rule map_cong [OF refl]) (use at res in blast)
  then have "node_ok host F search {} g' i"
    unfolding node_ok_def Let_def n' using parsed rec n res by (simp del: map_eq_conv)
  from graph_ok_upd [where f = "\<lambda>n. n\<lparr>successors := ids, expanded := True\<rparr>", OF conjunct1 [OF res] i2(2) same this [unfolded g'_def]]
  show "graph_ok host F search {} (Expand host F search g i)" by (simp add: run g'_def)
  show "expanded (nodes (Expand host F search g i) ! i)" by (simp add: run n')
  have at1: "ident_at g1 j = ident_at g j" "j \<noteq> i \<Longrightarrow> nodes g1 ! j = nodes g ! j" if "j < size_of g" for j
    using that by (cases "j = i"; simp add: g1_def upd_node_def ident_of_def)+
  show "keeps g i (Expand host F search g i)"
    unfolding run keeps_def
  proof (intro conjI allI impI)
    show "size_of g \<le> size_of g'" using res grows_size [of g1 g2] g1n by (simp add: n')
    fix j assume j: "j < size_of g"
    then have j2: "nodes g2 ! j = nodes g1 ! j" "j < size_of g2" using grows_nth [of g1 g2 j] res g1n by auto
    then show "ident_at g' j = ident_at g j" using at [of j] at1(1) [OF j] by simp
    show "nodes g' ! j = nodes g ! j" if "j \<noteq> i" using that j2 at1(2) [OF j] by (simp add: g'_def upd_node_def)
  qed
  have "idents g1 = idents g" "idents g' = idents g2"
    using at1 at by (simp_all add: idents_at g1n n')
  then show "idents (Expand host F search g i) = idents g \<union> direct_needs host F search (node_key ?n)"
    using res by (simp add: run direct_needs_def rec)
qed

text \<open>One round of the walk, and the walk: everything that is recorded gets resolved.\<close>

definition walk_step :: "ByteOrder \<Rightarrow> fs \<Rightarrow> string list \<Rightarrow> DependencyGraph \<Rightarrow> NodeId \<Rightarrow> DependencyGraph" where
  "walk_step host F search g i =
     (if node_status (nodes g ! i) = Parsed \<and> \<not> expanded (nodes g ! i) then Expand host F search g i else g)"

definition walked :: "DependencyGraph \<Rightarrow> NodeId \<Rightarrow> bool" where
  "walked g i \<longleftrightarrow> (\<forall>j < i. node_status (nodes g ! j) = Parsed \<longrightarrow> expanded (nodes g ! j))"

definition reached_from :: "ByteOrder \<Rightarrow> fs \<Rightarrow> string list \<Rightarrow> ident set \<Rightarrow> ident set" where
  "reached_from host F search X = (needs host F search)\<^sup>* `` X"

lemma walk_step_ok:
  assumes ok: "graph_ok host F search {} g" and canon: "canonical_ok F" and i: "i < size_of g" and w: "walked g i"
    and inside: "idents g \<subseteq> reached_from host F search X"
  defines "g' \<equiv> walk_step host F search g i"
  shows "graph_ok host F search {} g'" and "keeps g i g'" and "walked g' (Suc i)" and "idents g' \<subseteq> reached_from host F search X"
proof -
  let ?todo = "node_status (nodes g ! i) = Parsed \<and> \<not> expanded (nodes g ! i)"
  have "graph_ok host F search {} g' \<and> keeps g i g' \<and> walked g' (Suc i) \<and> idents g' \<subseteq> reached_from host F search X"
  proof (cases ?todo)
    case False
    then show ?thesis using ok w inside by (auto simp: g'_def walk_step_def keeps_def walked_def less_Suc_eq)
  next
    case True
    note e = Expand_ok [OF ok canon i conjunct1 [OF True] conjunct2 [OF True]]
    have g': "g' = Expand host F search g i" using True by (simp add: g'_def walk_step_def)
    have "walked g' (Suc i)"
      using w e(2,3) i unfolding walked_def keeps_def g' by (metis less_Suc_eq less_trans)
    moreover have "(FileId (node_key (nodes g ! i)), y) \<in> needs host F search"
      if "y \<in> direct_needs host F search (node_key (nodes g ! i))" for y using that by (auto simp: needs_def)
    moreover have "FileId (node_key (nodes g ! i)) \<in> reached_from host F search X"
      using inside i True by (force simp: idents_at ident_of_def)
    ultimately show ?thesis
      using e inside unfolding g' reached_from_def by (auto intro: rtrancl_into_rtrancl)
  qed
  then show "graph_ok host F search {} g'" and "keeps g i g'" and "walked g' (Suc i)" and "idents g' \<subseteq> reached_from host F search X" by auto
qed

lemma ExpandAll_eq:
  "ExpandAll host F search g i = (if i < size_of g then ExpandAll host F search (walk_step host F search g i) (Suc i) else Some g)"
  by (subst ExpandAll.simps) (simp add: walk_step_def)

text \<open>The identities of a good graph are distinct, so a finite set of them bounds its size.\<close>

lemma graph_size_bound:
  assumes "graph_ok host F search busy g" and "idents g \<subseteq> U" and "finite U"
  shows "size_of g \<le> card U"
proof -
  have "inj_on (ident_at g) {..<size_of g}"
    using graph_okD(2) [OF assms(1)] unfolding index_ok_def inj_on_def by (metis lessThan_iff option.inject)
  then have "card (idents g) = size_of g" by (simp add: idents_at card_image)
  then show ?thesis using card_mono [OF assms(3,2)] by simp
qed

lemma ExpandAll_result:
  assumes "graph_ok host F search {} g" and canon: "canonical_ok F" and "walked g i" and "i \<le> size_of g"
    and "idents g \<subseteq> reached_from host F search X" and fin: "finite (reached_from host F search X)"
  shows "\<exists>g'. ExpandAll host F search g i = Some g' \<and> graph_ok host F search {} g' \<and> walked g' (size_of g') \<and>
    size_of g \<le> size_of g' \<and> (\<forall>j < size_of g. ident_at g' j = ident_at g j) \<and> idents g' \<subseteq> reached_from host F search X"
  using assms(1,3-5)
proof (induction "card (reached_from host F search X) - i" arbitrary: g i rule: less_induct)
  case less
  show ?case
  proof (cases "i < size_of g")
    case False
    then show ?thesis using less.prems by (auto simp: ExpandAll_eq)
  next
    case True
    let ?g = "walk_step host F search g i"
    note st = walk_step_ok [OF less.prems(1) canon True less.prems(2,4)]
    have le: "Suc i \<le> size_of ?g" using st(2) True by (auto simp: keeps_def)
    have "size_of g \<le> card (reached_from host F search X)" by (rule graph_size_bound [OF less.prems(1,4) fin])
    then have "card (reached_from host F search X) - Suc i < card (reached_from host F search X) - i" using True by simp
    from less.hyps [OF this st(1,3) le st(4)] obtain g' where g': "ExpandAll host F search ?g (Suc i) = Some g'"
      "graph_ok host F search {} g'" "walked g' (size_of g')" "size_of ?g \<le> size_of g'"
      "\<forall>j < size_of ?g. ident_at g' j = ident_at ?g j" "idents g' \<subseteq> reached_from host F search X" by blast
    have "\<forall>j < size_of g. ident_at g' j = ident_at g j" "size_of g \<le> size_of g'"
      using g'(4,5) st(2) unfolding keeps_def by auto
    then show ?thesis using g' True by (subst ExpandAll_eq) auto
  qed
qed

text \<open>With finitely many regular files, finitely many things can be needed.\<close>

lemma finite_direct_needs: "finite (direct_needs host F search k)"
  by (simp add: direct_needs_def split: option.splits)

lemma finite_reached_from:
  assumes "finite {k. fs_is_regular F k}" and "finite X"
  shows "finite (reached_from host F search X)"
proof -
  let ?N = "\<Union>k \<in> {k. fs_is_regular F k}. direct_needs host F search k"
  have step: "y \<in> ?N" if "(x, y) \<in> needs host F search" for x y
    using that by (auto simp: needs_def direct_needs_def recorded_def split: if_splits option.splits)
  have "y \<in> X \<union> ?N" if "(x, y) \<in> (needs host F search)\<^sup>*" "x \<in> X" for x y
    using that by (induction rule: rtrancl_induct) (auto dest: step)
  then have "reached_from host F search X \<subseteq> X \<union> ?N" by (auto simp: reached_from_def)
  then show ?thesis by (rule finite_subset) (simp add: assms finite_direct_needs)
qed

text \<open>In the finished graph the edges are what the reference definition says.\<close>

lemma walked_edges:
  assumes ok: "graph_ok host F search {} g" and w: "walked g (size_of g)" and i: "i < size_of g"
  shows "(\<forall>j \<in> set (successors (nodes g ! i)). j < size_of g) \<and>
    ident_at g ` set (successors (nodes g ! i)) = {y. (ident_at g i, y) \<in> needs host F search}"
proof -
  let ?n = "nodes g ! i"
  note n = graph_okD(1) [OF ok i, unfolded node_ok_def Let_def]
  show ?thesis
  proof (cases "node_status ?n = Unresolved")
    case True
    then show ?thesis using n by (simp add: needs_def ident_of_def)
  next
    case found: False
    then have id: "ident_at g i = FileId (node_key ?n)" by (simp add: ident_of_def)
    show ?thesis
    proof (cases "recorded host F (node_key ?n)")
      case None
      then show ?thesis using n found by (simp add: needs_def id direct_needs_def)
    next
      case (Some x)
      obtain fmt names where x: "x = (fmt, names)" by (cases x)
      have e: "(\<forall>j \<in> set (successors ?n). j < size_of g)" "map (ident_at g) (successors ?n) = map (stands_for F search (fmt = FormatPe)) names"
        using n found w i by (auto simp: Some x walked_def)
      have "ident_at g ` set (successors ?n) = stands_for F search (fmt = FormatPe) ` set names"
        using arg_cong [OF e(2), of set] by simp
      then show ?thesis using e(1) by (simp add: needs_def id direct_needs_def Some x)
    qed
  qed
qed

section \<open>Crediting\<close>

text \<open>The edges between indexes, and marking.\<close>

definition edges :: "DependencyNode list \<Rightarrow> (NodeId \<times> NodeId) set" where
  "edges ns = {(i, j). i < length ns \<and> j \<in> set (successors (ns ! i))}"

definition marked :: "u32 \<Rightarrow> u32 list \<Rightarrow> u32 list \<times> NodeId list \<Rightarrow> bool" where
  "marked stamp seen0 sq \<longleftrightarrow> (case sq of (seen, queue) \<Rightarrow> distinct queue \<and> set queue \<subseteq> {..<length seen} \<and>
     length seen = length seen0 \<and> (\<forall>v < length seen. seen ! v = (if v \<in> set queue then stamp else seen0 ! v)))"

lemma marked_values: "marked stamp seen0 (seen, queue) \<Longrightarrow> set seen \<subseteq> insert stamp (set seen0)"
proof
  fix x assume m: "marked stamp seen0 (seen, queue)" and "x \<in> set seen"
  then obtain v where v: "v < length seen" "x = seen ! v" by (auto simp: in_set_conv_nth)
  then show "x \<in> insert stamp (set seen0)" using m nth_mem [of v seen0] by (cases "v \<in> set queue") (auto simp: marked_def)
qed

lemma Mark_marked:
  assumes "marked stamp seen0 (seen, queue)" and "stamp \<notin> set seen0" and "v < length seen"
  shows "marked stamp seen0 (Mark stamp (seen, queue) v) \<and>
    snd (Mark stamp (seen, queue) v) = queue @ (if v \<in> set queue then [] else [v])"
proof -
  have "seen ! v = stamp \<longleftrightarrow> v \<in> set queue" using assms by (auto simp: marked_def)
  then show ?thesis using assms by (auto simp: marked_def Mark_def nth_list_update)
qed

lemma Marks_marked:
  assumes "marked stamp seen0 (seen, queue)" and new: "stamp \<notin> set seen0" and "\<forall>v \<in> set vs. v < length seen0"
  shows "\<exists>more. marked stamp seen0 (foldl (Mark stamp) (seen, queue) vs) \<and>
    snd (foldl (Mark stamp) (seen, queue) vs) = queue @ more \<and> set (queue @ more) = set queue \<union> set vs"
  using assms(1,3)
proof (induction vs arbitrary: seen queue)
  case (Cons v vs)
  have "v < length seen" using Cons.prems by (simp add: marked_def)
  note m = Mark_marked [OF Cons.prems(1) new this]
  obtain seen1 queue1 where r: "Mark stamp (seen, queue) v = (seen1, queue1)" by fastforce
  have q1: "queue1 = queue @ (if v \<in> set queue then [] else [v])" "marked stamp seen0 (seen1, queue1)" using m by (auto simp: r split: if_splits)
  from Cons.IH [OF q1(2)] Cons.prems(2) obtain more where
    "marked stamp seen0 (foldl (Mark stamp) (seen1, queue1) vs)" "snd (foldl (Mark stamp) (seen1, queue1) vs) = queue1 @ more"
    "set (queue1 @ more) = set queue1 \<union> set vs" by auto
  then show ?case using q1(1) by (auto simp: r)
qed simp

text \<open>The loop over the queue visits exactly what the edges reach.\<close>

definition visiting :: "DependencyNode list \<Rightarrow> NodeId \<Rightarrow> u32 \<Rightarrow> u32 list \<Rightarrow> u32 list \<times> NodeId list \<Rightarrow> nat \<Rightarrow> bool" where
  "visiting ns s stamp seen0 sq head \<longleftrightarrow> marked stamp seen0 sq \<and> set (successors (ns ! s)) \<subseteq> set (snd sq) \<and>
     head \<le> length (snd sq) \<and> set (snd sq) \<subseteq> (edges ns)\<^sup>+ `` {s} \<and>
     (\<forall>v \<in> set (take head (snd sq)). set (successors (ns ! v)) \<subseteq> set (snd sq))"

definition credited :: "u32 \<Rightarrow> NodeId set \<Rightarrow> u32 list list \<Rightarrow> u32 list list" where
  "credited index V credits = map (\<lambda>v. credits ! v @ (if v \<in> V then [index] else [])) [0..<length credits]"

lemma visiting_all:
  assumes "visiting ns s stamp seen0 sq (length (snd sq))" and "s < length ns"
    and inside: "\<forall>i < length ns. \<forall>j \<in> set (successors (ns ! i)). j < length ns"
  shows "set (snd sq) = (edges ns)\<^sup>+ `` {s}"
proof
  have closed: "set (successors (ns ! v)) \<subseteq> set (snd sq)" if "v \<in> set (snd sq)" for v
    using assms(1) that by (simp add: visiting_def)
  have "v \<in> set (snd sq)" if "(s, v) \<in> (edges ns)\<^sup>+" for v
    using that by (induction rule: trancl_induct) (use assms(1) closed in \<open>auto simp: edges_def visiting_def\<close>)
  then show "(edges ns)\<^sup>+ `` {s} \<subseteq> set (snd sq)" by auto
qed (use assms(1) in \<open>simp add: visiting_def\<close>)

lemma credited_step:
  assumes "v < length credits0" and "v \<notin> V"
  shows "(credited index V credits0)[v := credited index V credits0 ! v @ [index]] = credited index (insert v V) credits0"
  using assms by (intro nth_equalityI) (auto simp: credited_def nth_list_update)

lemma Credit_correct:
  assumes "visiting ns s stamp seen0 sq head" and s: "s < length ns" and n: "length seen0 = length ns" "length credits0 = length ns"
    and new: "stamp \<notin> set seen0" and inside: "\<forall>i < length ns. \<forall>j \<in> set (successors (ns ! i)). j < length ns"
    and "credits = credited index (set (take head (snd sq))) credits0"
  shows "\<exists>seen. Credit ns stamp index sq head credits = (seen, credited index ((edges ns)\<^sup>+ `` {s}) credits0) \<and>
    length seen = length ns \<and> set seen \<subseteq> insert stamp (set seen0)"
  using assms(1,7)
proof (induction "pending stamp sq - head" arbitrary: sq head credits rule: less_induct)
  case less
  obtain seen queue where sq: "sq = (seen, queue)" by fastforce
  have v: "marked stamp seen0 (seen, queue)" "head \<le> length queue" "set queue \<subseteq> (edges ns)\<^sup>+ `` {s}"
    using less.prems(1) by (simp_all add: visiting_def sq)
  have seen: "length seen = length ns" "set seen \<subseteq> insert stamp (set seen0)"
    using v(1) n(1) marked_values [OF v(1)] by (simp_all add: marked_def)
  show ?case
  proof (cases "head < length queue")
    case False
    then have "head = length (snd sq)" using v(2) by (simp add: sq)
    then have "set queue = (edges ns)\<^sup>+ `` {s}" using visiting_all [of ns s stamp seen0 sq, OF _ s inside] less.prems(1) by (simp add: sq)
    then show ?thesis using less.prems(2) False seen by (subst Credit.simps) (simp add: sq)
  next
    case True
    let ?c = "queue ! head"
    have c: "?c < length ns" "?c \<notin> set (take head queue)" "(s, ?c) \<in> (edges ns)\<^sup>+"
    proof -
      show "?c < length ns" using v(1) True seen(1) by (auto simp: marked_def subset_eq)
      show "?c \<notin> set (take head queue)" using v(1) True
        by (auto simp: marked_def in_set_conv_nth nth_eq_iff_index_eq)
      show "(s, ?c) \<in> (edges ns)\<^sup>+" using v(3) nth_mem [OF True] by auto
    qed
    have succ: "\<forall>w \<in> set (successors (ns ! ?c)). w < length seen0" using inside c(1) n(1) by simp
    from Marks_marked [OF v(1) new succ] obtain more where
      m: "marked stamp seen0 (foldl (Mark stamp) sq (successors (ns ! ?c)))"
        "snd (foldl (Mark stamp) sq (successors (ns ! ?c))) = queue @ more" "set (queue @ more) = set queue \<union> set (successors (ns ! ?c))"
      by (auto simp: sq)
    have reach: "set (successors (ns ! ?c)) \<subseteq> (edges ns)\<^sup>+ `` {s}"
      using c(1,3) by (auto simp: edges_def intro: trancl_into_trancl)
    have tk: "take (Suc head) (queue @ more) = take head queue @ [?c]" using True by (simp add: take_Suc_conv_app_nth)
    have vis: "visiting ns s stamp seen0 (foldl (Mark stamp) sq (successors (ns ! ?c))) (Suc head)"
      unfolding visiting_def m(2) tk using less.prems(1) m(1,3) v(3) reach True by (auto simp: visiting_def sq)
    have "head < pending stamp sq" using True by (simp add: pending_def sq)
    then have dec: "pending stamp (foldl (Mark stamp) sq (successors (ns ! ?c))) - Suc head < pending stamp sq - head"
      by (simp add: Marks_pending)
    have cr: "credits[?c := credits ! ?c @ [index]] =
        credited index (set (take (Suc head) (snd (foldl (Mark stamp) sq (successors (ns ! ?c)))))) credits0"
      unfolding m(2) tk using credited_step [of ?c credits0 "set (take head queue)" index] c n(2) less.prems(2) by (simp add: sq)
    from less.hyps [OF dec vis cr] True show ?thesis by (subst Credit.simps) (simp add: sq Let_def)
  qed
qed

text \<open>The loop over the inputs: node \<open>v\<close> is credited with the inputs that reach it, in order.\<close>

definition credits_of :: "DependencyNode list \<Rightarrow> NodeId list \<Rightarrow> nat \<Rightarrow> NodeId \<Rightarrow> u32 list" where
  "credits_of ns ids k v = map word_of_nat (filter (\<lambda>j. (ids ! j, v) \<in> (edges ns)\<^sup>+) [0..<k])"

lemma CreditInputs_correct:
  assumes inside: "\<forall>i < length ns. \<forall>j \<in> set (successors (ns ! i)). j < length ns"
    and ids: "\<forall>i \<in> set ids. i < length ns" and few: "length ids < 2 ^ 32" and "k \<le> length ids"
  shows "\<exists>seen. foldl (CreditInput ns) (replicate (length ns) 0, replicate (length ns) []) (zip (take k ids) [0..<k]) =
      (seen, map (credits_of ns ids k) [0..<length ns]) \<and> length seen = length ns \<and>
      set seen \<subseteq> (\<lambda>j. word_of_nat j) ` {..k}"
  using assms(4)
proof (induction k)
  case 0
  then show ?case by (auto simp: credits_of_def map_replicate_const)
next
  case (Suc k)
  then obtain seen where IH: "foldl (CreditInput ns) (replicate (length ns) 0, replicate (length ns) []) (zip (take k ids) [0..<k]) =
      (seen, map (credits_of ns ids k) [0..<length ns])" "length seen = length ns" "set seen \<subseteq> (\<lambda>j. word_of_nat j) ` {..k}" by auto
  let ?stamp = "word_of_nat (k + 1) :: u32" and ?s = "ids ! k"
  have zip: "zip (take (Suc k) ids) [0..<Suc k] = zip (take k ids) [0..<k] @ [(?s, k)]"
    using Suc.prems by (simp add: take_Suc_conv_app_nth)
  have new: "?stamp \<notin> set seen"
  proof
    assume "?stamp \<in> set seen"
    then obtain j where j: "j \<le> k" "?stamp = word_of_nat j" using IH(3) by auto
    then have "unat ?stamp = unat (word_of_nat j :: u32)" by simp
    then show False using j(1) few Suc.prems by (simp add: unat_of_nat_small del: of_nat_add of_nat_Suc)
  qed
  have s: "?s < length ns" using ids Suc.prems by simp
  have empty: "marked ?stamp seen (seen, [])" by (simp add: marked_def)
  have succ: "\<forall>v \<in> set (successors (ns ! ?s)). v < length seen" using inside s IH(2) by simp
  define sq where "sq = foldl (Mark ?stamp) (seen, []) (successors (ns ! ?s))"
  from Marks_marked [OF empty new succ] have m: "marked ?stamp seen sq" "set (snd sq) = set (successors (ns ! ?s))"
    by (auto simp: sq_def)
  have vis: "visiting ns ?s ?stamp seen sq 0"
    using m s by (auto simp: visiting_def edges_def)
  have cr: "map (credits_of ns ids k) [0..<length ns] = credited (word_of_nat k) (set (take 0 (snd sq))) (map (credits_of ns ids k) [0..<length ns])"
    by (intro nth_equalityI) (simp_all add: credited_def)
  have len: "length (map (credits_of ns ids k) [0..<length ns]) = length ns" by simp
  have fin: "credited (word_of_nat k) ((edges ns)\<^sup>+ `` {?s}) (map (credits_of ns ids k) [0..<length ns]) = map (credits_of ns ids (Suc k)) [0..<length ns]"
    by (intro nth_equalityI) (auto simp: credited_def credits_of_def)
  from Credit_correct [OF vis s IH(2) len new inside cr] obtain seen' where crd:
    "Credit ns ?stamp (word_of_nat k) sq 0 (map (credits_of ns ids k) [0..<length ns]) = (seen', map (credits_of ns ids (Suc k)) [0..<length ns])"
    "length seen' = length ns" "set seen' \<subseteq> insert ?stamp (set seen)" unfolding fin by blast
  have "CreditInput ns (seen, map (credits_of ns ids k) [0..<length ns]) (?s, k) = (seen', map (credits_of ns ids (Suc k)) [0..<length ns])"
    using crd(1) by (simp add: CreditInput_def Let_def sq_def)
  moreover have "set seen' \<subseteq> word_of_nat ` {..Suc k}"
    using crd(3) IH(3) by (fastforce simp: image_iff simp del: of_nat_Suc of_nat_add)
  ultimately show ?case using crd(2) unfolding zip foldl_append IH(1) by simp
qed

section \<open>The inputs\<close>

text \<open>Two spellings name the same input when \<open>canonical\<close> gives the same path, or when they are the same text.\<close>

definition same_input :: "fs \<Rightarrow> string \<Rightarrow> string \<Rightarrow> bool" where
  "same_input F p q \<longleftrightarrow> fs_canonical F p = fs_canonical F q \<and> (fs_canonical F p = None \<longrightarrow> p = q)"

definition input_names :: "fs \<Rightarrow> string list \<Rightarrow> string set" where
  "input_names F paths = {p \<in> set paths. \<forall>q \<in> set paths. same_input F p q \<longrightarrow> p \<le> q}"

definition identity_of :: "fs \<Rightarrow> string \<Rightarrow> string" where
  "identity_of F p = (case fs_canonical F p of None \<Rightarrow> ''raw:'' @ p | Some c \<Rightarrow> ''file:'' @ c)"

lemma identity_of_eq: "identity_of F p = identity_of F q \<longleftrightarrow> same_input F p q"
  by (auto simp: identity_of_def same_input_def split: option.splits)

definition canonical_text :: "fs \<Rightarrow> string \<Rightarrow> string" where
  "canonical_text F p = (case fs_canonical F p of None \<Rightarrow> [] | Some c \<Rightarrow> c)"

definition entry_ok :: "fs \<Rightarrow> string list \<Rightarrow> string \<Rightarrow> Input \<Rightarrow> bool" where
  "entry_ok F paths k i \<longleftrightarrow> identity_of F (spelling i) = k \<and> input_canonical i = canonical_text F (spelling i) \<and>
     spelling i \<in> set paths \<and> (\<forall>q \<in> set paths. identity_of F q = k \<longrightarrow> spelling i \<le> q)"

definition inputs_ok :: "fs \<Rightarrow> string list \<Rightarrow> (string \<times> Input) list \<Rightarrow> bool" where
  "inputs_ok F paths m \<longleftrightarrow> distinct (map fst m) \<and> identity_of F ` set paths \<subseteq> fst ` set m \<and>
     (\<forall>(k, i) \<in> set m. entry_ok F paths k i)"

lemma entry_ok_other: "entry_ok F paths k i \<Longrightarrow> k \<noteq> identity_of F p \<Longrightarrow> entry_ok F (paths @ [p]) k i"
  by (auto simp: entry_ok_def)

lemma distinct_insort_fst: "distinct (map fst (insort_key fst x m)) \<longleftrightarrow> fst x \<notin> fst ` set m \<and> distinct (map fst m)"
  by (induction m) (auto simp: set_insort_key)

lemma AddInput_ok:
  assumes ok: "inputs_ok F paths m"
  shows "inputs_ok F (paths @ [p]) (AddInput F m p)"
proof (cases "map_of m (identity_of F p)")
  let ?k = "identity_of F p" and ?i = "\<lparr>spelling = p, input_canonical = canonical_text F p\<rparr>"
  case None
  then have fresh: "?k \<notin> fst ` set m" by (simp add: map_of_eq_None_iff)
  have run: "AddInput F m p = insort_key fst (?k, ?i) m"
    using None by (simp add: AddInput_def identity_of_def canonical_text_def Let_def)
  have "\<forall>q \<in> set paths. identity_of F q \<noteq> ?k" using ok fresh unfolding inputs_ok_def by (metis image_eqI subsetD)
  then have "entry_ok F (paths @ [p]) ?k ?i" by (simp add: entry_ok_def)
  moreover have "entry_ok F (paths @ [p]) k i" if "(k, i) \<in> set m" for k i
    by (rule entry_ok_other) (use ok that fresh in \<open>force simp: inputs_ok_def\<close>)+
  ultimately show ?thesis
    using ok fresh unfolding run inputs_ok_def distinct_insort_fst set_insort_key by auto
next
  let ?k = "identity_of F p"
  case (Some i)
  have i: "(?k, i) \<in> set m" using Some by (simp add: map_of_SomeD)
  let ?f = "\<lambda>(k, j). (k, if k = ?k \<and> p < spelling i then j\<lparr>spelling := p\<rparr> else j)"
  have run: "AddInput F m p = map ?f m"
    using Some by (auto simp: AddInput_def identity_of_def [symmetric] Let_def)
  have fst: "map fst (map ?f m) = map fst m" by (auto simp: case_prod_beta)
  have old: "entry_ok F paths k j" if "(k, j) \<in> set m" for k j using ok that by (auto simp: inputs_ok_def)
  have only: "j = i" if "(?k, j) \<in> set m" for j
    using ok i that eq_key_imp_eq_value unfolding inputs_ok_def by fastforce
  have "entry_ok F (paths @ [p]) k (snd (?f (k, j)))" if kj: "(k, j) \<in> set m" for k j
  proof (cases "k = ?k")
    case True
    then have j: "j = i" using only kj by simp
    have can: "fs_canonical F (spelling i) = fs_canonical F p"
      using old [OF i, unfolded entry_ok_def identity_of_eq] by (simp add: same_input_def)
    have o: "identity_of F (spelling i) = ?k" "input_canonical i = canonical_text F p" "spelling i \<in> set paths"
      "q \<in> set paths \<Longrightarrow> identity_of F q = ?k \<Longrightarrow> spelling i \<le> q" for q
      using old [OF i] can by (simp_all add: entry_ok_def canonical_text_def)
    show ?thesis
    proof (cases "p < spelling i")
      case less: True
      then have "q \<in> set paths \<Longrightarrow> identity_of F q = ?k \<Longrightarrow> p \<le> q" for q using o(4) [of q] by auto
      then show ?thesis using less o True j by (simp add: entry_ok_def)
    qed (use o can True j in \<open>auto simp: entry_ok_def canonical_text_def\<close>)
  qed (use old [OF kj] in \<open>simp add: entry_ok_other\<close>)
  then have each: "\<forall>(k, j) \<in> set (map ?f m). entry_ok F (paths @ [p]) k j" by (auto split: if_splits)
  have keys: "fst ` set (map ?f m) = fst ` set m" by (metis fst list.set_map)
  have "identity_of F ` set (paths @ [p]) \<subseteq> fst ` set m"
    using ok imageI [OF i, of fst] by (auto simp: inputs_ok_def)
  moreover have "distinct (map fst m)" using ok by (simp add: inputs_ok_def)
  ultimately show ?thesis unfolding run inputs_ok_def fst keys using each by blast
qed

lemma AddInputs_ok: "inputs_ok F paths (foldl (AddInput F) [] paths)"
proof (induction paths rule: rev_induct)
  case (snoc p paths)
  then show ?case using AddInput_ok [of F paths _ p] by simp
qed (simp add: inputs_ok_def)

lemma NormaliseInputs_canonical: "i \<in> set (NormaliseInputs F paths) \<Longrightarrow> input_canonical i = canonical_text F (spelling i)"
  using AddInputs_ok [of F paths] by (auto simp: NormaliseInputs_def inputs_ok_def entry_ok_def)

lemma inputs_ok_spellings:
  assumes "inputs_ok F paths m"
  shows "distinct (map (spelling \<circ> snd) m)" and "(spelling \<circ> snd) ` set m = input_names F paths"
proof -
  have e: "identity_of F (spelling (snd x)) = fst x" if "x \<in> set m" for x
    using assms that by (auto simp: inputs_ok_def entry_ok_def)
  then have "map (identity_of F) (map (spelling \<circ> snd) m) = map fst m" by simp
  then show "distinct (map (spelling \<circ> snd) m)" using assms unfolding inputs_ok_def by (metis distinct_map)
  show "(spelling \<circ> snd) ` set m = input_names F paths"
  proof (intro equalityI subsetI)
    fix p assume "p \<in> (spelling \<circ> snd) ` set m"
    then show "p \<in> input_names F paths"
      using assms by (fastforce simp: inputs_ok_def entry_ok_def input_names_def identity_of_eq [symmetric])
  next
    fix p assume p: "p \<in> input_names F paths"
    then obtain x where x: "x \<in> set m" "fst x = identity_of F p"
      using assms unfolding inputs_ok_def input_names_def by (metis (no_types, lifting) CollectD image_iff subsetD)
    have en: "entry_ok F paths (fst x) (snd x)" using assms x(1) by (auto simp: inputs_ok_def)
    have "spelling (snd x) = p"
    proof (rule antisym)
      show "spelling (snd x) \<le> p" using en x(2) p by (auto simp: entry_ok_def input_names_def)
      show "p \<le> spelling (snd x)"
        using en x(2) p identity_of_eq [of F p "spelling (snd x)"] by (auto simp: entry_ok_def input_names_def)
    qed
    then show "p \<in> (spelling \<circ> snd) ` set m" using x(1) by force
  qed
qed

lemma NormaliseInputs_spellings: "map spelling (NormaliseInputs F paths) = sorted_list_of_set (input_names F paths)"
proof -
  let ?m = "foldl (AddInput F) [] paths"
  have "mset (map spelling (NormaliseInputs F paths)) = mset (map (spelling \<circ> snd) ?m)"
    by (simp add: NormaliseInputs_def multiset.map_comp)
  then have "set (map spelling (NormaliseInputs F paths)) = set (map (spelling \<circ> snd) ?m)"
    "distinct (map spelling (NormaliseInputs F paths))"
    using inputs_ok_spellings(1) [OF AddInputs_ok [of F paths]] by (metis mset_eq_setD, metis mset_eq_imp_distinct_iff)
  moreover have "sorted (map spelling (NormaliseInputs F paths))" by (simp add: NormaliseInputs_def)
  moreover have "set (map (spelling \<circ> snd) ?m) = input_names F paths"
    using inputs_ok_spellings(2) [OF AddInputs_ok [of F paths]] by simp
  ultimately show ?thesis using sorted_list_of_set.idem_if_sorted_distinct by metis
qed

section \<open>The nodes of the inputs\<close>

definition key_id :: "fs \<Rightarrow> Input \<Rightarrow> ident" where
  "key_id F i = FileId (key_of F (spelling i))"

definition unreadable :: "ByteOrder \<Rightarrow> fs \<Rightarrow> string \<Rightarrow> bool" where
  "unreadable host F p \<longleftrightarrow> recorded host F (key_of F p) = None"

lemma status_recorded:
  assumes "graph_ok host F search busy g" and "i < size_of g" and "ident_at g i = FileId k"
  shows "node_key (nodes g ! i) = k \<and> (node_status (nodes g ! i) = NotReadable \<longleftrightarrow> recorded host F k = None)"
  using graph_okD(1) [OF assms(1,2)] assms(3)
  by (auto simp: node_ok_def ident_of_def Let_def split: if_splits option.splits)

lemma AddInputNodes_ok:
  assumes canon: "canonical_ok F" and "\<forall>i \<in> set inputs. input_canonical i = canonical_text F (spelling i)"
  shows "\<exists>g ids errs. foldl (AddInputNode host F) (empty_graph, [], Map.empty) inputs = (g, ids, errs) \<and>
    graph_ok host F search {} g \<and> map (ident_at g) ids = map (key_id F) inputs \<and> (\<forall>i \<in> set ids. i < size_of g) \<and>
    idents g = key_id F ` set inputs \<and> dom errs = {p \<in> spelling ` set inputs. unreadable host F p}"
  using assms(2)
proof (induction inputs rule: rev_induct)
  case Nil
  then show ?case by (simp add: graph_ok_empty idents_def) (simp add: empty_graph_def)
next
  case (snoc input inputs)
  then obtain g ids errs where IH: "foldl (AddInputNode host F) (empty_graph, [], Map.empty) inputs = (g, ids, errs)"
    "graph_ok host F search {} g" "map (ident_at g) ids = map (key_id F) inputs" "\<forall>i \<in> set ids. i < size_of g"
    "idents g = key_id F ` set inputs" "dom errs = {p \<in> spelling ` set inputs. unreadable host F p}" by auto
  let ?known = "if input_canonical input = [] then None else Some (input_canonical input)"
  obtain i g' where run: "FileNode host F g (spelling input) ?known = (i, g')" by fastforce
  have "?known = None \<or> ?known = fs_canonical F (spelling input)"
    using snoc.prems by (auto simp: canonical_text_def split: option.splits)
  from FileNode_finds [OF IH(2) canon this] have f: "graph_ok host F search {} g'" "grows g g'" "i < size_of g'" "ident_at g' i = key_id F input" "idents g' = insert (key_id F input) (idents g)"
    by (simp_all add: run finds_def key_id_def)
  have st: "node_status (nodes g' ! i) = NotReadable \<longleftrightarrow> unreadable host F (spelling input)"
    using status_recorded [OF f(1,3)] f(4) by (simp add: key_id_def unreadable_def)
  have "map (ident_at g') (ids @ [i]) = map (key_id F) (inputs @ [input])"
    using IH(4) grows_nth [OF f(2)] f(4) unfolding map_append IH(3) [symmetric] by simp
  moreover have "\<forall>j \<in> set (ids @ [i]). j < size_of g'" using IH(4) f(3) grows_size [OF f(2)] by auto
  moreover have "foldl (AddInputNode host F) (empty_graph, [], Map.empty) (inputs @ [input]) =
    (g', ids @ [i], if unreadable host F (spelling input) then errs(spelling input \<mapsto> node_reason (nodes g' ! i)) else errs)"
    by (simp add: IH(1) AddInputNode_def run st)
  ultimately show ?case using f IH(5,6) by auto
qed

section \<open>Reachability\<close>

text \<open>Between the nodes of a finished graph, \<open>edges\<close> is \<open>needs\<close>.\<close>

lemma edges_needs:
  assumes ok: "graph_ok host F search {} g" and w: "walked g (size_of g)" and s: "s < size_of g"
  shows "ident_at g ` ((edges (nodes g))\<^sup>+ `` {s}) = (needs host F search)\<^sup>+ `` {ident_at g s}"
proof -
  note e = walked_edges [OF ok w]
  have fwd: "v < size_of g \<and> (ident_at g s, ident_at g v) \<in> (needs host F search)\<^sup>+" if "(s, v) \<in> (edges (nodes g))\<^sup>+" for v
    using that
  proof (induction rule: trancl_induct)
    case (base y)
    then show ?case using e [OF s] by (auto simp: edges_def)
  next
    case (step y z)
    then have "z < size_of g" "(ident_at g y, ident_at g z) \<in> needs host F search" using e [of y] by (auto simp: edges_def)
    then show ?case using step.IH by (auto intro: trancl_into_trancl)
  qed
  have bwd: "\<exists>v. (s, v) \<in> (edges (nodes g))\<^sup>+ \<and> ident_at g v = y" if "(ident_at g s, y) \<in> (needs host F search)\<^sup>+" for y
    using that
  proof (induction rule: trancl_induct)
    case (base y)
    then obtain v where "v \<in> set (successors (nodes g ! s))" "ident_at g v = y" using e [OF s] by (metis (no_types, lifting) imageE mem_Collect_eq)
    then show ?case using s by (auto simp: edges_def)
  next
    case (step y z)
    then obtain v where v: "(s, v) \<in> (edges (nodes g))\<^sup>+" "ident_at g v = y" by blast
    then have "v < size_of g" using fwd by blast
    moreover from this obtain u where "u \<in> set (successors (nodes g ! v))" "ident_at g u = z"
      using e [of v] step.hyps(2) v(2) by (metis (no_types, lifting) imageE mem_Collect_eq)
    ultimately have "(v, u) \<in> edges (nodes g)" "ident_at g u = z" by (auto simp: edges_def)
    with trancl_into_trancl [OF v(1)] show ?case by blast
  qed
  show ?thesis using fwd bwd by (auto simp: image_iff)
qed

lemma unique_sorted_eq: "unique_sorted xs = sorted_list_of_set (set xs)"
proof -
  have "distinct (remdups_adj ys)" if "sorted ys" for ys :: "string list"
    using that by (induction ys rule: remdups_adj.induct) auto
  then have "sorted (unique_sorted xs)" "distinct (unique_sorted xs)" "set (unique_sorted xs) = set xs"
    by (simp_all add: unique_sorted_def sorted_remdups_adj)
  then show ?thesis using sorted_list_of_set.idem_if_sorted_distinct by metis
qed

section \<open>The report\<close>

text \<open>A list of a map, absent rather than empty.\<close>

definition listing :: "string set \<Rightarrow> string list option" where
  "listing S = (if S = {} then None else Some (sorted_list_of_set S))"

definition credit_names :: "u32 list list \<Rightarrow> Input list \<Rightarrow> NodeId \<Rightarrow> string list" where
  "credit_names credits inputs v = map (\<lambda>index. spelling (inputs ! unat index)) (credits ! v)"

definition credited_with :: "DependencyNode list \<Rightarrow> u32 list list \<Rightarrow> Input list \<Rightarrow> (DependencyNode \<Rightarrow> bool) \<Rightarrow> nat \<Rightarrow> string set" where
  "credited_with ns credits inputs P n = (\<Union>v \<in> {v. v < n \<and> P (ns ! v)}. set (credit_names credits inputs v))"

lemma credited_with_Suc:
  "credited_with ns credits inputs P (Suc n) =
     credited_with ns credits inputs P n \<union> (if P (ns ! n) then set (credit_names credits inputs n) else {})"
  by (auto simp: credited_with_def less_Suc_eq)

lemma finite_credited_with [simp]: "finite (credited_with ns credits inputs P n)"
  by (simp add: credited_with_def)

lemma listing_Some: "listing S = Some l \<Longrightarrow> finite S \<Longrightarrow> set l = S \<and> l \<noteq> []"
  by (auto simp: listing_def split: if_splits)

definition reported :: "DependencyNode list \<Rightarrow> u32 list list \<Rightarrow> Input list \<Rightarrow> nat \<Rightarrow> DependencyResult \<Rightarrow> bool" where
  "reported ns credits inputs n r \<longleftrightarrow>
     (\<forall>key. dependencies r key = listing (credited_with ns credits inputs (\<lambda>v. node_key v = key) n)) \<and>
     (\<forall>key. let S = credited_with ns credits inputs (\<lambda>v. node_key v = key \<and> node_status v = NotReadable) n in
        map_option (set \<circ> le_inputs) (libraryErrors r key) = (if S = {} then None else Some S))"

lemma ReportNode_parts:
  fixes inputs :: "Input list" and credits :: "u32 list list" and v :: NodeId
  defines "c \<equiv> credit_names credits inputs v"
  shows "dependencies (ReportNode ns credits inputs r v) =
      (if c = [] then dependencies r
       else (dependencies r)(node_key (ns ! v) \<mapsto>
         (case dependencies r (node_key (ns ! v)) of None \<Rightarrow> c | Some [] \<Rightarrow> c | Some l \<Rightarrow> unique_sorted (l @ c))))"
    and "map_option (set \<circ> le_inputs) (libraryErrors (ReportNode ns credits inputs r v) key) =
      (if c = [] \<or> key \<noteq> node_key (ns ! v) \<or> node_status (ns ! v) \<noteq> NotReadable then map_option (set \<circ> le_inputs) (libraryErrors r key)
       else Some (set c \<union> (case libraryErrors r key of None \<Rightarrow> {} | Some e \<Rightarrow> set (le_inputs e))))"
    and "errors (ReportNode ns credits inputs r v) = errors r"
  by (auto simp: ReportNode_def Let_def c_def credit_names_def fun_eq_iff split: option.splits list.splits)

lemma ReportNode_reported:
  assumes r: "reported ns credits inputs n r" and srt: "sorted (credit_names credits inputs n)" "distinct (credit_names credits inputs n)"
  shows "reported ns credits inputs (Suc n) (ReportNode ns credits inputs r n)"
proof -
  let ?c = "credit_names credits inputs n" and ?k = "node_key (ns ! n)"
  have c: "sorted_list_of_set (set ?c) = ?c" using srt by (rule sorted_list_of_set.idem_if_sorted_distinct)
  have d: "dependencies r key = listing (credited_with ns credits inputs (\<lambda>v. node_key v = key) n)" for key
    using r by (simp add: reported_def)
  have "dependencies (ReportNode ns credits inputs r n) key = listing (credited_with ns credits inputs (\<lambda>v. node_key v = key) (Suc n))" for key
  proof (cases "?c = [] \<or> key \<noteq> ?k")
    case True
    then show ?thesis by (auto simp: ReportNode_parts(1) credited_with_Suc d)
  next
    case False
    let ?S = "credited_with ns credits inputs (\<lambda>v. node_key v = ?k) n"
    show ?thesis
    proof (cases "listing ?S")
      case None
      then have "?S = {}" by (simp add: listing_def split: if_splits)
      then show ?thesis using False c d [of ?k] by (simp add: ReportNode_parts(1) credited_with_Suc listing_def)
    next
      case (Some l)
      then have l: "set l = ?S" "l \<noteq> []" using listing_Some [of ?S l] by simp_all
      then have "dependencies (ReportNode ns credits inputs r n) key = Some (unique_sorted (l @ ?c))"
        using False d [of ?k] Some by (simp add: ReportNode_parts(1) split: list.splits)
      then show ?thesis using False l by (simp add: unique_sorted_eq credited_with_Suc listing_def)
    qed
  qed
  moreover have "let S = credited_with ns credits inputs (\<lambda>v. node_key v = key \<and> node_status v = NotReadable) (Suc n) in
      map_option (set \<circ> le_inputs) (libraryErrors (ReportNode ns credits inputs r n) key) = (if S = {} then None else Some S)" for key
  proof -
    let ?S = "credited_with ns credits inputs (\<lambda>v. node_key v = key \<and> node_status v = NotReadable) n"
    have "map_option (set \<circ> le_inputs) (libraryErrors r key) = (if ?S = {} then None else Some ?S)"
      using r by (simp add: reported_def Let_def)
    then show ?thesis unfolding Let_def ReportNode_parts(2) credited_with_Suc
      by (cases "libraryErrors r key"; cases "?S = {}"; simp) auto
  qed
  ultimately show ?thesis by (simp add: reported_def)
qed

lemma ReportNodes_reported:
  assumes "dependencies r = Map.empty" and "libraryErrors r = Map.empty"
    and "\<forall>v < n. sorted (credit_names credits inputs v) \<and> distinct (credit_names credits inputs v)"
  shows "reported ns credits inputs n (foldl (ReportNode ns credits inputs) r [0..<n]) \<and>
    errors (foldl (ReportNode ns credits inputs) r [0..<n]) = errors r"
  using assms(3)
proof (induction n)
  case 0
  then show ?case using assms(1,2) by (simp add: reported_def credited_with_def listing_def)
next
  case (Suc n)
  then show ?case using ReportNode_reported [of ns credits inputs n] by (simp add: ReportNode_parts(3))
qed

section \<open>The whole request\<close>

lemma request_walk:
  assumes canon: "canonical_ok F" and fin: "finite {k. fs_is_regular F k}"
  shows "\<exists>g0 ids errs g. foldl (AddInputNode host F) (empty_graph, [], Map.empty) (NormaliseInputs F paths) = (g0, ids, errs) \<and>
    ExpandAll host F search g0 0 = Some g \<and> graph_ok host F search {} g \<and> walked g (size_of g) \<and>
    map (ident_at g) ids = map (key_id F) (NormaliseInputs F paths) \<and> (\<forall>i \<in> set ids. i < size_of g) \<and>
    dom errs = {p \<in> input_names F paths. unreadable host F p}"
proof -
  let ?in = "NormaliseInputs F paths"
  have names: "spelling ` set ?in = input_names F paths"
    using arg_cong [OF NormaliseInputs_spellings [of F paths], of set] by (simp add: input_names_def)
  have "\<forall>i \<in> set ?in. input_canonical i = canonical_text F (spelling i)" by (simp add: NormaliseInputs_canonical)
  from AddInputNodes_ok [OF canon this, of host search] obtain g0 ids errs where start: "foldl (AddInputNode host F) (empty_graph, [], Map.empty) ?in = (g0, ids, errs)"
    "graph_ok host F search {} g0" "map (ident_at g0) ids = map (key_id F) ?in" "\<forall>i \<in> set ids. i < size_of g0"
    "idents g0 = key_id F ` set ?in" "dom errs = {p \<in> spelling ` set ?in. unreadable host F p}" by (elim exE conjE) (rule that)
  have sub: "idents g0 \<subseteq> reached_from host F search (key_id F ` set ?in)" by (auto simp: start(5) reached_from_def)
  have fin': "finite (reached_from host F search (key_id F ` set ?in))" by (rule finite_reached_from [OF fin]) simp
  have "walked g0 0" by (simp add: walked_def)
  from ExpandAll_result [OF start(2) canon this _ sub fin'] obtain g where g: "ExpandAll host F search g0 0 = Some g"
    "graph_ok host F search {} g" "walked g (size_of g)" "size_of g0 \<le> size_of g" "\<forall>j < size_of g0. ident_at g j = ident_at g0 j" by auto
  have "map (ident_at g) ids = map (key_id F) ?in" using g(5) start(4) unfolding start(3) [symmetric] by simp
  moreover have "\<forall>i \<in> set ids. i < size_of g" using start(4) g(4) by auto
  ultimately show ?thesis using start(1,6) g(1-3) unfolding names by blast
qed

text \<open>What the credits of a node are, in terms of the reference definition.\<close>

lemma credit_names_sorted:
  assumes "length inputs < 2 ^ 32" and "sorted (map spelling inputs)" and "distinct (map spelling inputs)"
    and "v < n" and "length ids = length inputs" and "credits = map (credits_of ns ids (length ids)) [0..<n]"
  shows "sorted (credit_names credits inputs v)" and "distinct (credit_names credits inputs v)"
    and "set (credit_names credits inputs v) = {spelling (inputs ! j) | j. j < length inputs \<and> (ids ! j, v) \<in> (edges ns)\<^sup>+}"
proof -
  let ?js = "filter (\<lambda>j. (ids ! j, v) \<in> (edges ns)\<^sup>+) [0..<length inputs]"
  have "unat (word_of_nat j :: u32) = j" if "j \<in> set ?js" for j using that assms(1) by (simp add: unat_of_nat_small)
  then have eq: "credit_names credits inputs v = map ((!) (map spelling inputs)) ?js"
    using assms(4-6) by (simp add: credit_names_def credits_of_def)
  show "set (credit_names credits inputs v) = {spelling (inputs ! j) | j. j < length inputs \<and> (ids ! j, v) \<in> (edges ns)\<^sup>+}"
    unfolding eq by auto
  have "sorted_wrt (<) (map spelling inputs)" using assms(2,3) by (simp add: strict_sorted_iff)
  then have less: "map spelling inputs ! i < map spelling inputs ! j" if "i < j" "j < length inputs" for i j
    using that by (simp add: sorted_wrt_iff_nth_less)
  have "sorted_wrt (<) ?js" by (simp add: sorted_wrt_filter)
  then have "sorted_wrt (\<lambda>i j. map spelling inputs ! i < map spelling inputs ! j) ?js"
    by (rule sorted_wrt_mono_rel [rotated]) (use less in auto)
  then have "sorted_wrt (<) (credit_names credits inputs v)" unfolding eq sorted_wrt_map .
  then show "sorted (credit_names credits inputs v)" "distinct (credit_names credits inputs v)" by (simp_all add: strict_sorted_iff)
qed

definition users :: "ByteOrder \<Rightarrow> fs \<Rightarrow> string list \<Rightarrow> string list \<Rightarrow> ident \<Rightarrow> string set" where
  "users host F search paths y = {p \<in> input_names F paths. (FileId (key_of F p), y) \<in> (needs host F search)\<^sup>+}"

lemma credited_with_users:
  assumes ok: "graph_ok host F search {} g" and w: "walked g (size_of g)" and ids: "\<forall>i \<in> set ids. i < size_of g"
    and at: "map (ident_at g) ids = map (key_id F) inputs" and names: "spelling ` set inputs = input_names F paths"
    and cr: "\<forall>v < size_of g. set (credit_names credits inputs v) =
      {spelling (inputs ! j) | j. j < length inputs \<and> (ids ! j, v) \<in> (edges (nodes g))\<^sup>+}"
    and P: "\<forall>v < size_of g. P (nodes g ! v) \<longleftrightarrow> Q (ident_at g v)"
  shows "credited_with (nodes g) credits inputs P (size_of g) = (\<Union>y \<in> Collect Q. users host F search paths y)"
proof -
  have len: "length ids = length inputs" using arg_cong [OF at, of length] by simp
  have e: "ident_at g ` ((edges (nodes g))\<^sup>+ `` {ids ! j}) = (needs host F search)\<^sup>+ `` {key_id F (inputs ! j)}" if "j < length inputs" for j
    using edges_needs [OF ok w, of "ids ! j"] ids that len arg_cong [OF at, of "\<lambda>l. l ! j"] by simp
  have inside: "v < size_of g" if "(i, v) \<in> (edges (nodes g))\<^sup>+" for i v
    using that by (induction rule: trancl_induct) (use walked_edges [OF ok w] in \<open>auto simp: edges_def\<close>)
  have mem: "p \<in> set (credit_names credits inputs v) \<longleftrightarrow> (\<exists>j < length inputs. p = spelling (inputs ! j) \<and> (ids ! j, v) \<in> (edges (nodes g))\<^sup>+)"
    if "v < size_of g" for p v using cr that by auto
  have "p \<in> credited_with (nodes g) credits inputs P (size_of g) \<longleftrightarrow>
      (\<exists>j < length inputs. p = spelling (inputs ! j) \<and> (\<exists>v. (ids ! j, v) \<in> (edges (nodes g))\<^sup>+ \<and> Q (ident_at g v)))" for p
    unfolding credited_with_def UN_iff mem_Collect_eq using mem P inside by blast
  moreover have "(\<exists>v. (ids ! j, v) \<in> (edges (nodes g))\<^sup>+ \<and> Q (ident_at g v)) \<longleftrightarrow>
      (\<exists>y. Q y \<and> (key_id F (inputs ! j), y) \<in> (needs host F search)\<^sup>+)" if "j < length inputs" for j
    using e [OF that] by (metis (no_types, lifting) Image_singleton_iff image_iff)
  ultimately have "p \<in> credited_with (nodes g) credits inputs P (size_of g) \<longleftrightarrow>
      (\<exists>j < length inputs. p = spelling (inputs ! j)) \<and> (\<exists>y. Q y \<and> (FileId (key_of F p), y) \<in> (needs host F search)\<^sup>+)" for p
    unfolding key_id_def by metis
  moreover have "input_names F paths = {p. \<exists>j < length inputs. p = spelling (inputs ! j)}"
    unfolding names [symmetric] by (auto simp: in_set_conv_nth intro: rev_image_eqI [OF nth_mem])
  ultimately show ?thesis by (intro set_eqI) (simp add: users_def)
qed

lemma ListDependencies_result:
  assumes canon: "canonical_ok F" and fin: "finite {k. fs_is_regular F k}" and few: "length paths < 2 ^ 32"
  shows "\<exists>r. ListDependencies host F paths search = Some r \<and>
    (\<forall>key. dependencies r key = listing (\<Union>y \<in> {y. label y = key}. users host F search paths y)) \<and>
    dom (errors r) = {p \<in> input_names F paths. unreadable host F p} \<and>
    (\<forall>key. map_option le_inputs (libraryErrors r key) =
       (if recorded host F key = None then listing (users host F search paths (FileId key)) else None))"
proof -
  let ?in = "NormaliseInputs F paths"
  have srt: "sorted (map spelling ?in)" "distinct (map spelling ?in)" by (simp_all add: NormaliseInputs_spellings)
  have names: "spelling ` set ?in = input_names F paths"
    using arg_cong [OF NormaliseInputs_spellings [of F paths], of set] by (simp add: input_names_def)
  have "card (input_names F paths) \<le> card (set paths)" by (intro card_mono) (auto simp: input_names_def)
  then have few': "length ?in < 2 ^ 32"
    using few card_length [of paths] distinct_card [OF srt(2)] names by simp
  obtain g0 ids errs g where w: "foldl (AddInputNode host F) (empty_graph, [], Map.empty) ?in = (g0, ids, errs)"
    "ExpandAll host F search g0 0 = Some g" and g: "graph_ok host F search {} g" "walked g (size_of g)"
    and at: "map (ident_at g) ids = map (key_id F) ?in" and ids: "\<forall>i \<in> set ids. i < size_of g"
    and errs: "dom errs = {p \<in> input_names F paths. unreadable host F p}"
    using request_walk [OF canon fin, of host paths search] by (elim exE conjE) (rule that)
  have len: "length ids = length ?in" using arg_cong [OF at, of length] by simp
  have inside: "\<forall>i < size_of g. \<forall>j \<in> set (successors (nodes g ! i)). j < size_of g" using walked_edges [OF g] by blast
  have "length ids < 2 ^ 32" using few' len by simp
  from CreditInputs_correct [OF inside ids this order_refl] len obtain seen where
    seen: "foldl (CreditInput (nodes g)) (replicate (size_of g) 0, replicate (size_of g) []) (zip ids [0..<length ?in]) =
      (seen, map (credits_of (nodes g) ids (length ids)) [0..<size_of g])" by auto
  define credits where "credits = map (credits_of (nodes g) ids (length ids)) [0..<size_of g]"
  note cr = credit_names_sorted [OF few' srt _ len credits_def]
  define r0 where "r0 = \<lparr>dependencies = Map.empty, errors = errs, libraryErrors = Map.empty :: string \<rightharpoonup> LibraryError\<rparr>"
  define r where "r = foldl (ReportNode (nodes g) credits ?in) r0 [0..<size_of g]"
  have rep: "reported (nodes g) credits ?in (size_of g) r" "errors r = errs"
    using ReportNodes_reported [of r0 "size_of g" credits ?in "nodes g"] cr by (simp_all add: r0_def r_def)
  have run: "ListDependencies host F paths search = Some (r\<lparr>libraryErrors := (\<lambda>k. map_option (\<lambda>e. e\<lparr>le_inputs := unique_sorted (le_inputs e)\<rparr>) (libraryErrors r k))\<rparr>)"
    by (simp add: ListDependencies_def w seen Let_def r_def r0_def credits_def)
  have cr': "\<forall>v < size_of g. set (credit_names credits ?in v) = {spelling (?in ! j) | j. j < length ?in \<and> (ids ! j, v) \<in> (edges (nodes g))\<^sup>+}"
    using cr(3) by blast
  note users = credited_with_users [OF g ids at names cr']
  have d: "credited_with (nodes g) credits ?in (\<lambda>v. node_key v = key) (size_of g) = (\<Union>y \<in> {y. label y = key}. users host F search paths y)" for key
    by (rule users) (auto simp: ident_of_def)
  have l: "credited_with (nodes g) credits ?in (\<lambda>v. node_key v = key \<and> node_status v = NotReadable) (size_of g) =
      (if recorded host F key = None then users host F search paths (FileId key) else {})" for key
  proof -
    have "\<forall>v < size_of g. (node_key (nodes g ! v) = key \<and> node_status (nodes g ! v) = NotReadable) \<longleftrightarrow>
        (ident_at g v = FileId key \<and> recorded host F key = None)"
      using status_recorded [OF g(1)] by (metis NodeStatus.distinct(3) ident_of_def)
    from users [of "\<lambda>v. node_key v = key \<and> node_status v = NotReadable" "\<lambda>y. y = FileId key \<and> recorded host F key = None", OF this]
    show ?thesis by (auto split: if_splits)
  qed
  have "map_option (\<lambda>e. unique_sorted (le_inputs e)) (libraryErrors r key) = (if recorded host F key = None then listing (users host F search paths (FileId key)) else None)" for key
  proof -
    have "map_option (set \<circ> le_inputs) (libraryErrors r key) = (let S = (if recorded host F key = None then users host F search paths (FileId key) else {}) in if S = {} then None else Some S)"
      using rep(1) by (simp add: reported_def l Let_def)
    then show ?thesis by (cases "libraryErrors r key") (auto simp: unique_sorted_eq listing_def Let_def split: if_splits)
  qed
  then show ?thesis using rep errs unfolding run reported_def by (simp add: d option.map_comp comp_def)
qed

section \<open>Properties\<close>

text \<open>
  C21: A request returns. The walk appends nodes to the list it walks over, also for libraries that need each other; with finitely
  many regular files it still comes to an end, whatever the files hold.
\<close>

theorem listing_terminates:
  assumes "canonical_ok F" and "finite {k. fs_is_regular F k}"
  shows "\<exists>r. ListDependencies host F paths search = Some r"
  using request_walk [OF assms, of host paths search] by (auto simp: ListDependencies_def Let_def split: prod.splits)

text \<open>A folder with one ELF file in it that records the name of a file linked to it: it needs itself.\<close>

definition tiny_fs :: fs where
  "tiny_fs = \<lparr>fs_canonical = (\<lambda>p. if p \<in> {''/a'', ''b'', ''/lc''} then Some ''/a'' else None), fs_is_regular = (\<lambda>p. p = ''/a''),
     fs_entry_exists = (\<lambda>p. p = ''/lc''), fs_is_directory = (\<lambda>p. p = ''/''), fs_join = (\<lambda>d n. d @ n),
     fs_listing = (\<lambda>d. [''lc'']), fs_read = (\<lambda>p. Inr tiny_elf)\<rparr>"

lemma tiny_fs_ok: "canonical_ok tiny_fs" "finite {k. fs_is_regular tiny_fs k}"
  by (auto simp: canonical_ok_def tiny_fs_def)

theorem listing_terminates_witness: "\<exists>r. ListDependencies Little tiny_fs [''b'', ''/a''] [''/''] = Some r"
  by (rule listing_terminates [OF tiny_fs_ok])

text \<open>
  C20: Under the name of every library stand exactly the inputs that need it, in order: those from which the relation "records
  a name that stands for" leads to it in one step or more. The caches, the order of the walk, the queue of the crediting
  and the stamps in it, which are 32-bit numbers, leave no trace; an input named twice is listed once, by its first spelling.
\<close>

theorem listing_refines_reference:
  assumes "canonical_ok F" and "finite {k. fs_is_regular F k}" and "length paths < 2 ^ 32"
  shows "\<exists>r. ListDependencies host F paths search = Some r \<and>
    dependencies r = (\<lambda>key. listing {p \<in> input_names F paths. \<exists>y. label y = key \<and> (FileId (key_of F p), y) \<in> (needs host F search)\<^sup>+})"
proof -
  have "(\<Union>y \<in> {y. label y = key}. users host F search paths y) =
      {p \<in> input_names F paths. \<exists>y. label y = key \<and> (FileId (key_of F p), y) \<in> (needs host F search)\<^sup>+}" for key
    by (auto simp: users_def)
  then show ?thesis using ListDependencies_result [OF assms, of host search] by (auto simp: fun_eq_iff)
qed

lemma filter_singleton: "P a \<Longrightarrow> {p \<in> {a}. P p} = {a}"
  by auto

lemma input_names_pair: "same_input F q p \<Longrightarrow> p < q \<Longrightarrow> input_names F [q, p] = {p}"
  by (auto simp: input_names_def)

lemma tiny_fs_needs: "(FileId ''/a'', FileId ''/a'') \<in> needs Little tiny_fs [''/'']"
proof -
  have b: "tiny_elf ! 0 = 0x7F" "tiny_elf ! Suc 0 = 0x45" "tiny_elf ! 2 = 0x4C" "tiny_elf ! 3 = 0x46" by (simp_all add: tiny_elf_def)
  have "\<not> Lister_IsMachO tiny_elf" by (simp add: Lister_IsMachO_def length_tiny_elf b be32_def Let_def)
  then have "recorded Little tiny_fs ''/a'' = Some (FormatElf, [''lc''])"
    by (simp add: recorded_def tiny_fs_def ReadNode_def Lister_ParseBytes_def length_tiny_elf b tiny_elf_listed)
  moreover have "stands_for tiny_fs [''/''] False ''lc'' = FileId ''/a''"
    by (simp add: stands_for_def EscapesSearchFolders_def folder_match_def tiny_fs_def key_of_def)
  ultimately show ?thesis by (simp add: needs_def direct_needs_def)
qed

theorem listing_refines_reference_witness:
  "\<exists>r. ListDependencies Little tiny_fs [''b'', ''/a''] [''/''] = Some r \<and> dependencies r ''/a'' = Some [''/a'']"
proof -
  have "same_input tiny_fs ''b'' ''/a''" by (simp add: same_input_def tiny_fs_def)
  moreover have "''/a'' < ''b''" by code_simp
  ultimately have in_names: "input_names tiny_fs [''b'', ''/a''] = {''/a''}" by (rule input_names_pair)
  have "key_of tiny_fs ''/a'' = ''/a''" by (simp add: key_of_def tiny_fs_def)
  then have need: "\<exists>y. label y = ''/a'' \<and> (FileId (key_of tiny_fs ''/a''), y) \<in> (needs Little tiny_fs [''/''])\<^sup>+"
    by (intro exI [of _ "FileId ''/a''"] conjI) (simp_all add: r_into_trancl tiny_fs_needs)
  obtain r where r: "ListDependencies Little tiny_fs [''b'', ''/a''] [''/''] = Some r" "dependencies r = (\<lambda>key. listing
      {p \<in> {''/a''}. \<exists>y. label y = key \<and> (FileId (key_of tiny_fs p), y) \<in> (needs Little tiny_fs [''/''])\<^sup>+})"
    using listing_refines_reference [OF tiny_fs_ok, of "[''b'', ''/a'']" Little "[''/'']"] unfolding in_names
    by (elim meta_impE exE conjE) (simp, rule that)
  have "dependencies r ''/a'' = listing {''/a''}"
    unfolding r(2) by (rule arg_cong [of _ _ listing]) (rule filter_singleton, rule need)
  then show ?thesis using r(1) by (simp add: listing_def)
qed

text \<open>
  C22: Nothing that fails to load is passed over, and nothing else is reported: the inputs with an error are those that cannot be
  read or parsed, and the libraries with an error are those that some input needs and that cannot be, each with the inputs that need it.
\<close>

theorem listing_reports_failures:
  assumes "canonical_ok F" and "finite {k. fs_is_regular F k}" and "length paths < 2 ^ 32"
  shows "\<exists>r. ListDependencies host F paths search = Some r \<and>
    dom (errors r) = {p \<in> input_names F paths. recorded host F (key_of F p) = None} \<and>
    (\<forall>key. map_option le_inputs (libraryErrors r key) =
       (if recorded host F key = None
        then listing {p \<in> input_names F paths. (FileId (key_of F p), FileId key) \<in> (needs host F search)\<^sup>+} else None))"
  using ListDependencies_result [OF assms, of host search] unfolding users_def unreadable_def by blast

theorem listing_reports_failures_witness:
  "\<exists>r. ListDependencies Little tiny_fs [''/x''] [''/''] = Some r \<and> dom (errors r) = {''/x''}"
proof -
  have "{p \<in> input_names tiny_fs [''/x'']. recorded Little tiny_fs (key_of tiny_fs p) = None} = {''/x''}"
    by (auto simp: input_names_def same_input_def tiny_fs_def recorded_def key_of_def)
  then show ?thesis using listing_reports_failures [OF tiny_fs_ok, of "[''/x'']" Little "[''/'']"] by auto
qed

text \<open>
  The test that tells whether a file is a Mach-O file does not know the universal files with 64-bit offsets, which the
  parser of Mach-O files reads: every such file is refused as an unsupported format.
\<close>

theorem fat64_not_recognised:
  assumes "fs_read F key = Inr (0xCA # 0xFE # 0xBA # 0xBF # rest)"
  shows "ReadNode host F key = (FormatNone, Inl (runtime_error ''Unsupported binary format''))"
  using assms by (simp add: ReadNode_def Lister_IsMachO_def Lister_ParseBytes_def be32_def)

theorem fat64_not_recognised_witness:
  "ReadNode Little (tiny_fs\<lparr>fs_read := (\<lambda>p. Inr [0xCA, 0xFE, 0xBA, 0xBF])\<rparr>) ''/a'' = (FormatNone, Inl (runtime_error ''Unsupported binary format''))"
  by (rule fat64_not_recognised) simp

end
