(* ===== verification/Macho_Signer.thy ===== *)
theory Macho_Signer
  imports Macho_Parser
begin

text \<open>
  \<open>src/MachOSigner.cpp\<close>: preparing, writing, removing and reading the code signature of a Mach-O program. What reading the
  file gives is an argument, as in \<open>Macho_Parser\<close>, and an operation that writes gives the bytes that go to
  \<open>WriteFileBytes\<close>. The hash function (the vendored \<open>picosha2\<close>) is the argument \<open>sha\<close>. Pointers into a buffer are read
  and written through \<open>mem_read\<close> and \<open>mem_write\<close>, so an access outside it would show as a memory fault.
\<close>

section \<open>Writing numbers\<close>

definition WriteBE32 :: "bytes \<Rightarrow> u64 \<Rightarrow> u32 \<Rightarrow> bytes res" where
  "WriteBE32 buf offset value =
     mem_write buf (unat offset) [ucast (drop_bit 24 value AND 0xFF), ucast (drop_bit 16 value AND 0xFF),
       ucast (drop_bit 8 value AND 0xFF), ucast (value AND 0xFF)]"

definition WriteBE64 :: "bytes \<Rightarrow> u64 \<Rightarrow> u64 \<Rightarrow> bytes res" where
  "WriteBE64 buf offset value =
     mem_write buf (unat offset) (map (\<lambda>k. ucast (drop_bit ((7 - k) * 8) value AND 0xFF)) [0..<8])"

definition WriteLE32 :: "bytes \<Rightarrow> u64 \<Rightarrow> u32 \<Rightarrow> bytes res" where
  "WriteLE32 buf offset value =
     mem_write buf (unat offset) (map (\<lambda>i. ucast (drop_bit (i * 8) value AND 0xFF)) [0..<4])"

definition WriteLE64 :: "bytes \<Rightarrow> u64 \<Rightarrow> u64 \<Rightarrow> bytes res" where
  "WriteLE64 buf offset value =
     mem_write buf (unat offset) (map (\<lambda>i. ucast (drop_bit (i * 8) value AND 0xFF)) [0..<8])"

definition CSMAGIC_EMBEDDED_SIGNATURE :: u32 where "CSMAGIC_EMBEDDED_SIGNATURE = 0xFADE0CC0"
definition CSMAGIC_CODEDIRECTORY :: u32 where "CSMAGIC_CODEDIRECTORY = 0xFADE0C02"
definition CSMAGIC_REQUIREMENTS :: u32 where "CSMAGIC_REQUIREMENTS = 0xFADE0C01"
definition CSMAGIC_BLOBWRAPPER :: u32 where "CSMAGIC_BLOBWRAPPER = 0xFADE0B01"
definition CSSLOT_CODEDIRECTORY :: u32 where "CSSLOT_CODEDIRECTORY = 0"
definition CSSLOT_REQUIREMENTS :: u32 where "CSSLOT_REQUIREMENTS = 2"
definition CSSLOT_CMS_SIGNATURE :: u32 where "CSSLOT_CMS_SIGNATURE = 0x10000"
definition CS_PAGE_SIZE :: u64 where "CS_PAGE_SIZE = 4096"
definition CS_SUPPORTSEXECSEG :: u32 where "CS_SUPPORTSEXECSEG = 0x20400"
definition kCodeDirectoryFixedSize :: u64 where "kCodeDirectoryFixedSize = 88"
definition kSpecialSlots :: u32 where "kSpecialSlots = 2"
definition MH_EXECUTE :: u32 where "MH_EXECUTE = 2"
definition CPU_TYPE_ARM64 :: u32 where "CPU_TYPE_ARM64 = 0x0100000C"
definition kMaxCapacity :: u32 where "kMaxCapacity = 0x80000000"
definition UINT32_MAX :: u64 where "UINT32_MAX = 0xFFFFFFFF"

definition BuildEmptyRequirements :: "bytes res" where
  "BuildEmptyRequirements =
     bindE (WriteBE32 (replicate 12 0) 0 CSMAGIC_REQUIREMENTS) (\<lambda>req.
     bindE (WriteBE32 req 4 12) (\<lambda>req. WriteBE32 req 8 0))"

definition Align16 :: "u64 \<Rightarrow> u64" where
  "Align16 value = (value + 15) div 16 * 16"

definition AlignUp :: "u64 \<Rightarrow> u64 \<Rightarrow> u64" where
  "AlignUp value unit = (value + unit - 1) div unit * unit"

text \<open>\<open>std::vector::resize\<close> with zeros.\<close>

definition resize :: "nat \<Rightarrow> bytes \<Rightarrow> bytes" where
  "resize n xs = take n xs @ replicate (n - length xs) 0"

section \<open>Input and refusals\<close>

fun ReadInput :: "bytes res \<Rightarrow> bytes res" where
  "ReadInput (Inl (runtime_error what)) = ThrowMalformed macho_format what"
| "ReadInput r = r"

definition ParseInput :: "ByteOrder \<Rightarrow> bytes \<Rightarrow> MachOContainer res" where
  "ParseInput host bs =
     (if length bs < 4 then ThrowMalformed macho_format ''File too small to be a Mach-O binary''
      else ParseMachOContainer host (ByteSpan_of_bytes bs macho_format ''the file''))"

definition Refuse :: "string \<Rightarrow> string \<Rightarrow> 'a res" where
  "Refuse name reason = Inl (runtime_error (name @ '': '' @ reason))"

definition RefuseSlice :: "string \<Rightarrow> bool \<Rightarrow> nat \<Rightarrow> u32 \<Rightarrow> string \<Rightarrow> 'a res" where
  "RefuseSlice name universal index cputype reason =
     (if universal then Refuse name (''slice '' @ dec index @ '' ('' @ ArchName cputype @ ''): '' @ reason)
      else Refuse name reason)"

definition RequireSupported :: "string \<Rightarrow> MachOContainer \<Rightarrow> unit res" where
  "RequireSupported name container =
     foldE (\<lambda>_ (entry, i). if support (ce_slice entry) \<noteq> Supported
              then RefuseSlice name (form container \<noteq> Thin) i (ce_cputype entry) (DeclineText (support (ce_slice entry)))
              else Inr ()) () (zip (entries container) [0..<length (entries container)])"

definition RequireSignatureAtEnd :: "(string \<Rightarrow> u64 res) \<Rightarrow> SliceLayout \<Rightarrow> u64 res" where
  "RequireSignatureAtEnd refuse layout =
     (case codesig layout of
        None \<Rightarrow> Inl memory_fault
      | Some sig \<Rightarrow>
          if cs_dataoff sig = 0 \<and> cs_datasize sig = 0 then Inr (sl_size layout)
          else let stop = ucast (cs_dataoff sig) + ucast (cs_datasize sig) in
            if stop \<noteq> sl_size layout then
              refuse (''the signature data is not at the end of the program ('' @
                to_string (if stop < sl_size layout then sl_size layout - stop else 0) @
                '' bytes follow it); signing would have to move them. Re-link or strip the signature '' @
                ''with another tool first.'')
            else Inr (ucast (cs_dataoff sig)))"

section \<open>Planning one slice\<close>

record SlicePlan =
  plan_cpu_type :: u32
  plan_cpu_subtype :: u32
  plan_bytes :: bytes
  plan_dataoff :: u64
  plan_datasize :: u64
  plan_code_directory :: bytes
  plan_cd_hash :: bytes

definition SuperBlobFixedSize :: u64 where
  "SuperBlobFixedSize = 12 + 3 * 8 + 12 + 8"

text \<open>The checks; the answer is how many bytes of the program stay.\<close>

definition PlanKept :: "(string \<Rightarrow> u64 res) \<Rightarrow> SliceLayout \<Rightarrow> string \<Rightarrow> u64 res" where
  "PlanKept refuse layout identity =
     (let resign = (codesig layout \<noteq> None) in
      bindE (if resign then RequireSignatureAtEnd refuse layout else Inr (sl_size layout)) (\<lambda>kept.
      if (case linkedit layout of None \<Rightarrow> True
          | Some seg \<Rightarrow> seg_fileoff seg > kept \<or> seg_fileoff seg + seg_filesize seg \<noteq> sl_size layout)
      then refuse ''the program has no __LINKEDIT segment at its end; it cannot be signed''
      else if \<not> resign \<and> FreeHeaderSpace layout < 16 then
        refuse (''no room for the code signature command: 16 bytes needed, '' @ to_string (FreeHeaderSpace layout) @
          '' available between the end of the load commands (offset '' @ to_string (header_end layout) @
          '') and the first section (offset '' @ to_string (first_content layout) @
          ''); relink with extra header space (for example -headerpad 0x20)'')
      else if \<not> resign \<and> ncmds layout = 0xFFFFFFFF then refuse ''the program has too many load commands to add one''
      else if CHR 0x00 \<in> set identity then refuse ''the identity contains a NUL byte''
      else Inr kept))"

record PlanSize =
  ps_dataoff :: u64
  ps_code_slots :: u64
  ps_hash_offset :: u64
  ps_cd_size :: u64
  ps_datasize :: u64

definition PlanSizes :: "u64 \<Rightarrow> string \<Rightarrow> u32 \<Rightarrow> PlanSize" where
  "PlanSizes kept identity capacity =
     (let dataoff = Align16 kept;
          n_code_slots = (dataoff + CS_PAGE_SIZE - 1) div CS_PAGE_SIZE;
          ident_size = word_of_nat (length identity) + 1;
          hash_offset = kCodeDirectoryFixedSize + ident_size;
          cd_size = hash_offset + (ucast kSpecialSlots + n_code_slots) * 32;
          datasize = Align16 (SuperBlobFixedSize + cd_size + ucast capacity) in
      \<lparr>ps_dataoff = dataoff, ps_code_slots = n_code_slots, ps_hash_offset = hash_offset, ps_cd_size = cd_size,
       ps_datasize = datasize\<rparr>)"

text \<open>The signature command, the counts of the header and the link-edit segment.\<close>

definition PlanCommand :: "SliceLayout \<Rightarrow> PlanSize \<Rightarrow> bytes \<Rightarrow> bytes res" where
  "PlanCommand layout ps out =
     (let resign = (codesig layout \<noteq> None);
          command_at = (case codesig layout of Some sig \<Rightarrow> cs_command_offset sig | None \<Rightarrow> header_end layout) in
      bindE (if resign then Inr out
             else bindE (WriteLE32 out command_at kLcCodeSignature) (\<lambda>out. WriteLE32 out (command_at + 4) 16)) (\<lambda>out.
      bindE (WriteLE32 out (command_at + 8) (ucast (ps_dataoff ps))) (\<lambda>out.
      bindE (WriteLE32 out (command_at + 12) (ucast (ps_datasize ps))) (\<lambda>out.
      if resign then Inr out
      else bindE (WriteLE32 out 16 (ncmds layout + 1)) (\<lambda>out.
           WriteLE32 out 20 (ucast (ucast (sizeofcmds layout) + 16 :: u64)))))))"

definition page_unit :: "u32 \<Rightarrow> u64" where
  "page_unit cputype = (if cputype = CPU_TYPE_ARM64 then 16384 else 4096)"

definition PlanLinkedit :: "ContainerEntry \<Rightarrow> PlanSize \<Rightarrow> bytes \<Rightarrow> bytes res" where
  "PlanLinkedit entry ps out =
     (case linkedit (ce_slice entry) of
        None \<Rightarrow> Inl memory_fault
      | Some seg \<Rightarrow>
          let linkedit_size = ps_dataoff ps + ps_datasize ps - seg_fileoff seg in
          bindE (WriteLE64 out (seg_command_offset seg + 48) linkedit_size) (\<lambda>out.
          WriteLE64 out (seg_command_offset seg + 32) (AlignUp linkedit_size (page_unit (ce_cputype entry)))))"

text \<open>The CodeDirectory over everything before the signature data.\<close>

definition DirectoryHeader :: "SliceLayout \<Rightarrow> PlanSize \<Rightarrow> bytes \<Rightarrow> bytes res" where
  "DirectoryHeader layout ps cd =
     bindE (foldE (\<lambda>cd (at, v). WriteBE32 cd at v) cd
       [(0, CSMAGIC_CODEDIRECTORY), (4, ucast (ps_cd_size ps)), (8, CS_SUPPORTSEXECSEG), (12, 0),
        (16, ucast (ps_hash_offset ps + ucast kSpecialSlots * 32)), (20, ucast kCodeDirectoryFixedSize),
        (24, kSpecialSlots), (28, ucast (ps_code_slots ps)), (32, ucast (ps_dataoff ps))]) (\<lambda>cd.
     bindE (mem_write cd 36 [32, 2, 0, 12]) (\<lambda>cd.
     bindE (case text_segment layout of
              None \<Rightarrow> Inr cd
            | Some seg \<Rightarrow> bindE (WriteBE64 cd 64 (seg_fileoff seg)) (\<lambda>cd. WriteBE64 cd 72 (seg_filesize seg))) (\<lambda>cd.
     WriteBE64 cd 80 (if filetype layout = MH_EXECUTE then 1 else 0))))"

text \<open>\<open>memcpy\<close> of a hash of 32 bytes.\<close>

definition copy_hash :: "(bytes \<Rightarrow> bytes) \<Rightarrow> bytes \<Rightarrow> bytes \<Rightarrow> u64 \<Rightarrow> bytes res" where
  "copy_hash sha hashed cd at = bindE (mem_read (sha hashed) 0 32) (mem_write cd (unat at))"

definition DirectoryPage :: "(bytes \<Rightarrow> bytes) \<Rightarrow> bytes \<Rightarrow> PlanSize \<Rightarrow> bytes \<Rightarrow> nat \<Rightarrow> bytes res" where
  "DirectoryPage sha out ps cd i =
     (let start = word_of_nat i * CS_PAGE_SIZE; stop = min (start + CS_PAGE_SIZE) (ps_dataoff ps);
          code_hashes = ps_hash_offset ps + ucast kSpecialSlots * 32 in
      bindE (mem_read out (unat start) (unat (stop - start))) (\<lambda>page.
      copy_hash sha page cd (code_hashes + word_of_nat i * 32)))"

definition char_byte :: "char \<Rightarrow> u8" where
  "char_byte c = of_char c"

definition BuildDirectory ::
  "(bytes \<Rightarrow> bytes) \<Rightarrow> SliceLayout \<Rightarrow> string \<Rightarrow> PlanSize \<Rightarrow> bytes \<Rightarrow> bytes res" where
  "BuildDirectory sha layout identity ps out =
     bindE BuildEmptyRequirements (\<lambda>empty_req.
     bindE (DirectoryHeader layout ps (replicate (unat (ps_cd_size ps)) 0)) (\<lambda>cd.
     bindE (mem_write cd (unat kCodeDirectoryFixedSize) (map char_byte identity @ [0])) (\<lambda>cd.
     bindE (copy_hash sha empty_req cd (ps_hash_offset ps)) (\<lambda>cd.
     foldE (DirectoryPage sha out ps) cd [0..<unat (ps_code_slots ps)]))))"

definition PlanSlice ::
  "(bytes \<Rightarrow> bytes) \<Rightarrow> string \<Rightarrow> bool \<Rightarrow> bytes \<Rightarrow> string \<Rightarrow> u32 \<Rightarrow> ContainerEntry \<times> nat \<Rightarrow> SlicePlan res" where
  "PlanSlice sha name universal bs identity capacity = (\<lambda>(entry, index).
     let layout = ce_slice entry in
     bindE (PlanKept (RefuseSlice name universal index (ce_cputype entry)) layout identity) (\<lambda>kept.
     let ps = PlanSizes kept identity capacity; stop = ps_dataoff ps + ps_datasize ps in
     if stop > UINT32_MAX \<or> ps_cd_size ps > UINT32_MAX then
       RefuseSlice name universal index (ce_cputype entry) (''the signature would end at offset '' @ to_string stop @
         '', past the 4294967295 bytes that the signature command can describe'')
     else
     bindE (mem_read bs (unat (ce_offset entry)) (unat kept)) (\<lambda>program.
     bindE (PlanCommand layout ps (resize (unat stop) program)) (\<lambda>out.
     bindE (PlanLinkedit entry ps out) (\<lambda>out.
     bindE (BuildDirectory sha layout identity ps out) (\<lambda>cd.
     Inr \<lparr>plan_cpu_type = ce_cputype entry, plan_cpu_subtype = ce_cpusubtype entry, plan_bytes = out,
          plan_dataoff = ps_dataoff ps, plan_datasize = ps_datasize ps, plan_code_directory = cd, plan_cd_hash = sha cd\<rparr>))))))"

section \<open>Planning the file\<close>

definition PaddingByte :: "string \<Rightarrow> bytes \<Rightarrow> ContainerEntry list \<Rightarrow> nat \<Rightarrow> nat \<Rightarrow> nat \<Rightarrow> unit res" where
  "PaddingByte name bs es previous following at =
     bindE (mem_read bs at 1) (\<lambda>b.
     if b \<noteq> [0] then
       Refuse name (''the bytes between slice '' @ dec previous @ '' ('' @ ArchName (ce_cputype (es ! previous)) @ '') and slice '' @
         dec following @ '' ('' @ ArchName (ce_cputype (es ! following)) @ '') are not all zero (the first is at offset '' @ dec at @
         ''); they would be replaced by zero padding'')
     else Inr ())"

definition RequireZeroPadding :: "string \<Rightarrow> bytes \<Rightarrow> MachOContainer \<Rightarrow> unit res" where
  "RequireZeroPadding name bs container =
     (if form container = Thin then Inr ()
      else let es = entries container; order = by_offset es in
        foldE (\<lambda>_ k. let previous = order ! (k - 1); following = order ! k in
          foldE (\<lambda>_. PaddingByte name bs es previous following) ()
            [unat (ce_offset (es ! previous) + ce_size (es ! previous))..<unat (ce_offset (es ! following))]) () [1..<length order])"

definition PlanAll ::
  "(bytes \<Rightarrow> bytes) \<Rightarrow> string \<Rightarrow> bytes \<Rightarrow> MachOContainer \<Rightarrow> string \<Rightarrow> u32 \<Rightarrow> SlicePlan list res" where
  "PlanAll sha name bs container identity capacity =
     (if capacity > kMaxCapacity then
        Refuse name (''the capacity '' @ to_string capacity @ '' is larger than the 2147483648 bytes that can be reserved'')
      else
      bindE (RequireSupported name container) (\<lambda>_.
      bindE (RequireZeroPadding name bs container) (\<lambda>_.
      mapE (PlanSlice sha name (form container \<noteq> Thin) bs identity capacity)
        (zip (entries container) [0..<length (entries container)]))))"

section \<open>Universal files\<close>

text \<open>Where the slices go: the offsets so far, the end of the last slice and of the last old slice.\<close>

definition PlaceSlice ::
  "string \<Rightarrow> bool \<Rightarrow> ContainerEntry list \<Rightarrow> bytes list \<Rightarrow> u64 list \<times> u64 \<times> u64 \<Rightarrow> nat \<Rightarrow> (u64 list \<times> u64 \<times> u64) res" where
  "PlaceSlice name wide es slices st i =
     (let (offsets, cursor, old_end) = st; entry = es ! i in
      if ce_align entry \<ge> 32 then
        Refuse name (''slice '' @ dec i @ '' ('' @ ArchName (ce_cputype entry) @ ''): alignment 2^'' @
          to_string (ce_align entry) @ '' is not supported'')
      else
        let offset = AlignUp cursor (push_bit (unat (ce_align entry)) 1); cursor = offset + word_of_nat (length (slices ! i)) in
        if \<not> wide \<and> cursor > UINT32_MAX then
          Refuse name (''slice '' @ dec i @ '' ('' @ ArchName (ce_cputype entry) @ '') would end at offset '' @
            to_string cursor @ '', past what a 32-bit universal table can describe'')
        else Inr (offsets[i := offset], cursor, max old_end (ce_offset entry + ce_size entry)))"

definition WriteTableEntry :: "bool \<Rightarrow> u64 list \<Rightarrow> bytes list \<Rightarrow> bytes \<Rightarrow> nat \<Rightarrow> bytes res" where
  "WriteTableEntry wide offsets slices out i =
     (let at = 8 + word_of_nat i * (if wide then 32 else 20) in
      if wide then
        bindE (WriteBE64 out (at + 8) (offsets ! i)) (\<lambda>out. WriteBE64 out (at + 16) (word_of_nat (length (slices ! i))))
      else
        bindE (WriteBE32 out (at + 8) (ucast (offsets ! i))) (\<lambda>out.
        WriteBE32 out (at + 12) (word_of_nat (length (slices ! i)))))"

definition AssembleUniversal :: "string \<Rightarrow> bytes \<Rightarrow> MachOContainer \<Rightarrow> bytes list \<Rightarrow> bytes res" where
  "AssembleUniversal name bs container slices =
     (let wide = (form container = Fat64); es = entries container; count = length es; order = by_offset es in
      case order of [] \<Rightarrow> Inl memory_fault | i0 # _ \<Rightarrow>
      let first = ce_offset (es ! i0) in
      bindE (foldE (PlaceSlice name wide es slices) (replicate count 0, first, 0) order) (\<lambda>(offsets, cursor, old_end).
      bindE (mem_read bs 0 (unat first)) (\<lambda>head.
      let out = foldl (\<lambda>out i. resize (unat (offsets ! i)) out @ slices ! i) head order in
      bindE (mem_read bs (unat old_end) (length bs - unat old_end)) (\<lambda>rest.
      foldE (WriteTableEntry wide offsets slices) (out @ rest) [0..<count]))))"

section \<open>The embedded signature\<close>

definition BuildCmsBlob :: "bytes \<Rightarrow> bytes res" where
  "BuildCmsBlob cms_signature =
     bindE (WriteBE32 (replicate (8 + length cms_signature) 0) 0 CSMAGIC_BLOBWRAPPER) (\<lambda>cms_blob.
     bindE (WriteBE32 cms_blob 4 (word_of_nat (length cms_blob))) (\<lambda>cms_blob.
     mem_write cms_blob 8 cms_signature))"

definition BuildSuperBlob :: "bytes \<Rightarrow> bytes \<Rightarrow> bytes res" where
  "BuildSuperBlob code_directory cms_signature =
     bindE BuildEmptyRequirements (\<lambda>requirements.
     bindE (BuildCmsBlob cms_signature) (\<lambda>cms_blob.
     let cd_offset = 12 + 3 * 8 :: nat;
         req_offset = cd_offset + length code_directory;
         cms_offset = req_offset + length requirements;
         total_size = cms_offset + length cms_blob in
     bindE (foldE (\<lambda>blob (at, v). WriteBE32 blob at v) (replicate total_size 0)
       [(0, CSMAGIC_EMBEDDED_SIGNATURE), (4, word_of_nat total_size), (8, 3),
        (12, CSSLOT_CODEDIRECTORY), (16, word_of_nat cd_offset), (20, CSSLOT_REQUIREMENTS), (24, word_of_nat req_offset),
        (28, CSSLOT_CMS_SIGNATURE), (32, word_of_nat cms_offset)]) (\<lambda>blob.
     bindE (mem_write blob cd_offset code_directory) (\<lambda>blob.
     bindE (mem_write blob req_offset requirements) (\<lambda>blob.
     mem_write blob cms_offset cms_blob)))))"

definition SignatureRegion :: "string \<Rightarrow> ByteSpan \<Rightarrow> MachOContainer \<Rightarrow> nat \<Rightarrow> ByteSpan option res" where
  "SignatureRegion name file_span container index =
     (let entry = entries container ! index; slice_layout = ce_slice entry in
      if support slice_layout \<noteq> Supported then
        RefuseSlice name (form container \<noteq> Thin) index (ce_cputype entry) (DeclineText (support slice_layout))
      else case codesig slice_layout of
        None \<Rightarrow> Inr None
      | Some sig \<Rightarrow>
          if cs_dataoff sig = 0 \<or> cs_datasize sig = 0 then Inr None
          else bindE (Sub file_span (ce_offset entry + ucast (cs_dataoff sig)) (ucast (cs_datasize sig)) ''LC_CODE_SIGNATURE data'')
                 (\<lambda>region. Inr (Some region)))"

definition SignatureOfSlice :: "ByteOrder \<Rightarrow> string \<Rightarrow> ByteSpan \<Rightarrow> MachOContainer \<Rightarrow> nat \<Rightarrow> bytes option res" where
  "SignatureOfSlice host name file_span container index =
     bindE (SignatureRegion name file_span container index) (\<lambda>found.
     case found of None \<Rightarrow> Inr None
     | Some region \<Rightarrow>
         bindE (if span_size region < 12 then Inr (span_size region)
                else bindE (Read host region 0 Big ''SuperBlob magic'') (\<lambda>magic.
                  if magic \<noteq> CSMAGIC_EMBEDDED_SIGNATURE then Inr (span_size region)
                  else bindE (Read host region 4 Big ''SuperBlob length'') (\<lambda>own32.
                    let own = ucast (own32 :: u32) in
                    Inr (if own \<ge> 12 \<and> own \<le> span_size region then own else span_size region)))) (\<lambda>len.
         bindE (Data region) (\<lambda>d.
         bindE (mem_read d 0 (unat len)) (\<lambda>b. Inr (Some b)))))"

section \<open>Operations\<close>

record PreparedSlice =
  pre_cpu_type :: u32
  pre_cpu_subtype :: u32
  pre_code_directory :: bytes
  pre_cd_hash :: bytes

record PreparedSignature =
  prep_identity :: string
  prep_cms_capacity :: u32
  prep_slices :: "PreparedSlice list"

definition prepared_slice :: "SlicePlan \<Rightarrow> PreparedSlice" where
  "prepared_slice plan = \<lparr>pre_cpu_type = plan_cpu_type plan, pre_cpu_subtype = plan_cpu_subtype plan,
     pre_code_directory = plan_code_directory plan, pre_cd_hash = plan_cd_hash plan\<rparr>"

definition PrepareSignature ::
  "(bytes \<Rightarrow> bytes) \<Rightarrow> ByteOrder \<Rightarrow> string \<Rightarrow> bytes res \<Rightarrow> string \<Rightarrow> u32 \<Rightarrow> PreparedSignature res" where
  "PrepareSignature sha host name input identity cms_capacity =
     GuardEntryPoint macho_format
       (bindE (ReadInput input) (\<lambda>bs.
        bindE (ParseInput host bs) (\<lambda>container.
        bindE (PlanAll sha name bs container identity cms_capacity) (\<lambda>plans.
        Inr \<lparr>prep_identity = identity, prep_cms_capacity = cms_capacity, prep_slices = map prepared_slice plans\<rparr>))))"

definition FinishSlice :: "SlicePlan \<times> bytes \<Rightarrow> bytes res" where
  "FinishSlice = (\<lambda>(plan, cms).
     bindE (BuildSuperBlob (plan_code_directory plan) cms) (\<lambda>blob.
     mem_write (plan_bytes plan) (unat (plan_dataoff plan)) blob))"

definition CheckSignatureSize :: "string \<Rightarrow> u32 \<Rightarrow> unit \<Rightarrow> bytes \<Rightarrow> unit res" where
  "CheckSignatureSize name capacity _ cms =
     (if word_of_nat (length cms) > (ucast capacity :: u64) then
        Refuse name (''the signature is '' @ dec (length cms) @ '' bytes but only '' @ to_string capacity @
          '' were reserved; prepare again with a larger capacity'')
      else Inr ())"

definition CompleteSignature ::
  "(bytes \<Rightarrow> bytes) \<Rightarrow> ByteOrder \<Rightarrow> string \<Rightarrow> bytes res \<Rightarrow> PreparedSignature \<Rightarrow> bytes list \<Rightarrow> bytes res" where
  "CompleteSignature sha host name input prepared cms_signatures =
     GuardEntryPoint macho_format
       (bindE (ReadInput input) (\<lambda>bs.
        bindE (ParseInput host bs) (\<lambda>container.
        bindE (PlanAll sha name bs container (prep_identity prepared) (prep_cms_capacity prepared)) (\<lambda>plans.
        if map prepared_slice plans \<noteq> prep_slices prepared then
          Refuse name (''the program, the identity or the capacity changed since PrepareSignature; '' @ ''prepare again'')
        else if length cms_signatures \<noteq> length plans then
          Refuse name (dec (length cms_signatures) @ '' signatures were given for '' @ dec (length plans) @ '' slices'')
        else
        bindE (foldE (CheckSignatureSize name (prep_cms_capacity prepared)) () cms_signatures) (\<lambda>_.
        bindE (mapE FinishSlice (zip plans cms_signatures)) (\<lambda>finished.
        if form container = Thin then (case finished of [] \<Rightarrow> Inl memory_fault | f # _ \<Rightarrow> Inr f)
        else AssembleUniversal name bs container finished))))))"

text \<open>\<open>std::copy\<close> moves the commands after the removed one up, \<open>std::fill\<close> clears what they leave.\<close>

definition RemoveCommand :: "nat \<Rightarrow> nat \<Rightarrow> nat \<Rightarrow> bytes \<Rightarrow> bytes res" where
  "RemoveCommand at cmdsize table_end out =
     (if table_end < at + cmdsize then Inl memory_fault
      else bindE (mem_read out (at + cmdsize) (table_end - (at + cmdsize))) (\<lambda>later.
           bindE (mem_write out at later) (\<lambda>out.
           mem_write out (table_end - cmdsize) (replicate cmdsize 0))))"

definition StripSlice :: "string \<Rightarrow> bool \<Rightarrow> bytes \<Rightarrow> ContainerEntry \<Rightarrow> nat \<Rightarrow> bytes res" where
  "StripSlice name universal bs entry index =
     (let layout = ce_slice entry in
      bindE (RequireSignatureAtEnd (RefuseSlice name universal index (ce_cputype entry)) layout) (\<lambda>cut.
      case linkedit layout of
        None \<Rightarrow> RefuseSlice name universal index (ce_cputype entry) ''the program has no __LINKEDIT segment at its end; it cannot be signed''
      | Some seg \<Rightarrow>
        if seg_fileoff seg > cut then
          RefuseSlice name universal index (ce_cputype entry) ''the program has no __LINKEDIT segment at its end; it cannot be signed''
        else case codesig layout of None \<Rightarrow> Inl memory_fault
      | Some sig \<Rightarrow>
        let cmdsize = foldl (\<lambda>size c. if lc_offset c = cs_command_offset sig then ucast (lc_cmdsize c) else size) 16 (commands layout) :: u64 in
        bindE (mem_read bs (unat (ce_offset entry)) (unat cut)) (\<lambda>out.
        bindE (RemoveCommand (unat (cs_command_offset sig)) (unat cmdsize) (unat (header_end layout)) out) (\<lambda>out.
        bindE (WriteLE32 out 16 (ncmds layout - 1)) (\<lambda>out.
        bindE (WriteLE32 out 20 (ucast (ucast (sizeofcmds layout) - cmdsize))) (\<lambda>out.
        let segment_at = (if seg_command_offset seg > cs_command_offset sig then seg_command_offset seg - cmdsize
                          else seg_command_offset seg);
            filesize = cut - seg_fileoff seg in
        bindE (WriteLE64 out (segment_at + 48) filesize) (\<lambda>out.
        if seg_vmsize seg < filesize then WriteLE64 out (segment_at + 32) (AlignUp filesize (page_unit (ce_cputype entry)))
        else Inr out)))))))"

text \<open>The new content of the file, or \<open>None\<close> when nothing is written.\<close>

definition StripSignature :: "ByteOrder \<Rightarrow> string \<Rightarrow> bytes res \<Rightarrow> bytes option res" where
  "StripSignature host name input =
     GuardEntryPoint macho_format
       (bindE (ReadInput input) (\<lambda>bs.
        bindE (ParseInput host bs) (\<lambda>container.
        bindE (RequireSupported name container) (\<lambda>_.
        bindE (RequireZeroPadding name bs container) (\<lambda>_.
        let universal = (form container \<noteq> Thin); es = entries container in
        bindE (mapE (\<lambda>(entry, i). if codesig (ce_slice entry) \<noteq> None then StripSlice name universal bs entry i
                 else mem_read bs (unat (ce_offset entry)) (unat (sl_size (ce_slice entry)))) (zip es [0..<length es])) (\<lambda>slices.
        if list_all (\<lambda>e. codesig (ce_slice e) = None) es then Inr None
        else if \<not> universal then (case slices of [] \<Rightarrow> Inl memory_fault | f # _ \<Rightarrow> Inr (Some f))
        else bindE (AssembleUniversal name bs container slices) (\<lambda>out. Inr (Some out))))))))"

definition ExtractSignatures :: "ByteOrder \<Rightarrow> string \<Rightarrow> bytes res \<Rightarrow> bytes option list res" where
  "ExtractSignatures host name input =
     GuardEntryPoint macho_format
       (bindE (ReadInput input) (\<lambda>bs.
        bindE (ParseInput host bs) (\<lambda>container.
        mapE (SignatureOfSlice host name (ByteSpan_of_bytes bs macho_format ''the file'') container)
          [0..<length (entries container)])))"

text \<open>The first slice that can be read, or the first.\<close>

definition first_supported :: "ContainerEntry list \<Rightarrow> nat" where
  "first_supported es = (case find (\<lambda>i. support (ce_slice (es ! i)) = Supported) [0..<length es] of None \<Rightarrow> 0 | Some i \<Rightarrow> i)"

definition ExtractSignature :: "ByteOrder \<Rightarrow> string \<Rightarrow> bytes res \<Rightarrow> bytes option res" where
  "ExtractSignature host name input =
     GuardEntryPoint macho_format
       (bindE (ReadInput input) (\<lambda>bs.
        bindE (ParseInput host bs) (\<lambda>container.
        SignatureOfSlice host name (ByteSpan_of_bytes bs macho_format ''the file'') container (first_supported (entries container)))))"

fun AllSigned :: "string \<Rightarrow> ByteSpan \<Rightarrow> MachOContainer \<Rightarrow> nat list \<Rightarrow> bool res" where
  "AllSigned name file_span container [] = Inr True"
| "AllSigned name file_span container (i # is') =
     bindE (SignatureRegion name file_span container i) (\<lambda>r.
     if r = None then Inr False else AllSigned name file_span container is')"

fun ReportUnable :: "'a res \<Rightarrow> 'a res" where
  "ReportUnable (Inl (runtime_error m)) =
     (if take 10 m = ''Unable to '' then ThrowMalformed macho_format m else Inl (runtime_error m))"
| "ReportUnable r = r"

definition MachO_HasEmbeddedSignature :: "ByteOrder \<Rightarrow> string \<Rightarrow> PagedFile res \<Rightarrow> bool res" where
  "MachO_HasEmbeddedSignature host name opened =
     GuardEntryPoint macho_format (ReportUnable
       (bindE opened (\<lambda>paged.
        let file_span = ByteSpan_of_file paged macho_format ''the file'' in
        if span_size file_span < 4 then ThrowMalformed macho_format ''File too small to be a Mach-O binary''
        else bindE (ParseMachOContainer host file_span) (\<lambda>container.
             AllSigned name file_span container [0..<length (entries container)]))))"

section \<open>Reading a SuperBlob\<close>

definition kSignatureFormat :: string where "kSignatureFormat = ''Mach-O code signature''"

definition IndexEntry :: "ByteOrder \<Rightarrow> ByteSpan \<Rightarrow> u32 \<Rightarrow> u64 \<Rightarrow> u64 \<Rightarrow> u64 option \<Rightarrow> nat \<Rightarrow> u64 option res" where
  "IndexEntry host blob slot index_end len wanted_offset i =
     (let idx_offset = 12 + word_of_nat i * 8 in
      bindE (Read host blob idx_offset Big ''blob index slot'') (\<lambda>slot_type.
      bindE (Read host blob (idx_offset + 4) Big ''blob index offset'') (\<lambda>off32.
      let blob_offset = ucast (off32 :: u32) :: u64 in
      if blob_offset < index_end then
        ThrowMalformed kSignatureFormat (''blob index '' @ dec i @ '' offset '' @ to_string blob_offset @
          '' is inside the index ('' @ to_string index_end @ '' bytes)'')
      else if \<not> RangeFits blob_offset 8 len then
        ThrowMalformed kSignatureFormat (''blob index '' @ dec i @ '' offset '' @ to_string blob_offset @
          '' is past the end of the SuperBlob ('' @ to_string len @ '' bytes)'')
      else Inr (if slot_type = slot \<and> wanted_offset = None then Some blob_offset else wanted_offset))))"

definition SlotBlob :: "ByteOrder \<Rightarrow> ByteSpan \<Rightarrow> u32 \<Rightarrow> string \<Rightarrow> u64 \<Rightarrow> u64 \<Rightarrow> (u64 \<times> u64) res" where
  "SlotBlob host blob blob_magic blob_name len blob_offset =
     bindE (Read host blob blob_offset Big ''blob magic'') (\<lambda>inner_magic.
     if inner_magic \<noteq> blob_magic then
       ThrowMalformed kSignatureFormat (''blob magic of the '' @ blob_name @ '' is not the expected value'')
     else
     bindE (Read host blob (blob_offset + 4) Big ''blob length'') (\<lambda>len32.
     let inner_length = ucast (len32 :: u32) in
     if inner_length < 8 \<or> \<not> RangeFits blob_offset inner_length len then
       ThrowMalformed kSignatureFormat (''blob length '' @ to_string inner_length @ '' of the '' @ blob_name @
         '' is below 8 or runs past the SuperBlob'')
     else Inr (blob_offset, inner_length)))"

definition FindSuperBlobSlot :: "ByteOrder \<Rightarrow> bytes \<Rightarrow> u32 \<Rightarrow> u32 \<Rightarrow> string \<Rightarrow> (u64 \<times> u64) option res" where
  "FindSuperBlobSlot host super_blob slot blob_magic blob_name =
     (let data = ByteSpan_of_bytes super_blob kSignatureFormat ''the SuperBlob'' in
      if span_size data < 12 then
        ThrowMalformed kSignatureFormat (''SuperBlob header needs 12 bytes but only '' @ to_string (span_size data) @ '' are present'')
      else
      bindE (Read host data 0 Big ''SuperBlob magic'') (\<lambda>magic.
      if magic \<noteq> CSMAGIC_EMBEDDED_SIGNATURE then
        ThrowMalformed kSignatureFormat ''SuperBlob magic is not the embedded signature magic''
      else
      bindE (Read host data 4 Big ''SuperBlob length'') (\<lambda>len32.
      let len = ucast (len32 :: u32) in
      if len < 12 \<or> len > span_size data then
        ThrowMalformed kSignatureFormat (''SuperBlob length '' @ to_string len @ '' is smaller than its header or past the '' @
          to_string (span_size data) @ '' bytes present'')
      else
      bindE (Read host data 8 Big ''SuperBlob count'') (\<lambda>count32.
      let count = ucast (count32 :: u32) :: u64; index_end = 12 + count * 8 in
      if index_end > len then
        ThrowMalformed kSignatureFormat (''SuperBlob blob index of '' @ to_string count @
          '' entries does not fit in the SuperBlob length '' @ to_string len)
      else
      bindE (Sub data 0 len ''SuperBlob'') (\<lambda>blob.
      bindE (foldE (IndexEntry host blob slot index_end len) None [0..<unat count]) (\<lambda>wanted_offset.
      case wanted_offset of
        None \<Rightarrow> Inr None
      | Some blob_offset \<Rightarrow> bindE (SlotBlob host blob blob_magic blob_name len blob_offset) (\<lambda>found. Inr (Some found))))))))"

definition ExtractCmsFromSuperBlob :: "ByteOrder \<Rightarrow> bytes \<Rightarrow> bytes option res" where
  "ExtractCmsFromSuperBlob host super_blob =
     GuardEntryPoint kSignatureFormat
       (bindE (FindSuperBlobSlot host super_blob CSSLOT_CMS_SIGNATURE CSMAGIC_BLOBWRAPPER ''CMS blob'') (\<lambda>found.
        case found of None \<Rightarrow> Inr None
        | Some (offset, len) \<Rightarrow>
            bindE (mem_read super_blob (unat (offset + 8)) (unat (offset + len) - unat (offset + 8))) (\<lambda>b. Inr (Some b))))"

definition ExtractCodeDirectoryFromSuperBlob :: "ByteOrder \<Rightarrow> bytes \<Rightarrow> bytes option res" where
  "ExtractCodeDirectoryFromSuperBlob host super_blob =
     GuardEntryPoint kSignatureFormat
       (bindE (FindSuperBlobSlot host super_blob CSSLOT_CODEDIRECTORY CSMAGIC_CODEDIRECTORY ''code directory'') (\<lambda>found.
        case found of None \<Rightarrow> Inr None
        | Some (offset, len) \<Rightarrow>
            bindE (mem_read super_blob (unat offset) (unat (offset + len) - unat offset)) (\<lambda>b. Inr (Some b))))"

end
