(* ===== verification/Macho_Signer_Spec.thy ===== *)
theory Macho_Signer_Spec
  imports Macho_Signer
begin

text \<open>
  What the Mach-O signer promises: a SuperBlob gives back what was put into it, nothing is read or written outside a
  buffer, and in the file that \<open>CompleteSignature\<close> writes every page hash of every slice is the hash of that page.
\<close>

section \<open>Numbers in a buffer\<close>

lemma byte_of_word:
  "ucast (drop_bit n (v :: u32) AND 0xFF) = (word_of_nat (unat v div 2 ^ n) :: u8)"
  "ucast (drop_bit n (w :: u64) AND 0xFF) = (word_of_nat (unat w div 2 ^ n) :: u8)"
proof -
  have "unat (drop_bit n v) = unat v div 2 ^ n" "unat (drop_bit n w) = unat w div 2 ^ n"
    by (rule trans [OF unat_drop_bit_eq drop_bit_eq_div])+
  moreover have "ucast (drop_bit n v AND 0xFF) = (ucast (drop_bit n v) :: u8)" "ucast (drop_bit n w AND 0xFF) = (ucast (drop_bit n w) :: u8)"
    by (rule bit_word_eqI; simp add: bit_simps; fastforce simp: less_Suc_eq numeral_eq_Suc)+
  moreover have "(ucast x :: u8) = word_of_nat (unat x)" for x :: "'a::len word" by simp
  ultimately show "ucast (drop_bit n (v :: u32) AND 0xFF) = (word_of_nat (unat v div 2 ^ n) :: u8)"
    "ucast (drop_bit n (w :: u64) AND 0xFF) = (word_of_nat (unat w div 2 ^ n) :: u8)"
    by metis+
qed

lemma le_bytes_upt: "le_bytes k n = map (\<lambda>i. word_of_nat (n div 2 ^ (i * 8))) [0..<k]"
proof (induction k arbitrary: n)
  case (Suc k)
  have "map f [0..<Suc k] = f 0 # map (\<lambda>i. f (Suc i)) [0..<k]" for f :: "nat \<Rightarrow> u8"
    by (simp add: upt_conv_Cons map_Suc_upt [symmetric] del: upt_Suc)
  then show ?case using Suc.IH [of "n div 256"] by (simp add: power_add div_mult2_eq mult.commute del: upt_Suc)
qed simp

lemma WriteBE32_eq: "WriteBE32 buf offset v = mem_write buf (unat offset) (store_word Big v)"
proof -
  have "[0..<4] = [0, 1, 2, 3 :: nat]" by code_simp
  then have "store_word Big v = [ucast (drop_bit 24 v AND 0xFF), ucast (drop_bit 16 v AND 0xFF), ucast (drop_bit 8 v AND 0xFF), ucast (drop_bit 0 v AND 0xFF)]"
    unfolding byte_of_word by (simp add: store_word_def le_bytes_upt)
  then show ?thesis by (simp add: WriteBE32_def)
qed

lemma WriteBE64_eq: "WriteBE64 buf offset v = mem_write buf (unat offset) (store_word Big v)"
proof -
  have "rev [0..<8] = map (\<lambda>k. 7 - k) [0..<8 :: nat]" by code_simp
  then have "store_word Big v = map (\<lambda>k. word_of_nat (unat v div 2 ^ ((7 - k) * 8))) [0..<8]"
    by (simp add: store_word_def le_bytes_upt rev_map del: upt_rec_numeral)
  then show ?thesis unfolding WriteBE64_def byte_of_word by simp
qed

lemma WriteLE_eq:
  "WriteLE32 buf offset v = mem_write buf (unat offset) (store_word Little v)"
  "WriteLE64 buf offset w = mem_write buf (unat offset) (store_word Little w)"
  unfolding WriteLE32_def WriteLE64_def byte_of_word by (simp_all add: store_word_def le_bytes_upt del: upt_rec_numeral)

lemmas write_eqs = WriteBE32_eq WriteBE64_eq WriteLE_eq

definition be32_at :: "bytes \<Rightarrow> nat \<Rightarrow> u32" where
  "be32_at bs off = load_word Big (segment off 4 bs)"

lemma Read_be32:
  "span_ok sp c \<Longrightarrow> (Read host sp offset Big what :: u32 res) =
    (if unat offset + 4 \<le> length c then Inr (be32_at c (unat offset))
     else ThrowMalformed (span_format sp) (PastTheEnd what offset (span_scope sp) (span_size sp)))"
  by (simp add: Read_eq be32_at_def)

lemma be32_load_store: "load_word Big (store_word Big (v :: u32)) = v"
  by (rule load_store_word) simp

lemma length_store_32 [simp]: "length (store_word ord (v :: u32)) = 4" "length (store_word ord (w :: u64)) = 8"
  by (simp_all add: store_word_def Let_def)

lemma be32_at_overwrite:
  assumes "off + length ys \<le> length xs" "off' + 4 \<le> length xs"
  shows "ys = store_word Big v \<Longrightarrow> off' = off \<Longrightarrow> be32_at (overwrite off ys xs) off' = v"
    and "off' + 4 \<le> off \<or> off + length ys \<le> off' \<Longrightarrow> be32_at (overwrite off ys xs) off' = be32_at xs off'"
  using assms by (simp_all add: be32_at_def segment_overwrite_same segment_overwrite_other be32_load_store)

section \<open>SuperBlobs\<close>

abbreviation be :: "u32 \<Rightarrow> bytes" where
  "be \<equiv> store_word Big"

definition requirements_blob :: bytes where
  "requirements_blob = be CSMAGIC_REQUIREMENTS @ be 12 @ be 0"

text \<open>Filling a zeroed buffer from the front.\<close>

lemma overwrite_fill: "off = length xs \<Longrightarrow> overwrite off ys (xs @ replicate (length ys + n) 0) = xs @ ys @ replicate n 0"
  by (simp add: overwrite_def replicate_add)

lemma mem_write_fill:
  "off = length xs \<Longrightarrow> m = length ys + n \<Longrightarrow> mem_write (xs @ replicate m 0) off ys = Inr (xs @ ys @ replicate n 0)"
  by (simp add: mem_write_def overwrite_fill)

lemma write_fields:
  assumes "map (unat \<circ> fst) fds = map (\<lambda>i. length xs + 4 * i) [0..<length fds]"
  shows "foldE (\<lambda>buf (at, v). WriteBE32 buf at v) (xs @ replicate (4 * length fds + n) 0) fds =
    Inr (xs @ concat (map (be \<circ> snd) fds) @ replicate n 0)"
proof -
  have "unat (fst (fds ! i)) = length xs + 4 * i" if "i < length fds" for i
    using that arg_cong [OF assms, of "\<lambda>l. l ! i"] by simp
  then have "\<forall>i < length fds. unat (fst (fds ! i)) = length xs + 4 * i" by blast
  then show ?thesis
  proof (induction fds arbitrary: xs)
    case (Cons f fds)
    have at: "unat (fst f) = length xs" using Cons.prems by force
    have "mem_write (xs @ replicate (4 * length (f # fds) + n) 0) (unat (fst f)) (be (snd f)) =
        Inr ((xs @ be (snd f)) @ replicate (4 * length fds + n) 0)"
      using mem_write_fill [OF at, of _ "be (snd f)" "4 * length fds + n"] by (simp add: add.assoc)
    moreover have "\<forall>i < length fds. unat (fst (fds ! i)) = length (xs @ be (snd f)) + 4 * i"
      using Cons.prems by force
    ultimately show ?case using Cons.IH [of "xs @ be (snd f)"] by (simp add: case_prod_beta WriteBE32_eq)
  qed simp
qed

lemma BuildEmptyRequirements_eq: "BuildEmptyRequirements = Inr requirements_blob"
proof -
  have "BuildEmptyRequirements = foldE (\<lambda>buf (at, v). WriteBE32 buf at v) ([] @ replicate (4 * length [(0 :: u64, CSMAGIC_REQUIREMENTS), (4, 12), (8, 0)] + 0) 0)
      [(0, CSMAGIC_REQUIREMENTS), (4, 12), (8, 0)]"
    by (simp add: BuildEmptyRequirements_def) (simp add: bindE_def split: sum.splits)
  also have "\<dots> = Inr requirements_blob" by (subst write_fields) (simp_all add: requirements_blob_def)
  finally show ?thesis .
qed

definition super_blob_index :: "nat \<Rightarrow> nat \<Rightarrow> bytes" where
  "super_blob_index cd_size cms_size = be CSMAGIC_EMBEDDED_SIGNATURE @ be (word_of_nat (56 + cd_size + cms_size)) @ be 3 @
     be CSSLOT_CODEDIRECTORY @ be 36 @ be CSSLOT_REQUIREMENTS @ be (word_of_nat (36 + cd_size)) @
     be CSSLOT_CMS_SIGNATURE @ be (word_of_nat (48 + cd_size))"

definition cms_wrapper :: "bytes \<Rightarrow> bytes" where
  "cms_wrapper cms = be CSMAGIC_BLOBWRAPPER @ be (word_of_nat (8 + length cms)) @ cms"

definition super_blob :: "bytes \<Rightarrow> bytes \<Rightarrow> bytes" where
  "super_blob cd cms = super_blob_index (length cd) (length cms) @ cd @ requirements_blob @ cms_wrapper cms"

lemma length_blobs [simp]:
  "length requirements_blob = 12" "length (super_blob_index n m) = 36" "length (cms_wrapper cms) = 8 + length cms"
  "length (super_blob cd cms) = 56 + length cd + length cms"
  by (simp_all add: requirements_blob_def super_blob_index_def cms_wrapper_def super_blob_def)

lemma BuildCmsBlob_eq: "BuildCmsBlob cms = Inr (cms_wrapper cms)"
proof -
  let ?v = "word_of_nat (8 + length cms) :: u32"
  have a: "WriteBE32 (replicate (8 + length cms) 0) 0 CSMAGIC_BLOBWRAPPER = Inr (be CSMAGIC_BLOBWRAPPER @ replicate (4 + length cms) 0)"
    using mem_write_fill [of 0 "[]" "8 + length cms" "be CSMAGIC_BLOBWRAPPER" "4 + length cms"] by (simp add: WriteBE32_eq)
  have b: "WriteBE32 (be CSMAGIC_BLOBWRAPPER @ replicate (4 + length cms) 0) 4 ?v = Inr (be CSMAGIC_BLOBWRAPPER @ be ?v @ replicate (length cms) 0)"
    using mem_write_fill [of 4 "be CSMAGIC_BLOBWRAPPER" "4 + length cms" "be ?v" "length cms"] by (simp add: WriteBE32_eq)
  have c: "mem_write (be CSMAGIC_BLOBWRAPPER @ be ?v @ replicate (length cms) 0) 8 cms = Inr (be CSMAGIC_BLOBWRAPPER @ be ?v @ cms)"
    using mem_write_fill [of 8 "be CSMAGIC_BLOBWRAPPER @ be ?v" "length cms" cms 0] by simp
  have l: "length (be CSMAGIC_BLOBWRAPPER @ replicate (4 + length cms) 0) = 8 + length cms" by simp
  show ?thesis unfolding BuildCmsBlob_def a bindE_simps l b c cms_wrapper_def ..
qed

lemma BuildSuperBlob_eq: "BuildSuperBlob cd cms = Inr (super_blob cd cms)"
proof -
  let ?n = "length cd + 12 + (8 + length cms)"
  define fds :: "(u64 \<times> u32) list" where "fds = [(0, CSMAGIC_EMBEDDED_SIGNATURE), (4, word_of_nat (56 + length cd + length cms)), (8, 3),
    (12, CSSLOT_CODEDIRECTORY), (16, 36), (20, CSSLOT_REQUIREMENTS), (24, word_of_nat (36 + length cd)),
    (28, CSSLOT_CMS_SIGNATURE), (32, word_of_nat (48 + length cd))]"
  have "map (unat \<circ> fst) fds = map (\<lambda>i. length ([] :: bytes) + 4 * i) [0..<length fds]"
    by (simp add: fds_def)
  from write_fields [OF this, of ?n] have idx: "foldE (\<lambda>buf (at, v). WriteBE32 buf at v) (replicate (36 + ?n) 0) fds =
      Inr (super_blob_index (length cd) (length cms) @ replicate ?n 0)"
    by (simp add: fds_def super_blob_index_def)
  let ?i = "super_blob_index (length cd) (length cms)"
  have "mem_write (?i @ replicate ?n 0) 36 cd = Inr (?i @ cd @ replicate (12 + (8 + length cms)) 0)"
    by (rule mem_write_fill) simp_all
  moreover have "mem_write (?i @ cd @ replicate (12 + (8 + length cms)) 0) (36 + length cd) requirements_blob =
      Inr (?i @ cd @ requirements_blob @ replicate (8 + length cms) 0)"
    using mem_write_fill [of "36 + length cd" "?i @ cd" "12 + (8 + length cms)" requirements_blob "8 + length cms"] by simp
  moreover have "mem_write (?i @ cd @ requirements_blob @ replicate (8 + length cms) 0) (48 + length cd) (cms_wrapper cms) =
      Inr (super_blob cd cms)"
    using mem_write_fill [of "48 + length cd" "?i @ cd @ requirements_blob" "8 + length cms" "cms_wrapper cms" 0] by (simp add: super_blob_def)
  ultimately show ?thesis
    using idx by (simp add: BuildSuperBlob_def BuildEmptyRequirements_eq BuildCmsBlob_eq Let_def fds_def add.assoc add.commute add.left_commute)
qed

text \<open>Reading the index back.\<close>

lemma be32_at_append: "off = length p \<Longrightarrow> be32_at (p @ be v @ q) off = v"
  by (simp add: be32_at_def segment_def be32_load_store)

lemma super_blob_index_fields:
  fixes cd cms :: bytes
  defines "F \<equiv> super_blob cd cms"
  shows "be32_at F 0 = CSMAGIC_EMBEDDED_SIGNATURE" "be32_at F 4 = word_of_nat (56 + length cd + length cms)" "be32_at F 8 = 3"
    "be32_at F 12 = CSSLOT_CODEDIRECTORY" "be32_at F 16 = 36" "be32_at F 20 = CSSLOT_REQUIREMENTS"
    "be32_at F 24 = word_of_nat (36 + length cd)" "be32_at F 28 = CSSLOT_CMS_SIGNATURE" "be32_at F 32 = word_of_nat (48 + length cd)"
  unfolding F_def super_blob_def super_blob_index_def be32_at_def segment_def
  by (simp_all add: be32_load_store del: of_nat_add of_nat_Suc)

lemma super_blob_inner:
  fixes cd cms :: bytes
  defines "F \<equiv> super_blob cd cms"
  shows "off + n \<le> length cd \<Longrightarrow> segment (36 + off) n F = segment off n cd"
    and "be32_at F (48 + length cd) = CSMAGIC_BLOBWRAPPER" and "be32_at F (52 + length cd) = word_of_nat (8 + length cms)"
    and "segment (56 + length cd) (length cms) F = cms"
proof -
  show "off + n \<le> length cd \<Longrightarrow> segment (36 + off) n F = segment off n cd"
    by (simp add: F_def super_blob_def segment_def)
  let ?p = "super_blob_index (length cd) (length cms) @ cd @ requirements_blob"
  have F: "F = ?p @ be CSMAGIC_BLOBWRAPPER @ be (word_of_nat (8 + length cms)) @ cms" by (simp add: F_def super_blob_def cms_wrapper_def)
  show "be32_at F (48 + length cd) = CSMAGIC_BLOBWRAPPER" unfolding F by (rule be32_at_append) simp
  have F2: "F = (?p @ be CSMAGIC_BLOBWRAPPER) @ be (word_of_nat (8 + length cms)) @ cms" by (simp add: F)
  show "be32_at F (52 + length cd) = word_of_nat (8 + length cms)" unfolding F2 by (rule be32_at_append) simp
  have "F = (?p @ be CSMAGIC_BLOBWRAPPER @ be (word_of_nat (8 + length cms))) @ cms" by (simp add: F)
  then show "segment (56 + length cd) (length cms) F = cms" by (simp add: segment_def)
qed

lemma IndexEntry_eq:
  assumes ok: "span_ok blob c" and i: "i < 3" and c: "56 \<le> length c" "length c < 2 ^ 32" and off: "be32_at c (16 + 8 * i) = word_of_nat off"
    "36 \<le> off" "off + 8 \<le> length c"
  shows "IndexEntry host blob slot 36 (word_of_nat (length c)) wanted i =
    Inr (if be32_at c (12 + 8 * i) = slot \<and> wanted = None then Some (word_of_nat off) else wanted)"
proof -
  have u: "unat (12 + word_of_nat i * 8 :: u64) = 12 + 8 * i" "unat (12 + word_of_nat i * 8 + 4 :: u64) = 16 + 8 * i"
    using i by (simp_all add: less_Suc_eq_0_disj numeral_eq_Suc) auto
  have o32: "unat (word_of_nat off :: u32) = off" using off(3) c(2) by (intro unat_of_nat_small) simp
  have o: "(ucast (word_of_nat off :: u32) :: u64) = word_of_nat off" "unat (word_of_nat off :: u64) = off"
    using o32 off(3) c(2) by (simp_all add: word_unat_eq_iff unat_ucast_u32 unat_of_nat_small)
  have l: "unat (word_of_nat (length c) :: u64) = length c" using c(2) by (intro unat_of_nat_small) simp
  show ?thesis
    using i c off u o l by (simp add: IndexEntry_def Let_def Read_be32 [OF ok] RangeFits_iff word_less_nat_alt)
qed

text \<open>The slot that is looked up is found where it was put.\<close>

definition slot_offset :: "u32 \<Rightarrow> bytes \<Rightarrow> nat option" where
  "slot_offset slot cd = (if slot = CSSLOT_CODEDIRECTORY then Some 36 else if slot = CSSLOT_REQUIREMENTS then Some (36 + length cd)
     else if slot = CSSLOT_CMS_SIGNATURE then Some (48 + length cd) else None)"

lemma FindSuperBlobSlot_built:
  assumes small: "56 + length cd + length cms < 2 ^ 32" and room: "length rest < 2 ^ 63" and slot: "slot_offset slot cd = Some off"
    and magic: "be32_at (super_blob cd cms) off = blob_magic" and len: "be32_at (super_blob cd cms) (off + 4) = word_of_nat n"
    and n: "8 \<le> n" "off + n \<le> 56 + length cd + length cms"
  shows "FindSuperBlobSlot host (super_blob cd cms @ rest) slot blob_magic name = Inr (Some (word_of_nat off, word_of_nat n))"
proof -
  let ?F = "super_blob cd cms" and ?N = "56 + length cd + length cms"
  define data where "data = ByteSpan_of_bytes (?F @ rest) kSignatureFormat ''the SuperBlob''"
  have N: "unat (word_of_nat ?N :: u64) = ?N" "unat (word_of_nat ?N :: u32) = ?N" using small by (intro unat_of_nat_small; simp)+
  have data: "span_ok data (?F @ rest)" using small room by (simp add: data_def span_ok_bytes)
  have size: "unat (span_size data) = ?N + length rest" using span_ok_length [OF data] by simp
  note F = super_blob_index_fields [of cd cms]
  have front: "be32_at (?F @ rest) k = be32_at ?F k" if "k + 4 \<le> ?N" for k
    using that by (simp add: be32_at_def segment_def)
  have len64: "(ucast (word_of_nat ?N :: u32) :: u64) = word_of_nat ?N" using N by (simp add: word_unat_eq_iff unat_ucast_u32)
  let ?blob = "sub_of data 0 (word_of_nat ?N) ''SuperBlob''"
  have blob: "span_ok ?blob ?F" using sub_of_ok [OF data, of 0 "word_of_nat ?N"] N by (simp add: segment_def)
  have e: "IndexEntry host ?blob slot 36 (word_of_nat ?N) wanted i =
      Inr (if be32_at ?F (12 + 8 * i) = slot \<and> wanted = None then Some (word_of_nat o') else wanted)"
    if "i < 3" "be32_at ?F (16 + 8 * i) = word_of_nat o'" "36 \<le> o'" "o' + 8 \<le> ?N" for wanted i o'
    using IndexEntry_eq [OF blob that(1), of o'] that small by simp
  have scan: "foldE (IndexEntry host ?blob slot 36 (word_of_nat ?N)) None [0..<3] = Inr (Some (word_of_nat off))"
  proof -
    have "[0..<3] = [0, 1, 2 :: nat]" by code_simp
    then show ?thesis
      using e [of 0 36] e [of 1 "36 + length cd"] e [of 2 "48 + length cd"] F slot
      by (auto simp: slot_offset_def CSSLOT_CODEDIRECTORY_def CSSLOT_REQUIREMENTS_def CSSLOT_CMS_SIGNATURE_def
          simp del: of_nat_add split: if_splits)
  qed
  have ou: "unat (word_of_nat off :: u64) = off" "unat (word_of_nat off + 4 :: u64) = off + 4"
  proof -
    show *: "unat (word_of_nat off :: u64) = off" using n small by (intro unat_of_nat_small) simp
    show "unat (word_of_nat off + 4 :: u64) = off + 4" using * n small by (subst unat_add_nowrap) simp_all
  qed
  have nu: "unat (word_of_nat n :: u32) = n" "(ucast (word_of_nat n :: u32) :: u64) = word_of_nat n" "unat (word_of_nat n :: u64) = n"
    using n small by (simp_all add: word_unat_eq_iff unat_ucast_u32 unat_of_nat_small)
  have inner: "SlotBlob host ?blob blob_magic name (word_of_nat ?N) (word_of_nat off) = Inr (word_of_nat off, word_of_nat n)"
    using n ou nu N magic len
    by (simp add: SlotBlob_def Let_def Read_be32 [OF blob] RangeFits_iff word_less_nat_alt del: of_nat_add)
  have three: "ucast (3 :: u32) = (3 :: u64)" "(12 + 3 * 8 :: u64) = 36" "unat (3 :: u64) = 3" by simp_all
  have lim: "\<not> (word_of_nat ?N :: u64) < 12" "\<not> (36 :: u64) > word_of_nat ?N" "\<not> word_of_nat ?N > span_size data" "\<not> span_size data < 12"
    using N size by (simp_all add: word_less_nat_alt)
  show ?thesis
    unfolding FindSuperBlobSlot_def data_def [symmetric] Let_def
    using lim F(1-3) scan inner
    by (simp add: Read_be32 [OF data] Sub_eq [OF data] len64 N three front del: of_nat_add)
qed

lemma Extract_built:
  assumes small: "56 + length cd + length cms < 2 ^ 32" and room: "length rest < 2 ^ 63" and cd: "8 \<le> length cd" "be32_at cd 0 = CSMAGIC_CODEDIRECTORY"
    "be32_at cd 4 = word_of_nat (length cd)"
  shows "ExtractCmsFromSuperBlob host (super_blob cd cms @ rest) = Inr (Some cms)"
    and "ExtractCodeDirectoryFromSuperBlob host (super_blob cd cms @ rest) = Inr (Some cd)"
proof -
  let ?F = "super_blob cd cms"
  have nat64: "unat (word_of_nat k :: u64) = k" if "k < 2 ^ 33" for k using that by (intro unat_of_nat_small) simp
  have seg: "segment off n (?F @ rest) = segment off n ?F" if "off + n \<le> 56 + length cd + length cms" for off n
    using that by (simp add: segment_def)
  have cms: "FindSuperBlobSlot host (?F @ rest) CSSLOT_CMS_SIGNATURE CSMAGIC_BLOBWRAPPER ''CMS blob'' = Inr (Some (word_of_nat (48 + length cd), word_of_nat (8 + length cms)))"
    by (rule FindSuperBlobSlot_built [OF small room])
      (use super_blob_inner(2,3) [of cd cms] in \<open>simp_all add: slot_offset_def CSSLOT_CODEDIRECTORY_def CSSLOT_REQUIREMENTS_def CSSLOT_CMS_SIGNATURE_def del: of_nat_add\<close>)
  have dir: "FindSuperBlobSlot host (?F @ rest) CSSLOT_CODEDIRECTORY CSMAGIC_CODEDIRECTORY ''code directory'' = Inr (Some (word_of_nat 36, word_of_nat (length cd)))"
    by (rule FindSuperBlobSlot_built [OF small room])
      (use cd super_blob_inner(1) [of 0 4 cd cms] super_blob_inner(1) [of 4 4 cd cms] in \<open>simp_all add: slot_offset_def be32_at_def\<close>)
  have "(word_of_nat (48 + length cd) + 8 :: u64) = word_of_nat (56 + length cd)"
    "(word_of_nat (48 + length cd) + word_of_nat (8 + length cms) :: u64) = word_of_nat (56 + length cd + length cms)" by simp_all
  then show "ExtractCmsFromSuperBlob host (?F @ rest) = Inr (Some cms)"
    using small super_blob_inner(4) [of cd cms] nat64
    by (simp add: ExtractCmsFromSuperBlob_def cms mem_read_def seg del: of_nat_add)
  have "(word_of_nat 36 + word_of_nat (length cd) :: u64) = word_of_nat (36 + length cd)" by simp
  then show "ExtractCodeDirectoryFromSuperBlob host (?F @ rest) = Inr (Some cd)"
    using small super_blob_inner(1) [of 0 "length cd" cd cms] nat64 segment_full [of cd]
    by (simp add: ExtractCodeDirectoryFromSuperBlob_def dir mem_read_def seg del: of_nat_add)
qed

section \<open>Refusals\<close>

definition throws :: "'a res \<Rightarrow> bool" where
  "throws r \<longleftrightarrow> (\<forall>e. r = Inl e \<longrightarrow> (\<exists>m. e = runtime_error m))"

named_theorems throws_intros \<open>rules for computations whose only exception is a runtime_error\<close>

lemma throws_simps [throws_intros]: "throws (Inr x)" "throws (Inl (runtime_error m))" "throws (ThrowMalformed fmt d)"
  "throws (Refuse name reason)" "throws (RefuseSlice name universal i cputype reason)"
  by (auto simp: throws_def ThrowMalformed_def Refuse_def RefuseSlice_def)

lemma throws_bind [throws_intros]: "throws m \<Longrightarrow> (\<And>x. m = Inr x \<Longrightarrow> throws (f x)) \<Longrightarrow> throws (bindE m f)"
  by (cases m) (auto simp: throws_def)

lemma throws_if [throws_intros]: "(c \<Longrightarrow> throws a) \<Longrightarrow> (\<not> c \<Longrightarrow> throws b) \<Longrightarrow> throws (if c then a else b)"
  by simp

lemma throws_mapE [throws_intros]: "(\<And>x. x \<in> set xs \<Longrightarrow> throws (f x)) \<Longrightarrow> throws (mapE f xs)"
  by (induction xs) (auto intro!: throws_intros)

lemma throws_foldE [throws_intros]: "(\<And>s x. x \<in> set xs \<Longrightarrow> throws (f s x)) \<Longrightarrow> throws (foldE f s xs)"
  by (induction xs arbitrary: s) (auto intro!: throws_intros)

lemma throws_rejects: "rejects fmt r \<Longrightarrow> throws r"
  by (auto simp: rejects_def throws_def)

lemma throws_Guard [throws_intros]: "throws r \<Longrightarrow> throws (GuardEntryPoint fmt r)"
  by (cases "(fmt, r)" rule: GuardEntryPoint.cases) (auto simp: throws_def)

section \<open>Planning\<close>

lemma write_fits: "off + length ys \<le> length xs \<Longrightarrow> mem_write xs off ys = Inr (overwrite off ys xs)"
  by (simp add: mem_write_def)

lemma RequireSignatureAtEnd_Inr:
  assumes wf: "slice_wf l" and run: "RequireSignatureAtEnd refuse l = Inr kept" and no: "\<And>m. \<exists>e. refuse m = Inl e"
  shows "unat (header_end l) \<le> unat kept \<and> unat kept \<le> unat (sl_size l)"
proof -
  obtain sig where sig: "codesig l = Some sig" using run by (auto simp: RequireSignatureAtEnd_def split: option.splits)
  have cs: "unat (cs_dataoff sig) + unat (cs_datasize sig) \<le> unat (sl_size l)" "cs_datasize sig = 0 \<or> unat (header_end l) \<le> unat (cs_dataoff sig)"
    and h: "unat (header_end l) \<le> unat (sl_size l)"
    using wf sig by (auto simp: slice_wf_def parsed_wf_def codesig_wf_def)
  have "unat (ucast (cs_dataoff sig) + ucast (cs_datasize sig) :: u64) = unat (cs_dataoff sig) + unat (cs_datasize sig)"
    using unat_u32_less [of "cs_dataoff sig"] unat_u32_less [of "cs_datasize sig"] by (subst unat_add_nowrap) (simp_all add: unat_ucast_u32)
  moreover have "kept = sl_size l \<or> kept = ucast (cs_dataoff sig) \<and> ucast (cs_dataoff sig) + ucast (cs_datasize sig) = sl_size l"
    using run no by (auto simp: RequireSignatureAtEnd_def sig Let_def split: if_splits) (metis Inl_Inr_False)+
  ultimately show ?thesis using cs h by (auto simp: unat_ucast_u32)
qed

lemma throws_RequireSignatureAtEnd:
  assumes "codesig l \<noteq> None" and "\<And>m. throws (refuse m)"
  shows "throws (RequireSignatureAtEnd refuse l)"
  using assms by (auto simp: RequireSignatureAtEnd_def Let_def intro!: throws_intros split: option.splits)

lemma throws_PlanKept:
  assumes "\<And>m. throws (refuse m)"
  shows "throws (PlanKept refuse l identity)"
  unfolding PlanKept_def Let_def
  by (intro throws_bind throws_if throws_RequireSignatureAtEnd assms throws_simps) simp

lemma FreeHeaderSpace_room: "\<not> FreeHeaderSpace l < 16 \<Longrightarrow> unat (header_end l) + 16 \<le> unat (first_content l)"
  by (auto simp: FreeHeaderSpace_def word_less_nat_alt unat_diff_nowrap word_le_nat_alt split: if_splits)

text \<open>What is kept holds the header, and the new command when there is one to add.\<close>

definition kept_ok :: "SliceLayout \<Rightarrow> u64 \<Rightarrow> bool" where
  "kept_ok l kept \<longleftrightarrow> unat (header_end l) \<le> unat kept \<and> unat kept \<le> unat (sl_size l) \<and>
     (codesig l = None \<longrightarrow> unat (header_end l) + 16 \<le> unat kept) \<and> (\<exists>seg. linkedit l = Some seg)"

lemma PlanKept_Inr:
  assumes wf: "slice_wf l" and run: "PlanKept refuse l identity = Inr kept" and no: "\<And>m. \<exists>e. refuse m = Inl e"
  shows "kept_ok l kept"
proof -
  have no': "refuse m \<noteq> Inr x" for m x using no [of m] by auto
  have "unat (header_end l) \<le> unat kept \<and> unat kept \<le> unat (sl_size l)"
  proof (cases "codesig l")
    case None
    then have "kept = sl_size l" using run no' by (auto simp: PlanKept_def Let_def split: if_splits)
    then show ?thesis using wf by (simp add: slice_wf_def)
  next
    case (Some sig)
    then have "RequireSignatureAtEnd refuse l = Inr kept" using run no' by (auto simp: PlanKept_def Let_def split: if_splits)
    then show ?thesis by (rule RequireSignatureAtEnd_Inr [OF wf _ no])
  qed
  moreover have "unat (header_end l) + 16 \<le> unat kept" if "codesig l = None"
  proof -
    have "\<not> FreeHeaderSpace l < 16" "kept = sl_size l" using run no' that by (auto simp: PlanKept_def Let_def split: if_splits)
    then show ?thesis using FreeHeaderSpace_room [of l] wf by (simp add: slice_wf_def parsed_wf_def)
  qed
  moreover have "\<exists>seg. linkedit l = Some seg"
    using run no' by (cases "linkedit l") (auto simp: PlanKept_def Let_def split: if_splits)
  ultimately show ?thesis by (simp add: kept_ok_def)
qed

lemma unat_Align16: "unat v < 2 ^ 64 - 16 \<Longrightarrow> unat (Align16 v) = (unat v + 15) div 16 * 16"
proof -
  assume v: "unat v < 2 ^ 64 - 16"
  have "(unat v + 15) div 16 * 16 \<le> unat v + 15" by simp
  moreover have "unat (v + 15) = unat v + 15" using v by (subst unat_add_nowrap) simp_all
  ultimately show ?thesis using v unfolding Align16_def by (subst unat_mult_nowrap) (simp_all add: unat_div)
qed

text \<open>The sizes, as numbers, when they pass the check against 32 bits.\<close>

definition sizes_ok :: "u64 \<Rightarrow> string \<Rightarrow> u32 \<Rightarrow> PlanSize \<Rightarrow> bool" where
  "sizes_ok kept identity capacity ps \<longleftrightarrow>
     unat (ps_dataoff ps) = (unat kept + 15) div 16 * 16 \<and> unat kept \<le> unat (ps_dataoff ps) \<and>
     unat (ps_code_slots ps) = (unat (ps_dataoff ps) + 4095) div 4096 \<and>
     unat (ps_hash_offset ps) = 89 + length identity \<and>
     unat (ps_cd_size ps) = 89 + length identity + 64 + 32 * unat (ps_code_slots ps) \<and>
     56 + unat (ps_cd_size ps) + unat capacity \<le> unat (ps_datasize ps) \<and>
     unat (ps_dataoff ps + ps_datasize ps) = unat (ps_dataoff ps) + unat (ps_datasize ps) \<and>
     unat (ps_dataoff ps) + unat (ps_datasize ps) < 2 ^ 32"

lemma PlanSizes_ok:
  assumes kept: "unat kept < 2 ^ 63" and ident: "length identity < 2 ^ 63"
    and ok: "\<not> (ps_dataoff ps + ps_datasize ps > UINT32_MAX \<or> ps_cd_size ps > UINT32_MAX)" and ps: "ps = PlanSizes kept identity capacity"
  shows "sizes_ok kept identity capacity ps"
proof -
  have d: "unat (ps_dataoff ps) = (unat kept + 15) div 16 * 16" using kept by (simp add: ps PlanSizes_def Let_def unat_Align16)
  have dk: "unat kept \<le> unat (ps_dataoff ps)" "unat (ps_dataoff ps) \<le> unat kept + 15" using d by auto
  have n: "unat (ps_code_slots ps) = (unat (ps_dataoff ps) + 4095) div 4096"
  proof -
    have "unat (ps_dataoff ps + 4096 - 1) = unat (ps_dataoff ps) + 4095" using dk kept by (simp add: unat_diff_nowrap unat_add_nowrap)
    then show ?thesis by (simp add: ps PlanSizes_def Let_def CS_PAGE_SIZE_def unat_div)
  qed
  have n_le: "unat (ps_code_slots ps) \<le> 2 ^ 52" using n dk kept by simp
  have i: "unat (word_of_nat (length identity) :: u64) = length identity" using ident by (intro unat_of_nat_small) simp
  have h: "unat (ps_hash_offset ps) = 89 + length identity"
    using ident i by (simp add: ps PlanSizes_def Let_def kCodeDirectoryFixedSize_def unat_add_nowrap)
  have slots: "unat (2 + ps_code_slots ps) = 2 + unat (ps_code_slots ps)" using n_le by (subst unat_add_nowrap) simp_all
  have slots32: "unat ((2 + ps_code_slots ps) * 32) = 64 + 32 * unat (ps_code_slots ps)"
    using n_le slots by (subst unat_mult_nowrap) simp_all
  have c: "unat (ps_cd_size ps) = 89 + length identity + 64 + 32 * unat (ps_code_slots ps)"
  proof -
    have "ps_cd_size ps = ps_hash_offset ps + (2 + ps_code_slots ps) * 32" by (simp add: ps PlanSizes_def Let_def kSpecialSlots_def)
    then show ?thesis using ident n_le h slots32 by (simp add: unat_add_nowrap)
  qed
  have c_le: "unat (ps_cd_size ps) < 2 ^ 32" using ok by (auto simp: UINT32_MAX_def word_less_nat_alt)
  have cap: "unat capacity < 2 ^ 32" using unat_u32_less [of capacity] by simp
  have sum: "unat (56 + ps_cd_size ps + ucast capacity :: u64) = 56 + unat (ps_cd_size ps) + unat capacity"
    using c_le cap by (simp add: unat_add_nowrap unat_ucast_u32)
  have "ps_datasize ps = Align16 (56 + ps_cd_size ps + ucast capacity)" by (simp add: ps PlanSizes_def Let_def SuperBlobFixedSize_def)
  then have s: "unat (ps_datasize ps) = (56 + unat (ps_cd_size ps) + unat capacity + 15) div 16 * 16"
    using c_le cap sum by (simp add: unat_Align16)
  have "unat (ps_datasize ps) \<le> 56 + unat (ps_cd_size ps) + unat capacity + 15" unfolding s by simp
  then have s_le: "56 + unat (ps_cd_size ps) + unat capacity \<le> unat (ps_datasize ps)" "unat (ps_datasize ps) < 2 ^ 34"
    using s c_le cap by (linarith, simp)
  have total: "unat (ps_dataoff ps + ps_datasize ps) = unat (ps_dataoff ps) + unat (ps_datasize ps)"
    using dk kept s_le by (intro unat_add_nowrap) simp
  moreover have "unat (ps_dataoff ps + ps_datasize ps) < 2 ^ 32" using ok by (auto simp: UINT32_MAX_def word_less_nat_alt)
  ultimately show ?thesis using d dk n h c s_le by (simp add: sizes_ok_def)
qed

text \<open>Distinct commands do not overlap.\<close>

lemma tiles_disjoint:
  "tiles a cs b \<Longrightarrow> c \<in> set cs \<Longrightarrow> d \<in> set cs \<Longrightarrow> c \<noteq> d \<Longrightarrow>
    unat (lc_offset c) + unat (lc_cmdsize c) \<le> unat (lc_offset d) \<or> unat (lc_offset d) + unat (lc_cmdsize d) \<le> unat (lc_offset c)"
proof (induction cs arbitrary: a)
  case (Cons e cs)
  then have "tiles (a + unat (lc_cmdsize e)) cs b" "unat (lc_offset e) = a" by auto
  then show ?case using Cons.IH [of "a + unat (lc_cmdsize e)"] Cons.prems(2-4) tiles_inside [of "a + unat (lc_cmdsize e)" cs b] by auto
qed simp

definition signature_command :: "SliceLayout \<Rightarrow> nat" where
  "signature_command l = unat (case codesig l of Some sig \<Rightarrow> cs_command_offset sig | None \<Rightarrow> header_end l)"

lemma linkedit_command:
  assumes wf: "slice_wf l" and seg: "linkedit l = Some seg"
  shows "32 \<le> unat (seg_command_offset seg)" "unat (seg_command_offset seg) + 72 \<le> unat (header_end l)"
    "unat (seg_command_offset seg) + 72 \<le> signature_command l \<or> signature_command l + 16 \<le> unat (seg_command_offset seg)"
proof -
  have "named_segment ''__LINKEDIT'' (segments l) = Some seg" using wf seg by (simp add: slice_wf_def parsed_wf_def)
  then have "seg \<in> set (segments l)" by (auto simp: named_segment_def find_Some_iff)
  then obtain c where c: "c \<in> set (commands l)" "lc_offset c = seg_command_offset seg" "72 \<le> unat (lc_cmdsize c)" "lc_cmd c = kLcSegment64"
    using wf by (auto simp: slice_wf_def parsed_wf_def segment_wf_def)
  have t: "tiles 32 (commands l) (unat (header_end l))" using wf unfolding slice_wf_def by blast
  show "32 \<le> unat (seg_command_offset seg)" "unat (seg_command_offset seg) + 72 \<le> unat (header_end l)"
    using tiles_inside [OF t c(1)] c by auto
  show "unat (seg_command_offset seg) + 72 \<le> signature_command l \<or> signature_command l + 16 \<le> unat (seg_command_offset seg)"
  proof (cases "codesig l")
    case None
    then show ?thesis using tiles_inside [OF t c(1)] c by (auto simp: signature_command_def)
  next
    case (Some sig)
    then obtain d where d: "d \<in> set (commands l)" "lc_offset d = cs_command_offset sig" "16 \<le> unat (lc_cmdsize d)" "lc_cmd d = kLcCodeSignature"
      using wf by (auto simp: slice_wf_def parsed_wf_def codesig_wf_def)
    have "c \<noteq> d" using c(4) d(4) by (auto simp: kLcSegment64_def kLcCodeSignature_def)
    from tiles_disjoint [OF t c(1) d(1) this] show ?thesis using c d Some by (auto simp: signature_command_def)
  qed
qed

lemma signature_command_fits:
  assumes wf: "slice_wf l" and k: "kept_ok l kept"
  shows "32 \<le> signature_command l" "signature_command l + 16 \<le> unat kept"
proof -
  have t: "tiles 32 (commands l) (unat (header_end l))" using wf unfolding slice_wf_def by blast
  have "32 \<le> signature_command l \<and> signature_command l + 16 \<le> unat kept"
  proof (cases "codesig l")
    case None
    then show ?thesis using k tiles_le [OF t] by (simp add: signature_command_def kept_ok_def)
  next
    case (Some sig)
    then obtain d where d: "d \<in> set (commands l)" "lc_offset d = cs_command_offset sig" "16 \<le> unat (lc_cmdsize d)"
      using wf by (auto simp: slice_wf_def parsed_wf_def codesig_wf_def)
    then show ?thesis using tiles_inside [OF t d(1)] k Some by (auto simp: signature_command_def kept_ok_def)
  qed
  then show "32 \<le> signature_command l" "signature_command l + 16 \<le> unat kept" by simp_all
qed

definition le32_at :: "bytes \<Rightarrow> nat \<Rightarrow> u32" where
  "le32_at bs off = load_word Little (segment off 4 bs)"

lemma le32_at_overwrite:
  assumes "off + length ys \<le> length xs" "off' + 4 \<le> length xs"
  shows "ys = store_word Little v \<Longrightarrow> off' = off \<Longrightarrow> le32_at (overwrite off ys xs) off' = v"
    and "off' + 4 \<le> off \<or> off + length ys \<le> off' \<Longrightarrow> le32_at (overwrite off ys xs) off' = le32_at xs off'"
  using assms by (simp_all add: le32_at_def segment_overwrite_same segment_overwrite_other load_store_word)

lemma PlanCommand_ok:
  assumes wf: "slice_wf l" and k: "kept_ok l kept" and out: "unat kept \<le> length out" "length out < 2 ^ 63"
  shows "\<exists>out'. PlanCommand l ps out = Inr out' \<and> length out' = length out \<and>
    le32_at out' (signature_command l + 8) = ucast (ps_dataoff ps) \<and> le32_at out' (signature_command l + 12) = ucast (ps_datasize ps)"
proof -
  define at where "at = (case codesig l of Some sig \<Rightarrow> cs_command_offset sig | None \<Rightarrow> header_end l)"
  have at: "32 \<le> unat at" "unat at + 16 \<le> length out" and sc: "signature_command l = unat at"
    using signature_command_fits [OF wf k] out by (simp_all add: signature_command_def at_def)
  have u: "unat (at + 4) = unat at + 4" "unat (at + 8) = unat at + 8" "unat (at + 12) = unat at + 12"
    using at out by (simp_all add: unat_add_nowrap)
  have w: "PlanCommand l ps out = Inr (let
      out1 = (if codesig l \<noteq> None then out else overwrite (unat at + 4) (store_word Little (16 :: u32)) (overwrite (unat at) (store_word Little kLcCodeSignature) out));
      out2 = overwrite (unat at + 12) (store_word Little (ucast (ps_datasize ps) :: u32)) (overwrite (unat at + 8) (store_word Little (ucast (ps_dataoff ps) :: u32)) out1) in
      if codesig l \<noteq> None then out2 else overwrite 20 (store_word Little (ucast (ucast (sizeofcmds l) + 16 :: u64) :: u32)) (overwrite 16 (store_word Little (ncmds l + 1)) out2))"
    unfolding PlanCommand_def Let_def at_def [symmetric] write_eqs using at u by (simp add: write_fits)
  show ?thesis unfolding w sc Let_def using at by (simp add: le32_at_overwrite)
qed

lemma PlanLinkedit_ok:
  assumes wf: "slice_wf (ce_slice e)" and k: "kept_ok (ce_slice e) kept" and out: "unat kept \<le> length out" "length out < 2 ^ 63"
  shows "\<exists>out'. PlanLinkedit e ps out = Inr out' \<and> length out' = length out \<and>
    (\<forall>off. off \<in> {8, 12} \<longrightarrow> le32_at out' (signature_command (ce_slice e) + off) = le32_at out (signature_command (ce_slice e) + off))"
proof -
  obtain seg where seg: "linkedit (ce_slice e) = Some seg" using k by (auto simp: kept_ok_def)
  note s = linkedit_command [OF wf seg]
  have fit: "unat (seg_command_offset seg) + 72 \<le> length out" using s(2) k out by (simp add: kept_ok_def)
  have u: "unat (seg_command_offset seg + 48) = unat (seg_command_offset seg) + 48" "unat (seg_command_offset seg + 32) = unat (seg_command_offset seg) + 32"
    using fit out by (simp_all add: unat_add_nowrap)
  show ?thesis
    unfolding PlanLinkedit_def seg option.case Let_def write_eqs using fit u s(3) signature_command_fits(2) [OF wf k] out
    by (auto simp: write_fits le32_at_overwrite)
qed

section \<open>The CodeDirectory\<close>

definition dir_fields :: "PlanSize \<Rightarrow> bytes \<Rightarrow> bool" where
  "dir_fields ps cd \<longleftrightarrow> be32_at cd 0 = CSMAGIC_CODEDIRECTORY \<and> be32_at cd 4 = ucast (ps_cd_size ps) \<and>
     be32_at cd 16 = ucast (ps_hash_offset ps + 64) \<and> be32_at cd 28 = ucast (ps_code_slots ps) \<and> be32_at cd 32 = ucast (ps_dataoff ps)"

lemma dir_fields_overwrite:
  "36 \<le> off \<Longrightarrow> off + length ys \<le> length cd \<Longrightarrow> dir_fields ps (overwrite off ys cd) = dir_fields ps cd"
  by (simp add: dir_fields_def be32_at_overwrite)

lemma DirectoryHeader_ok:
  assumes n: "88 \<le> n"
  shows "\<exists>cd. DirectoryHeader l ps (replicate n 0) = Inr cd \<and> length cd = n \<and> dir_fields ps cd"
proof -
  define fds :: "(u64 \<times> u32) list" where "fds = [(0, CSMAGIC_CODEDIRECTORY), (4, ucast (ps_cd_size ps)), (8, CS_SUPPORTSEXECSEG), (12, 0),
        (16, ucast (ps_hash_offset ps + ucast kSpecialSlots * 32)), (20, ucast kCodeDirectoryFixedSize),
        (24, kSpecialSlots), (28, ucast (ps_code_slots ps)), (32, ucast (ps_dataoff ps))]"
  define cd0 where "cd0 = concat (map (be \<circ> snd) fds) @ replicate (n - 36) 0"
  have "map (unat \<circ> fst) fds = map (\<lambda>i. length ([] :: bytes) + 4 * i) [0..<length fds]" by (simp add: fds_def)
  from write_fields [OF this, of "n - 36"] n have w: "foldE (\<lambda>cd (at, v). WriteBE32 cd at v) (replicate n 0) fds = Inr cd0"
    by (simp add: fds_def cd0_def)
  have len: "length cd0 = n" using n by (simp add: cd0_def fds_def)
  have base: "dir_fields ps cd0"
    by (simp add: dir_fields_def cd0_def fds_def be32_at_def segment_def be32_load_store kSpecialSlots_def del: take_replicate drop_replicate)
  have rest: "\<exists>cd. bindE (mem_write cd0 36 [32, 2, 0, 12]) (\<lambda>cd.
     bindE (case text_segment l of None \<Rightarrow> Inr cd
            | Some seg \<Rightarrow> bindE (WriteBE64 cd 64 (seg_fileoff seg)) (\<lambda>cd. WriteBE64 cd 72 (seg_filesize seg))) (\<lambda>cd.
     WriteBE64 cd 80 v)) = Inr cd \<and> length cd = n \<and> dir_fields ps cd = dir_fields ps cd0" for v
    using n len by (cases "text_segment l") (simp_all add: write_eqs write_fits dir_fields_overwrite)
  show ?thesis
    using base rest [of "if filetype l = MH_EXECUTE then 1 else 0"] unfolding DirectoryHeader_def w [unfolded fds_def] bindE_simps by auto
qed

text \<open>Page \<open>i\<close> of what comes before the signature, and the hashes that the directory holds.\<close>

definition code_page :: "bytes \<Rightarrow> nat \<Rightarrow> nat \<Rightarrow> bytes" where
  "code_page out limit i = segment (4096 * i) (min 4096 (limit - 4096 * i)) out"

definition hashes_ok :: "(bytes \<Rightarrow> bytes) \<Rightarrow> bytes \<Rightarrow> nat \<Rightarrow> nat \<Rightarrow> bytes \<Rightarrow> nat \<Rightarrow> bool" where
  "hashes_ok sha out limit first cd k \<longleftrightarrow> (\<forall>i < k. segment (first + 32 * i) 32 cd = sha (code_page out limit i))"

lemma copy_hash_eq:
  assumes "length (sha hashed) = 32" and "unat at + 32 \<le> length cd"
  shows "copy_hash sha hashed cd at = Inr (overwrite (unat at) (sha hashed) cd)"
  using assms segment_full [of "sha hashed"] by (simp add: copy_hash_def mem_read_def write_fits)

lemma DirectoryPage_eq:
  assumes ps: "sizes_ok kept identity capacity ps" and i: "i < unat (ps_code_slots ps)" and sha: "\<And>x. length (sha x) = 32"
    and out: "unat (ps_dataoff ps) \<le> length out" and cd: "length cd = unat (ps_cd_size ps)"
  shows "DirectoryPage sha out ps cd i =
    Inr (overwrite (153 + length identity + 32 * i) (sha (code_page out (unat (ps_dataoff ps)) i)) cd)"
proof -
  let ?d = "unat (ps_dataoff ps)" and ?w = "word_of_nat i :: u64"
  have d: "?d < 2 ^ 32" "unat (ps_code_slots ps) = (?d + 4095) div 4096" "unat (ps_hash_offset ps) = 89 + length identity"
    "length identity < 2 ^ 32" "unat (ps_cd_size ps) = 89 + length identity + 64 + 32 * unat (ps_code_slots ps)"
    using ps by (simp_all add: sizes_ok_def)
  have i_less: "4096 * i < ?d" using i d(2) by simp
  have w: "unat ?w = i" using i_less d by (intro unat_of_nat_small) simp
  have start: "unat (?w * CS_PAGE_SIZE) = 4096 * i" using w i_less d by (subst unat_mult_nowrap) (simp_all add: CS_PAGE_SIZE_def)
  have start2: "unat (?w * CS_PAGE_SIZE + CS_PAGE_SIZE) = 4096 * i + 4096"
    using start i_less d by (subst unat_add_nowrap) (simp_all add: CS_PAGE_SIZE_def)
  have stop: "unat (min (?w * CS_PAGE_SIZE + CS_PAGE_SIZE) (ps_dataoff ps)) = min (4096 * i + 4096) ?d"
    using start2 by (simp add: min_def word_le_nat_alt)
  have len: "unat (min (?w * CS_PAGE_SIZE + CS_PAGE_SIZE) (ps_dataoff ps) - ?w * CS_PAGE_SIZE) = min 4096 (?d - 4096 * i)"
  proof -
    have "?w * CS_PAGE_SIZE \<le> min (?w * CS_PAGE_SIZE + CS_PAGE_SIZE) (ps_dataoff ps)"
      unfolding word_le_nat_alt start stop using i_less by simp
    from unat_diff_nowrap [OF this] show ?thesis unfolding start stop by auto
  qed
  have "unat (?w * 32) = 32 * i" using w i_less d by (subst unat_mult_nowrap) simp_all
  then have at: "unat (ps_hash_offset ps + ucast kSpecialSlots * 32 + ?w * 32) = 153 + length identity + 32 * i"
    using d i_less by (simp add: kSpecialSlots_def unat_add_nowrap)
  have fit: "153 + length identity + 32 * i + 32 \<le> length cd" using i d(5) by (simp add: cd)
  have pg: "mem_read out (4096 * i) (min 4096 (?d - 4096 * i)) = Inr (code_page out ?d i)"
    using i_less out by (simp add: mem_read_def code_page_def)
  show ?thesis unfolding DirectoryPage_def Let_def len start pg bindE_simps
    using copy_hash_eq [where sha = sha, OF sha, of "ps_hash_offset ps + ucast kSpecialSlots * 32 + ?w * 32" cd] at fit by simp
qed

lemma DirectoryPages_ok:
  assumes ps: "sizes_ok kept identity capacity ps" and sha: "\<And>x. length (sha x) = 32"
    and out: "unat (ps_dataoff ps) \<le> length out" and cd: "length cd = unat (ps_cd_size ps)" and "k \<le> unat (ps_code_slots ps)"
  shows "\<exists>cd'. foldE (DirectoryPage sha out ps) cd [0..<k] = Inr cd' \<and> length cd' = unat (ps_cd_size ps) \<and>
    dir_fields ps cd' = dir_fields ps cd \<and> hashes_ok sha out (unat (ps_dataoff ps)) (153 + length identity) cd' k"
  using assms(5)
proof (induction k)
  case 0
  then show ?case using cd by (simp add: hashes_ok_def)
next
  case (Suc k)
  then obtain cd' where IH: "foldE (DirectoryPage sha out ps) cd [0..<k] = Inr cd'" "length cd' = unat (ps_cd_size ps)"
    "dir_fields ps cd' = dir_fields ps cd" "hashes_ok sha out (unat (ps_dataoff ps)) (153 + length identity) cd' k" by auto
  have k: "k < unat (ps_code_slots ps)" using Suc.prems by simp
  let ?cd = "overwrite (153 + length identity + 32 * k) (sha (code_page out (unat (ps_dataoff ps)) k)) cd'"
  have fit: "153 + length identity + 32 * k + 32 \<le> length cd'" using k ps by (simp add: IH(2) sizes_ok_def)
  have "foldE (DirectoryPage sha out ps) cd [0..<Suc k] = Inr ?cd"
    by (simp add: foldE_append IH(1) DirectoryPage_eq [OF ps k sha out IH(2)])
  moreover have "hashes_ok sha out (unat (ps_dataoff ps)) (153 + length identity) ?cd (Suc k)"
    using IH(4) fit sha unfolding hashes_ok_def by (auto simp: less_Suc_eq segment_overwrite_same segment_overwrite_other)
  ultimately show ?case using IH(2,3) fit sha by (simp add: dir_fields_overwrite)
qed

lemma BuildDirectory_ok:
  assumes ps: "sizes_ok kept identity capacity ps" and sha: "\<And>x. length (sha x) = 32" and out: "unat (ps_dataoff ps) \<le> length out"
  shows "\<exists>cd. BuildDirectory sha l identity ps out = Inr cd \<and> length cd = unat (ps_cd_size ps) \<and> dir_fields ps cd \<and>
    hashes_ok sha out (unat (ps_dataoff ps)) (153 + length identity) cd (unat (ps_code_slots ps))"
proof -
  have n: "153 + length identity \<le> unat (ps_cd_size ps)" "unat (ps_hash_offset ps) = 89 + length identity" using ps by (simp_all add: sizes_ok_def)
  obtain cd0 where cd0: "DirectoryHeader l ps (replicate (unat (ps_cd_size ps)) 0) = Inr cd0" "length cd0 = unat (ps_cd_size ps)" "dir_fields ps cd0"
    using DirectoryHeader_ok [of "unat (ps_cd_size ps)" l ps] n by auto
  let ?id = "map char_byte identity @ [0]"
  have a: "mem_write cd0 (unat kCodeDirectoryFixedSize) ?id = Inr (overwrite 88 ?id cd0)"
    using n cd0(2) by (simp add: kCodeDirectoryFixedSize_def write_fits)
  have b: "copy_hash sha requirements_blob (overwrite 88 ?id cd0) (ps_hash_offset ps) =
      Inr (overwrite (89 + length identity) (sha requirements_blob) (overwrite 88 ?id cd0))"
    using copy_hash_eq [where sha = sha, OF sha, of "ps_hash_offset ps" "overwrite 88 ?id cd0"] n cd0(2) by simp
  let ?cd = "overwrite (89 + length identity) (sha requirements_blob) (overwrite 88 ?id cd0)"
  have len: "length ?cd = unat (ps_cd_size ps)" and dir: "dir_fields ps ?cd" using n cd0(2,3) sha by (simp_all add: dir_fields_overwrite)
  show ?thesis
    using DirectoryPages_ok [OF ps sha out len order_refl] dir by (simp add: BuildDirectory_def BuildEmptyRequirements_eq cd0(1) a b)
qed

section \<open>A planned slice\<close>

definition plan_ok :: "(bytes \<Rightarrow> bytes) \<Rightarrow> string \<Rightarrow> u32 \<Rightarrow> SliceLayout \<Rightarrow> SlicePlan \<Rightarrow> bool" where
  "plan_ok sha identity capacity l plan \<longleftrightarrow> (\<exists>kept ps. sizes_ok kept identity capacity ps \<and>
     plan_dataoff plan = ps_dataoff ps \<and> plan_datasize plan = ps_datasize ps \<and>
     length (plan_bytes plan) = unat (ps_dataoff ps) + unat (ps_datasize ps) \<and>
     signature_command l + 16 \<le> unat (ps_dataoff ps) \<and>
     le32_at (plan_bytes plan) (signature_command l + 8) = ucast (ps_dataoff ps) \<and>
     le32_at (plan_bytes plan) (signature_command l + 12) = ucast (ps_datasize ps) \<and>
     length (plan_code_directory plan) = unat (ps_cd_size ps) \<and> dir_fields ps (plan_code_directory plan) \<and>
     hashes_ok sha (plan_bytes plan) (unat (ps_dataoff ps)) (153 + length identity) (plan_code_directory plan) (unat (ps_code_slots ps)))"

lemma PlanSlice_ok:
  assumes e: "entry_wf (length bs) e" "support (ce_slice e) = Supported" and bs: "length bs < 2 ^ 63" and ident: "length identity < 2 ^ 63"
    and sha: "\<And>x. length (sha x) = 32"
  shows "throws (PlanSlice sha name universal bs identity capacity (e, i))"
    and "PlanSlice sha name universal bs identity capacity (e, i) = Inr plan \<Longrightarrow> plan_ok sha identity capacity (ce_slice e) plan"
    and "PlanKept (RefuseSlice name universal i (ce_cputype e)) (ce_slice e) identity = Inr kept \<Longrightarrow> ps = PlanSizes kept identity capacity \<Longrightarrow>
      \<not> (ps_dataoff ps + ps_datasize ps > UINT32_MAX \<or> ps_cd_size ps > UINT32_MAX) \<Longrightarrow>
      \<exists>plan. PlanSlice sha name universal bs identity capacity (e, i) = Inr plan"
proof -
  let ?l = "ce_slice e" and ?refuse = "RefuseSlice name universal i (ce_cputype e) :: string \<Rightarrow> u64 res"
  have wf: "slice_wf ?l" and inside: "unat (ce_offset e) + unat (sl_size ?l) \<le> length bs" using e by (simp_all add: entry_wf_def)
  have no: "\<exists>x. ?refuse m = Inl x" for m by (simp add: RefuseSlice_def Refuse_def)
  have main: "\<exists>program out out' cd. mem_read bs (unat (ce_offset e)) (unat kept) = Inr program \<and>
      PlanCommand ?l ps (resize (unat (ps_dataoff ps + ps_datasize ps)) program) = Inr out \<and> PlanLinkedit e ps out = Inr out' \<and>
      BuildDirectory sha ?l identity ps out' = Inr cd \<and>
      plan_ok sha identity capacity ?l \<lparr>plan_cpu_type = ce_cputype e, plan_cpu_subtype = ce_cpusubtype e, plan_bytes = out',
          plan_dataoff = ps_dataoff ps, plan_datasize = ps_datasize ps, plan_code_directory = cd, plan_cd_hash = sha cd\<rparr>"
    if run: "PlanKept ?refuse ?l identity = Inr kept" and ps: "ps = PlanSizes kept identity capacity"
      and small: "\<not> (ps_dataoff ps + ps_datasize ps > UINT32_MAX \<or> ps_cd_size ps > UINT32_MAX)" for kept ps
  proof -
    have k: "kept_ok ?l kept" by (rule PlanKept_Inr [OF wf run no])
    have fits: "unat (ce_offset e) + unat kept \<le> length bs" using k inside by (simp add: kept_ok_def)
    have sizes: "sizes_ok kept identity capacity ps"
      using PlanSizes_ok [OF _ ident small ps] fits bs by simp
    let ?program = "segment (unat (ce_offset e)) (unat kept) bs" and ?n = "unat (ps_dataoff ps) + unat (ps_datasize ps)"
    have n: "unat (ps_dataoff ps + ps_datasize ps) = ?n" "unat kept \<le> unat (ps_dataoff ps)" "?n < 2 ^ 32" using sizes by (simp_all add: sizes_ok_def)
    have len: "length (resize ?n ?program) = ?n" using n fits by (simp add: resize_def)
    have out: "unat kept \<le> length (resize ?n ?program)" "length (resize ?n ?program) < 2 ^ 63" using n(2,3) unfolding len by simp_all
    from PlanCommand_ok [OF wf k out] obtain out1 where out1: "PlanCommand ?l ps (resize ?n ?program) = Inr out1" "length out1 = ?n"
      "le32_at out1 (signature_command ?l + 8) = ucast (ps_dataoff ps)" "le32_at out1 (signature_command ?l + 12) = ucast (ps_datasize ps)"
      unfolding len by blast
    have "unat kept \<le> length out1" "length out1 < 2 ^ 63" using n(2,3) unfolding out1(2) by simp_all
    from PlanLinkedit_ok [OF wf k this, of ps] obtain out2 where out2: "PlanLinkedit e ps out1 = Inr out2" "length out2 = ?n"
      "le32_at out2 (signature_command ?l + 8) = ucast (ps_dataoff ps)" "le32_at out2 (signature_command ?l + 12) = ucast (ps_datasize ps)"
      using out1 by auto
    have "unat (ps_dataoff ps) \<le> length out2" by (simp add: out2(2))
    from BuildDirectory_ok [where sha = sha, OF sizes sha this, of ?l] obtain cd where cd: "BuildDirectory sha ?l identity ps out2 = Inr cd"
      "length cd = unat (ps_cd_size ps)" "dir_fields ps cd"
      "hashes_ok sha out2 (unat (ps_dataoff ps)) (153 + length identity) cd (unat (ps_code_slots ps))" by blast
    have "signature_command ?l + 16 \<le> unat (ps_dataoff ps)" using signature_command_fits(2) [OF wf k] n(2) by simp
    then show ?thesis
      using out1(1) out2 cd sizes fits unfolding plan_ok_def n(1) by (auto simp: mem_read_def)
  qed
  show "throws (PlanSlice sha name universal bs identity capacity (e, i))"
    unfolding PlanSlice_def Let_def prod.case
  proof (rule throws_bind, goal_cases)
    case 1
    show ?case by (intro throws_PlanKept throws_simps)
  next
    case (2 kept)
    show ?case
    proof (rule throws_if, goal_cases)
      case 2
      from main [OF \<open>PlanKept ?refuse ?l identity = Inr kept\<close> refl 2] show ?case by (auto simp: throws_simps)
    qed (rule throws_simps)
  qed
  show "\<exists>plan. PlanSlice sha name universal bs identity capacity (e, i) = Inr plan"
    if "PlanKept ?refuse ?l identity = Inr kept" and "ps = PlanSizes kept identity capacity"
      and "\<not> (ps_dataoff ps + ps_datasize ps > UINT32_MAX \<or> ps_cd_size ps > UINT32_MAX)"
    using main [OF that] that by (auto simp: PlanSlice_def Let_def)
  show "plan_ok sha identity capacity ?l plan" if run: "PlanSlice sha name universal bs identity capacity (e, i) = Inr plan"
  proof -
    from run obtain kept where kept: "PlanKept ?refuse ?l identity = Inr kept" by (auto simp: PlanSlice_def Let_def)
    then have small: "\<not> (ps_dataoff (PlanSizes kept identity capacity) + ps_datasize (PlanSizes kept identity capacity) > UINT32_MAX \<or>
        ps_cd_size (PlanSizes kept identity capacity) > UINT32_MAX)"
      using run by (auto simp: PlanSlice_def Let_def RefuseSlice_def Refuse_def split: if_splits)
    from main [OF kept refl small] show ?thesis using run small kept by (auto simp: PlanSlice_def Let_def)
  qed
qed

end
