(* ===== verification/Macho_Complete.thy ===== *)
theory Macho_Complete
  imports Macho_Signer_Spec
begin

text \<open>
  Putting the parts of the Mach-O signer together: the finished slice, the universal file around the slices, and the
  properties of \<open>CompleteSignature\<close>, \<open>PrepareSignature\<close> and \<open>StripSignature\<close>.
\<close>

section \<open>A finished slice\<close>

text \<open>
  What a verifier of code signatures looks at: the signature command names the end of the program, a SuperBlob begins there, it
  holds the CMS signature and a CodeDirectory, and that directory has the hash of every page of what comes before.
\<close>

definition verifies :: "ByteOrder \<Rightarrow> (bytes \<Rightarrow> bytes) \<Rightarrow> nat \<Rightarrow> bytes \<Rightarrow> bytes \<Rightarrow> bool" where
  "verifies host sha command cms program \<longleftrightarrow> (\<exists>cd.
     let limit = unat (le32_at program (command + 8)) in
     command + 16 \<le> limit \<and> limit + unat (le32_at program (command + 12)) = length program \<and>
     ExtractCmsFromSuperBlob host (drop limit program) = Inr (Some cms) \<and>
     ExtractCodeDirectoryFromSuperBlob host (drop limit program) = Inr (Some cd) \<and>
     unat (be32_at cd 32) = limit \<and> unat (be32_at cd 28) = (limit + 4095) div 4096 \<and>
     hashes_ok sha program limit (unat (be32_at cd 16)) cd (unat (be32_at cd 28)))"

lemma unat_down: "unat (v :: u64) < 2 ^ 32 \<Longrightarrow> unat (ucast v :: u32) = unat v"
  by (simp add: unsigned_ucast_eq take_bit_eq_mod)

lemma FinishSlice_ok:
  assumes plan: "plan_ok sha identity capacity l plan" and cms: "length cms \<le> unat capacity"
  shows "\<exists>out. FinishSlice (plan, cms) = Inr out \<and> length out < 2 ^ 32 \<and> verifies host sha (signature_command l) cms out"
proof -
  obtain kept ps where sizes: "sizes_ok kept identity capacity ps" and p: "plan_dataoff plan = ps_dataoff ps"
    "length (plan_bytes plan) = unat (ps_dataoff ps) + unat (ps_datasize ps)" "signature_command l + 16 \<le> unat (ps_dataoff ps)"
    "le32_at (plan_bytes plan) (signature_command l + 8) = ucast (ps_dataoff ps)"
    "le32_at (plan_bytes plan) (signature_command l + 12) = ucast (ps_datasize ps)"
    "length (plan_code_directory plan) = unat (ps_cd_size ps)" "dir_fields ps (plan_code_directory plan)"
    "hashes_ok sha (plan_bytes plan) (unat (ps_dataoff ps)) (153 + length identity) (plan_code_directory plan) (unat (ps_code_slots ps))"
    using plan by (auto simp: plan_ok_def)
  let ?d = "unat (ps_dataoff ps)" and ?cd = "plan_code_directory plan" and ?blob = "super_blob (plan_code_directory plan) cms"
  have s: "?d + unat (ps_datasize ps) < 2 ^ 32" "56 + unat (ps_cd_size ps) + length cms \<le> unat (ps_datasize ps)"
    "unat (ps_code_slots ps) = (?d + 4095) div 4096" "unat (ps_hash_offset ps) = 89 + length identity"
    "unat (ps_cd_size ps) = 153 + length identity + 32 * unat (ps_code_slots ps)"
    using sizes cms unfolding sizes_ok_def by (elim conjE, linarith)+
  define out where "out = overwrite ?d ?blob (plan_bytes plan)"
  have fit: "?d + length ?blob \<le> length (plan_bytes plan)" using s(2) p(2,6) by simp
  have run: "FinishSlice (plan, cms) = Inr out"
    using fit by (simp add: FinishSlice_def BuildSuperBlob_eq mem_write_def p(1) out_def)
  have len: "length out = ?d + unat (ps_datasize ps)" using fit p(2) by (simp add: out_def)
  have front: "segment off n out = segment off n (plan_bytes plan)" if "off + n \<le> ?d" for off n
    using segment_overwrite_other [OF fit, of off n] that p(2) by (simp add: out_def)
  have fields: "le32_at out (signature_command l + 8) = ucast (ps_dataoff ps)" "le32_at out (signature_command l + 12) = ucast (ps_datasize ps)"
    using front [of "signature_command l + 8" 4] front [of "signature_command l + 12" 4] p(3-5) by (simp_all add: le32_at_def)
  have limit: "unat (ucast (ps_dataoff ps) :: u32) = ?d" "unat (ucast (ps_datasize ps) :: u32) = unat (ps_datasize ps)"
    "unat (ucast (ps_code_slots ps) :: u32) = unat (ps_code_slots ps)" "unat (ucast (ps_cd_size ps) :: u32) = unat (ps_cd_size ps)"
    by (rule unat_down, use s in linarith)+
  have "unat (ps_hash_offset ps + 64) = 153 + length identity" using s by (subst unat_add_nowrap) simp_all
  then have first: "unat (ucast (ps_hash_offset ps + 64) :: u32) = 153 + length identity"
    using s by (subst unat_down) simp_all
  define rest where "rest = drop (?d + length ?blob) (plan_bytes plan)"
  have tail: "drop ?d out = ?blob @ rest" using fit by (simp add: out_def rest_def overwrite_def)
  have rest: "length rest < 2 ^ 63" using p(2) s(1) by (simp add: rest_def)
  have cd: "8 \<le> length ?cd" "be32_at ?cd 0 = CSMAGIC_CODEDIRECTORY" "be32_at ?cd 4 = word_of_nat (length ?cd)"
  proof -
    show "8 \<le> length ?cd" using p(6) s(5) by simp
    show "be32_at ?cd 0 = CSMAGIC_CODEDIRECTORY" "be32_at ?cd 4 = word_of_nat (length ?cd)"
      using p(7) unfolding p(6) dir_fields_def by simp_all
  qed
  have small: "56 + length ?cd + length cms < 2 ^ 32" using s(1,2) p(6) by simp
  have "code_page out ?d i = code_page (plan_bytes plan) ?d i" for i
  proof (cases "4096 * i \<le> ?d")
    case True
    then have "4096 * i + min 4096 (?d - 4096 * i) \<le> ?d" by arith
    then show ?thesis unfolding code_page_def by (rule front)
  qed (simp add: code_page_def segment_def)
  then have "hashes_ok sha out ?d (153 + length identity) ?cd (unat (ps_code_slots ps))" using p(8) by (simp add: hashes_ok_def)
  then have "verifies host sha (signature_command l) cms out"
    unfolding verifies_def Let_def fields limit tail
    using Extract_built [OF small rest cd, of host] p(3,7) limit first s(3) len by (auto simp: dir_fields_def)
  then show ?thesis using run len s(1) by auto
qed

section \<open>Universal files\<close>

lemma unat_AlignUp:
  assumes n: "n < 32" and c: "unat cursor < 2 ^ 64 - 2 ^ 33"
  shows "unat cursor \<le> unat (AlignUp cursor (push_bit n 1)) \<and> unat (AlignUp cursor (push_bit n 1)) \<le> unat cursor + 2 ^ 32"
proof -
  let ?u = "push_bit n 1 :: u64"
  have pos: "0 < (2 :: nat) ^ n" by simp
  have le: "(2 :: nat) ^ n \<le> 2 ^ 31" using n by (intro power_increasing) simp_all
  have u: "unat ?u = 2 ^ n" 
  proof -
    have "?u = word_of_nat (2 ^ n)" by (simp add: push_bit_eq_mult)
    then show ?thesis using unat_of_nat_small [of "2 ^ n", where 'a = 64] le by simp
  qed
  have "?u \<noteq> 0" using u pos by (metis less_irrefl unsigned_0)
  have a: "unat (cursor + ?u) = unat cursor + 2 ^ n" using c le u by (subst unat_add_nowrap) simp_all
  have b: "unat (cursor + ?u - 1) = unat cursor + 2 ^ n - 1"
    using a pos by (subst unat_diff_nowrap) (simp_all add: word_le_nat_alt Suc_le_eq trans_less_add2)
  define q where "q = (unat cursor + 2 ^ n - 1) div 2 ^ n"
  have hi: "q * 2 ^ n \<le> unat cursor + 2 ^ n - 1" by (simp add: q_def)
  have lo: "unat cursor \<le> q * 2 ^ n"
  proof -
    have "unat cursor + 2 ^ n - 1 < (q + 1) * 2 ^ n"
      unfolding q_def using pos by (metis Suc_eq_plus1 dividend_less_div_times mult.commute mult_Suc_right)
    then show ?thesis using pos by (simp add: algebra_simps)
  qed
  have d: "unat ((cursor + ?u - 1) div ?u) = q" by (simp only: unat_div b u q_def)
  have "unat (AlignUp cursor ?u) = q * 2 ^ n"
    unfolding AlignUp_def using hi c le by (subst unat_mult_nowrap) (simp_all only: d u, simp)
  then show ?thesis using hi lo le by simp
qed

text \<open>Where the slices are put: in the order of the file, one after the other.\<close>

definition placed :: "bytes list \<Rightarrow> nat \<Rightarrow> nat \<Rightarrow> nat list \<Rightarrow> u64 list \<times> u64 \<times> u64 \<Rightarrow> bool" where
  "placed slices first n ord st \<longleftrightarrow> (case st of (offsets, cursor, old_end) \<Rightarrow>
     (\<forall>i \<in> set ord. first \<le> unat (offsets ! i) \<and> unat (offsets ! i) + length (slices ! i) \<le> unat cursor) \<and>
     sorted_wrt (\<lambda>i j. unat (offsets ! i) + length (slices ! i) \<le> unat (offsets ! j)) ord \<and>
     first \<le> unat cursor \<and> unat cursor \<le> first + length ord * 2 ^ 55 \<and> unat old_end \<le> n)"

lemma PlaceSlices_ok:
  assumes es: "\<forall>e \<in> set es. entry_wf n e" and n: "n < 2 ^ 62" and slices: "\<forall>s \<in> set slices. length s < 2 ^ 54" "length slices = length es"
    and first: "unat first \<le> n" and ord: "distinct ord" "set ord \<subseteq> {..<length es}" "length ord \<le> 256"
  shows "throws (foldE (PlaceSlice name wide es slices) (replicate (length es) 0, first, 0) ord) \<and>
    (\<forall>st. foldE (PlaceSlice name wide es slices) (replicate (length es) 0, first, 0) ord = Inr st \<longrightarrow>
      length (fst st) = length es \<and> placed slices (unat first) n ord st \<and>
      (\<not> wide \<longrightarrow> ord \<noteq> [] \<longrightarrow> unat (fst (snd st)) < 2 ^ 32))"
  using ord
proof (induction ord rule: rev_induct)
  case Nil
  then show ?case using first by (simp add: placed_def throws_simps)
next
  case (snoc i ord)
  let ?run = "foldE (PlaceSlice name wide es slices) (replicate (length es) 0, first, 0) ord"
  have IH: "throws ?run" "\<And>st. ?run = Inr st \<Longrightarrow> length (fst st) = length es \<and> placed slices (unat first) n ord st"
    using snoc by auto
  have i: "i < length es" "i \<notin> set ord" using snoc.prems by auto
  have old: "unat (ce_offset (es ! i) + ce_size (es ! i)) \<le> n"
  proof -
    have "unat (ce_offset (es ! i)) + unat (ce_size (es ! i)) \<le> n" using es nth_mem [OF i(1)] by (simp add: entry_wf_def)
    then show ?thesis using n by (subst unat_add_nowrap) simp_all
  qed
  have si: "length (slices ! i) < 2 ^ 54" using slices i(1) by simp
  have step: "throws (PlaceSlice name wide es slices st i) \<and> (\<forall>st'. PlaceSlice name wide es slices st i = Inr st' \<longrightarrow>
      length (fst st') = length es \<and> placed slices (unat first) n (ord @ [i]) st' \<and> (\<not> wide \<longrightarrow> unat (fst (snd st')) < 2 ^ 32))"
    if "?run = Inr st" for st
  proof -
    obtain offsets cursor old_end where st: "st = (offsets, cursor, old_end)" by (cases st)
    have len: "length offsets = length es" and p: "placed slices (unat first) n ord (offsets, cursor, old_end)"
      using IH(2) [OF that] by (simp_all add: st)
    have cur: "unat first \<le> unat cursor" "unat cursor \<le> unat first + length ord * 2 ^ 55" "unat old_end \<le> n"
      using p by (simp_all add: placed_def)
    have few: "length ord \<le> 255" using snoc.prems(3) by simp
    show ?thesis
    proof (cases "ce_align (es ! i) \<ge> 32")
      case True
      then show ?thesis by (simp add: PlaceSlice_def st Let_def Refuse_def throws_simps)
    next
      case False
      let ?o = "AlignUp cursor (push_bit (unat (ce_align (es ! i))) 1)"
      let ?c = "?o + word_of_nat (length (slices ! i))"
      have "unat (ce_align (es ! i)) < 32" using False by (simp add: word_le_nat_alt)
      moreover have "unat cursor < 2 ^ 64 - 2 ^ 33" using cur(2) first n few by simp
      ultimately have o: "unat cursor \<le> unat ?o" "unat ?o \<le> unat cursor + 2 ^ 32" using unat_AlignUp by blast+
      have w: "unat (word_of_nat (length (slices ! i)) :: u64) = length (slices ! i)" using si by (intro unat_of_nat_small) simp
      have c: "unat ?c = unat ?o + length (slices ! i)"
        using w o cur(2) first n few si by (subst unat_add_nowrap) simp_all
      have run: "PlaceSlice name wide es slices st i = (if \<not> wide \<and> ?c > UINT32_MAX then
          Refuse name (''slice '' @ dec i @ '' ('' @ ArchName (ce_cputype (es ! i)) @ '') would end at offset '' @
            to_string ?c @ '', past what a 32-bit universal table can describe'')
        else Inr (offsets[i := ?o], ?c, max old_end (ce_offset (es ! i) + ce_size (es ! i))))"
        using False by (simp add: PlaceSlice_def st Let_def)
      have same: "offsets[i := ?o] ! j = offsets ! j" if "j \<in> set ord" for j using that i(2) by (metis nth_list_update_neq)
      have here: "offsets[i := ?o] ! i = ?o" using i(1) len by simp
      have p': "placed slices (unat first) n (ord @ [i]) (offsets[i := ?o], ?c, max old_end (ce_offset (es ! i) + ce_size (es ! i)))"
      proof -
        have a: "\<forall>j \<in> set ord. unat first \<le> unat (offsets ! j) \<and> unat (offsets ! j) + length (slices ! j) \<le> unat cursor"
          and b: "sorted_wrt (\<lambda>i j. unat (offsets ! i) + length (slices ! i) \<le> unat (offsets ! j)) ord" using p by (simp_all add: placed_def)
        have "sorted_wrt (\<lambda>j k. unat (offsets[i := ?o] ! j) + length (slices ! j) \<le> unat (offsets[i := ?o] ! k)) ord"
          using b same by (metis (mono_tags, lifting) sorted_wrt_mono_rel)
        moreover have "\<forall>j \<in> set ord. unat (offsets[i := ?o] ! j) + length (slices ! j) \<le> unat ?o"
          using a same o(1) by fastforce
        moreover have "unat (max old_end (ce_offset (es ! i) + ce_size (es ! i))) \<le> n" using cur(3) old by (simp add: max_def)
        moreover have "unat ?c \<le> unat first + Suc (length ord) * 2 ^ 55" using c o(2) cur(2) si by simp
        ultimately show ?thesis using a same here o(1) c cur(1) unfolding placed_def prod.case sorted_wrt_append by fastforce
      qed
      have "unat ?c < 2 ^ 32" if "\<not> ?c > UINT32_MAX" using that by (simp add: UINT32_MAX_def word_less_nat_alt)
      then show ?thesis unfolding run using p' len by (auto simp: throws_simps Refuse_def)
    qed
  qed
  show ?case
  proof (cases ?run)
    case (Inl e)
    then show ?thesis using IH(1) by (auto simp: foldE_append throws_def)
  next
    case (Inr st)
    then show ?thesis using step [OF Inr] by (auto simp: foldE_append throws_simps bindE_Inr_iff bindE_def intro: throws_simps split: sum.splits)
  qed
qed

text \<open>Appending the slices at their offsets.\<close>

definition holds_slices :: "bytes list \<Rightarrow> u64 list \<Rightarrow> nat list \<Rightarrow> bytes \<Rightarrow> bool" where
  "holds_slices slices offsets ord out \<longleftrightarrow> (\<forall>i \<in> set ord. unat (offsets ! i) + length (slices ! i) \<le> length out \<and>
     segment (unat (offsets ! i)) (length (slices ! i)) out = slices ! i)"

lemma resize_grow: "length xs \<le> n \<Longrightarrow> resize n xs = xs @ replicate (n - length xs) 0"
  by (simp add: resize_def)

lemma segment_prefix: "off + n \<le> length xs \<Longrightarrow> segment off n (xs @ ys) = segment off n xs"
  by (simp add: segment_def)

lemma append_slices:
  assumes "sorted_wrt (\<lambda>i j. unat (offsets ! i) + length (slices ! i) \<le> unat (offsets ! j)) ord"
    and "\<forall>i \<in> set ord. length head \<le> unat (offsets ! i)"
  shows "let out = foldl (\<lambda>out i. resize (unat (offsets ! i)) out @ slices ! i) head ord in
    holds_slices slices offsets ord out \<and> length head \<le> length out \<and>
    length out = (if ord = [] then length head else unat (offsets ! List.last ord) + length (slices ! List.last ord))"
  using assms
proof (induction ord rule: rev_induct)
  case (snoc i ord)
  define out where "out = foldl (\<lambda>out i. resize (unat (offsets ! i)) out @ slices ! i) head ord"
  have IH: "holds_slices slices offsets ord out" "length head \<le> length out"
    "length out = (if ord = [] then length head else unat (offsets ! List.last ord) + length (slices ! List.last ord))"
    using snoc by (simp_all add: out_def sorted_wrt_append Let_def)
  have le: "length out \<le> unat (offsets ! i)"
    using snoc.prems IH(3) last_in_set [of ord] by (auto simp: sorted_wrt_append)
  define out' where "out' = (out @ replicate (unat (offsets ! i) - length out) 0) @ slices ! i"
  have "holds_slices slices offsets (ord @ [i]) out'"
    using IH(1) le unfolding holds_slices_def out'_def by (auto simp: segment_prefix) (simp add: segment_def)
  then show ?case using le IH(2) by (simp add: out_def [symmetric] resize_grow Let_def out'_def)
qed (simp add: holds_slices_def)

text \<open>The table at the front names the slices.\<close>

definition be64_at :: "bytes \<Rightarrow> nat \<Rightarrow> u64" where
  "be64_at bs off = load_word Big (segment off 8 bs)"

definition table_entry :: "ContainerForm \<Rightarrow> bytes \<Rightarrow> nat \<Rightarrow> nat \<times> nat" where
  "table_entry f out i = (case f of
     Thin \<Rightarrow> (0, length out)
   | Fat32 \<Rightarrow> (unat (be32_at out (16 + 20 * i)), unat (be32_at out (20 + 20 * i)))
   | Fat64 \<Rightarrow> (unat (be64_at out (16 + 32 * i)), unat (be64_at out (24 + 32 * i))))"

lemma be64_at_overwrite:
  assumes "off + length ys \<le> length xs" "off' + 8 \<le> length xs"
  shows "ys = store_word Big v \<Longrightarrow> off' = off \<Longrightarrow> be64_at (overwrite off ys xs) off' = v"
    and "off' + 8 \<le> off \<or> off + length ys \<le> off' \<Longrightarrow> be64_at (overwrite off ys xs) off' = be64_at xs off'"
  using assms by (simp_all add: be64_at_def segment_overwrite_same segment_overwrite_other load_store_word)

lemma WriteTable_ok:
  assumes room: "8 + (if wide then 32 else 20) * count \<le> first" "first \<le> length out" and count: "count \<le> 256"
    and ranges: "\<forall>i < count. length (slices ! i) < 2 ^ 54 \<and> (\<not> wide \<longrightarrow> unat (offsets ! i) < 2 ^ 32 \<and> length (slices ! i) < 2 ^ 32)" and k: "k \<le> count"
  shows "\<exists>out'. foldE (WriteTableEntry wide offsets slices) out [0..<k] = Inr out' \<and> length out' = length out \<and>
    (\<forall>off n. first \<le> off \<and> off + n \<le> length out \<longrightarrow> segment off n out' = segment off n out) \<and>
    (\<forall>i < k. table_entry (if wide then Fat64 else Fat32) out' i = (unat (offsets ! i), length (slices ! i)))"
  using k
proof (induction k)
  case (Suc k)
  then obtain out' where IH: "foldE (WriteTableEntry wide offsets slices) out [0..<k] = Inr out'" "length out' = length out"
    "\<forall>off n. first \<le> off \<and> off + n \<le> length out \<longrightarrow> segment off n out' = segment off n out"
    "\<forall>i < k. table_entry (if wide then Fat64 else Fat32) out' i = (unat (offsets ! i), length (slices ! i))" by auto
  let ?e = "if wide then 32 else 20 :: nat"
  have fit: "8 + ?e * k + ?e \<le> first" using room(1) Suc.prems by (cases wide) auto
  have k: "k \<le> 255" using Suc.prems count by simp
  have w: "unat (word_of_nat k :: u64) = k" using k by (intro unat_of_nat_small) simp
  have e: "unat (word_of_nat k * (if wide then 32 else 20) :: u64) = k * ?e"
    using w k by (subst unat_mult_nowrap) (simp_all split: if_splits)
  have at0: "unat (8 + word_of_nat k * (if wide then 32 else 20) :: u64) = 8 + ?e * k"
    using e k by (subst unat_add_nowrap) (simp_all split: if_splits)
  have at: "unat (8 + word_of_nat k * (if wide then 32 else 20) + word_of_nat c :: u64) = 8 + ?e * k + c" if "c \<le> 16" for c
  proof -
    have "unat (word_of_nat c :: u64) = c" using that by (intro unat_of_nat_small) simp
    then show ?thesis using at0 k that by (subst unat_add_nowrap) (simp_all split: if_splits)
  qed
  have r: "length (slices ! k) < 2 ^ 54" "\<not> wide \<Longrightarrow> unat (offsets ! k) < 2 ^ 32" "\<not> wide \<Longrightarrow> length (slices ! k) < 2 ^ 32"
    using ranges Suc.prems by auto
  have lens: "unat (word_of_nat (length (slices ! k)) :: u64) = length (slices ! k)"
    "\<not> wide \<Longrightarrow> unat (word_of_nat (length (slices ! k)) :: u32) = length (slices ! k)" using r(1,3) by (intro unat_of_nat_small; simp)+
  show ?case
  proof (cases wide)
    case True
    let ?o1 = "overwrite (16 + 32 * k) (store_word Big (offsets ! k)) out'"
    let ?o2 = "overwrite (24 + 32 * k) (store_word Big (word_of_nat (length (slices ! k)) :: u64)) ?o1"
    have f: "24 + 32 * k + 8 \<le> length out'" using fit room(2) True by (simp add: IH(2))
    have run: "WriteTableEntry wide offsets slices out' k = Inr ?o2"
      using True at [of 8] at [of 16] f by (simp add: WriteTableEntry_def Let_def write_eqs write_fits add.commute)
    have "table_entry Fat64 ?o2 i = (unat (offsets ! i), length (slices ! i))" if "i < Suc k" for i
    proof (cases "i = k")
      case True
      then show ?thesis using f lens by (simp add: table_entry_def be64_at_overwrite)
    next
      case False
      then show ?thesis using f IH(4) that True \<open>wide\<close> by (auto simp: table_entry_def be64_at_overwrite)
    qed
    moreover have "segment off n ?o2 = segment off n out" if "first \<le> off" "off + n \<le> length out" for off n
      using that f fit IH(2,3) True by (simp add: segment_overwrite_other)
    ultimately show ?thesis using True IH(1,2) f run by (simp add: foldE_append)
  next
    case False
    let ?o1 = "overwrite (16 + 20 * k) (store_word Big (ucast (offsets ! k) :: u32)) out'"
    let ?o2 = "overwrite (20 + 20 * k) (store_word Big (word_of_nat (length (slices ! k)) :: u32)) ?o1"
    have f: "20 + 20 * k + 4 \<le> length out'" using fit room(2) False by (simp add: IH(2))
    have run: "WriteTableEntry wide offsets slices out' k = Inr ?o2"
      using False at [of 8] at [of 12] f by (simp add: WriteTableEntry_def Let_def write_eqs write_fits add.commute)
    have o: "unat (ucast (offsets ! k) :: u32) = unat (offsets ! k)" using r(2) False by (intro unat_down) simp
    have "table_entry Fat32 ?o2 i = (unat (offsets ! i), length (slices ! i))" if "i < Suc k" for i
    proof (cases "i = k")
      case True
      then show ?thesis using f lens(2) \<open>\<not> wide\<close> o by (simp add: table_entry_def be32_at_overwrite)
    next
      case False
      then show ?thesis using f IH(4) that \<open>\<not> wide\<close> by (auto simp: table_entry_def be32_at_overwrite)
    qed
    moreover have "segment off n ?o2 = segment off n out" if "first \<le> off" "off + n \<le> length out" for off n
      using that f fit IH(2,3) False by (simp add: segment_overwrite_other)
    ultimately show ?thesis using False IH(1,2) f run by (simp add: foldE_append)
  qed
qed simp

lemma AssembleUniversal_ok:
  assumes wf: "container_wf (length bs) c" and fat: "form c \<noteq> Thin" and bs: "length bs < 2 ^ 62"
    and slices: "\<forall>s \<in> set slices. length s < 2 ^ 54" "length slices = length (entries c)"
  shows "throws (AssembleUniversal name bs c slices)"
    and "AssembleUniversal name bs c slices = Inr out \<Longrightarrow> \<forall>i < length slices. table_entry (form c) out i =
      (fst (table_entry (form c) out i), length (slices ! i)) \<and> fst (table_entry (form c) out i) + length (slices ! i) \<le> length out \<and>
      segment (fst (table_entry (form c) out i)) (length (slices ! i)) out = slices ! i"
proof -
  let ?es = "entries c" and ?wide = "form c = Fat64"
  have w: "?es \<noteq> []" "length ?es \<le> 256" "\<forall>e \<in> set ?es. entry_wf (length bs) e" "\<forall>e \<in> set ?es. table_bytes c \<le> unat (ce_offset e)"
    using wf by (auto simp: container_wf_def)
  obtain i0 ord' where ord: "by_offset ?es = i0 # ord'" using w(1) by_offset_perm(2) [of ?es] by (cases "by_offset ?es") auto
  let ?first = "ce_offset (?es ! i0)"
  have perm: "set (by_offset ?es) = {..<length ?es}" "distinct (by_offset ?es)" "length (by_offset ?es) = length ?es"
    using by_offset_perm [of ?es] by auto
  then have i0: "i0 < length ?es" by (auto simp: ord)
  have first: "unat ?first \<le> length bs" "8 + (if ?wide then 32 else 20) * length ?es \<le> unat ?first"
    using w(3,4) nth_mem [OF i0] fat by (auto simp: entry_wf_def table_bytes_def split: ContainerForm.splits)
  let ?run = "foldE (PlaceSlice name ?wide ?es slices) (replicate (length ?es) 0, ?first, 0) (by_offset ?es)"
  have sub: "set (by_offset ?es) \<subseteq> {..<length ?es}" "length (by_offset ?es) \<le> 256" using perm w(2) by auto
  note place = PlaceSlices_ok [OF w(3) bs slices first(1) perm(2) sub, of name ?wide]
  have main: "\<exists>out. AssembleUniversal name bs c slices = Inr out \<and> (\<forall>i < length slices.
      table_entry (form c) out i = (unat (offsets ! i), length (slices ! i)) \<and> unat (offsets ! i) + length (slices ! i) \<le> length out \<and>
      segment (unat (offsets ! i)) (length (slices ! i)) out = slices ! i)"
    if run: "?run = Inr (offsets, cursor, old_end)" for offsets cursor old_end
  proof -
    have p: "placed slices (unat ?first) (length bs) (by_offset ?es) (offsets, cursor, old_end)" and len: "length offsets = length ?es"
      and c32: "\<not> ?wide \<longrightarrow> unat cursor < 2 ^ 32" using place run ord by auto
    have srt: "sorted_wrt (\<lambda>i j. unat (offsets ! i) + length (slices ! i) \<le> unat (offsets ! j)) (by_offset ?es)"
      and inside: "\<And>i. i < length ?es \<Longrightarrow> unat ?first \<le> unat (offsets ! i) \<and> unat (offsets ! i) + length (slices ! i) \<le> unat cursor"
      and old: "unat old_end \<le> length bs" using p perm(1) by (auto simp: placed_def)
    let ?head = "segment 0 (unat ?first) bs" and ?rest = "segment (unat old_end) (length bs - unat old_end) bs"
    define body where "body = foldl (\<lambda>out i. resize (unat (offsets ! i)) out @ slices ! i) ?head (by_offset ?es)"
    have head: "length ?head = unat ?first" using first by simp
    have "\<forall>i \<in> set (by_offset ?es). length ?head \<le> unat (offsets ! i)" using inside perm(1) unfolding head by simp
    from append_slices [OF srt this] have body: "holds_slices slices offsets (by_offset ?es) body" "unat ?first \<le> length body"
      unfolding Let_def body_def [symmetric] head by blast+
    have ranges: "\<forall>i < length ?es. length (slices ! i) < 2 ^ 54 \<and> (\<not> ?wide \<longrightarrow> unat (offsets ! i) < 2 ^ 32 \<and> length (slices ! i) < 2 ^ 32)"
      using slices inside c32 by (fastforce simp: in_set_conv_nth)
    have "unat ?first \<le> length (body @ ?rest)" using body(2) by simp
    from WriteTable_ok [OF first(2) this w(2) ranges order_refl] obtain out where
      out: "foldE (WriteTableEntry ?wide offsets slices) (body @ ?rest) [0..<length ?es] = Inr out" "length out = length (body @ ?rest)"
        "\<forall>off n. unat ?first \<le> off \<and> off + n \<le> length (body @ ?rest) \<longrightarrow> segment off n out = segment off n (body @ ?rest)"
        "\<forall>i < length ?es. table_entry (if ?wide then Fat64 else Fat32) out i = (unat (offsets ! i), length (slices ! i))" by blast
    have form: "(if ?wide then Fat64 else Fat32) = form c" using fat by (cases "form c") auto
    have "AssembleUniversal name bs c slices = Inr out"
      unfolding AssembleUniversal_def Let_def ord list.case run [unfolded ord] bindE_simps prod.case
      using first(1) old out(1) by (simp add: mem_read_def body_def [unfolded ord])
    moreover have "unat (offsets ! i) + length (slices ! i) \<le> length out \<and> segment (unat (offsets ! i)) (length (slices ! i)) out = slices ! i"
      if "i < length slices" for i
    proof -
      have i: "i < length ?es" using that slices(2) by simp
      then have h: "unat (offsets ! i) + length (slices ! i) \<le> length body" "segment (unat (offsets ! i)) (length (slices ! i)) body = slices ! i"
        using body(1) perm(1) by (auto simp: holds_slices_def)
      then show ?thesis using out(2,3) inside [OF i] by (simp add: segment_prefix)
    qed
    ultimately show ?thesis using out(4) slices(2) unfolding form by auto
  qed
  have cases: "throws (AssembleUniversal name bs c slices) \<and> (\<forall>out. AssembleUniversal name bs c slices = Inr out \<longrightarrow>
      (\<exists>offsets cursor old_end. ?run = Inr (offsets, cursor, old_end)))"
  proof (cases ?run)
    case (Inl e)
    then have "AssembleUniversal name bs c slices = Inl e" by (simp add: AssembleUniversal_def Let_def ord)
    then show ?thesis using place Inl by (auto simp: throws_def)
  next
    case (Inr st)
    then obtain offsets cursor old_end where st: "?run = Inr (offsets, cursor, old_end)" by (cases st) auto
    then show ?thesis using main [OF st] by (auto simp: throws_simps)
  qed
  then show "throws (AssembleUniversal name bs c slices)" ..
  show "\<forall>i < length slices. table_entry (form c) out i = (fst (table_entry (form c) out i), length (slices ! i)) \<and>
      fst (table_entry (form c) out i) + length (slices ! i) \<le> length out \<and>
      segment (fst (table_entry (form c) out i)) (length (slices ! i)) out = slices ! i" if run: "AssembleUniversal name bs c slices = Inr out"
  proof -
    from cases run obtain offsets cursor old_end where "?run = Inr (offsets, cursor, old_end)" by blast
    from main [OF this] show ?thesis using run by auto
  qed
qed

section \<open>The operations\<close>

lemma ParseInput_Inr:
  assumes "length bs < 2 ^ 62" and "ParseInput host bs = Inr c"
  shows "container_wf (length bs) c"
proof -
  have "span_ok (ByteSpan_of_bytes bs macho_format ''the file'') bs" using assms(1) by (intro span_ok_bytes) simp
  then show ?thesis using assms(2) by (auto simp: ParseInput_def ThrowMalformed_def intro: ParseMachOContainer_wf split: if_splits)
qed

lemma RequireSupported_Inr:
  assumes "RequireSupported name c = Inr u" and "i < length (entries c)"
  shows "support (ce_slice (entries c ! i)) = Supported"
proof -
  have "\<forall>x \<in> set (zip (entries c) [0..<length (entries c)]). support (ce_slice (fst x)) = Supported"
    using assms(1) unfolding RequireSupported_def
    by (simp add: foldE_unit_all case_prod_beta RefuseSlice_def Refuse_def split: if_splits) (metis Inl_Inr_False)
  then show ?thesis using assms(2) by (auto simp: set_zip)
qed

lemma PlanAll_Inr:
  assumes run: "PlanAll sha name bs c identity capacity = Inr plans" and wf: "container_wf (length bs) c"
    and bs: "length bs < 2 ^ 62" "length identity < 2 ^ 63" and sha: "\<And>x. length (sha x) = 32"
  shows "length plans = length (entries c) \<and> (\<forall>i < length plans. plan_ok sha identity capacity (ce_slice (entries c ! i)) (plans ! i))"
proof -
  have bs63: "length bs < 2 ^ 63" using bs(1) by simp
  from run obtain u where sup: "RequireSupported name c = Inr u"
    and m: "mapE (PlanSlice sha name (form c \<noteq> Thin) bs identity capacity) (zip (entries c) [0..<length (entries c)]) = Inr plans"
    by (auto simp: PlanAll_def Refuse_def split: if_splits)
  have len: "length plans = length (entries c)" using mapE_Inr_length [OF m] by simp
  have "plan_ok sha identity capacity (ce_slice (entries c ! i)) (plans ! i)" if i: "i < length plans" for i
  proof -
    have "PlanSlice sha name (form c \<noteq> Thin) bs identity capacity (entries c ! i, i) = Inr (plans ! i)"
      using mapE_Inr_nth [OF m, of i] i len by simp
    moreover have "entry_wf (length bs) (entries c ! i)" using wf i len by (auto simp: container_wf_def)
    ultimately show ?thesis using PlanSlice_ok(2) [where sha = sha, OF _ RequireSupported_Inr [OF sup] bs63 bs(2) sha] i len by simp
  qed
  then show ?thesis using len by blast
qed

lemma throws_PlanAll:
  assumes wf: "container_wf (length bs) c" and bs: "length bs < 2 ^ 62" "length identity < 2 ^ 63" and sha: "\<And>x. length (sha x) = 32"
  shows "throws (PlanAll sha name bs c identity capacity)"
proof -
  have bs63: "length bs < 2 ^ 63" using bs(1) by simp
  have pad: "throws (RequireZeroPadding name bs c)"
  proof -
    have "throws (PaddingByte name bs (entries c) i j at)"
      if "j < length (entries c)" "at < unat (ce_offset (entries c ! j))" for i j at
    proof -
      have "entry_wf (length bs) (entries c ! j)" using wf that(1) by (auto simp: container_wf_def)
      then have "at + 1 \<le> length bs" using that(2) by (simp add: entry_wf_def)
      then show ?thesis by (simp add: PaddingByte_def mem_read_def throws_simps)
    qed
    moreover have "by_offset (entries c) ! k < length (entries c)" if "k < length (by_offset (entries c))" for k
      using by_offset_perm(1) [of "entries c"] nth_mem [OF that] by auto
    ultimately show ?thesis unfolding RequireZeroPadding_def Let_def by (intro throws_if throws_simps throws_foldE) auto
  qed
  have sup: "throws (RequireSupported name c)"
    unfolding RequireSupported_def by (intro throws_foldE) (auto simp: throws_simps)
  show ?thesis
    unfolding PlanAll_def
  proof (intro throws_if throws_bind throws_simps sup pad throws_mapE, clarify)
    fix u e i
    assume u: "RequireSupported name c = Inr u" and z: "(e, i) \<in> set (zip (entries c) [0..<length (entries c)])"
    then have "e = entries c ! i" "i < length (entries c)" by (auto simp: set_zip)
    then have "entry_wf (length bs) e" "support (ce_slice e) = Supported"
      using wf RequireSupported_Inr [OF u] by (auto simp: container_wf_def)
    then show "throws (PlanSlice sha name (form c \<noteq> Thin) bs identity capacity (e, i))"
      using PlanSlice_ok(1) [where sha = sha, OF _ _ bs63 bs(2) sha] by blast
  qed
qed

text \<open>The finished slices, and the file around them.\<close>

lemma FinishSlices_ok:
  assumes run: "mapE FinishSlice (zip plans cmss) = Inr finished" and len: "length cmss = length plans"
    and plans: "\<forall>i < length plans. plan_ok sha identity capacity (l i) (plans ! i)"
    and cmss: "\<forall>cms \<in> set cmss. length cms \<le> unat capacity"
  shows "length finished = length plans \<and> (\<forall>i < length plans. length (finished ! i) < 2 ^ 32 \<and>
    verifies host sha (signature_command (l i)) (cmss ! i) (finished ! i))"
proof -
  have n: "length finished = length plans" using mapE_Inr_length [OF run] len by simp
  moreover have "length (finished ! i) < 2 ^ 32 \<and> verifies host sha (signature_command (l i)) (cmss ! i) (finished ! i)" if i: "i < length plans" for i
  proof -
    have "FinishSlice (plans ! i, cmss ! i) = Inr (finished ! i)" using mapE_Inr_nth [OF run, of i] i len by simp
    moreover have "length (cmss ! i) \<le> unat capacity" using cmss i len by simp
    ultimately show ?thesis using FinishSlice_ok [of sha identity capacity "l i" "plans ! i" "cmss ! i" host] plans i by auto
  qed
  ultimately show ?thesis by blast
qed

lemma CheckSignatureSizes:
  assumes "foldE (CheckSignatureSize name capacity) () cmss = Inr u" and "\<forall>cms \<in> set cmss. length cms < 2 ^ 63"
  shows "\<forall>cms \<in> set cmss. length cms \<le> unat capacity"
proof
  fix cms assume c: "cms \<in> set cmss"
  have "CheckSignatureSize name capacity () cms = Inr ()"
    using assms(1) c by (induction cmss) auto
  moreover have "unat (word_of_nat (length cms) :: u64) = length cms" using assms(2) c by (intro unat_of_nat_small) fastforce
  ultimately show "length cms \<le> unat capacity"
    by (simp add: CheckSignatureSize_def Refuse_def word_less_nat_alt unat_ucast_u32 split: if_splits)
qed

definition signed_slice :: "ByteOrder \<Rightarrow> (bytes \<Rightarrow> bytes) \<Rightarrow> MachOContainer \<Rightarrow> bytes list \<Rightarrow> bytes \<Rightarrow> nat \<Rightarrow> bool" where
  "signed_slice host sha c cmss out i \<longleftrightarrow> (case table_entry (form c) out i of (off, len) \<Rightarrow>
     off + len \<le> length out \<and> verifies host sha (signature_command (ce_slice (entries c ! i))) (cmss ! i) (segment off len out))"

lemma CompleteSignature_ok:
  assumes sha: "\<And>x. length (sha x) = 32" and bs: "length bs < 2 ^ 62" "length (prep_identity prepared) < 2 ^ 63"
    and cmss: "\<forall>cms \<in> set cmss. length cms < 2 ^ 63"
  shows "throws (CompleteSignature sha host name (Inr bs) prepared cmss)"
    and "CompleteSignature sha host name (Inr bs) prepared cmss = Inr out \<Longrightarrow>
      \<exists>c. ParseInput host bs = Inr c \<and> length cmss = length (entries c) \<and> (\<forall>i < length cmss. signed_slice host sha c cmss out i)"
proof -
  let ?id = "prep_identity prepared" and ?cap = "prep_cms_capacity prepared"
  define last_part where "last_part c finished = (if form c = Thin then (case finished of [] \<Rightarrow> Inl memory_fault | f # _ \<Rightarrow> Inr f)
        else AssembleUniversal name bs c finished)" for c :: MachOContainer and finished
  have main: "\<exists>finished. mapE FinishSlice (zip plans cmss) = Inr finished \<and> throws (last_part c finished) \<and>
      (\<forall>out. last_part c finished = Inr out \<longrightarrow> (\<forall>i < length cmss. signed_slice host sha c cmss out i))"
    if c: "ParseInput host bs = Inr c" and plans: "PlanAll sha name bs c ?id ?cap = Inr plans" and len: "length cmss = length plans"
      and sizes: "foldE (CheckSignatureSize name ?cap) () cmss = Inr u" for c plans u
  proof -
    have wf: "container_wf (length bs) c" by (rule ParseInput_Inr [OF bs(1) c])
    note p = PlanAll_Inr [where sha = sha, OF plans wf bs sha]
    note small = CheckSignatureSizes [OF sizes cmss]
    have each: "\<exists>f. FinishSlice x = Inr f" if "x \<in> set (zip plans cmss)" for x
    proof -
      obtain i where i: "i < length plans" "x = (plans ! i, cmss ! i)" using \<open>x \<in> set (zip plans cmss)\<close> len by (auto simp: set_zip)
      then have "length (cmss ! i) \<le> unat ?cap" using small len by simp
      then show ?thesis using FinishSlice_ok [of sha ?id ?cap "ce_slice (entries c ! i)" "plans ! i" "cmss ! i" host] p i by auto
    qed
    have "\<exists>finished. mapE FinishSlice xs = Inr finished" if "\<forall>x \<in> set xs. \<exists>f. FinishSlice x = Inr f" for xs
      using that by (induction xs) auto
    then obtain finished where fin: "mapE FinishSlice (zip plans cmss) = Inr finished" using each by blast
    have f: "length finished = length plans" "\<And>i. i < length plans \<Longrightarrow> length (finished ! i) < 2 ^ 32 \<and>
        verifies host sha (signature_command (ce_slice (entries c ! i))) (cmss ! i) (finished ! i)"
      using FinishSlices_ok [OF fin len _ small, of sha ?id "\<lambda>i. ce_slice (entries c ! i)" host] p by auto
    have n: "length plans = length (entries c)" using p by blast
    have parts: "throws (last_part c finished)" "\<forall>out. last_part c finished = Inr out \<longrightarrow> (\<forall>i < length cmss. signed_slice host sha c cmss out i)"
    proof (atomize (full), cases "form c = Thin")
      case True
      then obtain e where e: "entries c = [e]" using wf by (auto simp: container_wf_def)
      then obtain f0 where f0: "finished = [f0]" using f(1) n by (cases finished) auto
      show "throws (last_part c finished) \<and> (\<forall>out. last_part c finished = Inr out \<longrightarrow> (\<forall>i < length cmss. signed_slice host sha c cmss out i))"
        using f(2) [of 0] n e True len by (simp add: last_part_def f0 signed_slice_def table_entry_def throws_simps)
    next
      case False
      have s: "\<forall>s \<in> set finished. length s < 2 ^ 54" using f by (fastforce simp: in_set_conv_nth)
      have l: "length finished = length (entries c)" using f(1) n by simp
      note a = AssembleUniversal_ok [OF wf False bs(1) s l, of name]
      have "signed_slice host sha c cmss out i" if "AssembleUniversal name bs c finished = Inr out" "i < length cmss" for out i
      proof -
        obtain off n where te: "table_entry (form c) out i = (off, n)" by fastforce
        have "off + n \<le> length out \<and> segment off n out = finished ! i"
          using a(2) [OF that(1)] that(2) len f(1) te by auto
        then show ?thesis using f(2) [of i] that(2) len by (simp add: signed_slice_def te)
      qed
      then show "throws (last_part c finished) \<and> (\<forall>out. last_part c finished = Inr out \<longrightarrow> (\<forall>i < length cmss. signed_slice host sha c cmss out i))"
        using a(1) False by (simp add: last_part_def)
    qed
    then show ?thesis using fin by blast
  qed
  have parse: "throws (ParseInput host bs)"
    unfolding ParseInput_def using bs(1) by (intro throws_if throws_simps throws_rejects [of macho_format] rejects_ParseMachOContainer good_bytes) simp
  show "throws (CompleteSignature sha host name (Inr bs) prepared cmss)"
    unfolding CompleteSignature_def ReadInput.simps bindE_simps last_part_def [symmetric]
  proof (intro throws_Guard throws_bind parse throws_if throws_simps, goal_cases)
    case (1 c)
    show ?case by (rule throws_PlanAll [OF ParseInput_Inr [OF bs(1) 1] bs sha])
  next
    case (2 c plans)
    show ?case by (intro throws_foldE) (simp add: CheckSignatureSize_def throws_simps)
  next
    case (3 c plans u)
    from main [OF 3(1,2) _ 3(5)] 3(4) show ?case by (auto simp: throws_simps)
  next
    case (4 c plans u finished)
    from main [OF 4(1,2) _ 4(5)] 4(4,6) show ?case by auto
  qed
  show "\<exists>c. ParseInput host bs = Inr c \<and> length cmss = length (entries c) \<and> (\<forall>i < length cmss. signed_slice host sha c cmss out i)"
    if run: "CompleteSignature sha host name (Inr bs) prepared cmss = Inr out"
  proof -
    have guard: "GuardEntryPoint fmt r = Inr x \<Longrightarrow> r = Inr x" for fmt and r :: "bytes res" and x
      by (cases "(fmt, r)" rule: GuardEntryPoint.cases) auto
    have refuse: "(if b then Refuse n t else m) = Inr y \<Longrightarrow> \<not> b \<and> m = Inr y" for b n t y and m :: "bytes res"
      by (simp add: Refuse_def split: if_splits)
    from guard [OF run [unfolded CompleteSignature_def ReadInput.simps bindE_simps last_part_def [symmetric]]] obtain c plans u finished where c: "ParseInput host bs = Inr c"
      and plans: "PlanAll sha name bs c ?id ?cap = Inr plans" and len: "length cmss = length plans"
      and u: "foldE (CheckSignatureSize name ?cap) () cmss = Inr u" and fin: "mapE FinishSlice (zip plans cmss) = Inr finished"
      and out: "last_part c finished = Inr out"
      by (elim bindE_InrE) (drule refuse, elim conjE, drule refuse, elim conjE bindE_InrE, rule that, auto)
    have "length plans = length (entries c)" using PlanAll_Inr [where sha = sha, OF plans ParseInput_Inr [OF bs(1) c] bs sha] by blast
    then show ?thesis using main [OF c plans len u] fin out c len by auto
  qed
qed








section \<open>Properties\<close>

text \<open>
  C24: A SuperBlob gives back what was put into it: from what \<open>BuildSuperBlob\<close> makes, also when zero padding or anything else
  follows it, the CMS signature and the CodeDirectory are extracted byte for byte.
\<close>

theorem superblob_roundtrip:
  assumes "56 + length cd + length cms < 2 ^ 32" and "length rest < 2 ^ 63"
    and "8 \<le> length cd" and "be32_at cd 0 = CSMAGIC_CODEDIRECTORY" and "be32_at cd 4 = word_of_nat (length cd)"
  shows "\<exists>blob. BuildSuperBlob cd cms = Inr blob \<and> ExtractCmsFromSuperBlob host (blob @ rest) = Inr (Some cms) \<and>
    ExtractCodeDirectoryFromSuperBlob host (blob @ rest) = Inr (Some cd)"
  using Extract_built [OF assms] by (simp add: BuildSuperBlob_eq)

theorem superblob_roundtrip_witness:
  "\<exists>blob. BuildSuperBlob [0xFA, 0xDE, 0x0C, 0x02, 0, 0, 0, 9, 1] [7] = Inr blob \<and> ExtractCmsFromSuperBlob Big (blob @ [0, 0]) = Inr (Some [7]) \<and>
    ExtractCodeDirectoryFromSuperBlob Big (blob @ [0, 0]) = Inr (Some [0xFA, 0xDE, 0x0C, 0x02, 0, 0, 0, 9, 1])"
proof (rule superblob_roundtrip)
  show "be32_at [0xFA, 0xDE, 0x0C, 0x02, 0, 0, 0, 9, 1] 0 = CSMAGIC_CODEDIRECTORY"
    "be32_at [0xFA, 0xDE, 0x0C, 0x02, 0, 0, 0, 9, 1] 4 = word_of_nat (length [0xFA, 0xDE, 0x0C, 0x02, 0, 0, 0, 9, 1 :: u8])" by code_simp+
qed simp_all

text \<open>
  C23: A file that \<open>CompleteSignature\<close> writes passes the check of its signature, slice by slice, thin or universal: the
  signature command names the end of the program, the SuperBlob there holds the given CMS signature and a CodeDirectory, the
  directory covers all pages before the signature, and each of its page hashes is the hash of that page of the
  finished file; in a universal file the table at the front leads to the slices.
\<close>

theorem signed_file_verifies:
  assumes "\<And>x. length (sha x) = 32" and "length bs < 2 ^ 62" and "length (prep_identity prepared) < 2 ^ 63"
    and "\<forall>cms \<in> set cmss. length cms < 2 ^ 63" and "CompleteSignature sha host name (Inr bs) prepared cmss = Inr out"
  shows "\<exists>c. ParseInput host bs = Inr c \<and> length cmss = length (entries c) \<and> (\<forall>i < length cmss. signed_slice host sha c cmss out i)"
  by (rule CompleteSignature_ok(2) [where sha = sha, OF assms])

text \<open>A program of one segment with room for the signature command.\<close>

definition tiny_signable_macho :: bytes where
  "tiny_signable_macho = [0xCF, 0xFA, 0xED, 0xFE, 7, 0, 0, 1, 3, 0, 0, 0, 2, 0, 0, 0, 1, 0, 0, 0, 72, 0, 0, 0] @ replicate 8 0 @
     [0x19, 0, 0, 0, 72, 0, 0, 0] @ map char_byte ''__LINKEDIT'' @ replicate 22 0 @ [120] @ replicate 31 0 @ replicate 16 0"

definition tiny_container :: MachOContainer where
  "tiny_container = (let seg = \<lparr>seg_command_offset = 32, seg_name = ''__LINKEDIT'', seg_vmaddr = 0, seg_vmsize = 0,
       seg_fileoff = 120, seg_filesize = 0\<rparr> in
     \<lparr>form = Thin, entries = [\<lparr>ce_cputype = 0x01000007, ce_cpusubtype = 3, ce_offset = 0, ce_size = 120, ce_align = 0,
       ce_slice = \<lparr>sl_base = 0, sl_size = 120, support = Supported, sl_cputype = 0x01000007, sl_cpusubtype = 3, filetype = 2,
         ncmds = 1, sizeofcmds = 72, header_end = 104, commands = [\<lparr>lc_offset = 32, lc_cmd = 25, lc_cmdsize = 72\<rparr>],
         segments = [seg], text_segment = None, linkedit = Some seg, first_content = 120, codesig = None, dylibs = []\<rparr>\<rparr>]\<rparr>)"

lemma length_tiny_signable_macho: "length tiny_signable_macho = 120"
  by (simp add: tiny_signable_macho_def)

lemma span_tiny_signable_macho:
  "ByteSpan_of_bytes tiny_signable_macho fmt sc = \<lparr>backing = Memory tiny_signable_macho, span_size = 120, span_format = fmt, span_scope = sc\<rparr>"
  by (simp add: ByteSpan_of_bytes_def length_tiny_signable_macho)

lemma tiny_container_parsed: "ParseInput Little tiny_signable_macho = Inr tiny_container"
  unfolding ParseInput_def span_tiny_signable_macho by code_simp

abbreviation zero_sha :: "bytes \<Rightarrow> bytes" where
  "zero_sha \<equiv> (\<lambda>_. replicate 32 0)"

lemma tiny_plan: "\<exists>plan. PlanAll zero_sha ''p'' tiny_signable_macho tiny_container [] 0 = Inr [plan]"
proof -
  let ?e = "hd (entries tiny_container)"
  have es: "zip (entries tiny_container) [0..<length (entries tiny_container)] = [(?e, 0)]" "form tiny_container = Thin" by (simp_all add: tiny_container_def Let_def)
  have wf: "container_wf 120 tiny_container"
    using ParseInput_Inr [OF _ tiny_container_parsed] by (simp add: length_tiny_signable_macho)
  have "?e \<in> set (entries tiny_container)" by (simp add: tiny_container_def Let_def)
  then have e: "entry_wf (length tiny_signable_macho) ?e" "support (ce_slice ?e) = Supported"
    using wf unfolding container_wf_def length_tiny_signable_macho by (blast, simp add: tiny_container_def Let_def)
  have kept: "PlanKept (RefuseSlice ''p'' False 0 (ce_cputype ?e)) (ce_slice ?e) [] = Inr 120"
    by (simp add: tiny_container_def PlanKept_def FreeHeaderSpace_def Let_def)
  have small: "\<not> (ps_dataoff (PlanSizes 120 [] 0) + ps_datasize (PlanSizes 120 [] 0) > UINT32_MAX \<or> ps_cd_size (PlanSizes 120 [] 0) > UINT32_MAX)"
    by code_simp
  have "\<exists>plan. PlanSlice zero_sha ''p'' False tiny_signable_macho [] 0 (?e, 0) = Inr plan"
    by (rule PlanSlice_ok(3) [where sha = zero_sha, OF e _ _ _ kept refl small]) (simp_all add: length_tiny_signable_macho)
  moreover have "RequireSupported ''p'' tiny_container = Inr ()" unfolding RequireSupported_def es(1) using e(2) by simp
  ultimately show ?thesis unfolding PlanAll_def RequireZeroPadding_def es by (auto simp: kMaxCapacity_def)
qed

lemma tiny_completed:
  "\<exists>prepared out. prep_identity prepared = [] \<and> CompleteSignature zero_sha Little ''p'' (Inr tiny_signable_macho) prepared [[]] = Inr out"
proof -
  obtain plan where plan: "PlanAll zero_sha ''p'' tiny_signable_macho tiny_container [] 0 = Inr [plan]" using tiny_plan by blast
  have wf: "container_wf (length tiny_signable_macho) tiny_container"
    using ParseInput_Inr [OF _ tiny_container_parsed] by (simp add: length_tiny_signable_macho)
  have ok: "plan_ok zero_sha [] 0 (ce_slice (entries tiny_container ! 0)) plan"
    using PlanAll_Inr [where sha = zero_sha, OF plan wf] by (simp add: length_tiny_signable_macho)
  then obtain out where "FinishSlice (plan, []) = Inr out" using FinishSlice_ok [OF ok, of "[]"] by auto
  moreover have "form tiny_container = Thin" by (simp add: tiny_container_def Let_def)
  ultimately have "CompleteSignature zero_sha Little ''p'' (Inr tiny_signable_macho)
      \<lparr>prep_identity = [], prep_cms_capacity = 0, prep_slices = [prepared_slice plan]\<rparr> [[]] = Inr out"
    by (simp add: CompleteSignature_def tiny_container_parsed plan CheckSignatureSize_def)
  then show ?thesis by (intro exI [of _ "\<lparr>prep_identity = [], prep_cms_capacity = 0, prep_slices = [prepared_slice plan]\<rparr>"]) simp
qed

theorem signed_file_verifies_witness:
  "\<exists>prepared out. CompleteSignature zero_sha Little ''p'' (Inr tiny_signable_macho) prepared [[]] = Inr out \<and>
    signed_slice Little zero_sha tiny_container [[]] out 0"
proof -
  obtain prepared out where run: "prep_identity prepared = []" "CompleteSignature zero_sha Little ''p'' (Inr tiny_signable_macho) prepared [[]] = Inr out"
    using tiny_completed by blast
  then show ?thesis
    using signed_file_verifies [where sha = zero_sha, OF _ _ _ _ run(2)] by (auto simp: length_tiny_signable_macho tiny_container_parsed)
qed



end
