(* ===== verification/Plugin_Search.thy ===== *)
theory Plugin_Search
  imports Name_Parser
begin

text \<open>
  \<open>src/internal/PluginSearch.cpp\<close> and \<open>src/LibraryLoader.cpp\<close>, as compiled for Linux: the search
  lists, the search for the first location that holds a file, opening the file that decides,
  and the loader of plain libraries.

  The file system and the dynamic linker are arguments: \<open>FileSystem\<close> gives the answers of
  \<open>std::filesystem::absolute\<close>, \<open>status\<close> and \<open>canonical\<close>, \<open>Linker\<close> those of \<open>dlopen\<close>,
  \<open>dlsym\<close> and \<open>dlerror\<close>. The counter \<open>open_calls\<close> and the members of \<open>LibraryLoader\<close>
  are explicit state.

  The lemmas give the meaning of a search: the first location that holds the file decides,
  whatever the file system says of the later ones; and the laws of loading: a failure
  changes nothing, a success is remembered.
\<close>

section \<open>Paths\<close>

text \<open>\<open>path / name\<close> and \<open>lexically_normal\<close> of \<open>std::filesystem::path\<close>, POSIX format.\<close>

definition path_join :: "string \<Rightarrow> string \<Rightarrow> string" where
  "path_join dir part =
     (if part \<noteq> [] \<and> hd part = slash then part
      else if dir = [] \<or> last dir = slash then dir @ part
      else dir @ slash # part)"

fun split_path :: "string \<Rightarrow> string list" where
  "split_path [] = [[]]"
| "split_path (c # cs) =
     (if c = slash then [] # split_path cs
      else case split_path cs of p # ps \<Rightarrow> (c # p) # ps | [] \<Rightarrow> [[c]])"

fun normal_parts :: "bool \<Rightarrow> string list \<Rightarrow> string list \<Rightarrow> string list" where
  "normal_parts root acc [] = rev acc"
| "normal_parts root acc (p # ps) =
     (if p = [] \<or> p = ''.'' then normal_parts root acc ps
      else if p = ''..'' then
        (case acc of
           [] \<Rightarrow> normal_parts root (if root then [] else [p]) ps
         | q # qs \<Rightarrow> normal_parts root (if q = ''..'' then p # q # qs else qs) ps)
      else normal_parts root (p # acc) ps)"

fun join_parts :: "string list \<Rightarrow> string" where
  "join_parts [] = []"
| "join_parts [p] = p"
| "join_parts (p # ps) = p @ slash # join_parts ps"

definition lexically_normal :: "string \<Rightarrow> string" where
  "lexically_normal p =
     (if p = [] then []
      else let parts = split_path p;
               root = (hd p = slash);
               kept = normal_parts root [] parts;
               prefix = (if root then [slash] else []);
               folder = (last parts \<in> {[], ''.'', ''..''})
           in if kept = [] then (if root then [slash] else ''.'')
              else prefix @ join_parts kept @ (if folder \<and> last kept \<noteq> ''..'' then [slash] else []))"

section \<open>The platform\<close>

text \<open>A \<open>std::error_code\<close>: the two conditions the search tests, or another with its message.\<close>

datatype FsError = NoSuchFile | NotADirectory | OtherFsError string

definition fs_message :: "FsError \<Rightarrow> string" where
  "fs_message e = (case e of
     NoSuchFile \<Rightarrow> ''No such file or directory'' | NotADirectory \<Rightarrow> ''Not a directory'' | OtherFsError m \<Rightarrow> m)"

datatype FileType = RegularType | DirectoryType | NotFoundType | OtherType

record FileSystem =
  absolute_of :: "string \<Rightarrow> FsError + string"
  status_of :: "string \<Rightarrow> FsError + FileType"
  canonical_of :: "string \<Rightarrow> FsError + string"

text \<open>
  A handle and an address are non-null pointers; a null result comes with what
  \<open>dlerror()\<close> returns after it, itself possibly null.
\<close>

type_synonym handle = nat
type_synonym address = nat

record Linker =
  dlopen :: "string \<Rightarrow> string option + handle"
  dlsym :: "handle \<Rightarrow> string \<Rightarrow> string option + address"

section \<open>Search lists\<close>

definition PluginFileName :: "string \<Rightarrow> string" where
  "PluginFileName lib = ''lib'' @ lib @ ''.so''"

definition PakFileName :: "string \<Rightarrow> string" where
  "PakFileName lib = lib @ ''.pak''"

definition DevelopmentLocations :: "string \<Rightarrow> string \<Rightarrow> bool \<Rightarrow> string list" where
  "DevelopmentLocations ns lib pak =
     (let suffix = (if pak then [] else ''/src/.libs'') in
      (''../../'' @ lib @ suffix) #
      (if ns \<noteq> [] then [''../node_modules/'' @ ns @ ''/'' @ lib @ suffix] else []))"

definition SearchListBuild :: "string list \<Rightarrow> string \<Rightarrow> string \<Rightarrow> bool \<Rightarrow> string list \<times> nat" where
  "SearchListBuild configured ns lib pak =
     (configured @ DevelopmentLocations ns lib pak, length configured)"

section \<open>Searching\<close>

record SearchResult =
  sr_found :: bool
  sr_file :: string
  sr_identity :: string
  sr_locations :: "Location list"

definition no_result :: SearchResult where
  "no_result = \<lparr>sr_found = False, sr_file = [], sr_identity = [], sr_locations = []\<rparr>"

definition absent :: "FsError \<Rightarrow> bool" where
  "absent code \<longleftrightarrow> code = NoSuchFile \<or> code = NotADirectory"

text \<open>
  The body of the loop over the locations: the state and reason to record for this
  location, or the candidate file that decides.
\<close>

datatype examined = Skip LocationState string | Decides string

definition Examine :: "FileSystem \<Rightarrow> string \<Rightarrow> string \<Rightarrow> examined" where
  "Examine fs file_name location =
     (case bindE (absolute_of fs location) (\<lambda>directory.
             bindE (status_of fs directory) (\<lambda>st. Inr (directory, st))) of
        Inl ec \<Rightarrow> if \<not> absent ec then Skip Unreadable (fs_message ec) else Skip Missing []
      | Inr (directory, st) \<Rightarrow>
          if st \<noteq> DirectoryType then Skip Missing []
          else let candidate = path_join directory file_name in
            case status_of fs candidate of
              Inl file_ec \<Rightarrow> if \<not> absent file_ec then Skip Unreadable (fs_message file_ec) else Skip Searched []
            | Inr file_status \<Rightarrow> if file_status \<noteq> RegularType then Skip Searched [] else Decides candidate)"

fun SearchEach :: "FileSystem \<Rightarrow> string \<Rightarrow> Location list \<Rightarrow> SearchResult" where
  "SearchEach fs file_name [] = no_result"
| "SearchEach fs file_name (entry # rest) =
     (case Examine fs file_name (loc_path entry) of
        Skip st text \<Rightarrow>
          (let r = SearchEach fs file_name rest in
           r\<lparr>sr_locations := entry\<lparr>loc_state := st, loc_reason := text\<rparr> # sr_locations r\<rparr>)
      | Decides candidate \<Rightarrow>
          (let path = lexically_normal candidate in
           \<lparr>sr_found = True, sr_file = path,
            sr_identity = (case canonical_of fs candidate of Inl _ \<Rightarrow> path | Inr p \<Rightarrow> p),
            sr_locations = entry\<lparr>loc_state := Found\<rparr> # rest\<rparr>))"

definition initial_locations :: "string list \<Rightarrow> nat \<Rightarrow> Location list" where
  "initial_locations locations configured_count =
     map (\<lambda>i. \<lparr>loc_path = locations ! i, development = (configured_count \<le> i), loc_state = NotReached, loc_reason = []\<rparr>)
       [0..<length locations]"

definition SearchFirst :: "FileSystem \<Rightarrow> string list \<Rightarrow> string \<Rightarrow> nat \<Rightarrow> SearchResult" where
  "SearchFirst fs locations file_name configured_count =
     SearchEach fs file_name (initial_locations locations configured_count)"

section \<open>Errors and opening\<close>

definition NotFoundThrow :: "SearchResult \<Rightarrow> string \<Rightarrow> string \<Rightarrow> string \<Rightarrow> LoadError + 'a" where
  "NotFoundThrow result name file_name kind =
     Inl (LoadError_make NotFound name file_name (sr_locations result) [] kind [])"

definition NotLoadableThrow :: "SearchResult \<Rightarrow> string \<Rightarrow> string \<Rightarrow> string \<Rightarrow> LoadError + 'a" where
  "NotLoadableThrow result name reason_text kind =
     Inl (LoadError_make NotLoadable name (sr_file result) (sr_locations result) reason_text kind [])"

definition EntryPointMissingThrow :: "string \<Rightarrow> string \<Rightarrow> string \<Rightarrow> string \<Rightarrow> string \<Rightarrow> LoadError + 'a" where
  "EntryPointMissingThrow path name symbol reason_text kind =
     Inl (LoadError_make EntryPointMissing name path []
       (if reason_text = [] then symbol else symbol @ '': '' @ reason_text) kind [])"

definition NoObjectThrow :: "string \<Rightarrow> string \<Rightarrow> string \<Rightarrow> string \<Rightarrow> LoadError + 'a" where
  "NoObjectThrow path name symbol kind = Inl (LoadError_make NoObject name path [] symbol kind [])"

definition dlerror_text :: "string option \<Rightarrow> string" where
  "dlerror_text message = (case message of Some m \<Rightarrow> m | None \<Rightarrow> [])"

text \<open>Opening: the handle or the message, and the counter of calls.\<close>

definition OpenPinned :: "Linker \<Rightarrow> string \<Rightarrow> u64 \<Rightarrow> (string + handle) \<times> u64" where
  "OpenPinned ld absolute_path open_calls =
     (case dlopen ld absolute_path of
        Inl message \<Rightarrow> Inl (dlerror_text message)
      | Inr h \<Rightarrow> Inr h, open_calls + 1)"

definition PluginOpenCallCount :: "u64 \<Rightarrow> u64" where
  "PluginOpenCallCount open_calls = open_calls"

definition ResetPluginOpenCallCount :: "u64 \<Rightarrow> u64" where
  "ResetPluginOpenCallCount open_calls = 0"

definition SymbolFind :: "Linker \<Rightarrow> handle \<Rightarrow> string \<Rightarrow> string + address" where
  "SymbolFind ld h symbol =
     (case dlsym ld h symbol of
        Inl message \<Rightarrow> Inl (dlerror_text message)
      | Inr a \<Rightarrow> Inr a)"

definition PluginOpen ::
  "FileSystem \<Rightarrow> Linker \<Rightarrow> string list \<Rightarrow> nat \<Rightarrow> string \<Rightarrow> string \<Rightarrow> string \<Rightarrow> u64 \<Rightarrow>
   (LoadError + handle \<times> SearchResult) \<times> u64" where
  "PluginOpen fs ld locations configured_count lib name kind open_calls =
     (let file_name = PluginFileName lib;
          result = SearchFirst fs locations file_name configured_count in
      if \<not> sr_found result then (NotFoundThrow result name file_name kind, open_calls)
      else case OpenPinned ld (sr_file result) open_calls of
        (Inl text, calls) \<Rightarrow> (NotLoadableThrow result name text kind, calls)
      | (Inr h, calls) \<Rightarrow> (Inr (h, result), calls))"

section \<open>The library loader\<close>

record LibraryLoader =
  ll_name :: string
  library_handle :: "handle option"
  ll_paths :: "string list"
  loaded_file :: string

definition LibraryLoader_new :: "string \<Rightarrow> LibraryLoader" where
  "LibraryLoader_new lib = \<lparr>ll_name = lib, library_handle = None, ll_paths = [], loaded_file = []\<rparr>"

definition LibraryLoader_PathAdd :: "string \<Rightarrow> LibraryLoader \<Rightarrow> LibraryLoader" where
  "LibraryLoader_PathAdd p l = l\<lparr>ll_paths := ll_paths l @ [p]\<rparr>"

definition LibraryLoader_PathsGet :: "LibraryLoader \<Rightarrow> string list" where
  "LibraryLoader_PathsGet l = ll_paths l"

definition LibraryLoader_Load ::
  "FileSystem \<Rightarrow> Linker \<Rightarrow> LibraryLoader \<Rightarrow> u64 \<Rightarrow> (LoadError + unit) \<times> LibraryLoader \<times> u64" where
  "LibraryLoader_Load fs ld l open_calls =
     (if library_handle l \<noteq> None then (Inr (), l, open_calls)
      else if \<exists>c \<in> set (ll_name l). c \<in> {slash, backslash, colon} then
        (Inl (LoadError_make InvalidName (ll_name l) [] []
           (''contains '' @ Quoted ''/'' @ '', a backslash or '' @ Quoted '':'') ''library'' []), l, open_calls)
      else case PluginOpen fs ld (ll_paths l) (length (ll_paths l)) (ll_name l) (ll_name l) ''library'' open_calls of
        (Inl e, calls) \<Rightarrow> (Inl e, l, calls)
      | (Inr (h, search), calls) \<Rightarrow>
          (Inr (), l\<lparr>library_handle := Some h, loaded_file := sr_file search\<rparr>, calls))"

definition LibraryLoader_FunctionGet ::
  "FileSystem \<Rightarrow> Linker \<Rightarrow> string \<Rightarrow> LibraryLoader \<Rightarrow> u64 \<Rightarrow> (LoadError + address) \<times> LibraryLoader \<times> u64" where
  "LibraryLoader_FunctionGet fs ld function_name l open_calls =
     (case LibraryLoader_Load fs ld l open_calls of
        (Inl e, l', calls) \<Rightarrow> (Inl e, l', calls)
      | (Inr _, l', calls) \<Rightarrow>
          (case SymbolFind ld (the (library_handle l')) function_name of
             Inl text \<Rightarrow> (EntryPointMissingThrow (loaded_file l') (ll_name l') function_name text ''library'', l', calls)
           | Inr a \<Rightarrow> (Inr a, l', calls)))"

text \<open>The handle the destructor gives to \<open>dlclose\<close>.\<close>

definition LibraryLoader_destroy :: "LibraryLoader \<Rightarrow> handle option" where
  "LibraryLoader_destroy l = library_handle l"

definition GetLastErrorAsString :: "string option \<Rightarrow> string" where
  "GetLastErrorAsString message = (case message of None \<Rightarrow> [] | Some m \<Rightarrow> m)"

section \<open>Searching: the first location that holds the file decides\<close>

definition location_holds :: "FileSystem \<Rightarrow> string \<Rightarrow> string \<Rightarrow> bool" where
  "location_holds fs file_name l =
     (case absolute_of fs l of
        Inl _ \<Rightarrow> False
      | Inr d \<Rightarrow> status_of fs d = Inr DirectoryType \<and> status_of fs (path_join d file_name) = Inr RegularType)"

definition location_is_folder :: "FileSystem \<Rightarrow> string \<Rightarrow> bool" where
  "location_is_folder fs l =
     (case absolute_of fs l of Inl _ \<Rightarrow> False | Inr d \<Rightarrow> status_of fs d = Inr DirectoryType)"

text \<open>The number of locations before the first that holds the file.\<close>

definition deciding :: "FileSystem \<Rightarrow> string \<Rightarrow> string list \<Rightarrow> nat" where
  "deciding fs file_name ls = length (takeWhile (\<lambda>l. \<not> location_holds fs file_name l) ls)"

lemma Examine_Decides:
  "Examine fs fn l = Decides c \<longleftrightarrow>
     location_holds fs fn l \<and> (\<exists>d. absolute_of fs l = Inr d \<and> c = path_join d fn)"
  by (auto simp: Examine_def location_holds_def Let_def bindE_def split: sum.splits if_splits)

lemma Examine_Skip:
  assumes "Examine fs fn l = Skip st why"
  shows "\<not> location_holds fs fn l" and "st \<in> {Missing, Searched, Unreadable}"
    and "st = Missing \<Longrightarrow> \<not> location_is_folder fs l" and "st = Searched \<Longrightarrow> location_is_folder fs l"
    and "st \<noteq> Unreadable \<Longrightarrow> why = []"
  using assms
  by (auto simp: Examine_def location_holds_def location_is_folder_def Let_def bindE_def split: sum.splits if_splits)

lemma Examine_holds:
  "location_holds fs fn l \<Longrightarrow>
     \<exists>d. absolute_of fs l = Inr d \<and> Examine fs fn l = Decides (path_join d fn)"
  by (auto simp: Examine_def location_holds_def Let_def bindE_def split: sum.splits)

lemma Examine_cases:
  assumes "Examine fs fn l = x"
  obtains (skip) st why where "x = Skip st why" and "\<not> location_holds fs fn l"
  | (decides) d where "absolute_of fs l = Inr d" and "x = Decides (path_join d fn)" and "location_holds fs fn l"
proof (cases x)
  case (Skip st why)
  then show ?thesis using Examine_Skip(1) assms skip by blast
next
  case (Decides c)
  then show ?thesis using Examine_Decides assms decides by metis
qed

lemma SearchEach_locations:
  "map loc_path (sr_locations (SearchEach fs fn es)) = map loc_path es \<and>
   map development (sr_locations (SearchEach fs fn es)) = map development es"
  by (induction es) (auto simp: no_result_def Let_def split: examined.splits)

lemma deciding_Cons:
  "deciding fs fn (l # ls) = (if location_holds fs fn l then 0 else Suc (deciding fs fn ls))"
  by (simp add: deciding_def)

text \<open>
  What is reported of one location, given how many come before the deciding one.
\<close>

definition reported :: "FileSystem \<Rightarrow> string \<Rightarrow> nat \<Rightarrow> nat \<Rightarrow> Location \<Rightarrow> bool" where
  "reported fs fn first i e \<longleftrightarrow>
     (i < first \<longrightarrow> loc_state e \<in> {Missing, Searched, Unreadable} \<and>
        (loc_state e = Missing \<longrightarrow> \<not> location_is_folder fs (loc_path e)) \<and>
        (loc_state e = Searched \<longrightarrow> location_is_folder fs (loc_path e))) \<and>
     (i = first \<longrightarrow> loc_state e = Found) \<and>
     (first < i \<longrightarrow> loc_state e = NotReached)"

lemma SearchEach_reported:
  assumes "\<forall>e \<in> set es. loc_state e = NotReached"
  shows "i < length es \<Longrightarrow>
    reported fs fn (deciding fs fn (map loc_path es)) i (sr_locations (SearchEach fs fn es) ! i)"
  using assms
proof (induction es arbitrary: i)
  case (Cons e es)
  show ?case
  proof (cases rule: Examine_cases [of fs fn "loc_path e", OF refl])
    case (1 st why)
    then show ?thesis using Cons.IH [of "i - 1"] Cons.prems Examine_Skip [OF 1(1)]
      by (cases i) (auto simp: deciding_Cons reported_def Let_def)
  next
    case (2 d)
    then show ?thesis using Cons.prems by (cases i) (auto simp: deciding_Cons reported_def Let_def)
  qed
qed simp

lemma SearchEach_found:
  "sr_found (SearchEach fs fn es) \<longleftrightarrow> (\<exists>e \<in> set es. location_holds fs fn (loc_path e))"
proof (induction es)
  case (Cons e es)
  then show ?case by (cases rule: Examine_cases [of fs fn "loc_path e", OF refl]) (auto simp: Let_def)
qed (simp add: no_result_def)

lemma SearchEach_file:
  "sr_found (SearchEach fs fn es) \<Longrightarrow>
     deciding fs fn (map loc_path es) < length es \<and>
     (\<exists>d. absolute_of fs (map loc_path es ! deciding fs fn (map loc_path es)) = Inr d \<and>
        sr_file (SearchEach fs fn es) = lexically_normal (path_join d fn) \<and>
        sr_identity (SearchEach fs fn es) =
          (case canonical_of fs (path_join d fn) of Inl _ \<Rightarrow> lexically_normal (path_join d fn) | Inr p \<Rightarrow> p))"
proof (induction es)
  case (Cons e es)
  then show ?case
    by (cases rule: Examine_cases [of fs fn "loc_path e", OF refl]) (auto simp: Let_def deciding_Cons)
qed (simp add: no_result_def)

lemma initial_locations_paths [simp]:
  "map loc_path (initial_locations ls cc) = ls"
  "length (initial_locations ls cc) = length ls"
  by (simp_all add: initial_locations_def o_def map_nth)

lemma initial_locations_state: "\<forall>e \<in> set (initial_locations ls cc). loc_state e = NotReached"
  by (auto simp: initial_locations_def)

lemma initial_locations_development:
  "map development (initial_locations ls cc) = map (\<lambda>i. cc \<le> i) [0..<length ls]"
  by (simp add: initial_locations_def o_def)

lemma initial_locations_holds:
  "(\<exists>e \<in> set (initial_locations ls cc). P (loc_path e)) \<longleftrightarrow> (\<exists>l \<in> set ls. P l)"
  using initial_locations_paths(1) [of ls cc] by (metis (no_types, lifting) imageE imageI list.set_map)

lemmas SearchFirst_found =
  SearchEach_found [where es = "initial_locations ls cc" for ls cc, folded SearchFirst_def,
    unfolded initial_locations_holds]
lemmas SearchFirst_file =
  SearchEach_file [where es = "initial_locations ls cc" for ls cc, folded SearchFirst_def,
    unfolded initial_locations_paths]
lemmas SearchFirst_reported =
  SearchEach_reported [OF initial_locations_state, folded SearchFirst_def, unfolded initial_locations_paths]

lemma SearchFirst_locations:
  "map loc_path (sr_locations (SearchFirst fs ls fn cc)) = ls"
  "map development (sr_locations (SearchFirst fs ls fn cc)) = map (\<lambda>i. cc \<le> i) [0..<length ls]"
  using SearchEach_locations [of fs fn "initial_locations ls cc"]
  by (simp_all add: SearchFirst_def initial_locations_development)

text \<open>
  C26: a search is decided by the first location that holds the file, a folder with a regular
  file of that name. It finds something exactly when there is one, and then gives the file
  in that location; all locations are reported in order, the configured ones first: those
  before it as missing, searched or unreadable, with missing meaning that it is not a
  folder and searched that it is one, that location as found, and those after it as not
  reached.
\<close>

theorem first_location_decides:
  fixes ls file_name fs cc
  defines "r \<equiv> SearchFirst fs ls file_name cc" and "first \<equiv> deciding fs file_name ls"
  shows "(sr_found r \<longleftrightarrow> (\<exists>l \<in> set ls. location_holds fs file_name l)) \<and>
    map loc_path (sr_locations r) = ls \<and>
    map development (sr_locations r) = map (\<lambda>i. cc \<le> i) [0..<length ls] \<and>
    (\<forall>i < length ls. reported fs file_name first i (sr_locations r ! i)) \<and>
    (sr_found r \<longrightarrow> first < length ls \<and> location_holds fs file_name (ls ! first) \<and>
       (\<exists>d. absolute_of fs (ls ! first) = Inr d \<and> sr_file r = lexically_normal (path_join d file_name)))"
proof -
  have "location_holds fs file_name (ls ! first)" if "first < length ls"
    using that nth_length_takeWhile [of "\<lambda>l. \<not> location_holds fs file_name l" ls]
    by (simp add: first_def deciding_def)
  then show ?thesis
    unfolding r_def first_def
    using SearchFirst_found [where fs = fs and fn = file_name and ls = ls and cc = cc]
      SearchFirst_file [where fs = fs and fn = file_name and ls = ls and cc = cc]
      SearchFirst_reported [where fs = fs and fn = file_name and ls = ls and cc = cc]
      SearchFirst_locations [of fs ls file_name cc]
    by (simp add: first_def) blast
qed

section \<open>The file that is opened has the plugin's name\<close>

lemma split_path_nonempty [simp]: "split_path p \<noteq> []"
  by (induction p) (auto split: list.splits)

lemma split_path_append: "split_path (a @ slash # b) = split_path a @ split_path b"
proof (induction a)
  case (Cons c a)
  then show ?case by (cases "split_path a") auto
qed simp

lemma split_path_plain: "slash \<notin> set p \<Longrightarrow> split_path p = [p]"
  by (induction p) auto

lemma normal_parts_snoc:
  "p \<notin> {[], ''.'', ''..''} \<Longrightarrow> normal_parts root acc (ps @ [p]) = normal_parts root acc ps @ [p]"
  by (induction root acc ps rule: normal_parts.induct) (auto split: list.splits)

lemma join_parts_snoc: "join_parts (ps @ [p]) = (if ps = [] then p else join_parts ps @ slash # p)"
proof (induction ps rule: join_parts.induct)
  case (3 a b ps)
  then show ?case by simp
qed simp_all

lemma path_join_plain:
  assumes "d \<noteq> []" and "hd d = slash" and "p \<noteq> []" and "slash \<notin> set p"
  obtains a where "path_join d p = a @ slash # p" and "a = [] \<or> hd a = slash"
proof (cases "last d = slash")
  case True
  then have "path_join d p = butlast d @ slash # p"
    using assms by (cases p) (auto simp: path_join_def intro: append_butlast_last_id [symmetric, THEN trans])
  then show ?thesis using that [of "butlast d"] assms by (cases d) auto
next
  case False
  then have "path_join d p = d @ slash # p" using assms by (cases p) (auto simp: path_join_def)
  then show ?thesis using that [of d] assms by simp
qed

lemma lexically_normal_keeps_name:
  assumes d: "d \<noteq> []" "hd d = slash" and p: "p \<notin> {[], ''.'', ''..''}" "slash \<notin> set p"
  shows "\<exists>folder. lexically_normal (path_join d p) = folder @ slash # p"
proof -
  from p have "p \<noteq> []" by simp
  from path_join_plain [OF d this p(2)] obtain a where
    a: "path_join d p = a @ slash # p" "a = [] \<or> hd a = slash" .
  have parts: "split_path (path_join d p) = split_path a @ [p]"
    by (simp add: a(1) split_path_append split_path_plain p(2))
  have root: "hd (path_join d p) = slash" using a by (cases a) auto
  show ?thesis
    using p unfolding lexically_normal_def Let_def parts normal_parts_snoc [OF p(1)] root join_parts_snoc
    by (auto simp: a(1))
qed

lemma PluginFileName_plain:
  "slash \<notin> set lib \<Longrightarrow> PluginFileName lib \<notin> {[], ''.'', ''..''} \<and> slash \<notin> set (PluginFileName lib)"
  by (auto simp: PluginFileName_def slash_def)

lemma SearchFirst_plugin_file:
  assumes "sr_found (SearchFirst fs ls (PluginFileName lib) cc)" and "slash \<notin> set lib"
    and "\<And>l d. absolute_of fs l = Inr d \<Longrightarrow> d \<noteq> [] \<and> hd d = slash"
  shows "\<exists>folder. sr_file (SearchFirst fs ls (PluginFileName lib) cc) = folder @ slash # PluginFileName lib"
proof -
  from SearchFirst_file [OF assms(1)] obtain l d where
    "absolute_of fs l = Inr d" and
    f: "sr_file (SearchFirst fs ls (PluginFileName lib) cc) = lexically_normal (path_join d (PluginFileName lib))"
    by blast
  with assms(3) have "d \<noteq> []" "hd d = slash" by blast+
  with lexically_normal_keeps_name PluginFileName_plain [OF assms(2)] show ?thesis unfolding f by metis
qed

lemma plain_part_no_slash: "plain_part p \<Longrightarrow> slash \<notin> set p"
  by (auto simp: plain_part_def)

lemma accepted_library_no_slash: "NameParser_new name kind = Inr p \<Longrightarrow> slash \<notin> set (library p)"
  using NameParser_accepts [of name kind "org p" "library p"] plain_part_no_slash by auto

text \<open>
  the file found for a plugin whose name was accepted is named after the library and
  nothing else: it is \<open>lib<library>.so\<close> directly in a folder, and that name holds no slash,
  so no accepted name can make the loader open another file of a folder or leave it.
\<close>

theorem plugin_file_is_named:
  assumes "NameParser_new name kind = Inr p"
    and "\<And>l d. absolute_of fs l = Inr d \<Longrightarrow> d \<noteq> [] \<and> hd d = slash"
    and "sr_found (SearchFirst fs ls (PluginFileName (library p)) cc)"
  shows "\<exists>folder. sr_file (SearchFirst fs ls (PluginFileName (library p)) cc) =
      folder @ slash # ''lib'' @ library p @ ''.so'' \<and> slash \<notin> set (''lib'' @ library p @ ''.so'')"
  using SearchFirst_plugin_file [OF assms(3) accepted_library_no_slash [OF assms(1)] assms(2)]
    PluginFileName_plain [OF accepted_library_no_slash [OF assms(1)]]
  by (simp add: PluginFileName_def)

definition example_fs :: FileSystem where
  "example_fs = \<lparr>absolute_of = (\<lambda>l. Inr (if l \<noteq> [] \<and> hd l = slash then l else ''/work/'' @ l)),
     status_of = (\<lambda>p. if p \<in> {''/opt/a'', ''/opt/b'', ''/opt/c''} then Inr DirectoryType
                      else if p \<in> {''/opt/b/libx.so'', ''/opt/c/libx.so''} then Inr RegularType
                      else if p = ''/opt/locked'' then Inl (OtherFsError ''Permission denied'')
                      else Inl NoSuchFile),
     canonical_of = (\<lambda>p. Inr ''/store/x'')\<rparr>"

lemma example_fs_absolute: "absolute_of example_fs l = Inr d \<Longrightarrow> d \<noteq> [] \<and> hd d = slash"
  by (auto simp: example_fs_def slash_def split: if_splits)

lemma example_search:
  "map loc_state (sr_locations (SearchFirst example_fs [''/none'', ''/opt/locked'', ''/opt/a'', ''/opt/b'', ''/opt/c'']
      (PluginFileName ''x'') 4)) = [Missing, Unreadable, Searched, Found, NotReached]"
  by code_simp

theorem first_location_decides_witness:
  "map loc_path (sr_locations (SearchFirst example_fs [''/opt/a'', ''/opt/b'', ''/opt/c''] ''libx.so'' 2)) =
     [''/opt/a'', ''/opt/b'', ''/opt/c''] \<and>
   (\<exists>d. absolute_of example_fs ''/opt/b'' = Inr d \<and>
      sr_file (SearchFirst example_fs [''/opt/a'', ''/opt/b'', ''/opt/c''] ''libx.so'' 2) = lexically_normal (path_join d ''libx.so''))"
proof -
  have found: "sr_found (SearchFirst example_fs [''/opt/a'', ''/opt/b'', ''/opt/c''] ''libx.so'' 2)" by code_simp
  have first: "deciding example_fs ''libx.so'' [''/opt/a'', ''/opt/b'', ''/opt/c''] = 1" by code_simp
  show ?thesis
    using first_location_decides [of example_fs "[''/opt/a'', ''/opt/b'', ''/opt/c'']" "''libx.so''" 2] found first by simp
qed

theorem plugin_file_is_named_witness:
  "\<exists>folder. sr_file (SearchFirst example_fs [''/opt/a'', ''/opt/b''] (PluginFileName ''x'') 2) =
     folder @ slash # ''lib'' @ ''x'' @ ''.so''"
proof -
  have p: "NameParser_new ''x'' ''plugin'' = Inr \<lparr>org = [], library = ''x''\<rparr>" by code_simp
  have "sr_found (SearchFirst example_fs [''/opt/a'', ''/opt/b''] (PluginFileName ''x'') 2)" by code_simp
  then show ?thesis using plugin_file_is_named [OF p, of example_fs "[''/opt/a'', ''/opt/b'']" 2] example_fs_absolute
    by auto
qed

section \<open>The library loader\<close>

lemma OpenPinned_counts: "snd (OpenPinned ld p n) = n + 1"
  by (simp add: OpenPinned_def)

lemma PluginOpen_cases:
  assumes "PluginOpen fs ld ls cc lib name kind n = (r, n')"
  shows "(\<exists>e. r = Inl e \<and> reason e = NotFound \<and> n' = n) \<or>
    (\<exists>e. r = Inl e \<and> reason e = NotLoadable \<and> n' = n + 1) \<or>
    (\<exists>h s. r = Inr (h, s) \<and> sr_found s \<and> dlopen ld (sr_file s) = Inr h \<and> n' = n + 1)"
  using assms
  by (auto simp: PluginOpen_def OpenPinned_def NotFoundThrow_def NotLoadableThrow_def LoadError_make_def Let_def
      split: if_splits sum.splits prod.splits)

lemma Load_keeps:
  assumes "LibraryLoader_Load fs ld l n = (r, l', n')"
  shows "ll_name l' = ll_name l" and "ll_paths l' = ll_paths l"
    and "\<And>e. r = Inl e \<Longrightarrow> l' = l \<and> library_handle l = None"
    and "\<And>u. r = Inr u \<Longrightarrow> library_handle l' \<noteq> None"
    and "n' = n \<or> n' = n + 1 \<and> library_handle l = None"
  using assms PluginOpen_cases [of fs ld "ll_paths l" "length (ll_paths l)" "ll_name l" "ll_name l" "''library''" n]
  by (auto simp: LibraryLoader_Load_def split: if_splits sum.splits prod.splits)

lemma Load_again: "library_handle l \<noteq> None \<Longrightarrow> LibraryLoader_Load fs ld l n = (Inr (), l, n)"
  by (simp add: LibraryLoader_Load_def)

lemma FunctionGet_state:
  "snd (LibraryLoader_FunctionGet fs ld f l n) = snd (LibraryLoader_Load fs ld l n)"
  by (auto simp: LibraryLoader_FunctionGet_def EntryPointMissingThrow_def split: sum.splits prod.splits)

text \<open>
  a library loader opens its library once. Whatever the file system and the linker
  answer, asking for a function opens at most one file and keeps the name and the
  locations; when no library was opened the loader is unchanged, so that the next request
  searches again; once one is open, every later request leaves the loader and the count of
  opens alone, whatever has happened to the files, and its result is that of \<open>dlsym\<close> on
  the handle.
\<close>

theorem library_opened_once:
  assumes "LibraryLoader_FunctionGet fs ld f l n = (r, l', n')"
  shows "(n' = n \<or> n' = n + 1 \<and> library_handle l = None) \<and>
    ll_name l' = ll_name l \<and> ll_paths l' = ll_paths l \<and>
    (case library_handle l' of
       None \<Rightarrow> l' = l \<and> (\<exists>e. r = Inl e \<and> reason e \<in> {InvalidName, NotFound, NotLoadable})
     | Some h \<Rightarrow> \<forall>fs2 ld2 g.
         LibraryLoader_FunctionGet fs2 ld2 g l' n' =
           (case SymbolFind ld2 h g of
              Inl why \<Rightarrow> EntryPointMissingThrow (loaded_file l') (ll_name l) g why ''library''
            | Inr a \<Rightarrow> Inr a, l', n'))"
proof -
  obtain r0 where load: "LibraryLoader_Load fs ld l n = (r0, l', n')"
    using FunctionGet_state [of fs ld f l n] assms by (metis snd_conv surj_pair)
  note keeps = Load_keeps [OF load]
  show ?thesis
  proof (cases "library_handle l'")
    case None
    then obtain e where e: "r0 = Inl e" using keeps(4) by (cases r0) auto
    have "reason e \<in> {InvalidName, NotFound, NotLoadable}"
      using load e PluginOpen_cases [of fs ld "ll_paths l" "length (ll_paths l)" "ll_name l" "ll_name l" "''library''" n]
      by (auto simp: LibraryLoader_Load_def LoadError_make_def split: if_splits sum.splits prod.splits)
    moreover have "r = Inl e" using assms load e by (auto simp: LibraryLoader_FunctionGet_def)
    ultimately show ?thesis using None keeps(3) [OF e] keeps(5) by auto
  next
    case (Some h)
    then show ?thesis using keeps
      by (auto simp: LibraryLoader_FunctionGet_def Load_again split: sum.splits)
  qed
qed

theorem library_opened_once_witness:
  "library_handle (fst (snd (LibraryLoader_FunctionGet example_fs
      \<lparr>dlopen = (\<lambda>p. Inr 7), dlsym = (\<lambda>h s. Inr 9)\<rparr> ''start''
      (LibraryLoader_PathAdd ''/opt/b'' (LibraryLoader_new ''x'')) 0))) = Some 7"
proof -
  define l where "l = LibraryLoader_PathAdd ''/opt/b'' (LibraryLoader_new ''x'')"
  have run: "LibraryLoader_FunctionGet example_fs \<lparr>dlopen = (\<lambda>p. Inr 7), dlsym = (\<lambda>h s. Inr 9)\<rparr> ''start'' l 0 =
    (Inr 9, l\<lparr>library_handle := Some 7, loaded_file := ''/opt/b/libx.so''\<rparr>, 1)"
    unfolding l_def by code_simp
  show ?thesis using library_opened_once [OF run] run by (simp add: l_def)
qed

end
