(* ===== verification/Plugin_Cache.thy ===== *)
theory Plugin_Cache
  imports Plugin_Search
begin

text \<open>
  \<open>src/internal/PluginCache.hpp\<close>: the shared state of the plugin loaders, used by several
  threads at once.

  Every thread has a program counter (\<open>pc\<close>) with the local variables of \<open>Get\<close>, and one step
  of a thread is one critical section of the code, one wait, or one call of the platform
  between two of them: \<open>CacheStep\<close> computes the state after such a step, or \<open>None\<close> when the
  thread has to wait for a future or for \<open>open_mutex\<close>. The platform may answer differently at
  every step (\<open>Env\<close>), and may throw another exception than \<open>LoadError\<close> where the code
  calls it. \<open>cache_step\<close> is one step of any thread, a new request, or \<open>PathAdd\<close>, in any order.
  A plugin's initialiser that calls back into the same loader is outside the model, as is
  running out of memory inside a critical section.

  Two fields are not in the code and no step reads them: \<open>c_started\<close>, the locations configured
  when a load started, and \<open>c_opened\<close>, the identities of the files opened so far.

  The invariants hold in every reachable state; \<open>requests_finish\<close> is the progress property.
\<close>

section \<open>Definitions\<close>

record Entry =
  creator :: address
  entry_file :: string

record Request =
  rq_name :: string
  rq_org :: string
  rq_library :: string
  rq_symbol :: string
  rq_kind :: string

text \<open>An exception in flight: a \<open>LoadError\<close>, or another one behind an \<open>exception_ptr\<close>.\<close>

datatype Failure = LoadFailure LoadError | OtherFailure nat

record Outcome =
  oc_entry :: Entry
  oc_error :: "LoadError option"
  oc_other :: "nat option"

definition no_entry :: Entry where
  "no_entry = \<lparr>creator = 0, entry_file = []\<rparr>"

definition Deliver :: "Outcome \<Rightarrow> Failure + Entry" where
  "Deliver outcome =
     (case oc_error outcome of
        Some e \<Rightarrow> Inl (LoadFailure e)
      | None \<Rightarrow> case oc_other outcome of
          Some x \<Rightarrow> Inl (OtherFailure x)
        | None \<Rightarrow> Inr (oc_entry outcome))"

record InFlight =
  fl_future :: nat
  fl_version :: u64

datatype pc =
    Idle
  | Looking Request
  | Entering Request
  | Sharing Request nat
  | WaitingOld Request nat
  | Searching Request nat "string list" nat
  | Opening Request nat SearchResult
  | InOpen Request nat SearchResult
  | Finding Request nat SearchResult handle
  | Publishing Request nat Entry
  | Delivering Request nat Entry
  | Failing Request nat Failure
  | DeliveringFailure Request nat Failure
  | Returned Request Entry
  | Threw Request Failure

record Cache =
  c_paths :: "string list"
  c_version :: u64
  c_entries :: "string \<rightharpoonup> Entry"
  c_in_flight :: "string \<rightharpoonup> InFlight"
  c_open_holder :: "nat option"
  c_libraries :: "string \<rightharpoonup> handle"
  c_promises :: "nat \<rightharpoonup> Outcome"
  c_next :: nat
  c_open_calls :: u64
  c_pcs :: "nat \<Rightarrow> pc"
  c_started :: "nat \<rightharpoonup> string list"
  c_opened :: "string list"

definition Cache_new :: Cache where
  "Cache_new = \<lparr>c_paths = [], c_version = 0, c_entries = Map.empty, c_in_flight = Map.empty, c_open_holder = None,
     c_libraries = Map.empty, c_promises = Map.empty, c_next = 0, c_open_calls = 0, c_pcs = (\<lambda>_. Idle),
     c_started = Map.empty, c_opened = []\<rparr>"

record Env =
  env_fs :: FileSystem
  env_ld :: Linker
  env_throws :: "nat option"

definition Cache_PathAdd :: "string \<Rightarrow> Cache \<Rightarrow> Cache" where
  "Cache_PathAdd p s = s\<lparr>c_paths := c_paths s @ [p], c_version := c_version s + 1\<rparr>"

definition Cache_PathsGet :: "Cache \<Rightarrow> string list" where
  "Cache_PathsGet s = c_paths s"

definition Cache_SearchPathsGet :: "string \<Rightarrow> string \<Rightarrow> Cache \<Rightarrow> string list" where
  "Cache_SearchPathsGet ns lib s = fst (SearchListBuild (c_paths s) ns lib False)"

subsection \<open>Load\<close>

definition LoadSearch :: "FileSystem \<Rightarrow> Request \<Rightarrow> string list \<Rightarrow> nat \<Rightarrow> LoadError + SearchResult" where
  "LoadSearch fs r locations configured_count =
     (let file_name = PluginFileName (rq_library r);
          search = SearchFirst fs locations file_name configured_count in
      if \<not> sr_found search then NotFoundThrow search (rq_name r) file_name (rq_kind r) else Inr search)"

definition LoadOpen ::
  "Linker \<Rightarrow> Request \<Rightarrow> SearchResult \<Rightarrow> (string \<rightharpoonup> handle) \<Rightarrow> u64 \<Rightarrow>
   (LoadError + handle) \<times> (string \<rightharpoonup> handle) \<times> u64" where
  "LoadOpen ld r search libraries calls =
     (case libraries (sr_identity search) of
        Some h \<Rightarrow> (Inr h, libraries, calls)
      | None \<Rightarrow>
          (case OpenPinned ld (sr_file search) calls of
             (Inl text, calls') \<Rightarrow> (NotLoadableThrow search (rq_name r) text (rq_kind r), libraries, calls')
           | (Inr h, calls') \<Rightarrow> (Inr h, libraries(sr_identity search \<mapsto> h), calls')))"

definition LoadSymbol :: "Linker \<Rightarrow> Request \<Rightarrow> SearchResult \<Rightarrow> handle \<Rightarrow> LoadError + Entry" where
  "LoadSymbol ld r search h =
     (case SymbolFind ld h (rq_symbol r) of
        Inl text \<Rightarrow> EntryPointMissingThrow (sr_file search) (rq_name r) (rq_symbol r) text (rq_kind r)
      | Inr a \<Rightarrow> Inr \<lparr>creator = a, entry_file = sr_file search\<rparr>)"

subsection \<open>The steps of Get\<close>

definition goto :: "nat \<Rightarrow> pc \<Rightarrow> Cache \<Rightarrow> Cache" where
  "goto t p s = s\<lparr>c_pcs := (c_pcs s)(t := p)\<rparr>"

definition LookShared :: "nat \<Rightarrow> Request \<Rightarrow> Cache \<Rightarrow> Cache" where
  "LookShared t r s =
     (case c_entries s (rq_name r) of
        Some e \<Rightarrow> goto t (Returned r e) s
      | None \<Rightarrow> goto t (Entering r) s)"

definition LookUnique :: "nat \<Rightarrow> Request \<Rightarrow> Cache \<Rightarrow> Cache" where
  "LookUnique t r s =
     (case c_entries s (rq_name r) of
        Some e \<Rightarrow> goto t (Returned r e) s
      | None \<Rightarrow>
          (case c_in_flight s (rq_name r) of
             Some flight \<Rightarrow>
               (if fl_version flight = c_version s then goto t (Sharing r (fl_future flight)) s
                else goto t (WaitingOld r (fl_future flight)) s)
           | None \<Rightarrow>
               (let f = c_next s;
                    (locations, count) = SearchListBuild (c_paths s) (rq_org r) (rq_library r) False in
                goto t (Searching r f locations count)
                  (s\<lparr>c_in_flight := (c_in_flight s)(rq_name r \<mapsto> \<lparr>fl_future = f, fl_version = c_version s\<rparr>),
                     c_next := Suc f, c_started := (c_started s)(f \<mapsto> c_paths s)\<rparr>))))"

definition ShareResult :: "nat \<Rightarrow> Request \<Rightarrow> nat \<Rightarrow> Cache \<Rightarrow> Cache option" where
  "ShareResult t r f s =
     map_option (\<lambda>outcome. goto t (case Deliver outcome of Inl x \<Rightarrow> Threw r x | Inr e \<Rightarrow> Returned r e) s)
       (c_promises s f)"

definition WaitOld :: "nat \<Rightarrow> Request \<Rightarrow> nat \<Rightarrow> Cache \<Rightarrow> Cache option" where
  "WaitOld t r f s = map_option (\<lambda>_. goto t (Looking r) s) (c_promises s f)"

definition RunSearch :: "Env \<Rightarrow> nat \<Rightarrow> Request \<Rightarrow> nat \<Rightarrow> string list \<Rightarrow> nat \<Rightarrow> Cache \<Rightarrow> Cache" where
  "RunSearch env t r f locations count s =
     (case env_throws env of
        Some x \<Rightarrow> goto t (Failing r f (OtherFailure x)) s
      | None \<Rightarrow> (case LoadSearch (env_fs env) r locations count of
          Inl e \<Rightarrow> goto t (Failing r f (LoadFailure e)) s
        | Inr search \<Rightarrow> goto t (Opening r f search) s))"

definition LockOpen :: "nat \<Rightarrow> Request \<Rightarrow> nat \<Rightarrow> SearchResult \<Rightarrow> Cache \<Rightarrow> Cache option" where
  "LockOpen t r f search s =
     (if c_open_holder s = None then Some (goto t (InOpen r f search) (s\<lparr>c_open_holder := Some t\<rparr>)) else None)"

text \<open>Leaving the block releases \<open>open_mutex\<close>, however it is left.\<close>

definition RunOpen :: "Env \<Rightarrow> nat \<Rightarrow> Request \<Rightarrow> nat \<Rightarrow> SearchResult \<Rightarrow> Cache \<Rightarrow> Cache" where
  "RunOpen env t r f search s =
     (case env_throws env of
        Some x \<Rightarrow> goto t (Failing r f (OtherFailure x)) (s\<lparr>c_open_holder := None\<rparr>)
      | None \<Rightarrow>
          (case LoadOpen (env_ld env) r search (c_libraries s) (c_open_calls s) of
             (result, libraries, calls) \<Rightarrow>
               (let s' = s\<lparr>c_open_holder := None, c_libraries := libraries, c_open_calls := calls,
                           c_opened := (if c_libraries s (sr_identity search) = None \<and> \<not> isl result
                                        then sr_identity search # c_opened s else c_opened s)\<rparr> in
                case result of
                  Inl e \<Rightarrow> goto t (Failing r f (LoadFailure e)) s'
                | Inr h \<Rightarrow> goto t (Finding r f search h) s')))"

definition RunSymbol :: "Env \<Rightarrow> nat \<Rightarrow> Request \<Rightarrow> nat \<Rightarrow> SearchResult \<Rightarrow> handle \<Rightarrow> Cache \<Rightarrow> Cache" where
  "RunSymbol env t r f search h s =
     (case env_throws env of
        Some x \<Rightarrow> goto t (Failing r f (OtherFailure x)) s
      | None \<Rightarrow> (case LoadSymbol (env_ld env) r search h of
          Inl e \<Rightarrow> goto t (Failing r f (LoadFailure e)) s
        | Inr entry \<Rightarrow> goto t (Publishing r f entry) s))"

definition Publish :: "nat \<Rightarrow> Request \<Rightarrow> nat \<Rightarrow> Entry \<Rightarrow> Cache \<Rightarrow> Cache" where
  "Publish t r f entry s =
     goto t (Delivering r f entry)
       (s\<lparr>c_entries := (c_entries s)(rq_name r \<mapsto> entry), c_in_flight := (c_in_flight s)(rq_name r := None)\<rparr>)"

definition DeliverEntry :: "nat \<Rightarrow> Request \<Rightarrow> nat \<Rightarrow> Entry \<Rightarrow> Cache \<Rightarrow> Cache" where
  "DeliverEntry t r f entry s =
     goto t (Returned r entry)
       (s\<lparr>c_promises := (c_promises s)(f \<mapsto> \<lparr>oc_entry = entry, oc_error = None, oc_other = None\<rparr>)\<rparr>)"

definition FailErase :: "nat \<Rightarrow> Request \<Rightarrow> nat \<Rightarrow> Failure \<Rightarrow> Cache \<Rightarrow> Cache" where
  "FailErase t r f x s =
     goto t (DeliveringFailure r f x) (s\<lparr>c_in_flight := (c_in_flight s)(rq_name r := None)\<rparr>)"

definition FailDeliver :: "nat \<Rightarrow> Request \<Rightarrow> nat \<Rightarrow> Failure \<Rightarrow> Cache \<Rightarrow> Cache" where
  "FailDeliver t r f x s =
     goto t (Threw r x)
       (s\<lparr>c_promises := (c_promises s)(f \<mapsto>
          (case x of
             LoadFailure e \<Rightarrow> \<lparr>oc_entry = no_entry, oc_error = Some e, oc_other = None\<rparr>
           | OtherFailure i \<Rightarrow> \<lparr>oc_entry = no_entry, oc_error = None, oc_other = Some i\<rparr>))\<rparr>)"

definition CacheStep :: "Env \<Rightarrow> nat \<Rightarrow> Cache \<Rightarrow> Cache option" where
  "CacheStep env t s =
     (case c_pcs s t of
        Idle \<Rightarrow> None
      | Looking r \<Rightarrow> Some (LookShared t r s)
      | Entering r \<Rightarrow> Some (LookUnique t r s)
      | Sharing r f \<Rightarrow> ShareResult t r f s
      | WaitingOld r f \<Rightarrow> WaitOld t r f s
      | Searching r f locations count \<Rightarrow> Some (RunSearch env t r f locations count s)
      | Opening r f search \<Rightarrow> LockOpen t r f search s
      | InOpen r f search \<Rightarrow> Some (RunOpen env t r f search s)
      | Finding r f search h \<Rightarrow> Some (RunSymbol env t r f search h s)
      | Publishing r f entry \<Rightarrow> Some (Publish t r f entry s)
      | Delivering r f entry \<Rightarrow> Some (DeliverEntry t r f entry s)
      | Failing r f x \<Rightarrow> Some (FailErase t r f x s)
      | DeliveringFailure r f x \<Rightarrow> Some (FailDeliver t r f x s)
      | Returned r e \<Rightarrow> None
      | Threw r x \<Rightarrow> None)"

fun finished :: "pc \<Rightarrow> bool" where
  "finished Idle = True"
| "finished (Returned r e) = True"
| "finished (Threw r x) = True"
| "finished _ = False"

inductive cache_step :: "Cache \<Rightarrow> Cache \<Rightarrow> bool" where
  run: "CacheStep env t s = Some s' \<Longrightarrow> cache_step s s'"
| request: "finished (c_pcs s t) \<Longrightarrow> cache_step s (goto t (Looking r) s)"
| path_add: "cache_step s (Cache_PathAdd p s)"

inductive cache_reachable :: "Cache \<Rightarrow> bool" where
  start: "cache_reachable Cache_new"
| step: "cache_reachable s \<Longrightarrow> cache_step s s' \<Longrightarrow> cache_reachable s'"

section \<open>The shapes of a step\<close>

fun registered :: "pc \<Rightarrow> (string \<times> nat) option" where
  "registered (Searching r f ls n) = Some (rq_name r, f)"
| "registered (Opening r f sr) = Some (rq_name r, f)"
| "registered (InOpen r f sr) = Some (rq_name r, f)"
| "registered (Finding r f sr h) = Some (rq_name r, f)"
| "registered (Publishing r f e) = Some (rq_name r, f)"
| "registered (Failing r f x) = Some (rq_name r, f)"
| "registered _ = None"

text \<open>The name and future of a load a thread is running, until it has delivered the outcome.\<close>

fun owing :: "pc \<Rightarrow> (string \<times> nat) option" where
  "owing (Delivering r f e) = Some (rq_name r, f)"
| "owing (DeliveringFailure r f x) = Some (rq_name r, f)"
| "owing p = registered p"

fun awaiting :: "pc \<Rightarrow> (string \<times> nat) option" where
  "awaiting (Sharing r f) = Some (rq_name r, f)"
| "awaiting (WaitingOld r f) = Some (rq_name r, f)"
| "awaiting _ = None"

fun in_open :: "pc \<Rightarrow> bool" where
  "in_open (InOpen r f sr) = True"
| "in_open _ = False"

lemma registered_owing: "registered p = Some x \<Longrightarrow> owing p = Some x"
  by (cases p) simp_all

lemma goto_simps [simp]:
  "c_pcs (goto t p s) = (c_pcs s)(t := p)" "c_paths (goto t p s) = c_paths s"
  "c_version (goto t p s) = c_version s" "c_entries (goto t p s) = c_entries s"
  "c_in_flight (goto t p s) = c_in_flight s" "c_open_holder (goto t p s) = c_open_holder s"
  "c_libraries (goto t p s) = c_libraries s" "c_promises (goto t p s) = c_promises s"
  "c_next (goto t p s) = c_next s" "c_open_calls (goto t p s) = c_open_calls s"
  "c_started (goto t p s) = c_started s" "c_opened (goto t p s) = c_opened s"
  by (simp_all add: goto_def)

lemma CacheStep_cases:
  assumes "CacheStep env t s = Some s'"
  obtains (hit) r e where "c_pcs s t = Looking r \<or> c_pcs s t = Entering r" "c_entries s (rq_name r) = Some e"
      "s' = goto t (Returned r e) s"
  | (miss) r where "c_pcs s t = Looking r" "c_entries s (rq_name r) = None" "s' = goto t (Entering r) s"
  | (share) r flight where "c_pcs s t = Entering r" "c_entries s (rq_name r) = None"
      "c_in_flight s (rq_name r) = Some flight" "fl_version flight = c_version s"
      "s' = goto t (Sharing r (fl_future flight)) s"
  | (old) r flight where "c_pcs s t = Entering r" "c_entries s (rq_name r) = None"
      "c_in_flight s (rq_name r) = Some flight" "fl_version flight \<noteq> c_version s"
      "s' = goto t (WaitingOld r (fl_future flight)) s"
  | (begins) r ls n where "c_pcs s t = Entering r" "c_entries s (rq_name r) = None"
      "c_in_flight s (rq_name r) = None"
      "SearchListBuild (c_paths s) (rq_org r) (rq_library r) False = (ls, n)"
      "s' = goto t (Searching r (c_next s) ls n)
        (s\<lparr>c_in_flight := (c_in_flight s)(rq_name r \<mapsto> \<lparr>fl_future = c_next s, fl_version = c_version s\<rparr>),
           c_next := Suc (c_next s), c_started := (c_started s)(c_next s \<mapsto> c_paths s)\<rparr>)"
  | (shared) r f oc where "c_pcs s t = Sharing r f" "c_promises s f = Some oc" "oc_error oc = None" "oc_other oc = None"
      "s' = goto t (Returned r (oc_entry oc)) s"
  | (shared_failure) r f oc x where "c_pcs s t = Sharing r f" "c_promises s f = Some oc" "s' = goto t (Threw r x) s"
  | (waited) r f oc where "c_pcs s t = WaitingOld r f" "c_promises s f = Some oc" "s' = goto t (Looking r) s"
  | (fails) r f x where "registered (c_pcs s t) = Some (rq_name r, f)" "\<not> in_open (c_pcs s t)"
      "\<And>r' f' y. c_pcs s t \<noteq> Failing r' f' y" "\<And>r' f' y. c_pcs s t \<noteq> Opening r' f' y"
      "\<And>r' f' y. c_pcs s t \<noteq> Publishing r' f' y" "s' = goto t (Failing r f x) s"
  | (found) r f ls n search where "c_pcs s t = Searching r f ls n" "s' = goto t (Opening r f search) s"
  | (lock) r f search where "c_pcs s t = Opening r f search" "c_open_holder s = None"
      "s' = goto t (InOpen r f search) (s\<lparr>c_open_holder := Some t\<rparr>)"
  | (open_fails) r f search x calls where "c_pcs s t = InOpen r f search"
      "s' = goto t (Failing r f x) (s\<lparr>c_open_holder := None, c_open_calls := calls\<rparr>)"
  | (open_known) r f search h where "c_pcs s t = InOpen r f search" "c_libraries s (sr_identity search) = Some h"
      "s' = goto t (Finding r f search h) (s\<lparr>c_open_holder := None\<rparr>)"
  | (open_new) r f search h where "c_pcs s t = InOpen r f search" "c_libraries s (sr_identity search) = None"
      "s' = goto t (Finding r f search h) (s\<lparr>c_open_holder := None,
          c_libraries := (c_libraries s)(sr_identity search \<mapsto> h), c_open_calls := c_open_calls s + 1,
          c_opened := sr_identity search # c_opened s\<rparr>)"
  | (symbol) r f search h e where "c_pcs s t = Finding r f search h" "s' = goto t (Publishing r f e) s"
  | (publish) r f e where "c_pcs s t = Publishing r f e"
      "s' = goto t (Delivering r f e)
        (s\<lparr>c_entries := (c_entries s)(rq_name r \<mapsto> e), c_in_flight := (c_in_flight s)(rq_name r := None)\<rparr>)"
  | (deliver) r f e where "c_pcs s t = Delivering r f e"
      "s' = goto t (Returned r e)
        (s\<lparr>c_promises := (c_promises s)(f \<mapsto> \<lparr>oc_entry = e, oc_error = None, oc_other = None\<rparr>)\<rparr>)"
  | (erase) r f x where "c_pcs s t = Failing r f x"
      "s' = goto t (DeliveringFailure r f x) (s\<lparr>c_in_flight := (c_in_flight s)(rq_name r := None)\<rparr>)"
  | (deliver_failure) r f x oc where "c_pcs s t = DeliveringFailure r f x" "oc_error oc \<noteq> None \<or> oc_other oc \<noteq> None"
      "s' = goto t (Threw r x) (s\<lparr>c_promises := (c_promises s)(f \<mapsto> oc)\<rparr>)"
proof (cases "c_pcs s t")
  case (Looking r)
  then show ?thesis using assms hit miss by (auto simp: CacheStep_def LookShared_def split: option.splits)
next
  case (Entering r)
  then show ?thesis using assms hit [of r] share [of r] old [of r] begins [of r]
    by (auto simp: CacheStep_def LookUnique_def Let_def split: option.splits if_splits prod.splits)
next
  case (Sharing r f)
  then obtain oc where oc: "c_promises s f = Some oc" and
    s': "s' = goto t (case Deliver oc of Inl x \<Rightarrow> Threw r x | Inr e \<Rightarrow> Returned r e) s"
    using assms by (auto simp: CacheStep_def ShareResult_def)
  show ?thesis
  proof (cases "Deliver oc")
    case (Inl x)
    then show ?thesis using shared_failure [OF Sharing oc] s' by simp
  next
    case (Inr e)
    then have "oc_error oc = None" "oc_other oc = None" "e = oc_entry oc"
      by (auto simp: Deliver_def split: option.splits)
    then show ?thesis using shared [OF Sharing oc] s' Inr by simp
  qed
next
  case (WaitingOld r f)
  then show ?thesis using assms waited by (auto simp: CacheStep_def WaitOld_def)
next
  case (Searching r f ls n)
  have s': "s' = RunSearch env t r f ls n s" using assms Searching by (simp add: CacheStep_def)
  show ?thesis
  proof (cases "env_throws env")
    case (Some x)
    with s' have "s' = goto t (Failing r f (OtherFailure x)) s" by (simp add: RunSearch_def)
    with Searching show ?thesis by (intro fails [of r f "OtherFailure x"]) simp_all
  next
    case None
    show ?thesis
    proof (cases "LoadSearch (env_fs env) r ls n")
      case (Inl e)
      with None s' have "s' = goto t (Failing r f (LoadFailure e)) s" by (simp add: RunSearch_def)
      with Searching show ?thesis by (intro fails [of r f "LoadFailure e"]) simp_all
    next
      case (Inr y)
      with None s' have "s' = goto t (Opening r f y) s" by (simp add: RunSearch_def)
      with Searching show ?thesis by (rule found)
    qed
  qed
next
  case (Opening r f search)
  then show ?thesis using assms lock by (auto simp: CacheStep_def LockOpen_def split: if_splits)
next
  case (InOpen r f search)
  show ?thesis
  proof (cases "env_throws env")
    case (Some x)
    then show ?thesis using InOpen assms open_fails [of r f search "OtherFailure x" "c_open_calls s"]
      by (simp add: CacheStep_def RunOpen_def)
  next
    case None
    show ?thesis
    proof (cases "c_libraries s (sr_identity search)")
      case (Some h)
      then show ?thesis using None InOpen assms open_known
        by (simp add: CacheStep_def RunOpen_def LoadOpen_def)
    next
      case unknown: None
      show ?thesis
      proof (cases "dlopen (env_ld env) (sr_file search)")
        case (Inl m)
        with None unknown InOpen assms obtain e where
          "s' = goto t (Failing r f (LoadFailure e)) (s\<lparr>c_open_holder := None, c_open_calls := c_open_calls s + 1\<rparr>)"
          by (auto simp: CacheStep_def RunOpen_def LoadOpen_def OpenPinned_def NotLoadableThrow_def)
        with InOpen show ?thesis by (rule open_fails)
      next
        case (Inr h)
        then show ?thesis using None unknown InOpen assms open_new [of r f search h]
          by (simp add: CacheStep_def RunOpen_def LoadOpen_def OpenPinned_def)
      qed
    qed
  qed
next
  case (Finding r f search h)
  have s': "s' = RunSymbol env t r f search h s" using assms Finding by (simp add: CacheStep_def)
  show ?thesis
  proof (cases "env_throws env")
    case (Some x)
    with s' have "s' = goto t (Failing r f (OtherFailure x)) s" by (simp add: RunSymbol_def)
    with Finding show ?thesis by (intro fails [of r f "OtherFailure x"]) simp_all
  next
    case None
    show ?thesis
    proof (cases "LoadSymbol (env_ld env) r search h")
      case (Inl e)
      with None s' have "s' = goto t (Failing r f (LoadFailure e)) s" by (simp add: RunSymbol_def)
      with Finding show ?thesis by (intro fails [of r f "LoadFailure e"]) simp_all
    next
      case (Inr y)
      with None s' have "s' = goto t (Publishing r f y) s" by (simp add: RunSymbol_def)
      with Finding show ?thesis by (rule symbol)
    qed
  qed
next
  case (Publishing r f e)
  then show ?thesis using assms publish by (simp add: CacheStep_def Publish_def)
next
  case (Delivering r f e)
  then show ?thesis using assms deliver by (simp add: CacheStep_def DeliverEntry_def)
next
  case (Failing r f x)
  then show ?thesis using assms erase by (simp add: CacheStep_def FailErase_def)
next
  case (DeliveringFailure r f x)
  define oc where "oc = (case x of
      LoadFailure e \<Rightarrow> \<lparr>oc_entry = no_entry, oc_error = Some e, oc_other = None\<rparr>
    | OtherFailure i \<Rightarrow> \<lparr>oc_entry = no_entry, oc_error = None, oc_other = Some i\<rparr>)"
  have "oc_error oc \<noteq> None \<or> oc_other oc \<noteq> None" by (simp add: oc_def split: Failure.splits)
  moreover have "s' = goto t (Threw r x) (s\<lparr>c_promises := (c_promises s)(f \<mapsto> oc)\<rparr>)"
    using assms DeliveringFailure by (simp add: CacheStep_def FailDeliver_def oc_def)
  ultimately show ?thesis using deliver_failure [OF DeliveringFailure] by blast
next
  case Idle
  with assms show ?thesis by (simp add: CacheStep_def)
next
  case (Returned r e)
  with assms show ?thesis by (simp add: CacheStep_def)
next
  case (Threw r x)
  with assms show ?thesis by (simp add: CacheStep_def)
qed

section \<open>Invariants\<close>

text \<open>The load in flight under a name is run by a thread, and the other way round.\<close>

definition inv_flight :: "Cache \<Rightarrow> bool" where
  "inv_flight s \<longleftrightarrow>
     (\<forall>t n f. registered (c_pcs s t) = Some (n, f) \<longrightarrow> (\<exists>fl. c_in_flight s n = Some fl \<and> fl_future fl = f)) \<and>
     (\<forall>n fl. c_in_flight s n = Some fl \<longrightarrow> (\<exists>t. registered (c_pcs s t) = Some (n, fl_future fl)))"

text \<open>A future without an outcome has one thread that will deliver it.\<close>

definition inv_owner :: "Cache \<Rightarrow> bool" where
  "inv_owner s \<longleftrightarrow>
     (\<forall>t u n m f. owing (c_pcs s t) = Some (n, f) \<longrightarrow> owing (c_pcs s u) = Some (m, f) \<longrightarrow> t = u) \<and>
     (\<forall>t n f. owing (c_pcs s t) = Some (n, f) \<longrightarrow> f < c_next s \<and> c_promises s f = None) \<and>
     (\<forall>f. c_promises s f \<noteq> None \<longrightarrow> f < c_next s)"

definition inv_wait :: "Cache \<Rightarrow> bool" where
  "inv_wait s \<longleftrightarrow>
     (\<forall>t n f. awaiting (c_pcs s t) = Some (n, f) \<longrightarrow>
        c_promises s f \<noteq> None \<or> (\<exists>u. owing (c_pcs s u) = Some (n, f)))"

definition inv_lock :: "Cache \<Rightarrow> bool" where
  "inv_lock s \<longleftrightarrow> (\<forall>t. in_open (c_pcs s t) \<longleftrightarrow> c_open_holder s = Some t)"

text \<open>What was published or returned under a name is the entry the cache keeps.\<close>

definition inv_entries :: "Cache \<Rightarrow> bool" where
  "inv_entries s \<longleftrightarrow>
     (\<forall>t n f. registered (c_pcs s t) = Some (n, f) \<longrightarrow> c_entries s n = None) \<and>
     (\<forall>t r f e. c_pcs s t = Delivering r f e \<or> c_pcs s t = Returned r e \<longrightarrow> c_entries s (rq_name r) = Some e) \<and>
     (\<forall>t r f oc. c_pcs s t = Sharing r f \<longrightarrow> c_promises s f = Some oc \<longrightarrow> oc_error oc = None \<longrightarrow>
        oc_other oc = None \<longrightarrow> c_entries s (rq_name r) = Some (oc_entry oc))"

definition inv_opened :: "Cache \<Rightarrow> bool" where
  "inv_opened s \<longleftrightarrow> distinct (c_opened s) \<and> set (c_opened s) = dom (c_libraries s)"

text \<open>
  A flight carries the version of the settings it was started with, and a search uses
  the locations of that moment.
\<close>

definition inv_settings :: "Cache \<Rightarrow> bool" where
  "inv_settings s \<longleftrightarrow>
     c_version s = of_nat (length (c_paths s)) \<and>
     (\<forall>n fl. c_in_flight s n = Some fl \<longrightarrow>
        (\<exists>ps qs. c_started s (fl_future fl) = Some ps \<and> fl_version fl = of_nat (length ps) \<and> c_paths s = ps @ qs)) \<and>
     (\<forall>t r f ls n. c_pcs s t = Searching r f ls n \<longrightarrow>
        (\<exists>ps. c_started s f = Some ps \<and> SearchListBuild ps (rq_org r) (rq_library r) False = (ls, n)))"

definition cache_inv :: "Cache \<Rightarrow> bool" where
  "cache_inv s \<longleftrightarrow> inv_flight s \<and> inv_owner s \<and> inv_wait s \<and> inv_lock s \<and> inv_entries s \<and> inv_opened s \<and> inv_settings s"

lemma cache_inv_new: "cache_inv Cache_new"
  by (simp add: cache_inv_def inv_flight_def inv_owner_def inv_wait_def inv_lock_def inv_entries_def
      inv_opened_def inv_settings_def Cache_new_def)

lemma inv_flightD:
  assumes "inv_flight s"
  shows "registered (c_pcs s t) = Some (n, f) \<Longrightarrow> \<exists>fl. c_in_flight s n = Some fl \<and> fl_future fl = f"
    and "c_in_flight s n = Some fl \<Longrightarrow> \<exists>t. registered (c_pcs s t) = Some (n, fl_future fl)"
  using assms by (auto simp: inv_flight_def)

lemma inv_ownerD:
  assumes "inv_owner s"
  shows "owing (c_pcs s t) = Some (n, f) \<Longrightarrow> owing (c_pcs s u) = Some (m, f) \<Longrightarrow> t = u"
    and "owing (c_pcs s t) = Some (n, f) \<Longrightarrow> f < c_next s \<and> c_promises s f = None"
    and "c_promises s f = Some oc \<Longrightarrow> f < c_next s"
  using assms unfolding inv_owner_def by blast+

lemma registered_unique:
  assumes "inv_flight s" and "inv_owner s"
    and "registered (c_pcs s t) = Some (n, f)" and "registered (c_pcs s u) = Some (n, g)"
  shows "t = u"
  using inv_flightD(1) [OF assms(1,3)] inv_flightD(1) [OF assms(1,4)]
    inv_ownerD(1) [OF assms(2) registered_owing [OF assms(3)]] registered_owing [OF assms(4)]
  by auto

lemma inv_flight_same:
  assumes "inv_flight s" and "c_in_flight s' = c_in_flight s"
    and "\<And>u. registered (c_pcs s' u) = registered (c_pcs s u)"
  shows "inv_flight s'"
  using assms by (simp add: inv_flight_def)

text \<open>Ending a load takes its record away and no other.\<close>

lemma inv_flight_erase:
  assumes inv: "inv_flight s" "inv_owner s" and t: "registered (c_pcs s t) = Some (n, f)"
    and "c_in_flight s' = (c_in_flight s)(n := None)" and "c_pcs s' = (c_pcs s)(t := p)" and "registered p = None"
  shows "inv_flight s'"
proof -
  have other: "m \<noteq> n" if "u \<noteq> t" "registered (c_pcs s u) = Some (m, g)" for u m g
    using registered_unique [OF inv t, of u g] that by auto
  have "\<exists>fl. c_in_flight s' m = Some fl \<and> fl_future fl = g" if "registered (c_pcs s' u) = Some (m, g)" for u m g
    using inv_flightD(1) [OF inv(1), of u m g] other [of u m g] that assms(4-6) by (cases "u = t") auto
  moreover have "\<exists>u. registered (c_pcs s' u) = Some (m, fl_future fl)" if "c_in_flight s' m = Some fl" for m fl
  proof -
    from that assms(4) have m: "m \<noteq> n" "c_in_flight s m = Some fl" by (auto split: if_splits)
    then obtain u where u: "registered (c_pcs s u) = Some (m, fl_future fl)" using inv_flightD(2) [OF inv(1)] by blast
    then have "u \<noteq> t" using t m by auto
    with u show ?thesis using assms(5) by auto
  qed
  ultimately show ?thesis unfolding inv_flight_def by blast
qed

lemma step_flight:
  assumes "CacheStep env t s = Some s'" and inv: "inv_flight s" "inv_owner s"
  shows "inv_flight s'"
  using assms(1)
proof (cases rule: CacheStep_cases)
  case (begins r ls n)
  have "\<exists>fl. c_in_flight s' m = Some fl \<and> fl_future fl = g" if "registered (c_pcs s' u) = Some (m, g)" for u m g
    using inv_flightD(1) [OF inv(1), of u m g] that begins by (cases "u = t") auto
  moreover have "\<exists>u. registered (c_pcs s' u) = Some (m, fl_future fl)" if fl: "c_in_flight s' m = Some fl" for m fl
  proof (cases "m = rq_name r")
    case True
    with fl begins show ?thesis by (intro exI [of _ t]) auto
  next
    case False
    with fl begins have "c_in_flight s m = Some fl" by simp
    then obtain u where u: "registered (c_pcs s u) = Some (m, fl_future fl)" using inv_flightD(2) [OF inv(1)] by blast
    with begins have "u \<noteq> t" by auto
    with u begins show ?thesis by (intro exI [of _ u]) simp
  qed
  ultimately show ?thesis unfolding inv_flight_def by blast
next
  case (publish r f e)
  then show ?thesis by (intro inv_flight_erase [OF inv, of t "rq_name r" f s' "Delivering r f e"]) simp_all
next
  case (erase r f x)
  then show ?thesis by (intro inv_flight_erase [OF inv, of t "rq_name r" f s' "DeliveringFailure r f x"]) simp_all
qed (auto intro!: inv_flight_same [OF inv(1)])

lemma inv_owner_same:
  assumes "inv_owner s" and "c_promises s' = c_promises s" and "c_next s' = c_next s"
    and "\<And>u. owing (c_pcs s' u) = owing (c_pcs s u)"
  shows "inv_owner s'"
  using assms by (simp add: inv_owner_def)

text \<open>Delivering an outcome sets the future of the thread that owed it.\<close>

lemma inv_owner_deliver:
  assumes inv: "inv_owner s" and t: "owing (c_pcs s t) = Some (n, f)"
    and s': "c_promises s' = (c_promises s)(f \<mapsto> oc)" "c_next s' = c_next s" "c_pcs s' = (c_pcs s)(t := p)"
    and p: "owing p = None"
  shows "inv_owner s'"
proof -
  have old: "u \<noteq> t \<and> owing (c_pcs s u) = Some (m, g)" if "owing (c_pcs s' u) = Some (m, g)" for u m g
    using that s'(3) p by (auto split: if_splits)
  have "u = v" if "owing (c_pcs s' u) = Some (m, g)" "owing (c_pcs s' v) = Some (k, g)" for u v m k g
    using inv_ownerD(1) [OF inv] old [OF that(1)] old [OF that(2)] by blast
  moreover have "g < c_next s' \<and> c_promises s' g = None" if "owing (c_pcs s' u) = Some (m, g)" for u m g
    using inv_ownerD(1) [OF inv t, of u m] inv_ownerD(2) [OF inv, of u m g] old [OF that] s' by auto
  moreover have "g < c_next s'" if "c_promises s' g \<noteq> None" for g
    using that s' inv_ownerD(2) [OF inv t] inv_ownerD(3) [OF inv, of g] by (cases "g = f") auto
  ultimately show ?thesis unfolding inv_owner_def by blast
qed

lemma step_owner:
  assumes "CacheStep env t s = Some s'" and inv: "inv_owner s"
  shows "inv_owner s'"
  using assms(1)
proof (cases rule: CacheStep_cases)
  case (begins r ls n)
  have old: "u = t \<and> g = c_next s \<or> u \<noteq> t \<and> owing (c_pcs s u) = Some (m, g)" if "owing (c_pcs s' u) = Some (m, g)" for u m g
    using that begins by (auto split: if_splits)
  have fresh: "owing (c_pcs s u) \<noteq> Some (m, c_next s)" "c_promises s (c_next s) = None" for u m
    using inv_ownerD(2) [OF inv, of u m "c_next s"] inv_ownerD(3) [OF inv, of "c_next s"]
    by (cases "c_promises s (c_next s)"; auto)+
  have "u = v" if "owing (c_pcs s' u) = Some (m, g)" "owing (c_pcs s' v) = Some (k, g)" for u v m k g
    using inv_ownerD(1) [OF inv] old [OF that(1)] old [OF that(2)] fresh(1) by blast
  moreover have "g < c_next s' \<and> c_promises s' g = None" if "owing (c_pcs s' u) = Some (m, g)" for u m g
    using inv_ownerD(2) [OF inv, of u m g] old [OF that] fresh(2) begins by auto
  moreover have "g < c_next s'" if "c_promises s' g \<noteq> None" for g
    using that begins inv_ownerD(3) [OF inv, of g] by auto
  ultimately show ?thesis unfolding inv_owner_def by blast
next
  case (deliver r f e)
  then show ?thesis
    by (intro inv_owner_deliver [OF inv, of t "rq_name r" f s' _ "Returned r e"]) simp_all
next
  case (deliver_failure r f x oc)
  then show ?thesis
    by (intro inv_owner_deliver [OF inv, of t "rq_name r" f s' oc "Threw r x"]) simp_all
qed (auto intro!: inv_owner_same [OF inv] simp: registered_owing split: if_splits)

lemma inv_waitD:
  "inv_wait s \<Longrightarrow> awaiting (c_pcs s t) = Some (n, f) \<Longrightarrow> c_promises s f \<noteq> None \<or> (\<exists>u. owing (c_pcs s u) = Some (n, f))"
  by (auto simp: inv_wait_def)

lemma inv_wait_mono:
  assumes "inv_wait s"
    and "\<And>u x. awaiting (c_pcs s' u) = Some x \<Longrightarrow> awaiting (c_pcs s u) = Some x"
    and "\<And>f. c_promises s f \<noteq> None \<Longrightarrow> c_promises s' f \<noteq> None"
    and "\<And>u n f. owing (c_pcs s u) = Some (n, f) \<Longrightarrow> owing (c_pcs s' u) = Some (n, f) \<or> c_promises s' f \<noteq> None"
  shows "inv_wait s'"
  unfolding inv_wait_def using inv_waitD [OF assms(1)] assms(2-4) by metis

lemma inv_wait_join:
  assumes inv: "inv_wait s" "inv_flight s" and fl: "c_in_flight s n = Some fl"
    and t: "owing (c_pcs s t) = None" and p: "awaiting p = Some (n, fl_future fl)"
    and s': "s' = goto t p s"
  shows "inv_wait s'"
proof -
  obtain v where v: "owing (c_pcs s v) = Some (n, fl_future fl)"
    using inv_flightD(2) [OF inv(2) fl] registered_owing by blast
  have keep: "owing (c_pcs s' u) = Some x" if "owing (c_pcs s u) = Some x" for u x
    using that t s' by auto
  have "c_promises s' f \<noteq> None \<or> (\<exists>u. owing (c_pcs s' u) = Some (m, f))"
    if "awaiting (c_pcs s' u) = Some (m, f)" for u m f
  proof (cases "u = t")
    case True
    then have "m = n \<and> f = fl_future fl" using that p s' by simp
    then show ?thesis using keep [OF v] by blast
  next
    case False
    then have "awaiting (c_pcs s u) = Some (m, f)" using that s' by simp
    from inv_waitD [OF inv(1) this] keep show ?thesis using s' by (metis goto_simps(8))
  qed
  then show ?thesis unfolding inv_wait_def by blast
qed

lemma step_wait:
  assumes "CacheStep env t s = Some s'" and inv: "inv_wait s" "inv_flight s"
  shows "inv_wait s'"
  using assms(1)
proof (cases rule: CacheStep_cases)
  case (share r flight)
  then show ?thesis using inv_wait_join [OF inv share(3), of t "Sharing r (fl_future flight)" s'] by simp
next
  case (old r flight)
  then show ?thesis using inv_wait_join [OF inv old(3), of t "WaitingOld r (fl_future flight)" s'] by simp
qed (auto intro!: inv_wait_mono [OF inv(1)] simp: registered_owing split: if_splits)

lemma inv_lock_same:
  assumes "inv_lock s" and "c_open_holder s' = c_open_holder s"
    and "\<And>u. in_open (c_pcs s' u) = in_open (c_pcs s u)"
  shows "inv_lock s'"
  using assms by (simp add: inv_lock_def)

lemma inv_lock_release:
  assumes "inv_lock s" and "in_open (c_pcs s t)" and "c_open_holder s' = None"
    and "c_pcs s' = (c_pcs s)(t := p)" and "\<not> in_open p"
  shows "inv_lock s'"
  using assms unfolding inv_lock_def by (metis fun_upd_other fun_upd_same option.distinct(1) option.inject)

lemma step_lock:
  assumes "CacheStep env t s = Some s'" and inv: "inv_lock s"
  shows "inv_lock s'"
  using assms(1)
proof (cases rule: CacheStep_cases)
  case (lock r f search)
  with inv show ?thesis unfolding inv_lock_def by auto
next
  case (open_fails r f search x calls)
  then show ?thesis by (intro inv_lock_release [OF inv, of t s' "Failing r f x"]) simp_all
next
  case (open_known r f search h)
  then show ?thesis by (intro inv_lock_release [OF inv, of t s' "Finding r f search h"]) simp_all
next
  case (open_new r f search h)
  then show ?thesis by (intro inv_lock_release [OF inv, of t s' "Finding r f search h"]) simp_all
qed (auto intro!: inv_lock_same [OF inv] split: if_splits)

lemma step_opened:
  assumes "CacheStep env t s = Some s'" and "inv_opened s"
  shows "inv_opened s'"
  using assms(1)
  by (cases rule: CacheStep_cases) (use assms(2) in \<open>auto simp: inv_opened_def\<close>)

lemma inv_entriesD:
  assumes "inv_entries s"
  shows "registered (c_pcs s t) = Some (n, f) \<Longrightarrow> c_entries s n = None"
    and "c_pcs s t = Delivering r f e \<Longrightarrow> c_entries s (rq_name r) = Some e"
    and "c_pcs s t = Returned r e \<Longrightarrow> c_entries s (rq_name r) = Some e"
    and "c_pcs s t = Sharing r f \<Longrightarrow> c_promises s f = Some oc \<Longrightarrow> oc_error oc = None \<Longrightarrow> oc_other oc = None \<Longrightarrow>
      c_entries s (rq_name r) = Some (oc_entry oc)"
  using assms unfolding inv_entries_def by blast+

text \<open>The thread that owes an outcome runs the load every sharing thread asked for.\<close>

lemma sharing_owner:
  assumes "inv_owner s" and "inv_wait s" and "owing (c_pcs s t) = Some (n, f)" and "c_pcs s u = Sharing r f"
  shows "rq_name r = n"
proof -
  have "awaiting (c_pcs s u) = Some (rq_name r, f)" using assms(4) by simp
  from inv_waitD [OF assms(2) this] inv_ownerD(2) [OF assms(1,3)] obtain v where
    v: "owing (c_pcs s v) = Some (rq_name r, f)" by auto
  then have "v = t" using inv_ownerD(1) [OF assms(1)] assms(3) by blast
  with v assms(3) show ?thesis by simp
qed

lemma inv_entriesI:
  assumes "\<And>t n f. registered (c_pcs s t) = Some (n, f) \<Longrightarrow> c_entries s n = None"
    and "\<And>t r f e. c_pcs s t = Delivering r f e \<Longrightarrow> c_entries s (rq_name r) = Some e"
    and "\<And>t r e. c_pcs s t = Returned r e \<Longrightarrow> c_entries s (rq_name r) = Some e"
    and "\<And>t r f oc. c_pcs s t = Sharing r f \<Longrightarrow> c_promises s f = Some oc \<Longrightarrow> oc_error oc = None \<Longrightarrow>
      oc_other oc = None \<Longrightarrow> c_entries s (rq_name r) = Some (oc_entry oc)"
  shows "inv_entries s"
  using assms unfolding inv_entries_def by blast

text \<open>A step that keeps the entries and the outcomes.\<close>

lemma inv_entries_move:
  assumes inv: "inv_entries s" and s': "c_entries s' = c_entries s" "c_promises s' = c_promises s"
      "c_pcs s' = (c_pcs s)(t := p)"
    and p: "\<And>n f. registered p = Some (n, f) \<Longrightarrow> c_entries s n = None"
      "\<And>r f e. p = Delivering r f e \<Longrightarrow> c_entries s (rq_name r) = Some e"
      "\<And>r e. p = Returned r e \<Longrightarrow> c_entries s (rq_name r) = Some e"
      "\<And>r f. p = Sharing r f \<Longrightarrow> c_promises s f = None"
  shows "inv_entries s'"
proof (rule inv_entriesI)
  fix u n f assume "registered (c_pcs s' u) = Some (n, f)"
  then show "c_entries s' n = None" using inv_entriesD(1) [OF inv, of u n f] p(1) s' by (auto split: if_splits)
next
  fix u r f e assume "c_pcs s' u = Delivering r f e"
  then show "c_entries s' (rq_name r) = Some e"
    using inv_entriesD(2) [OF inv, of u r f e] p(2) s' by (auto split: if_splits)
next
  fix u r e assume "c_pcs s' u = Returned r e"
  then show "c_entries s' (rq_name r) = Some e"
    using inv_entriesD(3) [OF inv, of u r e] p(3) s' by (auto split: if_splits)
next
  fix u r f oc assume "c_pcs s' u = Sharing r f" "c_promises s' f = Some oc" "oc_error oc = None" "oc_other oc = None"
  then show "c_entries s' (rq_name r) = Some (oc_entry oc)"
    using inv_entriesD(4) [OF inv, of u r f oc] p(4) s' by (auto split: if_splits)
qed

lemma step_entries:
  assumes "CacheStep env t s = Some s'" and inv: "inv_entries s" "inv_owner s" "inv_wait s" "inv_flight s"
  shows "inv_entries s'"
  using assms(1)
proof (cases rule: CacheStep_cases)
  case (hit r e)
  then show ?thesis by (intro inv_entries_move [OF inv(1), of s' t "Returned r e"]) auto
next
  case (miss r)
  then show ?thesis by (intro inv_entries_move [OF inv(1), of s' t "Entering r"]) auto
next
  case (share r flight)
  have "c_promises s (fl_future flight) = None"
    using inv_flightD(2) [OF inv(4) share(3)] registered_owing inv_ownerD(2) [OF inv(2)] by blast
  with share show ?thesis by (intro inv_entries_move [OF inv(1), of s' t "Sharing r (fl_future flight)"]) auto
next
  case (old r flight)
  then show ?thesis by (intro inv_entries_move [OF inv(1), of s' t "WaitingOld r (fl_future flight)"]) auto
next
  case (begins r ls n)
  then show ?thesis by (intro inv_entries_move [OF inv(1), of s' t "Searching r (c_next s) ls n"]) auto
next
  case (shared r f oc)
  then show ?thesis using inv_entriesD(4) [OF inv(1) shared(1-4)]
    by (intro inv_entries_move [OF inv(1), of s' t "Returned r (oc_entry oc)"]) auto
next
  case (shared_failure r f oc x)
  then show ?thesis by (intro inv_entries_move [OF inv(1), of s' t "Threw r x"]) auto
next
  case (waited r f oc)
  then show ?thesis by (intro inv_entries_move [OF inv(1), of s' t "Looking r"]) auto
next
  case (fails r f x)
  then show ?thesis using inv_entriesD(1) [OF inv(1) fails(1)]
    by (intro inv_entries_move [OF inv(1), of s' t "Failing r f x"]) auto
next
  case (found r f ls n search)
  then show ?thesis using inv_entriesD(1) [OF inv(1), of t]
    by (intro inv_entries_move [OF inv(1), of s' t "Opening r f search"]) auto
next
  case (lock r f search)
  then show ?thesis using inv_entriesD(1) [OF inv(1), of t]
    by (intro inv_entries_move [OF inv(1), of s' t "InOpen r f search"]) auto
next
  case (open_fails r f search x calls)
  then show ?thesis using inv_entriesD(1) [OF inv(1), of t]
    by (intro inv_entries_move [OF inv(1), of s' t "Failing r f x"]) auto
next
  case (open_known r f search h)
  then show ?thesis using inv_entriesD(1) [OF inv(1), of t]
    by (intro inv_entries_move [OF inv(1), of s' t "Finding r f search h"]) auto
next
  case (open_new r f search h)
  then show ?thesis using inv_entriesD(1) [OF inv(1), of t]
    by (intro inv_entries_move [OF inv(1), of s' t "Finding r f search h"]) auto
next
  case (symbol r f search h e)
  then show ?thesis using inv_entriesD(1) [OF inv(1), of t]
    by (intro inv_entries_move [OF inv(1), of s' t "Publishing r f e"]) auto
next
  case (publish r f e)
  have none: "c_entries s (rq_name r) = None" using inv_entriesD(1) [OF inv(1), of t] publish by simp
  have other: "n \<noteq> rq_name r" if "registered (c_pcs s u) = Some (n, g)" "u \<noteq> t" for u n g
    using registered_unique [OF inv(4,2), of t "rq_name r" f u g] publish that by auto
  show ?thesis
  proof (rule inv_entriesI)
    fix u n g assume "registered (c_pcs s' u) = Some (n, g)"
    then show "c_entries s' n = None"
      using publish other [of u n g] inv_entriesD(1) [OF inv(1), of u n g] by (auto split: if_splits)
  next
    fix u q g a assume "c_pcs s' u = Delivering q g a"
    then show "c_entries s' (rq_name q) = Some a"
      using publish inv_entriesD(2) [OF inv(1), of u q g a] none by (auto split: if_splits)
  next
    fix u q a assume "c_pcs s' u = Returned q a"
    then show "c_entries s' (rq_name q) = Some a"
      using publish inv_entriesD(3) [OF inv(1), of u q a] none by (auto split: if_splits)
  next
    fix u q g oc assume "c_pcs s' u = Sharing q g" "c_promises s' g = Some oc" "oc_error oc = None" "oc_other oc = None"
    then show "c_entries s' (rq_name q) = Some (oc_entry oc)"
      using publish inv_entriesD(4) [OF inv(1), of u q g oc] none by (auto split: if_splits)
  qed
next
  case (deliver r f e)
  have owes: "owing (c_pcs s t) = Some (rq_name r, f)" using deliver by simp
  show ?thesis
  proof (rule inv_entriesI)
    fix u n g assume "registered (c_pcs s' u) = Some (n, g)"
    then show "c_entries s' n = None" using deliver inv_entriesD(1) [OF inv(1), of u n g] by (auto split: if_splits)
  next
    fix u q g a assume "c_pcs s' u = Delivering q g a"
    then show "c_entries s' (rq_name q) = Some a"
      using deliver inv_entriesD(2) [OF inv(1), of u q g a] by (auto split: if_splits)
  next
    fix u q a assume "c_pcs s' u = Returned q a"
    then show "c_entries s' (rq_name q) = Some a"
      using deliver inv_entriesD(3) [OF inv(1), of u q a] inv_entriesD(2) [OF inv(1) deliver(1)]
      by (auto split: if_splits)
  next
    fix u q g oc assume "c_pcs s' u = Sharing q g" "c_promises s' g = Some oc" "oc_error oc = None" "oc_other oc = None"
    then show "c_entries s' (rq_name q) = Some (oc_entry oc)"
      using deliver inv_entriesD(4) [OF inv(1), of u q g oc] inv_entriesD(2) [OF inv(1) deliver(1)]
        sharing_owner [OF inv(2,3) owes, of u q] by (auto split: if_splits)
  qed
next
  case (erase r f x)
  then show ?thesis by (intro inv_entries_move [OF inv(1), of s' t "DeliveringFailure r f x"]) auto
next
  case (deliver_failure r f x oc)
  show ?thesis
  proof (rule inv_entriesI)
    fix u n g assume "registered (c_pcs s' u) = Some (n, g)"
    then show "c_entries s' n = None"
      using deliver_failure inv_entriesD(1) [OF inv(1), of u n g] by (auto split: if_splits)
  next
    fix u q g a assume "c_pcs s' u = Delivering q g a"
    then show "c_entries s' (rq_name q) = Some a"
      using deliver_failure inv_entriesD(2) [OF inv(1), of u q g a] by (auto split: if_splits)
  next
    fix u q a assume "c_pcs s' u = Returned q a"
    then show "c_entries s' (rq_name q) = Some a"
      using deliver_failure inv_entriesD(3) [OF inv(1), of u q a] by (auto split: if_splits)
  next
    fix u q g c assume "c_pcs s' u = Sharing q g" "c_promises s' g = Some c" "oc_error c = None" "oc_other c = None"
    then show "c_entries s' (rq_name q) = Some (oc_entry c)"
      using deliver_failure inv_entriesD(4) [OF inv(1), of u q g c] by (auto split: if_splits)
  qed
qed

definition flight_settings :: "Cache \<Rightarrow> InFlight \<Rightarrow> bool" where
  "flight_settings s fl \<longleftrightarrow>
     (\<exists>ps qs. c_started s (fl_future fl) = Some ps \<and> fl_version fl = of_nat (length ps) \<and> c_paths s = ps @ qs)"

definition search_settings :: "Cache \<Rightarrow> Request \<Rightarrow> nat \<Rightarrow> string list \<Rightarrow> nat \<Rightarrow> bool" where
  "search_settings s r f ls n \<longleftrightarrow>
     (\<exists>ps. c_started s f = Some ps \<and> SearchListBuild ps (rq_org r) (rq_library r) False = (ls, n))"

lemma inv_settings_alt:
  "inv_settings s \<longleftrightarrow>
     c_version s = of_nat (length (c_paths s)) \<and>
     (\<forall>n fl. c_in_flight s n = Some fl \<longrightarrow> flight_settings s fl) \<and>
     (\<forall>t r f ls n. c_pcs s t = Searching r f ls n \<longrightarrow> search_settings s r f ls n)"
  by (simp add: inv_settings_def flight_settings_def search_settings_def)

text \<open>A step that starts no load: the settings stay, flights only end.\<close>

lemma inv_settings_move:
  assumes inv: "inv_settings s"
    and s': "c_paths s' = c_paths s" "c_version s' = c_version s" "c_started s' = c_started s"
    and fl: "\<And>n fl. c_in_flight s' n = Some fl \<Longrightarrow> c_in_flight s n = Some fl"
    and pcs: "c_pcs s' = (c_pcs s)(t := p)" "\<And>r f ls n. p \<noteq> Searching r f ls n"
  shows "inv_settings s'"
proof -
  have "flight_settings s' fl" if "c_in_flight s' n = Some fl" for n fl
    using inv fl [OF that] s' by (auto simp: inv_settings_alt flight_settings_def)
  moreover have "search_settings s' r f ls n" if "c_pcs s' u = Searching r f ls n" for u r f ls n
  proof -
    have "c_pcs s u = Searching r f ls n" using that pcs by (metis fun_upd_apply)
    then show ?thesis using inv s' by (auto simp: inv_settings_alt search_settings_def)
  qed
  ultimately show ?thesis using inv s' by (simp add: inv_settings_alt)
qed

lemma step_settings:
  assumes "CacheStep env t s = Some s'" and inv: "inv_settings s" "inv_owner s" "inv_flight s"
  shows "inv_settings s'"
  using assms(1)
proof (cases rule: CacheStep_cases)
  case (begins r ls n)
  have old: "f \<noteq> c_next s" if "owing (c_pcs s u) = Some (m, f)" for u m f
    using inv_ownerD(2) [OF inv(2) that] by simp
  have "flight_settings s' fl" if fl: "c_in_flight s' m = Some fl" for m fl
  proof (cases "m = rq_name r")
    case True
    with fl begins have "fl = \<lparr>fl_future = c_next s, fl_version = c_version s\<rparr>" by simp
    then show ?thesis using begins inv(1) by (simp add: flight_settings_def inv_settings_alt)
  next
    case False
    with fl begins have flight: "c_in_flight s m = Some fl" by simp
    then obtain u where "registered (c_pcs s u) = Some (m, fl_future fl)" using inv_flightD(2) [OF inv(3)] by blast
    with old registered_owing have "fl_future fl \<noteq> c_next s" by blast
    moreover have "flight_settings s fl" using inv(1) flight by (simp add: inv_settings_alt)
    ultimately show ?thesis using begins by (simp add: flight_settings_def)
  qed
  moreover have "search_settings s' q f ks k" if q: "c_pcs s' u = Searching q f ks k" for u q f ks k
  proof (cases "u = t")
    case True
    with q begins show ?thesis by (simp add: search_settings_def)
  next
    case False
    with q begins have pc: "c_pcs s u = Searching q f ks k" by simp
    then have "owing (c_pcs s u) = Some (rq_name q, f)" by simp
    with old have "f \<noteq> c_next s" by blast
    moreover have "search_settings s q f ks k" using inv(1) pc by (simp add: inv_settings_alt)
    ultimately show ?thesis using begins by (simp add: search_settings_def)
  qed
  moreover have "c_version s' = of_nat (length (c_paths s'))" using begins inv(1) by (simp add: inv_settings_alt)
  ultimately show ?thesis by (simp add: inv_settings_alt)
qed (auto intro!: inv_settings_move [OF inv(1), where t = t] split: if_splits)

lemma CacheStep_inv:
  assumes "CacheStep env t s = Some s'" and "cache_inv s"
  shows "cache_inv s'"
  using assms step_flight [OF assms(1)] step_owner [OF assms(1)] step_wait [OF assms(1)] step_lock [OF assms(1)]
    step_entries [OF assms(1)] step_opened [OF assms(1)] step_settings [OF assms(1)]
  by (simp add: cache_inv_def)

text \<open>A new request, and a new location.\<close>

lemma finished_simps:
  "finished p \<Longrightarrow> registered p = None" "finished p \<Longrightarrow> owing p = None" "finished p \<Longrightarrow> awaiting p = None"
  "finished p \<Longrightarrow> \<not> in_open p"
  by (cases p; simp)+

lemma request_inv:
  assumes idle: "finished (c_pcs s t)" and inv: "cache_inv s"
  shows "cache_inv (goto t (Looking r) s)"
proof -
  note p = finished_simps [OF idle]
  have invs: "inv_flight s" "inv_owner s" "inv_wait s" "inv_lock s" "inv_entries s" "inv_settings s"
    using inv by (simp_all add: cache_inv_def)
  have "inv_flight (goto t (Looking r) s)"
    by (rule inv_flight_same [OF invs(1)]) (auto simp: p)
  moreover have "inv_owner (goto t (Looking r) s)"
    by (rule inv_owner_same [OF invs(2)]) (auto simp: p)
  moreover have "inv_wait (goto t (Looking r) s)"
    by (rule inv_wait_mono [OF invs(3)]) (auto simp: p split: if_splits)
  moreover have "inv_lock (goto t (Looking r) s)"
    by (rule inv_lock_same [OF invs(4)]) (auto simp: p split: if_splits)
  moreover have "inv_entries (goto t (Looking r) s)"
    by (rule inv_entries_move [OF invs(5), of _ t "Looking r"]) (auto simp: p)
  moreover have "inv_settings (goto t (Looking r) s)"
    by (rule inv_settings_move [OF invs(6), of _ t "Looking r"]) (auto simp: p)
  ultimately show ?thesis using inv by (simp add: cache_inv_def inv_opened_def)
qed

lemma PathAdd_simps [simp]:
  "c_pcs (Cache_PathAdd p s) = c_pcs s" "c_entries (Cache_PathAdd p s) = c_entries s"
  "c_in_flight (Cache_PathAdd p s) = c_in_flight s" "c_open_holder (Cache_PathAdd p s) = c_open_holder s"
  "c_libraries (Cache_PathAdd p s) = c_libraries s" "c_promises (Cache_PathAdd p s) = c_promises s"
  "c_next (Cache_PathAdd p s) = c_next s" "c_started (Cache_PathAdd p s) = c_started s"
  "c_opened (Cache_PathAdd p s) = c_opened s" "c_paths (Cache_PathAdd p s) = c_paths s @ [p]"
  "c_version (Cache_PathAdd p s) = c_version s + 1"
  by (simp_all add: Cache_PathAdd_def)

lemma path_add_inv:
  assumes inv: "cache_inv s"
  shows "cache_inv (Cache_PathAdd p s)"
proof -
  have "inv_settings s" using inv by (simp add: cache_inv_def)
  moreover have "flight_settings (Cache_PathAdd p s) fl" if "flight_settings s fl" for fl
    using that by (auto simp: flight_settings_def)
  moreover have "search_settings (Cache_PathAdd p s) r f ls n = search_settings s r f ls n" for r f ls n
    by (simp add: search_settings_def)
  ultimately have "inv_settings (Cache_PathAdd p s)" by (simp add: inv_settings_alt)
  with inv show ?thesis
    by (simp add: cache_inv_def inv_flight_def inv_owner_def inv_wait_def inv_lock_def inv_entries_def inv_opened_def)
qed

lemma reachable_inv: "cache_reachable s \<Longrightarrow> cache_inv s"
proof (induction rule: cache_reachable.induct)
  case start
  show ?case by (rule cache_inv_new)
next
  case (step s s')
  from step.hyps(2) step.IH show ?case
    by cases (auto intro: CacheStep_inv request_inv path_add_inv)
qed

end
