(* ===== verification/Plugin_Loader.thy ===== *)
theory Plugin_Loader
  imports Plugin_Cache
begin

text \<open>
  \<open>src/internal/PluginLoaderCore.hpp\<close>, \<open>src/ComponentLoader.cpp\<close> and \<open>src/SystemLoader.cpp\<close>:
  the two plugin loaders, which check a name and ask the cache; and the properties of the
  cache they rest on: requests for one name agree, a file is opened once, a load that is
  shared uses the current locations, and every request ends.
\<close>

section \<open>Definitions\<close>

record Traits =
  entryPoint :: string
  kind :: string

definition ComponentTraits :: Traits where
  "ComponentTraits = \<lparr>entryPoint = ''create_component'', kind = ''component plugin''\<rparr>"

definition SystemTraits :: Traits where
  "SystemTraits = \<lparr>entryPoint = ''create_system'', kind = ''system plugin''\<rparr>"

text \<open>What \<open>Resolve\<close> asks of the cache, after the name has been accepted.\<close>

definition Resolve :: "Traits \<Rightarrow> string \<Rightarrow> LoadError + Request" where
  "Resolve tr name =
     bindE (NameParser_new name (kind tr)) (\<lambda>parsed.
       Inr \<lparr>rq_name = name, rq_org = org parsed, rq_library = library parsed,
            rq_symbol = entryPoint tr, rq_kind = kind tr\<rparr>)"

text \<open>A call of \<open>Get\<close> or \<open>Create\<close> by a thread: the name is checked, then the request starts.\<close>

definition Core_start :: "Traits \<Rightarrow> nat \<Rightarrow> string \<Rightarrow> Cache \<Rightarrow> Cache" where
  "Core_start tr t name s =
     (case Resolve tr name of
        Inl e \<Rightarrow> goto t (Threw \<lparr>rq_name = name, rq_org = [], rq_library = [], rq_symbol = entryPoint tr,
          rq_kind = kind tr\<rparr> (LoadFailure e)) s
      | Inr r \<Rightarrow> goto t (Looking r) s)"

definition Core_Get :: "Failure + Entry \<Rightarrow> Failure + address" where
  "Core_Get result = bindE result (\<lambda>e. Inr (creator e))"

text \<open>The creator is a function of the plugin: the object it makes, or none.\<close>

definition Core_Create ::
  "Traits \<Rightarrow> string \<Rightarrow> (address \<Rightarrow> 'data \<Rightarrow> 'object option) \<Rightarrow> 'data \<Rightarrow> Failure + Entry \<Rightarrow> Failure + 'object" where
  "Core_Create tr name call arg result =
     bindE result (\<lambda>e.
       case call (creator e) arg of
         None \<Rightarrow> (case NoObjectThrow (entry_file e) name (entryPoint tr) (kind tr) of
             Inl x \<Rightarrow> Inl (LoadFailure x) | Inr y \<Rightarrow> Inr y)
       | Some object \<Rightarrow> Inr object)"

definition Core_PathAdd :: "string \<Rightarrow> Cache \<Rightarrow> Cache" where
  "Core_PathAdd p s = Cache_PathAdd p s"

definition Core_PathsGet :: "Cache \<Rightarrow> string list" where
  "Core_PathsGet s = Cache_PathsGet s"

definition Core_SearchPathsGet :: "Traits \<Rightarrow> string \<Rightarrow> Cache \<Rightarrow> LoadError + string list" where
  "Core_SearchPathsGet tr name s =
     bindE (NameParser_new name (kind tr)) (\<lambda>parsed. Inr (Cache_SearchPathsGet (org parsed) (library parsed) s))"

definition ComponentLoader_Create :: "string \<Rightarrow> (address \<Rightarrow> nat option \<Rightarrow> 'object option) \<Rightarrow> nat option \<Rightarrow> Failure + Entry \<Rightarrow> Failure + 'object" where
  "ComponentLoader_Create name call arg result = Core_Create ComponentTraits name call arg result"

definition SystemLoader_Create :: "string \<Rightarrow> (address \<Rightarrow> nat option \<Rightarrow> 'object option) \<Rightarrow> nat option \<Rightarrow> Failure + Entry \<Rightarrow> Failure + 'object" where
  "SystemLoader_Create name call arg result = Core_Create SystemTraits name call arg result"

text \<open>A sequence of steps of the threads, each with the answers of the platform.\<close>

fun cache_run :: "(Env \<times> nat) list \<Rightarrow> Cache \<Rightarrow> Cache option" where
  "cache_run [] s = Some s"
| "cache_run ((env, t) # es) s = (case CacheStep env t s of None \<Rightarrow> None | Some s' \<Rightarrow> cache_run es s')"

lemma reachable_run: "cache_reachable s \<Longrightarrow> cache_run es s = Some s' \<Longrightarrow> cache_reachable s'"
proof (induction es arbitrary: s)
  case (Cons x es)
  obtain env t where "x = (env, t)" by (cases x)
  with Cons show ?case
    by (auto split: option.splits intro: cache_reachable.step [OF _ cache_step.run])
qed simp

section \<open>An example run\<close>

definition example_env :: Env where
  "example_env = \<lparr>env_fs = example_fs, env_ld = \<lparr>dlopen = (\<lambda>p. Inr 7), dlsym = (\<lambda>h s. Inr 9)\<rparr>, env_throws = None\<rparr>"

definition example_request :: Request where
  "example_request = \<lparr>rq_name = ''x'', rq_org = [], rq_library = ''x'', rq_symbol = ''create_component'',
     rq_kind = ''component plugin''\<rparr>"

definition example_start :: Cache where
  "example_start = goto 1 (Looking example_request) (goto 0 (Looking example_request) (Cache_PathAdd ''/opt/b'' Cache_new))"

definition example_steps :: "nat list \<Rightarrow> (Env \<times> nat) list" where
  "example_steps ts = map (\<lambda>t. (example_env, t)) ts"

lemma example_start_reachable: "cache_reachable example_start"
proof -
  have "cache_reachable (Cache_PathAdd ''/opt/b'' Cache_new)"
    by (rule cache_reachable.step [OF cache_reachable.start cache_step.path_add])
  then have "cache_reachable (goto 0 (Looking example_request) (Cache_PathAdd ''/opt/b'' Cache_new))"
    by (rule cache_reachable.step) (rule cache_step.request, simp add: Cache_new_def)
  then show ?thesis
    unfolding example_start_def by (rule cache_reachable.step) (rule cache_step.request, simp add: Cache_new_def)
qed

definition example_entry :: Entry where
  "example_entry = \<lparr>creator = 9, entry_file = ''/opt/b/libx.so''\<rparr>"

lemma example_shares:
  "map_option (\<lambda>s. (c_pcs s 0, c_pcs s 1, c_opened s)) (cache_run (example_steps [0, 1, 0, 1, 0, 0, 0, 0, 0, 0, 1]) example_start) =
     Some (Returned example_request example_entry, Returned example_request example_entry, [''/store/x''])"
  by code_simp

section \<open>Safety\<close>

text \<open>
  C27: whatever the threads do, requests that return for one name return the same entry, the
  one the cache keeps for it, and only one thread at a time runs a load for a name.
\<close>

theorem requests_agree:
  assumes "cache_reachable s"
  shows "(c_pcs s t = Returned r e \<and> c_pcs s u = Returned r' e' \<and> rq_name r = rq_name r' \<longrightarrow>
      e = e' \<and> c_entries s (rq_name r) = Some e) \<and>
    (registered (c_pcs s t) = Some (n, f) \<and> registered (c_pcs s u) = Some (n, g) \<longrightarrow> t = u \<and> f = g)"
proof -
  have inv: "inv_entries s" "inv_flight s" "inv_owner s" using reachable_inv [OF assms] by (simp_all add: cache_inv_def)
  show ?thesis
    using inv_entriesD(3) [OF inv(1), of t r e] inv_entriesD(3) [OF inv(1), of u r' e']
      registered_unique [OF inv(2,3), of t n f u g] by auto
qed

lemma example_run:
  obtains s where "cache_reachable s" and "c_pcs s 0 = Returned example_request example_entry"
    and "c_pcs s 1 = Returned example_request example_entry" and "c_opened s = [''/store/x'']"
proof -
  obtain s where "cache_run (example_steps [0, 1, 0, 1, 0, 0, 0, 0, 0, 0, 1]) example_start = Some s"
    and "c_pcs s 0 = Returned example_request example_entry"
    and "c_pcs s 1 = Returned example_request example_entry" and "c_opened s = [''/store/x'']"
    using example_shares by (auto simp: map_option_eq_Some)
  then show ?thesis using that reachable_run [OF example_start_reachable] by blast
qed

theorem requests_agree_witness:
  "\<exists>s :: Cache. c_pcs s 0 = Returned example_request example_entry \<and> c_pcs s 1 = Returned example_request example_entry \<and>
     c_entries s ''x'' = Some example_entry"
proof -
  obtain s where s: "cache_reachable s" "c_pcs s 0 = Returned example_request example_entry"
    "c_pcs s 1 = Returned example_request example_entry" by (rule example_run)
  have "c_entries s (rq_name example_request) = Some example_entry"
    using requests_agree [OF s(1), of 0 example_request example_entry 1 example_request example_entry] s(2,3) by simp
  then have "c_entries s ''x'' = Some example_entry" by (simp add: example_request_def)
  show ?thesis by (intro exI [of _ s] conjI) fact+
qed

text \<open>
  C28: a plugin file is opened once: no identity is opened twice however many names resolve
  to it, the libraries kept are exactly those opened, and at most one thread opens a file
  at a time, the one that holds \<open>open_mutex\<close>.
\<close>

theorem file_opened_once:
  assumes "cache_reachable s"
  shows "distinct (c_opened s) \<and> set (c_opened s) = dom (c_libraries s) \<and>
    (in_open (c_pcs s t) \<longleftrightarrow> c_open_holder s = Some t)"
  using reachable_inv [OF assms] by (simp add: cache_inv_def inv_opened_def inv_lock_def)

theorem file_opened_once_witness:
  "\<exists>s :: Cache. c_opened s = [''/store/x''] \<and> dom (c_libraries s) = {''/store/x''}"
proof -
  obtain s where s: "cache_reachable s" "c_opened s = [''/store/x'']" by (rule example_run)
  have "set (c_opened s) = dom (c_libraries s)" using file_opened_once [OF s(1), of 0] by blast
  then have "dom (c_libraries s) = {''/store/x''}" unfolding s(2) by simp
  show ?thesis by (intro exI [of _ s] conjI) fact+
qed

text \<open>
  Opens are serialised: while a thread is inside \<open>dlopen\<close>, every other thread that wants to
  open a file waits, also for a different file.
\<close>

theorem open_lock_held_while_opening:
  assumes "cache_reachable s" and "c_pcs s t = InOpen r f search" and "c_pcs s u = Opening q g sr"
  shows "CacheStep env u s = None"
proof -
  have "c_open_holder s = Some t"
    using reachable_inv [OF assms(1)] assms(2) unfolding cache_inv_def inv_lock_def by (metis in_open.simps(1))
  then show ?thesis using assms(3) by (simp add: CacheStep_def LockOpen_def)
qed

text \<open>
  C29: a request shares the result of a running load only when that load was started with the
  locations configured now, and a load searches the locations configured when it started.
  The version that decides is a 64-bit counter, so this is proved for fewer than \<open>2^64\<close>
  locations.
\<close>

theorem shared_load_is_current:
  assumes "cache_reachable s" and "length (c_paths s) < 2 ^ 64"
    and "c_pcs s t = Entering r" and "CacheStep env t s = Some s'" and "c_pcs s' t = Sharing r f"
  shows "c_started s f = Some (c_paths s) \<and>
    (\<forall>u q ls n. c_pcs s u = Searching q f ls n \<longrightarrow>
       SearchListBuild (c_paths s) (rq_org q) (rq_library q) False = (ls, n))"
proof -
  have inv: "inv_settings s" using reachable_inv [OF assms(1)] by (simp add: cache_inv_def)
  obtain flight where fl: "c_in_flight s (rq_name r) = Some flight" "fl_version flight = c_version s" "f = fl_future flight"
    using assms(3-5) by (auto simp: CacheStep_def LookUnique_def Let_def split: option.splits if_splits prod.splits)
  then have "flight_settings s flight" using inv by (simp add: inv_settings_alt)
  then obtain ps qs where ps: "c_started s f = Some ps" "fl_version flight = of_nat (length ps)" "c_paths s = ps @ qs"
    using fl(3) by (auto simp: flight_settings_def)
  have "(of_nat (length ps) :: u64) = of_nat (length (c_paths s))"
    using fl(2) ps(2) inv by (simp add: inv_settings_alt)
  then have "unat (of_nat (length ps) :: u64) = unat (of_nat (length (c_paths s)) :: u64)" by simp
  moreover have "length ps < 2 ^ 64" using assms(2) ps(3) by simp
  ultimately have "length ps = length (c_paths s)"
    using assms(2) by (simp add: unat_of_nat take_bit_nat_eq_self)
  then have current: "c_started s f = Some (c_paths s)" using ps by simp
  have "SearchListBuild (c_paths s) (rq_org q) (rq_library q) False = (ls, n)" if "c_pcs s u = Searching q f ls n" for u q ls n
  proof -
    have "search_settings s q f ls n" using inv that unfolding inv_settings_alt by blast
    then show ?thesis using current by (simp add: search_settings_def)
  qed
  with current show ?thesis by blast
qed

lemma example_joins:
  "map_option (\<lambda>s. (c_pcs s 1, c_paths s, map_option (\<lambda>s'. c_pcs s' 1) (CacheStep example_env 1 s)))
     (cache_run (example_steps [0, 1, 0]) example_start) =
     Some (Entering example_request, [''/opt/b''], Some (Sharing example_request 0))"
  by code_simp

theorem shared_load_is_current_witness:
  "\<exists>s :: Cache. c_pcs s 1 = Entering example_request \<and> c_started s 0 = Some [''/opt/b'']"
proof -
  obtain s s' where run: "cache_run (example_steps [0, 1, 0]) example_start = Some s"
    and s: "c_pcs s 1 = Entering example_request" "c_paths s = [''/opt/b'']"
    and s': "CacheStep example_env 1 s = Some s'" "c_pcs s' 1 = Sharing example_request 0"
    using example_joins by (auto simp: map_option_eq_Some)
  have "c_started s 0 = Some (c_paths s)"
    using shared_load_is_current [OF reachable_run [OF example_start_reachable run] _ s(1) s'] s(2) by simp
  then have "c_started s 0 = Some [''/opt/b'']" unfolding s(2) .
  show ?thesis by (intro exI [of _ s] conjI) fact+
qed

section \<open>Progress\<close>

text \<open>Whether the load in flight under a name was started with other settings than the current ones.\<close>

definition stale :: "Cache \<Rightarrow> string \<Rightarrow> nat option \<Rightarrow> bool" where
  "stale s n x =
     (case c_in_flight s n of
        Some fl \<Rightarrow> fl_version fl \<noteq> c_version s \<and> Some (fl_future fl) \<noteq> x
      | None \<Rightarrow> False)"

fun rank :: "Cache \<Rightarrow> pc \<Rightarrow> nat" where
  "rank s (Looking r) = 12 + (if stale s (rq_name r) None then 20 else 0)"
| "rank s (Entering r) = 11 + (if stale s (rq_name r) None then 20 else 0)"
| "rank s (WaitingOld r f) = 13 + (if stale s (rq_name r) (Some f) then 20 else 0)"
| "rank s (Sharing r f) = 1"
| "rank s (Searching r f ls n) = 10"
| "rank s (Opening r f search) = 9"
| "rank s (InOpen r f search) = 8"
| "rank s (Finding r f search h) = 7"
| "rank s (Publishing r f e) = 6"
| "rank s (Delivering r f e) = 5"
| "rank s (Failing r f x) = 6"
| "rank s (DeliveringFailure r f x) = 5"
| "rank s _ = 0"

lemma rank_bound: "rank s p \<le> 33"
  by (cases p) simp_all

lemma rank_finished: "finished p \<Longrightarrow> rank s p = 0"
  by (cases p) simp_all

lemma step_flights:
  assumes "CacheStep env t s = Some s'"
  shows "c_version s' = c_version s"
    and "c_in_flight s' n = Some fl \<Longrightarrow> c_in_flight s n = Some fl \<or> fl_version fl = c_version s"
  using assms by (cases rule: CacheStep_cases; auto split: if_splits)+

lemma step_stale:
  assumes "CacheStep env t s = Some s'" and "stale s' n x"
  shows "stale s n x"
  using step_flights [OF assms(1)] assms(2) by (auto simp: stale_def split: option.splits) (metis option.distinct(1) option.inject)+

lemma step_others:
  assumes "CacheStep env t s = Some s'" and "u \<noteq> t"
  shows "c_pcs s' u = c_pcs s u"
  using assms(1) by (cases rule: CacheStep_cases) (use assms(2) in auto)

lemma rank_mono:
  assumes "CacheStep env t s = Some s'"
  shows "rank s' p \<le> rank s p"
  using step_stale [OF assms] by (cases p) auto

text \<open>A load that was waited for and is over is not in flight any more.\<close>

lemma done_not_in_flight:
  assumes "cache_inv s" and "c_promises s f = Some oc" and "c_in_flight s n = Some fl"
  shows "fl_future fl \<noteq> f"
proof
  assume f: "fl_future fl = f"
  have inv: "inv_flight s" "inv_owner s" using assms(1) by (simp_all add: cache_inv_def)
  obtain t where "owing (c_pcs s t) = Some (n, f)"
    using inv_flightD(2) [OF inv(1) assms(3)] registered_owing f by blast
  with inv_ownerD(2) [OF inv(2)] assms(2) show False by force
qed

lemma rank_decreases:
  assumes step: "CacheStep env t s = Some s'" and inv: "cache_inv s"
  shows "rank s' (c_pcs s' t) < rank s (c_pcs s t)"
  using step
proof (cases rule: CacheStep_cases)
  case (miss r)
  then show ?thesis using step_stale [OF step] by auto
next
  case (old r flight)
  have "stale s (rq_name r) None" using old by (simp add: stale_def)
  moreover have "\<not> stale s' (rq_name r) (Some (fl_future flight))" using old by (simp add: stale_def)
  ultimately show ?thesis using old by simp
next
  case (waited r f oc)
  have "stale s (rq_name r) (Some f)" if "stale s' (rq_name r) None"
    using step_stale [OF step that] done_not_in_flight [OF inv waited(2)] by (auto simp: stale_def split: option.splits)
  then show ?thesis using waited by auto
next
  case (fails r f x)
  then show ?thesis by (cases "c_pcs s t") auto
next
  case (hit r e)
  then show ?thesis by auto
qed auto

lemma sum_decreases:
  fixes f g :: "nat \<Rightarrow> nat"
  assumes "finite T" and "t \<in> T" and "f t < g t" and "\<And>u. f u \<le> g u"
  shows "sum f T < sum g T"
  using assms by (intro sum_strict_mono_ex1) auto

lemma progress_measure:
  assumes "CacheStep env t s = Some s'" and "cache_inv s" and "finite T" and "t \<in> T"
  shows "(\<Sum>u\<in>T. rank s' (c_pcs s' u)) < (\<Sum>u\<in>T. rank s (c_pcs s u))"
proof (rule sum_decreases [OF assms(3,4)])
  show "rank s' (c_pcs s' t) < rank s (c_pcs s t)" by (rule rank_decreases [OF assms(1,2)])
  fix u
  show "rank s' (c_pcs s' u) \<le> rank s (c_pcs s u)"
    using rank_mono [OF assms(1), of "c_pcs s u"] step_others [OF assms(1), of u] rank_decreases [OF assms(1,2)]
    by (cases "u = t") auto
qed

lemma step_unfinished: "CacheStep env t s = Some s' \<Longrightarrow> \<not> finished (c_pcs s t)"
  by (cases "c_pcs s t") (auto simp: CacheStep_def)

lemma run_bounded:
  assumes "cache_reachable s" and "finite T" and "\<And>t. \<not> finished (c_pcs s t) \<Longrightarrow> t \<in> T"
    and "cache_run es s = Some s'"
  shows "length es + (\<Sum>u\<in>T. rank s' (c_pcs s' u)) \<le> (\<Sum>u\<in>T. rank s (c_pcs s u))"
  using assms
proof (induction es arbitrary: s)
  case (Cons x es)
  obtain env t where x: "x = (env, t)" by (cases x)
  with Cons.prems(4) obtain s1 where s1: "CacheStep env t s = Some s1" "cache_run es s1 = Some s'"
    by (auto split: option.splits)
  have t: "t \<in> T" using Cons.prems(3) step_unfinished [OF s1(1)] by blast
  have reach: "cache_reachable s1" by (rule cache_reachable.step [OF Cons.prems(1) cache_step.run [OF s1(1)]])
  have "u \<in> T" if "\<not> finished (c_pcs s1 u)" for u
    using that t step_others [OF s1(1), of u] Cons.prems(3) by (cases "u = t") auto
  from Cons.IH [OF reach Cons.prems(2) this s1(2)]
    progress_measure [OF s1(1) reachable_inv [OF Cons.prems(1)] Cons.prems(2) t]
  show ?case by simp
qed simp

text \<open>A thread that has to wait waits for another one that can go on.\<close>

lemma in_open_steps: "in_open (c_pcs s t) \<Longrightarrow> CacheStep env t s \<noteq> None"
  by (cases "c_pcs s t") (auto simp: CacheStep_def)

lemma owing_steps:
  assumes "inv_lock s" and "owing (c_pcs s t) = Some x"
  shows "\<exists>u. CacheStep env u s \<noteq> None"
proof (cases "CacheStep env t s = None")
  case True
  then obtain u where "c_open_holder s = Some u"
    using assms(2) by (cases "c_pcs s t") (auto simp: CacheStep_def LockOpen_def split: if_splits)
  then show ?thesis using assms(1) in_open_steps by (metis inv_lock_def)
qed blast

lemma no_deadlock:
  assumes "cache_inv s" and "\<not> finished (c_pcs s t)"
  shows "\<exists>u. CacheStep env u s \<noteq> None"
proof -
  have inv: "inv_wait s" "inv_lock s" using assms(1) by (simp_all add: cache_inv_def)
  show ?thesis
  proof (cases "awaiting (c_pcs s t)")
    case (Some x)
    obtain n f where x: "x = (n, f)" by (cases x)
    from inv_waitD [OF inv(1), of t n f] Some x
    consider "c_promises s f \<noteq> None" | u where "owing (c_pcs s u) = Some (n, f)" by auto
    then show ?thesis
    proof cases
      case 1
      then have "CacheStep env t s \<noteq> None"
        using Some x by (cases "c_pcs s t") (auto simp: CacheStep_def ShareResult_def WaitOld_def)
      then show ?thesis by blast
    qed (rule owing_steps [OF inv(2)])
  next
    case None
    show ?thesis
    proof (cases "owing (c_pcs s t)")
      case None
      with assms(2) \<open>awaiting (c_pcs s t) = None\<close> have "CacheStep env t s \<noteq> None"
        by (cases "c_pcs s t") (auto simp: CacheStep_def)
      then show ?thesis by blast
    qed (rule owing_steps [OF inv(2)])
  qed
qed

text \<open>
  C30: every request ends. From any reachable state, with no further request and no further
  location, whichever thread goes on and whatever the platform answers, the threads with
  unfinished requests make at most 33 steps each; and when none of them can go on, every
  request has returned or thrown. No thread waits for ever, for a load or for a lock.
\<close>

theorem requests_finish:
  assumes "cache_reachable s" and "finite T" and "\<And>t. \<not> finished (c_pcs s t) \<Longrightarrow> t \<in> T"
    and "cache_run es s = Some s'"
  shows "length es \<le> 33 * card T \<and> (finished (c_pcs s' t) \<or> (\<exists>u. CacheStep env u s' \<noteq> None))"
proof -
  have "length es \<le> (\<Sum>u\<in>T. rank s (c_pcs s u))"
    using run_bounded [OF assms] by linarith
  also have "\<dots> \<le> card T * 33" using sum_bounded_above [of T "\<lambda>u. rank s (c_pcs s u)" 33] rank_bound by simp
  finally show ?thesis
    using no_deadlock [OF reachable_inv [OF reachable_run [OF assms(1,4)]], of t env] by auto
qed

theorem requests_finish_witness:
  "\<exists>s. cache_run (example_steps [0, 1, 0, 1, 0, 0, 0, 0, 0, 0, 1]) example_start = Some s \<and>
     (finished (c_pcs s 0) \<or> (\<exists>u. CacheStep example_env u s \<noteq> None))"
proof -
  obtain s where run: "cache_run (example_steps [0, 1, 0, 1, 0, 0, 0, 0, 0, 0, 1]) example_start = Some s"
    using example_shares by (auto simp: map_option_eq_Some)
  have "t \<in> {0, 1}" if "\<not> finished (c_pcs example_start t)" for t
    using that by (auto simp: example_start_def Cache_new_def split: if_splits)
  from requests_finish [OF example_start_reachable _ this run, of 0 example_env] run show ?thesis by auto
qed

end
