(* ===== verification/Cfb_Reader.thy ===== *)
theory Cfb_Reader
  imports Bounded_Bytes
begin

text \<open>
  \<open>src/internal/CfbReader.cpp\<close> and \<open>.hpp\<close>: the reader of compound files, the container of
  Windows installer packages. A package is parsed into a \<open>PackageModel\<close>: the header, the
  sectors of the FAT, the mini-FAT, and the tree of storages and streams.

  The members of the class are the record \<open>PackageModel\<close>. A call that changes the model
  gives the model after it also when it throws, since the caller may go on using it; the
  process-wide counter of mini stream walks is passed along the same way. Access to a vector
  outside its size is \<open>memory_fault\<close>. The chains and the tree walk end because every step
  marks a sector or an entry that was not marked.
\<close>

section \<open>Data\<close>

definition cfb_format :: string where "cfb_format = ''MSI''"
definition kCfbEndOfChain :: u32 where "kCfbEndOfChain = 0xFFFFFFFE"
definition kCfbFreeSector :: u32 where "kCfbFreeSector = 0xFFFFFFFF"
definition kCfbNoStream :: u32 where "kCfbNoStream = 0xFFFFFFFF"
definition kCfbMaxStorageDepth :: nat where "kCfbMaxStorageDepth = 32"
definition kCfbNone :: u32 where "kCfbNone = 0xFFFFFFFF"

definition kMagic :: bytes where "kMagic = [0xD0, 0xCF, 0x11, 0xE0, 0xA1, 0xB1, 0x1A, 0xE1]"
definition kTypeUnknown :: u8 where "kTypeUnknown = 0"
definition kTypeStorage :: u8 where "kTypeStorage = 1"
definition kTypeStream :: u8 where "kTypeStream = 2"
definition kTypeRoot :: u8 where "kTypeRoot = 5"
definition kSectorExponentV3 :: u16 where "kSectorExponentV3 = 9"
definition kSectorExponentV4 :: u16 where "kSectorExponentV4 = 12"
definition kMiniSectorExponent :: u16 where "kMiniSectorExponent = 6"
definition kMiniStreamCutoff :: u32 where "kMiniStreamCutoff = 4096"
definition kHeaderDifatEntries :: nat where "kHeaderDifatEntries = 109"
definition kDirEntrySize :: u64 where "kDirEntrySize = 128"

type_synonym u16string = "u16 list"

record CfbHeader =
  major_version :: u16
  minor_version :: u16
  sector_size :: u32
  mini_sector_size :: u32
  mini_stream_cutoff :: u32

definition CfbHeader_default :: CfbHeader where
  "CfbHeader_default = \<lparr>major_version = 0, minor_version = 0, sector_size = 0, mini_sector_size = 0, mini_stream_cutoff = 0\<rparr>"

record ByteExtent =
  ext_offset :: u64
  ext_length :: u64

datatype CfbNode = CfbNode
  (node_name: u16string) (is_storage: bool) (class_id: bytes) (state_bits: u32)
  (creation_time: u64) (modification_time: u64) (start_sector: u32) (node_size: u64)
  (node_children: "CfbNode list") (tree_root: u32) (node_left: u32) (node_right: u32)

definition CfbNode_default :: CfbNode where
  "CfbNode_default = CfbNode [] False (replicate 16 0) 0 0 0 kCfbEndOfChain 0 [] kCfbNone kCfbNone kCfbNone"

definition at_index :: "'a list \<Rightarrow> nat \<Rightarrow> 'a res" where
  "at_index xs i = (if i < length xs then Inr (xs ! i) else Inl memory_fault)"

definition set_index :: "'a list \<Rightarrow> nat \<Rightarrow> 'a \<Rightarrow> 'a list res" where
  "set_index xs i x = (if i < length xs then Inr (xs[i := x]) else Inl memory_fault)"

subsection \<open>Which stream used each sector\<close>

definition kBlockSize :: u32 where "kBlockSize = 4096"

record SectorOwners =
  owners_count :: u64
  owner_blocks :: "u32 list list"

definition SectorOwners_default :: SectorOwners where
  "SectorOwners_default = \<lparr>owners_count = 0, owner_blocks = []\<rparr>"

definition SectorOwners_new :: "u64 \<Rightarrow> SectorOwners" where
  "SectorOwners_new count =
     \<lparr>owners_count = count,
      owner_blocks = replicate (unat ((count + ucast kBlockSize - 1) div ucast kBlockSize)) []\<rparr>"

definition Owners_Get :: "SectorOwners \<Rightarrow> u32 \<Rightarrow> u32 res" where
  "Owners_Get owners sector =
     bindE (at_index (owner_blocks owners) (unat (sector div kBlockSize))) (\<lambda>block.
       if block = [] then Inr 0 else at_index block (unat (sector mod kBlockSize)))"

definition Owners_Set :: "SectorOwners \<Rightarrow> u32 \<Rightarrow> u32 \<Rightarrow> SectorOwners res" where
  "Owners_Set owners sector i =
     bindE (at_index (owner_blocks owners) (unat (sector div kBlockSize))) (\<lambda>block.
     bindE (set_index (if block = [] then replicate (unat kBlockSize) 0 else block) (unat (sector mod kBlockSize)) i) (\<lambda>block'.
     Inr (owners\<lparr>owner_blocks := (owner_blocks owners)[unat (sector div kBlockSize) := block']\<rparr>)))"

subsection \<open>The model of a package\<close>

record PackageModel =
  source :: ByteSpan
  header :: CfbHeader
  root :: CfbNode
  first_dir_sector :: u32
  first_mini_fat_sector :: u32
  total_mini_fat_sectors :: u32
  first_difat_sector :: u32
  total_difat_sectors :: u32
  fat_sectors :: "u32 list"
  mini_fat :: "u32 list"
  mini_container_start :: u32
  mini_container_size :: u64
  mini_container_chain :: "u32 list"
  mini_container_ready :: bool
  sector_owner :: SectorOwners
  mini_owner :: "u32 list"
  last_owner :: u32

definition PackageModel_new :: "ByteSpan \<Rightarrow> PackageModel" where
  "PackageModel_new sp =
     \<lparr>source = sp, header = CfbHeader_default, root = CfbNode_default, first_dir_sector = 0, first_mini_fat_sector = 0,
      total_mini_fat_sectors = 0, first_difat_sector = 0, total_difat_sectors = 0, fat_sectors = [], mini_fat = [],
      mini_container_start = kCfbEndOfChain, mini_container_size = 0, mini_container_chain = [],
      mini_container_ready = False, sector_owner = SectorOwners_default, mini_owner = [], last_owner = 0\<rparr>"

definition SourceSize :: "PackageModel \<Rightarrow> u64" where
  "SourceSize m = span_size (source m)"

section \<open>Geometry\<close>

definition UnitsFor :: "u64 \<Rightarrow> u64 \<Rightarrow> u64" where
  "UnitsFor sz unit = sz div unit + (if sz mod unit \<noteq> 0 then 1 else 0)"

definition AppendExtent :: "ByteExtent list \<Rightarrow> u64 \<Rightarrow> u64 \<Rightarrow> ByteExtent list" where
  "AppendExtent extents offset len =
     (if extents \<noteq> [] \<and> ext_offset (last extents) + ext_length (last extents) = offset
      then butlast extents @ [(last extents)\<lparr>ext_length := ext_length (last extents) + len\<rparr>]
      else extents @ [\<lparr>ext_offset = offset, ext_length = len\<rparr>])"

definition UpperCase :: "u16 \<Rightarrow> u16" where
  "UpperCase unit = (if unit \<ge> 97 \<and> unit \<le> 122 then unit - 32 else unit)"

definition HeaderSize :: "PackageModel \<Rightarrow> u64" where
  "HeaderSize m = (if major_version (header m) = 4 then 4096 else 512)"

definition SectorCount :: "PackageModel \<Rightarrow> u64" where
  "SectorCount m =
     (if span_size (source m) \<le> HeaderSize m then 0
      else (span_size (source m) - HeaderSize m + ucast (sector_size (header m)) - 1) div ucast (sector_size (header m)))"

definition SectorStart :: "PackageModel \<Rightarrow> u32 \<Rightarrow> u64" where
  "SectorStart m sector_id = HeaderSize m + ucast sector_id * ucast (sector_size (header m))"

definition Sector :: "PackageModel \<Rightarrow> u32 \<Rightarrow> u64 \<Rightarrow> string \<Rightarrow> ByteSpan res" where
  "Sector m sector_id len what =
     (if ucast sector_id \<ge> SectorCount m then
        ThrowMalformed cfb_format (what @ '' '' @ to_string sector_id @ '' is past the end of the file ('' @
          to_string (SectorCount m) @ '' sectors)'')
      else Sub (source m) (SectorStart m sector_id) len what)"

definition FatSize :: "PackageModel \<Rightarrow> u64" where
  "FatSize m = word_of_nat (length (fat_sectors m)) * ucast (sector_size (header m) div 4)"

definition FatEntry :: "ByteOrder \<Rightarrow> PackageModel \<Rightarrow> u32 \<Rightarrow> u32 res" where
  "FatEntry host m sector_id =
     (let per_sector = ucast (sector_size (header m) div 4) :: u64 in
      bindE (at_index (fat_sectors m) (unat (ucast sector_id div per_sector))) (\<lambda>fat_sector.
      Read host (source m) (SectorStart m fat_sector + (ucast sector_id mod per_sector) * 4) Little ''FAT entry''))"

section \<open>Chains\<close>

lemma u32_div_mod_eq: "unat (c div k) = unat (s div k) \<Longrightarrow> unat (c mod k) = unat (s mod k) \<Longrightarrow> c = (s :: u32)"
  by (metis word_unat_eq_iff word_mod_div_equality)

lemma Owners_Get_Set:
  assumes "Owners_Set owners s i = Inr owners'"
  shows "Owners_Get owners' c = (if c = s then Inr i else Owners_Get owners c)"
proof -
  let ?d = "\<lambda>c :: u32. unat (c div kBlockSize)" and ?m = "\<lambda>c :: u32. unat (c mod kBlockSize)"
  have m: "?m c < unat kBlockSize" for c
    by (simp add: unat_mod kBlockSize_def)
  from assms obtain block where block: "?d s < length (owner_blocks owners)" "owner_blocks owners ! ?d s = block"
    and full: "?m s < length (if block = [] then replicate (unat kBlockSize) 0 else block)"
    and o': "owner_blocks owners' = (owner_blocks owners)[?d s := (if block = [] then replicate (unat kBlockSize) 0 else block)[?m s := i]]"
    by (auto simp: Owners_Set_def at_index_def set_index_def split: if_splits)
  show ?thesis
  proof (cases "?d c = ?d s")
    case True
    then have "c = s \<longleftrightarrow> ?m c = ?m s" using u32_div_mod_eq [of c kBlockSize s] by auto
    then show ?thesis using True block full m [of c]
      by (auto simp: Owners_Get_def at_index_def o' nth_list_update)
  next
    case False
    then have "c \<noteq> s" by auto
    with False show ?thesis by (simp add: Owners_Get_def at_index_def o')
  qed
qed

definition unvisited :: "SectorOwners \<Rightarrow> u32 \<Rightarrow> nat" where
  "unvisited owners i = card {c. Owners_Get owners c \<noteq> Inr i}"

lemma Owners_Set_decreases:
  assumes "Owners_Set owners s i = Inr owners'" and "Owners_Get owners s = Inr v" and "v \<noteq> i"
  shows "unvisited owners' i < unvisited owners i"
  unfolding unvisited_def
proof (rule psubset_card_mono)
  have "c \<in> {c. Owners_Get owners c \<noteq> Inr i}" if "c \<in> {c. Owners_Get owners' c \<noteq> Inr i}" for c
    using that Owners_Get_Set [OF assms(1), of c] by (simp split: if_splits)
  moreover have "s \<in> {c. Owners_Get owners c \<noteq> Inr i}" "s \<notin> {c. Owners_Get owners' c \<noteq> Inr i}"
    using assms(2,3) Owners_Get_Set [OF assms(1), of s] by simp_all
  ultimately show "{c. Owners_Get owners' c \<noteq> Inr i} \<subset> {c. Owners_Get owners c \<noteq> Inr i}" by blast
qed simp

function WalkChain ::
  "ByteOrder \<Rightarrow> PackageModel \<Rightarrow> u32 \<Rightarrow> SectorOwners \<Rightarrow> u32 \<Rightarrow> string \<Rightarrow> u32 list \<Rightarrow> u32 list res \<times> SectorOwners" where
  "WalkChain host m current owner i what chain =
     (if current = kCfbEndOfChain then (Inr chain, owner)
      else if ucast current \<ge> FatSize m then
        (ThrowMalformed cfb_format (what @ '' chain sector '' @ to_string current @ '' is past the end of the FAT ('' @
           to_string (FatSize m) @ '' entries)''), owner)
      else if ucast current \<ge> SectorCount m then
        (ThrowMalformed cfb_format (what @ '' chain sector '' @ to_string current @ '' is past the end of the file ('' @
           to_string (SectorCount m) @ '' sectors)''), owner)
      else case Owners_Get owner current of
        Inl e \<Rightarrow> (Inl e, owner)
      | Inr v \<Rightarrow>
          if v = i then
            (ThrowMalformed cfb_format (what @ '' chain has a loop at sector '' @ to_string current), owner)
          else if v \<noteq> 0 then
            (ThrowMalformed cfb_format (''sector '' @ to_string current @ '' is used by more than one stream''), owner)
          else (case Owners_Set owner current i of
              Inl e \<Rightarrow> (Inl e, owner)
            | Inr owner' \<Rightarrow>
                (case FatEntry host m current of
                   Inl e \<Rightarrow> (Inl e, owner')
                 | Inr following \<Rightarrow> WalkChain host m following owner' i what (chain @ [current]))))"
  by pat_completeness auto
termination
  by (relation "measure (\<lambda>(host, m, current, owner, i, what, chain). unvisited owner i)")
    (auto intro: Owners_Set_decreases)

declare WalkChain.simps [simp del]

definition FollowChain :: "ByteOrder \<Rightarrow> PackageModel \<Rightarrow> u32 \<Rightarrow> string \<Rightarrow> u32 list res" where
  "FollowChain host m start what = fst (WalkChain host m start (SectorOwners_new (SectorCount m)) 1 what [])"

text \<open>The loop over the mini-FAT, with the table of owners.\<close>

definition unmarked :: "u32 list \<Rightarrow> u32 \<Rightarrow> nat" where
  "unmarked owners i = length (filter (\<lambda>v. v \<noteq> i) owners)"

lemma unmarked_decreases:
  "c < length owners \<Longrightarrow> owners ! c \<noteq> i \<Longrightarrow> unmarked (owners[c := i]) i < unmarked owners i"
  unfolding unmarked_def
proof (induction owners arbitrary: c)
  case (Cons v vs)
  then show ?case by (cases c) auto
qed simp

function WalkMini :: "u32 list \<Rightarrow> u32 \<Rightarrow> u32 list \<Rightarrow> u32 \<Rightarrow> u32 list \<Rightarrow> u32 list res \<times> u32 list" where
  "WalkMini fat current owner i chain =
     (if current = kCfbEndOfChain then (Inr chain, owner)
      else if unat current \<ge> length fat then
        (ThrowMalformed cfb_format (''stream mini sector '' @ to_string current @ '' is past the end of the mini-FAT ('' @
           dec (length fat) @ '' entries)''), owner)
      else if unat current \<ge> length owner then (Inl memory_fault, owner)
      else if owner ! unat current = i then
        (ThrowMalformed cfb_format (''stream mini-FAT chain has a loop at mini sector '' @ to_string current), owner)
      else if owner ! unat current \<noteq> 0 then
        (ThrowMalformed cfb_format (''mini sector '' @ to_string current @ '' is used by more than one stream''), owner)
      else WalkMini fat (fat ! unat current) (owner[unat current := i]) i (chain @ [current]))"
  by pat_completeness auto
termination
  by (relation "measure (\<lambda>(fat, current, owner, i, chain). unmarked owner i)") (auto intro: unmarked_decreases)

declare WalkMini.simps [simp del]

definition WalkMiniChain :: "PackageModel \<Rightarrow> u32 \<Rightarrow> u32 \<Rightarrow> u32 list res \<times> PackageModel" where
  "WalkMiniChain m start i =
     (let owner = (if length (mini_owner m) \<noteq> length (mini_fat m) then replicate (length (mini_fat m)) 0 else mini_owner m);
          (chain, owner') = WalkMini (mini_fat m) start owner i [] in
      (chain, m\<lparr>mini_owner := owner'\<rparr>))"

section \<open>Streams\<close>

definition CheckChainLength :: "u64 \<Rightarrow> u64 \<Rightarrow> u64 \<Rightarrow> string \<Rightarrow> unit res" where
  "CheckChainLength sz chain_length unit unit_name =
     (let needed = UnitsFor sz unit in
      if chain_length < needed then
        ThrowMalformed cfb_format (''stream size '' @ to_string sz @ '' exceeds its chain of '' @
          to_string chain_length @ '' '' @ unit_name)
      else if chain_length > needed then
        ThrowMalformed cfb_format (''stream size '' @ to_string sz @ '' disagrees with its chain of '' @
          to_string chain_length @ '' '' @ unit_name @ '' (it needs '' @ to_string needed @ '')'')
      else Inr ())"

definition SectorPastEnd :: "PackageModel \<Rightarrow> u32 \<Rightarrow> 'a res" where
  "SectorPastEnd m sector =
     ThrowMalformed cfb_format (''stream sector '' @ to_string sector @ '' extends past the end of the file ('' @
       to_string (span_size (source m)) @ '' bytes)'')"

definition OrdinaryExtent ::
  "PackageModel \<Rightarrow> ByteExtent list \<times> u64 \<Rightarrow> u32 \<Rightarrow> (ByteExtent list \<times> u64) res" where
  "OrdinaryExtent m = (\<lambda>(extents, remaining) sector.
     let chunk = min (ucast (sector_size (header m))) remaining in
     if \<not> RangeFits (SectorStart m sector) chunk (span_size (source m)) then SectorPastEnd m sector
     else Inr (AppendExtent extents (SectorStart m sector) chunk, remaining - chunk))"

definition with_sector_owner :: "PackageModel \<Rightarrow> PackageModel" where
  "with_sector_owner m =
     (if owners_count (sector_owner m) \<noteq> SectorCount m then m\<lparr>sector_owner := SectorOwners_new (SectorCount m)\<rparr> else m)"

definition WalkStream :: "ByteOrder \<Rightarrow> PackageModel \<Rightarrow> u32 \<Rightarrow> u32 list res \<times> PackageModel" where
  "WalkStream host m start =
     (let m1 = with_sector_owner m;
          i = last_owner m1 + 1;
          (chain, owner) = WalkChain host m1 start (sector_owner m1) i ''stream'' [] in
      (chain, m1\<lparr>last_owner := i, sector_owner := owner\<rparr>))"

definition ResolveOrdinary :: "ByteOrder \<Rightarrow> PackageModel \<Rightarrow> CfbNode \<Rightarrow> ByteExtent list res \<times> PackageModel" where
  "ResolveOrdinary host m stream =
     (let (walked, m') = WalkStream host m (start_sector stream) in
      (bindE walked (\<lambda>chain.
       bindE (CheckChainLength (node_size stream) (word_of_nat (length chain)) (ucast (sector_size (header m'))) ''sectors'') (\<lambda>_.
       bindE (foldE (OrdinaryExtent m') ([], node_size stream) chain) (\<lambda>(extents, _). Inr extents))), m'))"

text \<open>The counter of mini stream walks, for all models.\<close>

definition MiniStreamResolveCount :: "u64 \<Rightarrow> u64" where
  "MiniStreamResolveCount resolves = resolves"

definition ResetMiniStreamResolveCount :: "u64 \<Rightarrow> u64" where
  "ResetMiniStreamResolveCount resolves = 0"

definition ContainerSector :: "PackageModel \<Rightarrow> u32 list \<Rightarrow> u64 \<Rightarrow> nat \<Rightarrow> u64 res" where
  "ContainerSector m chain remaining k =
     (let chunk = min (ucast (sector_size (header m))) remaining in
      bindE (at_index chain k) (\<lambda>sector.
      if \<not> RangeFits (SectorStart m sector) chunk (span_size (source m)) then SectorPastEnd m sector
      else Inr (remaining - chunk)))"

definition EnsureMiniStream :: "ByteOrder \<Rightarrow> PackageModel \<Rightarrow> u64 \<Rightarrow> unit res \<times> PackageModel \<times> u64" where
  "EnsureMiniStream host m resolves =
     (if mini_container_ready m then (Inr (), m, resolves)
      else if mini_container_size m \<noteq> 0 then
        (let (walked, m') = WalkStream host m (mini_container_start m);
             checked = bindE walked (\<lambda>chain.
               let needed = UnitsFor (mini_container_size m') (ucast (sector_size (header m'))) in
               if word_of_nat (length chain) < needed then
                 ThrowMalformed cfb_format (''stream size '' @ to_string (mini_container_size m') @
                   '' exceeds its chain of '' @ dec (length chain) @ '' sectors'')
               else bindE (foldE (ContainerSector m' chain) (mini_container_size m') [0..<unat needed]) (\<lambda>_. Inr chain)) in
         (case checked of
            Inl e \<Rightarrow> (Inl e, m', resolves + 1)
          | Inr chain \<Rightarrow> (Inr (), m'\<lparr>mini_container_chain := chain, mini_container_ready := True\<rparr>, resolves + 1)))
      else (Inr (), m\<lparr>mini_container_ready := True\<rparr>, resolves))"

definition MiniExtent ::
  "PackageModel \<Rightarrow> ByteExtent list \<times> u64 \<Rightarrow> u32 \<Rightarrow> (ByteExtent list \<times> u64) res" where
  "MiniExtent m = (\<lambda>(extents, remaining) mini_sector.
     let unit = ucast (mini_sector_size (header m)) :: u64;
         chunk = min unit remaining;
         position = ucast mini_sector * unit;
         sector_size = ucast (sector_size (header m)) :: u64 in
     if \<not> RangeFits position chunk (mini_container_size m) then
       ThrowMalformed cfb_format (''stream mini sector '' @ to_string mini_sector @
         '' extends past the end of the mini stream ('' @ to_string (mini_container_size m) @ '' bytes)'')
     else bindE (at_index (mini_container_chain m) (unat (position div sector_size))) (\<lambda>sector.
       Inr (AppendExtent extents (SectorStart m sector + position mod sector_size) chunk, remaining - chunk)))"

definition ResolveMini :: "ByteOrder \<Rightarrow> PackageModel \<Rightarrow> CfbNode \<Rightarrow> u64 \<Rightarrow> ByteExtent list res \<times> PackageModel \<times> u64" where
  "ResolveMini host m stream resolves =
     (case EnsureMiniStream host m resolves of
        (Inl e, m1, n) \<Rightarrow> (Inl e, m1, n)
      | (Inr _, m1, n) \<Rightarrow>
          (let i = last_owner m1 + 1;
               (walked, m2) = WalkMiniChain (m1\<lparr>last_owner := i\<rparr>) (start_sector stream) i in
           (bindE walked (\<lambda>chain.
            bindE (CheckChainLength (node_size stream) (word_of_nat (length chain)) (ucast (mini_sector_size (header m2))) ''mini sectors'') (\<lambda>_.
            bindE (foldE (MiniExtent m2) ([], node_size stream) chain) (\<lambda>(extents, _). Inr extents))), m2, n)))"

definition Resolve :: "ByteOrder \<Rightarrow> PackageModel \<Rightarrow> CfbNode \<Rightarrow> u64 \<Rightarrow> ByteExtent list res \<times> PackageModel \<times> u64" where
  "Resolve host m stream resolves =
     (if is_storage stream \<or> node_size stream = 0 then (Inr [], m, resolves)
      else if node_size stream < ucast (mini_stream_cutoff (header m)) then ResolveMini host m stream resolves
      else case ResolveOrdinary host m stream of (r, m') \<Rightarrow> (r, m', resolves))"

definition ReadExtent :: "ByteSpan \<Rightarrow> bytes \<Rightarrow> ByteExtent \<Rightarrow> bytes res" where
  "ReadExtent src bs extent =
     bindE (Sub src (ext_offset extent) (ext_length extent) ''stream data'') (\<lambda>part.
     bindE (Data part) (\<lambda>data. Inr (bs @ data)))"

definition ReadStream :: "ByteOrder \<Rightarrow> PackageModel \<Rightarrow> CfbNode \<Rightarrow> u64 \<Rightarrow> bytes res \<times> PackageModel \<times> u64" where
  "ReadStream host m stream resolves =
     (case Resolve host m stream resolves of
        (extents, m', n) \<Rightarrow> (bindE extents (\<lambda>xs. foldE (ReadExtent (source m')) [] xs), m', n))"

section \<open>Search and enumeration\<close>

fun compare_units :: "u16string \<Rightarrow> u16string \<Rightarrow> int" where
  "compare_units (a # as) (b # bs) =
     (if UpperCase a \<noteq> UpperCase b then (if UpperCase a < UpperCase b then - 1 else 1) else compare_units as bs)"
| "compare_units _ _ = 0"

definition CompareNames :: "u16string \<Rightarrow> u16string \<Rightarrow> int" where
  "CompareNames a b =
     (if length a \<noteq> length b then (if length a < length b then - 1 else 1) else compare_units a b)"

definition FindByEnumeration :: "CfbNode \<Rightarrow> u16string \<Rightarrow> CfbNode option" where
  "FindByEnumeration storage name = find (\<lambda>child. node_name child = name) (node_children storage)"

text \<open>The pointer a search returns, into the vector of children, is the position there.\<close>

fun SearchFrom :: "CfbNode list \<Rightarrow> u16string \<Rightarrow> nat \<Rightarrow> u32 \<Rightarrow> nat option res" where
  "SearchFrom nodes name 0 position = Inr None"
| "SearchFrom nodes name (Suc left) position =
     (if position = kCfbNone then Inr None
      else bindE (at_index nodes (unat position)) (\<lambda>node.
        let order = CompareNames name (node_name node) in
        if order = 0 then Inr (Some (unat position))
        else SearchFrom nodes name left (if order < 0 then node_left node else node_right node)))"

definition FindBySearch :: "CfbNode \<Rightarrow> u16string \<Rightarrow> nat option res" where
  "FindBySearch storage name =
     SearchFrom (node_children storage) name (Suc (length (node_children storage))) (tree_root storage)"

section \<open>Parsing\<close>

record DirEntry =
  de_name :: u16string
  de_type :: u8
  de_left :: u32
  de_right :: u32
  de_child :: u32
  de_start_sector :: u32
  de_size :: u64
  de_class_id :: bytes
  de_state_bits :: u32
  de_creation_time :: u64
  de_modification_time :: u64

definition CheckMagic :: "ByteOrder \<Rightarrow> ByteSpan \<Rightarrow> unit \<Rightarrow> nat \<Rightarrow> unit res" where
  "CheckMagic host src u i =
     bindE (Read host src (word_of_nat i) Little ''signature'') (\<lambda>b :: u8.
       if b \<noteq> kMagic ! i then ThrowMalformed cfb_format ''signature is not the compound file magic'' else Inr ())"

definition ParseHeader :: "ByteOrder \<Rightarrow> PackageModel \<Rightarrow> PackageModel res" where
  "ParseHeader host m =
     (let src = source m in
      if span_size src < 512 then
        ThrowMalformed cfb_format (''file is too small for the header ('' @ to_string (span_size src) @ '' bytes)'')
      else
      bindE (foldE (CheckMagic host src) () [0..<8]) (\<lambda>_.
      bindE (Read host src 24 Little ''minor version'') (\<lambda>minor.
      bindE (Read host src 26 Little ''major version'') (\<lambda>major.
      bindE (Read host src 28 Little ''byte order'') (\<lambda>byte_order :: u16.
      if byte_order \<noteq> 0xFFFE then
        ThrowMalformed cfb_format (''byte order mark '' @ to_string byte_order @ '' is not 65534'')
      else
      bindE (Read host src 30 Little ''sector size exponent'') (\<lambda>sector_power.
      bindE (Read host src 32 Little ''mini-sector exponent'') (\<lambda>mini_power.
      if sector_power \<noteq> kSectorExponentV3 \<and> sector_power \<noteq> kSectorExponentV4 then
        ThrowMalformed cfb_format (''sector size exponent '' @ to_string sector_power @ '' is not 9 or 12'')
      else if major \<noteq> 3 \<and> major \<noteq> 4 then
        ThrowMalformed cfb_format (''major version '' @ to_string major @ '' is not 3 or 4'')
      else if (major = 3) \<noteq> (sector_power = kSectorExponentV3) then
        ThrowMalformed cfb_format (''sector size exponent '' @ to_string sector_power @
          '' does not match major version '' @ to_string major)
      else if mini_power \<noteq> kMiniSectorExponent then
        ThrowMalformed cfb_format (''mini-sector exponent '' @ to_string mini_power @ '' is not 6'')
      else
      let m1 = m\<lparr>header := (header m)\<lparr>major_version := major, minor_version := minor\<rparr>\<rparr> in
      if span_size src < HeaderSize m1 then
        ThrowMalformed cfb_format (''file is too small for the version 4 header ('' @ to_string (span_size src) @ '' bytes)'')
      else
      bindE (Read host src 48 Little ''first directory sector'') (\<lambda>first_dir.
      bindE (Read host src 56 Little ''mini-stream cutoff'') (\<lambda>cutoff.
      bindE (Read host src 60 Little ''first mini-FAT sector'') (\<lambda>first_mini_fat.
      bindE (Read host src 64 Little ''mini-FAT sector count'') (\<lambda>total_mini_fat.
      bindE (Read host src 68 Little ''first DIFAT sector'') (\<lambda>first_difat.
      bindE (Read host src 72 Little ''DIFAT sector count'') (\<lambda>total_difat.
      if cutoff \<noteq> kMiniStreamCutoff then
        ThrowMalformed cfb_format (''mini-stream cutoff '' @ to_string cutoff @ '' is not 4096'')
      else
        Inr (m1\<lparr>header := \<lparr>major_version = major, minor_version = minor,
                    sector_size = push_bit (unat sector_power) 1, mini_sector_size = push_bit (unat mini_power) 1,
                    mini_stream_cutoff = cutoff\<rparr>,
                 first_dir_sector := first_dir, first_mini_fat_sector := first_mini_fat,
                 total_mini_fat_sectors := total_mini_fat, first_difat_sector := first_difat,
                 total_difat_sectors := total_difat\<rparr>))))))))))))))"

text \<open>The entries of one block of the DIFAT, up to the first free one.\<close>

fun ReadDifat :: "ByteOrder \<Rightarrow> ByteSpan \<Rightarrow> u64 \<Rightarrow> nat \<Rightarrow> u32 list \<Rightarrow> u32 list res" where
  "ReadDifat host src at 0 found = Inr found"
| "ReadDifat host src at (Suc left) found =
     bindE (Read host src at Little ''DIFAT entry'') (\<lambda>entry.
       if entry = kCfbFreeSector \<or> entry = kCfbEndOfChain then Inr found
       else ReadDifat host src (at + 4) left (found @ [entry]))"

fun DifatChain :: "ByteOrder \<Rightarrow> PackageModel \<Rightarrow> nat \<Rightarrow> u32 \<Rightarrow> bool list \<Rightarrow> u32 list \<Rightarrow> u32 list res" where
  "DifatChain host m 0 difat_sector seen found = Inr found"
| "DifatChain host m (Suc left) difat_sector seen found =
     (if difat_sector = kCfbEndOfChain \<or> difat_sector = kCfbFreeSector then Inr found
      else
        let ss = ucast (sector_size (header m)) :: u64 in
        bindE (Sector m difat_sector ss ''DIFAT sector'') (\<lambda>sector.
        bindE (at_index seen (unat difat_sector)) (\<lambda>again.
        if again then ThrowMalformed cfb_format (''DIFAT chain has a loop at sector '' @ to_string difat_sector)
        else
        bindE (ReadDifat host sector 0 (unat (ss div 4 - 1)) found) (\<lambda>found'.
        bindE (Read host sector (ss - 4) Little ''next DIFAT sector'') (\<lambda>following.
        DifatChain host m left following (seen[unat difat_sector := True]) found')))))"

definition AddFatSector :: "PackageModel \<Rightarrow> bool list \<times> u32 list \<Rightarrow> u32 \<Rightarrow> (bool list \<times> u32 list) res" where
  "AddFatSector m = (\<lambda>(used, found) sector_id.
     bindE (Sector m sector_id (ucast (sector_size (header m))) ''FAT sector'') (\<lambda>_.
     bindE (at_index used (unat sector_id)) (\<lambda>again.
     if again then ThrowMalformed cfb_format (''FAT sector '' @ to_string sector_id @ '' is listed twice'')
     else Inr (used[unat sector_id := True], found @ [sector_id]))))"

definition BuildFat :: "ByteOrder \<Rightarrow> PackageModel \<Rightarrow> PackageModel res" where
  "BuildFat host m =
     bindE (ReadDifat host (source m) 76 kHeaderDifatEntries []) (\<lambda>listed.
     bindE (if total_difat_sectors m > 0 \<and> first_difat_sector m \<noteq> kCfbEndOfChain
            then DifatChain host m (unat (total_difat_sectors m)) (first_difat_sector m)
                   (replicate (unat (SectorCount m)) False) listed
            else Inr listed) (\<lambda>all_listed.
     bindE (foldE (AddFatSector m) (replicate (unat (SectorCount m)) False, []) all_listed) (\<lambda>(_, found).
     Inr (m\<lparr>fat_sectors := found\<rparr>))))"

definition MiniFatSector :: "ByteOrder \<Rightarrow> PackageModel \<Rightarrow> u32 list \<Rightarrow> u32 \<Rightarrow> u32 list res" where
  "MiniFatSector host m found sector_id =
     bindE (Sector m sector_id (ucast (sector_size (header m))) ''mini-FAT sector'') (\<lambda>sector.
     bindE (mapE (\<lambda>i. Read host sector (word_of_nat i * 4) Little ''mini-FAT entry'') [0..<unat (sector_size (header m) div 4)])
       (\<lambda>es. Inr (found @ es)))"

definition BuildMiniFat :: "ByteOrder \<Rightarrow> PackageModel \<Rightarrow> PackageModel res" where
  "BuildMiniFat host m =
     (if first_mini_fat_sector m = kCfbEndOfChain \<or> total_mini_fat_sectors m = 0 then Inr (m\<lparr>mini_fat := []\<rparr>)
      else
        bindE (FollowChain host m (first_mini_fat_sector m) ''mini-FAT'') (\<lambda>chain.
        bindE (foldE (MiniFatSector host m) [] chain) (\<lambda>found. Inr (m\<lparr>mini_fat := found\<rparr>))))"

definition ReadEntryName :: "ByteOrder \<Rightarrow> ByteSpan \<Rightarrow> u64 \<Rightarrow> u16 \<Rightarrow> u16string res" where
  "ReadEntryName host sector base name_size =
     (if name_size \<ge> 2 \<and> name_size \<le> 64
      then mapE (\<lambda>c. Read host sector (base + word_of_nat c * 2) Little ''directory entry name'') [0..<unat (name_size div 2) - 1]
      else Inr [])"

definition ReadDirEntry :: "ByteOrder \<Rightarrow> PackageModel \<Rightarrow> ByteSpan \<Rightarrow> u64 \<Rightarrow> DirEntry res" where
  "ReadDirEntry host m sector base =
     bindE (Read host sector (base + 64) Little ''directory entry name size'') (\<lambda>name_size.
     bindE (ReadEntryName host sector base name_size) (\<lambda>name.
     bindE (Read host sector (base + 66) Little ''directory entry type'') (\<lambda>typ.
     bindE (Read host sector (base + 68) Little ''left sibling'') (\<lambda>left.
     bindE (Read host sector (base + 72) Little ''right sibling'') (\<lambda>right.
     bindE (Read host sector (base + 76) Little ''child'') (\<lambda>child.
     bindE (mapE (\<lambda>b. Read host sector (base + 80 + word_of_nat b) Little ''class identifier'') [0..<16]) (\<lambda>clsid.
     bindE (Read host sector (base + 96) Little ''state bits'') (\<lambda>state.
     bindE (Read host sector (base + 100) Little ''creation time'') (\<lambda>creation.
     bindE (Read host sector (base + 108) Little ''modification time'') (\<lambda>modification.
     bindE (Read host sector (base + 116) Little ''start sector'') (\<lambda>start.
     bindE (if major_version (header m) = 4 then Read host sector (base + 120) Little ''stream size''
            else bindE (Read host sector (base + 120) Little ''stream size'') (\<lambda>low :: u32. Inr (ucast low))) (\<lambda>sz.
     Inr \<lparr>de_name = name, de_type = typ, de_left = left, de_right = right, de_child = child, de_start_sector = start,
          de_size = sz, de_class_id = clsid, de_state_bits = state, de_creation_time = creation,
          de_modification_time = modification\<rparr>))))))))))))"

definition DirectorySector :: "ByteOrder \<Rightarrow> PackageModel \<Rightarrow> DirEntry list \<Rightarrow> u32 \<Rightarrow> DirEntry list res" where
  "DirectorySector host m found sector_id =
     bindE (Sector m sector_id (ucast (sector_size (header m))) ''directory sector'') (\<lambda>sector.
     bindE (mapE (\<lambda>i. ReadDirEntry host m sector (word_of_nat i * kDirEntrySize))
              [0..<unat ((ucast (sector_size (header m)) :: u64) div kDirEntrySize)]) (\<lambda>es. Inr (found @ es)))"

definition ParseDirectory :: "ByteOrder \<Rightarrow> PackageModel \<Rightarrow> DirEntry list res" where
  "ParseDirectory host m =
     bindE (FollowChain host m (first_dir_sector m) ''directory'') (\<lambda>chain.
     foldE (DirectorySector host m) [] chain)"

subsection \<open>The tree\<close>

text \<open>\<open>push\<close>: marks an entry and puts it on the stack.\<close>

definition Push ::
  "DirEntry list \<Rightarrow> bool list \<Rightarrow> (u32 \<times> nat) list \<Rightarrow> u32 \<Rightarrow> (bool list \<times> (u32 \<times> nat) list) res" where
  "Push directory visited stack i =
     (if i = kCfbNoStream then Inr (visited, stack)
      else if unat i \<ge> length directory then
        ThrowMalformed cfb_format (''directory entry link '' @ to_string i @ '' is past the end of the directory ('' @
          dec (length directory) @ '' entries)'')
      else bindE (at_index visited (unat i)) (\<lambda>again.
        if again then ThrowMalformed cfb_format (''directory entry '' @ to_string i @ '' is reached twice from the root'')
        else if de_type (directory ! unat i) = kTypeUnknown then
          ThrowMalformed cfb_format (''directory entry '' @ to_string i @ '' is unused but the tree reaches it'')
        else Inr (visited[unat i := True], (i, 0) # stack)))"

definition stage_weight :: "u32 \<times> nat \<Rightarrow> nat" where
  "stage_weight f = (if snd f = 0 then 3 else if snd f = 1 then 2 else 1)"

definition walk_measure :: "bool list \<Rightarrow> (u32 \<times> nat) list \<Rightarrow> nat" where
  "walk_measure visited stack = 4 * length (filter Not visited) + sum_list (map stage_weight stack)"

lemma filter_Not_mark:
  "i < length v \<Longrightarrow> \<not> v ! i \<Longrightarrow> Suc (length (filter Not (v[i := True]))) = length (filter Not v)"
proof (induction v arbitrary: i)
  case (Cons b v)
  then show ?case by (cases i) auto
qed simp

lemma Push_measure:
  assumes "Push directory visited stack i = Inr (visited', stack')"
  shows "walk_measure visited' stack' \<le> walk_measure visited stack"
proof (cases "i = kCfbNoStream")
  case True
  with assms show ?thesis by (simp add: Push_def)
next
  case False
  with assms have i: "unat i < length visited" "\<not> visited ! unat i"
    and eq: "visited' = visited[unat i := True]" "stack' = (i, 0) # stack"
    by (auto simp: Push_def at_index_def ThrowMalformed_def split: if_splits)
  from filter_Not_mark [OF i] show ?thesis by (simp add: walk_measure_def eq stage_weight_def)
qed

function WalkTree ::
  "DirEntry list \<Rightarrow> bool list \<Rightarrow> (u32 \<times> nat) list \<Rightarrow> u32 list \<Rightarrow> (bool list \<times> u32 list) res" where
  "WalkTree directory visited [] order = Inr (visited, order)"
| "WalkTree directory visited ((i, stage) # rest) order =
     bindE (at_index directory (unat i)) (\<lambda>entry.
       if stage = 0 then
         bindE (Push directory visited ((i, 1) # rest) (de_left entry)) (\<lambda>(visited', stack').
           WalkTree directory visited' stack' order)
       else if stage = 1 then WalkTree directory visited ((i, 2) # rest) (order @ [i])
       else
         bindE (Push directory visited rest (de_right entry)) (\<lambda>(visited', stack').
           WalkTree directory visited' stack' order))"
  by pat_completeness auto
termination
proof (relation "measure (\<lambda>(directory, visited, stack, order). walk_measure visited stack)", goal_cases)
  case (2 directory visited i stage rest order entry p visited' stack')
  then show ?case using Push_measure [of directory visited "(i, 1) # rest" "de_left entry" visited' stack']
    by (simp add: walk_measure_def stage_weight_def)
next
  case (3 directory visited i stage rest order entry)
  then show ?case by (simp add: walk_measure_def stage_weight_def)
next
  case (4 directory visited i stage rest order entry p visited' stack')
  then show ?case using Push_measure [of directory visited rest "de_right entry" visited' stack']
    by (simp add: walk_measure_def stage_weight_def)
qed simp

declare WalkTree.simps [simp del]

text \<open>The positions of the entries that became nodes; a later position replaces an earlier one.\<close>

definition PositionOf :: "u32 list \<Rightarrow> u32 \<Rightarrow> u32" where
  "PositionOf sources i =
     (case map_of (rev (zip sources [0..<length sources])) i of None \<Rightarrow> kCfbNone | Some k \<Rightarrow> word_of_nat k)"

definition NodeOf :: "DirEntry \<Rightarrow> CfbNode list \<Rightarrow> u32 \<Rightarrow> CfbNode" where
  "NodeOf entry children tree =
     (if de_type entry = kTypeStorage
      then CfbNode (de_name entry) True (de_class_id entry) (de_state_bits entry) (de_creation_time entry)
             (de_modification_time entry) kCfbEndOfChain 0 children tree kCfbNone kCfbNone
      else CfbNode (de_name entry) False (de_class_id entry) (de_state_bits entry) (de_creation_time entry)
             (de_modification_time entry) (de_start_sector entry) (de_size entry) [] kCfbNone kCfbNone kCfbNone)"

definition LinkNode :: "DirEntry list \<Rightarrow> u32 list \<Rightarrow> CfbNode \<Rightarrow> u32 \<Rightarrow> CfbNode res" where
  "LinkNode directory sources node i =
     bindE (at_index directory (unat i)) (\<lambda>entry.
     Inr (CfbNode (node_name node) (is_storage node) (class_id node) (state_bits node) (creation_time node)
       (modification_time node) (start_sector node) (node_size node) (node_children node) (tree_root node)
       (PositionOf sources (de_left entry)) (PositionOf sources (de_right entry))))"

function ReadStorage :: "DirEntry list \<Rightarrow> bool list \<Rightarrow> u32 \<Rightarrow> nat \<Rightarrow> (CfbNode list \<times> u32 \<times> bool list) res" where
  "ReadStorage directory visited storage_index depth =
     (if depth > kCfbMaxStorageDepth then
        ThrowMalformed cfb_format (''storages are nested too deep (more than '' @ dec kCfbMaxStorageDepth @ '' levels)'')
      else bindE (at_index directory (unat storage_index)) (\<lambda>storage.
      if de_child storage = kCfbNoStream then Inr ([], kCfbNone, visited)
      else
      bindE (Push directory visited [] (de_child storage)) (\<lambda>(visited1, stack).
      bindE (WalkTree directory visited1 stack []) (\<lambda>(visited2, order).
      bindE (foldE (\<lambda>(sources, nodes, vis) i.
               bindE (at_index directory (unat i)) (\<lambda>entry.
               if de_type entry \<noteq> kTypeStorage \<and> de_type entry \<noteq> kTypeStream then Inr (sources, nodes, vis)
               else if de_type entry = kTypeStorage then
                 bindE (ReadStorage directory vis i (depth + 1)) (\<lambda>(children, tree, vis').
                 Inr (sources @ [i], nodes @ [NodeOf entry children tree], vis'))
               else Inr (sources @ [i], nodes @ [NodeOf entry [] kCfbNone], vis)))
             ([], [], visited2) order) (\<lambda>(sources, nodes, visited3).
      bindE (mapE (\<lambda>(node, i). LinkNode directory sources node i) (zip nodes sources)) (\<lambda>linked.
      Inr (linked, PositionOf sources (de_child storage), visited3)))))))"
  by pat_completeness auto
termination
  by (relation "measure (\<lambda>(directory, visited, storage_index, depth). Suc kCfbMaxStorageDepth - depth)") auto

declare ReadStorage.simps [simp del]

definition BuildTree :: "PackageModel \<Rightarrow> DirEntry list \<Rightarrow> PackageModel res" where
  "BuildTree m directory =
     (if directory = [] \<or> de_type (hd directory) \<noteq> kTypeRoot then
        ThrowMalformed cfb_format ''directory entry 0 is not the root storage''
      else
      let entry = hd directory in
      bindE (ReadStorage directory ((replicate (length directory) False)[0 := True]) 0 1) (\<lambda>(children, tree, _).
      Inr (m\<lparr>root := CfbNode (de_name entry) True (de_class_id entry) (de_state_bits entry) (de_creation_time entry)
               (de_modification_time entry) kCfbEndOfChain 0 children tree kCfbNone kCfbNone,
             mini_container_start := de_start_sector entry, mini_container_size := de_size entry\<rparr>)))"

definition CfbReader_Parse :: "ByteOrder \<Rightarrow> ByteSpan \<Rightarrow> PackageModel res" where
  "CfbReader_Parse host src =
     bindE (ParseHeader host (PackageModel_new src)) (\<lambda>m1.
     bindE (BuildFat host m1) (\<lambda>m2.
     bindE (BuildMiniFat host m2) (\<lambda>m3.
     bindE (ParseDirectory host m3) (\<lambda>directory.
     BuildTree m3 directory))))"

definition CfbReader_ParseBytes :: "ByteOrder \<Rightarrow> bytes \<Rightarrow> PackageModel res" where
  "CfbReader_ParseBytes host bs = CfbReader_Parse host (ByteSpan_of_bytes bs cfb_format ''the file'')"

end
