(* ===== verification/Cfb_Chains.thy ===== *)
theory Cfb_Chains
  imports Cfb_Reader
begin

text \<open>
  The chains of a compound file: what \<open>WalkChain\<close> and \<open>WalkMini\<close> of \<open>Cfb_Reader\<close> compute. For a
  model whose tables lie inside the file (\<open>pkg_ok\<close>) a walk never leaves a table; when it
  succeeds, the sectors are the chain of the FAT (\<open>links\<close>), each once, none of them used
  before, and afterwards they are marked with the owner and nothing else has changed.
\<close>

section \<open>Geometry in natural numbers\<close>

definition ssz :: "PackageModel \<Rightarrow> nat" where
  "ssz m = unat (sector_size (header m))"

definition header_ok :: "PackageModel \<Rightarrow> bool" where
  "header_ok m \<longleftrightarrow>
     (major_version (header m) = 3 \<and> sector_size (header m) = 512 \<or>
      major_version (header m) = 4 \<and> sector_size (header m) = 4096) \<and>
     mini_sector_size (header m) = 64 \<and> mini_stream_cutoff (header m) = 4096 \<and>
     ssz m \<le> unat (span_size (source m))"

definition pkg_ok :: "PackageModel \<Rightarrow> bytes \<Rightarrow> bool" where
  "pkg_ok m c \<longleftrightarrow>
     span_ok (source m) c \<and> span_format (source m) = cfb_format \<and> header_ok m \<and>
     distinct (fat_sectors m) \<and> (\<forall>s \<in> set (fat_sectors m). (unat s + 2) * ssz m \<le> length c)"

lemma ssz_cases: "header_ok m \<Longrightarrow> ssz m = 512 \<or> ssz m = 4096"
  by (auto simp: header_ok_def ssz_def)

lemma ssz_pos: "header_ok m \<Longrightarrow> 0 < ssz m"
  using ssz_cases by fastforce

lemma HeaderSize_nat: "header_ok m \<Longrightarrow> unat (HeaderSize m) = ssz m"
  by (auto simp: header_ok_def HeaderSize_def ssz_def)

lemma sector_size_nat: "unat (ucast (sector_size (header m)) :: u64) = ssz m"
  by (simp add: ssz_def unat_ucast_u32)

lemma SectorStart_nat:
  assumes "header_ok m"
  shows "unat (SectorStart m s) = (unat s + 1) * ssz m"
proof -
  have le: "unat s * ssz m \<le> 4294967295 * 4096"
    using ssz_cases [OF assms] unat_u32_less [of s] by (intro mult_mono) auto
  then have "unat (ucast s * ucast (sector_size (header m)) :: u64) = unat s * ssz m"
    using sector_size_nat [of m] by (simp add: unat_mult_nowrap unat_ucast_u32)
  then show ?thesis
    using le HeaderSize_nat [OF assms] ssz_cases [OF assms] unfolding SectorStart_def
    by (subst unat_add_nowrap) auto
qed

lemma SectorCount_nat:
  assumes ok: "header_ok m"
  shows "unat (SectorCount m) = (unat (span_size (source m)) - 1) div ssz m"
proof -
  have le: "ssz m \<le> unat (span_size (source m))" using ok by (simp add: header_ok_def)
  note h = HeaderSize_nat [OF ok] and pos = ssz_pos [OF ok] and u = sector_size_nat [of m]
  show ?thesis
  proof (cases "span_size (source m) \<le> HeaderSize m")
    case True
    then have "unat (span_size (source m)) = ssz m" using le h by (simp add: word_le_nat_alt)
    then show ?thesis using True pos by (simp add: SectorCount_def)
  next
    case False
    then have less: "ssz m < unat (span_size (source m))" using h by (simp add: word_le_nat_alt)
    have a: "unat (span_size (source m) - HeaderSize m) = unat (span_size (source m)) - ssz m"
      using False h by (subst unat_diff_nowrap) auto
    have b: "unat (span_size (source m) - HeaderSize m + ucast (sector_size (header m))) = unat (span_size (source m))"
      using a u less unat_u64_less [of "span_size (source m)"] by (subst unat_add_nowrap) auto
    then have "unat (span_size (source m) - HeaderSize m + ucast (sector_size (header m)) - 1) = unat (span_size (source m)) - 1"
      using less by (subst unat_diff_nowrap) (auto simp: word_le_nat_alt)
    then show ?thesis using False u by (simp add: SectorCount_def unat_div)
  qed
qed

lemma sector_inside:
  assumes "header_ok m" and "unat s < unat (SectorCount m)"
  shows "(unat s + 1) * ssz m < unat (span_size (source m))"
proof -
  have "(unat s + 1) * ssz m \<le> unat (SectorCount m) * ssz m" using assms(2) by (intro mult_le_mono1) simp
  also have "\<dots> \<le> unat (span_size (source m)) - 1"
    using SectorCount_nat [OF assms(1)] by simp
  finally show ?thesis
    using assms(1) ssz_pos [OF assms(1)] by (simp add: header_ok_def)
qed

lemma ucast_less_nat: "ucast (s :: u32) < (n :: u64) \<longleftrightarrow> unat s < unat n"
  by (simp add: word_less_nat_alt unat_ucast_u32)

lemma distinct_u32_length: "distinct (xs :: u32 list) \<Longrightarrow> length xs \<le> 4294967296"
proof -
  assume "distinct xs"
  then have "length xs = card (set xs)" by (simp add: distinct_card)
  also have "\<dots> \<le> card (UNIV :: u32 set)" by (intro card_mono) auto
  also have "\<dots> = 4294967296" by (simp add: card_word)
  finally show ?thesis .
qed

lemma FatSize_nat:
  assumes "pkg_ok m c"
  shows "unat (FatSize m) = length (fat_sectors m) * (ssz m div 4)"
proof -
  have len: "length (fat_sectors m) \<le> 4294967296"
    using assms distinct_u32_length by (auto simp: pkg_ok_def)
  have d: "unat (ucast (sector_size (header m) div 4) :: u64) = ssz m div 4"
    by (simp add: unat_ucast_u32 unat_div ssz_def)
  have "ssz m div 4 \<le> 1024" using assms ssz_cases [of m] by (auto simp: pkg_ok_def)
  then have "length (fat_sectors m) * (ssz m div 4) \<le> 4294967296 * 1024" using len by (intro mult_mono) auto
  then show ?thesis
    using len d unfolding FatSize_def by (subst unat_mult_nowrap) (auto simp: unat_of_nat_small)
qed

section \<open>The FAT\<close>

definition fat_value :: "PackageModel \<Rightarrow> bytes \<Rightarrow> u32 \<Rightarrow> u32" where
  "fat_value m c s =
     load_word Little (segment ((unat (fat_sectors m ! (unat s div (ssz m div 4))) + 1) * ssz m + unat s mod (ssz m div 4) * 4) 4 c)"

lemma FatEntry_eq:
  assumes ok: "pkg_ok m c" and s: "unat s < unat (FatSize m)"
  shows "FatEntry host m s = Inr (fat_value m c s)"
proof -
  have h: "header_ok m" and sp: "span_ok (source m) c" using ok by (simp_all add: pkg_ok_def)
  let ?q = "ssz m div 4"
  have q: "0 < ?q" "?q * 4 = ssz m" "?q \<le> 1024" using ssz_cases [OF h] by auto
  have per: "unat (ucast (sector_size (header m) div 4) :: u64) = ?q"
    by (simp add: unat_ucast_u32 unat_div ssz_def)
  have per': "unat (sector_size (header m) div 4) = ?q" by (simp add: unat_div ssz_def)
  have i: "unat s div ?q < length (fat_sectors m)"
    using s FatSize_nat [OF ok] q(1) by (simp add: less_mult_imp_div_less)
  then have f: "fat_sectors m ! (unat s div ?q) \<in> set (fat_sectors m)" by simp
  let ?f = "fat_sectors m ! (unat s div ?q)"
  have inside: "(unat ?f + 2) * ssz m \<le> length c" using ok f by (simp add: pkg_ok_def)
  have m4: "unat ((ucast s mod ucast (sector_size (header m) div 4)) * 4 :: u64) = unat s mod ?q * 4"
  proof -
    have "unat s mod ?q < 1024" using q by (metis less_le_trans mod_less_divisor)
    then show ?thesis by (subst unat_mult_nowrap) (simp_all add: unat_mod unat_ucast_u32 per')
  qed
  have less: "unat s mod ?q * 4 + 4 \<le> ssz m"
    using q mod_less_divisor [OF q(1), of "unat s"] by linarith
  have off: "unat (SectorStart m ?f + (ucast s mod ucast (sector_size (header m) div 4)) * 4) =
      (unat ?f + 1) * ssz m + unat s mod ?q * 4"
  proof -
    have "(unat ?f + 1) * ssz m + unat s mod ?q * 4 < 2 ^ LENGTH(64)"
      using inside less span_ok_less [OF sp] by simp
    then show ?thesis using SectorStart_nat [OF h] m4 by (subst unat_add_nowrap) auto
  qed
  have "(unat ?f + 1) * ssz m + unat s mod ?q * 4 + 4 \<le> length c"
    using inside less by simp
  then show ?thesis
    using Read_eq [OF sp, where 'a = 32 and offset = "SectorStart m ?f + (ucast s mod ucast (sector_size (header m) div 4)) * 4"]
      i per per' off
    by (simp add: FatEntry_def Let_def at_index_def unat_div unat_ucast_u32 fat_value_def int_type_def)
qed

section \<open>Owners\<close>

definition owners_ok :: "SectorOwners \<Rightarrow> nat \<Rightarrow> bool" where
  "owners_ok ow n \<longleftrightarrow> length (owner_blocks ow) = (n + 4095) div 4096 \<and>
     (\<forall>b \<in> set (owner_blocks ow). b = [] \<or> length b = 4096)"

lemma unat_block: "unat (s div kBlockSize) = unat s div 4096" "unat (s mod kBlockSize) = unat s mod 4096"
  by (simp_all add: kBlockSize_def unat_div unat_mod)

lemma block_index: "s < n \<Longrightarrow> s div 4096 < (n + 4095) div (4096 :: nat)"
  by (simp add: less_eq_Suc_le div_le_mono [of "s + 4096" "n + 4095" 4096, simplified])

lemma owners_get:
  assumes "owners_ok ow n" and "unat s < n"
  shows "\<exists>v. Owners_Get ow s = Inr v"
proof -
  have i: "unat s div 4096 < length (owner_blocks ow)" using assms block_index [of "unat s" n] by (simp add: owners_ok_def)
  then have "owner_blocks ow ! (unat s div 4096) \<in> set (owner_blocks ow)" by simp
  with assms(1) have "owner_blocks ow ! (unat s div 4096) = [] \<or> length (owner_blocks ow ! (unat s div 4096)) = 4096"
    by (simp add: owners_ok_def)
  then show ?thesis using i by (auto simp: Owners_Get_def at_index_def unat_block)
qed

lemma owners_set:
  assumes "owners_ok ow n" and "unat s < n"
  shows "\<exists>ow'. Owners_Set ow s i = Inr ow' \<and> owners_ok ow' n"
proof -
  have k: "unat s div 4096 < length (owner_blocks ow)" using assms block_index [of "unat s" n] by (simp add: owners_ok_def)
  let ?b = "owner_blocks ow ! (unat s div 4096)"
  let ?full = "if ?b = [] then replicate (unat kBlockSize) 0 else ?b"
  have "?b \<in> set (owner_blocks ow)" using k by simp
  with assms(1) have len: "length ?full = 4096" by (auto simp: owners_ok_def kBlockSize_def)
  have "Owners_Set ow s i = Inr (ow\<lparr>owner_blocks := (owner_blocks ow)[unat s div 4096 := ?full[unat s mod 4096 := i]]\<rparr>)"
    using k len by (simp add: Owners_Set_def at_index_def set_index_def unat_block)
  moreover have "owners_ok (ow\<lparr>owner_blocks := (owner_blocks ow)[unat s div 4096 := ?full[unat s mod 4096 := i]]\<rparr>) n"
    using assms(1) len set_update_subset_insert [of "owner_blocks ow" "unat s div 4096" "?full[unat s mod 4096 := i]"]
    by (auto simp: owners_ok_def)
  ultimately show ?thesis by blast
qed

lemma owners_new:
  assumes "unat n + 4096 < 2 ^ 64"
  shows "owners_ok (SectorOwners_new n) (unat n)"
    and "unat s < unat n \<Longrightarrow> Owners_Get (SectorOwners_new n) s = Inr 0"
proof -
  have "unat (n + ucast kBlockSize - 1) = unat n + 4095"
  proof -
    have "unat (n + ucast kBlockSize) = unat n + 4096"
      using assms by (simp add: unat_add_nowrap kBlockSize_def)
    then show ?thesis by (subst unat_diff_nowrap) (auto simp: word_le_nat_alt)
  qed
  then have len: "unat ((n + ucast kBlockSize - 1) div ucast kBlockSize) = (unat n + 4095) div 4096"
    by (simp add: unat_div kBlockSize_def)
  then show "owners_ok (SectorOwners_new n) (unat n)" by (simp add: owners_ok_def SectorOwners_new_def)
  show "Owners_Get (SectorOwners_new n) s = Inr 0" if "unat s < unat n"
    using block_index [OF that] len by (simp add: Owners_Get_def SectorOwners_new_def at_index_def unat_block)
qed

section \<open>Chains\<close>

text \<open>The chain from a start under a table of successors, up to the end mark.\<close>

fun links :: "(u32 \<Rightarrow> u32) \<Rightarrow> u32 \<Rightarrow> u32 list \<Rightarrow> bool" where
  "links nxt start [] \<longleftrightarrow> start = kCfbEndOfChain"
| "links nxt start (s # ss) \<longleftrightarrow> start = s \<and> s \<noteq> kCfbEndOfChain \<and> links nxt (nxt s) ss"

lemma links_unique: "links nxt start xs \<Longrightarrow> links nxt start ys \<Longrightarrow> xs = ys"
proof (induction xs arbitrary: start ys)
  case Nil
  then show ?case by (cases ys) auto
next
  case (Cons x xs)
  then show ?case by (cases ys) auto
qed

text \<open>Owners only go from unused to used.\<close>

definition claims :: "SectorOwners \<Rightarrow> SectorOwners \<Rightarrow> u32 \<Rightarrow> bool" where
  "claims ow ow' i \<longleftrightarrow>
     (\<forall>s. Owners_Get ow' s = Owners_Get ow s \<or> Owners_Get ow s = Inr 0 \<and> Owners_Get ow' s = Inr i)"

lemma claims_refl [simp]: "claims ow ow i"
  by (simp add: claims_def)

lemma claims_set:
  assumes "Owners_Set ow s i = Inr ow1" and "Owners_Get ow s = Inr 0" and "claims ow1 ow' i"
  shows "claims ow ow' i"
proof -
  have "Owners_Get ow' t = Owners_Get ow t \<or> Owners_Get ow t = Inr 0 \<and> Owners_Get ow' t = Inr i" for t
  proof -
    have "Owners_Get ow' t = Owners_Get ow1 t \<or> Owners_Get ow1 t = Inr 0 \<and> Owners_Get ow' t = Inr i"
      using assms(3) unfolding claims_def by blast
    then show ?thesis using assms(2) Owners_Get_Set [OF assms(1), of t] by (cases "t = s") auto
  qed
  then show ?thesis by (simp add: claims_def)
qed

text \<open>What a walk that succeeds has found.\<close>

definition walked :: "(u32 \<Rightarrow> u32) \<Rightarrow> nat \<Rightarrow> u32 \<Rightarrow> SectorOwners \<Rightarrow> SectorOwners \<Rightarrow> u32 \<Rightarrow> u32 list \<Rightarrow> bool" where
  "walked nxt n start ow ow' i ss \<longleftrightarrow>
     links nxt start ss \<and> distinct ss \<and> (ss \<noteq> [] \<longrightarrow> i \<noteq> 0) \<and> (\<forall>s \<in> set ss. unat s < n \<and> Owners_Get ow s = Inr 0) \<and>
     (\<forall>s. Owners_Get ow' s = (if s \<in> set ss then Inr i else Owners_Get ow s))"

lemma walked_Nil: "start = kCfbEndOfChain \<Longrightarrow> walked nxt n start ow ow i []"
  by (simp add: walked_def)

lemma walked_Cons:
  assumes "walked nxt n (nxt s) ow1 ow' i ss" and "Owners_Set ow s i = Inr ow1" and "Owners_Get ow s = Inr 0"
    and "i \<noteq> 0" and "s \<noteq> kCfbEndOfChain" and "unat s < n"
  shows "walked nxt n s ow ow' i (s # ss)"
proof -
  note get = Owners_Get_Set [OF assms(2)]
  have notin: "s \<notin> set ss" using assms(1,4) get [of s] by (auto simp: walked_def)
  have "Owners_Get ow' t = (if t \<in> set (s # ss) then Inr i else Owners_Get ow t)" for t
    using assms(1) get [of t] by (auto simp: walked_def)
  moreover have "unat t < n \<and> Owners_Get ow t = Inr 0" if "t \<in> set (s # ss)" for t
    using that assms(1,3,6) notin get [of t] by (cases "t = s") (auto simp: walked_def)
  ultimately show ?thesis using assms(1,4,5) notin unfolding walked_def by simp
qed

lemma WalkChain_spec:
  "pkg_ok m c \<Longrightarrow> owners_ok ow (unat (SectorCount m)) \<Longrightarrow> WalkChain host m start ow i what acc = (r, ow') \<Longrightarrow>
    rejects cfb_format r \<and> owners_ok ow' (unat (SectorCount m)) \<and> claims ow ow' i \<and>
    (\<forall>ch. r = Inr ch \<longrightarrow> (\<exists>ss. ch = acc @ ss \<and> walked (fat_value m c) (unat (SectorCount m)) start ow ow' i ss))"
proof (induction host m start ow i what acc arbitrary: r ow' rule: WalkChain.induct)
  case (1 host m current ow i what acc)
  let ?n = "unat (SectorCount m)"
  show ?case
  proof (cases "current = kCfbEndOfChain \<or> ucast current \<ge> FatSize m \<or> ucast current \<ge> SectorCount m")
    case True
    then show ?thesis using 1(3,4) WalkChain.simps [of host m current ow i what acc]
      by (auto simp: walked_Nil ThrowMalformed_def rejects_def split: if_splits)
  next
    case False
    then have fat: "unat current < unat (FatSize m)" and cnt: "unat current < ?n"
      by (simp_all add: not_le ucast_less_nat)
    obtain v where v: "Owners_Get ow current = Inr v" using owners_get [OF 1(3) cnt] by blast
    show ?thesis
    proof (cases "v = i \<or> v \<noteq> 0")
      case True
      then show ?thesis using 1(3,4) WalkChain.simps [of host m current ow i what acc] False v
        by (auto simp: ThrowMalformed_def rejects_def split: if_splits)
    next
      case nv: False
      then have i0: "i \<noteq> 0" "v = 0" by auto
      obtain ow1 where ow1: "Owners_Set ow current i = Inr ow1" "owners_ok ow1 ?n"
        using owners_set [OF 1(3) cnt, of i] by blast
      have e: "FatEntry host m current = Inr (fat_value m c current)" by (rule FatEntry_eq [OF 1(2) fat])
      have rec: "WalkChain host m (fat_value m c current) ow1 i what (acc @ [current]) = (r, ow')"
        using 1(4) WalkChain.simps [of host m current ow i what acc] False v i0 ow1(1) e by simp
      have IH: "rejects cfb_format r \<and> owners_ok ow' ?n \<and> claims ow1 ow' i \<and>
        (\<forall>ch. r = Inr ch \<longrightarrow> (\<exists>ss. ch = (acc @ [current]) @ ss \<and> walked (fat_value m c) ?n (fat_value m c current) ow1 ow' i ss))"
        by (rule 1(1)) (use 1(2) False v i0 ow1 e rec in \<open>auto\<close>)
      have "\<exists>ss. ch = acc @ ss \<and> walked (fat_value m c) ?n current ow ow' i ss" if "r = Inr ch" for ch
      proof -
        from IH that obtain ss where "ch = acc @ current # ss"
          "walked (fat_value m c) ?n (fat_value m c current) ow1 ow' i ss" by auto
        with walked_Cons [OF this(2) ow1(1)] v nv False cnt show ?thesis by (intro exI [of _ "current # ss"]) auto
      qed
      moreover have "claims ow ow' i" using IH claims_set [OF ow1(1)] v nv by auto
      ultimately show ?thesis using IH by blast
    qed
  qed
qed

section \<open>Chains of the mini-FAT\<close>

definition mini_claims :: "u32 list \<Rightarrow> u32 list \<Rightarrow> u32 \<Rightarrow> bool" where
  "mini_claims ow ow' i \<longleftrightarrow>
     length ow' = length ow \<and> (\<forall>k < length ow. ow' ! k = ow ! k \<or> ow ! k = 0 \<and> ow' ! k = i)"

definition mini_walked :: "u32 list \<Rightarrow> u32 \<Rightarrow> u32 list \<Rightarrow> u32 list \<Rightarrow> u32 \<Rightarrow> u32 list \<Rightarrow> bool" where
  "mini_walked fat start ow ow' i ss \<longleftrightarrow>
     links (\<lambda>s. fat ! unat s) start ss \<and> distinct ss \<and> (ss \<noteq> [] \<longrightarrow> i \<noteq> 0) \<and>
     (\<forall>s \<in> set ss. unat s < length fat \<and> ow ! unat s = 0) \<and>
     (\<forall>k < length ow. ow' ! k = (if k \<in> unat ` set ss then i else ow ! k))"

lemma mini_claims_refl [simp]: "mini_claims ow ow i"
  by (simp add: mini_claims_def)

lemma mini_claims_set:
  assumes "mini_claims (ow[unat s := i]) ow' i" and "ow ! unat s = 0"
  shows "mini_claims ow ow' i"
proof -
  have "ow' ! k = ow ! k \<or> ow ! k = 0 \<and> ow' ! k = i" if "k < length ow" for k
    using assms that by (cases "k = unat s") (auto simp: mini_claims_def nth_list_update)
  then show ?thesis using assms(1) by (simp add: mini_claims_def)
qed

lemma mini_walked_Cons:
  assumes w: "mini_walked fat (fat ! unat s) (ow[unat s := i]) ow' i ss" and "ow ! unat s = 0" and "i \<noteq> 0"
    and "s \<noteq> kCfbEndOfChain" and "unat s < length fat" and len: "length ow = length fat"
  shows "mini_walked fat s ow ow' i (s # ss)"
proof -
  have notin: "s \<notin> set ss"
  proof
    assume "s \<in> set ss"
    with w have "ow[unat s := i] ! unat s = 0" unfolding mini_walked_def by blast
    with assms(3,5) len show False by simp
  qed
  have "unat t < length fat \<and> ow ! unat t = 0" if "t \<in> set (s # ss)" for t
  proof (cases "t = s")
    case False
    with that w have "unat t < length fat" "ow[unat s := i] ! unat t = 0" unfolding mini_walked_def by auto
    with False show ?thesis by (simp add: nth_list_update_neq word_unat_eq_iff)
  qed (use assms(2,5) in simp)
  moreover have "ow' ! k = (if k \<in> unat ` set (s # ss) then i else ow ! k)" if "k < length ow" for k
  proof -
    have "ow' ! k = (if k \<in> unat ` set ss then i else ow[unat s := i] ! k)" using w that unfolding mini_walked_def by simp
    then show ?thesis using that by (auto simp: nth_list_update)
  qed
  ultimately show ?thesis using w assms(3,4) notin unfolding mini_walked_def by simp
qed

lemma WalkMini_spec:
  "length ow = length fat \<Longrightarrow> WalkMini fat start ow i acc = (r, ow') \<Longrightarrow>
    rejects cfb_format r \<and> mini_claims ow ow' i \<and>
    (\<forall>ch. r = Inr ch \<longrightarrow> (\<exists>ss. ch = acc @ ss \<and> mini_walked fat start ow ow' i ss))"
proof (induction fat start ow i acc arbitrary: r ow' rule: WalkMini.induct)
  case (1 fat current ow i acc)
  show ?case
  proof (cases "current = kCfbEndOfChain")
    case True
    then show ?thesis using 1(3) WalkMini.simps [of fat current ow i acc]
      by (auto simp: mini_walked_def rejects_def)
  next
    case False
    show ?thesis
    proof (cases "unat current \<ge> length fat \<or> ow ! unat current = i \<or> ow ! unat current \<noteq> 0")
      case True
      then show ?thesis using 1(2,3) WalkMini.simps [of fat current ow i acc] False
        by (auto simp: ThrowMalformed_def rejects_def split: if_splits)
    next
      case in_range: False
      then have c: "\<not> unat current \<ge> length fat" "\<not> unat current \<ge> length ow" "ow ! unat current \<noteq> i"
        "\<not> ow ! unat current \<noteq> 0" "i \<noteq> 0" using 1(2) by auto
      have rec: "WalkMini fat (fat ! unat current) (ow[unat current := i]) i (acc @ [current]) = (r, ow')"
        using 1(3) WalkMini.simps [of fat current ow i acc] False c by simp
      have IH: "rejects cfb_format r \<and> mini_claims (ow[unat current := i]) ow' i \<and>
        (\<forall>ch. r = Inr ch \<longrightarrow> (\<exists>ss. ch = (acc @ [current]) @ ss \<and>
           mini_walked fat (fat ! unat current) (ow[unat current := i]) ow' i ss))"
        by (rule 1(1)) (use False c rec 1(2) in \<open>auto\<close>)
      have "\<exists>ss. ch = acc @ ss \<and> mini_walked fat current ow ow' i ss" if "r = Inr ch" for ch
      proof -
        from IH that obtain ss where "ch = acc @ current # ss"
          "mini_walked fat (fat ! unat current) (ow[unat current := i]) ow' i ss" by auto
        with mini_walked_Cons [OF this(2)] c False 1(2) show ?thesis by (intro exI [of _ "current # ss"]) auto
      qed
      moreover have "mini_claims ow ow' i" using IH mini_claims_set c by blast
      ultimately show ?thesis using IH by blast
    qed
  qed
qed

end
