(* ===== verification/Cfb_Streams.thy ===== *)
theory Cfb_Streams
  imports Cfb_Chains
begin

text \<open>
  The bytes of a stream of a compound file: \<open>Resolve\<close> and \<open>ReadStream\<close> of \<open>Cfb_Reader\<close>
  against the format. \<open>ordinary_bytes\<close> and \<open>mini_bytes\<close> say what a stream holds: the
  sectors of its chain, cut at its size. \<open>model_ok\<close> is the invariant of a package model that
  \<open>Parse\<close> establishes and every call keeps, also a call that throws.
\<close>

section \<open>Ranges\<close>

definition extent_bytes :: "bytes \<Rightarrow> ByteExtent \<Rightarrow> bytes" where
  "extent_bytes c e = segment (unat (ext_offset e)) (unat (ext_length e)) c"

definition extents_bytes :: "bytes \<Rightarrow> ByteExtent list \<Rightarrow> bytes" where
  "extents_bytes c xs = concat (map (extent_bytes c) xs)"

definition extents_in :: "bytes \<Rightarrow> ByteExtent list \<Rightarrow> bool" where
  "extents_in c xs \<longleftrightarrow> (\<forall>e \<in> set xs. unat (ext_offset e) + unat (ext_length e) \<le> length c)"

lemma extents_bytes_simps [simp]:
  "extents_bytes c [] = []" "extents_bytes c (xs @ ys) = extents_bytes c xs @ extents_bytes c ys"
  "extents_bytes c [e] = extent_bytes c e"
  by (simp_all add: extents_bytes_def)

lemma extents_in_simps [simp]:
  "extents_in c []" "extents_in c (xs @ ys) \<longleftrightarrow> extents_in c xs \<and> extents_in c ys"
  "extents_in c [e] \<longleftrightarrow> unat (ext_offset e) + unat (ext_length e) \<le> length c"
  by (auto simp: extents_in_def)

lemma AppendExtent_spec:
  assumes "extents_in c xs" and "unat o' + unat l \<le> length c" and "length c < 2 ^ 64"
  shows "extents_in c (AppendExtent xs o' l)"
    and "extents_bytes c (AppendExtent xs o' l) = extents_bytes c xs @ segment (unat o') (unat l) c"
proof -
  have "extents_in c (AppendExtent xs o' l) \<and>
    extents_bytes c (AppendExtent xs o' l) = extents_bytes c xs @ segment (unat o') (unat l) c"
  proof (cases "xs \<noteq> [] \<and> ext_offset (last xs) + ext_length (last xs) = o'")
    case True
    define ys e where "ys = butlast xs" and "e = last xs"
    with True have xs: "xs = ys @ [e]" by simp
    have inn: "unat (ext_offset e) + unat (ext_length e) \<le> length c" using assms(1) xs by simp
    then have o': "unat o' = unat (ext_offset e) + unat (ext_length e)"
      using True xs assms(3) by (auto simp: unat_add_nowrap)
    have sum: "unat (ext_length e + l) = unat (ext_length e) + unat l"
      using assms(2,3) o' by (subst unat_add_nowrap) auto
    have app: "AppendExtent xs o' l = ys @ [e\<lparr>ext_length := ext_length e + l\<rparr>]"
      using True by (simp add: AppendExtent_def ys_def e_def)
    have "extent_bytes c (e\<lparr>ext_length := ext_length e + l\<rparr>) = extent_bytes c e @ segment (unat o') (unat l) c"
      by (simp add: extent_bytes_def sum o' segment_append)
    then show ?thesis unfolding app using assms(1,2) o' sum by (simp add: xs)
  next
    case False
    then show ?thesis using assms by (auto simp: AppendExtent_def extent_bytes_def)
  qed
  then show "extents_in c (AppendExtent xs o' l)"
    and "extents_bytes c (AppendExtent xs o' l) = extents_bytes c xs @ segment (unat o') (unat l) c" by simp_all
qed

section \<open>What a stream holds\<close>

definition sector_bytes :: "PackageModel \<Rightarrow> bytes \<Rightarrow> u32 \<Rightarrow> bytes" where
  "sector_bytes m c s = segment ((unat s + 1) * ssz m) (ssz m) c"

definition ordinary_bytes :: "PackageModel \<Rightarrow> bytes \<Rightarrow> nat \<Rightarrow> u32 list \<Rightarrow> bytes" where
  "ordinary_bytes m c n ss = take n (concat (map (sector_bytes m c) ss))"

lemma take_append_full: "length xs = k \<Longrightarrow> k \<le> n \<Longrightarrow> take n (xs @ ys) = xs @ take (n - k) ys"
  by simp

lemma ordinary_bytes_Cons:
  assumes "(unat s + 1) * ssz m + min (ssz m) n \<le> length c"
  shows "ordinary_bytes m c n (s # ss) =
    segment ((unat s + 1) * ssz m) (min (ssz m) n) c @ ordinary_bytes m c (n - min (ssz m) n) ss"
proof (cases "ssz m \<le> n")
  case True
  then have "length (sector_bytes m c s) = ssz m" using assms by (simp add: sector_bytes_def)
  with True show ?thesis by (simp add: ordinary_bytes_def min_def) (simp add: sector_bytes_def)
next
  case False
  then show ?thesis using assms
    by (auto simp: ordinary_bytes_def sector_bytes_def segment_def min_def take_take)
qed

lemma OrdinaryExtent_spec:
  assumes ok: "pkg_ok m c"
  shows "extents_in c xs \<Longrightarrow> foldE (OrdinaryExtent m) (xs, left) ss = Inr (ys, left') \<Longrightarrow>
    extents_in c ys \<and> extents_bytes c ys = extents_bytes c xs @ ordinary_bytes m c (unat left) ss \<and>
    length (ordinary_bytes m c (unat left) ss) = min (unat left) (length ss * ssz m)"
proof (induction ss arbitrary: xs left)
  case Nil
  then show ?case by (simp add: ordinary_bytes_def)
next
  case (Cons s ss)
  have h: "header_ok m" and sp: "span_ok (source m) c" using ok by (simp_all add: pkg_ok_def)
  let ?chunk = "min (ucast (sector_size (header m))) left :: u64"
  have chunk: "unat ?chunk = min (ssz m) (unat left)"
    using sector_size_nat [of m] by (simp add: min_def word_le_nat_alt)
  have fits: "RangeFits (SectorStart m s) ?chunk (span_size (source m))"
    and rest: "foldE (OrdinaryExtent m) (AppendExtent xs (SectorStart m s) ?chunk, left - ?chunk) ss = Inr (ys, left')"
    using Cons.prems(2) by (auto simp: OrdinaryExtent_def Let_def SectorPastEnd_def ThrowMalformed_def split: if_splits)
  have inside: "(unat s + 1) * ssz m + min (ssz m) (unat left) \<le> length c"
    using fits chunk SectorStart_nat [OF h] span_ok_length [OF sp] by (simp add: RangeFits_iff)
  have less: "unat (left - ?chunk) = unat left - min (ssz m) (unat left)"
    using chunk by (subst unat_diff_nowrap) auto
  have start: "unat (SectorStart m s) + unat ?chunk \<le> length c"
    using inside chunk SectorStart_nat [OF h] by simp
  note app = AppendExtent_spec [OF Cons.prems(1) start span_ok_less [OF sp]]
  have "length (segment ((unat s + 1) * ssz m) (min (ssz m) (unat left)) c) = min (ssz m) (unat left)"
    using inside by simp
  moreover have "min (ssz m) n + min (n - min (ssz m) n) k = min n (ssz m + k)" for n k :: nat
    by linarith
  ultimately show ?case
    using Cons.IH [OF app(1) rest] app(2) inside less SectorStart_nat [OF h] chunk
    by (simp add: ordinary_bytes_Cons)
qed

lemma UnitsFor_nat:
  assumes "0 < unat unit"
  shows "unat (UnitsFor n unit) = (unat n + (unat unit - 1)) div unat unit"
proof -
  let ?n = "unat n" and ?u = "unat unit"
  have split: "?n = ?u * (?n div ?u) + ?n mod ?u" by simp
  have part: "(?u * q + r) div ?u = q" if "r < ?u" for q r using that by simp
  have eq: "(?n + (?u - 1)) div ?u = ?n div ?u + (if ?n mod ?u \<noteq> 0 then 1 else 0)"
  proof (cases "?n mod ?u = 0")
    case True
    then have "?n + (?u - 1) = ?u * (?n div ?u) + (?u - 1)" using split by simp
    with part [of "?u - 1"] True assms show ?thesis by simp
  next
    case False
    then have "?n + (?u - 1) = ?u * (?n div ?u + 1) + (?n mod ?u - 1)" using split assms unfolding distrib_left mult_1_right by linarith
    moreover have "?n mod ?u - 1 < ?u" using assms mod_less_divisor [of ?u ?n] by linarith
    ultimately show ?thesis using False part [of "?n mod ?u - 1" "?n div ?u + 1"] by simp
  qed
  have z: "n mod unit \<noteq> 0 \<longleftrightarrow> ?n mod ?u \<noteq> 0"
    by (metis unat_eq_0 unat_mod)
  show ?thesis
  proof (cases "?n mod ?u = 0")
    case True
    then show ?thesis using z eq by (simp add: UnitsFor_def unat_div)
  next
    case False
    have "?u \<noteq> 1" using False by auto
    then have "?n div ?u \<le> ?n div 2" using assms by (intro div_le_mono2) auto
    then have "?n div ?u + 1 < 2 ^ 64" using unat_u64_less [of n] by simp
    then show ?thesis using False z eq by (simp add: UnitsFor_def unat_add_nowrap unat_div)
  qed
qed

section \<open>The invariant of a model\<close>

definition container_ok :: "PackageModel \<Rightarrow> bytes \<Rightarrow> bool" where
  "container_ok m c \<longleftrightarrow>
     links (fat_value m c) (mini_container_start m) (mini_container_chain m) \<and>
     (unat (mini_container_size m) + (ssz m - 1)) div ssz m \<le> length (mini_container_chain m) \<and>
     (\<forall>k < (unat (mini_container_size m) + (ssz m - 1)) div ssz m.
        (unat (mini_container_chain m ! k) + 1) * ssz m + min (ssz m) (unat (mini_container_size m) - k * ssz m) \<le> length c)"

definition model_ok :: "PackageModel \<Rightarrow> bytes \<Rightarrow> bool" where
  "model_ok m c \<longleftrightarrow>
     pkg_ok m c \<and>
     (owners_count (sector_owner m) = SectorCount m \<longrightarrow> owners_ok (sector_owner m) (unat (SectorCount m))) \<and>
     (mini_container_ready m \<and> mini_container_size m \<noteq> 0 \<longrightarrow> container_ok m c)"

text \<open>A call changes only what the model remembers of earlier calls.\<close>

definition same_package :: "PackageModel \<Rightarrow> PackageModel \<Rightarrow> bool" where
  "same_package m m' \<longleftrightarrow>
     source m' = source m \<and> header m' = header m \<and> root m' = root m \<and> fat_sectors m' = fat_sectors m \<and>
     mini_fat m' = mini_fat m \<and> mini_container_start m' = mini_container_start m \<and>
     mini_container_size m' = mini_container_size m"

lemma same_package_refl [simp]: "same_package m m"
  by (simp add: same_package_def)

lemma same_package_trans: "same_package a b \<Longrightarrow> same_package b d \<Longrightarrow> same_package a d"
  by (simp add: same_package_def)

lemma same_package_eqs:
  assumes "same_package m m'"
  shows "header_ok m' = header_ok m" "ssz m' = ssz m" "pkg_ok m' c = pkg_ok m c" "SectorCount m' = SectorCount m"
    "SectorStart m' = SectorStart m" "fat_value m' c = fat_value m c" "sector_bytes m' c = sector_bytes m c"
    "ordinary_bytes m' c = ordinary_bytes m c" "HeaderSize m' = HeaderSize m"
proof -
  from assms have eq: "source m' = source m" "header m' = header m" "fat_sectors m' = fat_sectors m"
    by (simp_all add: same_package_def)
  then show *: "header_ok m' = header_ok m" "ssz m' = ssz m" "HeaderSize m' = HeaderSize m"
    by (simp_all add: header_ok_def ssz_def HeaderSize_def)
  with eq show "pkg_ok m' c = pkg_ok m c" "SectorCount m' = SectorCount m"
    "SectorStart m' = SectorStart m" "fat_value m' c = fat_value m c"
    by (simp_all add: pkg_ok_def SectorCount_def SectorStart_def fat_value_def fun_eq_iff)
  from * show sb: "sector_bytes m' c = sector_bytes m c" by (simp add: sector_bytes_def fun_eq_iff)
  show "ordinary_bytes m' c = ordinary_bytes m c" unfolding ordinary_bytes_def sb ..
qed

lemma SectorCount_bound: "pkg_ok m c \<Longrightarrow> unat (SectorCount m) + 4096 < 2 ^ 64"
proof -
  assume ok: "pkg_ok m c"
  then have h: "header_ok m" by (simp add: pkg_ok_def)
  have "unat (SectorCount m) = (unat (span_size (source m)) - 1) div ssz m" by (rule SectorCount_nat [OF h])
  also have "\<dots> \<le> (unat (span_size (source m)) - 1) div 512"
    using ssz_cases [OF h] by (intro div_le_mono2) auto
  also have "\<dots> < 2 ^ 55"
    using unat_u64_less [of "span_size (source m)"] by simp
  finally show ?thesis by simp
qed

lemma Owners_Set_count: "Owners_Set ow s i = Inr ow' \<Longrightarrow> owners_count ow' = owners_count ow"
  by (auto simp: Owners_Set_def)

lemma WalkChain_count: "owners_count (snd (WalkChain host m start ow i what acc)) = owners_count ow"
proof (induction host m start ow i what acc rule: WalkChain.induct)
  case (1 host m current ow i what acc)
  then show ?case
    by (subst WalkChain.simps) (auto split: sum.split dest: Owners_Set_count)
qed

definition owners_before :: "PackageModel \<Rightarrow> SectorOwners" where
  "owners_before m = sector_owner (with_sector_owner m)"

lemma owners_before_ok:
  assumes "model_ok m c"
  shows "owners_ok (owners_before m) (unat (SectorCount m))" and "owners_count (owners_before m) = SectorCount m"
  using assms owners_new(1) [of "SectorCount m"] SectorCount_bound [of m c]
  by (auto simp: owners_before_def with_sector_owner_def model_ok_def SectorOwners_new_def)

lemma WalkStream_spec:
  assumes ok: "model_ok m c" and walk: "WalkStream host m start = (r, m')"
  shows "rejects cfb_format r" and "same_package m m'" and "mini_owner m' = mini_owner m"
    and "mini_container_ready m' = mini_container_ready m" and "mini_container_chain m' = mini_container_chain m"
    and "owners_ok (sector_owner m') (unat (SectorCount m))" and "owners_count (sector_owner m') = SectorCount m"
    and "claims (owners_before m) (sector_owner m') (last_owner m + 1)"
    and "r = Inr ss \<Longrightarrow> walked (fat_value m c) (unat (SectorCount m)) start (owners_before m) (sector_owner m') (last_owner m + 1) ss"
proof -
  let ?m1 = "with_sector_owner m"
  have same: "same_package m ?m1" by (simp add: with_sector_owner_def same_package_def)
  note eqs = same_package_eqs [OF same]
  have lo: "last_owner ?m1 = last_owner m" by (simp add: with_sector_owner_def)
  obtain ow' where w: "WalkChain host ?m1 start (owners_before m) (last_owner m + 1) ''stream'' [] = (r, ow')"
    and m': "m' = ?m1\<lparr>last_owner := last_owner m + 1, sector_owner := ow'\<rparr>"
    using walk by (auto simp: WalkStream_def Let_def owners_before_def lo split: prod.splits)
  have pkg: "pkg_ok ?m1 c" using ok eqs by (simp add: model_ok_def)
  note spec = WalkChain_spec [OF pkg _ w, unfolded eqs, OF owners_before_ok(1) [OF ok]]
  show "rejects cfb_format r" "owners_ok (sector_owner m') (unat (SectorCount m))"
    "claims (owners_before m) (sector_owner m') (last_owner m + 1)" using spec m' by simp_all
  show "same_package m m'" using same m' by (simp add: same_package_def)
  show "mini_owner m' = mini_owner m" "mini_container_ready m' = mini_container_ready m"
    "mini_container_chain m' = mini_container_chain m" by (simp_all add: m' with_sector_owner_def)
  show "owners_count (sector_owner m') = SectorCount m"
    using WalkChain_count [of host ?m1 start "owners_before m" "last_owner m + 1" "''stream''" "[]"] w
      owners_before_ok(2) [OF ok] m' by simp
  show "walked (fat_value m c) (unat (SectorCount m)) start (owners_before m) (sector_owner m') (last_owner m + 1) ss" if "r = Inr ss"
    using spec that m' by simp
qed

lemma WalkStream_model_ok:
  assumes "model_ok m c" and "WalkStream host m start = (r, m')"
  shows "model_ok m' c"
proof -
  note w = WalkStream_spec [OF assms]
  note eqs = same_package_eqs [OF w(2)]
  have "container_ok m' c = container_ok m c"
    using w(2,5) eqs by (simp add: container_ok_def same_package_def)
  then show ?thesis using assms(1) w(2,4,6,7) eqs by (auto simp: model_ok_def same_package_def)
qed

section \<open>Ordinary streams\<close>

lemma rejects_CheckChainLength [rejects_intros]: "rejects cfb_format (CheckChainLength n k unit name)"
  unfolding CheckChainLength_def Let_def by (intro rejects_intros)

lemma rejects_SectorPastEnd [rejects_intros]: "rejects cfb_format (SectorPastEnd m s)"
  unfolding SectorPastEnd_def by (intro rejects_intros)

lemma rejects_OrdinaryExtent [rejects_intros]: "rejects cfb_format (OrdinaryExtent m st s)"
  unfolding OrdinaryExtent_def Let_def by (cases st) (auto intro!: rejects_intros)

lemma CheckChainLength_Inr: "CheckChainLength n k unit name = Inr u \<Longrightarrow> k = UnitsFor n unit"
  by (auto simp: CheckChainLength_def Let_def ThrowMalformed_def split: if_splits)

lemma chain_length:
  assumes "CheckChainLength n (word_of_nat (length (ss :: u32 list))) unit name = Inr u" and "distinct ss" and "0 < unat unit"
  shows "unat n \<le> length ss * unat unit"
proof -
  have "unat (word_of_nat (length ss) :: u64) = length ss"
    using distinct_u32_length [OF assms(2)] by (simp add: unat_of_nat_small)
  then have "length ss = (unat n + (unat unit - 1)) div unat unit"
    using CheckChainLength_Inr [OF assms(1)] UnitsFor_nat [OF assms(3)] by metis
  then show ?thesis
    using assms(3) dividend_less_div_times [of "unat unit" "unat n + (unat unit - 1)"] by (simp add: mult.commute)
qed

lemma ResolveOrdinary_spec:
  assumes ok: "model_ok m c" and res: "ResolveOrdinary host m stream = (r, m')"
  shows "rejects cfb_format r" and "model_ok m' c" and "same_package m m'"
    and "r = Inr xs \<Longrightarrow> \<exists>ss. links (fat_value m c) (start_sector stream) ss \<and> extents_in c xs \<and>
      extents_bytes c xs = ordinary_bytes m c (unat (node_size stream)) ss \<and>
      length (extents_bytes c xs) = unat (node_size stream)"
proof -
  obtain w where walk: "WalkStream host m (start_sector stream) = (w, m')"
    and r: "r = bindE w (\<lambda>chain.
       bindE (CheckChainLength (node_size stream) (word_of_nat (length chain)) (ucast (sector_size (header m'))) ''sectors'') (\<lambda>_.
       bindE (foldE (OrdinaryExtent m') ([], node_size stream) chain) (\<lambda>(extents, _). Inr extents)))"
    using res by (auto simp: ResolveOrdinary_def split: prod.splits)
  note ws = WalkStream_spec [OF ok walk]
  show "rejects cfb_format r" unfolding r by (intro rejects_intros ws(1))
  show m'_ok: "model_ok m' c" by (rule WalkStream_model_ok [OF ok walk])
  show "same_package m m'" by (rule ws(2))
  note eqs = same_package_eqs [OF ws(2)]
  have pkg: "pkg_ok m' c" using m'_ok by (simp add: model_ok_def)
  then have pos: "0 < ssz m'" using ssz_pos by (simp add: pkg_ok_def)
  show "\<exists>ss. links (fat_value m c) (start_sector stream) ss \<and> extents_in c xs \<and>
      extents_bytes c xs = ordinary_bytes m c (unat (node_size stream)) ss \<and>
      length (extents_bytes c xs) = unat (node_size stream)" if "r = Inr xs"
  proof -
    from that r obtain ss u left where ss: "w = Inr ss"
      and len: "CheckChainLength (node_size stream) (word_of_nat (length ss)) (ucast (sector_size (header m'))) ''sectors'' = Inr u"
      and fold: "foldE (OrdinaryExtent m') ([], node_size stream) ss = Inr (xs, left)"
      by (auto split: prod.splits)
    note wd = ws(9) [OF ss]
    have dist: "distinct ss" using wd by (simp add: walked_def)
    have "unat (node_size stream) \<le> length ss * ssz m'"
      using chain_length [OF len dist] pos by (simp add: sector_size_nat)
    then have "extents_in c xs \<and> extents_bytes c xs = ordinary_bytes m' c (unat (node_size stream)) ss \<and>
      length (ordinary_bytes m' c (unat (node_size stream)) ss) = unat (node_size stream)"
      using OrdinaryExtent_spec [OF pkg _ fold] by simp
    with wd eqs show ?thesis by (auto simp: walked_def)
  qed
qed

section \<open>The mini stream\<close>

lemma foldE_upto_Suc:
  "foldE f st [0..<Suc n] = bindE (foldE f st [0..<n]) (\<lambda>st'. f st' n)"
  by (simp add: foldE_append) (simp add: bindE_def split: sum.splits)

lemma ContainerSector_spec:
  assumes h: "header_ok m" and sp: "span_ok (source m) c"
  shows "foldE (ContainerSector m ss) n0 [0..<n] = Inr left \<Longrightarrow>
    unat left = unat n0 - n * ssz m \<and>
    (\<forall>k < n. k < length ss \<and> (unat (ss ! k) + 1) * ssz m + min (ssz m) (unat n0 - k * ssz m) \<le> length c)"
proof (induction n arbitrary: left)
  case (Suc n)
  from Suc.prems obtain st where st: "foldE (ContainerSector m ss) n0 [0..<n] = Inr st"
    and last: "ContainerSector m ss st n = Inr left" by (auto simp: foldE_upto_Suc simp del: upt_Suc)
  note IH = Suc.IH [OF st]
  let ?chunk = "min (ucast (sector_size (header m))) st :: u64"
  have chunk: "unat ?chunk = min (ssz m) (unat st)"
    using sector_size_nat [of m] by (simp add: min_def word_le_nat_alt)
  have n: "n < length ss" "RangeFits (SectorStart m (ss ! n)) ?chunk (span_size (source m))" "left = st - ?chunk"
    using last by (auto simp: ContainerSector_def Let_def at_index_def SectorPastEnd_def ThrowMalformed_def split: if_splits)
  have "unat left = unat st - min (ssz m) (unat st)"
    using chunk n(3) by (subst n(3), subst unat_diff_nowrap) auto
  then have left: "unat left = unat n0 - Suc n * ssz m" using IH by auto
  have "(unat (ss ! n) + 1) * ssz m + min (ssz m) (unat n0 - n * ssz m) \<le> length c"
    using n(2) chunk IH SectorStart_nat [OF h] span_ok_length [OF sp] by (simp add: RangeFits_iff)
  with IH n(1) left show ?case by (auto simp: less_Suc_eq)
qed simp

lemma rejects_ContainerSector:
  assumes "n \<le> length ss"
  shows "rejects cfb_format (foldE (ContainerSector m ss) n0 [0..<n])"
proof (rule rejects_foldE)
  fix st k assume "k \<in> set [0..<n]"
  then show "rejects cfb_format (ContainerSector m ss st k)"
    using assms unfolding ContainerSector_def Let_def at_index_def by (auto intro!: rejects_intros)
qed

lemma EnsureMiniStream_spec:
  assumes ok: "model_ok m c" and run: "EnsureMiniStream host m k = (r, m', k')"
  shows "rejects cfb_format r" and "model_ok m' c" and "same_package m m'" and "mini_owner m' = mini_owner m"
    and "r = Inr u \<Longrightarrow> mini_container_ready m'"
proof -
  consider (ready) "mini_container_ready m" "r = Inr ()" "m' = m"
    | (none) "\<not> mini_container_ready m" "mini_container_size m = 0" "r = Inr ()" "m' = m\<lparr>mini_container_ready := True\<rparr>"
    | (walk) "\<not> mini_container_ready m" "mini_container_size m \<noteq> 0"
    using run by (auto simp: EnsureMiniStream_def split: if_splits)
  then have "rejects cfb_format r \<and> model_ok m' c \<and> same_package m m' \<and> mini_owner m' = mini_owner m \<and>
    (r = Inr u \<longrightarrow> mini_container_ready m')"
  proof cases
    case ready
    then show ?thesis using ok by (simp add: rejects_Inr)
  next
    case none
    have same: "same_package m m'" using none by (simp add: same_package_def)
    from same_package_eqs [OF same] have "model_ok m' c" using ok none by (simp add: model_ok_def)
    with same none show ?thesis by (simp add: rejects_Inr)
  next
    case walk
    obtain w m1 where w: "WalkStream host m (mini_container_start m) = (w, m1)" by (cases "WalkStream host m (mini_container_start m)")
    note ws = WalkStream_spec [OF ok w] and m1_ok = WalkStream_model_ok [OF ok w]
    note eqs = same_package_eqs [OF ws(2)]
    have pkg: "pkg_ok m1 c" using m1_ok by (simp add: model_ok_def)
    then have h: "header_ok m1" and sp: "span_ok (source m1) c" and pos: "0 < ssz m1"
      using ssz_pos by (simp_all add: pkg_ok_def)
    have size: "mini_container_size m1 = mini_container_size m" "mini_container_start m1 = mini_container_start m"
      using ws(2) by (simp_all add: same_package_def)
    let ?needed = "UnitsFor (mini_container_size m1) (ucast (sector_size (header m1)))"
    have needed: "unat ?needed = (unat (mini_container_size m1) + (ssz m1 - 1)) div ssz m1"
      using UnitsFor_nat [of "ucast (sector_size (header m1))" "mini_container_size m1"] pos
      by (simp add: sector_size_nat)
    define checked where "checked = bindE w (\<lambda>chain.
       if word_of_nat (length chain) < ?needed then
         ThrowMalformed cfb_format (''stream size '' @ to_string (mini_container_size m1) @
           '' exceeds its chain of '' @ dec (length chain) @ '' sectors'')
       else bindE (foldE (ContainerSector m1 chain) (mini_container_size m1) [0..<unat ?needed]) (\<lambda>_. Inr chain))"
    have res: "(r, m', k') = (case checked of Inl e \<Rightarrow> (Inl e, m1, k + 1)
        | Inr chain \<Rightarrow> (Inr (), m1\<lparr>mini_container_chain := chain, mini_container_ready := True\<rparr>, k + 1))"
      using run walk w unfolding EnsureMiniStream_def checked_def by (simp add: Let_def)
    have rej: "rejects cfb_format checked"
      unfolding checked_def
    proof (rule rejects_bind [OF ws(1)])
      fix chain assume "w = Inr chain"
      then have "distinct chain" using ws(9) by (simp add: walked_def)
      from distinct_u32_length [OF this] have len: "unat (word_of_nat (length chain) :: u64) = length chain"
        by (simp add: unat_of_nat_small)
      show "rejects cfb_format (if word_of_nat (length chain) < ?needed
          then ThrowMalformed cfb_format (''stream size '' @ to_string (mini_container_size m1) @
            '' exceeds its chain of '' @ dec (length chain) @ '' sectors'')
          else bindE (foldE (ContainerSector m1 chain) (mini_container_size m1) [0..<unat ?needed]) (\<lambda>_. Inr chain))"
      proof (cases "word_of_nat (length chain) < ?needed")
        case True
        then show ?thesis by (simp add: rejects_Throw)
      next
        case False
        then have "unat ?needed \<le> length chain" using len by (simp add: word_less_nat_alt)
        then show ?thesis using False by (simp add: rejects_bind rejects_Inr rejects_ContainerSector)
      qed
    qed
    show ?thesis
    proof (cases checked)
      case (Inl e)
      then show ?thesis using res rej m1_ok ws(2,3) by (simp add: rejects_def)
    next
      case (Inr chain)
      then have w_chain: "w = Inr chain" and long: "\<not> word_of_nat (length chain) < ?needed"
        and fold: "\<exists>left. foldE (ContainerSector m1 chain) (mini_container_size m1) [0..<unat ?needed] = Inr left"
        by (auto simp: checked_def ThrowMalformed_def split: if_splits)
      from fold obtain left where "foldE (ContainerSector m1 chain) (mini_container_size m1) [0..<unat ?needed] = Inr left" ..
      note sectors = ContainerSector_spec [OF h sp this]
      have m': "m' = m1\<lparr>mini_container_chain := chain, mini_container_ready := True\<rparr>" "r = Inr ()"
        using res Inr by simp_all
      have same: "same_package m1 m'" using m' by (simp add: same_package_def)
      note eqs' = same_package_eqs [OF same]
      have "links (fat_value m1 c) (mini_container_start m1) chain"
        using ws(9) [OF w_chain] eqs size by (simp add: walked_def)
      moreover have "unat ?needed \<le> length chain"
      proof (rule ccontr)
        assume "\<not> unat ?needed \<le> length chain"
        then have "length chain < unat ?needed" by simp
        with sectors show False by blast
      qed
      ultimately have "container_ok m' c"
        using sectors needed eqs' m' by (simp add: container_ok_def)
      then have "model_ok m' c" using m1_ok eqs' m' by (simp add: model_ok_def)
      with same_package_trans [OF ws(2) same] m' ws(3) show ?thesis by (simp add: rejects_Inr)
    qed
  qed
  then show "rejects cfb_format r" and "model_ok m' c" and "same_package m m'" and "mini_owner m' = mini_owner m"
    and "r = Inr u \<Longrightarrow> mini_container_ready m'" by simp_all
qed

section \<open>Mini streams\<close>

definition mini_stream :: "PackageModel \<Rightarrow> bytes \<Rightarrow> bytes" where
  "mini_stream m c = ordinary_bytes m c (unat (mini_container_size m)) (mini_container_chain m)"

definition mini_sector_bytes :: "PackageModel \<Rightarrow> bytes \<Rightarrow> u32 \<Rightarrow> bytes" where
  "mini_sector_bytes m c k = segment (unat k * 64) 64 (mini_stream m c)"

definition mini_bytes :: "PackageModel \<Rightarrow> bytes \<Rightarrow> nat \<Rightarrow> u32 list \<Rightarrow> bytes" where
  "mini_bytes m c n ss = take n (concat (map (mini_sector_bytes m c) ss))"

lemma concat_segment:
  "(\<forall>k < i. length (bs ! k) = L) \<Longrightarrow> i < length bs \<Longrightarrow> j + n \<le> length (bs ! i) \<Longrightarrow>
    segment (i * L + j) n (concat bs) = segment j n (bs ! i)"
proof (induction bs arbitrary: i)
  case (Cons b bs)
  show ?case
  proof (cases i)
    case 0
    with Cons.prems show ?thesis by (simp add: segment_def)
  next
    case (Suc k)
    with Cons.prems have "length b = L" by force
    moreover have "segment (k * L + j) n (concat bs) = segment j n (bs ! k)"
      using Cons.prems Suc by (intro Cons.IH) auto
    ultimately show ?thesis using Suc by (simp add: segment_def drop_append add.assoc)
  qed
qed simp

lemma segment_take: "pos + n \<le> N \<Longrightarrow> segment pos n (take N xs) = segment pos n xs"
  by (simp add: segment_def drop_take min_def)

text \<open>A range of the mini stream inside one sector, as a range of the file.\<close>

lemma mini_stream_segment:
  assumes h: "header_ok m" and co: "container_ok m c"
    and le: "pos + n \<le> unat (mini_container_size m)" and n: "0 < n" and one: "pos mod ssz m + n \<le> ssz m"
  shows "pos div ssz m < length (mini_container_chain m)"
    and "(unat (mini_container_chain m ! (pos div ssz m)) + 1) * ssz m + pos mod ssz m + n \<le> length c"
    and "segment pos n (mini_stream m c) =
      segment ((unat (mini_container_chain m ! (pos div ssz m)) + 1) * ssz m + pos mod ssz m) n c"
proof -
  let ?i = "pos div ssz m" and ?size = "unat (mini_container_size m)" and ?ch = "mini_container_chain m"
  have pos: "0 < ssz m" by (rule ssz_pos [OF h])
  have split: "?i * ssz m + pos mod ssz m = pos" by (simp add: mult.commute)
  have "?i * ssz m + (ssz m - 1) + 1 \<le> ?size + (ssz m - 1)" using split le n by linarith
  then have "Suc ?i * ssz m \<le> ?size + (ssz m - 1)" using pos by simp
  then have i: "?i < (?size + (ssz m - 1)) div ssz m"
    using pos by (simp add: less_eq_Suc_le less_eq_div_iff_mult_less_eq)
  then show i_len: "?i < length ?ch" using co by (simp add: container_ok_def)
  have sec: "(unat (?ch ! k) + 1) * ssz m + min (ssz m) (?size - k * ssz m) \<le> length c" if "k \<le> ?i" for k
    using co i that by (simp add: container_ok_def)
  have "pos mod ssz m + n \<le> ?size - ?i * ssz m" using split le by linarith
  then have inn: "(unat (?ch ! ?i) + 1) * ssz m + (pos mod ssz m + n) \<le> length c"
    using sec [of ?i] one by linarith
  then show "(unat (?ch ! ?i) + 1) * ssz m + pos mod ssz m + n \<le> length c" by simp
  have full: "length (map (sector_bytes m c) ?ch ! k) = ssz m" if k: "k < ?i" for k
  proof -
    have "Suc k * ssz m \<le> ?i * ssz m" using k by (intro mult_le_mono1) simp
    then have "k * ssz m + ssz m \<le> ?i * ssz m" by simp
    then have "k * ssz m + ssz m \<le> ?size" using split le n by linarith
    then have "ssz m \<le> ?size - k * ssz m" by simp
    then have "(unat (?ch ! k) + 1) * ssz m + ssz m \<le> length c" using sec [of k] k by simp
    then show ?thesis using k i_len by (simp add: sector_bytes_def)
  qed
  have last: "pos mod ssz m + n \<le> length (map (sector_bytes m c) ?ch ! ?i)"
    using inn one i_len by (simp add: sector_bytes_def)
  have "segment pos n (mini_stream m c) = segment (?i * ssz m + pos mod ssz m) n (concat (map (sector_bytes m c) ?ch))"
    using le split by (simp add: mini_stream_def ordinary_bytes_def segment_take)
  also have "\<dots> = segment (pos mod ssz m) n (map (sector_bytes m c) ?ch ! ?i)"
    using full last i_len by (intro concat_segment) auto
  also have "\<dots> = segment ((unat (?ch ! ?i) + 1) * ssz m + pos mod ssz m) n c"
    using i_len one by (simp add: sector_bytes_def segment_segment)
  finally show "segment pos n (mini_stream m c) = segment ((unat (?ch ! ?i) + 1) * ssz m + pos mod ssz m) n c" .
qed

lemma mini_bytes_Cons:
  assumes "unat s * 64 + min 64 n \<le> length (mini_stream m c)"
  shows "mini_bytes m c n (s # ss) = segment (unat s * 64) (min 64 n) (mini_stream m c) @ mini_bytes m c (n - min 64 n) ss"
proof (cases "64 \<le> n")
  case True
  then have "length (mini_sector_bytes m c s) = 64" using assms by (simp add: mini_sector_bytes_def)
  with True show ?thesis by (simp add: mini_bytes_def min_def) (simp add: mini_sector_bytes_def)
next
  case False
  then show ?thesis using assms
    by (auto simp: mini_bytes_def mini_sector_bytes_def segment_def min_def take_take)
qed

lemma mini_stream_length: "container_ok m c \<Longrightarrow> header_ok m \<Longrightarrow> length (mini_stream m c) = unat (mini_container_size m)"
proof (cases "unat (mini_container_size m) = 0")
  case False
  assume co: "container_ok m c" and h: "header_ok m"
  let ?p = "unat (mini_container_size m) - 1"
  have "?p mod ssz m + 1 \<le> ssz m" using mod_less_divisor [OF ssz_pos [OF h], of ?p] by simp
  from mini_stream_segment(2,3) [OF h co _ _ this] False
  have "length (segment ?p 1 (mini_stream m c)) = 1" by simp
  then have "unat (mini_container_size m) \<le> length (mini_stream m c)" using False by simp
  then show ?thesis by (simp add: mini_stream_def ordinary_bytes_def)
qed (simp add: mini_stream_def ordinary_bytes_def)

text \<open>One mini sector: 64 bytes divide a sector, so it never crosses one.\<close>

lemma mini_fits_sector: "header_ok m \<Longrightarrow> k * 64 mod ssz m + 64 \<le> ssz m"
proof -
  assume h: "header_ok m"
  have "k * 64 mod (n * 64) + 64 \<le> n * 64" if "0 < n" for n :: nat
  proof -
    have "k * 64 mod (n * 64) = k mod n * 64" by (rule mult_mod_left [symmetric])
    moreover have "k mod n + 1 \<le> n" using mod_less_divisor [OF that, of k] by simp
    ultimately show ?thesis using mult_le_mono1 [of "k mod n + 1" n 64] by simp
  qed
  from this [of 8] this [of 64] have "k * 64 mod 512 + 64 \<le> 512" "k * 64 mod 4096 + 64 \<le> 4096" by simp_all
  with ssz_cases [OF h] show ?thesis by auto
qed

lemma MiniExtent_place:
  assumes ok: "pkg_ok m c" and co: "mini_container_size m \<noteq> 0 \<longrightarrow> container_ok m c" and left: "0 < unat left"
  shows "rejects cfb_format (MiniExtent m (xs, left) s)"
    and "MiniExtent m (xs, left) s = Inr (ys, left') \<Longrightarrow>
      \<exists>start chunk. ys = AppendExtent xs start chunk \<and> left' = left - chunk \<and> unat chunk = min 64 (unat left) \<and>
        unat start = (unat (mini_container_chain m ! (unat s * 64 div ssz m)) + 1) * ssz m + unat s * 64 mod ssz m \<and>
        unat s * 64 + min 64 (unat left) \<le> unat (mini_container_size m) \<and> container_ok m c"
    and "unat s * 64 mod ssz m + 64 \<le> ssz m"
proof -
  have h: "header_ok m" and sp: "span_ok (source m) c" using ok by (simp_all add: pkg_ok_def)
  have unit: "ucast (mini_sector_size (header m)) = (64 :: u64)" using h by (simp add: header_ok_def)
  let ?chunk = "min 64 left :: u64" and ?pos = "ucast s * 64 :: u64"
  have chunk: "unat ?chunk = min 64 (unat left)" by (simp add: min_def word_le_nat_alt)
  have p: "unat ?pos = unat s * 64"
    using unat_u32_less [of s] by (subst unat_mult_nowrap) (simp_all add: unat_ucast_u32)
  show one: "unat s * 64 mod ssz m + 64 \<le> ssz m" by (rule mini_fits_sector [OF h])
  have dm: "unat (?pos div ucast (sector_size (header m))) = unat s * 64 div ssz m"
    "unat (?pos mod ucast (sector_size (header m))) = unat s * 64 mod ssz m"
    using p by (simp_all add: unat_div unat_mod ssz_def unat_ucast_u32)
  have "rejects cfb_format (MiniExtent m (xs, left) s) \<and> (MiniExtent m (xs, left) s = Inr (ys, left') \<longrightarrow>
      (\<exists>start chunk. ys = AppendExtent xs start chunk \<and> left' = left - chunk \<and> unat chunk = min 64 (unat left) \<and>
        unat start = (unat (mini_container_chain m ! (unat s * 64 div ssz m)) + 1) * ssz m + unat s * 64 mod ssz m \<and>
        unat s * 64 + min 64 (unat left) \<le> unat (mini_container_size m) \<and> container_ok m c))"
  proof (cases "RangeFits ?pos ?chunk (mini_container_size m)")
    case False
    then show ?thesis by (simp add: MiniExtent_def Let_def unit rejects_Throw) (simp add: ThrowMalformed_def)
  next
    case True
    then have le: "unat s * 64 + min 64 (unat left) \<le> unat (mini_container_size m)"
      using p chunk by (simp add: RangeFits_iff)
    have n: "0 < min 64 (unat left)" using left by simp
    then have "mini_container_size m \<noteq> 0" using le by auto
    from co this have co': "container_ok m c" by blast
    have "unat s * 64 mod ssz m + min 64 (unat left) \<le> ssz m" using one by linarith
    note seg = mini_stream_segment [OF h co' le n this]
    let ?s = "mini_container_chain m ! (unat s * 64 div ssz m)"
    have "unat (SectorStart m ?s) + unat s * 64 mod ssz m < 2 ^ 64"
      using seg(2) SectorStart_nat [OF h, of ?s] span_ok_less [OF sp] by linarith
    then have start: "unat (SectorStart m ?s + ?pos mod ucast (sector_size (header m))) =
        (unat ?s + 1) * ssz m + unat s * 64 mod ssz m"
      using dm(2) SectorStart_nat [OF h, of ?s] by (subst unat_add_nowrap) simp_all
    have step: "MiniExtent m (xs, left) s =
        Inr (AppendExtent xs (SectorStart m ?s + ?pos mod ucast (sector_size (header m))) ?chunk, left - ?chunk)"
      using True seg(1) dm(1) by (simp add: MiniExtent_def Let_def unit at_index_def)
    show ?thesis unfolding step using start chunk le co' by (auto simp: rejects_Inr)
  qed
  then show "rejects cfb_format (MiniExtent m (xs, left) s)"
    and "MiniExtent m (xs, left) s = Inr (ys, left') \<Longrightarrow>
      \<exists>start chunk. ys = AppendExtent xs start chunk \<and> left' = left - chunk \<and> unat chunk = min 64 (unat left) \<and>
        unat start = (unat (mini_container_chain m ! (unat s * 64 div ssz m)) + 1) * ssz m + unat s * 64 mod ssz m \<and>
        unat s * 64 + min 64 (unat left) \<le> unat (mini_container_size m) \<and> container_ok m c"
    by simp_all
qed

lemma MiniExtent_step:
  assumes ok: "pkg_ok m c" and co: "mini_container_size m \<noteq> 0 \<longrightarrow> container_ok m c" and left: "0 < unat left"
    and xs: "extents_in c xs" and run: "MiniExtent m (xs, left) s = Inr (ys, left')"
  shows "extents_in c ys \<and> unat left' = unat left - min 64 (unat left) \<and>
      unat s * 64 + min 64 (unat left) \<le> length (mini_stream m c) \<and>
      extents_bytes c ys = extents_bytes c xs @ segment (unat s * 64) (min 64 (unat left)) (mini_stream m c)"
proof -
  have h: "header_ok m" and sp: "span_ok (source m) c" using ok by (simp_all add: pkg_ok_def)
  let ?s = "mini_container_chain m ! (unat s * 64 div ssz m)"
  from MiniExtent_place(2) [OF ok co left run] obtain start chunk
    where ys: "ys = AppendExtent xs start chunk" "left' = left - chunk" and chunk: "unat chunk = min 64 (unat left)"
      and start: "unat start = (unat ?s + 1) * ssz m + unat s * 64 mod ssz m"
      and le: "unat s * 64 + min 64 (unat left) \<le> unat (mini_container_size m)" and co': "container_ok m c"
    by blast
  have "0 < min 64 (unat left)" "unat s * 64 mod ssz m + min 64 (unat left) \<le> ssz m"
    using left MiniExtent_place(3) [OF ok co left, of s] by auto
  note seg = mini_stream_segment [OF h co' le this]
  have "unat start + unat chunk \<le> length c" using seg(2) start chunk by simp
  note app = AppendExtent_spec [OF xs this span_ok_less [OF sp]]
  have "unat (left - chunk) = unat left - min 64 (unat left)"
    using chunk by (subst unat_diff_nowrap) (auto simp: word_le_nat_alt)
  moreover have "unat s * 64 + min 64 (unat left) \<le> length (mini_stream m c)"
    using le mini_stream_length [OF co' h] by simp
  ultimately show ?thesis using app seg(3) start chunk ys by simp
qed

text \<open>\<open>length ss\<close> mini sectors are needed: one more than fit before the last byte.\<close>

lemma MiniExtents_spec:
  assumes ok: "pkg_ok m c" and co: "mini_container_size m \<noteq> 0 \<longrightarrow> container_ok m c"
  shows "extents_in c xs \<Longrightarrow> length ss * 64 < unat left + 64 \<Longrightarrow>
    rejects cfb_format (foldE (MiniExtent m) (xs, left) ss) \<and>
    (foldE (MiniExtent m) (xs, left) ss = Inr (ys, left') \<longrightarrow>
      extents_in c ys \<and> extents_bytes c ys = extents_bytes c xs @ mini_bytes m c (unat left) ss \<and>
      length (mini_bytes m c (unat left) ss) = min (unat left) (length ss * 64))"
proof (induction ss arbitrary: xs left)
  case Nil
  then show ?case by (auto simp: mini_bytes_def rejects_Inr)
next
  case (Cons s ss)
  then have pos: "0 < unat left" by simp
  note step = MiniExtent_place(1) [OF ok co pos] MiniExtent_step [OF ok co pos Cons.prems(1)]
  show ?case
  proof (cases "MiniExtent m (xs, left) s")
    case (Inl e)
    then show ?thesis using step(1) [of xs s] by simp
  next
    case (Inr st)
    obtain xs1 left1 where st: "st = (xs1, left1)" by (cases st)
    note s1 = step(2) [OF Inr [unfolded st]]
    have "length ss * 64 < unat left1 + 64" using Cons.prems(2) s1 by auto
    from Cons.IH [OF _ this, of xs1] s1
    have rest: "rejects cfb_format (foldE (MiniExtent m) (xs1, left1) ss)"
      "foldE (MiniExtent m) (xs1, left1) ss = Inr (ys, left') \<longrightarrow>
        extents_in c ys \<and> extents_bytes c ys = extents_bytes c xs1 @ mini_bytes m c (unat left1) ss \<and>
        length (mini_bytes m c (unat left1) ss) = min (unat left1) (length ss * 64)" by simp_all
    have "length (segment (unat s * 64) (min 64 (unat left)) (mini_stream m c)) = min 64 (unat left)"
      using s1 unfolding length_segment by linarith
    moreover have "min 64 n + min (n - min 64 n) k = min n (64 + k)" for n k :: nat by linarith
    ultimately show ?thesis using rest s1 Inr st by (simp add: mini_bytes_Cons)
  qed
qed

lemma WalkMiniChain_spec:
  assumes "WalkMiniChain m start i = (r, m')"
  shows "rejects cfb_format r" and "same_package m m'" and "sector_owner m' = sector_owner m"
    and "mini_container_ready m' = mini_container_ready m" and "mini_container_chain m' = mini_container_chain m"
    and "r = Inr ss \<Longrightarrow> links (\<lambda>s. mini_fat m ! unat s) start ss \<and> distinct ss"
proof -
  let ?ow = "if length (mini_owner m) \<noteq> length (mini_fat m) then replicate (length (mini_fat m)) 0 else mini_owner m"
  obtain ow' where w: "WalkMini (mini_fat m) start ?ow i [] = (r, ow')" and m': "m' = m\<lparr>mini_owner := ow'\<rparr>"
    using assms by (auto simp: WalkMiniChain_def Let_def split: prod.splits)
  have "length ?ow = length (mini_fat m)" by simp
  note spec = WalkMini_spec [OF this w]
  show "rejects cfb_format r" using spec by simp
  show "same_package m m'" "sector_owner m' = sector_owner m"
    "mini_container_ready m' = mini_container_ready m" "mini_container_chain m' = mini_container_chain m"
    by (simp_all add: m' same_package_def)
  show "links (\<lambda>s. mini_fat m ! unat s) start ss \<and> distinct ss" if "r = Inr ss"
    using spec that by (auto simp: mini_walked_def)
qed

lemma chain_length_upper:
  assumes "CheckChainLength n (word_of_nat (length (ss :: u32 list))) unit name = Inr u" and "distinct ss" and "0 < unat unit"
  shows "length ss * unat unit < unat n + unat unit"
proof -
  have "unat (word_of_nat (length ss) :: u64) = length ss"
    using distinct_u32_length [OF assms(2)] by (simp add: unat_of_nat_small)
  then have "length ss = (unat n + (unat unit - 1)) div unat unit"
    using CheckChainLength_Inr [OF assms(1)] UnitsFor_nat [OF assms(3)] by metis
  then have "length ss * unat unit \<le> unat n + (unat unit - 1)" by simp
  then show ?thesis using assms(3) by linarith
qed

lemma ResolveMini_spec:
  assumes ok: "model_ok m c" and res: "ResolveMini host m stream k = (r, m', k')"
  shows "rejects cfb_format r" and "model_ok m' c" and "same_package m m'"
    and "r = Inr xs \<Longrightarrow> \<exists>ss. links (\<lambda>s. mini_fat m ! unat s) (start_sector stream) ss \<and> extents_in c xs \<and>
      mini_container_ready m' \<and> extents_bytes c xs = mini_bytes m' c (unat (node_size stream)) ss \<and>
      length (extents_bytes c xs) = unat (node_size stream)"
proof -
  obtain r1 m1 k1 where ens: "EnsureMiniStream host m k = (r1, m1, k1)" by (cases "EnsureMiniStream host m k")
  note e = EnsureMiniStream_spec [OF ok ens]
  have "rejects cfb_format r \<and> model_ok m' c \<and> same_package m m' \<and>
    (r = Inr xs \<longrightarrow> (\<exists>ss. links (\<lambda>s. mini_fat m ! unat s) (start_sector stream) ss \<and> extents_in c xs \<and>
      mini_container_ready m' \<and> extents_bytes c xs = mini_bytes m' c (unat (node_size stream)) ss \<and>
      length (extents_bytes c xs) = unat (node_size stream)))"
  proof (cases r1)
    case (Inl err)
    then have "r = Inl err" "m' = m1" using res ens by (simp_all add: ResolveMini_def)
    then show ?thesis using e(1-3) Inl by (auto simp: rejects_def)
  next
    case (Inr u)
    let ?i = "last_owner m1 + 1"
    obtain w m2 where walk: "WalkMiniChain (m1\<lparr>last_owner := ?i\<rparr>) (start_sector stream) ?i = (w, m2)"
      by (cases "WalkMiniChain (m1\<lparr>last_owner := ?i\<rparr>) (start_sector stream) ?i")
    note ws = WalkMiniChain_spec [OF walk]
    have m': "m' = m2" and r: "r = bindE w (\<lambda>chain.
       bindE (CheckChainLength (node_size stream) (word_of_nat (length chain)) (ucast (mini_sector_size (header m2))) ''mini sectors'') (\<lambda>_.
       bindE (foldE (MiniExtent m2) ([], node_size stream) chain) (\<lambda>(extents, _). Inr extents)))"
      using res ens Inr walk by (auto simp: ResolveMini_def Let_def)
    have same: "same_package m1 m2" using ws(2) by (simp add: same_package_def)
    note eqs = same_package_eqs [OF same]
    have "container_ok m2 c = container_ok m1 c"
      using same ws(5) eqs by (simp add: container_ok_def same_package_def)
    then have m2_ok: "model_ok m2 c" using e(2) ws(3,4) eqs same by (simp add: model_ok_def same_package_def)
    have pkg: "pkg_ok m2 c" using m2_ok by (simp add: model_ok_def)
    have ready: "mini_container_ready m2" using e(5) [OF Inr] ws(4) by simp
    then have co: "mini_container_size m2 \<noteq> 0 \<longrightarrow> container_ok m2 c" using m2_ok by (simp add: model_ok_def)
    have unit: "ucast (mini_sector_size (header m2)) = (64 :: u64)" using pkg by (simp add: pkg_ok_def header_ok_def)
    have body: "rejects cfb_format (foldE (MiniExtent m2) ([], node_size stream) ss) \<and>
        (foldE (MiniExtent m2) ([], node_size stream) ss = Inr (ys, left) \<longrightarrow> extents_in c ys \<and>
          extents_bytes c ys = mini_bytes m2 c (unat (node_size stream)) ss \<and>
          length (extents_bytes c ys) = unat (node_size stream))"
      if ss: "w = Inr ss"
        and len: "CheckChainLength (node_size stream) (word_of_nat (length ss)) (ucast (mini_sector_size (header m2))) ''mini sectors'' = Inr u'"
      for ss u' ys left
    proof -
      have dist: "distinct ss" using ws(6) [OF ss] by simp
      have "length ss * 64 < unat (node_size stream) + 64" "unat (node_size stream) \<le> length ss * 64"
        using chain_length_upper [OF len dist] chain_length [OF len dist] by (simp_all add: unit)
      with MiniExtents_spec [OF pkg co, of "[]" ss "node_size stream" ys left] show ?thesis by simp
    qed
    have "rejects cfb_format r"
      unfolding r
    proof (intro rejects_bind [OF ws(1)] rejects_bind [OF rejects_CheckChainLength])
      fix ss u' assume "w = Inr ss" "CheckChainLength (node_size stream) (word_of_nat (length ss))
          (ucast (mini_sector_size (header m2))) ''mini sectors'' = Inr u'"
      from body [OF this] have "rejects cfb_format (foldE (MiniExtent m2) ([], node_size stream) ss)" by blast
      then show "rejects cfb_format (bindE (foldE (MiniExtent m2) ([], node_size stream) ss) (\<lambda>(extents, _). Inr extents))"
        by (rule rejects_bind) (auto intro!: rejects_intros)
    qed
    moreover have "\<exists>ss. links (\<lambda>s. mini_fat m ! unat s) (start_sector stream) ss \<and> extents_in c xs \<and>
      mini_container_ready m' \<and> extents_bytes c xs = mini_bytes m' c (unat (node_size stream)) ss \<and>
      length (extents_bytes c xs) = unat (node_size stream)" if "r = Inr xs"
    proof -
      from that r obtain ss u' left where ss: "w = Inr ss"
        and len: "CheckChainLength (node_size stream) (word_of_nat (length ss)) (ucast (mini_sector_size (header m2))) ''mini sectors'' = Inr u'"
        and fold: "foldE (MiniExtent m2) ([], node_size stream) ss = Inr (xs, left)"
        by (auto split: prod.splits)
      have "links (\<lambda>s. mini_fat m ! unat s) (start_sector stream) ss"
        using ws(6) [OF ss] e(3) by (simp add: same_package_def)
      with body [OF ss len, of xs left] fold ready m' show ?thesis by blast
    qed
    ultimately show ?thesis using m2_ok m' same_package_trans [OF e(3) same] by simp
  qed
  then show "rejects cfb_format r" and "model_ok m' c" and "same_package m m'"
    and "r = Inr xs \<Longrightarrow> \<exists>ss. links (\<lambda>s. mini_fat m ! unat s) (start_sector stream) ss \<and> extents_in c xs \<and>
      mini_container_ready m' \<and> extents_bytes c xs = mini_bytes m' c (unat (node_size stream)) ss \<and>
      length (extents_bytes c xs) = unat (node_size stream)" by simp_all
qed

section \<open>Resolving and reading\<close>

text \<open>What the format says a stream holds, in a model whose mini stream is known.\<close>

definition stream_bytes :: "PackageModel \<Rightarrow> bytes \<Rightarrow> CfbNode \<Rightarrow> bytes \<Rightarrow> bool" where
  "stream_bytes m c stream bs \<longleftrightarrow>
     (if is_storage stream \<or> node_size stream = 0 then bs = []
      else if node_size stream < 4096 then
        mini_container_ready m \<and>
        (\<exists>ss. links (\<lambda>s. mini_fat m ! unat s) (start_sector stream) ss \<and> bs = mini_bytes m c (unat (node_size stream)) ss)
      else \<exists>ss. links (fat_value m c) (start_sector stream) ss \<and> bs = ordinary_bytes m c (unat (node_size stream)) ss)"

lemma Resolve_spec:
  assumes ok: "model_ok m c" and res: "Resolve host m stream k = (r, m', k')"
  shows "rejects cfb_format r" and "model_ok m' c" and "same_package m m'"
    and "r = Inr xs \<Longrightarrow> extents_in c xs \<and> stream_bytes m' c stream (extents_bytes c xs) \<and>
      length (extents_bytes c xs) = (if is_storage stream then 0 else unat (node_size stream))"
proof -
  have cutoff: "ucast (mini_stream_cutoff (header m)) = (4096 :: u64)"
    using ok by (simp add: model_ok_def pkg_ok_def header_ok_def)
  have "rejects cfb_format r \<and> model_ok m' c \<and> same_package m m' \<and>
    (r = Inr xs \<longrightarrow> extents_in c xs \<and> stream_bytes m' c stream (extents_bytes c xs) \<and>
      length (extents_bytes c xs) = (if is_storage stream then 0 else unat (node_size stream)))"
  proof (cases "is_storage stream \<or> node_size stream = 0")
    case True
    then show ?thesis using res ok by (auto simp: Resolve_def rejects_Inr stream_bytes_def)
  next
    case False
    show ?thesis
    proof (cases "node_size stream < 4096")
      case True
      with False res cutoff have "ResolveMini host m stream k = (r, m', k')" by (simp add: Resolve_def)
      note mini = ResolveMini_spec [OF ok this]
      have "mini_fat m' = mini_fat m" using mini(3) by (simp add: same_package_def)
      then show ?thesis using mini False True by (auto simp: stream_bytes_def)
    next
      case big: False
      obtain m1 where "ResolveOrdinary host m stream = (r, m1)" and "m1 = m'"
        using False big res cutoff by (auto simp: Resolve_def split: prod.splits)
      note ord = ResolveOrdinary_spec [OF ok this(1)[unfolded this(2)]]
      note eqs = same_package_eqs [OF ord(3)]
      show ?thesis using ord eqs False big by (auto simp: stream_bytes_def)
    qed
  qed
  then show "rejects cfb_format r" and "model_ok m' c" and "same_package m m'"
    and "r = Inr xs \<Longrightarrow> extents_in c xs \<and> stream_bytes m' c stream (extents_bytes c xs) \<and>
      length (extents_bytes c xs) = (if is_storage stream then 0 else unat (node_size stream))" by simp_all
qed

lemma ReadExtents:
  assumes "span_ok sp c"
  shows "extents_in c xs \<Longrightarrow> foldE (ReadExtent sp) acc xs = Inr (acc @ extents_bytes c xs)"
proof (induction xs arbitrary: acc)
  case (Cons e xs)
  then have fits: "unat (ext_offset e) + unat (ext_length e) \<le> length c" and rest: "extents_in c xs"
    by (simp_all add: extents_in_def)
  have "ReadExtent sp acc e = Inr (acc @ extent_bytes c e)"
    using fits by (simp add: ReadExtent_def Sub_eq [OF assms] Data_eq [OF sub_of_ok [OF assms fits]] extent_bytes_def)
  then show ?case using Cons.IH [OF rest] by (simp add: extents_bytes_def)
qed simp

lemma ReadStream_spec:
  assumes ok: "model_ok m c" and res: "ReadStream host m stream k = (r, m', k')"
  shows "rejects cfb_format r" and "model_ok m' c" and "same_package m m'"
    and "r = Inr bs \<Longrightarrow> stream_bytes m' c stream bs \<and>
      length bs = (if is_storage stream then 0 else unat (node_size stream))"
proof -
  obtain x where x: "Resolve host m stream k = (x, m', k')" and r: "r = bindE x (\<lambda>xs. foldE (ReadExtent (source m')) [] xs)"
    using res by (auto simp: ReadStream_def split: prod.splits)
  note spec = Resolve_spec [OF ok x]
  have sp: "span_ok (source m') c" using spec(2) by (simp add: model_ok_def pkg_ok_def)
  show "model_ok m' c" "same_package m m'" by (rule spec(2), rule spec(3))
  show "rejects cfb_format r"
    unfolding r
  proof (rule rejects_bind [OF spec(1)])
    fix xs assume "x = Inr xs"
    from spec(4) [OF this] show "rejects cfb_format (foldE (ReadExtent (source m')) [] xs)"
      using ReadExtents [OF sp, of xs "[]"] by (simp add: rejects_Inr)
  qed
  show "stream_bytes m' c stream bs \<and> length bs = (if is_storage stream then 0 else unat (node_size stream))" if "r = Inr bs"
  proof -
    from that r obtain xs where xs: "x = Inr xs" "foldE (ReadExtent (source m')) [] xs = Inr bs" by auto
    from spec(4) [OF xs(1)] ReadExtents [OF sp, of xs "[]"] xs(2) show ?thesis by simp
  qed
qed

end
