(* ===== verification/Cfb_Parse.thy ===== *)
theory Cfb_Parse
  imports Cfb_Streams
begin

text \<open>
  Parsing a compound file: for any bytes \<open>Parse\<close> gives a model that satisfies the invariant
  of \<open>Cfb_Streams\<close>, or throws the documented \<open>runtime_error\<close>; it never reads outside a vector
  or the file. The properties of the reader as a whole stand at the end.
\<close>

section \<open>The header\<close>

definition base_ok :: "PackageModel \<Rightarrow> bytes \<Rightarrow> bool" where
  "base_ok m c \<longleftrightarrow> span_ok (source m) c \<and> span_format (source m) = cfb_format \<and> header_ok m"

lemma base_okD:
  assumes "base_ok m c"
  shows "span_ok (source m) c" "span_format (source m) = cfb_format" "header_ok m" "good cfb_format (source m)"
  using assms by (auto simp: base_ok_def good_def)

lemma rejects_CheckMagic [rejects_intros]: "good cfb_format src \<Longrightarrow> rejects cfb_format (CheckMagic host src u i)"
  unfolding CheckMagic_def by (intro rejects_intros) auto

lemma rejects_ParseHeader: "good cfb_format (source m) \<Longrightarrow> rejects cfb_format (ParseHeader host m)"
  unfolding ParseHeader_def Let_def by (intro rejects_intros) auto

lemma throw_elseE:
  assumes "(if b then ThrowMalformed fmt d else r) = Inr x"
  obtains "\<not> b" and "r = Inr x"
  using assms by (auto simp: ThrowMalformed_def split: if_splits)

lemma ParseHeader_ok:
  assumes parse: "ParseHeader host m = Inr m1" and "span_ok (source m) c" and "span_format (source m) = cfb_format"
  shows "base_ok m1 c" and "source m1 = source m" and "fat_sectors m1 = fat_sectors m"
    and "sector_owner m1 = sector_owner m" and "mini_container_ready m1 = mini_container_ready m"
    and "mini_owner m1 = mini_owner m" and "mini_container_chain m1 = mini_container_chain m"
proof -
  obtain major :: u16 and sector_power mini_power :: u16 and minor cutoff and d1 d2 d3 d4 d5 where
    p: "\<not> (sector_power \<noteq> kSectorExponentV3 \<and> sector_power \<noteq> kSectorExponentV4)" "\<not> (major \<noteq> 3 \<and> major \<noteq> 4)"
      "\<not> (major = 3) \<noteq> (sector_power = kSectorExponentV3)" "\<not> mini_power \<noteq> kMiniSectorExponent"
    and size: "\<not> span_size (source m) < HeaderSize (m\<lparr>header := (header m)\<lparr>major_version := major, minor_version := minor\<rparr>\<rparr>)"
    and cut: "\<not> cutoff \<noteq> kMiniStreamCutoff"
    and m1': "Inr (m\<lparr>header := (header m)\<lparr>major_version := major, minor_version := minor\<rparr>,
                 header := \<lparr>major_version = major, minor_version = minor,
                    sector_size = push_bit (unat sector_power) 1, mini_sector_size = push_bit (unat mini_power) 1,
                    mini_stream_cutoff = cutoff\<rparr>,
                 first_dir_sector := d1, first_mini_fat_sector := d2,
                 total_mini_fat_sectors := d3, first_difat_sector := d4,
                 total_difat_sectors := d5\<rparr>) = (Inr m1 :: PackageModel res)"
    using parse unfolding ParseHeader_def Let_def by (elim throw_elseE bindE_InrE) (rule that)
  from m1' have m1: "m1 = m\<lparr>header := \<lparr>major_version = major, minor_version = minor,
                    sector_size = push_bit (unat sector_power) 1, mini_sector_size = push_bit (unat mini_power) 1,
                    mini_stream_cutoff = cutoff\<rparr>,
                 first_dir_sector := d1, first_mini_fat_sector := d2,
                 total_mini_fat_sectors := d3, first_difat_sector := d4,
                 total_difat_sectors := d5\<rparr>" by simp
  show "source m1 = source m" "fat_sectors m1 = fat_sectors m"
    "sector_owner m1 = sector_owner m" "mini_container_ready m1 = mini_container_ready m"
    "mini_owner m1 = mini_owner m" "mini_container_chain m1 = mini_container_chain m" by (simp_all add: m1)
  have "header_ok m1"
    using p size cut unfolding m1
    by (auto simp: kSectorExponentV3_def kSectorExponentV4_def kMiniSectorExponent_def header_ok_def HeaderSize_def ssz_def kMiniStreamCutoff_def push_bit_eq_mult word_le_nat_alt not_less)
  then show "base_ok m1 c" using assms(2,3) m1 by (simp add: base_ok_def)
qed

section \<open>Sectors\<close>

lemma Sector_Inr:
  assumes ok: "base_ok m c" and sec: "Sector m s len what = Inr sp"
  shows "unat s < unat (SectorCount m)" and "(unat s + 1) * ssz m + unat len \<le> length c"
    and "span_ok sp (segment ((unat s + 1) * ssz m) (unat len) c)" and "good cfb_format sp" and "span_size sp = len"
proof -
  note b = base_okD [OF ok]
  have "\<not> ucast s \<ge> SectorCount m" and sub: "Sub (source m) (SectorStart m s) len what = Inr sp"
    using sec by (auto simp: Sector_def ThrowMalformed_def split: if_splits)
  then show "unat s < unat (SectorCount m)" by (simp add: not_le ucast_less_nat)
  note sp = Sub_span_ok [OF b(1) sub] and start = SectorStart_nat [OF b(3), of s]
  show "(unat s + 1) * ssz m + unat len \<le> length c" using sp(5) start by simp
  show "span_ok sp (segment ((unat s + 1) * ssz m) (unat len) c)" using sp(1) start by simp
  then show "good cfb_format sp" using sp(2) b(2) by (auto simp: good_def)
  show "span_size sp = len" by (rule sp(4))
qed

lemma rejects_Sector [rejects_intros]: "base_ok m c \<Longrightarrow> rejects cfb_format (Sector m s len what)"
  unfolding Sector_def by (intro rejects_intros) (auto dest: base_okD)

lemma rejects_at_index: "i < length xs \<Longrightarrow> rejects fmt (at_index xs i)"
  by (simp add: at_index_def rejects_Inr)

section \<open>The FAT\<close>

lemma rejects_ReadDifat: "good cfb_format sp \<Longrightarrow> rejects cfb_format (ReadDifat host sp at n found)"
proof (induction host sp at n found rule: ReadDifat.induct)
  case (2 host src at left found)
  then show ?case by (simp add: rejects_bind rejects_Read rejects_Inr)
qed (simp add: rejects_Inr)

lemma rejects_DifatChain:
  "base_ok m c \<Longrightarrow> length seen = unat (SectorCount m) \<Longrightarrow> rejects cfb_format (DifatChain host m n s seen found)"
proof (induction host m n s seen found rule: DifatChain.induct)
  case (2 host m left s seen found)
  show ?case
  proof (cases "s = kCfbEndOfChain \<or> s = kCfbFreeSector")
    case True
    then show ?thesis by (simp add: rejects_Inr)
  next
    case False
    let ?ss = "ucast (sector_size (header m)) :: u64"
    have "rejects cfb_format (bindE (at_index seen (unat s)) (\<lambda>again.
        if again then ThrowMalformed cfb_format (''DIFAT chain has a loop at sector '' @ to_string s)
        else
        bindE (ReadDifat host sector 0 (unat (?ss div 4 - 1)) found) (\<lambda>found'.
        bindE (Read host sector (?ss - 4) Little ''next DIFAT sector'') (\<lambda>following.
        DifatChain host m left following (seen[unat s := True]) found'))))"
      if "Sector m s ?ss ''DIFAT sector'' = Inr sector" for sector
    proof -
      note sec = Sector_Inr [OF "2.prems"(1) that]
      show ?thesis
      proof (intro rejects_bind rejects_if rejects_Throw rejects_at_index rejects_ReadDifat rejects_Read sec(4))
        show "unat s < length seen" using sec(1) "2.prems"(2) by simp
        fix again found' and following :: u32
        assume "at_index seen (unat s) = Inr again" "\<not> again" "ReadDifat host sector 0 (unat (?ss div 4 - 1)) found = Inr found'"
          "Read host sector (?ss - 4) Little ''next DIFAT sector'' = Inr following"
        then show "rejects cfb_format (DifatChain host m left following (seen[unat s := True]) found')"
          using "2.IH" [OF False refl that] "2.prems" by simp
      qed simp
    qed
    then show ?thesis using False rejects_Sector [OF "2.prems"(1)] by (simp add: Let_def rejects_bind)
  qed
qed (simp add: rejects_Inr)

definition fat_state_ok :: "PackageModel \<Rightarrow> bytes \<Rightarrow> bool list \<times> u32 list \<Rightarrow> bool" where
  "fat_state_ok m c st \<longleftrightarrow> length (fst st) = unat (SectorCount m) \<and> distinct (snd st) \<and>
     (\<forall>s \<in> set (snd st). unat s < unat (SectorCount m) \<and> fst st ! unat s \<and> (unat s + 2) * ssz m \<le> length c)"

lemma AddFatSector_ok:
  assumes ok: "base_ok m c" and st: "fat_state_ok m c st"
  shows "rejects cfb_format (AddFatSector m st s)"
    and "AddFatSector m st s = Inr st' \<Longrightarrow> fat_state_ok m c st'"
proof -
  obtain used found where st_eq: "st = (used, found)" by (cases st)
  let ?ss = "ucast (sector_size (header m)) :: u64"
  have in_range: "unat s < length used" if "Sector m s ?ss ''FAT sector'' = Inr sp" for sp
    using Sector_Inr(1) [OF ok that] st by (simp add: fat_state_ok_def st_eq)
  show "rejects cfb_format (AddFatSector m st s)"
    unfolding AddFatSector_def st_eq prod.case
    by (intro rejects_bind rejects_if rejects_Throw rejects_Inr rejects_at_index rejects_Sector [OF ok] in_range)
  show "fat_state_ok m c st'" if "AddFatSector m st s = Inr st'"
  proof -
    from that obtain sp where sp: "Sector m s ?ss ''FAT sector'' = Inr sp" and new: "\<not> used ! unat s"
      and st': "st' = (used[unat s := True], found @ [s])"
      using in_range by (auto simp: AddFatSector_def st_eq at_index_def ThrowMalformed_def split: if_splits)
    note sec = Sector_Inr [OF ok sp]
    have fresh: "s \<notin> set found" using st new by (auto simp: fat_state_ok_def st_eq)
    have "(unat s + 2) * ssz m \<le> length c" using sec(2) sector_size_nat [of m] by (simp add: algebra_simps)
    moreover have "used[unat s := True] ! unat t" if "t \<in> set found" for t
      using st that fresh by (cases "t = s") (auto simp: fat_state_ok_def st_eq nth_list_update word_unat_eq_iff)
    ultimately show ?thesis using st st' sec(1) fresh by (auto simp: fat_state_ok_def st_eq)
  qed
qed

lemma BuildFat_ok:
  assumes ok: "base_ok m c"
  shows "rejects cfb_format (BuildFat host m)"
    and "BuildFat host m = Inr m' \<Longrightarrow> pkg_ok m' c \<and> (\<exists>found. m' = m\<lparr>fat_sectors := found\<rparr>)"
proof -
  note b = base_okD [OF ok]
  let ?init = "(replicate (unat (SectorCount m)) False, []) :: bool list \<times> u32 list"
  have init: "fat_state_ok m c ?init" by (simp add: fat_state_ok_def)
  have fold: "rejects cfb_format (foldE (AddFatSector m) ?init ss)" for ss
    by (rule rejects_foldE_invariant [where P = "fat_state_ok m c"]) (auto intro: init AddFatSector_ok [OF ok])
  show "rejects cfb_format (BuildFat host m)"
    unfolding BuildFat_def
    by (intro rejects_bind rejects_if rejects_ReadDifat rejects_DifatChain [OF ok] fold b(4))
      (auto intro!: rejects_intros)
  show "pkg_ok m' c \<and> (\<exists>found. m' = m\<lparr>fat_sectors := found\<rparr>)" if "BuildFat host m = Inr m'"
  proof -
    from that obtain ss used found where f: "foldE (AddFatSector m) ?init ss = Inr (used, found)"
      and m': "m' = m\<lparr>fat_sectors := found\<rparr>"
      by (auto simp: BuildFat_def split: prod.splits)
    have "fat_state_ok m c (used, found)"
      by (rule foldE_invariant [where P = "fat_state_ok m c", OF f init]) (rule AddFatSector_ok(2) [OF ok])
    then show ?thesis using b m' by (auto simp: pkg_ok_def fat_state_ok_def header_ok_def ssz_def)
  qed
qed

section \<open>The mini-FAT and the directory\<close>

lemma FollowChain_ok:
  assumes ok: "pkg_ok m c"
  shows "rejects cfb_format (FollowChain host m start what)"
proof -
  have "unat (SectorCount m) + 4096 < 2 ^ 64" by (rule SectorCount_bound [OF ok])
  note new = owners_new(1) [OF this]
  obtain r ow where w: "WalkChain host m start (SectorOwners_new (SectorCount m)) 1 what [] = (r, ow)"
    by (cases "WalkChain host m start (SectorOwners_new (SectorCount m)) 1 what []")
  show ?thesis using WalkChain_spec [OF ok new w] w by (simp add: FollowChain_def)
qed

lemma pkg_base: "pkg_ok m c \<Longrightarrow> base_ok m c"
  by (simp add: pkg_ok_def base_ok_def)

lemma rejects_MiniFatSector: "base_ok m c \<Longrightarrow> rejects cfb_format (MiniFatSector host m found s)"
  unfolding MiniFatSector_def
  by (intro rejects_bind rejects_mapE rejects_Read rejects_Inr rejects_Sector) (auto dest: Sector_Inr(4))

lemma BuildMiniFat_ok:
  assumes ok: "pkg_ok m c"
  shows "rejects cfb_format (BuildMiniFat host m)"
    and "BuildMiniFat host m = Inr m' \<Longrightarrow> \<exists>found. m' = m\<lparr>mini_fat := found\<rparr>"
proof -
  show "rejects cfb_format (BuildMiniFat host m)"
    unfolding BuildMiniFat_def
    by (intro rejects_if rejects_bind rejects_Inr rejects_foldE FollowChain_ok [OF ok] rejects_MiniFatSector [OF pkg_base [OF ok]])
  show "\<exists>found. m' = m\<lparr>mini_fat := found\<rparr>" if "BuildMiniFat host m = Inr m'"
    using that by (auto simp: BuildMiniFat_def split: if_splits)
qed

lemma rejects_ReadDirEntry: "good cfb_format sp \<Longrightarrow> rejects cfb_format (ReadDirEntry host m sp base)"
  unfolding ReadDirEntry_def ReadEntryName_def
  by (intro rejects_bind rejects_if rejects_mapE rejects_Read rejects_Inr) auto

lemma rejects_ParseDirectory:
  assumes ok: "pkg_ok m c"
  shows "rejects cfb_format (ParseDirectory host m)"
proof -
  have "rejects cfb_format (DirectorySector host m found s)" for found s
    unfolding DirectorySector_def
    by (intro rejects_bind rejects_mapE rejects_ReadDirEntry rejects_Inr rejects_Sector [OF pkg_base [OF ok]])
      (auto dest: Sector_Inr(4) [OF pkg_base [OF ok]])
  then show ?thesis
    unfolding ParseDirectory_def by (intro rejects_bind rejects_foldE FollowChain_ok [OF ok])
qed

section \<open>The tree\<close>

text \<open>Entries on the stack and in the order are entries of the directory.\<close>

definition frames_in :: "DirEntry list \<Rightarrow> (u32 \<times> nat) list \<Rightarrow> bool" where
  "frames_in directory stack \<longleftrightarrow> (\<forall>f \<in> set stack. unat (fst f) < length directory)"

lemma Push_ok:
  assumes "length visited = length directory" and "frames_in directory stack"
  shows "rejects cfb_format (Push directory visited stack i)"
    and "Push directory visited stack i = Inr (visited', stack') \<Longrightarrow>
      length visited' = length directory \<and> frames_in directory stack'"
  using assms
  by (auto simp: Push_def at_index_def frames_in_def rejects_Inr rejects_Throw ThrowMalformed_def split: if_splits)
    (auto simp: rejects_def)

definition walk_ok :: "DirEntry list \<Rightarrow> (bool list \<times> u32 list) res \<Rightarrow> bool" where
  "walk_ok directory r \<longleftrightarrow> rejects cfb_format r \<and>
     (\<forall>v order. r = Inr (v, order) \<longrightarrow> length v = length directory \<and> (\<forall>i \<in> set order. unat i < length directory))"

lemma Push_then:
  assumes "length visited = length directory" and "frames_in directory stack"
    and "\<And>v s. Push directory visited stack i = Inr (v, s) \<Longrightarrow> length v = length directory \<Longrightarrow> frames_in directory s \<Longrightarrow>
      walk_ok directory (f v s)"
  shows "walk_ok directory (bindE (Push directory visited stack i) (\<lambda>(v, s). f v s))"
proof (cases "Push directory visited stack i")
  case (Inl err)
  then show ?thesis using Push_ok(1) [OF assms(1,2), of i] by (simp add: walk_ok_def rejects_def)
next
  case (Inr x)
  obtain v s where x: "x = (v, s)" by (cases x)
  have p: "Push directory visited stack i = Inr (v, s)" using Inr x by simp
  have "length v = length directory" "frames_in directory s" using Push_ok(2) [OF assms(1,2) p] by simp_all
  from assms(3) [OF p this] show ?thesis unfolding p bindE_simps prod.case .
qed

lemma WalkTree_ok:
  "length visited = length directory \<Longrightarrow> frames_in directory stack \<Longrightarrow> (\<forall>i \<in> set order. unat i < length directory) \<Longrightarrow>
    walk_ok directory (WalkTree directory visited stack order)"
proof (induction directory visited stack order rule: WalkTree.induct)
  case (1 directory visited order)
  then show ?case by (simp add: WalkTree.simps rejects_Inr walk_ok_def)
next
  case (2 directory visited i stage rest order)
  have i: "unat i < length directory" and rest: "frames_in directory rest" using "2.prems"(2) by (simp_all add: frames_in_def)
  let ?e = "directory ! unat i"
  have e: "at_index directory (unat i) = Inr ?e" using i by (simp add: at_index_def)
  have frame: "frames_in directory ((i, k) # rest)" for k using i rest by (simp add: frames_in_def)
  consider "stage = 0" | "stage = 1" | "stage \<noteq> 0" "stage \<noteq> 1" by blast
  then show ?case
  proof cases
    case 1
    have eq: "WalkTree directory visited ((i, stage) # rest) order =
        bindE (Push directory visited ((i, 1) # rest) (de_left ?e)) (\<lambda>(v, s). WalkTree directory v s order)"
      using e 1 by (simp add: WalkTree.simps)
    show ?thesis unfolding eq
      by (rule Push_then [OF "2.prems"(1) frame]) (rule "2.IH"(1) [OF e 1 _ refl _ _ "2.prems"(3)])
  next
    case 2
    have eq: "WalkTree directory visited ((i, stage) # rest) order = WalkTree directory visited ((i, 2) # rest) (order @ [i])"
      using e 2 by (simp add: WalkTree.simps)
    have "stage \<noteq> 0" "\<forall>j \<in> set (order @ [i]). unat j < length directory" using 2 "2.prems"(3) i by auto
    then show ?thesis unfolding eq by (rule "2.IH"(2) [OF e _ 2 "2.prems"(1) frame [of 2]])
  next
    case 3
    have eq: "WalkTree directory visited ((i, stage) # rest) order =
        bindE (Push directory visited rest (de_right ?e)) (\<lambda>(v, s). WalkTree directory v s order)"
      using e 3 by (simp add: WalkTree.simps)
    show ?thesis unfolding eq
      by (rule Push_then [OF "2.prems"(1) rest]) (rule "2.IH"(3) [OF e 3 _ refl _ _ "2.prems"(3)])
  qed
qed

text \<open>The body of the loop of \<open>ReadStorage\<close> over the entries of one storage, given the recursive call.\<close>

definition AddNode ::
  "(bool list \<Rightarrow> u32 \<Rightarrow> (CfbNode list \<times> u32 \<times> bool list) res) \<Rightarrow> DirEntry list \<Rightarrow>
   u32 list \<times> CfbNode list \<times> bool list \<Rightarrow> u32 \<Rightarrow> (u32 list \<times> CfbNode list \<times> bool list) res" where
  "AddNode rec directory = (\<lambda>(sources, nodes, vis) i.
     bindE (at_index directory (unat i)) (\<lambda>entry.
       if de_type entry \<noteq> kTypeStorage \<and> de_type entry \<noteq> kTypeStream then Inr (sources, nodes, vis)
       else if de_type entry = kTypeStorage then
         bindE (rec vis i) (\<lambda>(children, tree, vis'). Inr (sources @ [i], nodes @ [NodeOf entry children tree], vis'))
       else Inr (sources @ [i], nodes @ [NodeOf entry [] kCfbNone], vis)))"

lemma ReadStorage_eq:
  "ReadStorage directory visited storage_index depth =
   (if depth > kCfbMaxStorageDepth then
      ThrowMalformed cfb_format (''storages are nested too deep (more than '' @ dec kCfbMaxStorageDepth @ '' levels)'')
    else bindE (at_index directory (unat storage_index)) (\<lambda>storage.
      if de_child storage = kCfbNoStream then Inr ([], kCfbNone, visited)
      else
      bindE (Push directory visited [] (de_child storage)) (\<lambda>(visited1, stack).
      bindE (WalkTree directory visited1 stack []) (\<lambda>(visited2, order).
      bindE (foldE (AddNode (\<lambda>vis i. ReadStorage directory vis i (depth + 1)) directory) ([], [], visited2) order)
        (\<lambda>(sources, nodes, visited3).
      bindE (mapE (\<lambda>(node, i). LinkNode directory sources node i) (zip nodes sources)) (\<lambda>linked.
      Inr (linked, PositionOf sources (de_child storage), visited3)))))))"
  by (subst ReadStorage.simps, unfold AddNode_def, rule refl)

definition add_state_ok :: "DirEntry list \<Rightarrow> u32 list \<times> CfbNode list \<times> bool list \<Rightarrow> bool" where
  "add_state_ok directory st \<longleftrightarrow> (\<forall>i \<in> set (fst st). unat i < length directory) \<and> length (snd (snd st)) = length directory"

lemma AddNode_ok:
  assumes rec: "\<And>vis. length vis = length directory \<Longrightarrow> rejects cfb_format (rec vis i) \<and>
      (\<forall>ch tr v. rec vis i = Inr (ch, tr, v) \<longrightarrow> length v = length directory)"
    and i: "unat i < length directory" and st: "add_state_ok directory st"
  shows "rejects cfb_format (AddNode rec directory st i)"
    and "AddNode rec directory st i = Inr st' \<Longrightarrow> add_state_ok directory st'"
proof -
  obtain sources nodes vis where st_eq: "st = (sources, nodes, vis)" by (cases st)
  have vis: "length vis = length directory" using st by (simp add: add_state_ok_def st_eq)
  show "rejects cfb_format (AddNode rec directory st i)"
    using rec [OF vis] i unfolding AddNode_def st_eq prod.case
    by (intro rejects_bind rejects_if rejects_Inr rejects_at_index rejects_prod) auto
  show "AddNode rec directory st i = Inr st' \<Longrightarrow> add_state_ok directory st'"
    using rec [OF vis] i st unfolding AddNode_def st_eq prod.case
    by (auto simp: add_state_ok_def at_index_def split: if_splits prod.splits)
qed

lemma ReadStorage_ok:
  "length visited = length directory \<Longrightarrow> unat idx < length directory \<Longrightarrow>
    rejects cfb_format (ReadStorage directory visited idx depth) \<and>
    (\<forall>ch tr v. ReadStorage directory visited idx depth = Inr (ch, tr, v) \<longrightarrow> length v = length directory)"
proof (induction "Suc kCfbMaxStorageDepth - depth" arbitrary: visited idx depth rule: less_induct)
  case less
  show ?case
  proof (cases "depth > kCfbMaxStorageDepth")
    case True
    then show ?thesis by (simp add: ReadStorage_eq rejects_Throw) (simp add: ThrowMalformed_def)
  next
    case deep: False
    let ?storage = "directory ! unat idx"
    have s: "at_index directory (unat idx) = Inr ?storage" using less.prems(2) by (simp add: at_index_def)
    show ?thesis
    proof (cases "de_child ?storage = kCfbNoStream")
      case True
      then show ?thesis using deep s less.prems by (simp add: ReadStorage_eq rejects_Inr)
    next
      case child: False
      let ?rec = "\<lambda>vis i. ReadStorage directory vis i (depth + 1)"
      let ?tail = "\<lambda>(sources, nodes, visited3).
          bindE (mapE (\<lambda>(node, i). LinkNode directory sources node i) (zip nodes sources)) (\<lambda>linked.
          Inr (linked, PositionOf sources (de_child ?storage), visited3))"
      have eq: "ReadStorage directory visited idx depth =
          bindE (Push directory visited [] (de_child ?storage)) (\<lambda>(visited1, stack).
          bindE (WalkTree directory visited1 stack []) (\<lambda>(visited2, order).
          bindE (foldE (AddNode ?rec directory) ([], [], visited2) order) ?tail))"
        using deep s child by (simp add: ReadStorage_eq)
      have tail: "rejects cfb_format (?tail st) \<and> (\<forall>ch tr v. ?tail st = Inr (ch, tr, v) \<longrightarrow> length v = length directory)"
        if "add_state_ok directory st" for st
      proof -
        obtain sources nodes vis where st: "st = (sources, nodes, vis)" by (cases st)
        have "rejects cfb_format (LinkNode directory sources node i)" if "(node, i) \<in> set (zip nodes sources)" for node i
          using that \<open>add_state_ok directory st\<close> unfolding LinkNode_def
          by (intro rejects_bind rejects_at_index rejects_Inr) (auto simp: add_state_ok_def st dest: set_zip_rightD)
        then have "rejects cfb_format (mapE (\<lambda>(node, i). LinkNode directory sources node i) (zip nodes sources))"
          by (intro rejects_mapE) auto
        then show ?thesis using that by (auto simp: st add_state_ok_def rejects_Inr intro!: rejects_bind)
      qed
      have fold: "rejects cfb_format (foldE (AddNode ?rec directory) ([], [], v2) order) \<and>
          (\<forall>st. foldE (AddNode ?rec directory) ([], [], v2) order = Inr st \<longrightarrow> add_state_ok directory st)"
        if v2: "length v2 = length directory" and order: "\<forall>i \<in> set order. unat i < length directory" for v2 order
      proof -
        have init: "add_state_ok directory ([], [], v2)" using v2 by (simp add: add_state_ok_def)
        have step: "rejects cfb_format (AddNode ?rec directory st i)"
          "AddNode ?rec directory st i = Inr st' \<Longrightarrow> add_state_ok directory st'"
          if "i \<in> set order" "add_state_ok directory st" for st i st'
        proof -
          have i: "unat i < length directory" using order that(1) by blast
          have "Suc kCfbMaxStorageDepth - (depth + 1) < Suc kCfbMaxStorageDepth - depth" using deep by simp
          note r = less.hyps [OF this _ i]
          show "rejects cfb_format (AddNode ?rec directory st i)"
            "AddNode ?rec directory st i = Inr st' \<Longrightarrow> add_state_ok directory st'"
            using AddNode_ok [of directory ?rec i st, OF r i that(2)] by simp_all
        qed
        have "rejects cfb_format (foldE (AddNode ?rec directory) ([], [], v2) order)"
          by (rule rejects_foldE_invariant [where P = "add_state_ok directory", OF init]) (fact step)+
        moreover have "add_state_ok directory st"
          if "foldE (AddNode ?rec directory) ([], [], v2) order = Inr st" for st
          by (rule foldE_invariant [where P = "add_state_ok directory", OF that init]) (fact step(2))
        ultimately show ?thesis by blast
      qed
      show ?thesis
      proof (cases "Push directory visited [] (de_child ?storage)")
        case (Inl e)
        then show ?thesis
          using Push_ok(1) [OF less.prems(1), of "[]" "de_child ?storage"] eq by (simp add: frames_in_def rejects_def)
      next
        case (Inr p)
        obtain v1 stack where p: "p = (v1, stack)" by (cases p)
        have push: "length v1 = length directory" "frames_in directory stack"
          using Push_ok(2) [OF less.prems(1), of "[]" "de_child ?storage" v1 stack] Inr p by (simp_all add: frames_in_def)
        have walk: "walk_ok directory (WalkTree directory v1 stack [])" by (rule WalkTree_ok [OF push]) simp
        show ?thesis
        proof (cases "WalkTree directory v1 stack []")
          case (Inl e)
          then show ?thesis using walk eq Inr p by (simp add: rejects_def walk_ok_def)
        next
          case w: (Inr q)
          obtain v2 order where q: "q = (v2, order)" by (cases q)
          have "length v2 = length directory" "\<forall>i \<in> set order. unat i < length directory" using walk w q by (simp_all add: walk_ok_def)
          note f = fold [OF this]
          show ?thesis
          proof (cases "foldE (AddNode ?rec directory) ([], [], v2) order")
            case (Inl e)
            then show ?thesis using f eq Inr p w q by (simp add: rejects_def)
          next
            case (Inr st)
            with f have "add_state_ok directory st" by blast
            from tail [OF this] show ?thesis using eq Inr \<open>Push directory visited [] (de_child ?storage) = Inr p\<close> p w q by simp
          qed
        qed
      qed
    qed
  qed
qed

lemma BuildTree_ok:
  "rejects cfb_format (BuildTree m directory)"
  "BuildTree m directory = Inr m' \<Longrightarrow> source m' = source m \<and> header m' = header m \<and> fat_sectors m' = fat_sectors m \<and>
     sector_owner m' = sector_owner m \<and> mini_container_ready m' = mini_container_ready m \<and>
     mini_owner m' = mini_owner m \<and> mini_container_chain m' = mini_container_chain m"
proof -
  show "rejects cfb_format (BuildTree m directory)"
  proof (cases "directory = [] \<or> de_type (hd directory) \<noteq> kTypeRoot")
    case True
    then show ?thesis by (simp add: BuildTree_def rejects_Throw)
  next
    case False
    let ?v = "(replicate (length directory) False)[0 := True]"
    have "rejects cfb_format (ReadStorage directory ?v 0 1)" using ReadStorage_ok [of ?v directory 0 1] False by simp
    then show ?thesis using False unfolding BuildTree_def Let_def
      by (auto intro!: rejects_bind rejects_prod rejects_Inr)
  qed
  show "BuildTree m directory = Inr m' \<Longrightarrow> source m' = source m \<and> header m' = header m \<and> fat_sectors m' = fat_sectors m \<and>
     sector_owner m' = sector_owner m \<and> mini_container_ready m' = mini_container_ready m \<and>
     mini_owner m' = mini_owner m \<and> mini_container_chain m' = mini_container_chain m"
    by (auto simp: BuildTree_def Let_def ThrowMalformed_def split: if_splits prod.splits)
qed

section \<open>The reader as a whole\<close>

lemma Parse_ok:
  assumes "span_ok src c" and "span_format src = cfb_format"
  shows "rejects cfb_format (CfbReader_Parse host src)"
    and "CfbReader_Parse host src = Inr m \<Longrightarrow> model_ok m c"
    and "CfbReader_Parse host src = Inr m \<Longrightarrow>
      \<not> mini_container_ready m \<and> mini_owner m = [] \<and> mini_container_chain m = []"
proof -
  let ?new = "PackageModel_new src"
  have new: "source ?new = src" "sector_owner ?new = SectorOwners_default" "\<not> mini_container_ready ?new"
    "mini_owner ?new = []" "mini_container_chain ?new = []"
    by (simp_all add: PackageModel_new_def)
  have good: "good cfb_format (source ?new)" using assms new by (auto simp: good_def)
  have base: "base_ok m1 c" if "ParseHeader host ?new = Inr m1" for m1
    by (rule ParseHeader_ok(1) [OF that]) (simp_all add: new assms)
  have pkg2: "pkg_ok m2 c" if "ParseHeader host ?new = Inr m1" "BuildFat host m1 = Inr m2" for m1 m2
    using BuildFat_ok(2) [OF base [OF that(1)] that(2)] by blast
  have pkg3: "pkg_ok m3 c" if "ParseHeader host ?new = Inr m1" "BuildFat host m1 = Inr m2" "BuildMiniFat host m2 = Inr m3" for m1 m2 m3
    using pkg2 [OF that(1,2)] BuildMiniFat_ok(2) [OF pkg2 [OF that(1,2)] that(3)]
    by (auto simp: pkg_ok_def header_ok_def ssz_def)
  show "rejects cfb_format (CfbReader_Parse host src)"
    unfolding CfbReader_Parse_def
    by (intro rejects_bind rejects_ParseHeader [OF good]) (auto intro: BuildFat_ok(1) base BuildMiniFat_ok(1) pkg2
      rejects_ParseDirectory pkg3 BuildTree_ok(1))
  have "model_ok m c \<and> \<not> mini_container_ready m \<and> mini_owner m = [] \<and> mini_container_chain m = []"
    if "CfbReader_Parse host src = Inr m"
  proof -
    from that obtain m1 m2 m3 directory where steps: "ParseHeader host ?new = Inr m1" "BuildFat host m1 = Inr m2"
      "BuildMiniFat host m2 = Inr m3" "BuildTree m3 directory = Inr m" by (auto simp: CfbReader_Parse_def)
    note tree = BuildTree_ok(2) [OF steps(4)]
    have owners: "sector_owner m = SectorOwners_default" "\<not> mini_container_ready m" "mini_owner m = []" "mini_container_chain m = []"
      using tree ParseHeader_ok(4-7) [OF steps(1)] BuildFat_ok(2) [OF base [OF steps(1)] steps(2)]
        BuildMiniFat_ok(2) [OF pkg2 [OF steps(1,2)] steps(3)] assms new by auto
    have "pkg_ok m c" using pkg3 [OF steps(1-3)] tree by (simp add: pkg_ok_def header_ok_def ssz_def)
    then show ?thesis using owners by (auto simp: model_ok_def SectorOwners_default_def owners_ok_def)
  qed
  then show "CfbReader_Parse host src = Inr m \<Longrightarrow> model_ok m c"
    and "CfbReader_Parse host src = Inr m \<Longrightarrow>
      \<not> mini_container_ready m \<and> mini_owner m = [] \<and> mini_container_chain m = []" by simp_all
qed

text \<open>The model after some streams have been read, whether or not the reads succeeded.\<close>

fun read_all :: "ByteOrder \<Rightarrow> CfbNode list \<Rightarrow> PackageModel \<times> u64 \<Rightarrow> PackageModel \<times> u64" where
  "read_all host [] st = st"
| "read_all host (n # ns) st = read_all host ns (snd (ReadStream host (fst st) n (snd st)))"

lemma read_all_ok:
  "model_ok m c \<Longrightarrow> model_ok (fst (read_all host ns (m, k))) c \<and> same_package m (fst (read_all host ns (m, k)))"
proof (induction ns arbitrary: m k)
  case (Cons n ns)
  obtain r m1 k1 where run: "ReadStream host m n k = (r, m1, k1)" by (cases "ReadStream host m n k")
  note spec = ReadStream_spec [OF Cons.prems run]
  from Cons.IH [OF spec(2), of k1] run same_package_trans [OF spec(3)] show ?case by simp
qed simp

text \<open>
  C31: reading a compound file is safe for any bytes: parsing gives a model or throws the
  documented \<open>runtime_error\<close>, and so does every \<open>Resolve\<close> and every \<open>ReadStream\<close>, of any node,
  after any earlier reads, whether or not those succeeded. No access leaves the file or a
  vector, and every chain and tree walk ends.
\<close>

theorem cfb_reader_returns_or_rejects:
  assumes "span_ok src c" and "span_format src = cfb_format"
  shows "rejects cfb_format (CfbReader_Parse host src) \<and>
    (\<forall>m ns node k. CfbReader_Parse host src = Inr m \<longrightarrow>
       (case read_all host ns (m, k) of (m', k') \<Rightarrow>
          rejects cfb_format (fst (ReadStream host m' node k')) \<and> rejects cfb_format (fst (Resolve host m' node k'))))"
proof -
  have "rejects cfb_format (fst (ReadStream host m' node k')) \<and> rejects cfb_format (fst (Resolve host m' node k'))"
    if "CfbReader_Parse host src = Inr m" "read_all host ns (m, k) = (m', k')" for m ns node k m' k'
  proof -
    have ok: "model_ok m' c" using read_all_ok [OF Parse_ok(2) [OF assms that(1)], of host ns k] that(2) by simp
    obtain r x y where rd: "ReadStream host m' node k' = (r, x, y)" by (cases "ReadStream host m' node k'")
    obtain r2 x2 y2 where rs: "Resolve host m' node k' = (r2, x2, y2)" by (cases "Resolve host m' node k'")
    show ?thesis using ReadStream_spec(1) [OF ok rd] Resolve_spec(1) [OF ok rs] rd rs by simp
  qed
  then show ?thesis using Parse_ok(1) [OF assms] by (auto split: prod.splits)
qed

text \<open>
  C32: a stream that is read is what the file holds under it: a stream of at least 4096 bytes
  is the sectors of its chain in the FAT, in order, cut at the recorded size; a smaller one
  is the mini sectors of its chain in the mini-FAT, taken from the mini stream. The result
  has the recorded size, also after any other reads of the same model.
\<close>

theorem cfb_stream_is_its_chain:
  assumes "span_ok src c" and "span_format src = cfb_format"
    and "CfbReader_Parse host src = Inr m" and "read_all host ns (m, k) = (m1, k1)"
    and "ReadStream host m1 node k1 = (Inr bs, m2, k2)"
  shows "stream_bytes m2 c node bs \<and> length bs = (if is_storage node then 0 else unat (node_size node)) \<and> same_package m m2"
proof -
  note all = read_all_ok [OF Parse_ok(2) [OF assms(1-3)], of host ns k]
  have ok: "model_ok m1 c" "same_package m m1" using all assms(4) by simp_all
  show ?thesis using ReadStream_spec(3,4) [OF ok(1) assms(5)] same_package_trans [OF ok(2)] by blast
qed

end
