(* ===== verification/Cfb_Sharing.thy ===== *)
theory Cfb_Sharing
  imports Cfb_Parse
begin

text \<open>
  No byte of a compound file belongs to two streams. \<open>spots\<close> are the positions that ranges
  cover, \<open>taken\<close> the positions the tables of owners have given away; every call only adds to
  them, and what a successful \<open>Resolve\<close> returns was not taken before.
\<close>

section \<open>Positions\<close>

definition spots :: "ByteExtent list \<Rightarrow> nat set" where
  "spots xs = (\<Union>e \<in> set xs. {unat (ext_offset e) ..< unat (ext_offset e) + unat (ext_length e)})"

definition sector_spots :: "PackageModel \<Rightarrow> u32 \<Rightarrow> nat set" where
  "sector_spots m s = {(unat s + 1) * ssz m ..< (unat s + 1) * ssz m + ssz m}"

definition mini_spots :: "PackageModel \<Rightarrow> nat \<Rightarrow> nat set" where
  "mini_spots m k =
     (let from = (unat (mini_container_chain m ! (k * 64 div ssz m)) + 1) * ssz m + k * 64 mod ssz m in {from ..< from + 64})"

lemma spots_simps [simp]:
  "spots [] = {}" "spots (xs @ ys) = spots xs \<union> spots ys"
  "spots [e] = {unat (ext_offset e) ..< unat (ext_offset e) + unat (ext_length e)}"
  by (auto simp: spots_def)

lemma AppendExtent_spots:
  assumes "extents_in c xs" and "unat o' + unat l \<le> length c" and "length c < 2 ^ 64"
  shows "spots (AppendExtent xs o' l) = spots xs \<union> {unat o' ..< unat o' + unat l}"
proof (cases "xs \<noteq> [] \<and> ext_offset (last xs) + ext_length (last xs) = o'")
  case True
  define ys e where "ys = butlast xs" and "e = last xs"
  with True have xs: "xs = ys @ [e]" by simp
  have inn: "unat (ext_offset e) + unat (ext_length e) \<le> length c" using assms(1) xs by simp
  then have o': "unat o' = unat (ext_offset e) + unat (ext_length e)"
    using True xs assms(3) by (auto simp: unat_add_nowrap)
  have sum: "unat (ext_length e + l) = unat (ext_length e) + unat l"
    using assms(2,3) o' by (subst unat_add_nowrap) auto
  have app: "AppendExtent xs o' l = ys @ [e\<lparr>ext_length := ext_length e + l\<rparr>]"
    using True by (simp add: AppendExtent_def ys_def e_def)
  have "{unat (ext_offset e) ..< unat (ext_offset e) + unat (ext_length e)} \<union> {unat o' ..< unat o' + unat l} =
      {unat (ext_offset e) ..< unat (ext_offset e) + (unat (ext_length e) + unat l)}"
    unfolding o' by auto
  then show ?thesis unfolding app by (simp add: xs sum Un_assoc)
next
  case False
  then show ?thesis by (auto simp: AppendExtent_def)
qed

lemma sector_spots_disjoint:
  assumes "s \<noteq> t"
  shows "sector_spots m s \<inter> sector_spots m t = {}"
proof -
  have far: "(i + 1) * ssz m + ssz m \<le> (j + 1) * ssz m" if "i < j" for i j :: nat
    using mult_le_mono1 [of "i + 2" "j + 1" "ssz m"] that by (simp add: algebra_simps)
  consider "unat s < unat t" | "unat t < unat s" using assms by (meson linorder_neqE_nat word_unat_eq_iff)
  then show ?thesis by cases (use far in \<open>fastforce simp: sector_spots_def\<close>)+
qed

lemma OrdinaryExtents_spots:
  assumes ok: "pkg_ok m c"
  shows "extents_in c xs \<Longrightarrow> foldE (OrdinaryExtent m) (xs, left) ss = Inr (ys, left') \<Longrightarrow>
    spots ys \<subseteq> spots xs \<union> (\<Union>s \<in> set ss. sector_spots m s)"
proof (induction ss arbitrary: xs left)
  case (Cons s ss)
  have h: "header_ok m" and sp: "span_ok (source m) c" using ok by (simp_all add: pkg_ok_def)
  let ?chunk = "min (ucast (sector_size (header m))) left :: u64"
  have chunk: "unat ?chunk = min (ssz m) (unat left)"
    using sector_size_nat [of m] by (simp add: min_def word_le_nat_alt)
  have fits: "RangeFits (SectorStart m s) ?chunk (span_size (source m))"
    and rest: "foldE (OrdinaryExtent m) (AppendExtent xs (SectorStart m s) ?chunk, left - ?chunk) ss = Inr (ys, left')"
    using Cons.prems(2) by (auto simp: OrdinaryExtent_def Let_def SectorPastEnd_def ThrowMalformed_def split: if_splits)
  have inside: "unat (SectorStart m s) + unat ?chunk \<le> length c"
    using fits span_ok_length [OF sp] by (simp add: RangeFits_iff)
  have "spots (AppendExtent xs (SectorStart m s) ?chunk) \<subseteq> spots xs \<union> sector_spots m s"
    unfolding AppendExtent_spots [OF Cons.prems(1) inside span_ok_less [OF sp]]
    using chunk SectorStart_nat [OF h, of s] by (auto simp: sector_spots_def)
  with Cons.IH [OF AppendExtent_spec(1) [OF Cons.prems(1) inside span_ok_less [OF sp]] rest] show ?case by auto
qed simp

lemma MiniExtents_spots:
  assumes ok: "pkg_ok m c" and co: "mini_container_size m \<noteq> 0 \<longrightarrow> container_ok m c"
  shows "extents_in c xs \<Longrightarrow> length ss * 64 < unat left + 64 \<Longrightarrow>
    foldE (MiniExtent m) (xs, left) ss = Inr (ys, left') \<Longrightarrow>
    spots ys \<subseteq> spots xs \<union> (\<Union>s \<in> set ss. mini_spots m (unat s)) \<and>
    (\<forall>s \<in> set ss. unat s * 64 < unat (mini_container_size m))"
proof (induction ss arbitrary: xs left)
  case (Cons s ss)
  then have pos: "0 < unat left" by simp
  have sp: "span_ok (source m) c" using ok by (simp add: pkg_ok_def)
  obtain xs1 left1 where s1: "MiniExtent m (xs, left) s = Inr (xs1, left1)"
    and rest: "foldE (MiniExtent m) (xs1, left1) ss = Inr (ys, left')"
    using Cons.prems(3) by (auto split: prod.splits)
  note step = MiniExtent_step [OF ok co pos Cons.prems(1) s1]
  from MiniExtent_place(2) [OF ok co pos s1] obtain start chunk
    where xs1: "xs1 = AppendExtent xs start chunk" and chunk: "unat chunk = min 64 (unat left)"
      and start: "unat start = (unat (mini_container_chain m ! (unat s * 64 div ssz m)) + 1) * ssz m + unat s * 64 mod ssz m"
      and le: "unat s * 64 + min 64 (unat left) \<le> unat (mini_container_size m)" and co': "container_ok m c"
    by blast
  have h: "header_ok m" using ok by (simp add: pkg_ok_def)
  have "0 < min 64 (unat left)" "unat s * 64 mod ssz m + min 64 (unat left) \<le> ssz m"
    using pos MiniExtent_place(3) [OF ok co pos, of s] by auto
  note seg = mini_stream_segment [OF h co' le this]
  have "unat start + unat chunk \<le> length c" using seg(2) start chunk by simp
  then have "spots xs1 \<subseteq> spots xs \<union> mini_spots m (unat s)"
    unfolding xs1 using AppendExtent_spots [OF Cons.prems(1) _ span_ok_less [OF sp], of start chunk] start chunk
    by (auto simp: mini_spots_def Let_def)
  moreover have "length ss * 64 < unat left1 + 64" using Cons.prems(2) step by auto
  moreover have "unat s * 64 < unat (mini_container_size m)" using le pos by linarith
  ultimately show ?case using Cons.IH [OF _ _ rest] step by auto
qed simp

section \<open>What has been given away\<close>

definition container :: "PackageModel \<Rightarrow> u32 set" where
  "container m = (if mini_container_ready m \<and> mini_container_size m \<noteq> 0 then set (mini_container_chain m) else {})"

definition owned :: "PackageModel \<Rightarrow> u32 \<Rightarrow> bool" where
  "owned m s \<longleftrightarrow> (\<exists>v. Owners_Get (owners_before m) s = Inr v \<and> v \<noteq> 0)"

definition mini_owned :: "PackageModel \<Rightarrow> nat \<Rightarrow> bool" where
  "mini_owned m k \<longleftrightarrow> length (mini_owner m) = length (mini_fat m) \<and> k < length (mini_fat m) \<and> mini_owner m ! k \<noteq> 0"

definition taken :: "PackageModel \<Rightarrow> nat set" where
  "taken m = (\<Union>s \<in> {s. owned m s \<and> s \<notin> container m}. sector_spots m s) \<union>
     (\<Union>k \<in> {k. mini_owned m k \<and> k * 64 < unat (mini_container_size m)}. mini_spots m k)"

definition remembers :: "PackageModel \<Rightarrow> bytes \<Rightarrow> bool" where
  "remembers m c \<longleftrightarrow>
     model_ok m c \<and> (\<forall>s \<in> container m. owned m s) \<and> distinct (mini_container_chain m) \<and>
     (\<not> mini_container_ready m \<longrightarrow> (\<forall>k. \<not> mini_owned m k))"

lemma mini_spots_sector:
  "header_ok m \<Longrightarrow> mini_spots m k \<subseteq> sector_spots m (mini_container_chain m ! (k * 64 div ssz m))"
  using mini_fits_sector [of m k] by (auto simp: mini_spots_def sector_spots_def Let_def)

lemma mini_index:
  assumes "container_ok m c" and "header_ok m" and "k * 64 < unat (mini_container_size m)"
  shows "k * 64 div ssz m < length (mini_container_chain m)"
proof -
  let ?n = "unat (mini_container_size m)"
  have "k * 64 div ssz m \<le> (?n - 1) div ssz m" using assms(3) by (intro div_le_mono) simp
  also have "\<dots> < (?n - 1 + ssz m) div ssz m" using ssz_pos [OF assms(2)] by (subst div_add_self2) simp_all
  also have "?n - 1 + ssz m = ?n + (ssz m - 1)" using assms(3) ssz_pos [OF assms(2)] by linarith
  finally show ?thesis using assms(1) by (simp add: container_ok_def)
qed

lemma mini_spots_disjoint:
  assumes "container_ok m c" and "header_ok m" and "distinct (mini_container_chain m)"
    and "k * 64 < unat (mini_container_size m)" and "j * 64 < unat (mini_container_size m)" and "k \<noteq> j"
  shows "mini_spots m k \<inter> mini_spots m j = {}"
proof (cases "k * 64 div ssz m = j * 64 div ssz m")
  case False
  then have "mini_container_chain m ! (k * 64 div ssz m) \<noteq> mini_container_chain m ! (j * 64 div ssz m)"
    using mini_index [OF assms(1,2,4)] mini_index [OF assms(1,2,5)] assms(3) by (simp add: nth_eq_iff_index_eq)
  from sector_spots_disjoint [OF this, of m] show ?thesis
    using mini_spots_sector [OF assms(2), of k] mini_spots_sector [OF assms(2), of j] by blast
next
  case True
  have apart: "a * 64 mod ssz m + 64 \<le> b * 64 mod ssz m" if "a < b" "a * 64 div ssz m = b * 64 div ssz m" for a b
  proof -
    define q where "q = b * 64 div ssz m * ssz m"
    have "a * 64 = q + a * 64 mod ssz m" "b * 64 = q + b * 64 mod ssz m"
      using that(2) by (metis q_def div_mult_mod_eq)+
    moreover have "a * 64 + 64 \<le> b * 64" using that(1) by simp
    ultimately show ?thesis by linarith
  qed
  consider "k < j" | "j < k" using assms(6) by linarith
  then show ?thesis
    by cases (use apart [of k j] apart [of j k] True in \<open>auto simp: mini_spots_def Let_def\<close>)
qed

lemma mini_owned_container:
  assumes "remembers m c" and "mini_owned m k" and "k * 64 < unat (mini_container_size m)"
  shows "container_ok m c" and "mini_container_chain m ! (k * 64 div ssz m) \<in> container m"
proof -
  have size: "mini_container_size m \<noteq> 0" using assms(3) by auto
  have ready: "mini_container_ready m" using assms(1,2) by (auto simp: remembers_def)
  with size assms(1) show co: "container_ok m c" by (simp add: remembers_def model_ok_def)
  have "header_ok m" using assms(1) by (simp add: remembers_def model_ok_def pkg_ok_def)
  from mini_index [OF co this assms(3)] ready size
  show "mini_container_chain m ! (k * 64 div ssz m) \<in> container m" by (simp add: container_def)
qed

text \<open>A sector nobody owns, and an unowned mini sector of the mini stream, hold no taken position.\<close>

lemma fresh_sector:
  assumes "remembers m c" and "\<not> owned m s"
  shows "sector_spots m s \<inter> taken m = {}"
proof -
  have h: "header_ok m" using assms(1) by (simp add: remembers_def model_ok_def pkg_ok_def)
  have "sector_spots m s \<inter> sector_spots m t = {}" if "owned m t" for t
    using sector_spots_disjoint [of s t m] that assms(2) by auto
  moreover have "sector_spots m s \<inter> mini_spots m k = {}"
    if "mini_owned m k" "k * 64 < unat (mini_container_size m)" for k
  proof -
    have "owned m (mini_container_chain m ! (k * 64 div ssz m))"
      using mini_owned_container(2) [OF assms(1) that] assms(1) by (auto simp: remembers_def)
    with assms(2) have "s \<noteq> mini_container_chain m ! (k * 64 div ssz m)" by auto
    from sector_spots_disjoint [OF this, of m] show ?thesis using mini_spots_sector [OF h, of k] by blast
  qed
  ultimately show ?thesis by (auto simp: taken_def)
qed

lemma fresh_mini:
  assumes "remembers m c" and "mini_container_ready m" and "\<not> mini_owned m k"
    and "k * 64 < unat (mini_container_size m)"
  shows "mini_spots m k \<inter> taken m = {}"
proof -
  have h: "header_ok m" using assms(1) by (simp add: remembers_def model_ok_def pkg_ok_def)
  have size: "mini_container_size m \<noteq> 0" using assms(4) by auto
  then have co: "container_ok m c" and dist: "distinct (mini_container_chain m)"
    using assms(1,2) by (simp_all add: remembers_def model_ok_def)
  let ?s = "mini_container_chain m ! (k * 64 div ssz m)"
  have "?s \<in> container m" using mini_index [OF co h assms(4)] assms(2) size by (simp add: container_def)
  then have "sector_spots m ?s \<inter> sector_spots m t = {}" if "t \<notin> container m" for t
    using sector_spots_disjoint [of ?s t m] that by auto
  then have "mini_spots m k \<inter> sector_spots m t = {}" if "t \<notin> container m" for t
    using that mini_spots_sector [OF h, of k] by blast
  moreover have "mini_spots m k \<inter> mini_spots m j = {}" if "mini_owned m j" "j * 64 < unat (mini_container_size m)" for j
    using mini_spots_disjoint [OF co h dist assms(4) that(2)] that(1) assms(3) by auto
  ultimately show ?thesis by (auto simp: taken_def)
qed

section \<open>Every call\<close>

lemma owners_before_settled: "owners_count (sector_owner m) = SectorCount m \<Longrightarrow> owners_before m = sector_owner m"
  by (simp add: owners_before_def with_sector_owner_def)

lemma WalkStream_sharing:
  assumes ok: "model_ok m c" and walk: "WalkStream host m start = (r, m')"
  shows "owned m s \<Longrightarrow> owned m' s" and "container m' = container m" and "mini_owned m' = mini_owned m"
    and "sector_spots m' = sector_spots m" and "mini_spots m' = mini_spots m"
    and "mini_container_size m' = mini_container_size m"
    and "r = Inr ss \<Longrightarrow> distinct ss \<and> (\<forall>s \<in> set ss. \<not> owned m s \<and> owned m' s)"
proof -
  note w = WalkStream_spec [OF ok walk]
  note eqs = same_package_eqs [OF w(2)]
  have before: "owners_before m' = sector_owner m'"
    using w(7) eqs by (intro owners_before_settled) simp
  show "owned m' s" if "owned m s"
  proof -
    have "Owners_Get (owners_before m') s = Owners_Get (owners_before m) s \<or> Owners_Get (owners_before m) s = Inr 0"
      using w(8) unfolding before claims_def by blast
    with that show ?thesis by (auto simp: owned_def)
  qed
  show "mini_container_size m' = mini_container_size m" using w(2) by (simp add: same_package_def)
  with w(4,5) show "container m' = container m" by (simp add: container_def)
  show "mini_owned m' = mini_owned m" using w(2,3) by (simp add: mini_owned_def fun_eq_iff same_package_def)
  show "sector_spots m' = sector_spots m" "mini_spots m' = mini_spots m"
    using eqs w(5) by (simp_all add: sector_spots_def mini_spots_def fun_eq_iff)
  show "distinct ss \<and> (\<forall>s \<in> set ss. \<not> owned m s \<and> owned m' s)" if "r = Inr ss"
  proof -
    have wd: "walked (fat_value m c) (unat (SectorCount m)) start (owners_before m) (sector_owner m') (last_owner m + 1) ss"
      by (rule w(9) [OF that])
    then have "owned m' s" if "s \<in> set ss" for s
      using that unfolding owned_def before walked_def by (cases ss) auto
    moreover have "\<not> owned m s" if "s \<in> set ss" for s
      using wd that unfolding owned_def walked_def by auto
    ultimately show ?thesis using wd by (simp add: walked_def)
  qed
qed

lemma WalkMiniChain_sharing:
  assumes walk: "WalkMiniChain m start i = (r, m')"
  shows "mini_owned m k \<Longrightarrow> mini_owned m' k" and "owned m' = owned m" and "container m' = container m"
    and "sector_spots m' = sector_spots m" and "mini_spots m' = mini_spots m"
    and "r = Inr ss \<Longrightarrow> distinct ss \<and> (\<forall>s \<in> set ss. \<not> mini_owned m (unat s) \<and> mini_owned m' (unat s))"
proof -
  let ?ow = "if length (mini_owner m) \<noteq> length (mini_fat m) then replicate (length (mini_fat m)) 0 else mini_owner m"
  obtain ow' where w: "WalkMini (mini_fat m) start ?ow i [] = (r, ow')" and m': "m' = m\<lparr>mini_owner := ow'\<rparr>"
    using assms by (auto simp: WalkMiniChain_def Let_def split: prod.splits)
  have len: "length ?ow = length (mini_fat m)" by simp
  note spec = WalkMini_spec [OF len w]
  then have len': "length ow' = length (mini_fat m)" by (simp add: mini_claims_def split: if_splits)
  have owned_iff: "mini_owned m k \<longleftrightarrow> k < length (mini_fat m) \<and> ?ow ! k \<noteq> 0" for k
    by (auto simp: mini_owned_def)
  have owned'_iff: "mini_owned m' k \<longleftrightarrow> k < length (mini_fat m) \<and> ow' ! k \<noteq> 0" for k
    using len' by (auto simp: mini_owned_def m')
  show "mini_owned m' k" if "mini_owned m k"
    using that spec len unfolding owned_iff owned'_iff mini_claims_def by metis
  show "owned m' = owned m" "container m' = container m" "sector_spots m' = sector_spots m" "mini_spots m' = mini_spots m"
    by (simp_all add: m' owned_def container_def sector_spots_def mini_spots_def fun_eq_iff owners_before_def
        with_sector_owner_def SectorCount_def HeaderSize_def ssz_def)
  show "distinct ss \<and> (\<forall>s \<in> set ss. \<not> mini_owned m (unat s) \<and> mini_owned m' (unat s))" if "r = Inr ss"
  proof -
    from that spec have wd: "mini_walked (mini_fat m) start ?ow ow' i ss" by auto
    have "\<not> mini_owned m (unat s) \<and> mini_owned m' (unat s)" if "s \<in> set ss" for s
    proof -
      have "unat s < length (mini_fat m)" "?ow ! unat s = 0" "ow' ! unat s = i" "i \<noteq> 0"
        using wd that len unfolding mini_walked_def by (blast, blast, simp, auto)
      then show ?thesis unfolding owned_iff owned'_iff by simp
    qed
    with wd show ?thesis by (simp add: mini_walked_def)
  qed
qed

text \<open>A call that keeps the tables, and returns only positions that were free.\<close>

definition takes_fresh :: "bytes \<Rightarrow> PackageModel \<Rightarrow> ByteExtent list res \<Rightarrow> PackageModel \<Rightarrow> bool" where
  "takes_fresh c m r m' \<longleftrightarrow>
     remembers m' c \<and> taken m \<subseteq> taken m' \<and>
     (\<forall>xs. r = Inr xs \<longrightarrow> spots xs \<subseteq> taken m' \<and> spots xs \<inter> taken m = {})"

lemma WalkStream_remembers:
  assumes rem: "remembers m c" and walk: "WalkStream host m start = (r, m')"
  shows "remembers m' c" and "taken m \<subseteq> taken m'"
proof -
  have ok: "model_ok m c" using rem by (simp add: remembers_def)
  note ws = WalkStream_spec [OF ok walk] and sh = WalkStream_sharing [OF ok walk]
  show "remembers m' c"
    using rem WalkStream_model_ok [OF ok walk] ws(4,5) sh(1-3) by (auto simp: remembers_def)
  show "taken m \<subseteq> taken m'" using sh(1-6) by (auto simp: taken_def)
qed

lemma ResolveOrdinary_fresh:
  assumes rem: "remembers m c" and res: "ResolveOrdinary host m stream = (r, m')"
  shows "takes_fresh c m r m'"
proof -
  have ok: "model_ok m c" using rem by (simp add: remembers_def)
  obtain w where walk: "WalkStream host m (start_sector stream) = (w, m')"
    and r: "r = bindE w (\<lambda>chain.
       bindE (CheckChainLength (node_size stream) (word_of_nat (length chain)) (ucast (sector_size (header m'))) ''sectors'') (\<lambda>_.
       bindE (foldE (OrdinaryExtent m') ([], node_size stream) chain) (\<lambda>(extents, _). Inr extents)))"
    using res by (auto simp: ResolveOrdinary_def split: prod.splits)
  note kept = WalkStream_remembers [OF rem walk] and sh = WalkStream_sharing [OF ok walk]
  have pkg: "pkg_ok m' c" using kept(1) by (simp add: remembers_def model_ok_def)
  have "spots xs \<subseteq> taken m' \<and> spots xs \<inter> taken m = {}" if "r = Inr xs" for xs
  proof -
    from that r obtain ss left where ss: "w = Inr ss" and fold: "foldE (OrdinaryExtent m') ([], node_size stream) ss = Inr (xs, left)"
      by (auto split: prod.splits)
    have new: "\<forall>s \<in> set ss. \<not> owned m s \<and> owned m' s" using sh(7) [OF ss] by blast
    have cover: "spots xs \<subseteq> (\<Union>s \<in> set ss. sector_spots m s)"
      using OrdinaryExtents_spots [OF pkg _ fold] sh(4) by simp
    have "\<forall>s \<in> set ss. s \<notin> container m'" using new rem sh(2) by (auto simp: remembers_def)
    then have "spots xs \<subseteq> taken m'" using cover new sh(4) by (fastforce simp: taken_def)
    moreover have "spots xs \<inter> taken m = {}" using cover new fresh_sector [OF rem] by blast
    ultimately show ?thesis by blast
  qed
  with kept show ?thesis by (simp add: takes_fresh_def)
qed

lemma EnsureMiniStream_fresh:
  assumes rem: "remembers m c" and run: "EnsureMiniStream host m k = (r, m', k')"
  shows "remembers m' c" and "taken m \<subseteq> taken m'"
proof -
  have ok: "model_ok m c" using rem by (simp add: remembers_def)
  note spec = EnsureMiniStream_spec [OF ok run]
  have "remembers m' c \<and> taken m \<subseteq> taken m'"
  proof (cases "mini_container_ready m \<or> mini_container_size m = 0")
    case True
    then have m': "m' = m \<or> mini_container_size m = 0 \<and> m' = m\<lparr>mini_container_ready := True\<rparr>"
      using run by (auto simp: EnsureMiniStream_def split: if_splits)
    have "container m' = container m" "owned m' = owned m" "mini_owned m' = mini_owned m"
      "sector_spots m' = sector_spots m" "mini_spots m' = mini_spots m" "mini_container_size m' = mini_container_size m"
      "mini_container_chain m' = mini_container_chain m"
      using m' by (auto simp: container_def owned_def mini_owned_def sector_spots_def mini_spots_def fun_eq_iff ssz_def
          owners_before_def with_sector_owner_def SectorCount_def HeaderSize_def)
    with m' rem spec(2) show ?thesis by (auto simp: remembers_def taken_def)
  next
    case False
    obtain w m1 where w: "WalkStream host m (mini_container_start m) = (w, m1)" by (cases "WalkStream host m (mini_container_start m)")
    note kept = WalkStream_remembers [OF rem w] and sh = WalkStream_sharing [OF ok w]
    have fields: "m' = m1 \<or> (\<exists>ss. w = Inr ss \<and> m' = m1\<lparr>mini_container_chain := ss, mini_container_ready := True\<rparr>)"
      using run False w
      by (auto simp: EnsureMiniStream_def Let_def ThrowMalformed_def split: sum.splits if_splits)
    then show ?thesis
    proof (elim disjE exE conjE)
      assume "m' = m1"
      with kept show ?thesis by simp
    next
      fix ss assume ss: "w = Inr ss" and m': "m' = m1\<lparr>mini_container_chain := ss, mini_container_ready := True\<rparr>"
      have same: "owned m' = owned m1" "mini_owned m' = mini_owned m1" "sector_spots m' = sector_spots m1"
        "container m' \<subseteq> set ss"
        by (auto simp: m' container_def owned_def mini_owned_def sector_spots_def fun_eq_iff ssz_def
            owners_before_def with_sector_owner_def SectorCount_def HeaderSize_def)
      have new: "distinct ss \<and> (\<forall>s \<in> set ss. \<not> owned m s \<and> owned m1 s)" by (rule sh(7) [OF ss])
      have no_mini: "\<not> mini_owned m j" for j using rem False by (simp add: remembers_def)
      have "remembers m' c" using spec(2) same new no_mini m' by (auto simp: remembers_def)
      moreover have "taken m \<subseteq> taken m'"
        using sh(1,4) same new no_mini by (fastforce simp: taken_def)
      ultimately show ?thesis by blast
    qed
  qed
  then show "remembers m' c" and "taken m \<subseteq> taken m'" by simp_all
qed

lemma ResolveMini_fresh:
  assumes rem: "remembers m c" and res: "ResolveMini host m stream k = (r, m', k')"
  shows "takes_fresh c m r m'"
proof -
  have ok: "model_ok m c" using rem by (simp add: remembers_def)
  obtain r1 m1 k1 where ens: "EnsureMiniStream host m k = (r1, m1, k1)" by (cases "EnsureMiniStream host m k")
  note e = EnsureMiniStream_spec [OF ok ens] and kept = EnsureMiniStream_fresh [OF rem ens]
  show ?thesis
  proof (cases r1)
    case (Inl err)
    then have "r = Inl err" "m' = m1" using res ens by (simp_all add: ResolveMini_def)
    with kept show ?thesis by (simp add: takes_fresh_def)
  next
    case (Inr u)
    let ?i = "last_owner m1 + 1" and ?m1 = "m1\<lparr>last_owner := last_owner m1 + 1\<rparr>"
    obtain w m2 where walk: "WalkMiniChain ?m1 (start_sector stream) ?i = (w, m2)"
      by (cases "WalkMiniChain ?m1 (start_sector stream) ?i")
    have m': "m' = m2" and r: "r = bindE w (\<lambda>chain.
       bindE (CheckChainLength (node_size stream) (word_of_nat (length chain)) (ucast (mini_sector_size (header m2))) ''mini sectors'') (\<lambda>_.
       bindE (foldE (MiniExtent m2) ([], node_size stream) chain) (\<lambda>(extents, _). Inr extents)))"
      using res ens Inr walk by (auto simp: ResolveMini_def Let_def)
    note ws = WalkMiniChain_spec [OF walk] and sh = WalkMiniChain_sharing [OF walk]
    have same: "owned ?m1 = owned m1" "mini_owned ?m1 = mini_owned m1" "sector_spots ?m1 = sector_spots m1"
      "container ?m1 = container m1" "mini_spots ?m1 = mini_spots m1" "ssz ?m1 = ssz m1"
      by (auto simp: container_def owned_def mini_owned_def sector_spots_def fun_eq_iff ssz_def
          owners_before_def with_sector_owner_def SectorCount_def HeaderSize_def mini_spots_def)
    have size: "mini_container_size m2 = mini_container_size m1" using ws(2) by (simp add: same_package_def)
    have ready: "mini_container_ready m1" "mini_container_ready m2" using e(5) [OF Inr] ws(4) by simp_all
    have m2_ok: "model_ok m2 c" using ResolveMini_spec(2) [OF ok res] m' by simp
    then have rem2: "remembers m2 c" using kept(1) ready sh(2,3) same ws(5) by (auto simp: remembers_def)
    have mono: "taken m1 \<subseteq> taken m2" using sh(1-5) same size by (auto simp: taken_def)
    have pkg: "pkg_ok m2 c" and co: "mini_container_size m2 \<noteq> 0 \<longrightarrow> container_ok m2 c"
      using m2_ok ready by (simp_all add: model_ok_def)
    have unit: "ucast (mini_sector_size (header m2)) = (64 :: u64)" using pkg by (simp add: pkg_ok_def header_ok_def)
    have "spots xs \<subseteq> taken m2 \<and> spots xs \<inter> taken m = {}" if "r = Inr xs" for xs
    proof -
      from that r obtain ss u' left where ss: "w = Inr ss"
        and len: "CheckChainLength (node_size stream) (word_of_nat (length ss)) (ucast (mini_sector_size (header m2))) ''mini sectors'' = Inr u'"
        and fold: "foldE (MiniExtent m2) ([], node_size stream) ss = Inr (xs, left)"
        by (auto split: prod.splits)
      have new: "distinct ss" "\<forall>s \<in> set ss. \<not> mini_owned m1 (unat s) \<and> mini_owned m2 (unat s)"
        using sh(6) [OF ss] same by simp_all
      have "length ss * 64 < unat (node_size stream) + 64"
        using chain_length_upper [OF len new(1)] by (simp add: unit)
      from MiniExtents_spots [OF pkg co _ this fold]
      have cover: "spots xs \<subseteq> (\<Union>s \<in> set ss. mini_spots m2 (unat s))"
        and inside: "\<forall>s \<in> set ss. unat s * 64 < unat (mini_container_size m2)" by simp_all
      have "mini_spots m2 (unat s) \<inter> taken m1 = {}" if "s \<in> set ss" for s
        using fresh_mini [OF kept(1) ready(1), of "unat s"] that new(2) inside size sh(5) same by simp
      with cover kept(2) have "spots xs \<inter> taken m = {}" by blast
      moreover have "spots xs \<subseteq> taken m2" using cover new(2) inside by (fastforce simp: taken_def)
      ultimately show ?thesis by blast
    qed
    with rem2 mono kept(2) m' show ?thesis by (auto simp: takes_fresh_def)
  qed
qed

lemma Resolve_fresh:
  assumes rem: "remembers m c" and res: "Resolve host m stream k = (r, m', k')"
  shows "takes_fresh c m r m'"
proof -
  consider "r = Inr []" "m' = m" | "ResolveMini host m stream k = (r, m', k')" | "ResolveOrdinary host m stream = (r, m')"
    using res by (auto simp: Resolve_def split: if_splits prod.splits)
  then show ?thesis
    by cases (use rem ResolveMini_fresh [OF rem] ResolveOrdinary_fresh [OF rem] in \<open>auto simp: takes_fresh_def\<close>)
qed

lemma ReadStream_keeps:
  assumes "remembers m c" and "ReadStream host m stream k = (r, m', k')"
  shows "remembers m' c" and "taken m \<subseteq> taken m'"
proof -
  obtain x where "Resolve host m stream k = (x, m', k')" using assms(2) by (auto simp: ReadStream_def split: prod.splits)
  from Resolve_fresh [OF assms(1) this] show "remembers m' c" and "taken m \<subseteq> taken m'" by (simp_all add: takes_fresh_def)
qed

lemma read_all_keeps:
  "remembers m c \<Longrightarrow> read_all host ns (m, k) = (m', k') \<Longrightarrow> remembers m' c \<and> taken m \<subseteq> taken m'"
proof (induction ns arbitrary: m k)
  case (Cons n ns)
  obtain r m1 k1 where run: "ReadStream host m n k = (r, m1, k1)" by (cases "ReadStream host m n k")
  with Cons.prems(2) have "read_all host ns (m1, k1) = (m', k')" by simp
  from Cons.IH [OF ReadStream_keeps(1) [OF Cons.prems(1) run] this] ReadStream_keeps(2) [OF Cons.prems(1) run]
  show ?case by blast
qed simp

section \<open>The property\<close>

lemma Parse_remembers:
  assumes "span_ok src c" and "span_format src = cfb_format" and "CfbReader_Parse host src = Inr m"
  shows "remembers m c"
  using Parse_ok(2,3) [OF assms] by (auto simp: remembers_def container_def mini_owned_def)

text \<open>
  C33: two streams never share a byte. However many streams of a package were resolved or read before and
  in between, with or without success, the ranges two successful \<open>Resolve\<close> calls return are disjoint; a
  stream of the mini stream counts with the bytes it has there.
\<close>

theorem cfb_streams_share_no_byte:
  assumes "span_ok src c" and "span_format src = cfb_format"
    and "CfbReader_Parse host src = Inr m" and "read_all host ns (m, k) = (m1, k1)"
    and "Resolve host m1 a k1 = (Inr xs, m2, k2)" and "read_all host ns' (m2, k2) = (m3, k3)"
    and "Resolve host m3 b k3 = (Inr ys, m4, k4)"
  shows "spots xs \<inter> spots ys = {}"
proof -
  have "remembers m1 c" using read_all_keeps [OF Parse_remembers [OF assms(1-3)] assms(4)] by blast
  note first = Resolve_fresh [OF this assms(5)]
  then have "remembers m2 c" "spots xs \<subseteq> taken m2" by (simp_all add: takes_fresh_def)
  with read_all_keeps [OF _ assms(6), of c] have "remembers m3 c" "spots xs \<subseteq> taken m3" by blast+
  moreover have "spots ys \<inter> taken m3 = {}"
    using Resolve_fresh [OF \<open>remembers m3 c\<close> assms(7)] by (simp add: takes_fresh_def)
  ultimately show ?thesis by blast
qed

text \<open>
  \<open>CfbReader.hpp\<close> says that a model resolves its mini stream at most once. That holds of a walk that succeeds;
  one that fails is counted, forgotten, and counted again by the next call.
\<close>

theorem failed_mini_stream_is_counted_again:
  assumes "EnsureMiniStream host m k = (Inl e, m', k')"
  shows "k' = k + 1" and "snd (snd (EnsureMiniStream host m' k')) = k + 2"
proof -
  have state: "\<not> mini_container_ready m" "mini_container_size m \<noteq> 0"
    using assms by (auto simp: EnsureMiniStream_def split: if_splits)
  obtain w m1 where w: "WalkStream host m (mini_container_start m) = (w, m1)" by (cases "WalkStream host m (mini_container_start m)")
  have m1: "mini_container_ready m1 = mini_container_ready m" "mini_container_size m1 = mini_container_size m"
    using w by (auto simp: WalkStream_def Let_def with_sector_owner_def split: prod.splits if_splits)
  have counted: "snd (snd (EnsureMiniStream host m2 n)) = n + 1"
    if "\<not> mini_container_ready m2" "mini_container_size m2 \<noteq> 0" for m2 n
    using that by (simp add: EnsureMiniStream_def Let_def split: prod.splits sum.splits)
  show k': "k' = k + 1" using counted [OF state, of k] assms by simp
  have "m' = m1" using assms state w by (auto simp: EnsureMiniStream_def Let_def split: sum.splits)
  with counted [of m' k'] state m1 k' show "snd (snd (EnsureMiniStream host m' k')) = k + 2" by simp
qed

end
