(* ===== verification/Cfb_Example.thy ===== *)
theory Cfb_Example
  imports Cfb_Sharing
begin

text \<open>
  A package with one stream of three bytes, evaluated by the simplifier stage by stage, and the
  witnesses of the properties of the reader.
\<close>

section \<open>The package\<close>

text \<open>
  The header, then four sectors: the FAT, the directory (the root and the stream \<open>a\<close>), the
  mini-FAT and the mini stream.
\<close>

definition tiny_entry :: "u8 \<Rightarrow> u8 \<Rightarrow> u8 \<Rightarrow> u8 \<Rightarrow> u8 \<Rightarrow> bytes" where
  "tiny_entry letter typ child start sz =
     [letter, 0] @ replicate 62 0 @ [4, 0, typ, 1, 255, 255, 255, 255, 255, 255, 255, 255] @
     [child, if child = 1 then 0 else 255, if child = 1 then 0 else 255, if child = 1 then 0 else 255] @
     replicate 36 0 @ [start, 0, 0, 0, sz, 0, 0, 0, 0, 0, 0, 0]"

definition tiny_content :: bytes where
  "tiny_content =
     [0xD0, 0xCF, 0x11, 0xE0, 0xA1, 0xB1, 0x1A, 0xE1] @ replicate 16 0 @
     [0x3E, 0, 3, 0, 0xFE, 0xFF, 9, 0, 6, 0] @ replicate 10 0 @ [1, 0, 0, 0, 1, 0, 0, 0, 0, 0, 0, 0] @
     [0, 0x10, 0, 0, 2, 0, 0, 0, 1, 0, 0, 0, 0xFE, 0xFF, 0xFF, 0xFF] @ replicate 8 0 @ replicate 432 0xFF @
     [0xFD, 0xFF, 0xFF, 0xFF, 0xFE, 0xFF, 0xFF, 0xFF, 0xFE, 0xFF, 0xFF, 0xFF, 0xFE, 0xFF, 0xFF, 0xFF] @
     replicate 496 0xFF @
     tiny_entry 0x52 5 1 3 64 @ tiny_entry 0x61 2 255 0 3 @ replicate 256 0 @
     [0xFE, 0xFF, 0xFF, 0xFF] @ replicate 508 0xFF @
     [7, 8, 9] @ replicate 509 0"

text \<open>The same bytes under a name that the simplifier does not unfold.\<close>

definition tiny_package :: bytes where
  "tiny_package = tiny_content"

definition tiny_span :: ByteSpan where
  "tiny_span = ByteSpan_of_bytes tiny_package cfb_format ''the file''"

lemma tiny_length: "length tiny_package = 2560"
  by (simp add: tiny_package_def tiny_content_def tiny_entry_def)

lemma tiny_span_eq:
  "tiny_span = \<lparr>backing = Memory tiny_package, span_size = 2560, span_format = cfb_format, span_scope = ''the file''\<rparr>"
  by (simp add: tiny_span_def ByteSpan_of_bytes_def tiny_length)

lemma tiny_ok: "span_ok tiny_span tiny_package" "span_format tiny_span = cfb_format"
  by (simp_all add: tiny_span_eq span_ok_def tiny_length)

section \<open>Evaluation\<close>

lemma bindE_weak: "x = y \<Longrightarrow> bindE x f = bindE y f"
  by simp

lemma foldE_upt: "foldE f s [i..<j] = (if i < j then bindE (f s i) (\<lambda>t. foldE f t [Suc i..<j]) else Inr s)"
  by (auto simp: upt_rec)

lemma mapE_upt:
  "mapE f [i..<j] = (if i < j then bindE (f i) (\<lambda>x. bindE (mapE f [Suc i..<j]) (\<lambda>xs. Inr (x # xs))) else Inr [])"
  by (auto simp: upt_rec)

lemma replicate_small:
  "replicate 2 x = [x, x]" "replicate 4 x = [x, x, x, x]" "replicate 8 x = [x, x, x, x, x, x, x, x]"
  by (simp_all add: eval_nat_numeral)

lemma tiny_at: "off + n \<le> 2560 \<Longrightarrow> mem_read tiny_package off n = Inr (take n (drop off tiny_content))"
  by (simp add: mem_read_def tiny_length segment_def) (simp add: tiny_package_def)

lemma tiny_part_at:
  "a + n \<le> l \<Longrightarrow> off + l \<le> 2560 \<Longrightarrow>
   mem_read (segment off l tiny_package) a n = Inr (take n (drop (off + a) tiny_content))"
  using mem_read_segment [of a n l off tiny_package] by (simp add: tiny_length) (simp add: segment_def tiny_package_def)

lemma word_not_le_1: "\<not> (128 :: u64) \<le> 1" "\<not> (4 :: u64) \<le> 1"
  by (simp_all add: word_le_nat_alt)

lemmas tiny_eval = Read_def At_def RangeFits_def tiny_span_eq tiny_at tiny_part_at tiny_content_def tiny_entry_def
  load_word_def ToHostOrder_def ByteSwapIfNeeded_def replicate_small foldE_upt mapE_upt at_index_def set_index_def
  Let_def word_not_le_1 kCfbEndOfChain_def kCfbFreeSector_def kCfbNoStream_def kCfbNone_def

definition tiny_header :: PackageModel where
  "tiny_header = (PackageModel_new tiny_span)
     \<lparr>header := \<lparr>major_version = 3, minor_version = 62, sector_size = 512, mini_sector_size = 64, mini_stream_cutoff = 4096\<rparr>,
      first_dir_sector := 1, first_mini_fat_sector := 2, total_mini_fat_sectors := 1,
      first_difat_sector := kCfbEndOfChain, total_difat_sectors := 0\<rparr>"

lemma tiny_ParseHeader: "ParseHeader Little (PackageModel_new tiny_span) = Inr tiny_header"
  by (simp add: ParseHeader_def CheckMagic_def kMagic_def PackageModel_new_def tiny_eval kSectorExponentV3_def
      kSectorExponentV4_def kMiniSectorExponent_def HeaderSize_def kMiniStreamCutoff_def tiny_header_def
      cong: bindE_weak)

lemma tiny_header_fields:
  "source tiny_header = tiny_span" "first_difat_sector tiny_header = kCfbEndOfChain"
  "total_difat_sectors tiny_header = 0" "fat_sectors tiny_header = []" "first_mini_fat_sector tiny_header = 2"
  "total_mini_fat_sectors tiny_header = 1" "first_dir_sector tiny_header = 1"
  "major_version (header tiny_header) = 3" "sector_size (header tiny_header) = 512"
  "mini_sector_size (header tiny_header) = 64" "mini_stream_cutoff (header tiny_header) = 4096"
  by (simp_all add: tiny_header_def PackageModel_new_def)

lemma tiny_geometry:
  assumes "header m = header tiny_header"
  shows "HeaderSize m = 512" "SectorStart m k = 512 + ucast k * 512" "sector_size (header m) = 512"
    and "source m = tiny_span \<Longrightarrow> SectorCount m = 4"
  using assms by (simp_all add: HeaderSize_def SectorCount_def SectorStart_def tiny_header_def tiny_span_eq)

definition tiny_fat :: PackageModel where
  "tiny_fat = tiny_header\<lparr>fat_sectors := [0]\<rparr>"

lemma ReadDifat_step:
  "k = Suc n \<Longrightarrow> ReadDifat host src at k found =
     bindE (Read host src at Little ''DIFAT entry'') (\<lambda>entry.
       if entry = kCfbFreeSector \<or> entry = kCfbEndOfChain then Inr found
       else ReadDifat host src (at + 4) n (found @ [entry]))"
  by simp

lemma tiny_ReadDifat: "ReadDifat Little tiny_span 76 109 [] = Inr [0]"
  by (simp add: ReadDifat_step [of 109 108] ReadDifat_step [of 108 107] tiny_eval cong: bindE_weak)

lemma tiny_BuildFat: "BuildFat Little tiny_header = Inr tiny_fat"
  by (simp add: BuildFat_def tiny_header_fields tiny_geometry tiny_ReadDifat kHeaderDifatEntries_def AddFatSector_def
      Sector_def Sub_def RangeFits_def at_index_def tiny_span_eq [THEN arg_cong [of _ _ span_size]] tiny_fat_def cong: bindE_weak)

lemma tiny_fat_fields: "source tiny_fat = tiny_span" "header tiny_fat = header tiny_header" "fat_sectors tiny_fat = [0]"
  "first_mini_fat_sector tiny_fat = 2" "total_mini_fat_sectors tiny_fat = 1" "first_dir_sector tiny_fat = 1"
  by (simp_all add: tiny_fat_def tiny_header_fields)

lemma tiny_chains:
  "FollowChain Little tiny_fat 1 what = Inr [1]" "FollowChain Little tiny_fat 2 what = Inr [2]"
  by (simp_all add: FollowChain_def tiny_fat_fields tiny_geometry WalkChain.simps [of _ _ 1] WalkChain.simps [of _ _ 2]
      WalkChain.simps [of _ _ "0xFFFFFFFE"] tiny_eval FatSize_def FatEntry_def Owners_Get_def Owners_Set_def
      SectorOwners_new_def kBlockSize_def cong: bindE_weak)

definition tiny_mini_fat :: PackageModel where
  "tiny_mini_fat = tiny_fat\<lparr>mini_fat := 0xFFFFFFFE # replicate 127 0xFFFFFFFF\<rparr>"

lemma mapE_Inr_map: "(\<And>x. x \<in> set xs \<Longrightarrow> f x = Inr (g x)) \<Longrightarrow> mapE f xs = Inr (map g xs)"
  by (induction xs) simp_all

lemma tiny_free_entry:
  assumes "0 < i" and "i < 128"
  shows "take 4 (drop (1536 + 4 * i) tiny_content) = [255, 255, 255, 255]"
proof -
  let ?before = "take 1540 tiny_content" and ?after = "drop 2048 tiny_content"
  have "take 508 (drop 1540 tiny_content) = replicate 508 255"
    by (simp add: tiny_content_def tiny_entry_def)
  then have "tiny_content = ?before @ replicate 508 255 @ ?after"
    by (metis append_take_drop_id drop_drop numeral_plus_numeral add_num_simps(1-9))
  then have "drop 1540 tiny_content = replicate 508 255 @ ?after"
    by (metis append_take_drop_id same_append_eq)
  then have "drop (4 * i - 4 + 1540) tiny_content = drop (4 * i - 4) (replicate 508 255 @ ?after)"
    by (metis drop_drop)
  moreover have "4 * i - 4 + 1540 = 1536 + 4 * i"
    using assms by simp
  ultimately have "drop (1536 + 4 * i) tiny_content = drop (4 * i - 4) (replicate 508 255 @ ?after)"
    by simp
  then show ?thesis using assms by (simp add: replicate_small)
qed

lemma tiny_MiniFatSector: "MiniFatSector Little tiny_fat [] 2 = Inr (0xFFFFFFFE # replicate 127 0xFFFFFFFF)"
proof -
  let ?sector = "\<lparr>backing = Memory (segment 1536 512 tiny_package), span_size = 512, span_format = cfb_format,
    span_scope = ''mini-FAT sector''\<rparr>"
  have entry: "Read Little ?sector (word_of_nat i * 4) Little ''mini-FAT entry'' =
      Inr ((\<lambda>i. if i = 0 then 0xFFFFFFFE else 0xFFFFFFFF) i :: u32)" if "i \<in> set [0..<128]" for i
  proof -
    from that have i: "i < 128" by simp
    then have at: "unat (word_of_nat i * 4 :: u64) = 4 * i"
      by (simp add: unat_mult_nowrap unat_of_nat_small)
    show ?thesis
    proof (cases "i = 0")
      case True
      then show ?thesis by (simp add: tiny_eval cong: bindE_weak)
    next
      case False
      have "4 \<le> 512 - (word_of_nat i * 4 :: u64)" "(word_of_nat i * 4 :: u64) \<le> 512"
        using i by (simp_all add: word_le_nat_alt unat_sub_if' at)
      then show ?thesis using i False
        by (simp add: Read_def At_def RangeFits_def at tiny_part_at tiny_free_entry load_word_def ToHostOrder_def
            ByteSwapIfNeeded_def)
    qed
  qed
  have "map (\<lambda>i. if i = 0 then 0xFFFFFFFE else 0xFFFFFFFF :: u32) [0..<128] = 0xFFFFFFFE # replicate 127 0xFFFFFFFF"
    by (rule nth_equalityI) (simp_all add: nth_Cons')
  moreover have "mapE (\<lambda>i. Read Little ?sector (word_of_nat i * 4) Little ''mini-FAT entry'') [0..<128] =
      Inr (map (\<lambda>i. if i = 0 then 0xFFFFFFFE else 0xFFFFFFFF :: u32) [0..<128])"
    by (rule mapE_Inr_map) (rule entry)
  ultimately show ?thesis
    by (simp add: MiniFatSector_def Sector_def tiny_fat_fields tiny_geometry Sub_def RangeFits_def tiny_span_eq)
qed

lemma tiny_BuildMiniFat: "BuildMiniFat Little tiny_fat = Inr tiny_mini_fat"
  by (simp add: BuildMiniFat_def tiny_fat_fields tiny_chains tiny_MiniFatSector tiny_mini_fat_def kCfbEndOfChain_def)

lemma tiny_mini_fat_fields: "source tiny_mini_fat = tiny_span" "header tiny_mini_fat = header tiny_header"
  "fat_sectors tiny_mini_fat = [0]" "mini_fat tiny_mini_fat = 0xFFFFFFFE # replicate 127 0xFFFFFFFF"
  "first_dir_sector tiny_mini_fat = 1" "mini_container_ready tiny_mini_fat = False"
  "sector_owner tiny_mini_fat = SectorOwners_default" "mini_owner tiny_mini_fat = []" "last_owner tiny_mini_fat = 0"
  by (simp_all add: tiny_mini_fat_def tiny_fat_def tiny_header_def PackageModel_new_def)

definition tiny_root_entry :: DirEntry where
  "tiny_root_entry = \<lparr>de_name = [0x52], de_type = 5, de_left = 0xFFFFFFFF, de_right = 0xFFFFFFFF, de_child = 1,
     de_start_sector = 3, de_size = 64, de_class_id = replicate 16 0, de_state_bits = 0, de_creation_time = 0,
     de_modification_time = 0\<rparr>"

definition tiny_stream_entry :: DirEntry where
  "tiny_stream_entry = \<lparr>de_name = [0x61], de_type = 2, de_left = 0xFFFFFFFF, de_right = 0xFFFFFFFF, de_child = 0xFFFFFFFF,
     de_start_sector = 0, de_size = 3, de_class_id = replicate 16 0, de_state_bits = 0, de_creation_time = 0,
     de_modification_time = 0\<rparr>"

definition tiny_free_entry_read :: DirEntry where
  "tiny_free_entry_read = \<lparr>de_name = [], de_type = 0, de_left = 0, de_right = 0, de_child = 0,
     de_start_sector = 0, de_size = 0, de_class_id = replicate 16 0, de_state_bits = 0, de_creation_time = 0,
     de_modification_time = 0\<rparr>"

abbreviation tiny_directory_sector :: ByteSpan where
  "tiny_directory_sector \<equiv> \<lparr>backing = Memory (segment 1024 512 tiny_package), span_size = 512, span_format = cfb_format,
     span_scope = ''directory sector''\<rparr>"

lemma replicate_16: "replicate 16 x = [x, x, x, x, x, x, x, x, x, x, x, x, x, x, x, x]"
  by (simp add: eval_nat_numeral)

lemma tiny_dir_root: "ReadDirEntry Little tiny_mini_fat tiny_directory_sector 0 = Inr tiny_root_entry"
  by (simp add: ReadDirEntry_def ReadEntryName_def tiny_root_entry_def tiny_eval replicate_16 tiny_mini_fat_fields
      tiny_header_fields cong: bindE_weak)

lemma tiny_dir_stream: "ReadDirEntry Little tiny_mini_fat tiny_directory_sector 128 = Inr tiny_stream_entry"
  by (simp add: ReadDirEntry_def ReadEntryName_def tiny_stream_entry_def tiny_eval replicate_16 tiny_mini_fat_fields
      tiny_header_fields cong: bindE_weak)

lemma tiny_dir_free:
  "ReadDirEntry Little tiny_mini_fat tiny_directory_sector 256 = Inr tiny_free_entry_read"
  "ReadDirEntry Little tiny_mini_fat tiny_directory_sector 384 = Inr tiny_free_entry_read"
  by (simp_all add: ReadDirEntry_def ReadEntryName_def tiny_free_entry_read_def tiny_eval replicate_16 tiny_mini_fat_fields
      tiny_header_fields cong: bindE_weak)

lemma tiny_directory_chain: "FollowChain Little tiny_mini_fat 1 what = Inr [1]"
  by (simp add: FollowChain_def tiny_mini_fat_fields tiny_geometry WalkChain.simps [of _ _ 1]
      WalkChain.simps [of _ _ "0xFFFFFFFE"] tiny_eval FatSize_def FatEntry_def Owners_Get_def Owners_Set_def
      SectorOwners_new_def kBlockSize_def cong: bindE_weak)

lemma tiny_ParseDirectory:
  "ParseDirectory Little tiny_mini_fat = Inr [tiny_root_entry, tiny_stream_entry, tiny_free_entry_read, tiny_free_entry_read]"
proof -
  have "[0..<4] = [0, 1, 2, 3 :: nat]"
    by (simp add: upt_rec)
  then show ?thesis
    by (simp add: ParseDirectory_def tiny_directory_chain DirectorySector_def Sector_def tiny_mini_fat_fields tiny_geometry Sub_def
        RangeFits_def tiny_span_eq kDirEntrySize_def tiny_dir_root tiny_dir_stream tiny_dir_free word_not_le_1)
qed

definition tiny_stream :: CfbNode where
  "tiny_stream = CfbNode [0x61] False (replicate 16 0) 0 0 0 0 3 [] kCfbNone kCfbNone kCfbNone"

definition tiny_model :: PackageModel where
  "tiny_model = tiny_mini_fat
     \<lparr>root := CfbNode [0x52] True (replicate 16 0) 0 0 0 kCfbEndOfChain 0 [tiny_stream] 0 kCfbNone kCfbNone,
      mini_container_start := 3, mini_container_size := 64\<rparr>"

lemma tiny_BuildTree:
  "BuildTree tiny_mini_fat [tiny_root_entry, tiny_stream_entry, tiny_free_entry_read, tiny_free_entry_read] = Inr tiny_model"
  by (simp add: BuildTree_def ReadStorage.simps kCfbMaxStorageDepth_def at_index_def tiny_root_entry_def tiny_stream_entry_def
      Push_def WalkTree.simps kCfbNoStream_def kCfbNone_def kTypeRoot_def kTypeStorage_def kTypeStream_def kTypeUnknown_def
      NodeOf_def LinkNode_def PositionOf_def tiny_model_def tiny_stream_def)

lemma tiny_parsed: "CfbReader_Parse Little tiny_span = Inr tiny_model"
  by (simp add: CfbReader_Parse_def tiny_ParseHeader tiny_BuildFat tiny_BuildMiniFat tiny_ParseDirectory tiny_BuildTree)

lemma tiny_model_fields: "source tiny_model = tiny_span" "header tiny_model = header tiny_header"
  "fat_sectors tiny_model = [0]" "mini_fat tiny_model = 0xFFFFFFFE # replicate 127 0xFFFFFFFF"
  "mini_container_start tiny_model = 3" "mini_container_size tiny_model = 64" "mini_container_ready tiny_model = False"
  "sector_owner tiny_model = SectorOwners_default" "mini_owner tiny_model = []" "last_owner tiny_model = 0"
  by (simp_all add: tiny_model_def tiny_mini_fat_fields)

lemma tiny_container_chain:
  assumes "source m = tiny_span" and "header m = header tiny_header" and "fat_sectors m = [0]"
  shows "fst (WalkChain Little m 3 (SectorOwners_new 4) 1 what []) = Inr [3]"
  using assms by (simp add: tiny_geometry WalkChain.simps [of _ _ 3]
      WalkChain.simps [of _ _ "0xFFFFFFFE"] tiny_eval FatSize_def FatEntry_def Owners_Get_def Owners_Set_def
      SectorOwners_new_def kBlockSize_def cong: bindE_weak)

definition tiny_ready :: PackageModel where
  "tiny_ready = tiny_model\<lparr>mini_container_chain := [3], mini_container_ready := True, last_owner := 1,
     sector_owner := snd (WalkChain Little (tiny_model\<lparr>sector_owner := SectorOwners_new 4\<rparr>) 3 (SectorOwners_new 4) 1 ''stream'' [])\<rparr>"

lemma tiny_EnsureMiniStream: "EnsureMiniStream Little tiny_model 0 = (Inr (), tiny_ready, 1)"
proof -
  let ?m = "tiny_model\<lparr>sector_owner := SectorOwners_new 4\<rparr>"
  have "WalkStream Little tiny_model 3 = (Inr [3], tiny_model\<lparr>last_owner := 1,
      sector_owner := snd (WalkChain Little ?m 3 (SectorOwners_new 4) 1 ''stream'' [])\<rparr>)"
    using tiny_container_chain [of ?m "''stream''"]
    by (cases "WalkChain Little ?m 3 (SectorOwners_new 4) 1 ''stream'' []")
      (simp add: WalkStream_def with_sector_owner_def tiny_model_fields tiny_geometry SectorOwners_default_def)
  then show ?thesis
    by (simp add: EnsureMiniStream_def tiny_model_fields tiny_header_fields tiny_geometry tiny_ready_def UnitsFor_def
        ContainerSector_def tiny_eval)
qed

lemma tiny_mini_chain: "WalkMini (0xFFFFFFFE # replicate 127 0xFFFFFFFF) 0 (replicate 128 0) 2 [] =
    (Inr [0], (replicate 128 0)[0 := 2])"
  by (simp add: WalkMini.simps [of _ 0] WalkMini.simps [of _ "0xFFFFFFFE"] kCfbEndOfChain_def)

lemma tiny_ready_fields: "source tiny_ready = tiny_span" "header tiny_ready = header tiny_header"
  "mini_fat tiny_ready = 0xFFFFFFFE # replicate 127 0xFFFFFFFF" "mini_container_size tiny_ready = 64"
  "mini_container_chain tiny_ready = [3]" "mini_owner tiny_ready = []" "last_owner tiny_ready = 1"
  by (simp_all add: tiny_ready_def tiny_model_fields)

lemma tiny_Resolve:
  "\<exists>m2. Resolve Little tiny_model tiny_stream 0 = (Inr [\<lparr>ext_offset = 2048, ext_length = 3\<rparr>], m2, 1) \<and> source m2 = tiny_span"
  by (simp add: Resolve_def ResolveMini_def tiny_EnsureMiniStream tiny_model_fields tiny_header_fields tiny_stream_def
      WalkMiniChain_def tiny_mini_chain tiny_ready_fields CheckChainLength_def UnitsFor_def MiniExtent_def tiny_geometry
      AppendExtent_def tiny_eval)

lemma tiny_ReadStream: "\<exists>m2 k2. ReadStream Little tiny_model tiny_stream 0 = (Inr [7, 8, 9], m2, k2)"
proof -
  obtain m2 where "Resolve Little tiny_model tiny_stream 0 = (Inr [\<lparr>ext_offset = 2048, ext_length = 3\<rparr>], m2, 1)"
    and "source m2 = tiny_span"
    using tiny_Resolve by blast
  then show ?thesis
    by (simp add: ReadStream_def ReadExtent_def Sub_def Data_def tiny_eval)
qed

section \<open>Witnesses\<close>

theorem cfb_reader_returns_or_rejects_witness:
  "rejects cfb_format (fst (ReadStream Little tiny_model tiny_stream 0)) \<and> rejects cfb_format (fst (Resolve Little tiny_model tiny_stream 0))"
  using cfb_reader_returns_or_rejects [OF tiny_ok, of Little] tiny_parsed
  by (auto dest!: spec [where x = tiny_model] spec [where x = "[]"] spec [where x = tiny_stream] spec [where x = 0])

theorem cfb_stream_is_its_chain_witness:
  "\<exists>m2. stream_bytes m2 tiny_package tiny_stream [7, 8, 9] \<and> same_package tiny_model m2"
proof -
  obtain m2 k2 where "ReadStream Little tiny_model tiny_stream 0 = (Inr [7, 8, 9], m2, k2)"
    using tiny_ReadStream by blast
  then show ?thesis
    using cfb_stream_is_its_chain [OF tiny_ok tiny_parsed, of "[]" 0 tiny_model 0 tiny_stream "[7, 8, 9]" m2 k2] by auto
qed

theorem cfb_streams_share_no_byte_witness:
  "\<exists>m2. Resolve Little tiny_model tiny_stream 0 = (Inr [\<lparr>ext_offset = 2048, ext_length = 3\<rparr>], m2, 1) \<and>
     Resolve Little m2 (root tiny_model) 1 = (Inr [], m2, 1) \<and>
     spots [\<lparr>ext_offset = 2048, ext_length = 3\<rparr>] \<inter> spots [] = {}"
proof -
  obtain m2 where r: "Resolve Little tiny_model tiny_stream 0 = (Inr [\<lparr>ext_offset = 2048, ext_length = 3\<rparr>], m2, 1)"
    using tiny_Resolve by blast
  have second: "Resolve Little m2 (root tiny_model) 1 = (Inr [], m2, 1)"
    by (simp add: Resolve_def tiny_model_def)
  from cfb_streams_share_no_byte [OF tiny_ok tiny_parsed _ r _ second, of "[]" 0 "[]"] r second
  show ?thesis by auto
qed

end
