(* ===== verification/Msi_Authenticode.thy ===== *)
theory Msi_Authenticode
  imports Cfb_Sharing
begin

text \<open>
  \<open>src/internal/MsiAuthenticode.cpp\<close>: the Authenticode fingerprint of an installer package.

  SHA-256 (the vendored \<open>picosha2\<close>) is the argument \<open>sha\<close>; the hasher is the bytes it was fed. A loop over
  the streams threads the model with the counter of mini stream walks; when a call throws, no caller uses the model
  again, so the exception is all that is kept of it.
\<close>

section \<open>The code\<close>

definition kHashPiece :: u64 where "kHashPiece = 64 * 1024"

fun RawNameLess :: "u16string \<Rightarrow> u16string \<Rightarrow> bool" where
  "RawNameLess (a # as) (b # bs) =
     (if a = b then RawNameLess as bs
      else
        let low_a = ucast (a AND 0xFF) :: u8; low_b = ucast (b AND 0xFF) :: u8 in
        if low_a \<noteq> low_b then low_a < low_b
        else (ucast (drop_bit 8 a) :: u8) < ucast (drop_bit 8 b))"
| "RawNameLess as bs \<longleftrightarrow> length as < length bs"

text \<open>
  \<open>std::sort\<close> and \<open>std::stable_sort\<close> with a comparator. Elements that compare equal keep their order, which
  \<open>std::sort\<close> leaves open; the sorts of the code that use it have none, or only look for one.
\<close>

fun insort_by :: "('a \<Rightarrow> 'a \<Rightarrow> bool) \<Rightarrow> 'a \<Rightarrow> 'a list \<Rightarrow> 'a list" where
  "insort_by lt x [] = [x]"
| "insort_by lt x (y # ys) = (if lt y x then y # insort_by lt x ys else x # y # ys)"

definition sort_by :: "('a \<Rightarrow> 'a \<Rightarrow> bool) \<Rightarrow> 'a list \<Rightarrow> 'a list" where
  "sort_by lt xs = foldr (insort_by lt) xs []"

definition hex_upper :: "nat \<Rightarrow> char" where
  "hex_upper d = (if d < 10 then char_of (48 + d) else char_of (55 + d))"

definition PrintableUnit :: "u16 \<Rightarrow> string" where
  "PrintableUnit unit =
     (if unit \<ge> 0x20 \<and> unit < 0x7F then [char_of (unat unit)]
      else [CHR 0x5C, CHR ''u''] @ map hex_upper
        [unat unit div 4096, unat unit div 256 mod 16, unat unit div 16 mod 16, unat unit mod 16])"

definition PrintableName :: "u16string \<Rightarrow> string" where
  "PrintableName name = concat (map PrintableUnit name)"

definition MsiSignatureName :: u16string where
  "MsiSignatureName = 5 # map (\<lambda>c. word_of_nat (of_char c)) ''DigitalSignature''"

definition MsiSignatureExName :: u16string where
  "MsiSignatureExName = 5 # map (\<lambda>c. word_of_nat (of_char c)) ''MsiDigitalSignatureEx''"

definition IsMsiSignatureName :: "u16string \<Rightarrow> bool" where
  "IsMsiSignatureName name \<longleftrightarrow> name = MsiSignatureName \<or> name = MsiSignatureExName"

definition name_less :: "CfbNode \<Rightarrow> CfbNode \<Rightarrow> bool" where
  "name_less a b \<longleftrightarrow> CompareNames (node_name a) (node_name b) < 0"

text \<open>The first name in a sorted sequence that equals the one before it.\<close>

fun same_neighbours :: "CfbNode list \<Rightarrow> u16string option" where
  "same_neighbours (a # b # rest) =
     (if CompareNames (node_name a) (node_name b) = 0 then Some (node_name b) else same_neighbours (b # rest))"
| "same_neighbours _ = None"

definition RejectDuplicateNames :: "CfbNode \<Rightarrow> unit res" where
  "RejectDuplicateNames storage =
     (case same_neighbours (sort_by name_less (node_children storage)) of
        None \<Rightarrow> Inr ()
      | Some name \<Rightarrow>
          ThrowMalformed cfb_format (''the package holds two entries named '' @ [CHR 0x22] @ PrintableName name @
            [CHR 0x22] @ '' in one storage; no fingerprint is defined''))"

definition Source :: "PackageModel \<Rightarrow> bytes res" where
  "Source m = Data (source m)"

text \<open>A range of bytes goes to the hasher in pieces.\<close>

function HashPieces :: "bytes \<Rightarrow> nat \<Rightarrow> u64 \<Rightarrow> bytes \<Rightarrow> bytes res" where
  "HashPieces block at left hashed =
     (if left = 0 then Inr hashed
      else
        let piece = min left kHashPiece in
        bindE (mem_read block at (unat piece)) (\<lambda>bs.
        HashPieces block (at + unat piece) (left - piece) (hashed @ bs)))"
  by pat_completeness auto
termination
proof (relation "measure (\<lambda>(block, at, left, hashed). unat left)", goal_cases)
  case (2 block at left hashed piece bs)
  then have "unat (left - piece) = unat left - unat piece" by (simp add: unat_diff_nowrap)
  moreover have "0 < unat left" using 2(1) by (simp add: unat_gt_0)
  moreover have "0 < unat piece" using 2(1,2) by (simp add: unat_gt_0 min_def kHashPiece_def)
  ultimately show ?case by simp
qed simp

declare HashPieces.simps [simp del]

definition HashExtent :: "PackageModel \<Rightarrow> bytes \<Rightarrow> ByteExtent \<Rightarrow> bytes res" where
  "HashExtent m hashed extent =
     bindE (Source m) (\<lambda>block. HashPieces block (unat (ext_offset extent)) (ext_length extent) hashed)"

type_synonym hash_state = "PackageModel \<times> u64 \<times> bytes"

definition HashStream :: "ByteOrder \<Rightarrow> hash_state \<Rightarrow> CfbNode \<Rightarrow> hash_state res" where
  "HashStream host = (\<lambda>(m, k, hashed) child.
     case Resolve host m child k of
       (extents, m', k') \<Rightarrow>
         bindE extents (\<lambda>xs. bindE (foldE (HashExtent m') hashed xs) (\<lambda>hashed'. Inr (m', k', hashed'))))"

definition hashed_children :: "CfbNode \<Rightarrow> bool \<Rightarrow> CfbNode list" where
  "hashed_children storage is_root =
     sort_by (\<lambda>a b. RawNameLess (node_name a) (node_name b))
       (filter (\<lambda>child. \<not> (is_root \<and> IsMsiSignatureName (node_name child))) (node_children storage))"

lemma set_insort_by [simp]: "set (insort_by lt x xs) = insert x (set xs)"
  by (induction xs) auto

lemma set_sort_by [simp]: "set (sort_by lt xs) = set xs"
  by (induction xs) (simp_all add: sort_by_def)

lemma child_size: "child \<in> set (node_children storage) \<Longrightarrow> size child < size storage"
  by (cases storage) (auto dest: size_list_estimation' [of _ _ _ size])

function HashStorage :: "ByteOrder \<Rightarrow> CfbNode \<Rightarrow> bool \<Rightarrow> hash_state \<Rightarrow> hash_state res" where
  "HashStorage host storage is_root st =
     bindE (RejectDuplicateNames storage) (\<lambda>_.
     bindE (foldE (\<lambda>st child. if is_storage child then HashStorage host child False st else HashStream host st child)
              st (hashed_children storage is_root)) (\<lambda>(m, k, hashed).
     Inr (m, k, hashed @ class_id storage)))"
  by pat_completeness auto
termination
  by (relation "measure (\<lambda>(host, storage, is_root, st). size storage)")
    (auto simp: hashed_children_def dest: child_size)

declare HashStorage.simps [simp del]

definition ComputeMsiFingerprint :: "(bytes \<Rightarrow> bytes) \<Rightarrow> ByteOrder \<Rightarrow> PackageModel \<Rightarrow> u64 \<Rightarrow> (bytes \<times> PackageModel \<times> u64) res" where
  "ComputeMsiFingerprint sha host m k =
     bindE (HashStorage host (root m) True (m, k, [])) (\<lambda>(m', k', hashed). Inr (sha hashed, m', k'))"

end
