(* ===== verification/Cfb_Writer.thy ===== *)
theory Cfb_Writer
  imports Msi_Authenticode
begin

text \<open>
  \<open>src/internal/CfbWriter.cpp\<close>: the writer of compound files. A package is written whole from the model of the
  old one, and the result is parsed again and compared with what was meant.

  A pointer is a block of bytes with a position in it; a write outside the output, or an access outside a vector, is
  \<open>memory_fault\<close>. The node a sequence points to is paired with whether it is the \<open>signature_node\<close> of the
  flattener.
\<close>

section \<open>Data\<close>

definition kColourBlack :: u8 where "kColourBlack = 1"
definition kFatSector :: u32 where "kFatSector = 0xFFFFFFFD"
definition kDifatSector :: u32 where "kDifatSector = 0xFFFFFFFC"
definition kMiniSectorSize :: u64 where "kMiniSectorSize = 64"
definition kCfbMaxSectors :: u64 where "kCfbMaxSectors = 0xFFFFFFFA"

record Piece =
  pc_block :: bytes
  pc_at :: nat
  pc_length :: u64

record Entry =
  en_node :: CfbNode
  en_pieces :: "Piece list"
  en_children :: "u32 list"
  en_size :: u64
  en_mini :: bool
  en_start :: u32
  en_left :: u32
  en_right :: u32
  en_child :: u32

definition Entry_of :: "CfbNode \<Rightarrow> Entry" where
  "Entry_of node =
     \<lparr>en_node = node, en_pieces = [], en_children = [], en_size = 0, en_mini = False, en_start = kCfbEndOfChain,
      en_left = kCfbNoStream, en_right = kCfbNoStream, en_child = kCfbNoStream\<rparr>"

record Layout =
  ly_sector_size :: u32
  ly_header_size :: u64
  ly_per_index :: u64
  ly_stream_sectors :: u64
  ly_mini_sectors :: u64
  ly_mini_stream_start :: u64
  ly_mini_stream_sectors :: u64
  ly_mini_index_start :: u64
  ly_mini_index_sectors :: u64
  ly_directory_start :: u64
  ly_directory_sectors :: u64
  ly_difat_start :: u64
  ly_difat_sectors :: u64
  ly_fat_start :: u64
  ly_fat_sectors :: u64
  ly_total_sectors :: u64

definition PutLE16 :: "bytes \<Rightarrow> nat \<Rightarrow> u16 \<Rightarrow> bytes res" where
  "PutLE16 out at v = mem_write out at [ucast v, ucast (drop_bit 8 v)]"

definition PutLE32 :: "bytes \<Rightarrow> nat \<Rightarrow> u32 \<Rightarrow> bytes res" where
  "PutLE32 out at v = mem_write out at (map (\<lambda>i. ucast (drop_bit (8 * i) v)) [0..<4])"

definition PutLE64 :: "bytes \<Rightarrow> nat \<Rightarrow> u64 \<Rightarrow> bytes res" where
  "PutLE64 out at v = mem_write out at (map (\<lambda>i. ucast (drop_bit (8 * i) v)) [0..<8])"

section \<open>The tree of entries\<close>

definition signature_node :: "bytes option \<Rightarrow> CfbNode" where
  "signature_node signature =
     CfbNode MsiSignatureName False (replicate 16 0) 0 0 0 kCfbEndOfChain
       (case signature of None \<Rightarrow> 0 | Some bs \<Rightarrow> word_of_nat (length bs)) [] kCfbNone kCfbNone kCfbNone"

type_synonym element = "CfbNode \<times> bool"

definition element_less :: "element \<Rightarrow> element \<Rightarrow> bool" where
  "element_less a b \<longleftrightarrow> CompareNames (node_name (fst a)) (node_name (fst b)) < 0"

definition CheckUniqueNames :: "element list \<Rightarrow> unit res" where
  "CheckUniqueNames sequence =
     (case same_neighbours (map fst (sort_by element_less sequence)) of
        None \<Rightarrow> Inr ()
      | Some name \<Rightarrow>
          ThrowMalformed cfb_format (''the package holds two entries named '' @ [CHR 0x22] @ PrintableName name @
            [CHR 0x22] @ '' in one storage; refusing to rebuild''))"

definition PieceOf :: "PackageModel \<Rightarrow> ByteExtent \<Rightarrow> Piece res" where
  "PieceOf m extent =
     bindE (Source m) (\<lambda>block. Inr \<lparr>pc_block = block, pc_at = unat (ext_offset extent), pc_length = ext_length extent\<rparr>)"

type_synonym flat_state = "PackageModel \<times> u64 \<times> Entry list"

definition AddEntry ::
  "ByteOrder \<Rightarrow> bytes option \<Rightarrow> flat_state \<times> u32 list \<Rightarrow> element \<Rightarrow> (flat_state \<times> u32 list) res" where
  "AddEntry host signature = (\<lambda>((m, k, entries), positions) (node, is_signature).
     let entry = Entry_of node; position = word_of_nat (length entries) in
     if is_storage node then Inr ((m, k, entries @ [entry]), positions @ [position])
     else if is_signature then
       (let bs = (case signature of None \<Rightarrow> [] | Some bs \<Rightarrow> bs); sz = word_of_nat (length bs) in
        Inr ((m, k, entries @ [entry\<lparr>en_size := sz, en_pieces := [\<lparr>pc_block = bs, pc_at = 0, pc_length = sz\<rparr>]\<rparr>]),
          positions @ [position]))
     else
       (case Resolve host m node k of
          (extents, m', k') \<Rightarrow>
            bindE extents (\<lambda>xs. bindE (mapE (PieceOf m') xs) (\<lambda>pieces.
            Inr ((m', k', entries @ [entry\<lparr>en_size := node_size node, en_pieces := pieces\<rparr>]), positions @ [position])))))"

lemma insort_by_size: "size_list f (insort_by lt x xs) = size_list f (x # xs)"
  by (induction xs) auto

lemma sort_by_size: "size_list f (sort_by lt xs) = size_list f xs"
  by (induction xs) (simp_all add: sort_by_def insort_by_size)

lemma children_size: "size_list size (node_children node) < size node"
  by (cases node) simp

function Expand :: "ByteOrder \<Rightarrow> bytes option \<Rightarrow> u32 \<Rightarrow> element list \<Rightarrow> flat_state \<Rightarrow> flat_state res" where
  "Expand host signature parent sequence st =
     bindE (CheckUniqueNames sequence) (\<lambda>_.
     let sorted_sequence = sort_by element_less sequence in
     bindE (foldE (AddEntry host signature) (st, []) sorted_sequence) (\<lambda>((m, k, entries), positions).
     bindE (at_index entries (unat parent)) (\<lambda>parent_entry.
     foldE (\<lambda>st (position, node, _).
        if is_storage node then Expand host signature position (map (\<lambda>child. (child, False)) (node_children node)) st
        else Inr st)
      (m, k, entries[unat parent := parent_entry\<lparr>en_children := positions\<rparr>]) (zip positions sorted_sequence))))"
  by pat_completeness auto
termination
proof (relation "measure (\<lambda>(host, signature, parent, sequence, st). size_list (\<lambda>e. size (fst e)) sequence)", goal_cases)
  case (2 host signature parent "sequence" st u sorted r m y k e entries e' positions parent_entry t x position z node flag)
  then have "(node, flag) \<in> set sequence" by (auto dest: set_zip_rightD)
  from size_list_estimation' [OF this, of "size node" "\<lambda>e. size (fst e)"]
  have "size node \<le> size_list (\<lambda>e. size (fst e)) sequence" by simp
  with children_size [of node] show ?case by (simp add: comp_def)
qed simp

declare Expand.simps [simp del]

text \<open>\<open>Flattener::Run\<close>: the signature goes before the first entry that orders after it.\<close>

definition root_sequence :: "CfbNode \<Rightarrow> bytes option \<Rightarrow> element list" where
  "root_sequence r signature =
     (let kept = map (\<lambda>child. (child, False)) (filter (\<lambda>child. \<not> IsMsiSignatureName (node_name child)) (node_children r)) in
      case signature of
        None \<Rightarrow> kept
      | Some _ \<Rightarrow>
          (let before = takeWhile (\<lambda>e. \<not> CompareNames MsiSignatureName (node_name (fst e)) < 0) kept in
           before @ (signature_node signature, True) # drop (length before) kept))"

definition Flattener_Run :: "ByteOrder \<Rightarrow> PackageModel \<Rightarrow> bytes option \<Rightarrow> u64 \<Rightarrow> flat_state res" where
  "Flattener_Run host m signature k =
     Expand host signature 0 (root_sequence (root m) signature) (m, k, [Entry_of (root m)])"

function BuildEntryTree :: "u32 list \<Rightarrow> nat \<Rightarrow> nat \<Rightarrow> Entry list \<Rightarrow> (u32 \<times> Entry list) res" where
  "BuildEntryTree sequence low high entries =
     (if low \<ge> high then Inr (kCfbNoStream, entries)
      else
        let middle = (low + high) div 2 in
        bindE (at_index sequence middle) (\<lambda>position.
        bindE (BuildEntryTree sequence low middle entries) (\<lambda>(left, entries1).
        bindE (at_index entries1 (unat position)) (\<lambda>e1.
        bindE (BuildEntryTree sequence (middle + 1) high (entries1[unat position := e1\<lparr>en_left := left\<rparr>])) (\<lambda>(right, entries2).
        bindE (at_index entries2 (unat position)) (\<lambda>e2.
        Inr (position, entries2[unat position := e2\<lparr>en_right := right\<rparr>])))))))"
  by pat_completeness auto
termination
  by (relation "measure (\<lambda>(sequence, low, high, entries). high - low)") auto

declare BuildEntryTree.simps [simp del]

section \<open>The layout\<close>

text \<open>The streams of at least the cut-off in sectors, then the others in mini sectors.\<close>

fun PlaceOrdinary :: "CfbHeader \<Rightarrow> u64 \<Rightarrow> Entry list \<Rightarrow> Entry list \<times> u64" where
  "PlaceOrdinary hdr sector [] = ([], sector)"
| "PlaceOrdinary hdr sector (e # es) =
     (if is_storage (en_node e) \<or> en_size e = 0 \<or> en_size e < ucast (mini_stream_cutoff hdr) then
        (case PlaceOrdinary hdr sector es of (es', end) \<Rightarrow> (e # es', end))
      else
        (case PlaceOrdinary hdr (sector + UnitsFor (en_size e) (ucast (sector_size hdr))) es of
           (es', end) \<Rightarrow> (e\<lparr>en_start := ucast sector\<rparr> # es', end)))"

fun PlaceMini :: "CfbHeader \<Rightarrow> u64 \<Rightarrow> Entry list \<Rightarrow> Entry list \<times> u64" where
  "PlaceMini hdr mini [] = ([], mini)"
| "PlaceMini hdr mini (e # es) =
     (if is_storage (en_node e) \<or> en_size e = 0 \<or> en_size e \<ge> ucast (mini_stream_cutoff hdr) then
        (case PlaceMini hdr mini es of (es', end) \<Rightarrow> (e # es', end))
      else
        (case PlaceMini hdr (mini + UnitsFor (en_size e) kMiniSectorSize) es of
           (es', end) \<Rightarrow> (e\<lparr>en_mini := True, en_start := ucast mini\<rparr> # es', end)))"

text \<open>The loop that counts the sectors of the allocation index and of the extended index.\<close>

fun FatLoop :: "nat \<Rightarrow> u64 \<Rightarrow> u64 \<Rightarrow> u64 \<Rightarrow> u64 \<Rightarrow> u64 \<times> u64" where
  "FatLoop 0 others per fat difat = (fat, difat)"
| "FatLoop (Suc steps) others per fat difat =
     (let listed = (if fat > word_of_nat kHeaderDifatEntries then fat - word_of_nat kHeaderDifatEntries else 0);
          difat' = UnitsFor listed (per - 1);
          next_fat = UnitsFor (others + difat' + fat) per in
      if next_fat = fat then (fat, difat') else FatLoop steps others per next_fat difat')"

definition ComputeLayout :: "Entry list \<Rightarrow> CfbHeader \<Rightarrow> (Layout \<times> Entry list) res" where
  "ComputeLayout entries hdr =
     (let ss = ucast (sector_size hdr) :: u64;
          per = ucast (sector_size hdr div 4);
          (entries1, streams) = PlaceOrdinary hdr 0 entries;
          (entries2, mini) = PlaceMini hdr 0 entries1;
          mini_stream_sectors = UnitsFor (mini * kMiniSectorSize) ss;
          mini_index_start = streams + mini_stream_sectors;
          mini_index_sectors = UnitsFor mini per;
          directory_start = mini_index_start + mini_index_sectors;
          directory_sectors = UnitsFor (word_of_nat (length entries2)) (ss div kDirEntrySize);
          difat_start = directory_start + directory_sectors;
          (fat, difat) = FatLoop 64 difat_start per 0 0;
          total = difat_start + difat + fat in
      if total > kCfbMaxSectors then
        ThrowMalformed cfb_format (''the package needs '' @ to_string total @ '' sectors; the format allows at most '' @
          to_string kCfbMaxSectors)
      else Inr (\<lparr>ly_sector_size = sector_size hdr, ly_header_size = (if major_version hdr = 4 then 4096 else 512),
            ly_per_index = per, ly_stream_sectors = streams, ly_mini_sectors = mini, ly_mini_stream_start = streams,
            ly_mini_stream_sectors = mini_stream_sectors, ly_mini_index_start = mini_index_start,
            ly_mini_index_sectors = mini_index_sectors, ly_directory_start = directory_start,
            ly_directory_sectors = directory_sectors, ly_difat_start = difat_start, ly_difat_sectors = difat,
            ly_fat_start = difat_start + difat, ly_fat_sectors = fat, ly_total_sectors = total\<rparr>, entries2))"

section \<open>Serialisation\<close>

text \<open>Several fields at positions from \<open>at\<close>.\<close>

definition PutName :: "nat \<Rightarrow> u16string \<Rightarrow> bytes \<Rightarrow> nat \<Rightarrow> bytes res" where
  "PutName at name out i = PutLE16 out (at + 2 * i) (name ! i)"

definition WriteDirectoryEntry :: "bytes \<Rightarrow> nat \<Rightarrow> Entry \<Rightarrow> bool \<Rightarrow> Layout \<Rightarrow> bytes res" where
  "WriteDirectoryEntry out at entry is_root layout =
     (let node = en_node entry; name = node_name node in
      bindE (foldE (PutName at name) out [0..<length name]) (\<lambda>out.
      bindE (PutLE16 out (at + 64) (word_of_nat ((length name + 1) * 2))) (\<lambda>out.
      bindE (mem_write out (at + 66) [if is_root then kTypeRoot else if is_storage node then kTypeStorage else kTypeStream]) (\<lambda>out.
      bindE (mem_write out (at + 67) [kColourBlack]) (\<lambda>out.
      bindE (PutLE32 out (at + 68) (en_left entry)) (\<lambda>out.
      bindE (PutLE32 out (at + 72) (en_right entry)) (\<lambda>out.
      bindE (PutLE32 out (at + 76) (en_child entry)) (\<lambda>out.
      bindE (mem_write out (at + 80) (class_id node)) (\<lambda>out.
      bindE (PutLE32 out (at + 96) (state_bits node)) (\<lambda>out.
      bindE (PutLE64 out (at + 100) (creation_time node)) (\<lambda>out.
      bindE (PutLE64 out (at + 108) (modification_time node)) (\<lambda>out.
      if is_root then
        bindE (PutLE32 out (at + 116)
          (if ly_mini_sectors layout = 0 then kCfbEndOfChain else ucast (ly_mini_stream_start layout))) (\<lambda>out.
        PutLE64 out (at + 120) (ly_mini_sectors layout * kMiniSectorSize))
      else if is_storage node then PutLE32 out (at + 116) 0
      else
        bindE (PutLE32 out (at + 116) (en_start entry)) (\<lambda>out.
        PutLE64 out (at + 120) (en_size entry))))))))))))))"

definition WriteUnusedEntry :: "bytes \<Rightarrow> nat \<Rightarrow> bytes res" where
  "WriteUnusedEntry out at =
     bindE (PutLE32 out (at + 68) kCfbNoStream) (\<lambda>out.
     bindE (PutLE32 out (at + 72) kCfbNoStream) (\<lambda>out.
     bindE (PutLE32 out (at + 76) kCfbNoStream) (\<lambda>out.
     PutLE32 out (at + 116) kCfbFreeSector)))"

definition SetRun :: "u32 list \<Rightarrow> u64 \<Rightarrow> u64 \<Rightarrow> u32 list res" where
  "SetRun index first count =
     foldE (\<lambda>index i. set_index index (unat (first + word_of_nat i))
              (if word_of_nat i + 1 = count then kCfbEndOfChain else ucast (first + word_of_nat i + 1)))
       index [0..<unat count]"

definition CopyPiece :: "bytes \<times> nat \<Rightarrow> Piece \<Rightarrow> (bytes \<times> nat) res" where
  "CopyPiece = (\<lambda>(out, to) piece.
     bindE (if pc_length piece \<noteq> 0
            then bindE (mem_read (pc_block piece) (pc_at piece) (unat (pc_length piece))) (mem_write out to)
            else Inr out) (\<lambda>out'. Inr (out', to + unat (pc_length piece))))"

definition CopyPieces :: "bytes \<Rightarrow> nat \<Rightarrow> Piece list \<Rightarrow> bytes res" where
  "CopyPieces out to pieces = bindE (foldE CopyPiece (out, to) pieces) (\<lambda>(out', _). Inr out')"

definition sector_at :: "Layout \<Rightarrow> u64 \<Rightarrow> nat" where
  "sector_at layout sector = unat (ly_header_size layout + sector * ucast (ly_sector_size layout))"

text \<open>The tree of each storage.\<close>

definition LinkEntry :: "Entry list \<Rightarrow> nat \<Rightarrow> Entry list res" where
  "LinkEntry entries i =
     bindE (at_index entries i) (\<lambda>e.
     if is_storage (en_node e) then
       bindE (BuildEntryTree (en_children e) 0 (length (en_children e)) entries) (\<lambda>(tree, entries1).
       bindE (at_index entries1 i) (\<lambda>e1. Inr (entries1[i := e1\<lparr>en_child := tree\<rparr>])))
     else Inr entries)"

text \<open>The allocation index.\<close>

definition SetEntryRun :: "Layout \<Rightarrow> u32 list \<Rightarrow> Entry \<Rightarrow> u32 list res" where
  "SetEntryRun layout fat e =
     (if \<not> is_storage (en_node e) \<and> \<not> en_mini e \<and> en_size e \<noteq> 0
      then SetRun fat (ucast (en_start e)) (UnitsFor (en_size e) (ucast (ly_sector_size layout)))
      else Inr fat)"

definition MarkSectors :: "u32 \<Rightarrow> u64 \<Rightarrow> u32 list \<Rightarrow> nat \<Rightarrow> u32 list res" where
  "MarkSectors mark first fat i = set_index fat (unat (first + word_of_nat i)) mark"

definition BuildIndex :: "Layout \<Rightarrow> Entry list \<Rightarrow> u32 list res" where
  "BuildIndex layout entries =
     bindE (foldE (SetEntryRun layout)
              (replicate (unat (ly_fat_sectors layout * ly_per_index layout)) kCfbFreeSector) entries) (\<lambda>fat.
     bindE (SetRun fat (ly_mini_stream_start layout) (ly_mini_stream_sectors layout)) (\<lambda>fat.
     bindE (SetRun fat (ly_mini_index_start layout) (ly_mini_index_sectors layout)) (\<lambda>fat.
     bindE (SetRun fat (ly_directory_start layout) (ly_directory_sectors layout)) (\<lambda>fat.
     bindE (foldE (MarkSectors kDifatSector (ly_difat_start layout)) fat [0..<unat (ly_difat_sectors layout)]) (\<lambda>fat.
     foldE (MarkSectors kFatSector (ly_fat_start layout)) fat [0..<unat (ly_fat_sectors layout)])))))"

text \<open>The bytes of the streams, and the mini index.\<close>

definition WriteStream :: "Layout \<Rightarrow> bytes \<times> u32 list \<Rightarrow> Entry \<Rightarrow> (bytes \<times> u32 list) res" where
  "WriteStream layout = (\<lambda>(out, mini_index) e.
     if is_storage (en_node e) \<or> en_size e = 0 then Inr (out, mini_index)
     else if en_mini e then
       bindE (SetRun mini_index (ucast (en_start e)) (UnitsFor (en_size e) kMiniSectorSize)) (\<lambda>mini_index'.
       bindE (CopyPieces out (sector_at layout (ly_mini_stream_start layout) + unat (ucast (en_start e) * kMiniSectorSize))
                (en_pieces e)) (\<lambda>out'. Inr (out', mini_index')))
     else bindE (CopyPieces out (sector_at layout (ucast (en_start e))) (en_pieces e)) (\<lambda>out'. Inr (out', mini_index)))"

definition WriteWords :: "nat \<Rightarrow> u32 list \<Rightarrow> bytes \<Rightarrow> bytes res" where
  "WriteWords at ws out = foldE (\<lambda>out i. PutLE32 out (at + 4 * i) (ws ! i)) out [0..<length ws]"

definition WriteSlot :: "Layout \<Rightarrow> Entry list \<Rightarrow> bytes \<Rightarrow> nat \<Rightarrow> bytes res" where
  "WriteSlot layout entries out i =
     (let at = sector_at layout (ly_directory_start layout) + unat (word_of_nat i * kDirEntrySize) in
      if i < length entries then WriteDirectoryEntry out at (entries ! i) (i = 0) layout
      else WriteUnusedEntry out at)"

definition WriteDifatEntry :: "Layout \<Rightarrow> nat \<Rightarrow> nat \<Rightarrow> bytes \<Rightarrow> nat \<Rightarrow> bytes res" where
  "WriteDifatEntry layout at d out j =
     (let per_difat = ly_per_index layout - 1;
          listed = word_of_nat kHeaderDifatEntries + word_of_nat d * per_difat + word_of_nat j in
      PutLE32 out (at + 4 * j)
        (if listed < ly_fat_sectors layout then ucast (ly_fat_start layout + listed) else kCfbFreeSector))"

definition WriteDifatSector :: "Layout \<Rightarrow> bytes \<Rightarrow> nat \<Rightarrow> bytes res" where
  "WriteDifatSector layout out d =
     (let per_difat = ly_per_index layout - 1;
          at = sector_at layout (ly_difat_start layout + word_of_nat d) in
      bindE (foldE (WriteDifatEntry layout at d) out [0..<unat per_difat]) (\<lambda>out.
      PutLE32 out (at + 4 * unat per_difat)
        (if word_of_nat d + 1 < ly_difat_sectors layout then ucast (ly_difat_start layout + word_of_nat d + 1)
         else kCfbEndOfChain)))"

definition WriteHeaderFat :: "Layout \<Rightarrow> bytes \<Rightarrow> nat \<Rightarrow> bytes res" where
  "WriteHeaderFat layout out i =
     PutLE32 out (76 + 4 * i)
       (if word_of_nat i < ly_fat_sectors layout then ucast (ly_fat_start layout + word_of_nat i) else kCfbFreeSector)"

definition WriteHeader :: "bytes \<Rightarrow> CfbHeader \<Rightarrow> Layout \<Rightarrow> bytes \<Rightarrow> bytes res" where
  "WriteHeader src hdr layout out =
     bindE (mem_write out 0 kMagic) (\<lambda>out.
     bindE (bindE (mem_read src 8 16) (mem_write out 8)) (\<lambda>out.
     bindE (PutLE16 out 24 (minor_version hdr)) (\<lambda>out.
     bindE (PutLE16 out 26 (major_version hdr)) (\<lambda>out.
     bindE (PutLE16 out 28 0xFFFE) (\<lambda>out.
     bindE (PutLE16 out 30 (if major_version hdr = 4 then 12 else 9)) (\<lambda>out.
     bindE (PutLE16 out 32 6) (\<lambda>out.
     bindE (PutLE32 out 40 (if major_version hdr = 4 then ucast (ly_directory_sectors layout) else 0)) (\<lambda>out.
     bindE (PutLE32 out 44 (ucast (ly_fat_sectors layout))) (\<lambda>out.
     bindE (PutLE32 out 48 (ucast (ly_directory_start layout))) (\<lambda>out.
     bindE (bindE (mem_read src 52 4) (mem_write out 52)) (\<lambda>out.
     bindE (PutLE32 out 56 (mini_stream_cutoff hdr)) (\<lambda>out.
     bindE (PutLE32 out 60 (if ly_mini_index_sectors layout = 0 then kCfbEndOfChain else ucast (ly_mini_index_start layout))) (\<lambda>out.
     bindE (PutLE32 out 64 (ucast (ly_mini_index_sectors layout))) (\<lambda>out.
     bindE (PutLE32 out 68 (if ly_difat_sectors layout = 0 then kCfbEndOfChain else ucast (ly_difat_start layout))) (\<lambda>out.
     bindE (PutLE32 out 72 (ucast (ly_difat_sectors layout))) (\<lambda>out.
     foldE (WriteHeaderFat layout) out [0..<kHeaderDifatEntries]))))))))))))))))"

definition Serialise :: "u64 \<Rightarrow> PackageModel \<Rightarrow> Entry list \<Rightarrow> Layout \<Rightarrow> (bytes \<times> Entry list) res" where
  "Serialise size_max m entries layout =
     (let ss = ucast (ly_sector_size layout) :: u64 in
      bindE (ToSize size_max (ly_header_size layout + ly_total_sectors layout * ss) cfb_format ''package size'') (\<lambda>total.
      bindE (foldE LinkEntry entries [0..<length entries]) (\<lambda>entries.
      bindE (BuildIndex layout entries) (\<lambda>fat.
      bindE (foldE (WriteStream layout)
               (replicate (unat total) 0,
                replicate (unat (ly_mini_index_sectors layout * ly_per_index layout)) kCfbFreeSector) entries) (\<lambda>(out, mini_index).
      bindE (WriteWords (sector_at layout (ly_mini_index_start layout)) mini_index out) (\<lambda>out.
      bindE (foldE (WriteSlot layout entries) out [0..<unat (ly_directory_sectors layout * (ss div kDirEntrySize))]) (\<lambda>out.
      bindE (WriteWords (sector_at layout (ly_fat_start layout)) fat out) (\<lambda>out.
      bindE (foldE (WriteDifatSector layout) out [0..<unat (ly_difat_sectors layout)]) (\<lambda>out.
      bindE (Source m) (\<lambda>src.
      bindE (WriteHeader src (header m) layout out) (\<lambda>out. Inr (out, entries))))))))))))"

section \<open>The self-check\<close>

definition ThrowDifference :: "u16string \<Rightarrow> string \<Rightarrow> 'a res" where
  "ThrowDifference name what =
     ThrowMalformed cfb_format (''internal error: the rebuilt package differs from the intended one ('' @ what @
       '' of '' @ [CHR 0x22] @ PrintableName name @ [CHR 0x22] @ '')'')"

text \<open>The pieces left of two sequences, and how much of the first piece of each was compared.\<close>

function SameBytes :: "Piece list \<Rightarrow> Piece list \<Rightarrow> u64 \<Rightarrow> u64 \<Rightarrow> bool res" where
  "SameBytes (a # as) (b # bs) used_a used_b =
     (let left_a = pc_length a - used_a; left_b = pc_length b - used_b; amount = min left_a left_b in
      bindE (if amount \<noteq> 0 then
               bindE (mem_read (pc_block a) (pc_at a + unat used_a) (unat amount)) (\<lambda>xs.
               bindE (mem_read (pc_block b) (pc_at b + unat used_b) (unat amount)) (\<lambda>ys. Inr (xs = ys)))
             else Inr True) (\<lambda>same.
      if \<not> same then Inr False
      else
        let ended_a = (used_a + amount = pc_length a); ended_b = (used_b + amount = pc_length b) in
        SameBytes (if ended_a then as else a # as) (if ended_b then bs else b # bs)
          (if ended_a then 0 else used_a + amount) (if ended_b then 0 else used_b + amount)))"
| "SameBytes [] bs used_a used_b = Inr (dropWhile (\<lambda>p. pc_length p = 0) bs = [])"
| "SameBytes (a # as) [] used_a used_b = Inr (dropWhile (\<lambda>p. pc_length p = 0) (a # as) = [])"
  by pat_completeness auto
termination
  by (relation "measure (\<lambda>(as, bs, used_a, used_b). length as + length bs)") (auto simp: min_def)

declare SameBytes.simps [simp del]

definition CheckStream :: "ByteOrder \<Rightarrow> Entry \<Rightarrow> CfbNode \<Rightarrow> PackageModel \<times> u64 \<Rightarrow> (PackageModel \<times> u64) res" where
  "CheckStream host entry got = (\<lambda>(check, k).
     case Resolve host check got k of
       (extents, check', k') \<Rightarrow>
         bindE extents (\<lambda>xs.
         bindE (mapE (PieceOf check') xs) (\<lambda>written.
         bindE (SameBytes (en_pieces entry) written 0 0) (\<lambda>same.
         if \<not> same then ThrowDifference (node_name (en_node entry)) ''bytes'' else Inr (check', k')))))"

function CompareEntry :: "ByteOrder \<Rightarrow> Entry list \<Rightarrow> u32 \<Rightarrow> CfbNode \<Rightarrow> PackageModel \<times> u64 \<Rightarrow> (PackageModel \<times> u64) res" where
  "CompareEntry host entries position got st =
     bindE (at_index entries (unat position)) (\<lambda>entry.
     let want = en_node entry in
     if node_name want \<noteq> node_name got then ThrowDifference (node_name want) ''name''
     else if is_storage want \<noteq> is_storage got then ThrowDifference (node_name want) ''kind''
     else if class_id want \<noteq> class_id got then ThrowDifference (node_name want) ''class identifier''
     else if state_bits want \<noteq> state_bits got then ThrowDifference (node_name want) ''state bits''
     else if creation_time want \<noteq> creation_time got \<or> modification_time want \<noteq> modification_time got then
       ThrowDifference (node_name want) ''times''
     else if \<not> is_storage want then
       (if en_size entry \<noteq> node_size got then ThrowDifference (node_name want) ''size''
        else CheckStream host entry got st)
     else if length (en_children entry) \<noteq> length (node_children got) then
       ThrowDifference (node_name want) ''entry count''
     else
       foldE (\<lambda>st (i, child_position, child).
         bindE (at_index entries (unat child_position)) (\<lambda>child_entry.
         bindE (FindBySearch got (node_name (en_node child_entry))) (\<lambda>found.
         if found \<noteq> Some i then ThrowDifference (node_name (en_node child_entry)) ''place in the search tree''
         else CompareEntry host entries child_position child st)))
       st (zip [0..<length (en_children entry)] (zip (en_children entry) (node_children got))))"
  by pat_completeness auto
termination
  by (relation "measure (\<lambda>(host, entries, position, got, st). size got)")
    (auto dest!: set_zip_rightD child_size)

declare CompareEntry.simps [simp del]

definition WriteCfb ::
  "u64 \<Rightarrow> ByteOrder \<Rightarrow> PackageModel \<Rightarrow> bytes option \<Rightarrow> u64 \<Rightarrow> (bytes \<times> PackageModel \<times> u64) res" where
  "WriteCfb size_max host m signature k =
     (let signature = (if signature = Some [] then None else signature) in
      bindE (Flattener_Run host m signature k) (\<lambda>(m, k, entries).
      bindE (ComputeLayout entries (header m)) (\<lambda>(layout, entries).
      bindE (Serialise size_max m entries layout) (\<lambda>(out, entries).
      bindE (CfbReader_ParseBytes host out) (\<lambda>check.
      bindE (CompareEntry host entries 0 (root check) (check, k)) (\<lambda>(_, k').
      Inr (out, m, k')))))))"

end
