(* ===== verification/Cfb_Order.thy ===== *)
theory Cfb_Order
  imports Cfb_Sharing "HOL-Library.Multiset"
begin

text \<open>
  Which sequences of \<open>Resolve\<close> calls succeed on a package, and that their order does not matter: a call
  succeeds exactly when the stream alone is well formed (\<open>solo\<close>) and nothing it needs was given away before.
\<close>

section \<open>Chains\<close>

lemma FatEntry_same: "same_package m m' \<Longrightarrow> FatEntry host m' = FatEntry host m"
  by (simp add: FatEntry_def same_package_def SectorStart_def HeaderSize_def fun_eq_iff)

lemma WalkChain_same:
  "same_package m m' \<Longrightarrow> WalkChain host m' start ow i what acc = WalkChain host m start ow i what acc"
proof (induction host m start ow i what acc rule: WalkChain.induct)
  case (1 host m current ow i what acc)
  have eqs: "FatSize m' = FatSize m" "SectorCount m' = SectorCount m" "FatEntry host m' = FatEntry host m"
    using 1(2) same_package_eqs(4) [OF 1(2)] FatEntry_same [OF 1(2)] by (simp_all add: FatSize_def same_package_def)
  show ?case
    using 1 unfolding WalkChain.simps [of host m' current] WalkChain.simps [of host m current] eqs
    by (simp split: sum.split)
qed

lemma WalkChain_transfer:
  assumes pkg: "pkg_ok m c"
  shows "owners_ok ow (unat (SectorCount m)) \<Longrightarrow> owners_ok ow2 (unat (SectorCount m)) \<Longrightarrow>
    WalkChain host m start ow i what acc = (Inr (acc @ ss), ow') \<Longrightarrow>
    \<forall>s \<in> set ss. Owners_Get ow2 s = Inr 0 \<Longrightarrow> j \<noteq> 0 \<Longrightarrow>
    \<exists>ow2'. WalkChain host m start ow2 j what acc = (Inr (acc @ ss), ow2')"
proof (induction ss arbitrary: start ow ow2 acc)
  case Nil
  from WalkChain_spec [OF pkg Nil.prems(1,3)] have "start = kCfbEndOfChain"
    by (auto simp: walked_def)
  then show ?case by (simp add: WalkChain.simps)
next
  case (Cons s ss)
  let ?n = "unat (SectorCount m)"
  from WalkChain_spec [OF pkg Cons.prems(1,3)]
  have w: "walked (fat_value m c) ?n start ow ow' i (s # ss)" by auto
  then have start: "start = s" "s \<noteq> kCfbEndOfChain" "s \<notin> set ss" by (simp_all add: walked_def)
  have run: "\<not> ucast s \<ge> FatSize m" "\<not> ucast s \<ge> SectorCount m"
    and step: "\<exists>ow1. Owners_Set ow s i = Inr ow1 \<and> (\<exists>following. FatEntry host m s = Inr following \<and>
      WalkChain host m following ow1 i what (acc @ [s]) = (Inr ((acc @ [s]) @ ss), ow'))"
    using Cons.prems(3) start WalkChain.simps [of host m s ow i what acc]
    by (auto simp: ThrowMalformed_def split: if_splits sum.splits)
  from step obtain ow1 following where one: "Owners_Set ow s i = Inr ow1" "FatEntry host m s = Inr following"
    "WalkChain host m following ow1 i what (acc @ [s]) = (Inr ((acc @ [s]) @ ss), ow')" by auto
  have n: "unat s < ?n" using run by (simp add: not_le ucast_less_nat)
  have ok1: "owners_ok ow1 ?n" using owners_set [OF Cons.prems(1) n, of i] one(1) by auto
  obtain ow21 where two: "Owners_Set ow2 s j = Inr ow21" "owners_ok ow21 ?n"
    using owners_set [OF Cons.prems(2) n, of j] by blast
  have "\<forall>t \<in> set ss. Owners_Get ow21 t = Inr 0"
    using Cons.prems(4) Owners_Get_Set [OF two(1)] start(3) by auto
  from Cons.IH [OF ok1 two(2) one(3) this Cons.prems(5)] obtain ow2' where
    "WalkChain host m following ow21 j what (acc @ [s]) = (Inr (acc @ s # ss), ow2')" by auto
  then show ?case
    using start run two(1) one(2) Cons.prems(4,5) WalkChain.simps [of host m s ow2 j what acc] by auto
qed

lemma WalkMini_transfer:
  "length ow = length fat \<Longrightarrow> length ow2 = length fat \<Longrightarrow> WalkMini fat start ow i acc = (Inr (acc @ ss), ow') \<Longrightarrow>
    \<forall>s \<in> set ss. ow2 ! unat s = 0 \<Longrightarrow> j \<noteq> 0 \<Longrightarrow> \<exists>ow2'. WalkMini fat start ow2 j acc = (Inr (acc @ ss), ow2')"
proof (induction ss arbitrary: start ow ow2 acc)
  case Nil
  from WalkMini_spec [OF Nil.prems(1,3)] have "start = kCfbEndOfChain" by (auto simp: mini_walked_def)
  then show ?case by (simp add: WalkMini.simps)
next
  case (Cons s ss)
  from WalkMini_spec [OF Cons.prems(1,3)] have w: "mini_walked fat start ow ow' i (s # ss)" by auto
  then have start: "start = s" "s \<noteq> kCfbEndOfChain" "s \<notin> set ss" "unat s < length fat" by (simp_all add: mini_walked_def)
  have one: "WalkMini fat (fat ! unat s) (ow[unat s := i]) i (acc @ [s]) = (Inr ((acc @ [s]) @ ss), ow')"
    using Cons.prems(1,3) start WalkMini.simps [of fat s ow i acc] by (auto simp: ThrowMalformed_def split: if_splits)
  have "\<forall>t \<in> set ss. ow2[unat s := j] ! unat t = 0"
  proof
    fix t assume t: "t \<in> set ss"
    with start(3) have "unat s \<noteq> unat t" by (metis word_unat_eq_iff)
    with t Cons.prems(4) show "ow2[unat s := j] ! unat t = 0" by simp
  qed
  from Cons.IH [OF _ _ one this Cons.prems(5)] Cons.prems(1,2) obtain ow2' where
    "WalkMini fat (fat ! unat s) (ow2[unat s := j]) j (acc @ [s]) = (Inr (acc @ s # ss), ow2')" by auto
  then show ?case
    using start Cons.prems(2,4,5) WalkMini.simps [of fat s ow2 j acc] by auto
qed

section \<open>The state of a model in sets\<close>

text \<open>The chain of a stream of sectors and of a stream of mini sectors, walked on empty tables.\<close>

definition solo_chain :: "ByteOrder \<Rightarrow> PackageModel \<Rightarrow> u32 \<Rightarrow> u32 list res" where
  "solo_chain host m start = FollowChain host m start ''stream''"

definition solo_mini :: "PackageModel \<Rightarrow> u32 \<Rightarrow> u32 list res" where
  "solo_mini m start = fst (WalkMini (mini_fat m) start (replicate (length (mini_fat m)) 0) 1 [])"

lemma model_pkg: "model_ok m c \<Longrightarrow> pkg_ok m c"
  by (simp add: model_ok_def)

lemma WalkStream_iff:
  assumes ok: "model_ok m' c" and same: "same_package m m'"
  shows "WalkStream host m' start = (Inr ss, m'') \<Longrightarrow>
      solo_chain host m start = Inr ss \<and> (\<forall>s \<in> set ss. \<not> owned m' s) \<and> (ss \<noteq> [] \<longrightarrow> last_owner m' + 1 \<noteq> 0) \<and>
      owned m'' = (\<lambda>s. owned m' s \<or> s \<in> set ss) \<and> last_owner m'' = last_owner m' + 1"
    and "solo_chain host m start = Inr ss \<Longrightarrow> \<forall>s \<in> set ss. \<not> owned m' s \<Longrightarrow> last_owner m' + 1 \<noteq> 0 \<Longrightarrow>
      \<exists>m''. WalkStream host m' start = (Inr ss, m'')"
proof -
  let ?m1 = "with_sector_owner m'" and ?i = "last_owner m' + 1" and ?n = "unat (SectorCount m)"
  have same1: "same_package m ?m1" using same by (simp add: with_sector_owner_def same_package_def)
  have lo: "last_owner ?m1 = last_owner m'" by (simp add: with_sector_owner_def)
  have unfold: "WalkStream host m' start =
    (case WalkChain host m start (owners_before m') ?i ''stream'' [] of
       (r, ow) \<Rightarrow> (r, ?m1\<lparr>last_owner := ?i, sector_owner := ow\<rparr>))"
    unfolding WalkStream_def Let_def lo WalkChain_same [OF same1] owners_before_def ..
  have pkg: "pkg_ok m c" using ok same_package_eqs(3) [OF same] by (simp add: model_ok_def)
  have n: "unat (SectorCount m') = ?n" using same_package_eqs(4) [OF same] by simp
  have table: "owners_ok (owners_before m') ?n" using owners_before_ok(1) [OF ok] n by simp
  have new: "owners_ok (SectorOwners_new (SectorCount m)) ?n"
    and new_get: "unat s < ?n \<Longrightarrow> Owners_Get (SectorOwners_new (SectorCount m)) s = Inr 0" for s
    using owners_new [of "SectorCount m"] SectorCount_bound [OF pkg] by simp_all
  show "solo_chain host m start = Inr ss \<and> (\<forall>s \<in> set ss. \<not> owned m' s) \<and> (ss \<noteq> [] \<longrightarrow> ?i \<noteq> 0) \<and>
      owned m'' = (\<lambda>s. owned m' s \<or> s \<in> set ss) \<and> last_owner m'' = ?i"
    if run: "WalkStream host m' start = (Inr ss, m'')"
  proof -
    obtain ow where w: "WalkChain host m start (owners_before m') ?i ''stream'' [] = (Inr ss, ow)"
      and m'': "m'' = ?m1\<lparr>last_owner := ?i, sector_owner := ow\<rparr>"
      using run by (auto simp: unfold split: prod.splits)
    from WalkChain_spec [OF pkg table w] have wd: "walked (fat_value m c) ?n start (owners_before m') ow ?i ss" by auto
    note sp = WalkStream_spec [OF ok run] and sh = WalkStream_sharing [OF ok run]
    have "\<forall>s \<in> set ss. Owners_Get (SectorOwners_new (SectorCount m)) s = Inr 0"
      using wd new_get by (auto simp: walked_def)
    from WalkChain_transfer [OF pkg table new _ this, of host start ?i "''stream''" "[]" ow 1] w
    have solo: "solo_chain host m start = Inr ss" by (auto simp: solo_chain_def FollowChain_def)
    have "owners_before m'' = ow"
      using sp(7) owners_before_settled [of m''] same_package_eqs(4) [OF sp(2)] m'' by simp
    then have "owned m'' s \<longleftrightarrow> owned m' s \<or> s \<in> set ss" for s
      using wd unfolding owned_def walked_def by (cases ss) auto
    then show ?thesis using solo sh(7) [of ss] wd m'' by (auto simp: walked_def)
  qed
  show "\<exists>m''. WalkStream host m' start = (Inr ss, m'')"
    if solo: "solo_chain host m start = Inr ss" and free: "\<forall>s \<in> set ss. \<not> owned m' s" and i: "?i \<noteq> 0"
  proof -
    obtain ow where w: "WalkChain host m start (SectorOwners_new (SectorCount m)) 1 ''stream'' [] = (Inr ([] @ ss), ow)"
      using solo by (cases "WalkChain host m start (SectorOwners_new (SectorCount m)) 1 ''stream'' []")
        (auto simp: solo_chain_def FollowChain_def)
    from WalkChain_spec [OF pkg new w] have "\<forall>s \<in> set ss. unat s < ?n" by (auto simp: walked_def)
    then have "\<forall>s \<in> set ss. Owners_Get (owners_before m') s = Inr 0"
      using free owners_get [OF table] unfolding owned_def by fastforce
    from WalkChain_transfer [OF pkg new table w this i] show ?thesis by (auto simp: unfold)
  qed
qed

lemma WalkMiniChain_iff:
  assumes same: "same_package m m'"
  shows "WalkMiniChain m' start i = (Inr ss, m'') \<Longrightarrow>
      solo_mini m start = Inr ss \<and> (\<forall>s \<in> set ss. \<not> mini_owned m' (unat s)) \<and> (ss \<noteq> [] \<longrightarrow> i \<noteq> 0) \<and>
      mini_owned m'' = (\<lambda>k. mini_owned m' k \<or> k \<in> unat ` set ss)"
    and "solo_mini m start = Inr ss \<Longrightarrow> \<forall>s \<in> set ss. \<not> mini_owned m' (unat s) \<Longrightarrow> i \<noteq> 0 \<Longrightarrow>
      \<exists>m''. WalkMiniChain m' start i = (Inr ss, m'')"
proof -
  let ?f = "mini_fat m" and ?new = "replicate (length (mini_fat m)) 0 :: u32 list"
  define ow0 where "ow0 = (if length (mini_owner m') \<noteq> length ?f then ?new else mini_owner m')"
  have fat: "mini_fat m' = ?f" using same by (simp add: same_package_def)
  have unfold: "WalkMiniChain m' start i = (case WalkMini ?f start ow0 i [] of (r, ow) \<Rightarrow> (r, m'\<lparr>mini_owner := ow\<rparr>))"
    by (simp add: WalkMiniChain_def fat Let_def ow0_def)
  have len: "length ow0 = length ?f" "length ?new = length ?f" by (simp_all add: ow0_def)
  have owned_iff: "mini_owned m' k \<longleftrightarrow> k < length ?f \<and> ow0 ! k \<noteq> 0" for k
    by (auto simp: mini_owned_def fat ow0_def)
  show "solo_mini m start = Inr ss \<and> (\<forall>s \<in> set ss. \<not> mini_owned m' (unat s)) \<and> (ss \<noteq> [] \<longrightarrow> i \<noteq> 0) \<and>
      mini_owned m'' = (\<lambda>k. mini_owned m' k \<or> k \<in> unat ` set ss)"
    if run: "WalkMiniChain m' start i = (Inr ss, m'')"
  proof -
    obtain ow where w: "WalkMini ?f start ow0 i [] = (Inr ([] @ ss), ow)" and m'': "m'' = m'\<lparr>mini_owner := ow\<rparr>"
      using run by (auto simp: unfold split: prod.splits)
    from WalkMini_spec [OF len(1) w] have wd: "mini_walked ?f start ow0 ow i ss" and len': "length ow = length ?f"
      using len(1) by (auto simp: mini_claims_def)
    have small: "\<forall>s \<in> set ss. unat s < length ?f" using wd unfolding mini_walked_def by blast
    then have "\<forall>s \<in> set ss. ?new ! unat s = 0" by simp
    from WalkMini_transfer [OF len w this, of 1] have solo: "solo_mini m start = Inr ss" by (auto simp: solo_mini_def)
    have "mini_owned m'' k \<longleftrightarrow> mini_owned m' k \<or> k \<in> unat ` set ss" for k
    proof -
      have "mini_owned m'' k \<longleftrightarrow> k < length ?f \<and> ow ! k \<noteq> 0" using len' by (auto simp: mini_owned_def m'' fat)
      moreover have "k < length ?f \<Longrightarrow> ow ! k = (if k \<in> unat ` set ss then i else ow0 ! k)"
        using wd len(1) unfolding mini_walked_def by simp
      moreover have "i \<noteq> 0 \<and> k < length ?f" if "k \<in> unat ` set ss"
        using that wd small by (cases ss) (auto simp: mini_walked_def)
      ultimately show ?thesis unfolding owned_iff by (cases "k < length ?f"; cases "k \<in> unat ` set ss") simp_all
    qed
    then show ?thesis using solo wd WalkMiniChain_sharing(6) [OF run] by (auto simp: mini_walked_def)
  qed
  show "\<exists>m''. WalkMiniChain m' start i = (Inr ss, m'')"
    if solo: "solo_mini m start = Inr ss" and free: "\<forall>s \<in> set ss. \<not> mini_owned m' (unat s)" and i: "i \<noteq> 0"
  proof -
    obtain ow where w: "WalkMini ?f start ?new 1 [] = (Inr ([] @ ss), ow)"
      using solo by (cases "WalkMini ?f start ?new 1 []") (auto simp: solo_mini_def)
    from WalkMini_spec [OF len(2) w] have "mini_walked ?f start ?new ow 1 ss" by auto
    then have "\<forall>s \<in> set ss. unat s < length ?f" unfolding mini_walked_def by blast
    then have "\<forall>s \<in> set ss. ow0 ! unat s = 0" using free owned_iff by blast
    from WalkMini_transfer [OF len(2,1) w this i] show ?thesis by (auto simp: unfold)
  qed
qed

section \<open>One call\<close>

definition small :: "CfbNode \<Rightarrow> bool" where
  "small n \<longleftrightarrow> \<not> is_storage n \<and> node_size n \<noteq> 0 \<and> node_size n < 4096"

definition big :: "CfbNode \<Rightarrow> bool" where
  "big n \<longleftrightarrow> \<not> is_storage n \<and> \<not> node_size n < 4096"

definition ordinary_body :: "PackageModel \<Rightarrow> CfbNode \<Rightarrow> u32 list \<Rightarrow> ByteExtent list res" where
  "ordinary_body m n chain =
     bindE (CheckChainLength (node_size n) (word_of_nat (length chain)) (ucast (sector_size (header m))) ''sectors'') (\<lambda>_.
     bindE (foldE (OrdinaryExtent m) ([], node_size n) chain) (\<lambda>(extents, _). Inr extents))"

definition mini_body :: "PackageModel \<Rightarrow> u32 list \<Rightarrow> CfbNode \<Rightarrow> u32 list \<Rightarrow> ByteExtent list res" where
  "mini_body m box n chain =
     bindE (CheckChainLength (node_size n) (word_of_nat (length chain)) (ucast (mini_sector_size (header m))) ''mini sectors'') (\<lambda>_.
     bindE (foldE (MiniExtent (m\<lparr>mini_container_chain := box\<rparr>)) ([], node_size n) chain) (\<lambda>(extents, _). Inr extents))"

definition box_body :: "PackageModel \<Rightarrow> u32 list \<Rightarrow> u32 list res" where
  "box_body m chain =
     (let needed = UnitsFor (mini_container_size m) (ucast (sector_size (header m))) in
      if word_of_nat (length chain) < needed then
        ThrowMalformed cfb_format (''stream size '' @ to_string (mini_container_size m) @
          '' exceeds its chain of '' @ dec (length chain) @ '' sectors'')
      else bindE (foldE (ContainerSector m chain) (mini_container_size m) [0..<unat needed]) (\<lambda>_. Inr chain))"

text \<open>The chain of the mini stream, if it is well formed.\<close>

definition solo_box :: "ByteOrder \<Rightarrow> PackageModel \<Rightarrow> u32 list res" where
  "solo_box host m =
     (if mini_container_size m = 0 then Inr []
      else bindE (solo_chain host m (mini_container_start m)) (box_body m))"

definition solo :: "ByteOrder \<Rightarrow> PackageModel \<Rightarrow> CfbNode \<Rightarrow> ByteExtent list res" where
  "solo host m n =
     (if big n then bindE (solo_chain host m (start_sector n)) (ordinary_body m n)
      else if small n then
        bindE (solo_box host m) (\<lambda>box. bindE (solo_mini m (start_sector n)) (mini_body m box n))
      else Inr [])"

definition chain_set :: "'a list res \<Rightarrow> 'a set" where
  "chain_set r = (case r of Inl _ \<Rightarrow> {} | Inr ss \<Rightarrow> set ss)"

definition sectors :: "ByteOrder \<Rightarrow> PackageModel \<Rightarrow> CfbNode \<Rightarrow> u32 set" where
  "sectors host m n = (if big n then chain_set (solo_chain host m (start_sector n)) else {})"

definition minis :: "PackageModel \<Rightarrow> CfbNode \<Rightarrow> nat set" where
  "minis m n = (if small n then unat ` chain_set (solo_mini m (start_sector n)) else {})"

definition box_sectors :: "ByteOrder \<Rightarrow> PackageModel \<Rightarrow> u32 set" where
  "box_sectors host m = chain_set (solo_box host m)"

text \<open>How many owner numbers a call uses.\<close>

definition cost :: "PackageModel \<Rightarrow> bool \<Rightarrow> CfbNode \<Rightarrow> nat" where
  "cost m r n = (if big n \<or> small n \<and> (r \<or> mini_container_size m = 0) then 1 else if small n then 2 else 0)"

definition state_is ::
  "ByteOrder \<Rightarrow> PackageModel \<Rightarrow> bytes \<Rightarrow> u32 set \<Rightarrow> nat set \<Rightarrow> bool \<Rightarrow> nat \<Rightarrow> PackageModel \<Rightarrow> bool" where
  "state_is host m c S V r L m' \<longleftrightarrow>
     model_ok m' c \<and> same_package m m' \<and> owned m' = (\<lambda>s. s \<in> S) \<and> mini_owned m' = (\<lambda>k. k \<in> V) \<and>
     mini_container_ready m' = r \<and> (if r then solo_box host m = Inr (mini_container_chain m') else mini_container_chain m' = []) \<and>
     unat (last_owner m') = L"

lemma same_bodies:
  assumes "same_package m m'"
  shows "ordinary_body m' = ordinary_body m" and "mini_body m' = mini_body m" and "box_body m' = box_body m"
proof -
  have f: "source m' = source m" "header m' = header m" "mini_container_size m' = mini_container_size m"
    using assms by (simp_all add: same_package_def)
  have g: "SectorStart m' = SectorStart m" "SectorStart (m'\<lparr>mini_container_chain := box\<rparr>) = SectorStart m"
    "SectorStart (m\<lparr>mini_container_chain := box\<rparr>) = SectorStart m" for box
    by (simp_all add: SectorStart_def HeaderSize_def f fun_eq_iff)
  have "OrdinaryExtent m' st s = OrdinaryExtent m st s" for st s unfolding OrdinaryExtent_def SectorPastEnd_def f g ..
  then have o: "OrdinaryExtent m' = OrdinaryExtent m" by (intro ext)
  show "ordinary_body m' = ordinary_body m" by (intro ext) (simp only: ordinary_body_def f o)
  have "MiniExtent (m'\<lparr>mini_container_chain := box\<rparr>) st s = MiniExtent (m\<lparr>mini_container_chain := box\<rparr>) st s" for box st s
    unfolding MiniExtent_def g by (simp add: f cong: if_cong)
  then have mi: "MiniExtent (m'\<lparr>mini_container_chain := box\<rparr>) = MiniExtent (m\<lparr>mini_container_chain := box\<rparr>)" for box by (intro ext)
  show "mini_body m' = mini_body m" by (intro ext) (simp only: mini_body_def f mi)
  have "ContainerSector m' ch st k = ContainerSector m ch st k" for ch st k
    unfolding ContainerSector_def SectorPastEnd_def f g ..
  then have cs: "ContainerSector m' = ContainerSector m" by (intro ext)
  show "box_body m' = box_body m" by (intro ext) (simp only: box_body_def f cs)
qed

lemma UnitsFor_pos: "n \<noteq> 0 \<Longrightarrow> 0 < unat unit \<Longrightarrow> UnitsFor n unit \<noteq> 0"
  using UnitsFor_nat [of unit n] by (auto simp: unat_eq_0 [symmetric] div_eq_0_iff unat_gt_0 [symmetric])

lemma box_body_Inr: "box_body m ch = Inr ss \<Longrightarrow> ss = ch"
  by (auto simp: box_body_def Let_def ThrowMalformed_def split: if_splits)

lemma body_nonempty:
  assumes "header_ok m"
  shows "ordinary_body m n chain = Inr xs \<Longrightarrow> node_size n \<noteq> 0 \<Longrightarrow> chain \<noteq> []"
    and "mini_body m box n chain = Inr xs \<Longrightarrow> node_size n \<noteq> 0 \<Longrightarrow> chain \<noteq> []"
    and "box_body m chain = Inr ss \<Longrightarrow> mini_container_size m \<noteq> 0 \<Longrightarrow> chain \<noteq> [] \<and> ss = chain"
proof -
  have u: "0 < unat (ucast (sector_size (header m)) :: u64)" "0 < unat (ucast (mini_sector_size (header m)) :: u64)"
    using assms by (auto simp: header_ok_def)
  show "chain \<noteq> []" if "ordinary_body m n chain = Inr xs" "node_size n \<noteq> 0"
    using that CheckChainLength_Inr UnitsFor_pos [OF that(2) u(1)] by (fastforce simp: ordinary_body_def)
  show "chain \<noteq> []" if "mini_body m box n chain = Inr xs" "node_size n \<noteq> 0"
    using that CheckChainLength_Inr UnitsFor_pos [OF that(2) u(2)] by (fastforce simp: mini_body_def)
  show "chain \<noteq> [] \<and> ss = chain" if "box_body m chain = Inr ss" "mini_container_size m \<noteq> 0"
    using that UnitsFor_pos [OF that(2) u(1)]
    by (auto simp: box_body_def Let_def ThrowMalformed_def word_less_nat_alt unat_gt_0 split: if_splits)
qed

lemma owner_next:
  assumes "(i :: u32) + 1 \<noteq> 0"
  shows "unat (i + 1) = unat i + 1"
proof -
  have "unat (i + 1) \<noteq> 0" using assms by (simp add: unat_eq_zero)
  moreover have "unat (i + 1) = (unat i + 1) mod 4294967296" by (simp add: unat_word_ariths)
  moreover have "unat i < 4294967296" by (rule unat_u32_less)
  ultimately show ?thesis by (cases "unat i + 1 = 4294967296") simp_all
qed

lemma state_is_pkg: "state_is host m c S V r L m' \<Longrightarrow> pkg_ok m c"
  using same_package_eqs(3) by (auto simp: state_is_def model_ok_def)

lemma Resolve_big:
  assumes st: "state_is host m c S V r L m'" and n: "big n"
  shows "Resolve host m' n k = (Inr xs, m'', k'') \<Longrightarrow>
      solo host m n = Inr xs \<and> sectors host m n \<inter> S = {} \<and> L + 1 < 2 ^ 32 \<and>
      state_is host m c (S \<union> sectors host m n) V r (L + 1) m''"
    and "solo host m n = Inr xs \<Longrightarrow> sectors host m n \<inter> S = {} \<Longrightarrow> L + 1 < 2 ^ 32 \<Longrightarrow>
      \<exists>m'' k''. Resolve host m' n k = (Inr xs, m'', k'')"
proof -
  have ok: "model_ok m' c" and same: "same_package m m'" and own: "owned m' = (\<lambda>s. s \<in> S)" and L: "unat (last_owner m') = L"
    using st by (simp_all add: state_is_def)
  have h: "header_ok m" "mini_stream_cutoff (header m') = 4096"
    using state_is_pkg [OF st] same by (auto simp: pkg_ok_def header_ok_def same_package_def)
  have big: "\<not> (is_storage n \<or> node_size n = 0)" "\<not> node_size n < 4096" using n by (auto simp: big_def)
  have unfold: "Resolve host m' n k =
    (case WalkStream host m' (start_sector n) of (w, m2) \<Rightarrow> (bindE w (ordinary_body m2 n), m2, k))"
    using big h(2) by (simp add: Resolve_def ResolveOrdinary_def ordinary_body_def [abs_def] split: prod.splits)
  have solo: "solo host m n = bindE (solo_chain host m (start_sector n)) (ordinary_body m n)"
    using n by (simp add: solo_def)
  show "solo host m n = Inr xs \<and> sectors host m n \<inter> S = {} \<and> L + 1 < 2 ^ 32 \<and>
      state_is host m c (S \<union> sectors host m n) V r (L + 1) m''" if run: "Resolve host m' n k = (Inr xs, m'', k'')"
  proof -
    from run obtain ss where w: "WalkStream host m' (start_sector n) = (Inr ss, m'')" and b: "ordinary_body m'' n ss = Inr xs"
      by (auto simp: unfold split: prod.splits)
    note spec = WalkStream_spec [OF ok w]
    note same' = same_package_trans [OF same spec(2)]
    have b': "ordinary_body m n ss = Inr xs" using b same_bodies(1) [OF same'] by simp
    then have "ss \<noteq> []" using body_nonempty(1) [OF h(1)] big by blast
    note i = WalkStream_iff(1) [OF ok same w]
    have secs: "sectors host m n = set ss" using i n by (simp add: sectors_def chain_set_def)
    have L': "unat (last_owner m'') = L + 1" using owner_next [of "last_owner m'"] i \<open>ss \<noteq> []\<close> L by simp
    moreover have "unat (last_owner m'') < 2 ^ 32" using unat_u32_less [of "last_owner m''"] by simp
    moreover have "mini_owned m'' = mini_owned m'" by (rule WalkStream_sharing(3) [OF ok w])
    ultimately show ?thesis
      using i b' secs solo own st spec WalkStream_model_ok [OF ok w] same'
      by (auto simp: state_is_def fun_eq_iff)
  qed
  show "\<exists>m'' k''. Resolve host m' n k = (Inr xs, m'', k'')"
    if "solo host m n = Inr xs" "sectors host m n \<inter> S = {}" "L + 1 < 2 ^ 32"
  proof -
    from that(1) obtain ss where ss: "solo_chain host m (start_sector n) = Inr ss" "ordinary_body m n ss = Inr xs"
      by (auto simp: solo)
    have "set ss \<inter> S = {}" using that(2) ss(1) n by (simp add: sectors_def chain_set_def)
    then have free: "\<forall>s \<in> set ss. \<not> owned m' s" using own by auto
    have "unat (last_owner m' + 1) = L + 1" using L that(3) by (simp add: unat_add_nowrap)
    then have "last_owner m' + 1 \<noteq> 0" by (metis Suc_eq_plus1 nat.distinct(1) unat_0)
    from WalkStream_iff(2) [OF ok same ss(1) free this] obtain m'' where w: "WalkStream host m' (start_sector n) = (Inr ss, m'')" ..
    have "ordinary_body m'' n ss = Inr xs"
      using ss(2) same_bodies(1) [OF same_package_trans [OF same WalkStream_spec(2) [OF ok w]]] by simp
    with w show ?thesis by (simp add: unfold)
  qed
qed

lemma EnsureMini_state:
  assumes st: "state_is host m c S V r L m'"
  defines "new \<equiv> \<not> r \<and> mini_container_size m \<noteq> 0"
  shows "EnsureMiniStream host m' k = (Inr u, m'', k'') \<Longrightarrow>
      (\<exists>box. solo_box host m = Inr box) \<and> (new \<longrightarrow> box_sectors host m \<inter> S = {} \<and> L + 1 < 2 ^ 32) \<and>
      state_is host m c (if r then S else S \<union> box_sectors host m) V True (if new then L + 1 else L) m''"
    and "solo_box host m = Inr box \<Longrightarrow> new \<longrightarrow> box_sectors host m \<inter> S = {} \<and> L + 1 < 2 ^ 32 \<Longrightarrow>
      \<exists>m'' k''. EnsureMiniStream host m' k = (Inr (), m'', k'')"
proof -
  have ok: "model_ok m' c" and same: "same_package m m'" and own: "owned m' = (\<lambda>s. s \<in> S)" and L: "unat (last_owner m') = L"
    and ready: "mini_container_ready m' = r"
    using st by (simp_all add: state_is_def)
  have h: "header_ok m" using state_is_pkg [OF st] by (simp add: pkg_ok_def)
  have f: "mini_container_size m' = mini_container_size m" "mini_container_start m' = mini_container_start m"
    using same by (simp_all add: same_package_def)
  have unfold: "EnsureMiniStream host m' k =
    (if r then (Inr (), m', k)
     else if mini_container_size m \<noteq> 0 then
       (case WalkStream host m' (mini_container_start m) of (w, m2) \<Rightarrow>
          (case bindE w (box_body m2) of
             Inl e \<Rightarrow> (Inl e, m2, k + 1)
           | Inr chain \<Rightarrow> (Inr (), m2\<lparr>mini_container_chain := chain, mini_container_ready := True\<rparr>, k + 1)))
     else (Inr (), m'\<lparr>mini_container_ready := True\<rparr>, k))"
    unfolding EnsureMiniStream_def box_body_def f ready Let_def by (simp split: prod.splits)
  have touched: "owned (m1\<lparr>mini_container_chain := ch\<rparr>) = owned m1"
    "mini_owned (m1\<lparr>mini_container_chain := ch\<rparr>) = mini_owned m1"
    "owned (m1\<lparr>mini_container_ready := b\<rparr>) = owned m1" "mini_owned (m1\<lparr>mini_container_ready := b\<rparr>) = mini_owned m1" for m1 ch b
    by (simp_all add: owned_def mini_owned_def fun_eq_iff owners_before_def with_sector_owner_def SectorCount_def HeaderSize_def)
  show "(\<exists>box. solo_box host m = Inr box) \<and> (new \<longrightarrow> box_sectors host m \<inter> S = {} \<and> L + 1 < 2 ^ 32) \<and>
      state_is host m c (if r then S else S \<union> box_sectors host m) V True (if new then L + 1 else L) m''"
    if run: "EnsureMiniStream host m' k = (Inr u, m'', k'')"
  proof -
    note spec = EnsureMiniStream_spec [OF ok run]
    note same'' = same_package_trans [OF same spec(3)]
    consider "r" "m'' = m'" | "\<not> r" "mini_container_size m = 0" "m'' = m'\<lparr>mini_container_ready := True\<rparr>" | (new) "\<not> r" "mini_container_size m \<noteq> 0"
      using run unfolding unfold by (auto split: if_splits)
    then show ?thesis
    proof cases
      case new
      then obtain ss m2 where w: "WalkStream host m' (mini_container_start m) = (Inr ss, m2)" and b2: "box_body m2 ss = Inr ss"
        and m'': "m'' = m2\<lparr>mini_container_chain := ss, mini_container_ready := True\<rparr>"
        using run unfolding unfold
        by (auto split: prod.splits sum.splits dest: box_body_Inr)
      note ws = WalkStream_spec [OF ok w]
      have b: "box_body m ss = Inr ss" using b2 same_bodies(3) [OF same_package_trans [OF same ws(2)]] by simp
      have ne: "ss \<noteq> []" using body_nonempty(3) [OF h b new(2)] by simp
      note it = WalkStream_iff(1) [OF ok same w]
      have solo: "solo_box host m = Inr ss" using it b new(2) by (simp add: solo_box_def)
      then have secs: "box_sectors host m = set ss" by (simp add: box_sectors_def chain_set_def)
      have L': "unat (last_owner m2) = L + 1" using owner_next [of "last_owner m'"] it ne L by simp
      moreover have "unat (last_owner m2) < 2 ^ 32" using unat_u32_less [of "last_owner m2"] by simp
      moreover have "mini_owned m2 = mini_owned m'" by (rule WalkStream_sharing(3) [OF ok w])
      ultimately show ?thesis
        using it solo secs own st spec(2) same'' new m'' unfolding new_def state_is_def touched
        by (auto simp: fun_eq_iff touched)
    qed (use st spec(2) same'' in \<open>auto simp: new_def state_is_def solo_box_def box_sectors_def chain_set_def touched\<close>)
  qed
  show "\<exists>m'' k''. EnsureMiniStream host m' k = (Inr (), m'', k'')"
    if box: "solo_box host m = Inr box" and fits: "new \<longrightarrow> box_sectors host m \<inter> S = {} \<and> L + 1 < 2 ^ 32"
  proof (cases new)
    case False
    then show ?thesis by (auto simp: unfold new_def)
  next
    case True
    then have nr: "\<not> r" "mini_container_size m \<noteq> 0" by (simp_all add: new_def)
    from box nr obtain ss where ss: "solo_chain host m (mini_container_start m) = Inr ss" "box_body m ss = Inr box"
      by (auto simp: solo_box_def)
    have "box = ss" using body_nonempty(3) [OF h ss(2) nr(2)] by simp
    then have "set ss \<inter> S = {}" using fits True box by (simp add: box_sectors_def chain_set_def)
    then have free: "\<forall>s \<in> set ss. \<not> owned m' s" using own by auto
    have "unat (last_owner m' + 1) = L + 1" using L fits True by (simp add: unat_add_nowrap)
    then have "last_owner m' + 1 \<noteq> 0" by (metis Suc_eq_plus1 nat.distinct(1) unat_0)
    from WalkStream_iff(2) [OF ok same ss(1) free this] obtain m2 where w: "WalkStream host m' (mini_container_start m) = (Inr ss, m2)" ..
    have "box_body m2 ss = Inr box"
      using ss(2) same_bodies(3) [OF same_package_trans [OF same WalkStream_spec(2) [OF ok w]]] by simp
    with w nr show ?thesis by (simp add: unfold)
  qed
qed

text \<open>What a call for \<open>n\<close> needs of the state, and the state after it.\<close>

definition starts_box :: "PackageModel \<Rightarrow> bool \<Rightarrow> CfbNode \<Rightarrow> bool" where
  "starts_box m r n \<longleftrightarrow> small n \<and> \<not> r \<and> mini_container_size m \<noteq> 0"

definition room :: "ByteOrder \<Rightarrow> PackageModel \<Rightarrow> u32 set \<Rightarrow> nat set \<Rightarrow> bool \<Rightarrow> nat \<Rightarrow> CfbNode \<Rightarrow> bool" where
  "room host m S V r L n \<longleftrightarrow>
     sectors host m n \<inter> S = {} \<and> minis m n \<inter> V = {} \<and> (starts_box m r n \<longrightarrow> box_sectors host m \<inter> S = {}) \<and>
     L + cost m r n < 2 ^ 32"

definition secs_after :: "ByteOrder \<Rightarrow> PackageModel \<Rightarrow> u32 set \<Rightarrow> bool \<Rightarrow> CfbNode \<Rightarrow> u32 set" where
  "secs_after host m S r n = S \<union> sectors host m n \<union> (if small n \<and> \<not> r then box_sectors host m else {})"

lemma counted [simp]:
  "owned (m\<lparr>last_owner := i\<rparr>) = owned m" "mini_owned (m\<lparr>last_owner := i\<rparr>) = mini_owned m"
  "same_package m0 (m\<lparr>last_owner := i\<rparr>) = same_package m0 m"
  by (simp_all add: owned_def mini_owned_def fun_eq_iff owners_before_def with_sector_owner_def SectorCount_def
      HeaderSize_def same_package_def)

lemma Resolve_small:
  assumes st: "state_is host m c S V r L m'" and n: "small n"
  shows "Resolve host m' n k = (Inr xs, m'', k'') \<Longrightarrow>
      solo host m n = Inr xs \<and> room host m S V r L n \<and>
      state_is host m c (secs_after host m S r n) (V \<union> minis m n) True (L + cost m r n) m''"
    and "solo host m n = Inr xs \<Longrightarrow> room host m S V r L n \<Longrightarrow> \<exists>m'' k''. Resolve host m' n k = (Inr xs, m'', k'')"
proof -
  have ok: "model_ok m' c" and same: "same_package m m'" using st by (simp_all add: state_is_def)
  have h: "header_ok m" "mini_stream_cutoff (header m') = 4096"
    using state_is_pkg [OF st] same by (auto simp: pkg_ok_def header_ok_def same_package_def)
  have nb: "\<not> big n" "\<not> (is_storage n \<or> node_size n = 0)" "node_size n < 4096" using n by (auto simp: small_def big_def)
  have self: "m2\<lparr>mini_container_chain := mini_container_chain m2\<rparr> = m2" for m2 :: PackageModel by simp
  have unfold: "Resolve host m' n k =
    (case EnsureMiniStream host m' k of
       (Inl e, m1, k1) \<Rightarrow> (Inl e, m1, k1)
     | (Inr _, m1, k1) \<Rightarrow>
         (case WalkMiniChain (m1\<lparr>last_owner := last_owner m1 + 1\<rparr>) (start_sector n) (last_owner m1 + 1) of (w, m2) \<Rightarrow>
            (bindE w (mini_body m2 (mini_container_chain m2) n), m2, k1)))"
    using nb h(2) by (simp add: Resolve_def ResolveMini_def mini_body_def [abs_def] self Let_def split: prod.splits sum.splits)
  have solo: "solo host m n = bindE (solo_box host m) (\<lambda>box. bindE (solo_mini m (start_sector n)) (mini_body m box n))"
    using n nb by (simp add: solo_def)
  have none: "sectors host m n = {}" using nb by (simp add: sectors_def)
  let ?new = "\<not> r \<and> mini_container_size m \<noteq> 0"
  let ?L1 = "if ?new then L + 1 else L"
  have cost: "L + cost m r n = ?L1 + 1" using n nb by (simp add: cost_def)
  have start: "starts_box m r n \<longleftrightarrow> ?new" using n by (simp add: starts_box_def)
  have after: "secs_after host m S r n = (if r then S else S \<union> box_sectors host m)"
    using n none by (simp add: secs_after_def)
  show "solo host m n = Inr xs \<and> room host m S V r L n \<and>
      state_is host m c (secs_after host m S r n) (V \<union> minis m n) True (L + cost m r n) m''"
    if run: "Resolve host m' n k = (Inr xs, m'', k'')"
  proof -
    from run obtain m1 u ss where e: "EnsureMiniStream host m' k = (Inr u, m1, k'')"
      and w: "WalkMiniChain (m1\<lparr>last_owner := last_owner m1 + 1\<rparr>) (start_sector n) (last_owner m1 + 1) = (Inr ss, m'')"
      and b2: "mini_body m'' (mini_container_chain m'') n ss = Inr xs"
      by (auto simp: unfold split: prod.splits sum.splits)
    from EnsureMini_state(1) [OF st e] obtain box where box: "solo_box host m = Inr box"
      and fits: "?new \<longrightarrow> box_sectors host m \<inter> S = {} \<and> L + 1 < 2 ^ 32"
      and st1: "state_is host m c (secs_after host m S r n) V True ?L1 m1" unfolding after by blast
    have chain1: "mini_container_chain m1 = box" using st1 box by (simp add: state_is_def)
    let ?m1 = "m1\<lparr>last_owner := last_owner m1 + 1\<rparr>"
    have same1: "same_package m ?m1" and own1: "mini_owned ?m1 = (\<lambda>k. k \<in> V)" "owned ?m1 = owned m1"
      using st1 by (simp_all add: state_is_def)
    note wi = WalkMiniChain_iff(1) [OF same1 w] and ws = WalkMiniChain_spec [OF w] and wsh = WalkMiniChain_sharing [OF w]
    note same2 = same_package_trans [OF same1 ws(2)]
    have b: "mini_body m box n ss = Inr xs" using b2 same_bodies(2) [OF same2] ws(5) chain1 by simp
    then have ne: "ss \<noteq> []" using body_nonempty(2) [OF h(1)] nb by blast
    have mi: "minis m n = unat ` set ss" using wi n by (simp add: minis_def chain_set_def)
    have "last_owner m'' = last_owner m1 + 1"
      using w by (auto simp: WalkMiniChain_def Let_def split: prod.splits)
    then have L2: "unat (last_owner m'') = ?L1 + 1" using owner_next [of "last_owner m1"] wi ne st1 by (simp add: state_is_def)
    moreover have "unat (last_owner m'') < 2 ^ 32" using unat_u32_less [of "last_owner m''"] by simp
    moreover have "model_ok m'' c" by (rule Resolve_spec(2) [OF ok run])
    moreover have "minis m n \<inter> V = {}" using wi own1 mi by auto
    ultimately show ?thesis
      using box b wi solo none mi fits start cost same2 wsh(2) ws(4,5) own1 st1
      by (auto simp: state_is_def room_def fun_eq_iff)
  qed
  show "\<exists>m'' k''. Resolve host m' n k = (Inr xs, m'', k'')" if "solo host m n = Inr xs" "room host m S V r L n"
  proof -
    from that(1) obtain box ss where box: "solo_box host m = Inr box" and ss: "solo_mini m (start_sector n) = Inr ss"
      and b: "mini_body m box n ss = Inr xs" by (auto simp: solo)
    have fits: "?new \<longrightarrow> box_sectors host m \<inter> S = {} \<and> L + 1 < 2 ^ 32" and L2: "?L1 + 1 < 2 ^ 32"
      and disj: "minis m n \<inter> V = {}"
      using that(2) cost start by (simp_all add: room_def split: if_splits)
    from EnsureMini_state(2) [OF st box fits] obtain m1 k1 where e: "EnsureMiniStream host m' k = (Inr (), m1, k1)" by blast
    from EnsureMini_state(1) [OF st e] have st1: "state_is host m c (secs_after host m S r n) V True ?L1 m1" unfolding after by blast
    have chain1: "mini_container_chain m1 = box" using st1 box by (simp add: state_is_def)
    let ?m1 = "m1\<lparr>last_owner := last_owner m1 + 1\<rparr>"
    have same1: "same_package m ?m1" and own1: "mini_owned ?m1 = (\<lambda>k. k \<in> V)"
      using st1 by (simp_all add: state_is_def)
    have "minis m n = unat ` set ss" using ss n by (simp add: minis_def chain_set_def)
    then have free: "\<forall>s \<in> set ss. \<not> mini_owned ?m1 (unat s)" using disj own1 by auto
    have "unat (last_owner m1 + 1) = ?L1 + 1" using st1 L2 by (simp add: unat_add_nowrap state_is_def)
    then have "last_owner m1 + 1 \<noteq> 0" by (metis Suc_eq_plus1 nat.distinct(1) unat_0)
    from WalkMiniChain_iff(2) [OF same1 ss free this] obtain m2 where
      w: "WalkMiniChain ?m1 (start_sector n) (last_owner m1 + 1) = (Inr ss, m2)" ..
    have "mini_body m2 (mini_container_chain m2) n ss = Inr xs"
      using b same_bodies(2) [OF same_package_trans [OF same1 WalkMiniChain_spec(2) [OF w]]] WalkMiniChain_spec(5) [OF w] chain1
      by simp
    with e w show ?thesis by (simp add: unfold)
  qed
qed

lemma Resolve_step:
  assumes st: "state_is host m c S V r L m'"
  shows "Resolve host m' n k = (Inr xs, m'', k'') \<Longrightarrow>
      solo host m n = Inr xs \<and> room host m S V r L n \<and>
      state_is host m c (secs_after host m S r n) (V \<union> minis m n) (r \<or> small n) (L + cost m r n) m''"
    and "solo host m n = Inr xs \<Longrightarrow> room host m S V r L n \<Longrightarrow> \<exists>m'' k''. Resolve host m' n k = (Inr xs, m'', k'')"
proof -
  have cutoff: "mini_stream_cutoff (header m') = 4096"
    using state_is_pkg [OF st] st by (auto simp: pkg_ok_def header_ok_def same_package_def state_is_def)
  have L: "L < 2 ^ 32" using st unat_u32_less by (auto simp: state_is_def)
  consider (big) "big n" "\<not> small n" | (small) "small n" | (idle) "is_storage n \<or> node_size n = 0" "\<not> small n" "\<not> big n"
    by (auto simp: big_def small_def)
  then have "(Resolve host m' n k = (Inr xs, m'', k'') \<longrightarrow>
      solo host m n = Inr xs \<and> room host m S V r L n \<and>
      state_is host m c (secs_after host m S r n) (V \<union> minis m n) (r \<or> small n) (L + cost m r n) m'') \<and>
    (solo host m n = Inr xs \<longrightarrow> room host m S V r L n \<longrightarrow> (\<exists>m'' k''. Resolve host m' n k = (Inr xs, m'', k'')))"
  proof cases
    case big
    with Resolve_big(1) [OF st big(1), of k xs m'' k''] Resolve_big(2) [OF st big(1), of xs k] show ?thesis
      by (simp add: room_def secs_after_def starts_box_def minis_def cost_def)
  next
    case small
    with Resolve_small(1) [OF st small, of k xs m'' k''] Resolve_small(2) [OF st small, of xs k] show ?thesis by simp
  next
    case idle
    then have "Resolve host m' n k = (Inr [], m', k)" by (simp add: Resolve_def)
    with idle st L show ?thesis
      by (auto simp: room_def secs_after_def starts_box_def minis_def cost_def sectors_def solo_def)
  qed
  then show "Resolve host m' n k = (Inr xs, m'', k'') \<Longrightarrow>
      solo host m n = Inr xs \<and> room host m S V r L n \<and>
      state_is host m c (secs_after host m S r n) (V \<union> minis m n) (r \<or> small n) (L + cost m r n) m''"
    and "solo host m n = Inr xs \<Longrightarrow> room host m S V r L n \<Longrightarrow> \<exists>m'' k''. Resolve host m' n k = (Inr xs, m'', k'')"
    by blast+
qed

section \<open>Sequences of calls\<close>

fun resolves :: "ByteOrder \<Rightarrow> CfbNode list \<Rightarrow> PackageModel \<times> u64 \<Rightarrow> (PackageModel \<times> u64) option" where
  "resolves host [] st = Some st"
| "resolves host (n # ns) st =
     (case Resolve host (fst st) n (snd st) of
        (Inl _, _, _) \<Rightarrow> None
      | (Inr _, m', k') \<Rightarrow> resolves host ns (m', k'))"

definition apart :: "ByteOrder \<Rightarrow> PackageModel \<Rightarrow> CfbNode \<Rightarrow> CfbNode \<Rightarrow> bool" where
  "apart host m a b \<longleftrightarrow> sectors host m a \<inter> sectors host m b = {} \<and> minis m a \<inter> minis m b = {}"

definition some_small :: "CfbNode list \<Rightarrow> bool" where
  "some_small ns \<longleftrightarrow> (\<exists>n \<in> set ns. small n)"

definition total :: "PackageModel \<Rightarrow> CfbNode list \<Rightarrow> nat" where
  "total m ns = length (filter big ns) + length (filter small ns) + (if some_small ns \<and> mini_container_size m \<noteq> 0 then 1 else 0)"

text \<open>The streams are well formed, one by one and together.\<close>

definition fits :: "ByteOrder \<Rightarrow> PackageModel \<Rightarrow> CfbNode list \<Rightarrow> bool" where
  "fits host m ns \<longleftrightarrow>
     (\<forall>n \<in> set ns. \<exists>xs. solo host m n = Inr xs) \<and> sorted_wrt (apart host m) ns \<and>
     (some_small ns \<longrightarrow> (\<forall>n \<in> set ns. sectors host m n \<inter> box_sectors host m = {})) \<and> total m ns < 2 ^ 32"

definition state_after :: "ByteOrder \<Rightarrow> PackageModel \<Rightarrow> bytes \<Rightarrow> CfbNode list \<Rightarrow> PackageModel \<Rightarrow> bool" where
  "state_after host m c ns m' \<longleftrightarrow>
     state_is host m c ((\<Union>n \<in> set ns. sectors host m n) \<union> (if some_small ns then box_sectors host m else {}))
       (\<Union>n \<in> set ns. minis m n) (some_small ns) (total m ns) m'"

lemma some_small_append [simp]: "some_small (ns @ [n]) \<longleftrightarrow> some_small ns \<or> small n" "\<not> some_small []"
  by (auto simp: some_small_def)

lemma total_append: "total m (ns @ [n]) = total m ns + cost m (some_small ns) n"
  by (auto simp: total_def cost_def big_def small_def)

lemma no_box: "mini_container_size m = 0 \<Longrightarrow> box_sectors host m = {}"
  by (simp add: box_sectors_def solo_box_def chain_set_def)

lemma small_no_sectors: "small n \<Longrightarrow> sectors host m n = {}"
  by (simp add: sectors_def small_def big_def)

lemma fits_snoc:
  assumes "fits host m ds"
  shows "fits host m (ds @ [n]) \<longleftrightarrow>
    (\<exists>xs. solo host m n = Inr xs) \<and>
    room host m ((\<Union>n \<in> set ds. sectors host m n) \<union> (if some_small ds then box_sectors host m else {}))
       (\<Union>n \<in> set ds. minis m n) (some_small ds) (total m ds) n"
proof -
  let ?S = "\<Union>n \<in> set ds. sectors host m n" and ?V = "\<Union>n \<in> set ds. minis m n"
  have sorted: "sorted_wrt (apart host m) (ds @ [n]) \<longleftrightarrow> sectors host m n \<inter> ?S = {} \<and> minis m n \<inter> ?V = {}"
    using assms by (auto simp: fits_def sorted_wrt_append apart_def)
  have box: "(some_small (ds @ [n]) \<longrightarrow> (\<forall>n \<in> set (ds @ [n]). sectors host m n \<inter> box_sectors host m = {})) \<longleftrightarrow>
      (some_small ds \<longrightarrow> sectors host m n \<inter> box_sectors host m = {}) \<and>
      (starts_box m (some_small ds) n \<longrightarrow> box_sectors host m \<inter> ?S = {})"
    using assms no_box [of m host] small_no_sectors [of n host m] by (auto simp: fits_def starts_box_def)
  have "fits host m (ds @ [n]) \<longleftrightarrow> (\<exists>xs. solo host m n = Inr xs) \<and> sorted_wrt (apart host m) (ds @ [n]) \<and>
      (some_small (ds @ [n]) \<longrightarrow> (\<forall>n \<in> set (ds @ [n]). sectors host m n \<inter> box_sectors host m = {})) \<and>
      total m (ds @ [n]) < 2 ^ 32"
    using assms by (auto simp: fits_def)
  then show ?thesis
    unfolding sorted box total_append room_def by (cases "some_small ds") (simp_all add: starts_box_def, blast+)
qed

lemma secs_after_list:
  "secs_after host m ((\<Union>n \<in> set ds. sectors host m n) \<union> (if some_small ds then box_sectors host m else {})) (some_small ds) n =
    (\<Union>n \<in> set (ds @ [n]). sectors host m n) \<union> (if some_small (ds @ [n]) then box_sectors host m else {})"
  by (auto simp: secs_after_def)

lemma sorted_wrt_submset:
  assumes "\<And>a b. R a b \<Longrightarrow> R b a"
  shows "sorted_wrt R ns \<Longrightarrow> mset ms \<subseteq># mset ns \<Longrightarrow> sorted_wrt R ms"
proof (induction ms arbitrary: ns)
  case (Cons x ms)
  then have "x \<in># mset ns" by (metis list.set_intros(1) mset_subset_eqD set_mset_mset)
  then obtain as bs where ns: "ns = as @ x # bs" by (metis in_multiset_in_set split_list)
  with Cons.prems(2) have sub: "mset ms \<subseteq># mset (as @ bs)" by simp
  have "sorted_wrt R (as @ bs)" and x: "\<forall>y \<in> set (as @ bs). R x y"
    using Cons.prems(1) assms ns by (auto simp: sorted_wrt_append)
  moreover have "set ms \<subseteq> set (as @ bs)" using sub by (metis set_mset_mono set_mset_mset)
  ultimately show ?case using Cons.IH [OF _ sub] by auto
qed simp

lemma fits_submset:
  assumes "fits host m ns" and sub: "mset ms \<subseteq># mset ns"
  shows "fits host m ms"
proof -
  have set: "set ms \<subseteq> set ns" using sub by (metis set_mset_mono set_mset_mset)
  have "length (filter P ms) \<le> length (filter P ns)" for P
    using multiset_filter_mono [OF sub, of P] by (metis mset_filter size_mset size_mset_mono)
  then have "total m ms \<le> total m ns"
    using set unfolding total_def by (intro add_mono) (auto simp: some_small_def)
  moreover have "sorted_wrt (apart host m) ms"
    using assms(1) sorted_wrt_submset [OF _ _ sub, of "apart host m"] by (auto simp: fits_def apart_def)
  ultimately show ?thesis using assms(1) set by (auto simp: fits_def some_small_def)
qed

lemma resolves_iff:
  "state_after host m c ds m' \<Longrightarrow> fits host m ds \<Longrightarrow>
    (resolves host ns (m', k) \<noteq> None \<longleftrightarrow> fits host m (ds @ ns)) \<and>
    (resolves host ns (m', k) = Some (m'', k'') \<longrightarrow> state_after host m c (ds @ ns) m'')"
proof (induction ns arbitrary: ds m' k)
  case (Cons n ns)
  note st = Cons.prems(1) [unfolded state_after_def]
  show ?case
  proof (cases "fits host m (ds @ [n])")
    case True
    then obtain xs where solo: "solo host m n = Inr xs" and room: "room host m ((\<Union>n \<in> set ds. sectors host m n) \<union>
        (if some_small ds then box_sectors host m else {})) (\<Union>n \<in> set ds. minis m n) (some_small ds) (total m ds) n"
      using fits_snoc [OF Cons.prems(2)] by blast
    from Resolve_step(2) [OF st this] obtain m1 k1 where run: "Resolve host m' n k = (Inr xs, m1, k1)" by blast
    have "state_after host m c (ds @ [n]) m1"
      using Resolve_step(1) [OF st run] unfolding secs_after_list state_after_def total_append by (simp add: Un_commute)
    from Cons.IH [OF this True, of k1] run show ?thesis by simp
  next
    case False
    have "\<not> fits host m (ds @ n # ns)"
    proof
      assume "fits host m (ds @ n # ns)"
      then have "fits host m (ds @ [n])" by (rule fits_submset) simp
      with False show False ..
    qed
    moreover have "\<exists>e m1 k1. Resolve host m' n k = (Inl e, m1, k1)"
    proof (rule ccontr)
      assume "\<nexists>e m1 k1. Resolve host m' n k = (Inl e, m1, k1)"
      then obtain xs m1 k1 where "Resolve host m' n k = (Inr xs, m1, k1)"
        by (metis prod_cases3 sum.exhaust)
      from Resolve_step(1) [OF st this] show False using False fits_snoc [OF Cons.prems(2)] by blast
    qed
    ultimately show ?thesis by auto
  qed
qed auto

section \<open>A package just parsed\<close>

definition fresh :: "ByteOrder \<Rightarrow> PackageModel \<Rightarrow> bytes \<Rightarrow> bool" where
  "fresh host m c \<longleftrightarrow> state_after host m c [] m"

lemma fits_Nil: "fits host m []"
  by (simp add: fits_def total_def)

text \<open>Streams that can be resolved one after another can be resolved in any order, all or some of them.\<close>

lemma resolves_any_order:
  assumes "fresh host m c" and "resolves host ns (m, k) \<noteq> None" and "mset ms \<subseteq># mset ns"
  shows "\<exists>m' k'. resolves host ms (m, k2) = Some (m', k') \<and> state_after host m c ms m'"
proof -
  note st = assms(1) [unfolded fresh_def]
  have "fits host m ns" using resolves_iff [OF st fits_Nil] assms(2) by simp
  then have "resolves host ms (m, k2) \<noteq> None"
    using resolves_iff [OF st fits_Nil, of ms k2] fits_submset [OF _ assms(3)] by simp
  then show ?thesis using resolves_iff [OF st fits_Nil, of ms k2] by fastforce
qed

lemma ParseHeader_untouched:
  "ParseHeader host m = Inr m1 \<Longrightarrow> last_owner m1 = last_owner m \<and> sector_owner m1 = sector_owner m \<and> source m1 = source m"
  unfolding ParseHeader_def Let_def by (elim throw_elseE bindE_InrE) (drule sum.inject(2) [THEN iffD1], erule subst, simp)

lemma Parse_untouched:
  assumes "CfbReader_Parse host src = Inr m"
  shows "last_owner m = 0" and "sector_owner m = SectorOwners_default" and "source m = src"
proof -
  from assms obtain m1 m2 m3 directory where steps: "ParseHeader host (PackageModel_new src) = Inr m1" "BuildFat host m1 = Inr m2"
    "BuildMiniFat host m2 = Inr m3" "BuildTree m3 directory = Inr m" by (auto simp: CfbReader_Parse_def)
  have "last_owner m1 = 0 \<and> sector_owner m1 = SectorOwners_default \<and> source m1 = src"
    using ParseHeader_untouched [OF steps(1)] by (simp add: PackageModel_new_def)
  moreover have "last_owner m2 = last_owner m1 \<and> sector_owner m2 = sector_owner m1 \<and> source m2 = source m1"
    using steps(2) by (auto simp: BuildFat_def)
  moreover have "last_owner m3 = last_owner m2 \<and> sector_owner m3 = sector_owner m2 \<and> source m3 = source m2"
    using steps(3) by (auto simp: BuildMiniFat_def split: if_splits)
  moreover have "last_owner m = last_owner m3 \<and> sector_owner m = sector_owner m3 \<and> source m = source m3"
    using steps(4) by (auto simp: BuildTree_def Let_def ThrowMalformed_def split: if_splits prod.splits)
  ultimately show "last_owner m = 0" and "sector_owner m = SectorOwners_default" and "source m = src" by simp_all
qed

lemma Parse_fresh:
  assumes "span_ok src c" and "span_format src = cfb_format" and parse: "CfbReader_Parse host src = Inr m"
  shows "fresh host m c"
proof -
  have free: "\<not> owned m s" for s
  proof
    assume "owned m s"
    then obtain v where v: "Owners_Get (owners_before m) s = Inr v" "v \<noteq> 0" by (auto simp: owned_def)
    have "\<forall>b \<in> set (owner_blocks (owners_before m)). b = []"
      using Parse_untouched(2) [OF parse]
      by (auto simp: owners_before_def with_sector_owner_def SectorOwners_default_def SectorOwners_new_def)
    with v show False by (auto simp: Owners_Get_def at_index_def split: if_splits)
  qed
  moreover have "\<not> mini_owned m k" for k
    using Parse_ok(3) [OF assms] by (auto simp: mini_owned_def)
  ultimately show ?thesis
    using Parse_ok(2,3) [OF assms] Parse_untouched(1) [OF parse]
    by (simp add: fresh_def state_after_def state_is_def fun_eq_iff total_def some_small_def)
qed

text \<open>What a stream of a fresh package holds does not depend on what was resolved before it.\<close>

lemma Resolve_solo:
  "state_after host m c ns m' \<Longrightarrow> Resolve host m' n k = (Inr xs, m'', k'') \<Longrightarrow> solo host m n = Inr xs"
  using Resolve_step(1) by (auto simp: state_after_def)

lemma Resolve_extends:
  assumes "state_after host m c ns m'" and "Resolve host m' n k = (Inr xs, m'', k'')"
  shows "state_after host m c (ns @ [n]) m''"
  using Resolve_step(1) [OF assms(1) [unfolded state_after_def] assms(2)]
  unfolding secs_after_list state_after_def total_append by (simp add: Un_commute)

lemma state_after_ok:
  assumes "state_after host m c ns m'"
  shows "model_ok m' c" and "same_package m m'" and "span_ok (source m') c"
  using assms by (auto simp: state_after_def state_is_def model_ok_def pkg_ok_def)

end
