(* ===== verification/Msi_Fingerprint.thy ===== *)
theory Msi_Fingerprint
  imports Msi_Authenticode Cfb_Order
begin

text \<open>
  What a package holds, as a tree of items, and what its fingerprint is of that tree. The model of the code threads
  the tables of owners through every \<open>Resolve\<close>; here a stream is read from the package as it was parsed, and
  \<open>Cfb_Order\<close> carries the one to the other.
\<close>

section \<open>The content of a package\<close>

type_synonym meta = "u16string \<times> bytes \<times> u32 \<times> u64 \<times> u64"

datatype item = StreamItem meta bytes | StorageItem meta "item list"

fun item_meta :: "item \<Rightarrow> meta" where
  "item_meta (StreamItem mt bs) = mt"
| "item_meta (StorageItem mt ts) = mt"

definition item_name :: "item \<Rightarrow> u16string" where
  "item_name t = fst (item_meta t)"

definition meta_of :: "CfbNode \<Rightarrow> meta" where
  "meta_of n = (node_name n, class_id n, state_bits n, creation_time n, modification_time n)"

lemma mapE_cong [fundef_cong]: "xs = ys \<Longrightarrow> (\<And>x. x \<in> set ys \<Longrightarrow> f x = g x) \<Longrightarrow> mapE f xs = mapE g ys"
  by (induction xs arbitrary: ys) auto

function contents :: "ByteOrder \<Rightarrow> PackageModel \<Rightarrow> CfbNode \<Rightarrow> item res" where
  "contents host m n =
     (if is_storage n then bindE (mapE (contents host m) (node_children n)) (\<lambda>ts. Inr (StorageItem (meta_of n) ts))
      else bindE (fst (ReadStream host m n 0)) (\<lambda>bs. Inr (StreamItem (meta_of n) bs)))"
  by pat_completeness auto
termination
  by (relation "measure (\<lambda>(host, m, n). size n)") (auto dest: child_size)

declare contents.simps [simp del]

definition hashed_items :: "bool \<Rightarrow> item list \<Rightarrow> item list" where
  "hashed_items is_root ts =
     sort_by (\<lambda>a b. RawNameLess (item_name a) (item_name b))
       (filter (\<lambda>t. \<not> (is_root \<and> IsMsiSignatureName (item_name t))) ts)"

lemma item_size: "t \<in> set ts \<Longrightarrow> size t < size (StorageItem mt ts)"
  by (auto dest: size_list_estimation' [of _ _ _ size])

text \<open>The bytes the fingerprint is of, by the rule of the documentation.\<close>

function fingerprint_bytes :: "bool \<Rightarrow> item \<Rightarrow> bytes" where
  "fingerprint_bytes is_root (StreamItem mt bs) = bs"
| "fingerprint_bytes is_root (StorageItem mt ts) =
     concat (map (fingerprint_bytes False) (hashed_items is_root ts)) @ fst (snd mt)"
  by pat_completeness auto
termination
  by (relation "measure (\<lambda>(is_root, t). size t)") (auto simp: hashed_items_def dest: item_size)

section \<open>Sorting by a key\<close>

lemma insort_by_key: "(\<And>a b. lt a b \<longleftrightarrow> f a < f b) \<Longrightarrow> insort_by lt x xs = insort_key f x xs"
  by (induction xs) (auto simp: not_less)

lemma sort_by_key: "(\<And>a b. lt a b \<longleftrightarrow> f a < f b) \<Longrightarrow> sort_by lt xs = sort_key f xs"
  by (induction xs) (simp_all add: sort_by_def insort_by_key [of lt f] sort_key_def)

lemma map_sort_by:
  assumes "\<And>a b. a \<in> set xs \<Longrightarrow> b \<in> set xs \<Longrightarrow> lt (g a) (g b) \<longleftrightarrow> lt' a b"
  shows "sort_by lt (map g xs) = map g (sort_by lt' xs)"
  using assms
proof (induction xs)
  case (Cons x xs)
  have ins: "insort_by lt (g x) (map g ys) = map g (insort_by lt' x ys)" if "set ys \<subseteq> set (x # xs)" for ys
    using that Cons.prems by (induction ys) auto
  from Cons.IH Cons.prems have "sort_by lt (map g xs) = map g (sort_by lt' xs)" by simp
  then show ?case using ins [of "sort_by lt' xs"] by (simp add: sort_by_def [of _ "_ # _"] sort_by_def [symmetric]) auto
qed (simp add: sort_by_def)

lemma mset_sort_by [simp]: "mset (sort_by lt xs) = mset xs"
proof (induction xs)
  case (Cons x xs)
  have "mset (insort_by lt x ys) = add_mset x (mset ys)" for ys by (induction ys) auto
  with Cons show ?case by (simp add: sort_by_def)
qed (simp add: sort_by_def)

section \<open>Streams of a fresh package\<close>

definition content :: "ByteOrder \<Rightarrow> PackageModel \<Rightarrow> bytes \<Rightarrow> CfbNode \<Rightarrow> bytes" where
  "content host m c n = (case solo host m n of Inl _ \<Rightarrow> [] | Inr xs \<Rightarrow> extents_bytes c xs)"

lemma fresh_resolve:
  assumes "fresh host m c" and "solo host m n = Inr xs"
  shows "\<exists>m' k'. Resolve host m n k = (Inr xs, m', k')"
proof -
  have "room host m {} {} False 0 n" by (simp add: room_def cost_def)
  with Resolve_step(2) [OF assms(1) [unfolded fresh_def state_after_def] assms(2)] show ?thesis
    by (simp add: total_def)
qed

lemma ReadStream_fresh:
  assumes "fresh host m c"
  shows "fst (ReadStream host m n k) = Inr bs \<longleftrightarrow> (\<exists>xs. solo host m n = Inr xs \<and> bs = extents_bytes c xs)"
proof -
  note st = assms [unfolded fresh_def]
  have read: "foldE (ReadExtent (source m')) [] xs = Inr (extents_bytes c xs)" if "Resolve host m n k = (Inr xs, m', k')" for xs m' k'
    using ReadExtents [of "source m'" c xs "[]"] Resolve_spec(2,4) [OF state_after_ok(1) [OF st] that]
    by (simp add: model_ok_def pkg_ok_def)
  show ?thesis
  proof
    assume l: "fst (ReadStream host m n k) = Inr bs"
    then obtain xs m' k' where r: "Resolve host m n k = (Inr xs, m', k')"
      by (auto simp: ReadStream_def split: prod.splits)
    then show "\<exists>xs. solo host m n = Inr xs \<and> bs = extents_bytes c xs"
      using l read [OF r] Resolve_solo [OF st r] by (auto simp: ReadStream_def)
  next
    assume "\<exists>xs. solo host m n = Inr xs \<and> bs = extents_bytes c xs"
    then obtain xs where xs: "solo host m n = Inr xs" "bs = extents_bytes c xs" by blast
    from fresh_resolve [OF assms xs(1), of k] obtain m' k' where r: "Resolve host m n k = (Inr xs, m', k')" by blast
    show "fst (ReadStream host m n k) = Inr bs" using read [OF r] r xs(2) by (simp add: ReadStream_def)
  qed
qed

lemma resolves_append: "resolves host (xs @ ys) st = Option.bind (resolves host xs st) (resolves host ys)"
  by (induction xs arbitrary: st) (auto split: sum.split prod.split)

lemma resolves_state:
  "state_after host m c ds m' \<Longrightarrow> resolves host ns (m', k) = Some (m'', k'') \<Longrightarrow> state_after host m c (ds @ ns) m''"
proof (induction ns arbitrary: ds m' k)
  case (Cons n ns)
  then obtain xs m1 k1 where r: "Resolve host m' n k = (Inr xs, m1, k1)" and "resolves host ns (m1, k1) = Some (m'', k'')"
    by (auto split: prod.splits sum.splits)
  from Cons.IH [OF Resolve_extends [OF Cons.prems(1) r] this(2)] show ?case by simp
qed simp

section \<open>The hash of a package\<close>

lemma HashPieces_eq:
  "at + unat left \<le> length block \<Longrightarrow> HashPieces block at left hashed = Inr (hashed @ segment at (unat left) block)"
proof (induction block at left hashed rule: HashPieces.induct)
  case (1 block at left hashed)
  show ?case
  proof (cases "left = 0")
    case True
    then show ?thesis by (simp add: HashPieces.simps segment_def)
  next
    case False
    let ?p = "min left kHashPiece"
    have p: "unat ?p \<le> unat left" "unat (left - ?p) = unat left - unat ?p"
      by (simp_all add: word_le_nat_alt [symmetric] unat_diff_nowrap)
    have read: "mem_read block at (unat ?p) = Inr (segment at (unat ?p) block)" using 1(2) p by (simp add: mem_read_def)
    have "HashPieces block (at + unat ?p) (left - ?p) (hashed @ segment at (unat ?p) block) =
        Inr ((hashed @ segment at (unat ?p) block) @ segment (at + unat ?p) (unat (left - ?p)) block)"
      by (rule 1(1) [OF False refl read]) (use 1(2) p in simp)
    then show ?thesis
      using False read p segment_append [of at "unat ?p" block "unat (left - ?p)"]
      by (simp add: HashPieces.simps [of block at left] Let_def)
  qed
qed

lemma HashExtents_eq:
  assumes "span_ok (source m) c"
  shows "extents_in c xs \<Longrightarrow> foldE (HashExtent m) h xs = Inr (h @ extents_bytes c xs)"
proof (induction xs arbitrary: h)
  case (Cons e xs)
  then have fits: "unat (ext_offset e) + unat (ext_length e) \<le> length c" and rest: "extents_in c xs"
    by (simp_all add: extents_in_def)
  have "HashExtent m h e = Inr (h @ extent_bytes c e)"
    using fits by (simp add: HashExtent_def Source_def Data_eq [OF assms] HashPieces_eq extent_bytes_def)
  then show ?case using Cons.IH [OF rest] by (simp add: extents_bytes_def)
qed simp

text \<open>The streams in the order they are hashed, and the storages that must have no name twice.\<close>

function hash_streams :: "CfbNode \<Rightarrow> bool \<Rightarrow> CfbNode list" where
  "hash_streams n is_root =
     (if is_storage n then concat (map (\<lambda>child. hash_streams child False) (hashed_children n is_root)) else [n])"
  by pat_completeness auto
termination
  by (relation "measure (\<lambda>(n, is_root). size n)") (auto simp: hashed_children_def dest: child_size)

function names_ok :: "CfbNode \<Rightarrow> bool \<Rightarrow> bool" where
  "names_ok n is_root \<longleftrightarrow>
     (is_storage n \<longrightarrow>
        same_neighbours (sort_by name_less (node_children n)) = None \<and>
        list_all (\<lambda>child. names_ok child False) (hashed_children n is_root))"
  by pat_completeness auto
termination
  by (relation "measure (\<lambda>(n, is_root). size n)") (auto simp: hashed_children_def dest: child_size)

function hash_bytes :: "ByteOrder \<Rightarrow> PackageModel \<Rightarrow> bytes \<Rightarrow> CfbNode \<Rightarrow> bool \<Rightarrow> bytes" where
  "hash_bytes host m c n is_root =
     (if is_storage n then
        concat (map (\<lambda>child. hash_bytes host m c child False) (hashed_children n is_root)) @ class_id n
      else content host m c n)"
  by pat_completeness auto
termination
  by (relation "measure (\<lambda>(host, m, c, n, is_root). size n)") (auto simp: hashed_children_def dest: child_size)

declare hash_streams.simps [simp del] names_ok.simps [simp del] hash_bytes.simps [simp del]

definition hash_node :: "ByteOrder \<Rightarrow> hash_state \<Rightarrow> CfbNode \<Rightarrow> hash_state res" where
  "hash_node host st child = (if is_storage child then HashStorage host child False st else HashStream host st child)"

lemma HashStream_iff:
  assumes st: "state_after host m c ds m1"
  shows "HashStream host (m1, k1, h) n = Inr (m2, k2, h2) \<longleftrightarrow>
    resolves host [n] (m1, k1) = Some (m2, k2) \<and> h2 = h @ content host m c n"
proof (cases "Resolve host m1 n k1")
  case (fields r m' k')
  show ?thesis
  proof (cases r)
    case (Inl e)
    then show ?thesis using fields by (simp add: HashStream_def)
  next
    case (Inr xs)
    note run = fields [unfolded Inr]
    have "extents_in c xs" using Resolve_spec(4) [OF state_after_ok(1) [OF st] run] by simp
    moreover have "span_ok (source m') c" by (rule state_after_ok(3) [OF Resolve_extends [OF st run]])
    moreover have "content host m c n = extents_bytes c xs" using Resolve_solo [OF st run] by (simp add: content_def)
    ultimately show ?thesis using run by (auto simp: HashStream_def HashExtents_eq)
  qed
qed

lemma hash_nodes_iff:
  assumes each: "\<And>n ds m1 k1 h m2 k2 h2. n \<in> set ns \<Longrightarrow> state_after host m c ds m1 \<Longrightarrow>
      hash_node host (m1, k1, h) n = Inr (m2, k2, h2) \<longleftrightarrow>
      P n \<and> resolves host (S n) (m1, k1) = Some (m2, k2) \<and> h2 = h @ B n"
  shows "state_after host m c ds m1 \<Longrightarrow> foldE (hash_node host) (m1, k1, h) ns = Inr (m2, k2, h2) \<longleftrightarrow>
      list_all P ns \<and> resolves host (concat (map S ns)) (m1, k1) = Some (m2, k2) \<and> h2 = h @ concat (map B ns)"
  using each
proof (induction ns arbitrary: ds m1 k1 h)
  case (Cons n ns)
  note one = Cons.prems(2) [of n, OF _ Cons.prems(1)]
  show ?case
  proof (cases "P n \<and> resolves host (S n) (m1, k1) \<noteq> None")
    case True
    then obtain m' k' where r: "resolves host (S n) (m1, k1) = Some (m', k')" by auto
    then have step: "hash_node host (m1, k1, h) n = Inr (m', k', h @ B n)" using one [of k1 h m' k' "h @ B n"] True by simp
    from Cons.IH [OF resolves_state [OF Cons.prems(1) r], of k' "h @ B n"] Cons.prems(2)
    show ?thesis using True step r by (simp add: resolves_append)
  next
    case False
    then have "\<exists>e. hash_node host (m1, k1, h) n = Inl e"
    proof (cases "hash_node host (m1, k1, h) n")
      case (Inr st)
      obtain m' k' h' where "st = (m', k', h')" by (cases st)
      with one [of k1 h m' k' h'] Inr False show ?thesis by auto
    qed auto
    with False show ?thesis by (auto simp: resolves_append bind_eq_Some_conv)
  qed
qed auto

lemma HashStorage_iff:
  "is_storage n \<Longrightarrow> state_after host m c ds m1 \<Longrightarrow>
    HashStorage host n is_root (m1, k1, h) = Inr (m2, k2, h2) \<longleftrightarrow>
    names_ok n is_root \<and> resolves host (hash_streams n is_root) (m1, k1) = Some (m2, k2) \<and>
    h2 = h @ hash_bytes host m c n is_root"
proof (induction "size n" arbitrary: n is_root ds m1 k1 h m2 k2 h2 rule: less_induct)
  case less
  have each: "hash_node host (m1, k1, h) child = Inr (m2, k2, h2) \<longleftrightarrow>
      names_ok child False \<and> resolves host (hash_streams child False) (m1, k1) = Some (m2, k2) \<and>
      h2 = h @ hash_bytes host m c child False"
    if "child \<in> set (hashed_children n is_root)" "state_after host m c ds m1" for child ds m1 k1 h m2 k2 h2
  proof (cases "is_storage child")
    case True
    have "size child < size n" using that(1) by (auto simp: hashed_children_def dest: child_size)
    from less.hyps [OF this True that(2)] True show ?thesis by (simp add: hash_node_def)
  next
    case False
    then show ?thesis
      using HashStream_iff [OF that(2), of k1 h child m2 k2 h2]
      by (simp add: hash_node_def names_ok.simps [of child] hash_streams.simps [of child] hash_bytes.simps [of _ _ _ child]
          del: resolves.simps)
  qed
  have fold: "HashStorage host n is_root (m1, k1, h) =
      bindE (RejectDuplicateNames n) (\<lambda>_. bindE (foldE (hash_node host) (m1, k1, h) (hashed_children n is_root))
        (\<lambda>(m, k, hashed). Inr (m, k, hashed @ class_id n)))"
    unfolding HashStorage.simps [of host n] hash_node_def [abs_def] ..
  have iff: "foldE (hash_node host) (m1, k1, h) (hashed_children n is_root) = Inr (m2, k2, h3) \<longleftrightarrow>
      list_all (\<lambda>child. names_ok child False) (hashed_children n is_root) \<and>
      resolves host (concat (map (\<lambda>child. hash_streams child False) (hashed_children n is_root))) (m1, k1) = Some (m2, k2) \<and>
      h3 = h @ concat (map (\<lambda>child. hash_bytes host m c child False) (hashed_children n is_root))" for h3
    by (rule hash_nodes_iff [OF _ less.prems(2)]) (rule each)
  have names: "RejectDuplicateNames n = Inr u \<longleftrightarrow> same_neighbours (sort_by name_less (node_children n)) = None" for u
    by (auto simp: RejectDuplicateNames_def ThrowMalformed_def split: option.splits)
  have "HashStorage host n is_root (m1, k1, h) = Inr (m2, k2, h2) \<longleftrightarrow>
      same_neighbours (sort_by name_less (node_children n)) = None \<and>
      (\<exists>h3. foldE (hash_node host) (m1, k1, h) (hashed_children n is_root) = Inr (m2, k2, h3) \<and> h2 = h3 @ class_id n)"
    unfolding fold by (auto simp: bindE_Inr_iff names split: prod.splits)
  then show ?case
    using less.prems(1) unfolding iff
    by (auto simp: names_ok.simps [of n is_root] hash_streams.simps [of n is_root] hash_bytes.simps [of _ _ _ n is_root])
qed

section \<open>The hash is of the content\<close>

lemma mapE_Inr_iff: "mapE f xs = Inr ys \<longleftrightarrow> list_all2 (\<lambda>x y. f x = Inr y) xs ys"
proof (induction xs arbitrary: ys)
  case (Cons x xs)
  then show ?case by (cases ys) (auto simp: bindE_Inr_iff)
qed auto

lemma mapE_total: "(\<forall>x \<in> set xs. \<exists>y. f x = Inr y) \<Longrightarrow> \<exists>ys. mapE f xs = Inr ys"
  by (induction xs) auto

lemma contents_meta: "contents host m n = Inr t \<Longrightarrow> item_meta t = meta_of n"
  by (auto simp: contents.simps [of host m n] split: if_splits)

lemma contents_name: "contents host m n = Inr t \<Longrightarrow> item_name t = node_name n"
  by (simp add: item_name_def contents_meta meta_of_def)

definition the_item :: "ByteOrder \<Rightarrow> PackageModel \<Rightarrow> CfbNode \<Rightarrow> item" where
  "the_item host m n = (case contents host m n of Inr t \<Rightarrow> t | Inl _ \<Rightarrow> StreamItem (meta_of n) [])"

lemma mapE_contents: "mapE (contents host m) ns = Inr ts \<Longrightarrow> ts = map (the_item host m) ns \<and> (\<forall>n \<in> set ns. contents host m n = Inr (the_item host m n))"
proof (induction ns arbitrary: ts)
  case (Cons n ns)
  then obtain t ts' where "contents host m n = Inr t" "mapE (contents host m) ns = Inr ts'" "ts = t # ts'" by auto
  with Cons.IH show ?case by (simp add: the_item_def)
qed simp

lemma hashed_items_map:
  assumes "\<forall>n \<in> set ns. contents host m n = Inr (the_item host m n)"
  shows "hashed_items False (map (the_item host m) ns) =
    map (the_item host m) (sort_by (\<lambda>a b. RawNameLess (node_name a) (node_name b)) ns)"
proof -
  have "RawNameLess (item_name (the_item host m a)) (item_name (the_item host m b)) \<longleftrightarrow> RawNameLess (node_name a) (node_name b)"
    if "a \<in> set ns" "b \<in> set ns" for a b
    using that assms contents_name by metis
  from map_sort_by [of ns "\<lambda>a b. RawNameLess (item_name a) (item_name b)" "the_item host m", OF this]
  show ?thesis by (simp add: hashed_items_def)
qed

lemma hashed_children_filter:
  "hashed_children n True = sort_by (\<lambda>a b. RawNameLess (node_name a) (node_name b))
     (filter (\<lambda>child. \<not> IsMsiSignatureName (node_name child)) (node_children n))"
  "hashed_children n False = sort_by (\<lambda>a b. RawNameLess (node_name a) (node_name b)) (node_children n)"
  by (simp_all add: hashed_children_def)

lemma contents_storage: "is_storage n \<Longrightarrow> contents host m n = Inr t \<longleftrightarrow>
    (\<exists>ts. mapE (contents host m) (node_children n) = Inr ts \<and> t = StorageItem (meta_of n) ts)"
  by (auto simp: contents.simps [of host m n] bindE_Inr_iff)

lemma contents_stream: "fresh host m c \<Longrightarrow> \<not> is_storage n \<Longrightarrow> contents host m n = Inr t \<longleftrightarrow>
    (\<exists>xs. solo host m n = Inr xs \<and> t = StreamItem (meta_of n) (extents_bytes c xs))"
  using ReadStream_fresh [of host m c n 0] by (auto simp: contents.simps [of host m n] bindE_Inr_iff)

lemma hash_bytes_contents:
  "fresh host m c \<Longrightarrow> contents host m n = Inr t \<Longrightarrow> hash_bytes host m c n False = fingerprint_bytes False t"
proof (induction "size n" arbitrary: n t rule: less_induct)
  case less
  show ?case
  proof (cases "is_storage n")
    case True
    with less.prems(2) obtain ts where ts: "mapE (contents host m) (node_children n) = Inr ts" and t: "t = StorageItem (meta_of n) ts"
      by (auto simp: contents_storage)
    note items = mapE_contents [OF ts]
    have "hash_bytes host m c child False = fingerprint_bytes False (the_item host m child)" if "child \<in> set (node_children n)" for child
      using less.hyps [OF child_size [OF that] less.prems(1)] items that by blast
    then have "map (\<lambda>child. hash_bytes host m c child False) (hashed_children n False) =
        map (fingerprint_bytes False) (hashed_items False ts)"
      using items by (simp add: hashed_items_map hashed_children_filter)
    then show ?thesis using True t by (simp add: hash_bytes.simps [of _ _ _ n] meta_of_def)
  next
    case False
    with less.prems show ?thesis
      by (auto simp: contents_stream hash_bytes.simps [of _ _ _ n] content_def)
  qed
qed

lemma hash_bytes_root:
  assumes "fresh host m c" and "is_storage n"
    and "mapE (contents host m) (filter (\<lambda>child. \<not> IsMsiSignatureName (node_name child)) (node_children n)) = Inr ts"
  shows "hash_bytes host m c n True = fingerprint_bytes True (StorageItem (meta_of n) ts)"
proof -
  note items = mapE_contents [OF assms(3)]
  have "filter (\<lambda>t. \<not> IsMsiSignatureName (item_name t)) ts = ts"
    using items contents_name by (fastforce simp: filter_id_conv)
  then have same: "hashed_items True ts = hashed_items False ts" by (simp add: hashed_items_def)
  have "hash_bytes host m c child False = fingerprint_bytes False (the_item host m child)"
    if "child \<in> set (hashed_children n True)" for child
    using hash_bytes_contents [OF assms(1)] items that by (simp add: hashed_children_filter)
  then have "map (\<lambda>child. hash_bytes host m c child False) (hashed_children n True) =
      map (fingerprint_bytes False) (hashed_items True ts)"
    unfolding same
    unfolding items [THEN conjunct1] hashed_items_map [OF items [THEN conjunct2]]
    by (simp add: hashed_children_filter)
  then show ?thesis using assms(2) by (simp add: hash_bytes.simps [of _ _ _ n] meta_of_def)
qed

text \<open>All streams of a node, in the order of the directory.\<close>

function all_streams :: "CfbNode \<Rightarrow> CfbNode list" where
  "all_streams n = (if is_storage n then concat (map all_streams (node_children n)) else [n])"
  by pat_completeness auto
termination
  by (relation "measure size") (auto dest: child_size)

declare all_streams.simps [simp del]

lemma mset_concat_cong: "(\<forall>x \<in> set xs. mset (f x) = mset (g x)) \<Longrightarrow> mset xs = mset ys \<Longrightarrow>
    mset (concat (map f ys)) = mset (concat (map g xs))"
proof -
  have "mset (concat (map f zs)) = sum_mset (image_mset (\<lambda>x. mset (f x)) (mset zs))" for f :: "'a \<Rightarrow> 'b list" and zs
    by (induction zs) simp_all
  then show "(\<forall>x \<in> set xs. mset (f x) = mset (g x)) \<Longrightarrow> mset xs = mset ys \<Longrightarrow>
    mset (concat (map f ys)) = mset (concat (map g xs))"
    by (metis (mono_tags, lifting) image_mset_cong set_mset_mset)
qed

lemma mset_hash_streams: "mset (hash_streams n False) = mset (all_streams n)"
proof (induction "size n" arbitrary: n rule: less_induct)
  case less
  then have "\<forall>child \<in> set (node_children n). mset (hash_streams child False) = mset (all_streams child)"
    using child_size by blast
  from mset_concat_cong [OF this, of "hashed_children n False"] show ?case
    by (simp add: hash_streams.simps [of n] all_streams.simps [of n] hashed_children_filter)
qed

lemma contents_total:
  "fresh host m c \<Longrightarrow> \<forall>s \<in> set (all_streams n). \<exists>xs. solo host m s = Inr xs \<Longrightarrow> \<exists>t. contents host m n = Inr t"
proof (induction "size n" arbitrary: n rule: less_induct)
  case less
  show ?case
  proof (cases "is_storage n")
    case True
    have "\<exists>t. contents host m child = Inr t" if "child \<in> set (node_children n)" for child
      using less.hyps [OF child_size [OF that] less.prems(1)] less.prems(2) True that
      by (auto simp: all_streams.simps [of n])
    then have "\<exists>ts. mapE (contents host m) (node_children n) = Inr ts" by (intro mapE_total) blast
    with True show ?thesis by (auto simp: contents_storage)
  next
    case False
    with less.prems show ?thesis by (auto simp: contents_stream all_streams.simps [of n])
  qed
qed

definition package_items :: "ByteOrder \<Rightarrow> PackageModel \<Rightarrow> item list res" where
  "package_items host m =
     mapE (contents host m) (filter (\<lambda>child. \<not> IsMsiSignatureName (node_name child)) (node_children (root m)))"

lemma resolves_solo:
  assumes "state_after host m c ds m1" and "resolves host ns (m1, k1) = Some st"
  shows "\<forall>n \<in> set ns. \<exists>xs. solo host m n = Inr xs"
  using assms
proof (induction ns arbitrary: ds m1 k1)
  case (Cons n ns)
  then obtain xs m2 k2 where r: "Resolve host m1 n k1 = (Inr xs, m2, k2)" and "resolves host ns (m2, k2) = Some st"
    by (auto split: prod.splits sum.splits)
  with Cons.IH [OF Resolve_extends [OF Cons.prems(1) r]] Resolve_solo [OF Cons.prems(1) r] show ?case by auto
qed simp

lemma Parse_root_storage: "CfbReader_Parse host src = Inr m \<Longrightarrow> is_storage (root m)"
  by (auto simp: CfbReader_Parse_def BuildTree_def Let_def ThrowMalformed_def split: if_splits prod.splits)

lemma fingerprint_iff:
  assumes fr: "fresh host m c" and root: "is_storage (root m)"
  shows "ComputeMsiFingerprint sha host m k = Inr (d, m', k') \<longleftrightarrow>
    names_ok (root m) True \<and> resolves host (hash_streams (root m) True) (m, k) = Some (m', k') \<and>
    (\<exists>ts. package_items host m = Inr ts \<and> d = sha (fingerprint_bytes True (StorageItem (meta_of (root m)) ts)))"
proof -
  note st = fr [unfolded fresh_def]
  have "\<exists>ts. package_items host m = Inr ts" if "resolves host (hash_streams (root m) True) (m, k) = Some (m', k')"
  proof -
    have "\<exists>t. contents host m child = Inr t"
      if "child \<in> set (filter (\<lambda>child. \<not> IsMsiSignatureName (node_name child)) (node_children (root m)))" for child
    proof (rule contents_total [OF fr])
      have "set (all_streams child) = set (hash_streams child False)"
        by (metis mset_hash_streams set_mset_mset)
      also have "\<dots> \<subseteq> set (hash_streams (root m) True)"
        using that root by (auto simp: hash_streams.simps [of "root m"] hashed_children_filter)
      finally show "\<forall>s \<in> set (all_streams child). \<exists>xs. solo host m s = Inr xs"
        using resolves_solo [OF st \<open>resolves host (hash_streams (root m) True) (m, k) = Some (m', k')\<close>] by blast
    qed
    then show ?thesis unfolding package_items_def by (intro mapE_total) blast
  qed
  then show ?thesis
    using HashStorage_iff [OF root st, of True k "[]"] hash_bytes_root [OF fr root]
    by (auto simp: ComputeMsiFingerprint_def package_items_def bindE_Inr_iff)
qed

end
