(* ===== verification/Cfb_Writer_Spec.thy ===== *)
theory Cfb_Writer_Spec
  imports Cfb_Writer Msi_Fingerprint "HOL-Library.List_Lexorder"
begin

text \<open>
  What the writer makes of a package: the tree of items it means to write, and that the package it returns has
  exactly that content. The entries of the writer are a tree laid out in one list; \<open>entry_tree\<close> reads the tree
  back from it.
\<close>

section \<open>Names\<close>

definition name_key :: "u16string \<Rightarrow> nat list" where
  "name_key s = length s # map (\<lambda>u. unat (UpperCase u)) s"

lemma compare_units_key:
  "length a = length b \<Longrightarrow>
    (compare_units a b < 0 \<longleftrightarrow> map (\<lambda>u. unat (UpperCase u)) a < map (\<lambda>u. unat (UpperCase u)) b) \<and>
    (compare_units a b = 0 \<longleftrightarrow> map (\<lambda>u. unat (UpperCase u)) a = map (\<lambda>u. unat (UpperCase u)) b)"
proof (induction a b rule: compare_units.induct)
  case (1 a as b bs)
  have "unat (UpperCase a) = unat (UpperCase b) \<longleftrightarrow> UpperCase a = UpperCase b" by (rule word_unat_eq_iff [symmetric])
  then show ?case using 1 by (auto simp: word_less_nat_alt)
qed auto

lemma CompareNames_key:
  "CompareNames a b < 0 \<longleftrightarrow> name_key a < name_key b" "CompareNames a b = 0 \<longleftrightarrow> name_key a = name_key b"
  using compare_units_key [of a b] by (auto simp: CompareNames_def name_key_def)

lemma same_neighbours_distinct:
  "sorted (map (\<lambda>n. name_key (node_name n)) ns) \<Longrightarrow>
    same_neighbours ns = None \<longleftrightarrow> distinct (map (\<lambda>n. name_key (node_name n)) ns)"
proof (induction ns rule: same_neighbours.induct)
  case (1 a b rest)
  show ?case
  proof (cases "name_key (node_name a) = name_key (node_name b)")
    case True
    then show ?thesis by (simp add: CompareNames_key)
  next
    case False
    with 1(2) have less: "name_key (node_name a) < name_key (node_name b)" by (simp add: order.strict_iff_order)
    have "name_key (node_name a) \<notin> (\<lambda>n. name_key (node_name n)) ` set (b # rest)"
    proof
      assume "name_key (node_name a) \<in> (\<lambda>n. name_key (node_name n)) ` set (b # rest)"
      then obtain x where "x \<in> set (b # rest)" "name_key (node_name x) = name_key (node_name a)" by (metis imageE)
      moreover have "name_key (node_name b) \<le> name_key (node_name x)" if "x \<in> set (b # rest)" for x using 1(2) that by auto
      ultimately show False using less by (metis leD)
    qed
    then show ?thesis using 1 False by (simp add: CompareNames_key)
  qed
qed simp_all

lemma name_less_sort: "sort_by name_less ns = sort_key (\<lambda>n. name_key (node_name n)) ns"
  by (rule sort_by_key) (simp add: name_less_def CompareNames_key)

lemma element_less_sort: "sort_by element_less es = sort_key (\<lambda>e. name_key (node_name (fst e))) es"
  by (rule sort_by_key) (simp add: element_less_def CompareNames_key)

lemma distinct_map_mset: "mset xs = mset ys \<Longrightarrow> distinct (map f xs) \<longleftrightarrow> distinct (map f ys)"
  by (metis mset_eq_imp_distinct_iff mset_map)

lemma RejectDuplicateNames_iff:
  "same_neighbours (sort_by name_less ns) = None \<longleftrightarrow> distinct (map (\<lambda>n. name_key (node_name n)) ns)"
  using same_neighbours_distinct [of "sort_by name_less ns"]
    distinct_map_mset [of "sort_by name_less ns" ns "\<lambda>n. name_key (node_name n)"]
  by (simp add: name_less_sort)

lemma CheckUniqueNames_iff:
  "CheckUniqueNames es = Inr u \<longleftrightarrow> distinct (map (\<lambda>e. name_key (node_name (fst e))) es)"
proof -
  have "same_neighbours (map fst (sort_by element_less es)) = None \<longleftrightarrow> distinct (map (\<lambda>e. name_key (node_name (fst e))) es)"
    using same_neighbours_distinct [of "map fst (sort_by element_less es)"]
      distinct_map_mset [of "sort_by element_less es" es "\<lambda>e. name_key (node_name (fst e))"]
    by (simp add: element_less_sort comp_def)
  then show ?thesis by (auto simp: CheckUniqueNames_def ThrowMalformed_def split: option.splits)
qed

section \<open>Comparing pieces\<close>

definition piece_bytes :: "Piece \<Rightarrow> bytes" where
  "piece_bytes p = segment (pc_at p) (unat (pc_length p)) (pc_block p)"

definition pieces_bytes :: "Piece list \<Rightarrow> bytes" where
  "pieces_bytes ps = concat (map piece_bytes ps)"

definition pieces_ok :: "Piece list \<Rightarrow> bool" where
  "pieces_ok ps \<longleftrightarrow> (\<forall>p \<in> set ps. pc_at p + unat (pc_length p) \<le> length (pc_block p))"

lemma pieces_simps [simp]:
  "pieces_bytes [] = []" "pieces_bytes (p # ps) = piece_bytes p @ pieces_bytes ps" "pieces_ok []"
  "pieces_ok (p # ps) \<longleftrightarrow> pc_at p + unat (pc_length p) \<le> length (pc_block p) \<and> pieces_ok ps"
  by (simp_all add: pieces_bytes_def pieces_ok_def)

lemma length_piece: "pc_at p + unat (pc_length p) \<le> length (pc_block p) \<Longrightarrow> length (piece_bytes p) = unat (pc_length p)"
  by (simp add: piece_bytes_def)

lemma piece_empty: "pc_at p + unat (pc_length p) \<le> length (pc_block p) \<Longrightarrow> piece_bytes p = [] \<longleftrightarrow> pc_length p = 0"
  by (metis length_0_conv length_piece unat_eq_zero)

lemma pieces_empty: "pieces_ok ps \<Longrightarrow> dropWhile (\<lambda>p. pc_length p = 0) ps = [] \<longleftrightarrow> pieces_bytes ps = []"
  by (induction ps) (auto simp: piece_empty)

definition used_ok :: "Piece list \<Rightarrow> u64 \<Rightarrow> bool" where
  "used_ok ps used \<longleftrightarrow> used = 0 \<or> (\<exists>p qs. ps = p # qs \<and> used < pc_length p)"

lemma used_rest:
  assumes "pieces_ok ps" and "used_ok ps used" and "ps = [] \<or> dropWhile (\<lambda>p. pc_length p = 0) ps = []"
  shows "drop (unat used) (pieces_bytes ps) = []"
  using assms pieces_empty [OF assms(1)] by auto

lemma drop_eq_split: "n \<le> length xs \<Longrightarrow> n \<le> length ys \<Longrightarrow> xs = ys \<longleftrightarrow> take n xs = take n ys \<and> drop n xs = drop n ys"
  by (metis append_take_drop_id)

text \<open>The loop decides whether two sequences of pieces hold the same bytes.\<close>

lemma SameBytes_rest:
  "pieces_ok as \<Longrightarrow> pieces_ok bs \<Longrightarrow> used_ok as ua \<Longrightarrow> used_ok bs ub \<Longrightarrow>
    SameBytes as bs ua ub = Inr (drop (unat ua) (pieces_bytes as) = drop (unat ub) (pieces_bytes bs))"
proof (induction as bs ua ub rule: SameBytes.induct)
  case (1 a as b bs ua ub)
  let ?la = "pc_length a - ua" and ?lb = "pc_length b - ub"
  let ?n = "min ?la ?lb"
  have ua: "ua \<le> pc_length a" and ub: "ub \<le> pc_length b" using 1(4,5) by (auto simp: used_ok_def)
  have la: "unat ?la = unat (pc_length a) - unat ua" and lb: "unat ?lb = unat (pc_length b) - unat ub"
    using ua ub by (simp_all add: unat_diff_nowrap)
  have n: "unat ?n = min (unat ?la) (unat ?lb)" by (simp add: min_def word_le_nat_alt)
  have ula: "unat ua \<le> unat (pc_length a)" "unat ub \<le> unat (pc_length b)" using ua ub by (simp_all add: word_le_nat_alt)
  have next_a: "unat (ua + ?n) = unat ua + unat ?n" and next_b: "unat (ub + ?n) = unat ub + unat ?n"
    using n la lb ula unat_u64_less [of "pc_length a"] unat_u64_less [of "pc_length b"] by (auto simp: unat_add_nowrap)
  have a_ok: "pc_at a + unat (pc_length a) \<le> length (pc_block a)" "pieces_ok as"
    and b_ok: "pc_at b + unat (pc_length b) \<le> length (pc_block b)" "pieces_ok bs" using 1(2,3) by simp_all
  have read_a: "mem_read (pc_block a) (pc_at a + unat ua) (unat ?n) = Inr (take (unat ?n) (drop (unat ua) (piece_bytes a)))"
    and read_b: "mem_read (pc_block b) (pc_at b + unat ub) (unat ?n) = Inr (take (unat ?n) (drop (unat ub) (piece_bytes b)))"
    using a_ok b_ok ula n la lb by (auto simp: mem_read_def piece_bytes_def segment_def drop_take take_take min_def add.commute)
  have lens: "length (piece_bytes a) = unat (pc_length a)" "length (piece_bytes b) = unat (pc_length b)"
    using a_ok b_ok by (simp_all add: length_piece)
  let ?A = "drop (unat ua) (pieces_bytes (a # as))" and ?B = "drop (unat ub) (pieces_bytes (b # bs))"
  have take_a: "take (unat ?n) (drop (unat ua) (piece_bytes a)) = take (unat ?n) ?A"
    and take_b: "take (unat ?n) (drop (unat ub) (piece_bytes b)) = take (unat ?n) ?B"
    using lens ula n la lb by simp_all
  have split: "?A = ?B \<longleftrightarrow> take (unat ?n) ?A = take (unat ?n) ?B \<and> drop (unat ?n) ?A = drop (unat ?n) ?B"
  proof (rule drop_eq_split)
    have "unat ?n \<le> unat (pc_length a) - unat ua" "unat ?n \<le> unat (pc_length b) - unat ub" using n la lb by simp_all
    moreover have "length ?A = unat (pc_length a) + length (pieces_bytes as) - unat ua"
      "length ?B = unat (pc_length b) + length (pieces_bytes bs) - unat ub" using lens by simp_all
    ultimately show "unat ?n \<le> length ?A" "unat ?n \<le> length ?B" by linarith+
  qed
  define ea where "ea \<longleftrightarrow> ua + ?n = pc_length a"
  define eb where "eb \<longleftrightarrow> ub + ?n = pc_length b"
  let ?as = "if ea then as else a # as" and ?bs = "if eb then bs else b # bs"
  let ?ua = "if ea then 0 else ua + ?n" and ?ub = "if eb then 0 else ub + ?n"
  have cond: "(if ?n \<noteq> 0 then bindE (mem_read (pc_block a) (pc_at a + unat ua) (unat ?n))
        (\<lambda>xs. bindE (mem_read (pc_block b) (pc_at b + unat ub) (unat ?n)) (\<lambda>ys. Inr (xs = ys)))
      else Inr True) = (Inr (take (unat ?n) ?A = take (unat ?n) ?B) :: bool res)"
  proof (cases "?n = 0")
    case True
    then have "unat ?n = 0" by simp
    then show ?thesis using True by (simp only: take_0) simp
  qed (simp only: read_a read_b bindE_simps take_a take_b, simp)
  have step: "SameBytes (a # as) (b # bs) ua ub =
      (if \<not> take (unat ?n) ?A = take (unat ?n) ?B then Inr False else SameBytes ?as ?bs ?ua ?ub)"
    unfolding SameBytes.simps(1) Let_def ea_def eb_def cond bindE_simps ..
  have rest: "drop (unat (pc_length p)) (pieces_bytes (p # ps)) = pieces_bytes ps"
    if "length (piece_bytes p) = unat (pc_length p)" for p ps
    using that by simp
  have "drop (unat ?n) ?A = drop (unat (ua + ?n)) (pieces_bytes (a # as))"
    unfolding drop_drop next_a by (simp only: add.commute)
  also have "\<dots> = drop (unat ?ua) (pieces_bytes ?as)"
    using rest [OF lens(1), of as] by (simp only: ea_def split: if_split) simp
  finally have drop_a: "drop (unat ?n) ?A = drop (unat ?ua) (pieces_bytes ?as)" .
  have "drop (unat ?n) ?B = drop (unat (ub + ?n)) (pieces_bytes (b # bs))"
    unfolding drop_drop next_b by (simp only: add.commute)
  also have "\<dots> = drop (unat ?ub) (pieces_bytes ?bs)"
    using rest [OF lens(2), of bs] by (simp only: eb_def split: if_split) simp
  finally have drop_b: "drop (unat ?n) ?B = drop (unat ?ub) (pieces_bytes ?bs)" .
  have ended: "ea \<or> unat (ua + ?n) < unat (pc_length a)" "eb \<or> unat (ub + ?n) < unat (pc_length b)"
  proof -
    have "unat ?n \<le> unat ?la" "unat ?n \<le> unat ?lb" using n by simp_all
    then have "unat (ua + ?n) \<le> unat (pc_length a)" "unat (ub + ?n) \<le> unat (pc_length b)"
      using next_a next_b la lb ula by linarith+
    then show "ea \<or> unat (ua + ?n) < unat (pc_length a)" "eb \<or> unat (ub + ?n) < unat (pc_length b)"
      unfolding ea_def eb_def word_unat_eq_iff by linarith+
  qed
  have used: "used_ok ?as ?ua" "used_ok ?bs ?ub"
    using ended by (auto simp: used_ok_def word_less_nat_alt)
  have oks: "pieces_ok ?as" "pieces_ok ?bs" using 1(2,3) by simp_all
  show ?case
  proof (cases "take (unat ?n) ?A = take (unat ?n) ?B")
    case True
    have "SameBytes ?as ?bs ?ua ?ub = Inr (drop (unat ?ua) (pieces_bytes ?as) = drop (unat ?ub) (pieces_bytes ?bs))"
    proof (rule 1(1) [OF refl refl refl, of True, unfolded ea_def [symmetric] eb_def [symmetric]])
      show "(if ?n \<noteq> 0 then bindE (mem_read (pc_block a) (pc_at a + unat ua) (unat ?n))
          (\<lambda>xs. bindE (mem_read (pc_block b) (pc_at b + unat ub) (unat ?n)) (\<lambda>ys. Inr (xs = ys)))
        else Inr True) = (Inr True :: bool res)"
        using cond True by (simp only: True)
    qed (use used oks in \<open>simp_all add: ea_def eb_def\<close>)
    then show ?thesis using True step split drop_a drop_b by simp
  next
    case False
    then show ?thesis using step split by simp
  qed
next
  case (2 bs ua ub)
  have "drop (unat ub) (pieces_bytes bs) = [] \<longleftrightarrow> pieces_bytes bs = []"
    using 2(2,4) by (auto simp: used_ok_def word_less_nat_alt length_piece)
  then have "dropWhile (\<lambda>p. pc_length p = 0) bs = [] \<longleftrightarrow> drop (unat ua) (pieces_bytes []) = drop (unat ub) (pieces_bytes bs)"
    unfolding pieces_empty [OF 2(2)] by auto
  then show ?case unfolding SameBytes.simps(2) by (simp only:)
next
  case (3 a as ua ub)
  have "drop (unat ua) (pieces_bytes (a # as)) = [] \<longleftrightarrow> pieces_bytes (a # as) = []"
  proof (cases "ua = 0")
    case False
    with 3(3) have "unat ua < unat (pc_length a)" by (simp add: used_ok_def word_less_nat_alt)
    then have "unat ua < length (pieces_bytes (a # as))" using 3(1) length_piece [of a] by simp
    then show ?thesis by (metis drop_eq_Nil linorder_not_less list.size(3) not_less0)
  qed simp
  then have "dropWhile (\<lambda>p. pc_length p = 0) (a # as) = [] \<longleftrightarrow>
      drop (unat ua) (pieces_bytes (a # as)) = drop (unat ub) (pieces_bytes [])"
    unfolding pieces_empty [OF 3(1)] by simp
  then show ?case unfolding SameBytes.simps(3) by (simp only:)
qed

lemma SameBytes_eq: "pieces_ok as \<Longrightarrow> pieces_ok bs \<Longrightarrow> SameBytes as bs 0 0 = Inr (pieces_bytes as = pieces_bytes bs)"
  using SameBytes_rest [of as bs 0 0] by (simp add: used_ok_def)

section \<open>Entries as a tree\<close>

text \<open>
  The tree below position \<open>p\<close>, of entries whose positions below the root are at least \<open>b\<close>.
\<close>

fun entry_tree :: "Entry list \<Rightarrow> nat \<Rightarrow> nat \<Rightarrow> item \<Rightarrow> bool" where
  "entry_tree es b p (StreamItem mt bs) \<longleftrightarrow>
     p < length es \<and> \<not> is_storage (en_node (es ! p)) \<and> mt = meta_of (en_node (es ! p)) \<and>
     pieces_ok (en_pieces (es ! p)) \<and> bs = pieces_bytes (en_pieces (es ! p))"
| "entry_tree es b p (StorageItem mt ts) \<longleftrightarrow>
     p < length es \<and> is_storage (en_node (es ! p)) \<and> mt = meta_of (en_node (es ! p)) \<and>
     list_all2 (\<lambda>q t. b \<le> unat q \<and> entry_tree es b (unat q) t) (en_children (es ! p)) ts"

definition core :: "Entry \<Rightarrow> CfbNode \<times> Piece list \<times> u32 list" where
  "core e = (en_node e, en_pieces e, en_children e)"

lemma entry_tree_frame:
  "entry_tree es b p t \<Longrightarrow> length es \<le> length es' \<Longrightarrow>
    (\<And>q. q < length es \<Longrightarrow> q = p \<or> b \<le> q \<Longrightarrow> core (es' ! q) = core (es ! q)) \<Longrightarrow> entry_tree es' b p t"
proof (induction t arbitrary: p)
  case (StreamItem mt bs)
  then have "core (es' ! p) = core (es ! p)" by simp
  with StreamItem show ?case by (simp add: core_def)
next
  case (StorageItem mt ts)
  from StorageItem.prems have p: "core (es' ! p) = core (es ! p)" by simp
  have "b \<le> unat q \<and> entry_tree es' b (unat q) t"
    if "t \<in> set ts" "b \<le> unat q \<and> entry_tree es b (unat q) t" for q t
    using StorageItem.IH [OF that(1)] StorageItem.prems(2,3) that(2) by auto
  then have "list_all2 (\<lambda>q t. b \<le> unat q \<and> entry_tree es' b (unat q) t) (en_children (es ! p)) ts"
    using StorageItem.prems(1) unfolding entry_tree.simps by (elim conjE list.rel_mono_strong) blast
  with StorageItem.prems p show ?case by (simp add: core_def)
qed

lemma entry_tree_mono: "entry_tree es b p t \<Longrightarrow> b' \<le> b \<Longrightarrow> entry_tree es b' p t"
proof (induction t arbitrary: p)
  case (StorageItem mt ts)
  have "b' \<le> unat q \<and> entry_tree es b' (unat q) t"
    if "t \<in> set ts" "b \<le> unat q \<and> entry_tree es b (unat q) t" for q t
    using StorageItem.IH [OF that(1)] StorageItem.prems(2) that(2) by auto
  then have "list_all2 (\<lambda>q t. b' \<le> unat q \<and> entry_tree es b' (unat q) t) (en_children (es ! p)) ts"
    using StorageItem.prems(1) unfolding entry_tree.simps by (elim conjE list.rel_mono_strong) blast
  with StorageItem.prems show ?case by simp
qed simp

section \<open>The self-check\<close>

lemma PieceOf_eq:
  assumes "span_ok (source m) c" and "extents_in c xs"
  shows "\<exists>ps. mapE (PieceOf m) xs = Inr ps \<and> pieces_ok ps \<and> pieces_bytes ps = extents_bytes c xs"
  using assms(2)
proof (induction xs)
  case (Cons e xs)
  then have fits: "unat (ext_offset e) + unat (ext_length e) \<le> length c" and "extents_in c xs" by (simp_all add: extents_in_def)
  with Cons.IH obtain ps where "mapE (PieceOf m) xs = Inr ps" "pieces_ok ps" "pieces_bytes ps = extents_bytes c xs" by blast
  moreover have "PieceOf m e = Inr \<lparr>pc_block = c, pc_at = unat (ext_offset e), pc_length = ext_length e\<rparr>"
    by (simp add: PieceOf_def Source_def Data_eq [OF assms(1)])
  ultimately show ?case using fits by (simp add: piece_bytes_def extents_bytes_def extent_bytes_def)
qed simp

lemma CheckStream_Inr:
  assumes st: "state_after host m c ds m1" and run: "CheckStream host e got (m1, k1) = Inr (m2, k2)"
    and ok: "pieces_ok (en_pieces e)"
  shows "\<exists>xs. solo host m got = Inr xs \<and> pieces_bytes (en_pieces e) = extents_bytes c xs"
    and "resolves host [got] (m1, k1) = Some (m2, k2)"
proof -
  obtain xs written where r: "Resolve host m1 got k1 = (Inr xs, m2, k2)" and w: "mapE (PieceOf m2) xs = Inr written"
    and same: "SameBytes (en_pieces e) written 0 0 = Inr True"
    using run by (auto simp: CheckStream_def ThrowDifference_def ThrowMalformed_def split: prod.splits if_splits)
  have "extents_in c xs" using Resolve_spec(4) [OF state_after_ok(1) [OF st] r] by simp
  from PieceOf_eq [OF state_after_ok(3) [OF Resolve_extends [OF st r]] this] w
  have "pieces_ok written" "pieces_bytes written = extents_bytes c xs" by auto
  then show "\<exists>xs. solo host m got = Inr xs \<and> pieces_bytes (en_pieces e) = extents_bytes c xs"
    using same SameBytes_eq [OF ok] Resolve_solo [OF st r] by auto
  show "resolves host [got] (m1, k1) = Some (m2, k2)" using r by simp
qed

text \<open>A reader that searches the directory finds every entry of every storage.\<close>

function searchable :: "CfbNode \<Rightarrow> bool" where
  "searchable n \<longleftrightarrow>
     (is_storage n \<longrightarrow>
        list_all (\<lambda>i. FindBySearch n (node_name (node_children n ! i)) = Inr (Some i)) [0..<length (node_children n)] \<and>
        list_all searchable (node_children n))"
  by pat_completeness auto
termination
  by (relation "measure size") (auto dest: child_size)

declare searchable.simps [simp del]

lemma foldE_resolves:
  assumes each: "\<And>x ds m1 k1 m2 k2. x \<in> set xs \<Longrightarrow> state_after host m c ds m1 \<Longrightarrow> f (m1, k1) x = Inr (m2, k2) \<Longrightarrow>
      Q x \<and> resolves host (S x) (m1, k1) = Some (m2, k2)"
  shows "state_after host m c ds m1 \<Longrightarrow> foldE f (m1, k1) xs = Inr (m2, k2) \<Longrightarrow>
      (\<forall>x \<in> set xs. Q x) \<and> resolves host (concat (map S xs)) (m1, k1) = Some (m2, k2)"
  using each
proof (induction xs arbitrary: ds m1 k1)
  case (Cons x xs)
  from Cons.prems(2) obtain m' k' where one: "f (m1, k1) x = Inr (m', k')" and rest: "foldE f (m', k') xs = Inr (m2, k2)"
    by auto
  have x: "Q x" "resolves host (S x) (m1, k1) = Some (m', k')" using Cons.prems(3) [OF _ Cons.prems(1) one] by simp_all
  from Cons.IH [OF resolves_state [OF Cons.prems(1) x(2)] rest] Cons.prems(3) x
  show ?case by (simp add: resolves_append)
qed simp

lemma ThrowDifference_Inr [simp]: "ThrowDifference name what \<noteq> Inr x"
  by (simp add: ThrowDifference_def ThrowMalformed_def)

lemma CompareEntry_Inr:
  assumes fr: "fresh host m c"
  shows "state_after host m c ds m1 \<Longrightarrow> entry_tree es b (unat pos) t \<Longrightarrow>
    CompareEntry host es pos got (m1, k1) = Inr (m2, k2) \<Longrightarrow>
    (contents host m got = Inr t \<and> searchable got) \<and> resolves host (all_streams got) (m1, k1) = Some (m2, k2)"
proof (induction t arbitrary: pos got ds m1 k1 m2 k2)
  case (StreamItem mt bs)
  define e where "e = es ! unat pos"
  have e: "at_index es (unat pos) = Inr e" "\<not> is_storage (en_node e)" "mt = meta_of (en_node e)"
    "pieces_ok (en_pieces e)" "bs = pieces_bytes (en_pieces e)"
    using StreamItem.prems(2) by (simp_all add: e_def at_index_def)
  from StreamItem.prems(3) e(1,2) have meta: "meta_of (en_node e) = meta_of got" "\<not> is_storage got"
    and chk: "CheckStream host e got (m1, k1) = Inr (m2, k2)"
    by (simp_all add: CompareEntry.simps [of host es pos] Let_def meta_of_def split: if_splits)
  note c = CheckStream_Inr [OF StreamItem.prems(1) chk e(4)]
  then show ?case
    using meta e by (auto simp: contents_stream [OF fr] all_streams.simps [of got] searchable.simps [of got])
next
  case (StorageItem mt ts)
  define e where "e = es ! unat pos"
  have e: "at_index es (unat pos) = Inr e" "is_storage (en_node e)" "mt = meta_of (en_node e)"
    and kids: "list_all2 (\<lambda>q t. b \<le> unat q \<and> entry_tree es b (unat q) t) (en_children e) ts"
    using StorageItem.prems(2) by (simp_all add: e_def at_index_def)
  let ?n = "length (en_children e)"
  let ?xs = "zip [0..<?n] (zip (en_children e) (node_children got))"
  define step where "step = (\<lambda>st (i, child_position, child).
         bindE (at_index es (unat child_position)) (\<lambda>child_entry.
         bindE (FindBySearch got (node_name (en_node child_entry))) (\<lambda>found.
         if found \<noteq> Some i then ThrowDifference (node_name (en_node child_entry)) ''place in the search tree''
         else CompareEntry host es child_position child st)))"
  from StorageItem.prems(3) e(1,2) have meta: "meta_of (en_node e) = meta_of got" "is_storage got"
    and len: "length (node_children got) = ?n" and fold: "foldE step (m1, k1) ?xs = Inr (m2, k2)"
    by (simp_all add: CompareEntry.simps [of host es pos] Let_def meta_of_def step_def split: if_splits)
  have len_ts: "length ts = ?n" using kids by (simp add: list_all2_lengthD)
  have mem: "i < ?n \<and> q = en_children e ! i \<and> child = node_children got ! i" if "(i, q, child) \<in> set ?xs" for i q child
    using that len by (auto simp: set_zip)
  have each: "(case x of (i, q, child) \<Rightarrow>
        (contents host m child = Inr (ts ! i) \<and> searchable child) \<and> FindBySearch got (node_name child) = Inr (Some i)) \<and>
      resolves host (case x of (i, q, child) \<Rightarrow> all_streams child) (m1, k1) = Some (m2, k2)"
    if x: "x \<in> set ?xs" and st: "state_after host m c ds m1" and run: "step (m1, k1) x = Inr (m2, k2)" for x ds m1 k1 m2 k2
  proof -
    obtain i q child where xe: "x = (i, q, child)" by (cases x)
    with mem x have i: "i < ?n" "q = en_children e ! i" "child = node_children got ! i" by auto
    then have tree: "entry_tree es b (unat q) (ts ! i)" and t: "ts ! i \<in> set ts"
      using kids len_ts by (auto simp: list_all2_conv_all_nth)
    from run xe obtain ce where ce: "at_index es (unat q) = Inr ce" and found: "FindBySearch got (node_name (en_node ce)) = Inr (Some i)"
      and cmp: "CompareEntry host es q child (m1, k1) = Inr (m2, k2)"
      by (auto simp: step_def split: if_splits)
    note IH = StorageItem.IH [OF t st tree cmp]
    have "node_name (en_node ce) = node_name child"
      using cmp ce by (simp add: CompareEntry.simps [of host es q] Let_def split: if_splits)
    with IH found xe show ?thesis by simp
  qed
  have maps: "map (\<lambda>(i, q, child). all_streams child) ?xs = map all_streams (node_children got)"
    using len by (intro nth_equalityI) (auto simp: case_prod_beta)
  have all: "(\<forall>x \<in> set ?xs. case x of (i, q, child) \<Rightarrow>
        (contents host m child = Inr (ts ! i) \<and> searchable child) \<and> FindBySearch got (node_name child) = Inr (Some i)) \<and>
      resolves host (concat (map (\<lambda>(i, q, child). all_streams child) ?xs)) (m1, k1) = Some (m2, k2)"
    by (rule foldE_resolves [OF each StorageItem.prems(1) fold])
  have nth: "(i, en_children e ! i, node_children got ! i) \<in> set ?xs" if "i < ?n" for i
    using that len in_set_conv_nth [of "(i, en_children e ! i, node_children got ! i)" ?xs] by auto
  then have child: "contents host m (node_children got ! i) = Inr (ts ! i) \<and> searchable (node_children got ! i) \<and>
      FindBySearch got (node_name (node_children got ! i)) = Inr (Some i)" if "i < ?n" for i
    using all that by fastforce
  then have "mapE (contents host m) (node_children got) = Inr ts"
    using len len_ts by (auto simp: mapE_Inr_iff list_all2_conv_all_nth)
  moreover have "searchable got"
    using child len meta by (auto simp: searchable.simps [of got] list_all_length list_all_iff)
  ultimately show ?case
    using all meta e unfolding maps by (simp add: contents_storage all_streams.simps [of got])
qed

section \<open>The intended package\<close>

definition item_less :: "item \<Rightarrow> item \<Rightarrow> bool" where
  "item_less a b \<longleftrightarrow> CompareNames (item_name a) (item_name b) < 0"

text \<open>Every storage in the order of the format.\<close>

fun canonical :: "item \<Rightarrow> item" where
  "canonical (StreamItem mt bs) = StreamItem mt bs"
| "canonical (StorageItem mt ts) = StorageItem mt (sort_by item_less (map canonical ts))"

lemma canonical_name [simp]: "item_name (canonical t) = item_name t"
  by (cases t) (simp_all add: item_name_def)

definition node_items :: "ByteOrder \<Rightarrow> PackageModel \<Rightarrow> bytes \<Rightarrow> element \<Rightarrow> item \<Rightarrow> bool" where
  "node_items host m sb = (\<lambda>(n, f) t.
     if f then \<not> is_storage n \<and> t = StreamItem (meta_of n) sb
     else \<exists>t0. contents host m n = Inr t0 \<and> t = canonical t0)"

definition entry_for :: "ByteOrder \<Rightarrow> PackageModel \<Rightarrow> bytes \<Rightarrow> bytes \<Rightarrow> element \<Rightarrow> Entry \<Rightarrow> bool" where
  "entry_for host m c sb = (\<lambda>(n, f) e.
     en_node e = n \<and> en_children e = [] \<and>
     (\<not> is_storage n \<longrightarrow> pieces_ok (en_pieces e) \<and>
        (if f then pieces_bytes (en_pieces e) = sb
         else \<exists>xs. solo host m n = Inr xs \<and> pieces_bytes (en_pieces e) = extents_bytes c xs)))"

definition sig_bytes :: "bytes option \<Rightarrow> bytes" where
  "sig_bytes signature = (case signature of None \<Rightarrow> [] | Some bs \<Rightarrow> bs)"

lemma AddEntry_Inr:
  assumes st: "state_after host m c ds m1" and sb: "length (sig_bytes signature) < 2 ^ 64"
    and run: "AddEntry host signature ((m1, k1, es), ps) (n, f) = Inr ((m2, k2, es2), ps2)"
  shows "\<exists>e ns. es2 = es @ [e] \<and> ps2 = ps @ [word_of_nat (length es)] \<and>
    entry_for host m c (sig_bytes signature) (n, f) e \<and> state_after host m c (ds @ ns) m2"
proof -
  consider (storage) "is_storage n" | (sig) "\<not> is_storage n" "f" | (stream) "\<not> is_storage n" "\<not> f" by blast
  then show ?thesis
  proof cases
    case storage
    then show ?thesis using run st
      by (intro exI [of _ "Entry_of n"] exI [of _ "[]"]) (auto simp: AddEntry_def entry_for_def Entry_of_def Let_def)
  next
    case sig
    let ?p = "\<lparr>pc_block = sig_bytes signature, pc_at = 0, pc_length = word_of_nat (length (sig_bytes signature))\<rparr>"
    have "unat (word_of_nat (length (sig_bytes signature)) :: u64) = length (sig_bytes signature)"
      using sb by (simp add: unat_of_nat_small)
    then have "pieces_ok [?p]" "pieces_bytes [?p] = sig_bytes signature" by (simp_all add: piece_bytes_def)
    then show ?thesis using sig run st
      by (intro exI [of _ "Entry_of n\<lparr>en_size := pc_length ?p, en_pieces := [?p]\<rparr>"] exI [of _ "[]"])
        (auto simp: AddEntry_def entry_for_def Entry_of_def Let_def sig_bytes_def)
  next
    case stream
    then obtain xs pieces where r: "Resolve host m1 n k1 = (Inr xs, m2, k2)" and p: "mapE (PieceOf m2) xs = Inr pieces"
      and es2: "es2 = es @ [Entry_of n\<lparr>en_size := node_size n, en_pieces := pieces\<rparr>]" and ps2: "ps2 = ps @ [word_of_nat (length es)]"
      using run by (auto simp: AddEntry_def Let_def split: prod.splits)
    have "extents_in c xs" using Resolve_spec(4) [OF state_after_ok(1) [OF st] r] by simp
    from PieceOf_eq [OF state_after_ok(3) [OF Resolve_extends [OF st r]] this] p
    have "pieces_ok pieces" "pieces_bytes pieces = extents_bytes c xs" by auto
    then show ?thesis using stream es2 ps2 Resolve_solo [OF st r] Resolve_extends [OF st r]
      by (intro exI [of _ "Entry_of n\<lparr>en_size := node_size n, en_pieces := pieces\<rparr>"] exI [of _ "[n]"])
        (auto simp: entry_for_def Entry_of_def)
  qed
qed

lemma AddEntries_Inr:
  assumes sb: "length (sig_bytes signature) < 2 ^ 64"
  shows "state_after host m c ds m1 \<Longrightarrow>
    foldE (AddEntry host signature) ((m1, k1, es), ps) els = Inr ((m2, k2, es2), ps2) \<Longrightarrow>
    \<exists>new ns. es2 = es @ new \<and> ps2 = ps @ map word_of_nat [length es..<length es + length els] \<and>
      list_all2 (entry_for host m c (sig_bytes signature)) els new \<and> state_after host m c (ds @ ns) m2"
proof (induction els arbitrary: ds m1 k1 es ps)
  case Nil
  then show ?case by (auto intro: exI [of _ "[]"])
next
  case (Cons el els)
  obtain n f where el: "el = (n, f)" by (cases el)
  from Cons.prems(2) obtain m' k' es' ps' where one: "AddEntry host signature ((m1, k1, es), ps) (n, f) = Inr ((m', k', es'), ps')"
    and rest: "foldE (AddEntry host signature) ((m', k', es'), ps') els = Inr ((m2, k2, es2), ps2)"
    by (auto simp: el)
  from AddEntry_Inr [OF Cons.prems(1) sb one] obtain e ns where e: "es' = es @ [e]" "ps' = ps @ [word_of_nat (length es)]"
    "entry_for host m c (sig_bytes signature) (n, f) e" and st: "state_after host m c (ds @ ns) m'" by blast
  from Cons.IH [OF st rest] obtain new ns' where new: "es2 = es' @ new"
    "ps2 = ps' @ map word_of_nat [length es'..<length es' + length els]"
    "list_all2 (entry_for host m c (sig_bytes signature)) els new" "state_after host m c ((ds @ ns) @ ns') m2" by blast
  have "[length es..<length es + length (el # els)] = length es # [Suc (length es)..<Suc (length es) + length els]"
    by (simp add: upt_rec)
  with e new el show ?case by (intro exI [of _ "e # new"] exI [of _ "ns @ ns'"]) simp
qed

subsection \<open>How many entries there are\<close>

function node_count :: "CfbNode \<Rightarrow> nat" where
  "node_count n = 1 + (if is_storage n then sum_list (map node_count (node_children n)) else 0)"
  by pat_completeness auto
termination
  by (relation "measure size") (auto dest: child_size)

declare node_count.simps [simp del]

definition element_count :: "element list \<Rightarrow> nat" where
  "element_count els = sum_list (map (\<lambda>e. node_count (fst e)) els)"

lemma AddEntries_length:
  "foldE (AddEntry host signature) ((m1, k1, es), ps) els = Inr ((m2, k2, es2), ps2) \<Longrightarrow> length es2 = length es + length els"
proof (induction els arbitrary: m1 k1 es ps)
  case (Cons el els)
  then obtain m' k' es' ps' where one: "AddEntry host signature ((m1, k1, es), ps) el = Inr ((m', k', es'), ps')"
    and rest: "foldE (AddEntry host signature) ((m', k', es'), ps') els = Inr ((m2, k2, es2), ps2)" by auto
  have "length es' = Suc (length es)"
    using one by (auto simp: AddEntry_def Let_def split: prod.splits if_splits)
  with Cons.IH [OF rest] show ?case by simp
qed simp

end
