(* ===== verification/Cfb_Flatten.thy ===== *)
theory Cfb_Flatten
  imports Cfb_Writer_Spec
begin

text \<open>
  The entries the flattener lays out are the tree of the package, every storage in the order of the format and the
  signature in its place.
\<close>

definition expand_step :: "ByteOrder \<Rightarrow> bytes option \<Rightarrow> flat_state \<Rightarrow> u32 \<times> element \<Rightarrow> flat_state res" where
  "expand_step host signature = (\<lambda>st (position, node, _).
     if is_storage node then Expand host signature position (map (\<lambda>child. (child, False)) (node_children node)) st
     else Inr st)"

lemma Expand_cases:
  assumes "Expand host signature parent els st = Inr st2"
  obtains m k es ps where "CheckUniqueNames els = Inr ()"
    and "foldE (AddEntry host signature) (st, []) (sort_by element_less els) = Inr ((m, k, es), ps)"
    and "unat parent < length es"
    and "foldE (expand_step host signature) (m, k, es[unat parent := (es ! unat parent)\<lparr>en_children := ps\<rparr>])
      (zip ps (sort_by element_less els)) = Inr st2"
proof -
  let ?sorted = "sort_by element_less els"
  have "bindE (CheckUniqueNames els) (\<lambda>_. bindE (foldE (AddEntry host signature) (st, []) ?sorted) (\<lambda>((m, k, es), ps).
      bindE (at_index es (unat parent)) (\<lambda>pe.
        foldE (expand_step host signature) (m, k, es[unat parent := pe\<lparr>en_children := ps\<rparr>]) (zip ps ?sorted)))) = Inr st2"
    using assms unfolding Expand.simps [of host signature parent] Let_def expand_step_def .
  then obtain u m k es ps pe where "CheckUniqueNames els = Inr u"
    "foldE (AddEntry host signature) (st, []) ?sorted = Inr ((m, k, es), ps)" and pe: "at_index es (unat parent) = Inr pe"
    and "foldE (expand_step host signature) (m, k, es[unat parent := pe\<lparr>en_children := ps\<rparr>]) (zip ps ?sorted) = Inr st2"
    by (elim bindE_InrE) (auto split: prod.splits)
  moreover have "unat parent < length es" "pe = es ! unat parent" using pe by (simp_all add: at_index_def split: if_splits)
  ultimately show thesis using that by simp
qed

lemma element_count_sort: "element_count (sort_by element_less els) = element_count els"
  unfolding element_count_def by (simp flip: sum_mset_sum_list)

lemma children_count: "is_storage n \<Longrightarrow> node_count n = Suc (element_count (map (\<lambda>child. (child, False)) (node_children n)))"
  by (simp add: node_count.simps [of n] element_count_def comp_def)

lemma element_size: "(n, f) \<in> set els \<Longrightarrow> size_list (\<lambda>e. size (fst e)) (map (\<lambda>child. (child, False)) (node_children n)) < size_list (\<lambda>e. size (fst e)) els"
  using size_list_estimation' [of "(n, f)" els "size n" "\<lambda>e. size (fst e)"] children_size [of n] by (simp add: comp_def)

lemma Expand_length:
  "Expand host signature parent els (m1, k1, es) = Inr (m2, k2, es2) \<Longrightarrow> length es2 = length es + element_count els"
proof (induction "size_list (\<lambda>e. size (fst e)) els" arbitrary: parent els m1 k1 es m2 k2 es2 rule: less_induct)
  case less
  obtain m k esa ps where "CheckUniqueNames els = Inr ()" and add:
    "foldE (AddEntry host signature) ((m1, k1, es), []) (sort_by element_less els) = Inr ((m, k, esa), ps)"
    and "unat parent < length esa" and fold: "foldE (expand_step host signature) (m, k, esa[unat parent := (esa ! unat parent)\<lparr>en_children := ps\<rparr>])
      (zip ps (sort_by element_less els)) = Inr (m2, k2, es2)"
    by (rule Expand_cases [OF less.prems])
  have all: "set (sort_by element_less els) \<subseteq> set els" by simp
  have "length es3 = length esb + sum_list (map (\<lambda>e. node_count (fst e) - 1) qs)"
    if "foldE (expand_step host signature) (m, k, esb) (zip ps qs) = Inr (m3, k3, es3)" "set qs \<subseteq> set els" "length ps = length qs"
    for ps qs m k esb m3 k3 es3
    using that
  proof (induction qs arbitrary: ps m k esb)
    case (Cons q qs)
    obtain n f where q: "q = (n, f)" by (cases q)
    from Cons.prems(3) obtain p ps' where ps: "ps = p # ps'" by (cases ps) auto
    from Cons.prems(1) obtain m' k' es' where one: "expand_step host signature (m, k, esb) (p, n, f) = Inr (m', k', es')"
      and rest: "foldE (expand_step host signature) (m', k', es') (zip ps' qs) = Inr (m3, k3, es3)" by (auto simp: ps q)
    have "length es' = length esb + (node_count n - 1)"
    proof (cases "is_storage n")
      case True
      have "(n, f) \<in> set els" using Cons.prems(2) q by simp
      from less.hyps [OF element_size [OF this]] one True children_count [OF True]
      show ?thesis by (simp add: expand_step_def)
    next
      case False
      then show ?thesis using one by (simp add: expand_step_def node_count.simps [of n])
    qed
    with Cons.IH [OF rest] Cons.prems(2,3) ps q show ?case by simp
  qed simp
  note lengths = this
  have ps: "length ps = length (sort_by element_less els)"
  proof -
    have "length ps2 = length ps0 + length qs"
      if "foldE (AddEntry host signature) ((m1, k1, es), ps0) qs = Inr ((m2, k2, es2), ps2)" for ps0 qs m1 k1 es m2 k2 es2 ps2
      using that
    proof (induction qs arbitrary: ps0 m1 k1 es)
      case (Cons q qs)
      then obtain m' k' es' ps' where one: "AddEntry host signature ((m1, k1, es), ps0) q = Inr ((m', k', es'), ps')"
        and rest: "foldE (AddEntry host signature) ((m', k', es'), ps') qs = Inr ((m2, k2, es2), ps2)" by auto
      have "length ps' = Suc (length ps0)" using one by (auto simp: AddEntry_def Let_def split: prod.splits if_splits)
      with Cons.IH [OF rest] show ?case by simp
    qed simp
    from this [OF add] show ?thesis by simp
  qed
  have pos: "0 < node_count (fst e)" for e :: element by (simp add: node_count.simps [of "fst e"])
  have "sum_list (map (\<lambda>e. node_count (fst e) - 1) qs) + length qs = element_count qs" for qs
    using pos by (induction qs) (auto simp: element_count_def Suc_le_eq)
  then have "length es2 = length es + element_count (sort_by element_less els)"
    using lengths [OF fold all ps] AddEntries_length [OF add] by (simp add: add.assoc) (metis add.commute)
  then show ?case by (simp add: element_count_sort)
qed

lemma canonical_contents:
  assumes n: "is_storage n"
    and kids: "list_all2 (node_items host m sb) (sort_by element_less (map (\<lambda>child. (child, False)) (node_children n))) ts"
  shows "\<exists>t0. contents host m n = Inr t0 \<and> StorageItem (meta_of n) ts = canonical t0"
proof -
  let ?els = "map (\<lambda>child. (child, False)) (node_children n) :: element list"
  let ?canon = "\<lambda>e :: element. canonical (the_item host m (fst e))"
  have item: "contents host m (fst e) = Inr (the_item host m (fst e)) \<and> t = ?canon e"
    if "e \<in> set ?els" "node_items host m sb e t" for e t
    using that by (auto simp: node_items_def the_item_def)
  have ts: "ts = map ?canon (sort_by element_less ?els)"
  proof (rule nth_equalityI)
    fix i assume i: "i < length ts"
    then have "i < length (sort_by element_less ?els)" "node_items host m sb (sort_by element_less ?els ! i) (ts ! i)"
      using kids by (simp_all add: list_all2_conv_all_nth)
    then show "ts ! i = map ?canon (sort_by element_less ?els) ! i"
      using item [of "sort_by element_less ?els ! i" "ts ! i"] nth_mem [of i "sort_by element_less ?els"] by simp
  qed (use kids in \<open>simp add: list_all2_lengthD\<close>)
  have every: "\<exists>t. node_items host m sb e t" if "e \<in> set ?els" for e
  proof -
    have "e \<in> set (sort_by element_less ?els)" using that by (simp only: set_sort_by)
    then obtain i where i: "i < length (sort_by element_less ?els)" and e: "e = sort_by element_less ?els ! i"
      by (metis in_set_conv_nth)
    show ?thesis unfolding e by (rule exI) (rule list_all2_nthD [OF kids i])
  qed
  have all: "\<forall>c \<in> set (node_children n). contents host m c = Inr (the_item host m c)"
  proof
    fix x assume "x \<in> set (node_children n)"
    then have x: "(x, False) \<in> set ?els" by simp
    from every [OF x] obtain t where "node_items host m sb (x, False) t" by (elim exE)
    from item [OF x this] show "contents host m x = Inr (the_item host m x)" by simp
  qed
  then have name: "item_name (the_item host m x) = node_name x" if "x \<in> set (node_children n)" for x
    using that contents_name by blast
  have "mapE (contents host m) (node_children n) = Inr (map (the_item host m) (node_children n))" using all
    by (auto simp: mapE_Inr_iff list_all2_conv_all_nth)
  moreover have "sort_by item_less (map ?canon ?els) = map ?canon (sort_by element_less ?els)"
  proof (rule map_sort_by)
    fix a b assume "a \<in> set ?els" "b \<in> set ?els"
    then have "fst a \<in> set (node_children n)" "fst b \<in> set (node_children n)" by auto
    with name show "item_less (?canon a) (?canon b) \<longleftrightarrow> element_less a b"
      by (simp add: item_less_def element_less_def)
  qed
  ultimately show ?thesis
    using n ts by (auto simp: contents_storage comp_def intro!: exI [of _ "StorageItem (meta_of n) (map (the_item host m) (node_children n))"])
qed

definition flat_ok :: "element list \<Rightarrow> bool" where
  "flat_ok els \<longleftrightarrow> (\<forall>(n, f) \<in> set els. f \<longrightarrow> \<not> is_storage n)"

text \<open>What \<open>Expand\<close> adds below the entry \<open>parent\<close>.\<close>

definition expanded ::
  "ByteOrder \<Rightarrow> PackageModel \<Rightarrow> bytes \<Rightarrow> nat \<Rightarrow> element list \<Rightarrow> Entry list \<Rightarrow> Entry list \<Rightarrow> bool" where
  "expanded host m sb parent els es es2 \<longleftrightarrow>
     length es \<le> length es2 \<and> (\<forall>q < length es. q \<noteq> parent \<longrightarrow> es2 ! q = es ! q) \<and>
     (\<exists>ps ts. es2 ! parent = (es ! parent)\<lparr>en_children := ps\<rparr> \<and>
        list_all2 (node_items host m sb) (sort_by element_less els) ts \<and>
        list_all2 (\<lambda>q t. length es \<le> unat q \<and> entry_tree es2 (length es) (unat q) t) ps ts)"

lemma expand_fold_grows:
  "foldE (expand_step host signature) (m1, k1, es) xs = Inr (m2, k2, es2) \<Longrightarrow> length es \<le> length es2"
proof (induction xs arbitrary: m1 k1 es)
  case (Cons x xs)
  obtain p n f where x: "x = (p, n, f)" by (cases x)
  from Cons.prems obtain m' k' es' where one: "expand_step host signature (m1, k1, es) (p, n, f) = Inr (m', k', es')"
    and rest: "foldE (expand_step host signature) (m', k', es') xs = Inr (m2, k2, es2)" by (auto simp: x)
  have "length es \<le> length es'" using one by (auto simp: expand_step_def split: if_splits dest: Expand_length)
  with Cons.IH [OF rest] show ?case by simp
qed simp

lemma expand_fold:
  assumes fr: "fresh host m c"
    and IH: "\<And>n parent ds m1 k1 es m2 k2 es2. (n, False) \<in> set els0 \<Longrightarrow> is_storage n \<Longrightarrow>
      state_after host m c ds m1 \<Longrightarrow> unat parent < length es \<Longrightarrow> length es2 \<le> 2 ^ 32 \<Longrightarrow>
      Expand host signature parent (map (\<lambda>child. (child, False)) (node_children n)) (m1, k1, es) = Inr (m2, k2, es2) \<Longrightarrow>
      (\<exists>ns. state_after host m c (ds @ ns) m2) \<and>
      expanded host m (sig_bytes signature) (unat parent) (map (\<lambda>child. (child, False)) (node_children n)) es es2"
  shows "set els \<subseteq> set els0 \<Longrightarrow> flat_ok els \<Longrightarrow> state_after host m c ds m1 \<Longrightarrow>
    base + length els \<le> B \<Longrightarrow> B \<le> length es \<Longrightarrow> length es2 \<le> 2 ^ 32 \<Longrightarrow>
    (\<forall>i < length els. entry_for host m c (sig_bytes signature) (els ! i) (es ! (base + i))) \<Longrightarrow>
    foldE (expand_step host signature) (m1, k1, es) (zip (map word_of_nat [base..<base + length els]) els) = Inr (m2, k2, es2) \<Longrightarrow>
    (\<exists>ns. state_after host m c (ds @ ns) m2) \<and> length es \<le> length es2 \<and>
    (\<forall>q < length es. q < base \<or> base + length els \<le> q \<longrightarrow> es2 ! q = es ! q) \<and>
    (\<exists>ts. list_all2 (node_items host m (sig_bytes signature)) els ts \<and>
       (\<forall>i < length els. entry_tree es2 B (base + i) (ts ! i)))"
proof (induction els arbitrary: ds m1 k1 base es)
  case Nil
  then show ?case by (auto intro: exI [of _ "[]"])
next
  case (Cons el els)
  let ?sb = "sig_bytes signature"
  obtain n f where el: "el = (n, f)" by (cases el)
  have zip: "zip (map word_of_nat [base..<base + length (el # els)]) (el # els) =
      (word_of_nat base, n, f) # zip (map word_of_nat [Suc base..<Suc base + length els]) els"
    by (simp add: upt_rec el)
  from Cons.prems(8) obtain m' k' es' where one: "expand_step host signature (m1, k1, es) (word_of_nat base, n, f) = Inr (m', k', es')"
    and rest: "foldE (expand_step host signature) (m', k', es') (zip (map word_of_nat [Suc base..<Suc base + length els]) els) = Inr (m2, k2, es2)"
    unfolding zip by auto
  have grows: "length es' \<le> length es2" by (rule expand_fold_grows [OF rest])
  have here: "entry_for host m c ?sb (n, f) (es ! base)" using Cons.prems(7) el by force
  have base: "base < length es" "base < B" using Cons.prems(4,5) by simp_all
  have "(\<exists>ns. state_after host m c (ds @ ns) m') \<and> length es \<le> length es' \<and>
      (\<forall>q < length es. q \<noteq> base \<longrightarrow> es' ! q = es ! q) \<and> (\<exists>t. node_items host m ?sb (n, f) t \<and> entry_tree es' B base t)"
  proof (cases "is_storage n")
    case False
    then have "es' = es" "m' = m1" using one by (simp_all add: expand_step_def)
    moreover have "\<exists>t. node_items host m ?sb (n, f) t \<and> entry_tree es B base t"
      using here False base
      by (intro exI [of _ "StreamItem (meta_of n) (pieces_bytes (en_pieces (es ! base)))"])
        (auto simp: entry_for_def node_items_def contents_stream [OF fr] split: if_splits
          intro!: exI [of _ "StreamItem (meta_of n) (pieces_bytes (en_pieces (es ! base)))"])
    ultimately show ?thesis using Cons.prems(3) by (auto intro: exI [of _ "[]"])
  next
    case True
    have f: "\<not> f" using Cons.prems(2) True el by (auto simp: flat_ok_def)
    let ?kids = "map (\<lambda>child. (child, False)) (node_children n) :: element list"
    have len: "length es' \<le> 2 ^ 32" using grows Cons.prems(6) by simp
    have run: "Expand host signature (word_of_nat base) ?kids (m1, k1, es) = Inr (m', k', es')"
      using one True by (simp add: expand_step_def)
    have pos: "unat (word_of_nat base :: u32) = base"
      using base len Expand_length [OF run] by (simp add: unat_of_nat_small)
    have "(n, False) \<in> set els0" using Cons.prems(1) el f by auto
    from IH [OF this True Cons.prems(3) _ len run] base
    have st: "\<exists>ns. state_after host m c (ds @ ns) m'" and ex: "expanded host m ?sb base ?kids es es'" by (simp_all add: pos)
    from ex obtain ps ts where ps: "es' ! base = (es ! base)\<lparr>en_children := ps\<rparr>"
      and ts: "list_all2 (node_items host m ?sb) (sort_by element_less ?kids) ts"
      and tree: "list_all2 (\<lambda>q t. length es \<le> unat q \<and> entry_tree es' (length es) (unat q) t) ps ts"
      by (auto simp: expanded_def)
    have node: "en_node (es' ! base) = n" using here ps by (simp add: entry_for_def)
    have "entry_tree es' (length es) base (StorageItem (meta_of n) ts)"
      using ex base ps node tree True by (simp add: expanded_def)
    then have "entry_tree es' B base (StorageItem (meta_of n) ts)" by (rule entry_tree_mono) (rule Cons.prems(5))
    moreover have "node_items host m ?sb (n, f) (StorageItem (meta_of n) ts)"
      using canonical_contents [OF True ts] f by (simp add: node_items_def)
    ultimately show ?thesis using ex st unfolding expanded_def by blast
  qed
  then obtain ns t where st': "state_after host m c (ds @ ns) m'" and le: "length es \<le> length es'"
    and same: "\<forall>q < length es. q \<noteq> base \<longrightarrow> es' ! q = es ! q" and t: "node_items host m ?sb (n, f) t" "entry_tree es' B base t"
    by blast
  have "\<forall>i < length els. entry_for host m c ?sb (els ! i) (es' ! (Suc base + i))"
  proof (intro allI impI)
    fix i assume "i < length els"
    then have "entry_for host m c ?sb ((el # els) ! Suc i) (es ! (base + Suc i))" using Cons.prems(7) by (metis Suc_less_eq length_Cons)
    moreover have "base + Suc i < length es" using Cons.prems(4,5) \<open>i < length els\<close> by simp
    ultimately show "entry_for host m c ?sb (els ! i) (es' ! (Suc base + i))" using same by simp
  qed
  from Cons.IH [OF _ _ st' _ _ Cons.prems(6) this rest] Cons.prems(1,2,4,5) le
  have IHr: "(\<exists>ns'. state_after host m c ((ds @ ns) @ ns') m2) \<and> length es' \<le> length es2 \<and>
    (\<forall>q < length es'. q < Suc base \<or> Suc base + length els \<le> q \<longrightarrow> es2 ! q = es' ! q) \<and>
    (\<exists>ts. list_all2 (node_items host m ?sb) els ts \<and> (\<forall>i < length els. entry_tree es2 B (Suc base + i) (ts ! i)))"
    by (auto simp: flat_ok_def)
  then obtain ts where ts: "list_all2 (node_items host m ?sb) els ts" "\<forall>i < length els. entry_tree es2 B (Suc base + i) (ts ! i)" by blast
  have "entry_tree es2 B base t"
    by (rule entry_tree_frame [OF t(2)]) (use IHr Cons.prems(4) base in \<open>auto\<close>)
  with ts t el have "list_all2 (node_items host m ?sb) (el # els) (t # ts) \<and> (\<forall>i < length (el # els). entry_tree es2 B (base + i) ((t # ts) ! i))"
    by (auto simp: nth_Cons split: nat.split)
  moreover have "\<forall>q < length es. q < base \<or> base + length (el # els) \<le> q \<longrightarrow> es2 ! q = es ! q"
    using IHr same le by auto
  ultimately show ?case using IHr le by (metis append_assoc order_trans)
qed

lemma Expand_Inr:
  assumes fr: "fresh host m c" and sb: "length (sig_bytes signature) < 2 ^ 64"
  shows "flat_ok els \<Longrightarrow> state_after host m c ds m1 \<Longrightarrow> unat parent < length es \<Longrightarrow> length es2 \<le> 2 ^ 32 \<Longrightarrow>
    Expand host signature parent els (m1, k1, es) = Inr (m2, k2, es2) \<Longrightarrow>
    (\<exists>ns. state_after host m c (ds @ ns) m2) \<and> expanded host m (sig_bytes signature) (unat parent) els es es2"
proof (induction "size_list (\<lambda>e. size (fst e)) els" arbitrary: parent els ds m1 k1 es m2 k2 es2 rule: less_induct)
  case less
  let ?sb = "sig_bytes signature" and ?sorted = "sort_by element_less els" and ?B = "length es + length els"
  obtain m' k' esa ps where "CheckUniqueNames els = Inr ()" and add:
    "foldE (AddEntry host signature) ((m1, k1, es), []) ?sorted = Inr ((m', k', esa), ps)"
    and "unat parent < length esa" and fold: "foldE (expand_step host signature)
      (m', k', esa[unat parent := (esa ! unat parent)\<lparr>en_children := ps\<rparr>]) (zip ps ?sorted) = Inr (m2, k2, es2)"
    by (rule Expand_cases [OF less.prems(5)])
  have len: "length ?sorted = length els" by (metis mset_sort_by size_mset)
  from AddEntries_Inr [OF sb less.prems(2) add] obtain new ns where esa: "esa = es @ new"
    and ps: "ps = map word_of_nat [length es..<length es + length ?sorted]"
    and new: "list_all2 (entry_for host m c ?sb) ?sorted new" and st: "state_after host m c (ds @ ns) m'" by auto
  have len_new: "length new = length els" using new len by (simp add: list_all2_lengthD [symmetric])
  let ?es = "esa[unat parent := (esa ! unat parent)\<lparr>en_children := ps\<rparr>]"
  have len_es: "length ?es = ?B" using esa len_new by simp
  have IH: "(\<exists>ns. state_after host m c (ds @ ns) m2) \<and>
      expanded host m ?sb (unat parent) (map (\<lambda>child. (child, False)) (node_children n)) es es2"
    if "(n, False) \<in> set els" "is_storage n" "state_after host m c ds m1" "unat parent < length es" "length es2 \<le> 2 ^ 32"
      "Expand host signature parent (map (\<lambda>child. (child, False)) (node_children n)) (m1, k1, es) = Inr (m2, k2, es2)"
    for n parent ds m1 k1 es m2 k2 es2
    by (rule less.hyps [OF element_size [OF that(1)] _ that(3-6)]) (auto simp: flat_ok_def)
  have entries: "\<forall>i < length ?sorted. entry_for host m c ?sb (?sorted ! i) (?es ! (length es + i))"
    using new less.prems(3) esa by (auto simp: list_all2_conv_all_nth nth_append)
  have flat: "flat_ok ?sorted" using less.prems(1) by (simp add: flat_ok_def)
  have part: "(\<exists>ns'. state_after host m c ((ds @ ns) @ ns') m2) \<and> length ?es \<le> length es2 \<and>
    (\<forall>q < length ?es. q < length es \<or> length es + length ?sorted \<le> q \<longrightarrow> es2 ! q = ?es ! q) \<and>
    (\<exists>ts. list_all2 (node_items host m ?sb) ?sorted ts \<and> (\<forall>i < length ?sorted. entry_tree es2 ?B (length es + i) (ts ! i)))"
  proof (rule expand_fold [OF fr IH, of els])
    show "foldE (expand_step host signature) (m', k', ?es)
        (zip (map word_of_nat [length es..<length es + length ?sorted]) ?sorted) = Inr (m2, k2, es2)"
      using fold ps by simp
  qed (use flat st less.prems(4) entries len len_es in simp_all)
  then obtain ts where ts: "list_all2 (node_items host m ?sb) ?sorted ts"
    "\<forall>i < length ?sorted. entry_tree es2 ?B (length es + i) (ts ! i)" by blast
  have "?B \<le> 2 ^ 32" using part len_es less.prems(4) by linarith
  have tree: "list_all2 (\<lambda>q t. length es \<le> unat q \<and> entry_tree es2 (length es) (unat q) t) ps ts"
    unfolding list_all2_conv_all_nth
  proof (intro conjI allI impI)
    show "length ps = length ts" using ps ts(1) by (simp add: list_all2_lengthD)
    fix i assume i: "i < length ps"
    then have i': "i < length ?sorted" using ps by simp
    have q: "unat (ps ! i) = length es + i"
      using ps i' len \<open>?B \<le> 2 ^ 32\<close> by (simp del: of_nat_add add: unat_of_nat_small)
    then show "length es \<le> unat (ps ! i)" by simp
    have "entry_tree es2 ?B (length es + i) (ts ! i)" using ts(2) i' by blast
    then show "entry_tree es2 (length es) (unat (ps ! i)) (ts ! i)" unfolding q by (rule entry_tree_mono) simp
  qed
  have "es2 ! unat parent = (es ! unat parent)\<lparr>en_children := ps\<rparr>"
    using part less.prems(3) esa len_es by (auto simp: nth_append)
  moreover have "\<forall>q < length es. q \<noteq> unat parent \<longrightarrow> es2 ! q = es ! q"
    using part esa len_es by (auto simp: nth_append)
  ultimately have "expanded host m ?sb (unat parent) els es es2"
    using part ts(1) tree len_es unfolding expanded_def by auto
  moreover have "\<exists>ns. state_after host m c (ds @ ns) m2" using part unfolding append_assoc by blast
  ultimately show ?case by blast
qed

section \<open>The whole package\<close>

text \<open>
  The content the writer means to give a package: the children of the root without signature streams, every storage in
  the order of the format, and the signature among them when there is one.
\<close>

definition signature_items :: "bytes option \<Rightarrow> item list" where
  "signature_items signature =
     (case signature of None \<Rightarrow> []
      | Some bs \<Rightarrow> if bs = [] then [] else [StreamItem (MsiSignatureName, replicate 16 0, 0, 0, 0) bs])"

definition rebuilt_content :: "meta \<Rightarrow> item list \<Rightarrow> bytes option \<Rightarrow> item" where
  "rebuilt_content mt ts signature = StorageItem mt (sort_by item_less (map canonical ts @ signature_items signature))"

lemma root_sequence_mset:
  "mset (root_sequence r signature) =
     mset (map (\<lambda>child. (child, False)) (filter (\<lambda>child. \<not> IsMsiSignatureName (node_name child)) (node_children r))) +
     (case signature of None \<Rightarrow> {#} | Some _ \<Rightarrow> {#(signature_node signature, True)#})"
proof -
  have "mset (takeWhile P xs) + mset (drop (length (takeWhile P xs)) xs) = mset xs" for P and xs :: "element list"
    by (metis append_take_drop_id mset_append takeWhile_eq_take)
  then show ?thesis by (simp add: root_sequence_def Let_def split: option.split)
qed

lemma sort_by_unique:
  assumes "\<And>a b. lt a b \<longleftrightarrow> f a < (f b :: 'k :: linorder)" and "mset xs = mset ys" and "distinct (map f xs)"
  shows "sort_by lt xs = sort_by lt ys"
proof -
  have "inj_on f (set xs)" using assms(3) by (simp add: distinct_map)
  then have "sort_key f xs = sort_key f ys"
    by (intro sort_key_inj_key_eq) (simp_all add: assms(2))
  then show ?thesis using assms(1) by (simp add: sort_by_key [of lt f])
qed

end
