(* ===== verification/Cfb_Size.thy ===== *)
theory Cfb_Size
  imports Cfb_Writer_Spec
begin

text \<open>
  How many nodes a parsed package has: every node comes from a directory entry that the walk marked, no entry is
  marked twice, and the position of an entry is below the mark for no entry.
\<close>

definition link_limit :: nat where "link_limit = 2 ^ 32 - 1"

text \<open>The positions a link can name that are not marked yet.\<close>

definition free_links :: "bool list \<Rightarrow> nat" where
  "free_links v = length (filter Not (take link_limit v))"

definition pending :: "(u32 \<times> nat) list \<Rightarrow> nat" where
  "pending stack = length (filter (\<lambda>f. snd f < 2) stack)"

lemma below_link_limit: "i \<noteq> kCfbNoStream \<Longrightarrow> unat i < link_limit"
proof -
  assume "i \<noteq> kCfbNoStream"
  then have "unat i \<noteq> unat kCfbNoStream" by (simp add: word_unat_eq_iff)
  moreover have "unat kCfbNoStream = 2 ^ 32 - 1" by (simp add: kCfbNoStream_def)
  ultimately show ?thesis using unat_u32_less [of i] by (simp add: link_limit_def)
qed

lemma Push_free:
  assumes "Push directory visited stack i = Inr (visited', stack')"
  shows "free_links visited' + pending stack' = free_links visited + pending stack"
proof (cases "i = kCfbNoStream")
  case True
  with assms show ?thesis by (simp add: Push_def)
next
  case False
  with assms have i: "unat i < length visited" "\<not> visited ! unat i"
    and eq: "visited' = visited[unat i := True]" "stack' = (i, 0) # stack"
    by (auto simp: Push_def at_index_def ThrowMalformed_def split: if_splits)
  have "unat i < length (take link_limit visited)" "\<not> take link_limit visited ! unat i"
    using i below_link_limit [OF False] by simp_all
  from filter_Not_mark [OF this] show ?thesis
    by (simp add: free_links_def pending_def eq take_update_swap)
qed

lemma WalkTree_free:
  "WalkTree directory visited stack order = Inr (visited', order') \<Longrightarrow>
    free_links visited' + length order' = free_links visited + pending stack + length order"
proof (induction directory visited stack order rule: WalkTree.induct)
  case (2 directory visited i stage rest order)
  from 2(4) obtain entry where e: "at_index directory (unat i) = Inr entry"
    by (auto simp: WalkTree.simps(2) [of directory visited i stage rest order])
  consider "stage = 0" | "stage = 1" | "stage \<noteq> 0" "stage \<noteq> 1" by blast
  then show ?case
  proof cases
    case 1
    with 2(4) e obtain v s where p: "Push directory visited ((i, 1) # rest) (de_left entry) = Inr (v, s)"
      and w: "WalkTree directory v s order = Inr (visited', order')"
      by (auto simp: WalkTree.simps(2) [of directory visited i 0 rest order])
    from 2(1) [OF e 1 p refl w] Push_free [OF p] show ?thesis using 1 by (simp add: pending_def)
  next
    case 2
    with \<open>WalkTree _ _ _ _ = _\<close> e have w: "WalkTree directory visited ((i, 2) # rest) (order @ [i]) = Inr (visited', order')"
      by (simp add: WalkTree.simps(2) [of directory visited i "Suc 0" rest order])
    from 2 have "stage \<noteq> 0" by simp
    from "2.IH"(2) [OF e this 2 w] show ?thesis using 2 by (simp add: pending_def)
  next
    case 3
    with \<open>WalkTree _ _ _ _ = _\<close> e obtain v s where p: "Push directory visited rest (de_right entry) = Inr (v, s)"
      and w: "WalkTree directory v s order = Inr (visited', order')"
      by (auto simp: WalkTree.simps(2) [of directory visited i stage rest order])
    from "2.IH"(3) [OF e 3 p refl w] Push_free [OF p] show ?thesis using 3 by (simp add: pending_def)
  qed
qed (simp add: WalkTree.simps pending_def)

definition nodes_count :: "CfbNode list \<Rightarrow> nat" where
  "nodes_count ns = sum_list (map node_count ns)"

lemma NodeOf_count: "node_count (NodeOf entry ch tree) \<le> Suc (nodes_count ch)"
  by (simp add: NodeOf_def node_count.simps nodes_count_def)

lemma AddNodes_free:
  assumes rec: "\<And>vis i ch tr v. rec vis i = Inr (ch, tr, v) \<Longrightarrow> free_links v + nodes_count ch \<le> free_links vis"
  shows "foldE (AddNode rec directory) (sources, nodes, vis) order = Inr (sources', nodes', vis') \<Longrightarrow>
    free_links vis' + nodes_count nodes' \<le> free_links vis + nodes_count nodes + length order"
proof (induction order arbitrary: sources nodes vis)
  case (Cons i order)
  then obtain s1 n1 v1 where one: "AddNode rec directory (sources, nodes, vis) i = Inr (s1, n1, v1)"
    and rest: "foldE (AddNode rec directory) (s1, n1, v1) order = Inr (sources', nodes', vis')" by auto
  have "free_links v1 + nodes_count n1 \<le> free_links vis + nodes_count nodes + 1"
  proof -
    from one obtain entry where e: "at_index directory (unat i) = Inr entry" by (auto simp: AddNode_def)
    consider "de_type entry \<noteq> kTypeStorage" "de_type entry \<noteq> kTypeStream" | "de_type entry = kTypeStorage"
      | "de_type entry \<noteq> kTypeStorage" "de_type entry = kTypeStream" by blast
    then show ?thesis
    proof cases
      case 2
      with one e obtain ch tr v where r: "rec vis i = Inr (ch, tr, v)" and eq: "n1 = nodes @ [NodeOf entry ch tr]" "v1 = v"
        by (auto simp: AddNode_def)
      from rec [OF r] NodeOf_count [of entry ch tr] show ?thesis by (simp add: eq nodes_count_def)
    next
      case 3
      with one e have eq: "n1 = nodes @ [NodeOf entry [] kCfbNone]" "v1 = vis" by (auto simp: AddNode_def)
      then show ?thesis using NodeOf_count [of entry "[]" kCfbNone] by (simp add: nodes_count_def)
    qed (use one e in \<open>auto simp: AddNode_def\<close>)
  qed
  with Cons.IH [OF rest] show ?case by simp
qed simp

lemma LinkNodes_count:
  "mapE (\<lambda>(node, i). LinkNode directory sources node i) (zip nodes is) = Inr linked \<Longrightarrow> nodes_count linked \<le> nodes_count nodes"
proof (induction nodes arbitrary: "is" linked)
  case (Cons node nodes)
  show ?case
  proof (cases "is")
    case (Cons i is')
    with Cons.prems obtain l ls where l: "LinkNode directory sources node i = Inr l"
      and ls: "mapE (\<lambda>(node, i). LinkNode directory sources node i) (zip nodes is') = Inr ls" and eq: "linked = l # ls" by auto
    have "node_count l = node_count node"
      using l by (auto simp: LinkNode_def node_count.simps [of node] node_count.simps)
    with Cons.IH [OF ls] show ?thesis by (simp add: eq nodes_count_def)
  qed (use Cons in \<open>simp add: nodes_count_def\<close>)
qed (simp add: nodes_count_def)

lemma ReadStorage_free:
  "ReadStorage directory visited idx depth = Inr (ch, tr, v) \<Longrightarrow> free_links v + nodes_count ch \<le> free_links visited"
proof (induction "Suc kCfbMaxStorageDepth - depth" arbitrary: visited idx depth ch tr v rule: less_induct)
  case less
  then have deep: "\<not> depth > kCfbMaxStorageDepth" by (auto simp: ReadStorage_eq ThrowMalformed_def)
  from less.prems deep obtain storage where s: "at_index directory (unat idx) = Inr storage" by (auto simp: ReadStorage_eq)
  show ?case
  proof (cases "de_child storage = kCfbNoStream")
    case True
    then show ?thesis using less.prems deep s by (auto simp: ReadStorage_eq nodes_count_def)
  next
    case False
    with less.prems deep s obtain v1 stack v2 order sources nodes linked where
      p: "Push directory visited [] (de_child storage) = Inr (v1, stack)"
      and w: "WalkTree directory v1 stack [] = Inr (v2, order)"
      and f: "foldE (AddNode (\<lambda>vis i. ReadStorage directory vis i (depth + 1)) directory) ([], [], v2) order = Inr (sources, nodes, v)"
      and l: "mapE (\<lambda>(node, i). LinkNode directory sources node i) (zip nodes sources) = Inr linked" and ch: "ch = linked"
      by (auto simp: ReadStorage_eq)
    have "free_links v + nodes_count nodes \<le> free_links v2 + nodes_count [] + length order"
      by (rule AddNodes_free [OF _ f]) (rule less.hyps, use deep in auto)
    with Push_free [OF p] WalkTree_free [OF w] LinkNodes_count [OF l] show ?thesis
      by (simp add: ch nodes_count_def pending_def)
  qed
qed

lemma Parse_node_count:
  assumes "CfbReader_Parse host src = Inr m"
  shows "node_count (root m) < 2 ^ 32"
proof -
  from assms obtain m3 directory where b: "BuildTree m3 directory = Inr m" by (auto simp: CfbReader_Parse_def)
  then have ne: "directory \<noteq> []" and "\<not> (directory = [] \<or> de_type (hd directory) \<noteq> kTypeRoot)"
    by (auto simp: BuildTree_def ThrowMalformed_def split: if_splits)
  with b obtain ch tr v where
    r: "ReadStorage directory ((replicate (length directory) False)[0 := True]) 0 1 = Inr (ch, tr, v)"
    and root: "node_children (root m) = ch" "is_storage (root m)"
    by (auto simp: BuildTree_def Let_def)
  have start: "free_links ((replicate n False)[0 := True]) < link_limit" if "0 < n" for n
  proof -
    from gr0_implies_Suc [OF that] obtain k where n: "n = Suc k" by blast
    have "0 < link_limit" by (simp add: link_limit_def)
    from gr0_implies_Suc [OF this] obtain l where l: "link_limit = Suc l" by blast
    show ?thesis by (simp add: free_links_def n l take_replicate)
  qed
  from start [of "length directory"] ReadStorage_free [OF r] ne have "nodes_count ch < link_limit" by simp
  then show ?thesis using root by (simp add: node_count.simps [of "root m"] nodes_count_def link_limit_def)
qed

end
