(* ===== verification/Cfb_Rebuild.thy ===== *)
theory Cfb_Rebuild
  imports Cfb_Flatten Cfb_Size
begin

text \<open>
  The package the writer returns holds what was meant: \<open>WriteCfb\<close> as a whole, by way of its self-check.
\<close>

section \<open>Laying out and writing keep the tree\<close>

lemma map_core_update: "core e = core (es ! i) \<Longrightarrow> map core (es[i := e]) = map core es"
  by (cases "i < length es") (simp_all add: map_update list_update_same_conv list_update_beyond)

lemma core_fields [simp]:
  "core (e\<lparr>en_left := x\<rparr>) = core e" "core (e\<lparr>en_right := x\<rparr>) = core e" "core (e\<lparr>en_child := x\<rparr>) = core e"
  "core (e\<lparr>en_start := x\<rparr>) = core e" "core (e\<lparr>en_mini := y\<rparr>) = core e"
  by (simp_all add: core_def)

lemma BuildEntryTree_core: "BuildEntryTree sq low high es = Inr (p, es') \<Longrightarrow> map core es' = map core es"
proof (induction sq low high es arbitrary: p es' rule: BuildEntryTree.induct)
  case (1 sq low high es)
  show ?case
  proof (cases "low \<ge> high")
    case True
    then show ?thesis using 1(3) by (simp add: BuildEntryTree.simps)
  next
    case False
    let ?mid = "(low + high) div 2"
    from 1(3) False obtain position left es1 e1 right es2 e2 where
      s: "at_index sq ?mid = Inr position" "BuildEntryTree sq low ?mid es = Inr (left, es1)" "at_index es1 (unat position) = Inr e1"
        "BuildEntryTree sq (?mid + 1) high (es1[unat position := e1\<lparr>en_left := left\<rparr>]) = Inr (right, es2)"
        "at_index es2 (unat position) = Inr e2" "es' = es2[unat position := e2\<lparr>en_right := right\<rparr>]"
      by (auto simp: BuildEntryTree.simps [of sq low high es] Let_def)
    have "map core es1 = map core es" using 1(1) [OF False refl s(1,2)] .
    moreover have "map core es2 = map core (es1[unat position := e1\<lparr>en_left := left\<rparr>])"
      by (rule 1(2) [OF False refl s(1,2) refl s(3,4)])
    moreover have "e1 = es1 ! unat position" "e2 = es2 ! unat position"
      using s(3,5) by (simp_all add: at_index_def split: if_splits)
    ultimately show ?thesis using s(6) by (simp add: map_core_update)
  qed
qed

lemma LinkEntry_core: "LinkEntry es i = Inr es' \<Longrightarrow> map core es' = map core es"
  by (auto simp: LinkEntry_def at_index_def map_core_update split: if_splits dest!: BuildEntryTree_core)

lemma LinkEntries_core: "foldE LinkEntry es is = Inr es' \<Longrightarrow> map core es' = map core es"
  by (induction "is" arbitrary: es) (auto dest: LinkEntry_core)

lemma Place_core:
  "PlaceOrdinary hdr n es = (es', n') \<Longrightarrow> map core es' = map core es"
  "PlaceMini hdr n es = (es', n') \<Longrightarrow> map core es' = map core es"
  by (induction es arbitrary: n es' n') (auto split: if_splits prod.splits)

lemma ComputeLayout_core: "ComputeLayout es hdr = Inr (layout, es') \<Longrightarrow> map core es' = map core es"
  by (auto simp: ComputeLayout_def Let_def ThrowMalformed_def split: prod.splits if_splits dest!: Place_core)

lemma Serialise_core: "Serialise size_max m es layout = Inr (out, es') \<Longrightarrow> map core es' = map core es"
  by (auto simp: Serialise_def Let_def dest: LinkEntries_core)

lemma entry_tree_core:
  assumes "map core es' = map core es" and "entry_tree es b p t"
  shows "entry_tree es' b p t"
proof (rule entry_tree_frame [OF assms(2)])
  show "length es \<le> length es'" using assms(1) by (metis length_map order_refl)
  show "core (es' ! q) = core (es ! q)" if "q < length es" for q
    using assms(1) that by (metis length_map nth_map)
qed

section \<open>The size of the output\<close>

definition keeps_length :: "(bytes \<Rightarrow> bytes res) \<Rightarrow> bool" where
  "keeps_length f \<longleftrightarrow> (\<forall>out out'. f out = Inr out' \<longrightarrow> length out' = length out)"

lemma keeps_write: "keeps_length (\<lambda>out. mem_write out at bs)"
  by (auto simp: keeps_length_def mem_write_def split: if_splits)

lemma keeps_put: "keeps_length (\<lambda>out. PutLE16 out at v)" "keeps_length (\<lambda>out. PutLE32 out at w)" "keeps_length (\<lambda>out. PutLE64 out at x)"
  by (simp_all add: PutLE16_def PutLE32_def PutLE64_def keeps_write)

lemma keeps_bind: "keeps_length f \<Longrightarrow> keeps_length g \<Longrightarrow> keeps_length (\<lambda>out. bindE (f out) g)"
  by (fastforce simp: keeps_length_def)

lemma keeps_foldE: "(\<And>x. x \<in> set xs \<Longrightarrow> keeps_length (\<lambda>out. f out x)) \<Longrightarrow> keeps_length (\<lambda>out. foldE f out xs)"
proof (induction xs)
  case (Cons x xs)
  have "keeps_length (\<lambda>out. bindE (f out x) (\<lambda>out. foldE f out xs))"
    by (rule keeps_bind) (use Cons in auto)
  then show ?case by simp
qed (simp add: keeps_length_def)

lemma keeps_if: "keeps_length f \<Longrightarrow> keeps_length g \<Longrightarrow> keeps_length (\<lambda>out. if b then f out else g out)"
  by (cases b) simp_all

lemma keeps_read: "(\<And>bs. keeps_length (\<lambda>out. f out bs)) \<Longrightarrow> keeps_length (\<lambda>out. bindE r (f out))"
  by (cases r) (auto simp: keeps_length_def)

lemmas keeps_intros = keeps_write keeps_put keeps_bind keeps_foldE keeps_if

lemma keeps_entry: "keeps_length (\<lambda>out. WriteDirectoryEntry out at e r layout)"
  unfolding WriteDirectoryEntry_def PutName_def Let_def by (intro keeps_intros)

lemma keeps_unused: "keeps_length (\<lambda>out. WriteUnusedEntry out at)"
  unfolding WriteUnusedEntry_def by (intro keeps_intros)

lemma keeps_header: "keeps_length (WriteHeader src hdr layout)"
  unfolding WriteHeader_def WriteHeaderFat_def by (intro keeps_intros keeps_read [of "\<lambda>out bs. mem_write out _ bs"])

lemma CopyPieces_length: "CopyPieces out at ps = Inr out' \<Longrightarrow> length out' = length out"
proof -
  have "length (fst st') = length (fst st)" if "foldE CopyPiece st ps = Inr st'" for st st'
    using that
  proof (induction ps arbitrary: st)
    case (Cons p ps)
    then obtain st1 where "CopyPiece st p = Inr st1" "foldE CopyPiece st1 ps = Inr st'" by auto
    moreover have "length (fst st1) = length (fst st)" if "CopyPiece st p = Inr st1"
      using that by (cases st) (auto simp: CopyPiece_def mem_write_def split: if_splits)
    ultimately show ?case using Cons.IH by metis
  qed simp
  then show "CopyPieces out at ps = Inr out' \<Longrightarrow> length out' = length out" by (fastforce simp: CopyPieces_def)
qed

lemma WriteStreams_length:
  "foldE (WriteStream layout) (out, ix) es = Inr (out', ix') \<Longrightarrow> length out' = length out"
proof (induction es arbitrary: out ix)
  case (Cons e es)
  then obtain o1 i1 where "WriteStream layout (out, ix) e = Inr (o1, i1)" "foldE (WriteStream layout) (o1, i1) es = Inr (out', ix')" by auto
  moreover have "length o1 = length out" if "WriteStream layout (out, ix) e = Inr (o1, i1)"
    using that by (auto simp: WriteStream_def split: if_splits dest: CopyPieces_length)
  ultimately show ?case using Cons.IH by metis
qed simp

lemma Serialise_length:
  assumes "Serialise size_max m es layout = Inr (out, es')"
  shows "length out < 2 ^ 64"
proof -
  let ?ss = "ucast (ly_sector_size layout) :: u64"
  from assms obtain total fat o1 ix o2 o3 o4 o5 src where
    w: "foldE (WriteStream layout) (replicate (unat (total :: u64)) 0,
          replicate (unat (ly_mini_index_sectors layout * ly_per_index layout)) kCfbFreeSector) es' = Inr (o1, ix)"
      "WriteWords (sector_at layout (ly_mini_index_start layout)) ix o1 = Inr o2"
      "foldE (WriteSlot layout es') o2 [0..<unat (ly_directory_sectors layout * (?ss div kDirEntrySize))] = Inr o3"
      "WriteWords (sector_at layout (ly_fat_start layout)) fat o3 = Inr o4"
      "foldE (WriteDifatSector layout) o4 [0..<unat (ly_difat_sectors layout)] = Inr o5"
      "WriteHeader src (header m) layout o5 = Inr out"
    by (auto simp: Serialise_def Let_def)
  have words: "keeps_length (WriteWords at ws)" for at ws
    unfolding WriteWords_def [abs_def] by (intro keeps_intros)
  have slots: "keeps_length (\<lambda>out. foldE (WriteSlot layout es') out xs)" for xs
    unfolding WriteSlot_def Let_def by (intro keeps_intros keeps_entry keeps_unused)
  have difat: "keeps_length (\<lambda>out. foldE (WriteDifatSector layout) out xs)" for xs
    unfolding WriteDifatSector_def WriteDifatEntry_def Let_def by (intro keeps_intros)
  have "length out = unat total"
    using w WriteStreams_length [OF w(1)] words slots difat keeps_header unfolding keeps_length_def
    by (metis length_replicate)
  then show ?thesis using unat_u64_less [of total] by simp
qed

section \<open>The rebuilt package\<close>

lemma SearchFrom_key: "name_key a = name_key b \<Longrightarrow> SearchFrom nodes a left pos = SearchFrom nodes b left pos"
proof (induction left arbitrary: pos)
  case (Suc left)
  have "CompareNames a x = 0 \<longleftrightarrow> CompareNames b x = 0" "CompareNames a x < 0 \<longleftrightarrow> CompareNames b x < 0" for x
    unfolding CompareNames_key Suc.prems by simp_all
  then show ?case using Suc by (simp add: Let_def cong: if_cong)
qed simp

lemma searchable_names: "searchable n \<Longrightarrow> names_ok n r"
proof (induction "size n" arbitrary: n r rule: less_induct)
  case (less n r)
  show ?case
  proof (cases "is_storage n")
    case True
    with less.prems have found: "FindBySearch n (node_name (node_children n ! i)) = Inr (Some i)"
      if "i < length (node_children n)" for i
      using that by (auto simp: searchable.simps [of n] list_all_iff)
    have "distinct (map (\<lambda>n. name_key (node_name n)) (node_children n))"
      unfolding distinct_conv_nth
    proof (intro allI impI notI)
      fix i j assume ij: "i < length (map (\<lambda>n. name_key (node_name n)) (node_children n))"
        "j < length (map (\<lambda>n. name_key (node_name n)) (node_children n))" "i \<noteq> j"
        and eq: "map (\<lambda>n. name_key (node_name n)) (node_children n) ! i = map (\<lambda>n. name_key (node_name n)) (node_children n) ! j"
      then have "name_key (node_name (node_children n ! i)) = name_key (node_name (node_children n ! j))" by simp
      then have "FindBySearch n (node_name (node_children n ! i)) = FindBySearch n (node_name (node_children n ! j))"
        unfolding FindBySearch_def by (rule SearchFrom_key)
      with found [of i] found [of j] ij show False by simp
    qed
    moreover have "names_ok child False" if "child \<in> set (hashed_children n r)" for child
    proof -
      have "child \<in> set (node_children n)" using that by (auto simp: hashed_children_def)
      with less.hyps [OF child_size [OF this]] less.prems True show ?thesis
        by (auto simp: searchable.simps [of n] list_all_iff)
    qed
    ultimately show ?thesis by (simp add: names_ok.simps [of n] RejectDuplicateNames_iff list_all_iff)
  qed (simp add: names_ok.simps [of n])
qed

lemma flat_root: "flat_ok (root_sequence r signature)"
proof -
  have "e \<in> set (root_sequence r signature) \<Longrightarrow> snd e \<longrightarrow> \<not> is_storage (fst e)" for e
    using arg_cong [OF root_sequence_mset [of r signature], of set_mset]
    by (auto simp: signature_node_def split: option.splits)
  then show ?thesis by (fastforce simp: flat_ok_def)
qed

lemma signature_item:
  "node_items host m (sig_bytes (Some bs)) (signature_node (Some bs), True) t \<longleftrightarrow>
    t = StreamItem (MsiSignatureName, replicate 16 0, 0, 0, 0) bs"
  by (auto simp: node_items_def signature_node_def sig_bytes_def meta_of_def)

lemma list_all2_mset:
  assumes "list_all2 R xs ts" and "mset xs = mset ys" and "\<And>x t t'. R x t \<Longrightarrow> R x t' \<Longrightarrow> t = t'"
  shows "\<exists>us. list_all2 R ys us \<and> mset us = mset ts"
proof -
  define f where "f x = (THE t. R x t)" for x
  have f: "R x t \<Longrightarrow> f x = t" for x t unfolding f_def using assms(3) by blast
  have ts: "ts = map f xs"
    using assms(1) f by (auto simp: list_all2_conv_all_nth intro!: nth_equalityI)
  have "R x (f x)" if "x \<in> set xs" for x
    using assms(1) f that by (metis in_set_conv_nth list_all2_conv_all_nth)
  then have "list_all2 R ys (map f ys)"
    using mset_eq_setD [OF assms(2)] by (auto simp: list_all2_conv_all_nth)
  with ts assms(2) show ?thesis by (metis mset_map)
qed

lemma node_items_name: "node_items host m sb e t \<Longrightarrow> item_name t = node_name (fst e)"
proof (cases e)
  case (Pair n f)
  assume "node_items host m sb e t"
  with Pair consider bs where "t = StreamItem (meta_of n) bs" | t0 where "contents host m n = Inr t0" "t = canonical t0"
    by (auto simp: node_items_def split: if_splits)
  then show ?thesis
  proof cases
    case 1
    then show ?thesis using Pair by (simp add: item_name_def meta_of_def)
  next
    case 2
    then show ?thesis using Pair contents_name [OF 2(1)] by simp
  qed
qed

lemma node_items_names:
  "list_all2 (node_items host m sb) es ts \<Longrightarrow>
    map (\<lambda>t. name_key (item_name t)) ts = map (\<lambda>e. name_key (node_name (fst e))) es"
  by (induction es ts rule: list_all2_induct) (simp_all add: node_items_name)

lemma node_items_kept:
  "list_all2 (node_items host m sb) (map (\<lambda>child. (child, False)) ns) us \<Longrightarrow>
    \<exists>ts. mapE (contents host m) ns = Inr ts \<and> us = map canonical ts"
proof (induction ns arbitrary: us)
  case (Cons n ns)
  then obtain u us' where us: "us = u # us'" and u: "node_items host m sb (n, False) u"
    and rest: "list_all2 (node_items host m sb) (map (\<lambda>child. (child, False)) ns) us'" by (auto simp: list_all2_Cons1)
  from u obtain t where "contents host m n = Inr t" "u = canonical t" by (auto simp: node_items_def)
  moreover from Cons.IH [OF rest] obtain ts where "mapE (contents host m) ns = Inr ts" "us' = map canonical ts" by blast
  ultimately show ?case using us by simp
qed simp

lemma node_items_unique: "node_items host m sb e t \<Longrightarrow> node_items host m sb e t' \<Longrightarrow> t = t'"
  by (cases e) (auto simp: node_items_def split: if_splits)

lemma item_less_key: "item_less a b \<longleftrightarrow> name_key (item_name a) < name_key (item_name b)"
  by (simp add: item_less_def CompareNames_key)

lemma item_less_sort: "sort_by item_less ts = sort_key (\<lambda>t. name_key (item_name t)) ts"
  by (rule sort_by_key) (rule item_less_key)

text \<open>The items under the root are the ones meant, in the order of the format.\<close>

lemma root_items:
  assumes "CheckUniqueNames (root_sequence (root m) signature) = Inr ()" and "signature \<noteq> Some []"
    and "list_all2 (node_items host m (sig_bytes signature)) (sort_by element_less (root_sequence (root m) signature)) ts"
  shows "\<exists>us. package_items host m = Inr us \<and> ts = sort_by item_less (map canonical us @ signature_items signature)"
proof -
  let ?els = "root_sequence (root m) signature" and ?sb = "sig_bytes signature"
  let ?kept = "filter (\<lambda>child. \<not> IsMsiSignatureName (node_name child)) (node_children (root m))"
  let ?sig = "(case signature of None \<Rightarrow> [] | Some _ \<Rightarrow> [(signature_node signature, True)]) :: element list"
  have "mset (sort_by element_less ?els) = mset (map (\<lambda>child. (child, False)) ?kept @ ?sig)"
    by (simp add: root_sequence_mset split: option.split)
  from list_all2_mset [OF assms(3) this] node_items_unique obtain us where
    us: "list_all2 (node_items host m ?sb) (map (\<lambda>child. (child, False)) ?kept @ ?sig) us" "mset us = mset ts" by blast
  then obtain ks ss where ks: "list_all2 (node_items host m ?sb) (map (\<lambda>child. (child, False)) ?kept) ks"
    and ss: "list_all2 (node_items host m ?sb) ?sig ss" and eq: "us = ks @ ss" by (auto simp: list_all2_append1)
  from node_items_kept [OF ks] obtain xs where xs: "package_items host m = Inr xs" "ks = map canonical xs"
    by (auto simp: package_items_def)
  have "ss = signature_items signature"
    using ss assms(2) by (cases signature) (auto simp: signature_items_def list_all2_Cons1 signature_item)
  then have mset: "mset ts = mset (map canonical xs @ signature_items signature)" using us(2) eq xs by simp
  have keys: "map (\<lambda>t. name_key (item_name t)) ts = map (\<lambda>e. name_key (node_name (fst e))) (sort_by element_less ?els)"
    using node_items_names [OF assms(3)] .
  have "distinct (map (\<lambda>t. name_key (item_name t)) ts)"
    unfolding keys using assms(1) CheckUniqueNames_iff distinct_map_mset [OF mset_sort_by] by blast
  from sort_by_unique [OF item_less_key mset this]
  have "sort_by item_less ts = sort_by item_less (map canonical xs @ signature_items signature)" .
  moreover have "sort_by item_less ts = ts"
    unfolding item_less_sort by (rule sort_key_id_if_sorted) (simp add: keys element_less_sort)
  ultimately show ?thesis using xs(1) by simp
qed

lemma root_sequence_count: "is_storage r \<Longrightarrow> element_count (root_sequence r signature) \<le> node_count r"
proof -
  assume r: "is_storage r"
  have count: "element_count els = sum_mset (image_mset (\<lambda>e. node_count (fst e)) (mset els))" for els
    by (simp add: element_count_def flip: sum_mset_sum_list)
  have "node_count (signature_node signature) = 1" by (simp add: node_count.simps signature_node_def)
  then have "element_count (root_sequence r signature) \<le>
      sum_list (map node_count (filter (\<lambda>child. \<not> IsMsiSignatureName (node_name child)) (node_children r))) + 1"
    unfolding count root_sequence_mset
    by (auto simp: comp_def sum_mset_sum_list [symmetric] image_mset.compositionality split: option.split)
  also have "\<dots> \<le> sum_list (map node_count (node_children r)) + 1"
    by (simp add: sum_list_filter_le_nat)
  finally show ?thesis using r by (simp add: node_count.simps [of r])
qed

lemma ParseBytes_fresh:
  assumes "length bs < 2 ^ 64" and "CfbReader_ParseBytes host bs = Inr m"
  shows "fresh host m bs" and "is_storage (root m)" and "node_count (root m) < 2 ^ 32"
proof -
  have "span_ok (ByteSpan_of_bytes bs cfb_format ''the file'') bs" by (rule span_ok_bytes) (rule assms(1))
  moreover have "span_format (ByteSpan_of_bytes bs cfb_format ''the file'') = cfb_format"
    by (simp add: ByteSpan_of_bytes_def)
  ultimately show "fresh host m bs" using assms(2) unfolding CfbReader_ParseBytes_def by (rule Parse_fresh)
qed (use assms(2) Parse_root_storage Parse_node_count in \<open>auto simp: CfbReader_ParseBytes_def\<close>)

lemma WriteCfb_Inr:
  assumes fr: "fresh host m c" and root: "is_storage (root m)" "node_count (root m) < 2 ^ 32"
    and sig: "length (sig_bytes signature) < 2 ^ 64"
    and run: "WriteCfb size_max host m signature k = Inr (out, m1, k1)"
  obtains m' ts where "CfbReader_ParseBytes host out = Inr m'" and "length out < 2 ^ 64"
    and "package_items host m = Inr ts"
    and "contents host m' (root m') = Inr (rebuilt_content (meta_of (root m)) ts signature)"
    and "searchable (root m')" and "resolves host (all_streams (root m')) (m', 0) \<noteq> None"
proof -
  let ?sig = "if signature = Some [] then None else signature"
  let ?els = "root_sequence (root m) ?sig"
  from run obtain ma ka es layout es1 es2 m' x where flat: "Flattener_Run host m ?sig k = Inr (ma, ka, es)"
    and lay: "ComputeLayout es (header ma) = Inr (layout, es1)" and ser: "Serialise size_max ma es1 layout = Inr (out, es2)"
    and parse: "CfbReader_ParseBytes host out = Inr m'" and cmp: "CompareEntry host es2 0 (root m') (m', ka) = Inr (x, k1)"
    by (auto simp: WriteCfb_def Let_def)
  have sb: "sig_bytes ?sig = sig_bytes signature" by (simp add: sig_bytes_def)
  note ex = flat [unfolded Flattener_Run_def]
  have len: "length es = 1 + element_count ?els" using Expand_length [OF ex] by simp
  then have len32: "length es \<le> 2 ^ 32" using root_sequence_count [OF root(1), of ?sig] root(2) by linarith
  have "expanded host m (sig_bytes signature) (unat (0 :: u32)) ?els [Entry_of (root m)] es"
    using Expand_Inr [OF fr _ flat_root fr [unfolded fresh_def] _ len32 ex] sig unfolding sb by simp
  then obtain ps ts where ps: "es ! 0 = (Entry_of (root m))\<lparr>en_children := ps\<rparr>"
    and ts: "list_all2 (node_items host m (sig_bytes signature)) (sort_by element_less ?els) ts"
    and kids: "list_all2 (\<lambda>q t. 1 \<le> unat q \<and> entry_tree es 1 (unat q) t) ps ts"
    unfolding expanded_def by auto
  have before: "entry_tree es 1 (unat (0 :: u32)) (StorageItem (meta_of (root m)) ts)"
    using ps kids len root(1) by (simp add: Entry_of_def)
  have "map core es2 = map core es" using ComputeLayout_core [OF lay] Serialise_core [OF ser] by (simp only:)
  note tree = entry_tree_core [OF this before]
  have out: "length out < 2 ^ 64" by (rule Serialise_length [OF ser])
  note fr' = ParseBytes_fresh(1) [OF out parse]
  have got: "(contents host m' (root m') = Inr (StorageItem (meta_of (root m)) ts) \<and> searchable (root m')) \<and>
      resolves host (all_streams (root m')) (m', ka) = Some (x, k1)"
    by (rule CompareEntry_Inr [OF fr' fr' [unfolded fresh_def] tree cmp])
  have "CheckUniqueNames ?els = Inr ()" using Expand_cases [OF ex] by blast
  then obtain us where us: "package_items host m = Inr us" "ts = sort_by item_less (map canonical us @ signature_items ?sig)"
    using root_items [of m ?sig, OF _ _ ts [folded sb]] by (metis option.distinct(1))
  have "signature_items ?sig = signature_items signature" by (simp add: signature_items_def)
  with us got have "contents host m' (root m') = Inr (rebuilt_content (meta_of (root m)) us signature)"
    by (simp add: rebuilt_content_def)
  moreover have "resolves host (all_streams (root m')) (m', 0) \<noteq> None"
    using resolves_any_order [OF fr' _ subset_mset.order_refl] got by fastforce
  ultimately show thesis using that parse out us(1) got by blast
qed

end
