(* ===== verification/Msi_Package.thy ===== *)
theory Msi_Package
  imports Cfb_Rebuild
begin

text \<open>
  The fingerprint of a package the writer made is the fingerprint of the package it was made from: reordering the
  entries of a storage and replacing the signature do not change the bytes that are hashed.
\<close>

section \<open>The order of the hash\<close>

definition raw_key :: "u16string \<Rightarrow> nat list" where
  "raw_key s = map (\<lambda>u. unat u mod 256 * 256 + unat u div 256) s"

lemma low_byte: "unat (ucast (a AND 0xFF) :: u8) = unat (a :: u16) mod 256"
proof -
  have "a AND 0xFF = take_bit 8 a" by (simp add: take_bit_eq_mask mask_eq_exp_minus_1)
  then show ?thesis by (simp add: unsigned_ucast_eq unsigned_take_bit_eq take_bit_eq_mod unat_mod)
qed

lemma high_byte: "unat (ucast (drop_bit 8 a) :: u8) = unat (a :: u16) div 256"
proof -
  show ?thesis using unat_u16_less [of a] by (simp add: unsigned_ucast_eq unsigned_drop_bit_eq drop_bit_eq_div take_bit_eq_mod unat_div)
qed

lemma two_digits:
  assumes "b < (256 :: nat)" and "d < 256"
  shows "a * 256 + b = c * 256 + d \<longleftrightarrow> a = c \<and> b = d"
    and "a * 256 + b < c * 256 + d \<longleftrightarrow> (if a \<noteq> c then a < c else b < d)"
proof -
  consider "a = c" | "a + 1 \<le> c" | "c + 1 \<le> a" by linarith
  then have "(a * 256 + b = c * 256 + d \<longleftrightarrow> a = c \<and> b = d) \<and>
      (a * 256 + b < c * 256 + d \<longleftrightarrow> (if a \<noteq> c then a < c else b < d))"
    using assms by cases auto
  then show "a * 256 + b = c * 256 + d \<longleftrightarrow> a = c \<and> b = d"
    and "a * 256 + b < c * 256 + d \<longleftrightarrow> (if a \<noteq> c then a < c else b < d)" by blast+
qed

lemma raw_digits: "unat (u :: u16) div 256 < 256"
  using unat_u16_less [of u] by simp

lemma raw_unit: "unat (u :: u16) mod 256 * 256 + unat u div 256 = unat v mod 256 * 256 + unat v div 256 \<longleftrightarrow> u = v"
  unfolding two_digits(1) [OF raw_digits raw_digits] word_unat_eq_iff by (metis div_mult_mod_eq)

lemmas raw_unit_less = two_digits(2) [OF raw_digits raw_digits]

lemma raw_key_empty: "raw_key [] = []" "[] < raw_key s \<longleftrightarrow> s \<noteq> []"
  by (cases s; simp add: raw_key_def)+

lemma RawNameLess_key: "RawNameLess a b \<longleftrightarrow> raw_key a < raw_key b"
proof (induction a b rule: RawNameLess.induct)
  case (1 a as b bs)
  show ?case
  proof (cases "a = b")
    case True
    with 1 show ?thesis by (simp add: raw_key_def)
  next
    case False
    then show ?thesis
      using raw_unit [of a b]
      by (simp add: raw_key_def Let_def raw_unit_less word_unat_eq_iff word_less_nat_alt low_byte high_byte)
  qed
qed (simp_all add: raw_key_empty)

lemma raw_key_inj: "raw_key a = raw_key b \<longleftrightarrow> a = b"
  by (induction a arbitrary: b) (auto simp: raw_key_def raw_unit Cons_eq_map_conv)

definition raw_less :: "item \<Rightarrow> item \<Rightarrow> bool" where
  "raw_less a b \<longleftrightarrow> RawNameLess (item_name a) (item_name b)"

lemma raw_less_key: "raw_less a b \<longleftrightarrow> raw_key (item_name a) < raw_key (item_name b)"
  by (simp add: raw_less_def RawNameLess_key)

lemma hashed_items_raw: "hashed_items r ts = sort_by raw_less (filter (\<lambda>t. \<not> (r \<and> IsMsiSignatureName (item_name t))) ts)"
  by (simp add: hashed_items_def raw_less_def [abs_def])

section \<open>Packages without two entries of one name\<close>

definition apart_names :: "item list \<Rightarrow> bool" where
  "apart_names ts \<longleftrightarrow> distinct (map (\<lambda>t. name_key (item_name t)) ts)"

fun items_ok :: "item \<Rightarrow> bool" where
  "items_ok (StreamItem mt bs) \<longleftrightarrow> True"
| "items_ok (StorageItem mt ts) \<longleftrightarrow> apart_names ts \<and> (\<forall>t \<in> set ts. items_ok t)"

lemma apart_names_mset: "mset ts = mset us \<Longrightarrow> apart_names ts \<longleftrightarrow> apart_names us"
  unfolding apart_names_def by (rule distinct_map_mset)

lemma apart_names_raw:
  assumes "apart_names ts"
  shows "distinct (map (\<lambda>t. raw_key (item_name t)) ts)"
proof -
  have "inj_on (\<lambda>t. name_key (item_name t)) (set ts)" "distinct ts" using assms by (simp_all add: apart_names_def distinct_map)
  then show ?thesis by (auto simp: distinct_map inj_on_def raw_key_inj)
qed

lemma apart_names_canonical: "apart_names (map canonical ts) \<longleftrightarrow> apart_names ts"
  by (simp add: apart_names_def comp_def)

lemma items_ok_canonical: "items_ok (canonical t) \<longleftrightarrow> items_ok t"
proof (induction t)
  case (StorageItem mt ts)
  have "apart_names (sort_by item_less (map canonical ts)) \<longleftrightarrow> apart_names ts"
    using apart_names_mset [OF mset_sort_by] apart_names_canonical by blast
  with StorageItem show ?case by simp
qed simp

lemma contents_items_ok: "names_ok n False \<Longrightarrow> contents host m n = Inr t \<Longrightarrow> items_ok t"
proof (induction "size n" arbitrary: n t rule: less_induct)
  case less
  show ?case
  proof (cases "is_storage n")
    case True
    with less.prems(2) obtain ts where ts: "mapE (contents host m) (node_children n) = Inr ts" and t: "t = StorageItem (meta_of n) ts"
      by (auto simp: contents_storage)
    note items = mapE_contents [OF ts]
    have ok: "distinct (map (\<lambda>n. name_key (node_name n)) (node_children n))" "\<forall>child \<in> set (node_children n). names_ok child False"
      using less.prems(1) True
      by (simp_all add: names_ok.simps [of n] RejectDuplicateNames_iff list_all_iff hashed_children_filter)
    have "map (\<lambda>t. name_key (item_name t)) ts = map (\<lambda>n. name_key (node_name n)) (node_children n)"
      using items contents_name by (auto simp: comp_def)
    with ok(1) have "apart_names ts" by (simp add: apart_names_def)
    moreover have "items_ok u" if "u \<in> set ts" for u
      using that items less.hyps [OF child_size] ok(2) by auto
    ultimately show ?thesis by (simp add: t)
  next
    case False
    with less.prems(2) show ?thesis by (auto simp: contents.simps [of host m n])
  qed
qed

section \<open>The hashed bytes\<close>

text \<open>Items in any order, and with their storages in any order, are hashed alike.\<close>

lemma hash_order:
  assumes "mset us = mset (map canonical ts)" and "apart_names ts"
  shows "sort_by raw_less us = map canonical (sort_by raw_less ts)"
proof -
  have "apart_names us" using assms apart_names_mset apart_names_canonical by blast
  then have "sort_by raw_less us = sort_by raw_less (map canonical ts)"
    using sort_by_unique [of raw_less "\<lambda>t. raw_key (item_name t)", OF raw_less_key assms(1)] apart_names_raw by blast
  then show ?thesis by (simp add: map_sort_by [of ts raw_less canonical raw_less] raw_less_def)
qed

lemma hash_same:
  "(\<And>t. t \<in> set ts \<Longrightarrow> f t = g t) \<Longrightarrow> concat (map f (sort_by raw_less ts)) = concat (map g (sort_by raw_less ts))"
  by (metis map_eq_conv set_sort_by)

lemma fingerprint_canonical: "items_ok t \<Longrightarrow> fingerprint_bytes False (canonical t) = fingerprint_bytes False t"
proof (induction "size t" arbitrary: t rule: less_induct)
  case less
  show ?case
  proof (cases t)
    case (StorageItem mt ts)
    have "sort_by raw_less (sort_by item_less (map canonical ts)) = map canonical (sort_by raw_less ts)"
      using less.prems StorageItem by (intro hash_order) simp_all
    moreover have "fingerprint_bytes False (canonical u) = fingerprint_bytes False u" if "u \<in> set ts" for u
      using less.hyps [of u] item_size [OF that, of mt] less.prems StorageItem that by simp
    then have "concat (map (\<lambda>u. fingerprint_bytes False (canonical u)) (sort_by raw_less ts)) =
        concat (map (fingerprint_bytes False) (sort_by raw_less ts))" by (rule hash_same)
    ultimately show ?thesis using StorageItem by (simp add: hashed_items_raw comp_def)
  qed simp
qed

lemma fingerprint_rebuilt:
  assumes ok: "items_ok (rebuilt_content mt ts signature)" and ts: "\<forall>t \<in> set ts. \<not> IsMsiSignatureName (item_name t)"
  shows "fingerprint_bytes True (rebuilt_content mt ts signature) = fingerprint_bytes True (StorageItem mt ts)"
proof -
  let ?all = "map canonical ts @ signature_items signature"
  have apart: "apart_names ?all" using ok apart_names_mset [OF mset_sort_by] by (simp add: rebuilt_content_def)
  then have "apart_names (map canonical ts)" by (simp add: apart_names_def)
  then have names: "apart_names ts" by (simp add: apart_names_canonical)
  have each: "fingerprint_bytes False (canonical t) = fingerprint_bytes False t" if "t \<in> set ts" for t
  proof (rule fingerprint_canonical)
    have "items_ok (canonical t)" using ok that by (simp add: rebuilt_content_def)
    then show "items_ok t" by (simp only: items_ok_canonical)
  qed
  have sig: "\<forall>t \<in> set (signature_items signature). IsMsiSignatureName (item_name t)"
    by (auto simp: signature_items_def item_name_def IsMsiSignatureName_def split: option.splits)
  have "filter (\<lambda>t. \<not> IsMsiSignatureName (item_name t)) ?all = map canonical ts"
    using ts sig by (simp add: filter_id_conv)
  then have "mset (filter (\<lambda>t. \<not> IsMsiSignatureName (item_name t)) (sort_by item_less ?all)) = mset (map canonical ts)"
    by (metis mset_filter mset_sort_by)
  from hash_order [OF this names]
  have "hashed_items True (sort_by item_less ?all) = map canonical (sort_by raw_less ts)" by (simp add: hashed_items_raw)
  moreover have "hashed_items True ts = sort_by raw_less ts" using ts by (simp add: hashed_items_raw filter_id_conv)
  moreover have "concat (map (\<lambda>u. fingerprint_bytes False (canonical u)) (sort_by raw_less ts)) =
      concat (map (fingerprint_bytes False) (sort_by raw_less ts))" by (rule hash_same) (rule each)
  ultimately show ?thesis by (simp add: rebuilt_content_def comp_def)
qed

lemma fingerprint_filtered:
  "fingerprint_bytes True (StorageItem mt (filter (\<lambda>t. \<not> IsMsiSignatureName (item_name t)) ts)) = fingerprint_bytes True (StorageItem mt ts)"
  by (simp add: hashed_items_raw)

section \<open>A package that was checked\<close>

lemma mapE_contents_filter:
  "mapE (contents host m) ns = Inr ts \<Longrightarrow>
    mapE (contents host m) (filter (\<lambda>n. P (node_name n)) ns) = Inr (filter (\<lambda>t. P (item_name t)) ts)"
proof (induction ns arbitrary: ts)
  case (Cons n ns)
  then obtain t us where "contents host m n = Inr t" "mapE (contents host m) ns = Inr us" "ts = t # us" by auto
  with Cons.IH contents_name [of host m n t] show ?case by simp
qed simp

lemma package_items_root:
  assumes "contents host m (root m) = Inr (StorageItem mt ts)"
  shows "package_items host m = Inr (filter (\<lambda>t. \<not> IsMsiSignatureName (item_name t)) ts)"
proof -
  have "is_storage (root m)" using assms by (auto simp: contents.simps [of host m "root m"] split: if_splits)
  with assms have "mapE (contents host m) (node_children (root m)) = Inr ts" by (auto simp: contents_storage)
  then show ?thesis unfolding package_items_def by (rule mapE_contents_filter)
qed

end
