(* ===== verification/Digest_Field.thy ===== *)
theory Digest_Field
  imports Bounded_Bytes
begin

text \<open>
  \<open>src/internal/AuthenticodeDigestField.cpp\<close>: reading the fingerprint stored inside an Authenticode
  signature, by walking one fixed path through its DER encoding.

  The lemmas show that every blob gets an answer, readable or not, without an access outside it; and that
  the walk reads what a DER encoder writes: from the encoding of any signed indirect data it returns the digest and
  the dotted name of its algorithm.
\<close>

section \<open>The code\<close>

definition der_format :: string where "der_format = ''signature''"

definition kMaxSkippedSiblings :: nat where "kMaxSkippedSiblings = 16"
definition kMaxLengthBytes :: u64 where "kMaxLengthBytes = 4"
definition kMaxOidBytes :: u64 where "kMaxOidBytes = 32"

definition kTagInteger :: u8 where "kTagInteger = 0x02"
definition kTagOctetString :: u8 where "kTagOctetString = 0x04"
definition kTagOid :: u8 where "kTagOid = 0x06"
definition kTagSequence :: u8 where "kTagSequence = 0x30"
definition kTagSet :: u8 where "kTagSet = 0x31"
definition kTagContext0 :: u8 where "kTagContext0 = 0xA0"

record Element =
  el_tag :: u8
  el_content :: ByteSpan
  el_total :: u64

text \<open>The bytes of a long length, most significant first.\<close>

definition LengthByte :: "ByteOrder \<Rightarrow> ByteSpan \<Rightarrow> u64 \<Rightarrow> u64 \<Rightarrow> nat \<Rightarrow> u64 res" where
  "LengthByte host parent offset len i =
     bindE (Read host parent (offset + 2 + word_of_nat i) Big ''length byte'') (\<lambda>b :: u8.
     Inr (push_bit 8 len OR ucast b))"

text \<open>The length of an element and the size of its header.\<close>

definition ReadLength :: "ByteOrder \<Rightarrow> ByteSpan \<Rightarrow> u64 \<Rightarrow> (u64 \<times> u64) res" where
  "ReadLength host parent offset =
     bindE (Read host parent (offset + 1) Big ''length'') (\<lambda>first :: u8.
     let len = ucast first :: u64 in
     if len \<ge> 0x80 then
       let count = len AND 0x7F in
       if count = 0 \<or> count > kMaxLengthBytes then
         ThrowMalformed der_format (''length at offset '' @ to_string (offset + 1) @ '' is indefinite or too long'')
       else bindE (foldE (LengthByte host parent offset) 0 [0..<unat count]) (\<lambda>len. Inr (len, 2 + count))
     else Inr (len, 2))"

definition ReadElement :: "ByteOrder \<Rightarrow> ByteSpan \<Rightarrow> u64 \<Rightarrow> Element res" where
  "ReadElement host parent offset =
     bindE (Read host parent offset Big ''tag'') (\<lambda>tag :: u8.
     if tag AND 0x1F = 0x1F then
       ThrowMalformed der_format (''tag at offset '' @ to_string offset @ '' uses the long form'')
     else
       bindE (ReadLength host parent offset) (\<lambda>(len, hdr).
       bindE (Sub parent (offset + hdr) len ''element'') (\<lambda>content.
       Inr \<lparr>el_tag = tag, el_content = content, el_total = hdr + len\<rparr>)))"

definition SkipElement :: "ByteOrder \<Rightarrow> ByteSpan \<Rightarrow> u64 \<Rightarrow> nat \<Rightarrow> u64 res" where
  "SkipElement host content offset i =
     bindE (ReadElement host content offset) (\<lambda>e. Inr (offset + el_total e))"

definition Child :: "ByteOrder \<Rightarrow> Element \<Rightarrow> nat \<Rightarrow> u8 \<Rightarrow> string \<Rightarrow> Element res" where
  "Child host parent n tag what =
     (if n > kMaxSkippedSiblings then
        ThrowMalformed der_format (what @ '' is too far from the start of its parent'')
      else
        bindE (foldE (SkipElement host (el_content parent)) 0 [0..<n]) (\<lambda>offset.
        bindE (ReadElement host (el_content parent) offset) (\<lambda>child.
        if el_tag child \<noteq> tag then
          ThrowMalformed der_format (what @ '' has tag '' @ to_string (el_tag child) @ '', expected '' @ to_string tag)
        else Inr child)))"

text \<open>The loop over the bytes of an object identifier; the state is the text, the value so far, and \<open>first\<close>.\<close>

definition OidByte :: "ByteOrder \<Rightarrow> ByteSpan \<Rightarrow> string \<times> u64 \<times> bool \<Rightarrow> nat \<Rightarrow> (string \<times> u64 \<times> bool) res" where
  "OidByte host content = (\<lambda>(txt, val, first) i.
     bindE (Read host content (word_of_nat i) Big ''object identifier'') (\<lambda>b :: u8.
     let v = push_bit 7 val OR ucast (b AND 0x7F) in
     if b AND 0x80 \<noteq> 0 then
       if word_of_nat i + 1 = span_size content \<or> v > drop_bit 8 (- 1) then
         ThrowMalformed der_format ''object identifier is not well formed''
       else Inr (txt, v, first)
     else if first then
       let head = (if v < 80 then v div 40 else 2) in
       Inr (to_string head @ ''.'' @ to_string (v - head * 40), 0, False)
     else Inr (txt @ ''.'' @ to_string v, 0, first)))"

definition DecodeOid :: "ByteOrder \<Rightarrow> ByteSpan \<Rightarrow> string res" where
  "DecodeOid host content =
     (if span_size content = 0 \<or> span_size content > kMaxOidBytes then
        ThrowMalformed der_format (''object identifier has '' @ to_string (span_size content) @ '' bytes'')
      else bindE (foldE (OidByte host content) ([], 0, True) [0..<unat (span_size content)]) (\<lambda>(txt, _, _). Inr txt))"

definition OidOf :: "ByteOrder \<Rightarrow> Element \<Rightarrow> string res" where
  "OidOf host e = DecodeOid host (el_content e)"

record AuthenticodeDigestField =
  readable :: bool
  field_algorithm :: string
  field_digest :: bytes
  field_detail :: string

definition IsSha256 :: "AuthenticodeDigestField \<Rightarrow> bool" where
  "IsSha256 f \<longleftrightarrow> field_algorithm f = ''2.16.840.1.101.3.4.2.1''"

text \<open>The body of the \<open>try\<close> block.\<close>

definition WalkSignature :: "ByteOrder \<Rightarrow> bytes \<Rightarrow> AuthenticodeDigestField res" where
  "WalkSignature host blob =
     (let whole = ByteSpan_of_bytes blob der_format ''the signature'' in
      bindE (ReadElement host whole 0) (\<lambda>content_info.
      if el_tag content_info \<noteq> kTagSequence then
        ThrowMalformed der_format ''the signature does not start with a sequence''
      else
      bindE (Child host content_info 0 kTagOid ''content type'') (\<lambda>content_type.
      bindE (OidOf host content_type) (\<lambda>content_oid.
      if content_oid \<noteq> ''1.2.840.113549.1.7.2'' then
        ThrowMalformed der_format ''the signature is not a signed-data structure''
      else
      bindE (Child host content_info 1 kTagContext0 ''signed data'') (\<lambda>signed_data_tag.
      bindE (Child host signed_data_tag 0 kTagSequence ''signed data body'') (\<lambda>signed_data.
      bindE (Child host signed_data 0 kTagInteger ''signed data version'') (\<lambda>_.
      bindE (Child host signed_data 1 kTagSet ''digest algorithms'') (\<lambda>_.
      bindE (Child host signed_data 2 kTagSequence ''signed content'') (\<lambda>inner.
      bindE (Child host inner 0 kTagOid ''signed content type'') (\<lambda>inner_type.
      bindE (OidOf host inner_type) (\<lambda>inner_oid.
      if inner_oid \<noteq> ''1.3.6.1.4.1.311.2.1.4'' then
        ThrowMalformed der_format ''the signed content is not an indirect data content''
      else
      bindE (Child host inner 1 kTagContext0 ''indirect data'') (\<lambda>data_tag.
      bindE (Child host data_tag 0 kTagSequence ''indirect data body'') (\<lambda>data.
      bindE (Child host data 1 kTagSequence ''digest information'') (\<lambda>digest_info.
      bindE (Child host digest_info 0 kTagSequence ''digest algorithm'') (\<lambda>alg.
      bindE (Child host alg 0 kTagOid ''digest algorithm identifier'') (\<lambda>alg_id.
      bindE (OidOf host alg_id) (\<lambda>alg_oid.
      bindE (Child host digest_info 1 kTagOctetString ''digest'') (\<lambda>dig.
      bindE (Data (el_content dig)) (\<lambda>bs.
      Inr \<lparr>readable = True, field_algorithm = alg_oid, field_digest = bs, field_detail = []\<rparr>)))))))))))))))))))"

definition ReadAuthenticodeDigestField :: "ByteOrder \<Rightarrow> bytes \<Rightarrow> AuthenticodeDigestField res" where
  "ReadAuthenticodeDigestField host blob =
     (case WalkSignature host blob of
        Inl (runtime_error what) \<Rightarrow> Inr \<lparr>readable = False, field_algorithm = [], field_digest = [], field_detail = what\<rparr>
      | r \<Rightarrow> r)"

section \<open>Every blob gets an answer\<close>

lemma good_el_content:
  assumes "ReadElement host parent offset = Inr e" and "good fmt parent"
  shows "good fmt (el_content e)"
proof -
  from assms(1) obtain l h where "Sub parent (offset + h) l ''element'' = Inr (el_content e)"
    by (auto simp: ReadElement_def ThrowMalformed_def split: if_splits prod.splits)
  then show ?thesis using assms(2) by (rule good_Sub)
qed

lemma good_Child: "Child host e n tag what = Inr e' \<Longrightarrow> good fmt (el_content e) \<Longrightarrow> good fmt (el_content e')"
  by (auto simp: Child_def ThrowMalformed_def split: if_splits intro: good_el_content)

lemma rejects_ReadElement [rejects_intros]: "good der_format parent \<Longrightarrow> rejects der_format (ReadElement host parent offset)"
  unfolding ReadElement_def ReadLength_def LengthByte_def Let_def
  by (intro rejects_intros) (auto intro!: rejects_intros simp: int_type_def)

lemma rejects_Child [rejects_intros]: "good der_format (el_content e) \<Longrightarrow> rejects der_format (Child host e n tag what)"
  unfolding Child_def SkipElement_def by (intro rejects_intros)

lemma rejects_OidOf [rejects_intros]: "good der_format (el_content e) \<Longrightarrow> rejects der_format (OidOf host e)"
  unfolding OidOf_def DecodeOid_def OidByte_def Let_def
  by (intro rejects_intros) (auto intro!: rejects_intros simp: int_type_def)

lemma rejects_WalkSignature: "length blob < 2 ^ 64 \<Longrightarrow> rejects der_format (WalkSignature host blob)"
  unfolding WalkSignature_def Let_def
  by (intro rejects_bind rejects_if rejects_Throw rejects_ReadElement rejects_Child rejects_OidOf rejects_Data rejects_Inr)
    ((erule good_Child | erule good_el_content | rule good_bytes | assumption)+)

text \<open>
  C34: Whatever the bytes, reading the fingerprint of a signature returns an answer: no exception leaves it, and no
  access leaves the blob. An answer that is not readable holds no digest and says why.
\<close>

theorem digest_field_always_answers:
  assumes "length blob < 2 ^ 64"
  shows "\<exists>f. ReadAuthenticodeDigestField host blob = Inr f \<and>
    (readable f \<or> field_digest f = [] \<and> field_algorithm f = [] \<and> (\<exists>m. field_detail f = der_format @ '': '' @ m))"
proof (cases "WalkSignature host blob")
  case (Inl e)
  with rejects_WalkSignature [OF assms, of host] show ?thesis
    by (auto simp: rejects_def ReadAuthenticodeDigestField_def)
next
  case (Inr f)
  then have "readable f" by (auto simp: WalkSignature_def Let_def ThrowMalformed_def split: if_splits)
  with Inr show ?thesis by (simp add: ReadAuthenticodeDigestField_def)
qed

section \<open>What an encoder writes\<close>

text \<open>The encoding of an element with a short tag and fewer than \<open>2 ^ 32\<close> bytes.\<close>

definition der_length :: "nat \<Rightarrow> bytes" where
  "der_length n =
     (if n < 128 then [word_of_nat n]
      else if n < 2 ^ 8 then [0x81, word_of_nat n]
      else if n < 2 ^ 16 then [0x82, word_of_nat (n div 2 ^ 8), word_of_nat n]
      else if n < 2 ^ 24 then [0x83, word_of_nat (n div 2 ^ 16), word_of_nat (n div 2 ^ 8), word_of_nat n]
      else [0x84, word_of_nat (n div 2 ^ 24), word_of_nat (n div 2 ^ 16), word_of_nat (n div 2 ^ 8), word_of_nat n])"

definition der :: "u8 \<Rightarrow> bytes \<Rightarrow> bytes" where
  "der tag body = tag # der_length (length body) @ body"

text \<open>An element as the walk holds it: a view of the body.\<close>

definition holds :: "Element \<Rightarrow> u8 \<Rightarrow> bytes \<Rightarrow> bool" where
  "holds e tag body \<longleftrightarrow> el_tag e = tag \<and> span_ok (el_content e) body \<and> unat (el_total e) = length (der tag body)"

lemma Read_byte:
  assumes "span_ok sp c" and "unat offset < length c"
  shows "Read host sp offset order name = Inr (c ! unat offset :: u8)"
proof -
  have "segment (unat offset) 1 c = [c ! unat offset]"
    using assms(2) by (simp add: segment_def take_Suc_conv_app_nth hd_drop_conv_nth take_Suc Cons_nth_drop_Suc [symmetric])
  then show ?thesis
    using assms by (simp add: Read_eq int_type_def load_word_def)
qed

lemma unat_ucast_u8: "unat (ucast (w :: u8) :: u64) = unat w"
  using unat_u8_less [of w] by (simp add: unsigned_ucast_eq take_bit_nat_eq_self)

lemma byte_push: "unat acc < 2 ^ 56 \<Longrightarrow> unat (push_bit 8 acc OR ucast (b :: u8) :: u64) = unat acc * 256 + unat b"
proof -
  assume small: "unat acc < 2 ^ 56"
  have "push_bit 8 acc AND ucast b = 0"
    by (rule bit_word_eqI) (auto simp: bit_simps dest: bit_imp_le_length)
  then have "push_bit 8 acc OR ucast b = push_bit 8 acc + ucast b"
    by (simp add: disjunctive_add_eq_or)
  moreover have "unat (push_bit 8 acc) = unat acc * 256"
    using small by (simp add: push_bit_eq_mult unat_mult_nowrap)
  moreover have "unat (ucast b :: u64) = unat b"
    by (rule unat_ucast_u8)
  ultimately show ?thesis
    using small unat_u8_less [of b] by (simp add: unat_add_nowrap)
qed

lemma LengthByte_eq:
  assumes "span_ok parent c" and "unat offset + 2 + i < length c" and "unat acc < 2 ^ 56"
  shows "\<exists>v. LengthByte host parent offset acc i = Inr v \<and> unat v = unat acc * 256 + unat (c ! (unat offset + 2 + i))"
proof -
  have "length c < 2 ^ 64" using span_ok_less [OF assms(1)] by simp
  then have "unat (offset + 2 + word_of_nat i) = unat offset + 2 + i"
    using assms(2) by (simp add: unat_add_nowrap unat_of_nat_small)
  then show ?thesis
    using Read_byte [OF assms(1), of "offset + 2 + word_of_nat i"] assms(2) byte_push [OF assms(3)]
    by (simp add: LengthByte_def)
qed

definition be_nat :: "bytes \<Rightarrow> nat" where
  "be_nat bs = foldl (\<lambda>a b. a * 256 + unat b) 0 bs"

lemma foldE_upt_Suc: "foldE f st [0..<Suc n] = bindE (foldE f st [0..<n]) (\<lambda>st'. f st' n)"
  by (simp add: foldE_append) (simp add: bindE_def split: sum.splits)

lemma LengthBytes_eq:
  assumes "span_ok parent c"
  shows "unat offset + 2 + k \<le> length c \<Longrightarrow> k \<le> 4 \<Longrightarrow>
    \<exists>v. foldE (LengthByte host parent offset) 0 [0..<k] = Inr v \<and> unat v = be_nat (segment (unat offset + 2) k c) \<and>
      unat v < 256 ^ k"
proof (induction k)
  case 0
  then show ?case by (simp add: be_nat_def segment_def)
next
  case (Suc k)
  then obtain v where v: "foldE (LengthByte host parent offset) 0 [0..<k] = Inr v"
    "unat v = be_nat (segment (unat offset + 2) k c)" "unat v < 256 ^ k" by auto
  have "(256 :: nat) ^ k \<le> 256 ^ 4" using Suc.prems(2) by (intro power_increasing) auto
  with v(3) have "unat v < 2 ^ 56" by simp
  from LengthByte_eq [OF assms _ this, of offset k host] Suc.prems(1) obtain w
    where w: "LengthByte host parent offset v k = Inr w" "unat w = unat v * 256 + unat (c ! (unat offset + 2 + k))" by auto
  have "segment (unat offset + 2) (Suc k) c = segment (unat offset + 2) k c @ [c ! (unat offset + 2 + k)]"
    using Suc.prems(1) by (simp add: segment_def take_Suc_conv_app_nth)
  moreover have "unat w < 256 ^ Suc k"
  proof -
    have "unat (c ! (unat offset + 2 + k)) < 256" by (rule unat_u8_less)
    moreover have "unat v + 1 \<le> 256 ^ k" using v(3) by simp
    then have "(unat v + 1) * 256 \<le> 256 ^ k * 256" by (rule mult_le_mono1)
    ultimately show ?thesis using w(2) by simp
  qed
  ultimately show ?case using v w by (simp only: foldE_upt_Suc) (simp add: be_nat_def)
qed

lemma be_nat_der_length:
  assumes "128 \<le> n" and "n < 2 ^ 32"
  shows "\<exists>k ds. der_length n = (0x80 OR word_of_nat k) # ds \<and> length ds = k \<and> 1 \<le> k \<and> k \<le> 4 \<and> be_nat ds = n"
proof -
  have q: "n div 65536 = n div 256 div 256" "n div 16777216 = n div 65536 div 256"
    by (simp_all add: div_mult2_eq [symmetric])
  have e1: "n div 256 * 256 + n mod 256 = n" by simp
  have e2: "(n div 65536 * 256 + n div 256 mod 256) * 256 + n mod 256 = n"
    by (metis q(1) div_mult_mod_eq)
  have e3: "((n div 16777216 * 256 + n div 65536 mod 256) * 256 + n div 256 mod 256) * 256 + n mod 256 = n"
    by (metis e2 q(2) div_mult_mod_eq)
  consider "n < 2 ^ 8" | "\<not> n < 2 ^ 8" "n < 2 ^ 16" | "\<not> n < 2 ^ 16" "n < 2 ^ 24" | "\<not> n < 2 ^ 24" by linarith
  then show ?thesis
  proof cases
    case 1
    then show ?thesis using assms by (intro exI [of _ 1]) (simp add: der_length_def be_nat_def unat_of_nat)
  next
    case 2
    then have "n div 256 mod 256 = n div 256" by simp
    with 2 e1 assms show ?thesis by (intro exI [of _ 2]) (simp add: der_length_def be_nat_def unat_of_nat)
  next
    case 3
    then have "n div 65536 mod 256 = n div 65536" by simp
    with 3 e2 assms show ?thesis by (intro exI [of _ 3]) (simp add: der_length_def be_nat_def unat_of_nat)
  next
    case 4
    then have "n div 16777216 mod 256 = n div 16777216" using assms(2) by simp
    with 4 e3 assms show ?thesis by (intro exI [of _ 4]) (simp add: der_length_def be_nat_def unat_of_nat)
  qed
qed

lemma ReadLength_der:
  assumes ok: "span_ok parent c" and c: "c = pre @ der tag body @ post" and off: "unat offset = length pre"
    and small: "length body < 2 ^ 32"
  shows "\<exists>len hdr. ReadLength host parent offset = Inr (len, hdr) \<and> unat len = length body \<and>
    unat hdr = 1 + length (der_length (length body))"
proof -
  let ?n = "length body"
  have len: "length c < 2 ^ 64" by (rule span_ok_less [OF ok])
  have room: "length pre + 2 + length (tl (der_length ?n)) \<le> length c" "length pre + 2 \<le> length c"
    by (simp_all add: c der_def der_length_def)
  have off1: "unat (offset + 1) = length pre + 1"
    using room len off by (simp add: unat_add_nowrap)
  have first: "c ! (length pre + 1) = hd (der_length ?n)"
    by (auto simp: c der_def der_length_def nth_append)
  have rd: "Read host parent (offset + 1) Big ''length'' = Inr (hd (der_length ?n) :: u8)"
    using Read_byte [OF ok, of "offset + 1" host Big "''length''"] off1 room first by simp
  show ?thesis
  proof (cases "?n < 128")
    case True
    then have "der_length ?n = [word_of_nat ?n]" by (simp add: der_length_def)
    moreover have "unat (ucast (word_of_nat ?n :: u8) :: u64) = ?n"
      using True by (simp add: unat_ucast_u8 unat_of_nat)
    moreover from this have "\<not> 0x80 \<le> (ucast (word_of_nat ?n :: u8) :: u64)"
      using True by (simp add: word_le_nat_alt)
    ultimately show ?thesis using rd by (simp add: ReadLength_def Let_def)
  next
    case False
    then obtain k ds where d: "der_length ?n = (0x80 OR word_of_nat k) # ds" "length ds = k" "1 \<le> k" "k \<le> 4" "be_nat ds = ?n"
      using be_nat_der_length [of ?n] small by auto
    have k: "k = 1 \<or> k = 2 \<or> k = 3 \<or> k = 4" using d(3,4) by linarith
    have seg: "segment (unat offset + 2) k c = ds"
      using off by (simp add: c der_def d(1,2) segment_def)
    have "unat offset + 2 + k \<le> length c" using room(1) off d(1,2) by simp
    from LengthBytes_eq [OF ok this d(4), of host] seg d(5) obtain v
      where v: "foldE (LengthByte host parent offset) 0 [0..<k] = Inr v" "unat v = ?n" by auto
    let ?len = "ucast (0x80 OR word_of_nat k :: u8) :: u64"
    have "0x80 \<le> ?len" "?len AND 0x7F = word_of_nat k" "word_of_nat k \<noteq> (0 :: u64)" "\<not> word_of_nat k > kMaxLengthBytes"
      "unat (word_of_nat k :: u64) = k"
      using k by (auto simp: kMaxLengthBytes_def)
    moreover have "unat (2 + word_of_nat k :: u64) = 2 + k" using k by auto
    ultimately show ?thesis
      using rd v d(1,2) by (simp add: ReadLength_def Let_def)
  qed
qed

lemma ReadElement_der:
  assumes ok: "span_ok parent c" and c: "c = pre @ der tag body @ post" and off: "unat offset = length pre"
    and small: "length body < 2 ^ 32" and short: "tag AND 0x1F \<noteq> 0x1F"
  shows "\<exists>e. ReadElement host parent offset = Inr e \<and> holds e tag body"
proof -
  have len: "length c < 2 ^ 64" by (rule span_ok_less [OF ok])
  have "Read host parent offset Big ''tag'' = Inr (c ! length pre :: u8)"
    using Read_byte [OF ok, of offset host Big "''tag''"] off by (simp add: c der_def)
  then have rd: "Read host parent offset Big ''tag'' = Inr tag" by (simp add: c der_def)
  from ReadLength_der [OF ok c off small, of host] obtain l h where lh: "ReadLength host parent offset = Inr (l, h)"
    "unat l = length body" "unat h = 1 + length (der_length (length body))" by blast
  have total: "length (der tag body) = unat h + unat l" using lh by (simp add: der_def)
  then have room: "length pre + unat h + unat l \<le> length c" by (simp add: c)
  have oh: "unat (offset + h) = length pre + unat h" using room len off by (simp add: unat_add_nowrap)
  have sub: "Sub parent (offset + h) l ''element'' = Inr (sub_of parent (offset + h) l ''element'')"
    using Sub_eq [OF ok] oh room by simp
  have "segment (length pre + unat h) (unat l) c = body"
    using lh by (simp add: c der_def segment_def)
  with sub_of_ok [OF ok, of "offset + h" l] oh room have "span_ok (sub_of parent (offset + h) l ''element'') body" by simp
  moreover have "unat (h + l) = unat h + unat l" using room len by (simp add: unat_add_nowrap)
  ultimately show ?thesis
    using rd lh(1) short sub total by (simp add: ReadElement_def holds_def)
qed

text \<open>The children of an element, and what may follow them.\<close>

definition encoded :: "(u8 \<times> bytes) list \<Rightarrow> bytes" where
  "encoded cs = concat (map (\<lambda>(t, b). der t b) cs)"

definition plain_child :: "u8 \<times> bytes \<Rightarrow> bool" where
  "plain_child ch \<longleftrightarrow> length (snd ch) < 2 ^ 32 \<and> fst ch AND 0x1F \<noteq> 0x1F"

lemma encoded_simps [simp]: "encoded [] = []" "encoded ((t, b) # cs) = der t b @ encoded cs"
  "encoded (cs @ ds) = encoded cs @ encoded ds"
  by (simp_all add: encoded_def)

lemma SkipElements_eq:
  assumes ok: "span_ok content (encoded cs @ rest)" and plain: "list_all plain_child cs"
  shows "n \<le> length cs \<Longrightarrow> \<exists>offset. foldE (SkipElement host content) 0 [0..<n] = Inr offset \<and>
    unat offset = length (encoded (take n cs))"
proof (induction n)
  case (Suc n)
  then obtain offset where off: "foldE (SkipElement host content) 0 [0..<n] = Inr offset"
    "unat offset = length (encoded (take n cs))" by auto
  obtain t b where tb: "cs ! n = (t, b)" by (cases "cs ! n")
  have "plain_child (cs ! n)" using plain Suc.prems by (simp add: list_all_length)
  then have small: "length b < 2 ^ 32" "t AND 0x1F \<noteq> 0x1F" by (simp_all add: plain_child_def tb)
  have split: "cs = take n cs @ (t, b) # drop (Suc n) cs"
    using Suc.prems id_take_nth_drop [of n cs] tb by simp
  have c: "encoded cs @ rest = encoded (take n cs) @ der t b @ encoded (drop (Suc n) cs) @ rest"
    by (subst split) simp
  from ReadElement_der [OF ok c off(2) small] obtain e where e: "ReadElement host content offset = Inr e" "holds e t b" by blast
  have sum: "unat offset + unat (el_total e) \<le> length (encoded cs @ rest)"
    using e(2) off(2) unfolding c by (simp add: holds_def)
  then have "unat (offset + el_total e) = unat offset + unat (el_total e)"
    using span_ok_less [OF ok] by (intro unat_add_nowrap) simp
  moreover have "length (encoded (take (Suc n) cs)) = length (encoded (take n cs)) + length (der t b)"
    using Suc.prems tb by (simp add: take_Suc_conv_app_nth)
  ultimately show ?case
    using off e by (simp only: foldE_upt_Suc) (simp add: SkipElement_def holds_def)
qed simp

lemma Child_der:
  assumes e: "holds e t (encoded cs @ rest)" and plain: "list_all plain_child cs" and n: "n < length cs" "n \<le> 16"
    and child: "cs ! n = (tag, body)"
  shows "\<exists>e'. Child host e n tag what = Inr e' \<and> holds e' tag body"
proof -
  have ok: "span_ok (el_content e) (encoded cs @ rest)" using e by (simp add: holds_def)
  from SkipElements_eq [OF ok plain, of n host] n(1) obtain offset
    where off: "foldE (SkipElement host (el_content e)) 0 [0..<n] = Inr offset"
      "unat offset = length (encoded (take n cs))" by auto
  have "plain_child (cs ! n)" using plain n(1) by (simp add: list_all_length)
  then have small: "length body < 2 ^ 32" "tag AND 0x1F \<noteq> 0x1F" by (simp_all add: plain_child_def child)
  have split: "cs = take n cs @ (tag, body) # drop (Suc n) cs"
    using n(1) id_take_nth_drop [of n cs] child by simp
  have c: "encoded cs @ rest = encoded (take n cs) @ der tag body @ encoded (drop (Suc n) cs) @ rest"
    by (subst split) simp
  from ReadElement_der [OF ok c off(2) small] obtain e' where "ReadElement host (el_content e) offset = Inr e'" "holds e' tag body"
    by blast
  then show ?thesis using off(1) n(2) by (simp add: Child_def kMaxSkippedSiblings_def holds_def)
qed

section \<open>Object identifiers\<close>

text \<open>The numbers of an identifier in base 128; every byte of one but the last has its top bit set.\<close>

fun base128_high :: "nat \<Rightarrow> bytes" where
  "base128_high n = (if n = 0 then [] else base128_high (n div 128) @ [0x80 OR word_of_nat (n mod 128)])"

declare base128_high.simps [simp del]

definition base128 :: "nat \<Rightarrow> bytes" where
  "base128 n = base128_high (n div 128) @ [word_of_nat (n mod 128)]"

definition oid_bytes :: "nat list \<Rightarrow> bytes" where
  "oid_bytes vs = concat (map base128 vs)"

definition dotted_rest :: "nat list \<Rightarrow> string" where
  "dotted_rest vs = concat (map (\<lambda>v. ''.'' @ dec v) vs)"

fun dotted :: "nat list \<Rightarrow> string" where
  "dotted [] = []"
| "dotted (v # vs) = (let h = (if v < 80 then v div 40 else 2) in dec h @ ''.'' @ dec (v - h * 40) @ dotted_rest vs)"

lemma septet_push:
  assumes "n < 2 ^ 56"
  shows "push_bit 7 (word_of_nat (n div 128)) OR ucast (word_of_nat (n mod 128) :: u8) = (word_of_nat n :: u64)"
proof -
  have small: "unat (word_of_nat (n div 128) :: u64) = n div 128" "unat (ucast (word_of_nat (n mod 128) :: u8) :: u64) = n mod 128"
    using assms by (simp_all add: unat_of_nat_small unat_ucast_u8 unat_of_nat)
  have u: "ucast (word_of_nat (n mod 128) :: u8) = (word_of_nat (n mod 128) :: u64)"
    using small(2) by (simp add: word_unat_eq_iff unat_of_nat)
  have "take_bit 7 n = n mod 128" by (simp add: take_bit_eq_mod)
  with take_bit_of_nat [of 7 n] have "(word_of_nat (n mod 128) :: u64) = take_bit 7 (word_of_nat n)" by metis
  then have "push_bit 7 (word_of_nat (n div 128)) AND (word_of_nat (n mod 128) :: u64) = 0"
    by simp (rule bit_word_eqI, auto simp: bit_simps)
  then have "push_bit 7 (word_of_nat (n div 128)) OR (word_of_nat (n mod 128) :: u64) =
      push_bit 7 (word_of_nat (n div 128)) + word_of_nat (n mod 128)"
    by (rule disjunctive_add_eq_or [symmetric])
  also have "\<dots> = word_of_nat (n div 128) * 128 + word_of_nat (n mod 128)"
    by (simp add: push_bit_eq_mult)
  also have "\<dots> = word_of_nat (n div 128 * 128 + n mod 128)"
    by (simp only: of_nat_add of_nat_mult of_nat_numeral)
  also have "n div 128 * 128 + n mod 128 = n" by simp
  finally show ?thesis by (simp add: u)
qed

lemma septet_bits:
  assumes "m < 128"
  shows "(0x80 OR word_of_nat m) AND 0x7F = (word_of_nat m :: u8)" and "(0x80 OR word_of_nat m :: u8) AND 0x80 \<noteq> 0"
    and "word_of_nat m AND 0x80 = (0 :: u8)" and "word_of_nat m AND 0x7F = (word_of_nat m :: u8)"
proof -
  have "list_all (\<lambda>m. (0x80 OR word_of_nat m) AND 0x7F = (word_of_nat m :: u8) \<and> (0x80 OR word_of_nat m :: u8) AND 0x80 \<noteq> 0 \<and>
      word_of_nat m AND 0x80 = (0 :: u8) \<and> word_of_nat m AND 0x7F = (word_of_nat m :: u8)) [0..<128]"
    by code_simp
  with assms show "(0x80 OR word_of_nat m) AND 0x7F = (word_of_nat m :: u8)" and "(0x80 OR word_of_nat m :: u8) AND 0x80 \<noteq> 0"
    and "word_of_nat m AND 0x80 = (0 :: u8)" and "word_of_nat m AND 0x7F = (word_of_nat m :: u8)"
    by (auto simp: list_all_iff)
qed

lemma OidHigh_eq:
  "span_ok content c \<Longrightarrow> c = pre @ base128_high n @ post \<Longrightarrow> post \<noteq> [] \<Longrightarrow> n < 2 ^ 56 \<Longrightarrow>
    foldE (OidByte host content) (txt, 0, first) [length pre..<length pre + length (base128_high n)] =
      Inr (txt, word_of_nat n, first)"
proof (induction n arbitrary: post rule: base128_high.induct)
  case (1 n)
  show ?case
  proof (cases "n = 0")
    case True
    then show ?thesis by (simp add: base128_high.simps)
  next
    case False
    let ?high = "base128_high (n div 128)" and ?b = "0x80 OR word_of_nat (n mod 128) :: u8"
    have bytes: "base128_high n = ?high @ [?b]" using False by (subst base128_high.simps) simp
    let ?i = "length pre + length ?high"
    have IH: "foldE (OidByte host content) (txt, 0, first) [length pre..<?i] = Inr (txt, word_of_nat (n div 128), first)"
      using "1.IH" [OF False "1.prems"(1), of "?b # post"] "1.prems"(2,4) bytes by simp
    have len: "length c < 2 ^ 64" by (rule span_ok_less [OF "1.prems"(1)])
    have i: "?i + 1 < length c" "c ! ?i = ?b"
      using "1.prems"(2,3) by (simp_all add: bytes nth_append)
    then have ui: "unat (word_of_nat ?i :: u64) = ?i" using len by (simp add: unat_of_nat_small del: of_nat_add)
    have rd: "Read host content (word_of_nat ?i) Big ''object identifier'' = Inr ?b"
      using Read_byte [OF "1.prems"(1), of "word_of_nat ?i" host Big] ui i by simp
    have "unat (word_of_nat ?i + 1 :: u64) = ?i + 1" using ui i(1) len by (simp add: unat_add_nowrap)
    then have "word_of_nat ?i + 1 \<noteq> span_size content"
      using i(1) span_ok_length [OF "1.prems"(1)] by (metis less_irrefl)
    moreover have "\<not> (word_of_nat n :: u64) > drop_bit 8 (- 1)"
      using "1.prems"(4) by (simp add: not_less word_le_nat_alt unat_of_nat_small drop_bit_eq_div unat_div)
    ultimately have "OidByte host content (txt, word_of_nat (n div 128), first) ?i = Inr (txt, word_of_nat n, first)"
      using rd septet_bits [of "n mod 128"] septet_push [OF "1.prems"(4)] by (simp add: OidByte_def Let_def)
    then show ?thesis
      using IH by (simp add: bytes foldE_append)
  qed
qed

lemma OidNumber_eq:
  assumes ok: "span_ok content c" and c: "c = pre @ base128 n @ post" and n: "n < 2 ^ 56"
  shows "foldE (OidByte host content) (txt, 0, first) [length pre..<length pre + length (base128 n)] =
    Inr (if first then (let h = (if n < 80 then n div 40 else 2) in dec h @ ''.'' @ dec (n - h * 40)) else txt @ ''.'' @ dec n, 0, False)"
proof -
  let ?high = "base128_high (n div 128)" and ?b = "word_of_nat (n mod 128) :: u8"
  let ?i = "length pre + length ?high"
  have c': "c = pre @ ?high @ ?b # post" using c by (simp add: base128_def)
  have high: "foldE (OidByte host content) (txt, 0, first) [length pre..<?i] = Inr (txt, word_of_nat (n div 128), first)"
    using OidHigh_eq [OF ok c'] n by simp
  have len: "length c < 2 ^ 64" by (rule span_ok_less [OF ok])
  have i: "?i < length c" "c ! ?i = ?b" by (simp_all add: c' nth_append)
  then have ui: "unat (word_of_nat ?i :: u64) = ?i" using len by (simp add: unat_of_nat_small del: of_nat_add)
  have rd: "Read host content (word_of_nat ?i) Big ''object identifier'' = Inr ?b"
    using Read_byte [OF ok, of "word_of_nat ?i" host Big] ui i by simp
  have val: "push_bit 7 (word_of_nat (n div 128)) OR ucast (?b AND 0x7F) = (word_of_nat n :: u64)"
    using septet_bits(4) [of "n mod 128"] septet_push [OF n] by simp
  define w where "w = (word_of_nat n :: u64)"
  have un: "unat w = n" using n by (simp add: w_def unat_of_nat_small)
  have d40: "unat (w div 40) = n div 40" by (simp add: unat_div un)
  have "n div 40 * 40 \<le> n" by simp
  then have m40: "unat (w div 40 * 40) = n div 40 * 40"
    using n d40 by (subst unat_mult_nowrap) auto
  have "unat (w - w div 40 * 40) = n - n div 40 * 40"
    using m40 un by (subst unat_diff_nowrap) (simp_all add: word_le_nat_alt)
  moreover have "unat (w - 80) = n - 80" if "\<not> n < 80"
    using that un by (subst unat_diff_nowrap) (simp_all add: word_le_nat_alt)
  moreover have "w < 80 \<longleftrightarrow> n < 80" by (simp add: word_less_nat_alt un)
  ultimately have "OidByte host content (txt, word_of_nat (n div 128), first) ?i =
      Inr (if first then (let h = (if n < 80 then n div 40 else 2) in dec h @ ''.'' @ dec (n - h * 40)) else txt @ ''.'' @ dec n, 0, False)"
    using rd septet_bits(3) [of "n mod 128"] un d40
    by (simp only: OidByte_def Let_def prod.case bindE_simps val [folded w_def]) (simp add: to_string_def)
  then show ?thesis
    using high by (simp add: base128_def foldE_append)
qed

lemma OidNumbers_eq:
  assumes ok: "span_ok content c"
  shows "c = pre @ oid_bytes vs @ post \<Longrightarrow> \<forall>v \<in> set vs. v < 2 ^ 56 \<Longrightarrow>
    foldE (OidByte host content) (acc, 0, False) [length pre..<length pre + length (oid_bytes vs)] = Inr (acc @ dotted_rest vs, 0, False)"
proof (induction vs arbitrary: pre acc)
  case (Cons v vs pre acc)
  let ?mid = "length pre + length (base128 v)" and ?stop = "length pre + length (base128 v) + length (oid_bytes vs)"
  have c: "c = pre @ base128 v @ (oid_bytes vs @ post)" "c = (pre @ base128 v) @ oid_bytes vs @ post"
    using Cons.prems(1) by (simp_all add: oid_bytes_def)
  have "[length pre..<?stop] = [length pre..<?mid] @ [?mid..<?stop]"
    using upt_add_eq_append [of "length pre" "?mid" "length (oid_bytes vs)"] by simp
  moreover have "length (oid_bytes (v # vs)) = length (base128 v) + length (oid_bytes vs)" by (simp add: oid_bytes_def)
  ultimately show ?case
    using OidNumber_eq [OF ok c(1), of host acc False] Cons.IH [OF c(2), of "acc @ ''.'' @ dec v"] Cons.prems(2)
    by (simp add: foldE_append add.assoc dotted_rest_def)
qed (simp add: oid_bytes_def dotted_rest_def)

lemma DecodeOid_eq:
  assumes ok: "span_ok content (oid_bytes vs)" and vs: "vs \<noteq> []" "\<forall>v \<in> set vs. v < 2 ^ 56" "length (oid_bytes vs) \<le> 32"
  shows "DecodeOid host content = Inr (dotted vs)"
proof -
  obtain v ws where v: "vs = v # ws" using vs(1) by (cases vs) auto
  let ?c = "oid_bytes vs" and ?k = "length (base128 v)"
  have size: "unat (span_size content) = length ?c" by (rule span_ok_length [OF ok])
  have "length ?c > 0" by (simp add: v oid_bytes_def base128_def)
  then have not_empty: "\<not> (span_size content = 0 \<or> span_size content > kMaxOidBytes)"
    using size vs(3) by (auto simp: kMaxOidBytes_def word_less_nat_alt)
  have c: "?c = [] @ base128 v @ oid_bytes ws" "?c = base128 v @ oid_bytes ws @ []" by (simp_all add: v oid_bytes_def)
  have "[0..<length ?c] = [0..<?k] @ [?k..<?k + length (oid_bytes ws)]"
    using upt_add_eq_append [of 0 "?k" "length (oid_bytes ws)"] by (simp add: v oid_bytes_def)
  then have "foldE (OidByte host content) ([], 0, True) [0..<length ?c] = Inr (dotted vs, 0, False)"
    using OidNumber_eq [OF ok c(1), of host "[]" True] vs(2)
      OidNumbers_eq [OF ok c(2), of host "let h = (if v < 80 then v div 40 else 2) in dec h @ ''.'' @ dec (v - h * 40)"]
    by (simp add: foldE_append v Let_def)
  then show ?thesis using not_empty size by (simp add: DecodeOid_def)
qed

section \<open>Signed indirect data\<close>

text \<open>
  The parts of a signature that the walk passes. After the parts it needs, every structure may hold more:
  \<open>sp_more i\<close> is what follows in the \<open>i\<close>-th of them.
\<close>

record signature_parts =
  sp_version :: bytes
  sp_algorithms :: bytes
  sp_attribute :: "u8 \<times> bytes"
  sp_digest_algorithm :: "nat list"
  sp_digest :: bytes
  sp_more :: "nat \<Rightarrow> bytes"

definition digest_info :: "signature_parts \<Rightarrow> bytes" where
  "digest_info p =
     encoded [(kTagSequence, encoded [(kTagOid, oid_bytes (sp_digest_algorithm p))] @ sp_more p 0),
       (kTagOctetString, sp_digest p)] @ sp_more p 1"

definition indirect_data :: "signature_parts \<Rightarrow> bytes" where
  "indirect_data p = encoded [sp_attribute p, (kTagSequence, digest_info p)] @ sp_more p 2"

definition signed_content :: "signature_parts \<Rightarrow> bytes" where
  "signed_content p =
     encoded [(kTagOid, oid_bytes [43, 6, 1, 4, 1, 311, 2, 1, 4]),
       (kTagContext0, encoded [(kTagSequence, indirect_data p)] @ sp_more p 3)] @ sp_more p 4"

definition signed_data_body :: "signature_parts \<Rightarrow> bytes" where
  "signed_data_body p =
     encoded [(kTagInteger, sp_version p), (kTagSet, sp_algorithms p), (kTagSequence, signed_content p)] @ sp_more p 5"

definition content_info_body :: "signature_parts \<Rightarrow> bytes" where
  "content_info_body p =
     encoded [(kTagOid, oid_bytes [42, 840, 113549, 1, 7, 2]),
       (kTagContext0, encoded [(kTagSequence, signed_data_body p)] @ sp_more p 6)] @ sp_more p 7"

definition signature_blob :: "signature_parts \<Rightarrow> bytes" where
  "signature_blob p = der kTagSequence (content_info_body p) @ sp_more p 8"

definition parts_ok :: "signature_parts \<Rightarrow> bool" where
  "parts_ok p \<longleftrightarrow>
     length (signature_blob p) < 2 ^ 32 \<and> fst (sp_attribute p) AND 0x1F \<noteq> 0x1F \<and>
     sp_digest_algorithm p \<noteq> [] \<and> list_all (\<lambda>v. v < 2 ^ 56) (sp_digest_algorithm p) \<and>
     length (oid_bytes (sp_digest_algorithm p)) \<le> 32"

lemma length_der: "length body < length (der tag body)"
  by (simp add: der_def)

lemma length_parts:
  "length (sp_digest p) < length (digest_info p)"
  "length (encoded [(kTagOid, oid_bytes (sp_digest_algorithm p))] @ sp_more p 0) < length (digest_info p)"
  "length (snd (sp_attribute p)) < length (indirect_data p)" "length (digest_info p) < length (indirect_data p)"
  "length (encoded [(kTagSequence, indirect_data p)] @ sp_more p 3) < length (signed_content p)"
  "length (indirect_data p) < length (signed_content p)"
  "length (sp_version p) < length (signed_data_body p)" "length (sp_algorithms p) < length (signed_data_body p)"
  "length (signed_content p) < length (signed_data_body p)" "length (signed_data_body p) < length (content_info_body p)"
  "length (encoded [(kTagSequence, signed_data_body p)] @ sp_more p 6) < length (content_info_body p)"
  "length (content_info_body p) < length (signature_blob p)"
  by (simp add: digest_info_def der_def, simp add: digest_info_def der_def,
      cases "sp_attribute p", simp add: indirect_data_def der_def,
      cases "sp_attribute p", simp add: indirect_data_def der_def,
      simp add: signed_content_def der_def, simp add: signed_content_def der_def,
      simp add: signed_data_body_def der_def, simp add: signed_data_body_def der_def, simp add: signed_data_body_def der_def,
      simp add: content_info_body_def der_def, simp add: content_info_body_def der_def, simp add: signature_blob_def der_def)

lemma tags_short:
  "kTagInteger AND 0x1F \<noteq> 0x1F" "kTagOctetString AND 0x1F \<noteq> 0x1F" "kTagOid AND 0x1F \<noteq> 0x1F" "kTagSequence AND 0x1F \<noteq> 0x1F"
  "kTagSet AND 0x1F \<noteq> 0x1F" "kTagContext0 AND 0x1F \<noteq> 0x1F"
  by (simp_all add: kTagInteger_def kTagOctetString_def kTagOid_def kTagSequence_def kTagSet_def kTagContext0_def)

lemma OidOf_eq:
  assumes "holds e t (oid_bytes vs)" and "vs \<noteq> []" and "list_all (\<lambda>v. v < 2 ^ 56) vs" and "length (oid_bytes vs) \<le> 32"
  shows "OidOf host e = Inr (dotted vs)"
  using DecodeOid_eq [of "el_content e" vs host] assms by (simp add: holds_def OidOf_def list_all_iff)

lemma known_identifiers:
  "dotted [42, 840, 113549, 1, 7, 2] = ''1.2.840.113549.1.7.2''" "dotted [43, 6, 1, 4, 1, 311, 2, 1, 4] = ''1.3.6.1.4.1.311.2.1.4''"
  "length (oid_bytes [42, 840, 113549, 1, 7, 2]) \<le> 32" "length (oid_bytes [43, 6, 1, 4, 1, 311, 2, 1, 4]) \<le> 32"
  by code_simp+

text \<open>
  C35: From the encoding of signed indirect data, whatever its attribute, its parameters and what follows the parts the walk
  needs, reading the fingerprint gives the digest byte for byte and the dotted name of its algorithm.
\<close>

theorem digest_field_reads_encoding:
  assumes "parts_ok p"
  shows "ReadAuthenticodeDigestField host (signature_blob p) =
    Inr \<lparr>readable = True, field_algorithm = dotted (sp_digest_algorithm p), field_digest = sp_digest p, field_detail = []\<rparr>"
proof -
  have blob: "length (signature_blob p) < 2 ^ 32" and att: "fst (sp_attribute p) AND 0x1F \<noteq> 0x1F"
    and alg: "sp_digest_algorithm p \<noteq> []" "list_all (\<lambda>v. v < 2 ^ 56) (sp_digest_algorithm p)" "length (oid_bytes (sp_digest_algorithm p)) \<le> 32"
    using assms by (simp_all add: parts_ok_def)
  note len = length_parts [of p] blob
  let ?whole = "ByteSpan_of_bytes (signature_blob p) der_format ''the signature''"
  have ok: "span_ok ?whole ([] @ der kTagSequence (content_info_body p) @ sp_more p 8)"
    using span_ok_bytes [of "signature_blob p"] blob by (simp add: signature_blob_def)
  obtain ci where ci: "ReadElement host ?whole 0 = Inr ci" "holds ci kTagSequence (content_info_body p)"
    using ReadElement_der [OF ok refl, of 0 host] len tags_short by auto
  have plain1: "list_all plain_child [(kTagOid, oid_bytes [42, 840, 113549, 1, 7, 2]), (kTagContext0, encoded [(kTagSequence, signed_data_body p)] @ sp_more p 6)]"
    using len tags_short known_identifiers by (simp add: plain_child_def)
  note child1 = Child_der [OF ci(2) [unfolded content_info_body_def] plain1, where host = host]
  obtain ct where ct: "Child host ci 0 kTagOid ''content type'' = Inr ct" "holds ct kTagOid (oid_bytes [42, 840, 113549, 1, 7, 2])"
    using child1 [of 0] by fastforce
  have ct_oid: "OidOf host ct = Inr ''1.2.840.113549.1.7.2''"
    using OidOf_eq [OF ct(2), of host] known_identifiers by simp
  obtain st where st: "Child host ci 1 kTagContext0 ''signed data'' = Inr st" "holds st kTagContext0 (encoded [(kTagSequence, signed_data_body p)] @ sp_more p 6)"
    using child1 [of 1] by fastforce
  have plain2: "list_all plain_child [(kTagSequence, signed_data_body p)]"
    using len tags_short by (simp add: plain_child_def)
  obtain sd where sd: "Child host st 0 kTagSequence ''signed data body'' = Inr sd" "holds sd kTagSequence (signed_data_body p)"
    using Child_der [OF st(2) plain2, of 0 _ _ host] by fastforce
  have plain3: "list_all plain_child [(kTagInteger, sp_version p), (kTagSet, sp_algorithms p), (kTagSequence, signed_content p)]"
    using len tags_short by (simp add: plain_child_def)
  note child3 = Child_der [OF sd(2) [unfolded signed_data_body_def] plain3, where host = host]
  obtain ve where ve: "Child host sd 0 kTagInteger ''signed data version'' = Inr ve" using child3 [of 0] by fastforce
  obtain al where al: "Child host sd 1 kTagSet ''digest algorithms'' = Inr al" using child3 [of 1] by fastforce
  obtain inn where inn: "Child host sd 2 kTagSequence ''signed content'' = Inr inn" "holds inn kTagSequence (signed_content p)"
    using child3 [of 2] by fastforce
  have plain4: "list_all plain_child [(kTagOid, oid_bytes [43, 6, 1, 4, 1, 311, 2, 1, 4]), (kTagContext0, encoded [(kTagSequence, indirect_data p)] @ sp_more p 3)]"
    using len tags_short known_identifiers by (simp add: plain_child_def)
  note child4 = Child_der [OF inn(2) [unfolded signed_content_def] plain4, where host = host]
  obtain it where it: "Child host inn 0 kTagOid ''signed content type'' = Inr it" "holds it kTagOid (oid_bytes [43, 6, 1, 4, 1, 311, 2, 1, 4])"
    using child4 [of 0] by fastforce
  have it_oid: "OidOf host it = Inr ''1.3.6.1.4.1.311.2.1.4''"
    using OidOf_eq [OF it(2), of host] known_identifiers by simp
  obtain dt where dt: "Child host inn 1 kTagContext0 ''indirect data'' = Inr dt" "holds dt kTagContext0 (encoded [(kTagSequence, indirect_data p)] @ sp_more p 3)"
    using child4 [of 1] by fastforce
  have plain5: "list_all plain_child [(kTagSequence, indirect_data p)]"
    using len tags_short by (simp add: plain_child_def)
  obtain da where da: "Child host dt 0 kTagSequence ''indirect data body'' = Inr da" "holds da kTagSequence (indirect_data p)"
    using Child_der [OF dt(2) plain5, of 0 _ _ host] by fastforce
  have plain6: "list_all plain_child [sp_attribute p, (kTagSequence, digest_info p)]"
    using len tags_short att by (simp add: plain_child_def)
  obtain di where di: "Child host da 1 kTagSequence ''digest information'' = Inr di" "holds di kTagSequence (digest_info p)"
    using Child_der [OF da(2) [unfolded indirect_data_def] plain6, of 1 _ _ host] by fastforce
  have plain7: "list_all plain_child [(kTagSequence, encoded [(kTagOid, oid_bytes (sp_digest_algorithm p))] @ sp_more p 0), (kTagOctetString, sp_digest p)]"
    using len tags_short by (simp add: plain_child_def)
  note child7 = Child_der [OF di(2) [unfolded digest_info_def] plain7, where host = host]
  obtain ag where ag: "Child host di 0 kTagSequence ''digest algorithm'' = Inr ag"
    "holds ag kTagSequence (encoded [(kTagOid, oid_bytes (sp_digest_algorithm p))] @ sp_more p 0)"
    using child7 [of 0] by fastforce
  have plain8: "list_all plain_child [(kTagOid, oid_bytes (sp_digest_algorithm p))]"
    using alg(3) tags_short by (simp add: plain_child_def)
  obtain ai where ai: "Child host ag 0 kTagOid ''digest algorithm identifier'' = Inr ai" "holds ai kTagOid (oid_bytes (sp_digest_algorithm p))"
    using Child_der [OF ag(2) plain8, of 0 _ _ host] by fastforce
  obtain dg where dg: "Child host di 1 kTagOctetString ''digest'' = Inr dg" "holds dg kTagOctetString (sp_digest p)"
    using child7 [of 1] by fastforce
  have "Data (el_content dg) = Inr (sp_digest p)" using dg(2) by (simp add: holds_def Data_eq)
  then show ?thesis
    using ci ct ct_oid st sd ve al inn it it_oid dt da di ag ai OidOf_eq [OF ai(2) alg, of host] dg(1)
    by (simp add: ReadAuthenticodeDigestField_def WalkSignature_def Let_def holds_def)
qed

definition example_parts :: signature_parts where
  "example_parts = \<lparr>sp_version = [1], sp_algorithms = [0x30, 0], sp_attribute = (0x30, [5, 0]),
     sp_digest_algorithm = [96, 840, 1, 101, 3, 4, 2, 1], sp_digest = [0xDE, 0xAD], sp_more = (\<lambda>_. [])\<rparr>"

theorem digest_field_reads_encoding_witness:
  "ReadAuthenticodeDigestField Little (signature_blob example_parts) =
     Inr \<lparr>readable = True, field_algorithm = ''2.16.840.1.101.3.4.2.1'', field_digest = [0xDE, 0xAD], field_detail = []\<rparr>"
proof -
  have ok: "parts_ok example_parts" by code_simp
  have "dotted [96, 840, 1, 101, 3, 4, 2, 1] = ''2.16.840.1.101.3.4.2.1''" by code_simp
  then show ?thesis using digest_field_reads_encoding [OF ok, of Little] by (simp add: example_parts_def)
qed

theorem digest_field_always_answers_witness:
  "\<exists>f. ReadAuthenticodeDigestField Little [0x30, 0x80] = Inr f \<and> (readable f \<or> field_digest f = [])"
  using digest_field_always_answers [of "[0x30, 0x80]" Little] by auto

end
