(* ===== verification/Msi_Signer.thy ===== *)
theory Msi_Signer
  imports Cfb_Writer Digest_Field
begin

text \<open>
  \<open>src/MsiSigner.cpp\<close> and \<open>internal/MsiSignatureSize.hpp\<close>: the operations on the signature of an
  installer package.

  What reading the file gives is an argument; an operation that replaces the file gets the world and the call
  that writes, so that a call which is refused is seen to leave the world alone. SHA-256 is \<open>sha\<close>, the largest
  \<open>std::size_t\<close> is \<open>size_max\<close>, and \<open>k\<close> is the counter of mini stream walks, which nothing here reads.
\<close>

section \<open>The code\<close>

definition CFBF_MAGIC :: bytes where "CFBF_MAGIC = [0xD0, 0xCF, 0x11, 0xE0, 0xA1, 0xB1, 0x1A, 0xE1]"

definition CheckMsiSignatureSize :: "u64 \<Rightarrow> u16 \<Rightarrow> unit res" where
  "CheckMsiSignatureSize sz major =
     (if major < 4 \<and> sz > 0xFFFFFFFF then
        ThrowMalformed ''MSI'' (''signature size '' @ to_string sz @ '' does not fit the 32-bit stream size of a version '' @
          to_string major @ '' file'')
      else Inr ())"

definition Refusal :: "string \<Rightarrow> string \<Rightarrow> string" where
  "Refusal file_path reason = cfb_format @ '': '' @ file_path @ '': '' @ reason"

text \<open>\<open>std::string::find\<close> finds the text.\<close>

definition contains :: "string \<Rightarrow> string \<Rightarrow> bool" where
  "contains s sub \<longleftrightarrow> list_ex (\<lambda>i. take (length sub) (drop i s) = sub) [0..<Suc (length s)]"

fun name_file :: "string \<Rightarrow> 'a res \<Rightarrow> 'a res" where
  "name_file file_path (Inl (runtime_error message)) =
     (let prefix = cfb_format @ '': '' in
      if take (length prefix) message \<noteq> prefix \<or> contains message file_path then Inl (runtime_error message)
      else Inl (runtime_error (Refusal file_path (drop (length prefix) message))))"
| "name_file file_path r = r"

definition Guarded :: "string \<Rightarrow> 'a res \<Rightarrow> 'a res" where
  "Guarded file_path operation = GuardEntryPoint cfb_format (name_file file_path operation)"

definition hex_lower :: "nat \<Rightarrow> char" where
  "hex_lower d = (if d < 10 then char_of (48 + d) else char_of (87 + d))"

definition Prefix :: "bytes \<Rightarrow> string" where
  "Prefix dig = concat (map (\<lambda>b. [hex_lower (unat b div 16), hex_lower (unat b mod 16)]) (take 4 dig))"

definition MismatchText :: "bytes \<Rightarrow> bytes \<Rightarrow> string" where
  "MismatchText stored computed =
     ''signature does not match the package contents (stored '' @ Prefix stored @ ''..., computed '' @ Prefix computed @ ''...)''"

definition FindSignatureEntry :: "PackageModel \<Rightarrow> CfbNode option" where
  "FindSignatureEntry m = FindByEnumeration (root m) MsiSignatureName"

text \<open>The file as \<open>std::ifstream\<close> gives it, if it opens.\<close>

definition IsMsi :: "bytes option \<Rightarrow> bool" where
  "IsMsi contents =
     (case contents of
        None \<Rightarrow> False
      | Some bs \<Rightarrow> \<not> length (take 8 bs) < 8 \<and> take 8 bs = CFBF_MAGIC)"

definition MsiDigest :: "(bytes \<Rightarrow> bytes) \<Rightarrow> ByteOrder \<Rightarrow> u64 \<Rightarrow> bytes \<Rightarrow> bytes res" where
  "MsiDigest sha host k bs =
     bindE (CfbReader_ParseBytes host bs) (\<lambda>m.
     bindE (ComputeMsiFingerprint sha host m k) (\<lambda>(dig, _). Inr dig))"

definition ComputeAuthenticodeDigest :: "(bytes \<Rightarrow> bytes) \<Rightarrow> ByteOrder \<Rightarrow> u64 \<Rightarrow> string \<Rightarrow> bytes res \<Rightarrow> bytes res" where
  "ComputeAuthenticodeDigest sha host k file_path contents =
     Guarded file_path (bindE contents (MsiDigest sha host k))"

definition CheckFingerprintField :: "ByteOrder \<Rightarrow> string \<Rightarrow> bytes \<Rightarrow> bytes res" where
  "CheckFingerprintField host file_path pkcs7_der =
     bindE (ReadAuthenticodeDigestField host pkcs7_der) (\<lambda>f.
     if \<not> readable f \<or> \<not> IsSha256 f then
       Inl (runtime_error (Refusal file_path (''the signature holds no SHA-256 package fingerprint ('' @
         (if readable f then ''digest algorithm '' @ field_algorithm f else field_detail f) @ '')'')))
     else Inr (field_digest f))"

text \<open>The package with the signature, from the bytes of the old file.\<close>

definition MsiRebuilt ::
  "(bytes \<Rightarrow> bytes) \<Rightarrow> u64 \<Rightarrow> ByteOrder \<Rightarrow> u64 \<Rightarrow> string \<Rightarrow> bytes \<Rightarrow> bool \<Rightarrow> bytes \<Rightarrow> bytes res" where
  "MsiRebuilt sha size_max host k file_path pkcs7_der require_matching_digest bs =
     bindE (CfbReader_ParseBytes host bs) (\<lambda>m.
     bindE (CheckMsiSignatureSize (word_of_nat (length pkcs7_der)) (major_version (header m))) (\<lambda>_.
     bindE (if require_matching_digest then CheckFingerprintField host file_path pkcs7_der else Inr []) (\<lambda>stored.
     bindE (WriteCfb size_max host m (Some pkcs7_der) k) (\<lambda>(rebuilt, _, k').
     if require_matching_digest then
       bindE (MsiDigest sha host k' rebuilt) (\<lambda>computed.
       if computed \<noteq> stored then Inl (runtime_error (Refusal file_path (MismatchText stored computed)))
       else Inr rebuilt)
     else Inr rebuilt))))"

definition EmbedSignature ::
  "(bytes \<Rightarrow> bytes) \<Rightarrow> u64 \<Rightarrow> ByteOrder \<Rightarrow> u64 \<Rightarrow> (string \<Rightarrow> 'w \<Rightarrow> bytes res) \<Rightarrow> (string \<Rightarrow> bytes \<Rightarrow> 'w \<Rightarrow> unit res \<times> 'w) \<Rightarrow>
   string \<Rightarrow> bytes \<Rightarrow> bool \<Rightarrow> 'w \<Rightarrow> unit res \<times> 'w" where
  "EmbedSignature sha size_max host k read_file write_file file_path pkcs7_der require_matching_digest w =
     (let rebuilt =
        (if pkcs7_der = [] then Inl (runtime_error (Refusal file_path ''the signature is empty''))
         else bindE (read_file file_path w) (MsiRebuilt sha size_max host k file_path pkcs7_der require_matching_digest)) in
      case rebuilt of
        Inl e \<Rightarrow> (Guarded file_path (Inl e), w)
      | Inr bs \<Rightarrow> (case write_file file_path bs w of (r, w') \<Rightarrow> (Guarded file_path r, w')))"

definition MsiExtract :: "ByteOrder \<Rightarrow> u64 \<Rightarrow> bytes \<Rightarrow> bytes option res" where
  "MsiExtract host k bs =
     bindE (CfbReader_ParseBytes host bs) (\<lambda>m.
     case FindSignatureEntry m of
       None \<Rightarrow> Inr None
     | Some entry \<Rightarrow>
         if node_size entry = 0 then Inr None
         else bindE (fst (ReadStream host m entry k)) (\<lambda>data. Inr (Some data)))"

definition ExtractSignature :: "ByteOrder \<Rightarrow> u64 \<Rightarrow> string \<Rightarrow> bytes res \<Rightarrow> bytes option res" where
  "ExtractSignature host k file_path contents = Guarded file_path (bindE contents (MsiExtract host k))"

definition MsiHasSignature :: "ByteOrder \<Rightarrow> u64 \<Rightarrow> ByteSpan \<Rightarrow> bool res" where
  "MsiHasSignature host k src =
     bindE (CfbReader_Parse host src) (\<lambda>m.
     case FindSignatureEntry m of
       None \<Rightarrow> Inr False
     | Some entry \<Rightarrow>
         if node_size entry = 0 then Inr False
         else bindE (fst (Resolve host m entry k)) (\<lambda>_. Inr True))"

definition HasEmbeddedSignature :: "ByteOrder \<Rightarrow> u64 \<Rightarrow> string \<Rightarrow> PagedFile res \<Rightarrow> bool res" where
  "HasEmbeddedSignature host k file_path opened =
     Guarded file_path (bindE opened (\<lambda>f. MsiHasSignature host k (ByteSpan_of_file f cfb_format ''the file'')))"

definition MsiStripped :: "u64 \<Rightarrow> ByteOrder \<Rightarrow> u64 \<Rightarrow> bytes \<Rightarrow> bytes option res" where
  "MsiStripped size_max host k bs =
     bindE (CfbReader_ParseBytes host bs) (\<lambda>m.
     if FindByEnumeration (root m) MsiSignatureName = None \<and> FindByEnumeration (root m) MsiSignatureExName = None
     then Inr None
     else bindE (WriteCfb size_max host m None k) (\<lambda>(rebuilt, _). Inr (Some rebuilt)))"

definition StripSignature ::
  "u64 \<Rightarrow> ByteOrder \<Rightarrow> u64 \<Rightarrow> (string \<Rightarrow> 'w \<Rightarrow> bytes res) \<Rightarrow> (string \<Rightarrow> bytes \<Rightarrow> 'w \<Rightarrow> unit res \<times> 'w) \<Rightarrow>
   string \<Rightarrow> 'w \<Rightarrow> bool res \<times> 'w" where
  "StripSignature size_max host k read_file write_file file_path w =
     (case bindE (read_file file_path w) (MsiStripped size_max host k) of
        Inl e \<Rightarrow> (Guarded file_path (Inl e), w)
      | Inr None \<Rightarrow> (Inr False, w)
      | Inr (Some rebuilt) \<Rightarrow>
          (case write_file file_path rebuilt w of (r, w') \<Rightarrow> (Guarded file_path (bindE r (\<lambda>_. Inr True)), w')))"

datatype SignatureState = SignatureNone | SignatureMatches | SignatureMismatch | SignatureUnreadable

record SignatureCheck =
  sc_state :: SignatureState
  stored_digest :: bytes
  computed_digest :: bytes
  sc_detail :: string

text \<open>The state of a signature that was read.\<close>

definition CheckBlob :: "ByteOrder \<Rightarrow> SignatureCheck \<Rightarrow> bytes \<Rightarrow> SignatureCheck res" where
  "CheckBlob host check blob =
     bindE (ReadAuthenticodeDigestField host blob) (\<lambda>f.
     if \<not> readable f then Inr (check\<lparr>sc_detail := ''the signature cannot be read: '' @ field_detail f\<rparr>)
     else if \<not> IsSha256 f then
       Inr (check\<lparr>sc_detail := ''the signature uses digest algorithm '' @ field_algorithm f @ '', not SHA-256''\<rparr>)
     else
       let check' = check\<lparr>stored_digest := field_digest f\<rparr> in
       if field_digest f = computed_digest check' then Inr (check'\<lparr>sc_state := SignatureMatches\<rparr>)
       else Inr (check'\<lparr>sc_state := SignatureMismatch,
                        sc_detail := MismatchText (field_digest f) (computed_digest check')\<rparr>))"

definition MsiCheck :: "(bytes \<Rightarrow> bytes) \<Rightarrow> ByteOrder \<Rightarrow> u64 \<Rightarrow> bytes \<Rightarrow> SignatureCheck res" where
  "MsiCheck sha host k bs =
     bindE (CfbReader_ParseBytes host bs) (\<lambda>m.
     bindE (ComputeMsiFingerprint sha host m k) (\<lambda>(computed, m', k').
     let check = \<lparr>sc_state = SignatureNone, stored_digest = [], computed_digest = computed, sc_detail = []\<rparr> in
     case FindSignatureEntry m' of
       None \<Rightarrow> Inr check
     | Some entry \<Rightarrow>
         if node_size entry = 0 then Inr check
         else
           let check' = check\<lparr>sc_state := SignatureUnreadable\<rparr> in
           (case fst (ReadStream host m' entry k') of
              Inl (runtime_error what) \<Rightarrow> Inr (check'\<lparr>sc_detail := what\<rparr>)
            | Inl e \<Rightarrow> Inl e
            | Inr blob \<Rightarrow> CheckBlob host check' blob)))"

definition CheckSignature :: "(bytes \<Rightarrow> bytes) \<Rightarrow> ByteOrder \<Rightarrow> u64 \<Rightarrow> string \<Rightarrow> bytes res \<Rightarrow> SignatureCheck res" where
  "CheckSignature sha host k file_path contents = Guarded file_path (bindE contents (MsiCheck sha host k))"

end
