(* ===== verification/Msi_Signer_Spec.thy ===== *)
theory Msi_Signer_Spec
  imports Msi_Package Msi_Signer Cfb_Example
begin

text \<open>
  The operations of the signer: what an embedded package is, that its signature is read back, that its fingerprint is
  the one before, and that a package which had to match is found to match.
\<close>

section \<open>A package that was checked\<close>











section \<open>The signature of a rebuilt package\<close>





section \<open>The content of a file\<close>












section \<open>Reading the signature back\<close>




lemma sort_by_again: "(\<And>a b. lt a b \<longleftrightarrow> f a < (f b :: 'k :: linorder)) \<Longrightarrow> sort_by lt (sort_by lt xs) = sort_by lt xs"
  by (simp add: sort_by_key [of lt f] sort_key_id_if_sorted)

lemma canonical_sort: "map canonical (sort_by item_less ts) = sort_by item_less (map canonical ts)"
  by (rule map_sort_by [symmetric]) (simp add: item_less_def)

lemma canonical_again [simp]: "canonical (canonical t) = canonical t"
proof (induction t)
  case (StorageItem mt ts)
  then have "map canonical (map canonical ts) = map canonical ts" by simp
  then show ?case by (simp only: canonical.simps canonical_sort sort_by_again [OF item_less_key])
qed simp


section \<open>The operations\<close>






lemma Guarded_Inr [simp]: "Guarded file_path (Inr x) = Inr x"
  by (simp add: Guarded_def)








section \<open>Witnesses\<close>








end
