(* ===== verification/Spec2Isabelle.thy ===== *)
theory Spec2Isabelle
  imports Elf_Parser Pe_Signer Name_Parser File_IO Macho_Parser Dependency_Spec Macho_Complete Plugin_Loader Cfb_Example
    Msi_Signer_Spec
begin

text \<open>
  Verification of libthe-seed, the engine runtime of The Seed (C++).

  The library has four groups of parts. All of them read untrusted bytes through the
  bounds-checked views of \<open>src/internal/BoundedBytes.hpp\<close>, either of a buffer in memory or of a
  file read in pages, and report a bad file as a \<open>std::runtime_error\<close> that starts with the format's name.

  Parsers and the dependency lister. \<open>ElfParser\<close>, \<open>PeParser\<close> and \<open>MachOParser\<close> list the libraries
  a binary names; \<open>DependencyLister\<close> walks them over the file system.

  Signers. \<open>PeSigner\<close>, \<open>MachOSigner\<close> and \<open>MsiSigner\<close> compute what is signed, embed, read and
  remove signatures; each writes its result through \<open>FileIO\<close>, which replaces a file as one step. \<open>MsiSigner\<close>
  works on compound files, read by \<open>CfbReader\<close>.

  Loaders. \<open>ComponentLoader\<close> and \<open>SystemLoader\<close> check a name with \<open>NameParser\<close> and ask a cache
  shared by threads (\<open>PluginCache\<close>), which searches folders and opens libraries (\<open>PluginSearch\<close>);
  \<open>LibraryLoader\<close> opens plain libraries. Their failures are \<open>LoadError\<close> values.

  Paks and scenes, which are not modelled (below).

  Theories, in the order they build on each other:

  \<^item> \<open>Prelude\<close>: words, exceptions as a sum type, loops over lists, byte segments.
  \<^item> \<open>Byte_Swap\<close>, \<open>Paged_File\<close>, \<open>Bounded_Bytes\<close>: \<open>internal/ByteSwap.hpp\<close>,
    \<open>internal/PagedFile.cpp\<close> (the page cache is explicit state over a reader of the file) and
    \<open>internal/BoundedBytes.hpp\<close>. The locale \<open>byte_source\<close> is the interface of a thing that gives bytes;
    memory, a paged file and a view are its interpretations, and every read has one closed form under it.
  \<^item> \<open>Elf_Parser\<close>, \<open>Pe_Parser\<close>, \<open>Macho_Layout\<close>, \<open>Macho_Parser\<close>: the parsers, one definition per
    function or loop of the code. The locale \<open>portable_types\<close> is what the template \<open>ParseElf\<close> needs of its
    type arguments. The lemmas say which names are listed, that they are bounded by the file, and that every
    input is answered or refused without an access outside it.
  \<^item> \<open>Dependency_Lister\<close>, \<open>Dependency_Reference\<close>, \<open>Dependency_Spec\<close>: the graph and its caches
    (\<open>internal/DependencyGraph.hpp\<close>, \<open>DependencyLister.cpp\<close>), the relation \<open>needs\<close> that has neither, and
    the refinement between them.
  \<^item> \<open>Pe_Signer\<close>; \<open>Macho_Signer\<close>, \<open>Macho_Signer_Spec\<close>, \<open>Macho_Complete\<close>: \<open>PeSigner.cpp\<close> and
    \<open>MachOSigner.cpp\<close>, with the round trips of embedding, extraction and removal, and the check a verifier of a
    Mach-O signature makes.
  \<^item> \<open>File_IO\<close>: the POSIX branch of \<open>internal/FileIO.cpp\<close> over a table of system calls. The locale
    \<open>posix\<close> states what is relied on of them; \<open>disk_hooks\<close>, a small disk, is an interpretation.
  \<^item> \<open>Cfb_Reader\<close> (\<open>internal/CfbReader.cpp\<close>, all of it), \<open>Cfb_Chains\<close> and \<open>Cfb_Streams\<close> (what
    the chains of the FAT and the bytes of a stream are), \<open>Cfb_Parse\<close> (every file is answered or refused),
    \<open>Cfb_Sharing\<close> (no byte belongs to two streams), \<open>Cfb_Example\<close> (a package evaluated in full),
    \<open>Cfb_Order\<close> (which streams can be resolved after which, and that the order does not matter).
  \<^item> \<open>Digest_Field\<close>: \<open>internal/AuthenticodeDigestField.cpp\<close>, the DER walk to the fingerprint a signature holds.
  \<^item> \<open>Msi_Authenticode\<close>, \<open>Msi_Fingerprint\<close>: \<open>internal/MsiAuthenticode.cpp\<close>; the content of a package as a
    tree of items, and the fingerprint as a function of that tree.
  \<^item> \<open>Cfb_Writer\<close> (\<open>internal/CfbWriter.cpp\<close>, all of it), \<open>Cfb_Writer_Spec\<close>, \<open>Cfb_Flatten\<close>,
    \<open>Cfb_Rebuild\<close>: what the writer means to write, and that the package it returns is that one.
  \<^item> \<open>Msi_Signer\<close>: \<open>MsiSigner.cpp\<close>, the operations on the signature of a package.
  \<^item> \<open>Load_Error\<close>, \<open>Name_Parser\<close>, \<open>Plugin_Search\<close>, \<open>Plugin_Cache\<close>, \<open>Plugin_Loader\<close>:
    the loaders. The cache is a step relation on threads with program counters; the properties are invariants of
    its reachable states and a bound on its runs.

  How code becomes definitions. An integer of the code is a word of its width, so arithmetic wraps where the code's would.
  A function that may throw returns \<open>res\<close>: \<open>Inl\<close> an exception, or \<open>memory_fault\<close> where the code would
  leave a buffer; that the latter is never returned is part of the safety properties. A loop over a sequence is
  \<open>foldE\<close> or a recursive function named after what it does. What the machine, the file system, the dynamic
  linker and the vendored SHA-256 answer are arguments of the definitions.

  Bounds and fuel. Recursive definitions have termination proofs, except: the write loop of \<open>File_IO\<close> (the retry after
  \<open>EINTR\<close> has no bound), where fuel counts calls and \<open>replacement_terminates\<close> shows which fuel is enough on a system
  that interrupts finitely often; and the walk of \<open>Dependency_Lister\<close>, a \<open>partial_function\<close>, for which
  \<open>listing_terminates\<close> shows that it returns when the file system has finitely many files. Loops the code bounds
  itself (DIFAT sectors, tree search, storages nested at most 32 deep) recurse on that bound. Properties of files bound their size
  (for example below \<open>2 ^ 54\<close> bytes) where the code's 64-bit arithmetic needs it.

  Not modelled. The branches for Windows and macOS (of \<open>FileIO\<close>, \<open>PluginSearch\<close>, \<open>RandomAccessFile\<close>):
  they are not compiled together with the POSIX code and rest on other system calls. \<open>external/picosha2.h\<close> is
  vendored; SHA-256 is a parameter. \<open>RandomAccessFile\<close> is a wrapper of \<open>open\<close>, \<open>fstat\<close> and
  \<open>pread\<close>; it appears as the reader of a paged file. \<open>PakLoader\<close>, \<open>ResourcePak\<close>, \<open>PakIndex\<close> and
  \<open>PakAccess\<close> read JSON through a submodule that is not part of the sources (nlohmann json by way of libecs-cpp),
  \<open>JSONLoader\<close> builds libecs-cpp objects. The tests and the build files are not modelled.
\<close>

end
